(* ===== verification/Prelude.thy ===== *)
theory Prelude
  imports Main "HOL-Library.Word"
begin

text \<open>
  The shared vocabulary of the development: the machine integers of the crate
  (\<open>usize\<close> and \<open>u64\<close> are 64 bits wide, the futex words are \<open>u32\<close>), the checked
  addition of the standard library, lemmas that move bit-field manipulations to
  arithmetic on the fields, sums over a finite set of threads, and executable labelled
  transition systems. A concurrent component is a partial step function
  \<open>'act \<Rightarrow> 's \<Rightarrow> 's option\<close> whose labels name the thread that moves; a run is a list of
  labels (a schedule), and \<open>reachable\<close> quantifies over all schedules. Every step is one
  atomic access of the source, so the schedules are the sequentially consistent
  interleavings of the code.
\<close>

unbundle bit_operations_syntax

named_theorems word_view \<open>what an update of a packed word does to its fields\<close>

type_synonym usize = "64 word"
type_synonym u64 = "64 word"
type_synonym u32 = "32 word"
type_synonym tid = nat

section \<open>Standard library arithmetic\<close>

text \<open>\<open>isize::MAX as usize\<close>.\<close>

definition isize_MAX :: usize where
  "isize_MAX = 0x7FFFFFFFFFFFFFFF"

text \<open>\<open>checked_add\<close> of the unsigned integers: \<open>None\<close> on overflow.\<close>

definition checked_add :: "'a::len word \<Rightarrow> 'a word \<Rightarrow> 'a word option" where
  "checked_add a b =
     (if unat a + unat b < 2 ^ LENGTH('a) then Some (a + b) else None)"

text \<open>\<open>div_ceil\<close> of the unsigned integers, for a non-zero divisor.\<close>

definition div_ceil :: "nat \<Rightarrow> nat \<Rightarrow> nat" where
  "div_ceil a b = (if a mod b = 0 then a div b else a div b + 1)"

text \<open>\<open>is_power_of_two\<close> and \<open>trailing_zeros\<close>, on the values the crate applies them to.\<close>

fun trailing_zeros_upto :: "nat \<Rightarrow> nat \<Rightarrow> nat" where
  "trailing_zeros_upto 0 n = 0"
| "trailing_zeros_upto (Suc k) n =
     (if n mod 2 = 0 then Suc (trailing_zeros_upto k (n div 2)) else 0)"

definition trailing_zeros :: "nat \<Rightarrow> nat" where
  "trailing_zeros n = trailing_zeros_upto 64 n"

definition is_power_of_two :: "nat \<Rightarrow> bool" where
  "is_power_of_two n \<longleftrightarrow> n = 2 ^ trailing_zeros n"

section \<open>Labelled transition systems\<close>

fun run :: "('act \<Rightarrow> 's \<Rightarrow> 's option) \<Rightarrow> 'act list \<Rightarrow> 's \<Rightarrow> 's option" where
  "run f [] s = Some s"
| "run f (a # as) s = (case f a s of None \<Rightarrow> None | Some t \<Rightarrow> run f as t)"

definition reachable :: "('act \<Rightarrow> 's \<Rightarrow> 's option) \<Rightarrow> 's \<Rightarrow> 's \<Rightarrow> bool" where
  "reachable f s0 s \<longleftrightarrow> (\<exists>as. run f as s0 = Some s)"

text \<open>A schedule can be followed to its end and leads to a state with the given property.\<close>

definition run_to :: "('act \<Rightarrow> 's \<Rightarrow> 's option) \<Rightarrow> 'act list \<Rightarrow> 's \<Rightarrow> ('s \<Rightarrow> bool) \<Rightarrow> bool" where
  "run_to f as s0 P \<longleftrightarrow> (case run f as s0 of None \<Rightarrow> False | Some s \<Rightarrow> P s)"

section \<open>Lemmas on arithmetic\<close>

lemma checked_add_code [code]:
  "checked_add a b = (if a \<le> a + b then Some (a + b) else None)" for a b :: "'a::len word"
  by (simp add: checked_add_def no_olen_add_nat)

lemma checked_add_Some_iff:
  "checked_add a b = Some c \<longleftrightarrow> unat a + unat b < 2 ^ LENGTH('a) \<and> c = a + b"
  for a b c :: "'a::len word"
  by (auto simp: checked_add_def)

lemma checked_add_None_iff:
  "checked_add a b = None \<longleftrightarrow> 2 ^ LENGTH('a) \<le> unat a + unat b"
  for a b :: "'a::len word"
  by (auto simp: checked_add_def)

lemma unat_checked_add: "checked_add a b = Some c \<Longrightarrow> unat c = unat a + unat b"
  for a b c :: "'a::len word"
  by (auto simp: checked_add_Some_iff unat_word_ariths)

lemma div_ceil_le: "0 < b \<Longrightarrow> a \<le> div_ceil a b * b"
  by (auto simp: div_ceil_def algebra_simps)
    (metis div_mult_mod_eq le_add1 mod_less_divisor add.commute add_le_cancel_left less_imp_le mult.commute)

lemma div_ceil_pos: "0 < a \<Longrightarrow> 0 < b \<Longrightarrow> 0 < div_ceil a b"
  using div_ceil_le[of b a] by (cases "div_ceil a b") auto

lemma trailing_zeros_upto_pow: "k \<le> n \<Longrightarrow> trailing_zeros_upto n (2 ^ k) = k"
proof (induction k arbitrary: n)
  case 0
  then show ?case by (cases n) auto
next
  case (Suc k)
  then obtain m where "n = Suc m" by (cases n) auto
  with Suc show ?case by simp
qed

lemma trailing_zeros_pow [simp]: "k \<le> 64 \<Longrightarrow> trailing_zeros (2 ^ k) = k"
  by (simp add: trailing_zeros_def trailing_zeros_upto_pow)

lemma is_power_of_twoD: "is_power_of_two n \<Longrightarrow> n = 2 ^ trailing_zeros n"
  by (simp add: is_power_of_two_def)

lemma trailing_zeros_upto_le: "trailing_zeros_upto k n \<le> k"
  by (induction k n rule: trailing_zeros_upto.induct) auto

lemma trailing_zeros_le: "trailing_zeros n \<le> 64"
  by (simp add: trailing_zeros_def trailing_zeros_upto_le)

section \<open>Fields of packed words\<close>

text \<open>
  A packed word is split at bit \<open>n\<close> into \<open>drop_bit n w\<close> and \<open>take_bit n w\<close>. Adding to or
  subtracting from the low field leaves the high one alone as long as the low field does
  not overflow, and symmetrically for the high field.
\<close>

lemma word_split_eq: "drop_bit n v = drop_bit n w \<Longrightarrow> take_bit n v = take_bit n w \<Longrightarrow> v = w"
  for v w :: "'a::len word"
  by (metis bits_ident)

lemma unat_take_bit_word: "unat (take_bit n w) = unat w mod 2 ^ n"
  for w :: "'a::len word"
  by (metis take_bit_eq_mod unsigned_take_bit_eq)

lemma unat_drop_bit_word: "unat (drop_bit n w) = unat w div 2 ^ n"
  for w :: "'a::len word"
  by (simp add: unsigned_drop_bit_eq drop_bit_eq_div take_bit_eq_mod div_exp_mod_exp_eq)
    (metis drop_bit_eq_div unat_drop_bit_eq)

lemma and_not_mask_push_drop: "w AND NOT (mask n) = push_bit n (drop_bit n w)"
  for w :: "'a::len word"
  by (rule bit_eqI) (auto simp: bit_simps)

lemma drop_bit_and_not_mask [simp]: "drop_bit n (w AND NOT (mask n)) = drop_bit n w"
  for w :: "'a::len word"
  by (rule bit_eqI) (auto simp: bit_simps dest: bit_imp_le_length)

lemma div_mod_pow_add:
  "k < 2 ^ n \<Longrightarrow> (2 ^ n * q + k) div 2 ^ n = (q::nat)"
  "k < 2 ^ n \<Longrightarrow> (2 ^ n * q + k) mod 2 ^ n = (k::nat)"
  by simp_all

lemma low_field_inc:
  fixes w :: "'a::len word"
  assumes "unat (take_bit n w) + 1 < 2 ^ n" "n < LENGTH('a)"
  shows "drop_bit n (w + 1) = drop_bit n w"
    and "unat (take_bit n (w + 1)) = unat (take_bit n w) + 1"
proof -
  let ?q = "unat w div 2 ^ n" and ?r = "unat w mod 2 ^ n"
  from assms have r: "?r + 1 < 2 ^ n" by (simp add: unat_take_bit_word)
  have split: "unat w = 2 ^ n * ?q + ?r" by simp
  have len: "(2::nat) ^ LENGTH('a) = 2 ^ n * 2 ^ (LENGTH('a) - n)"
    using assms(2) by (simp flip: power_add)
  have "2 ^ n * ?q < 2 ^ n * 2 ^ (LENGTH('a) - n)"
    using split len unsigned_less[of w, where ?'a = nat] by linarith
  then have "?q + 1 \<le> 2 ^ (LENGTH('a) - n)" by simp
  then have "2 ^ n * (?q + 1) \<le> (2::nat) ^ LENGTH('a)"
    unfolding len by (rule mult_le_mono2)
  with r split have "unat w + 1 < 2 ^ LENGTH('a)" by (simp only: distrib_left)
  then have inc: "unat (w + 1) = 2 ^ n * ?q + (?r + 1)"
    using split by (simp add: unat_word_ariths)
  from r show "drop_bit n (w + 1) = drop_bit n w"
    by (intro word_unat_eq_iff[THEN iffD2])
      (simp only: unat_drop_bit_word inc div_mod_pow_add)
  from r show "unat (take_bit n (w + 1)) = unat (take_bit n w) + 1"
    by (simp only: unat_take_bit_word inc div_mod_pow_add)
qed

lemma low_field_dec:
  fixes w :: "'a::len word"
  assumes "0 < unat (take_bit n w)" "n < LENGTH('a)"
  shows "drop_bit n (w - 1) = drop_bit n w"
    and "unat (take_bit n (w - 1)) = unat (take_bit n w) - 1"
proof -
  let ?q = "unat w div 2 ^ n" and ?r = "unat w mod 2 ^ n"
  from assms have r: "0 < ?r" by (simp add: unat_take_bit_word)
  have split: "unat w = 2 ^ n * ?q + ?r" by simp
  have lt: "?r - 1 < 2 ^ n" by (meson less_imp_diff_less mod_less_divisor zero_less_numeral zero_less_power)
  from r have "w \<noteq> 0" by (metis mod_0 less_irrefl unsigned_0)
  then have "unat (w - 1) = unat w - 1" by (simp add: unat_minus_one)
  with split r have dec: "unat (w - 1) = 2 ^ n * ?q + (?r - 1)" by linarith
  from lt show "drop_bit n (w - 1) = drop_bit n w"
    by (intro word_unat_eq_iff[THEN iffD2])
      (simp only: unat_drop_bit_word dec div_mod_pow_add)
  from lt show "unat (take_bit n (w - 1)) = unat (take_bit n w) - 1"
    by (simp only: unat_take_bit_word dec div_mod_pow_add)
qed

section \<open>Sums over threads\<close>

lemma sum_fun_upd:
  fixes f :: "nat \<Rightarrow> nat"
  assumes "i < n"
  shows "(\<Sum>j<n. (f(i := v)) j) + f i = (\<Sum>j<n. f j) + v"
proof -
  have fin: "finite {..<n}" and mem: "i \<in> {..<n}" using assms by auto
  have rest: "(\<Sum>j\<in>{..<n} - {i}. (f(i := v)) j) = (\<Sum>j\<in>{..<n} - {i}. f j)"
    by (intro sum.cong) auto
  show ?thesis
    using sum.remove[OF fin mem, of "f(i := v)"] sum.remove[OF fin mem, of f] rest by simp
qed

lemma sum_if_upd:
  fixes f :: "nat \<Rightarrow> nat"
  assumes "i < n" "\<And>j. j \<noteq> i \<Longrightarrow> g j = f j"
  shows "(\<Sum>j<n. g j) + f i = (\<Sum>j<n. f j) + g i"
proof -
  have "g = f(i := g i)" using assms(2) by auto
  then show ?thesis using sum_fun_upd[OF assms(1), of f "g i"] by simp
qed

lemma member_le_sum_lt: "i < n \<Longrightarrow> f i \<le> (\<Sum>j<n. f j)" for f :: "nat \<Rightarrow> nat"
  by (intro member_le_sum) auto

lemma sum_pos_ex: "0 < (\<Sum>j<n. f j) \<Longrightarrow> \<exists>i<n. 0 < f i" for f :: "nat \<Rightarrow> nat"
  by (metis gr0I lessThan_iff less_irrefl sum.neutral)

lemma two_members_le_sum:
  fixes f :: "nat \<Rightarrow> nat"
  assumes "i < n" "j < n" "i \<noteq> j"
  shows "f i + f j \<le> (\<Sum>k<n. f k)"
proof -
  have "(\<Sum>k\<in>{i, j}. f k) \<le> (\<Sum>k<n. f k)" using assms by (intro sum_mono2) auto
  with assms show ?thesis by simp
qed

section \<open>Runs and invariants\<close>

lemma run_append: "run f (as @ bs) s = (case run f as s of None \<Rightarrow> None | Some t \<Rightarrow> run f bs t)"
  by (induction as arbitrary: s) (auto split: option.splits)

lemma reachable_refl: "reachable f s s"
  unfolding reachable_def by (rule exI[of _ "[]"]) simp

lemma reachable_step: "reachable f s0 s \<Longrightarrow> f a s = Some t \<Longrightarrow> reachable f s0 t"
  unfolding reachable_def by (metis run.simps option.simps(5) run_append)

lemma reachable_run: "run f as s0 = Some s \<Longrightarrow> reachable f s0 s"
  by (auto simp: reachable_def)

lemma run_toD: "run_to f as s0 P \<Longrightarrow> \<exists>s. reachable f s0 s \<and> run f as s0 = Some s \<and> P s"
  by (auto simp: run_to_def split: option.splits intro: reachable_run)

lemma reachable_induct [consumes 1, case_names init step]:
  assumes "reachable f s0 s" "P s0"
    and "\<And>s a t. reachable f s0 s \<Longrightarrow> P s \<Longrightarrow> f a s = Some t \<Longrightarrow> P t"
  shows "P s"
proof -
  obtain as where "run f as s0 = Some s" using assms(1) by (auto simp: reachable_def)
  then show ?thesis
  proof (induction as arbitrary: s rule: rev_induct)
    case Nil
    then show ?case using assms(2) by simp
  next
    case (snoc a as)
    then obtain u where u: "run f as s0 = Some u" and "f a u = Some s"
      by (auto simp: run_append split: option.splits)
    with snoc.IH[OF u] assms(3) show ?case by (blast intro: reachable_run)
  qed
qed

text \<open>The proof obligations of an invariant.\<close>

locale machine =
  fixes step :: "'act \<Rightarrow> 's \<Rightarrow> 's option"
    and init :: 's
    and inv :: "'s \<Rightarrow> bool"
  assumes inv_init: "inv init"
    and inv_step: "inv s \<Longrightarrow> step a s = Some t \<Longrightarrow> inv t"
begin

lemma always: "reachable step init s \<Longrightarrow> inv s"
proof (induction rule: reachable_induct)
  case init
  show ?case by (rule inv_init)
next
  case (step s a t)
  then show ?case using inv_step by blast
qed

end

end
