(* ===== verification/Backoff.thy ===== *)
theory Backoff
  imports Prelude
begin

text \<open>
  The exponential backoff of \<open>src/core/backoff.rs\<close>. The effects of an operation are a
  \<open>pause\<close>: a number of \<open>spin_loop\<close> hints or one \<open>yield_now\<close>. The value cached in
  \<open>ADAPTIVE_BACKOFF\<close> (the available parallelism, an environment query) is the parameter
  of \<open>backoff_new\<close>. The counters stay below 24, so they are natural numbers.
\<close>

record backoff =
  bo_step :: nat
  spin_limit :: nat
  yield_limit :: nat

datatype pause = Spin nat | Yield

definition backoff_new :: "nat \<Rightarrow> backoff" where
  "backoff_new adaptive =
     (let sl = (if 1 \<le> adaptive \<and> adaptive \<le> 2 then 6
                else if 3 \<le> adaptive \<and> adaptive \<le> 8 then 8
                else if 9 \<le> adaptive \<and> adaptive \<le> 32 then 10
                else 12);
          yl = (if 1 \<le> adaptive \<and> adaptive \<le> 2 then 2
                else if 3 \<le> adaptive \<and> adaptive \<le> 8 then 4
                else if 9 \<le> adaptive \<and> adaptive \<le> 32 then 6
                else 10) + sl
      in \<lparr>bo_step = 0, spin_limit = sl, yield_limit = yl\<rparr>)"

definition backoff_reset :: "backoff \<Rightarrow> backoff" where
  "backoff_reset b = b\<lparr>bo_step := 0\<rparr>"

definition spin :: "backoff \<Rightarrow> pause \<times> backoff" where
  "spin b =
     (let spins = bo_step b
      in (Spin (2 ^ min spins (spin_limit b)),
          if spins \<le> spin_limit b then b\<lparr>bo_step := spins + 1\<rparr> else b))"

definition yielder :: "backoff \<Rightarrow> backoff" where
  "yielder b = b\<lparr>bo_step := spin_limit b + 1\<rparr>"

definition snooze :: "backoff \<Rightarrow> pause \<times> backoff" where
  "snooze b =
     (let spins = bo_step b
      in (if spins \<le> spin_limit b then Spin (2 ^ spins) else Yield,
          if spins \<le> yield_limit b then b\<lparr>bo_step := spins + 1\<rparr> else b))"

definition is_completed :: "backoff \<Rightarrow> bool" where
  "is_completed b \<longleftrightarrow> yield_limit b < bo_step b"

definition is_yielding :: "backoff \<Rightarrow> bool" where
  "is_yielding b \<longleftrightarrow> spin_limit b \<le> bo_step b"

definition cpu_relax :: "nat \<Rightarrow> pause option" where
  "cpu_relax counter =
     (if 10 \<le> counter then None
      else let counter = counter + 1
           in Some (if counter \<le> 3 then Spin (2 ^ counter) else Yield))"

text \<open>Well-formed values: what \<open>backoff_new\<close> builds and every operation keeps.\<close>

definition backoff_wf :: "backoff \<Rightarrow> bool" where
  "backoff_wf b \<longleftrightarrow> spin_limit b < yield_limit b \<and> yield_limit b \<le> 22 \<and> bo_step b \<le> yield_limit b + 1"

text \<open>The state after \<open>n\<close> calls of \<open>snooze\<close>, and the spin hints those calls issue.\<close>

fun snoozes :: "nat \<Rightarrow> backoff \<Rightarrow> backoff" where
  "snoozes 0 b = b"
| "snoozes (Suc n) b = snoozes n (snd (snooze b))"

fun hints_of :: "pause \<Rightarrow> nat" where
  "hints_of (Spin n) = n"
| "hints_of Yield = 0"

fun snooze_hints :: "nat \<Rightarrow> backoff \<Rightarrow> nat" where
  "snooze_hints 0 b = 0"
| "snooze_hints (Suc n) b = hints_of (fst (snooze b)) + snooze_hints n (snd (snooze b))"

lemma backoff_wf_new [simp]: "backoff_wf (backoff_new a)"
  by (auto simp: backoff_wf_def backoff_new_def Let_def)

lemma backoff_new_step: "bo_step (backoff_new a) = 0"
  by (simp add: backoff_new_def Let_def)

lemma backoff_wf_reset [simp]: "backoff_wf b \<Longrightarrow> backoff_wf (backoff_reset b)"
  by (auto simp: backoff_wf_def backoff_reset_def)

lemma backoff_wf_spin [simp]: "backoff_wf b \<Longrightarrow> backoff_wf (snd (spin b))"
  by (auto simp: backoff_wf_def spin_def Let_def)

lemma backoff_wf_yielder [simp]: "backoff_wf b \<Longrightarrow> backoff_wf (yielder b)"
  by (auto simp: backoff_wf_def yielder_def)

lemma backoff_wf_snooze [simp]: "backoff_wf b \<Longrightarrow> backoff_wf (snd (snooze b))"
  by (auto simp: backoff_wf_def snooze_def Let_def)

lemma snooze_limits [simp]:
  "spin_limit (snd (snooze b)) = spin_limit b" "yield_limit (snd (snooze b)) = yield_limit b"
  by (auto simp: snooze_def Let_def)

lemma snooze_step: "bo_step (snd (snooze b)) = (if bo_step b \<le> yield_limit b then bo_step b + 1 else bo_step b)"
  by (auto simp: snooze_def Let_def)

lemma snoozes_limits [simp]:
  "spin_limit (snoozes n b) = spin_limit b" "yield_limit (snoozes n b) = yield_limit b"
  by (induction n arbitrary: b) auto

lemma snoozes_step:
  "backoff_wf b \<Longrightarrow> bo_step (snoozes n b) = min (bo_step b + n) (yield_limit b + 1)"
proof (induction n arbitrary: b)
  case 0
  then show ?case by (simp add: backoff_wf_def)
next
  case (Suc n)
  then show ?case using Suc.IH[of "snd (snooze b)"] by (auto simp: snooze_step backoff_wf_def)
qed

lemma snooze_hints_spin_phase:
  "bo_step b + n \<le> spin_limit b + 1 \<Longrightarrow> spin_limit b < yield_limit b \<Longrightarrow>
   snooze_hints n b + 2 ^ bo_step b = 2 ^ (bo_step b + n)"
proof (induction n arbitrary: b)
  case 0
  then show ?case by simp
next
  case (Suc n)
  have "bo_step (snd (snooze b)) = bo_step b + 1" using Suc.prems by (simp add: snooze_step)
  with Suc.IH[of "snd (snooze b)"] Suc.prems show ?case by (simp add: snooze_def Let_def)
qed

lemma snooze_hints_yield_phase: "spin_limit b < bo_step b \<Longrightarrow> snooze_hints n b = 0"
  by (induction n arbitrary: b) (auto simp: snooze_def Let_def)

lemma snooze_hints_add: "snooze_hints (m + n) b = snooze_hints m b + snooze_hints n (snoozes m b)"
  by (induction m arbitrary: b) auto

section \<open>Properties\<close>

text \<open>
  C40: a loop that snoozes reaches the blocking phase after exactly
  \<open>yield_limit + 1 - bo_step\<close> calls, and stays there: \<open>is_completed\<close> holds after \<open>n\<close> calls
  of \<open>snooze\<close> if and only if \<open>n\<close> is at least that number.
\<close>

theorem snooze_completes:
  assumes "backoff_wf b"
  shows "is_completed (snoozes n b) \<longleftrightarrow> yield_limit b + 1 - bo_step b \<le> n"
  using assms snoozes_step[OF assms, of n] by (auto simp: is_completed_def backoff_wf_def)

theorem snooze_completes_witness:
  "backoff_wf (backoff_new 4) \<and> is_completed (snoozes 13 (backoff_new 4))
   \<and> \<not> is_completed (snoozes 12 (backoff_new 4))"
  using snooze_completes[OF backoff_wf_new[of 4], of 13] snooze_completes[OF backoff_wf_new[of 4], of 12]
  by (simp add: backoff_new_def backoff_wf_def)

text \<open>
  The CPU time of a full backoff is bounded. From a fresh value, the snoozes up to the
  blocking phase issue exactly \<open>2^(spin_limit+1) - 1\<close> spin hints in total, however long
  the loop goes on snoozing afterwards.
\<close>

theorem snooze_hints_total:
  "snooze_hints (spin_limit (backoff_new a) + 1 + n) (backoff_new a)
     = 2 ^ (spin_limit (backoff_new a) + 1) - 1"
proof -
  let ?b = "backoff_new a" and ?m = "spin_limit (backoff_new a) + 1"
  have wf: "backoff_wf ?b" and z: "bo_step ?b = 0" by (simp_all add: backoff_new_step)
  have "snooze_hints ?m ?b + 1 = 2 ^ ?m"
    using snooze_hints_spin_phase[of ?b ?m] wf z by (simp add: backoff_wf_def)
  moreover have "spin_limit (snoozes ?m ?b) < bo_step (snoozes ?m ?b)"
    using wf z snoozes_step[OF wf, of ?m] by (simp add: backoff_wf_def)
  then have "snooze_hints n (snoozes ?m ?b) = 0" by (rule snooze_hints_yield_phase)
  ultimately show ?thesis by (simp only: snooze_hints_add)
qed

text \<open>
  \<open>is_yielding\<close> is documented as "subsequent calls to \<open>snooze\<close> will yield the current
  thread", but the two disagree at the boundary: for every parallelism there is a backoff
  value reached by snoozing from a fresh one where \<open>is_yielding\<close> already holds and the
  next \<open>snooze\<close> still spins, for \<open>2^spin_limit\<close> hints; one more step and it does yield.
\<close>

theorem is_yielding_boundary:
  "let b = snoozes (spin_limit (backoff_new a)) (backoff_new a)
   in is_yielding b \<and> fst (snooze b) = Spin (2 ^ spin_limit b)
      \<and> fst (snooze (snd (snooze b))) = Yield"
proof -
  let ?b = "backoff_new a"
  have wf: "backoff_wf ?b" and z: "bo_step ?b = 0" by (simp_all add: backoff_new_step)
  have "bo_step (snoozes (spin_limit ?b) ?b) = spin_limit ?b"
    using snoozes_step[OF wf, of "spin_limit ?b"] wf z by (simp add: backoff_wf_def)
  with wf show ?thesis
    by (simp add: Let_def is_yielding_def snooze_def backoff_wf_def)
qed

end
