(* ===== verification/Futex.thy ===== *)
theory Futex
  imports Prelude
begin

text \<open>
  The futex interface of \<open>src/core/futex/mod.rs\<close>: a 32-bit word and the threads parked on
  it. The system call behind \<open>platform::wait\<close> compares the word and parks atomically; it
  may also return spuriously, which the machines offer as a separate action
  (\<open>futex_unpark\<close>). \<open>futex_wake\<close> wakes one parked thread of the kernel's choice, given
  here as an argument; \<open>futex_wake_all\<close> wakes all of them.
\<close>

record futex =
  fword :: u32
  waiters :: "tid list"

definition futex_new :: "u32 \<Rightarrow> futex" where
  "futex_new v = \<lparr>fword = v, waiters = []\<rparr>"

text \<open>The result of \<open>futex_wait\<close>: the futex, and whether the caller is parked.\<close>

definition futex_wait :: "futex \<Rightarrow> u32 \<Rightarrow> tid \<Rightarrow> futex \<times> bool" where
  "futex_wait f v i =
     (if fword f = v then (f\<lparr>waiters := waiters f @ [i]\<rparr>, True) else (f, False))"

definition futex_wake :: "futex \<Rightarrow> tid \<Rightarrow> futex" where
  "futex_wake f i = f\<lparr>waiters := remove1 i (waiters f)\<rparr>"

definition futex_wake_all :: "futex \<Rightarrow> futex" where
  "futex_wake_all f = f\<lparr>waiters := []\<rparr>"

text \<open>A spurious return of \<open>futex_wait\<close> in thread \<open>i\<close>.\<close>

definition futex_unpark :: "futex \<Rightarrow> tid \<Rightarrow> futex" where
  "futex_unpark f i = f\<lparr>waiters := removeAll i (waiters f)\<rparr>"

text \<open>\<open>AtomicU32::fetch_add\<close> on the futex word.\<close>

definition futex_add :: "futex \<Rightarrow> u32 \<Rightarrow> futex" where
  "futex_add f v = f\<lparr>fword := fword f + v\<rparr>"

lemmas futex_defs = futex_new_def futex_wait_def futex_wake_def futex_wake_all_def
  futex_unpark_def futex_add_def

end
