(* ===== verification/Serial.thy ===== *)
theory Serial
  imports Backoff Futex
begin

text \<open>
  The reentrant reader/writer lock of \<open>src/core/serial.rs\<close>. One 64-bit word holds the
  acquiring thread's identity (bits 32-63), the waiter flag (bit 31), the writer flag
  (bit 30) and the reader count (bits 0-29); a separate futex word counts notifications.

  The lock is a labelled transition system over any number of threads. A step of a
  thread is one atomic access of the source together with the local computation up to
  the next access; the program counters \<open>spc\<close> name those points. Guards are values that
  may move between threads (\<open>SendRead\<close>, \<open>SendWrite\<close>), as the crate's guards do; a read
  guard carries its acquisition token. Failed assertions end the thread in \<open>SPanic\<close>.
\<close>

definition SM_COUNT :: u64 where
  "SM_COUNT = push_bit 30 1 - 1"

definition SM_WRITE :: u64 where
  "SM_WRITE = push_bit 30 1"

definition SM_WAIT :: u64 where
  "SM_WAIT = push_bit 31 1"

definition U32_MAX64 :: u64 where
  "U32_MAX64 = 0xFFFFFFFF"

record serial_mutex =
  sm_state :: u64
  sm_wake :: futex

definition serial_new :: serial_mutex where
  "serial_new = \<lparr>sm_state = 0, sm_wake = futex_new 0\<rparr>"

text \<open>
  \<open>initialize_owner\<close>: one \<open>fetch_add\<close> on the global counter \<open>NEXT\<close>; \<open>None\<close> is the abort.
  \<open>thread_owner\<close> reads the thread-local cell first.
\<close>

definition initialize_owner :: "usize \<Rightarrow> u64 option \<times> usize" where
  "initialize_owner nxt =
     (if 0xFFFFFFFF \<le> nxt then (None, nxt + 1) else (Some (push_bit 32 nxt), nxt + 1))"

definition thread_owner :: "u64 \<Rightarrow> usize \<Rightarrow> u64 option \<times> usize" where
  "thread_owner cell nxt = (if cell \<noteq> 0 then (Some cell, nxt) else initialize_owner nxt)"

definition desired_word :: "u64 \<Rightarrow> bool \<Rightarrow> u64" where
  "desired_word owner read = owner OR (if read then 1 else SM_WRITE)"

text \<open>The tests of the state word: \<open>is_read_locked\<close>, \<open>is_write_locked\<close> and
  \<open>owned_by_current_thread\<close> (for the identity \<open>owner\<close> of the calling thread).\<close>

definition is_read_locked :: "u64 \<Rightarrow> bool" where
  "is_read_locked st \<longleftrightarrow> st AND SM_COUNT \<noteq> 0"

definition is_write_locked :: "u64 \<Rightarrow> bool" where
  "is_write_locked st \<longleftrightarrow> st AND SM_WRITE \<noteq> 0"

definition owned_by :: "u64 \<Rightarrow> u64 \<Rightarrow> bool" where
  "owned_by owner st \<longleftrightarrow> st AND NOT U32_MAX64 = owner"

datatype serial_panic = ConflictingReentrance | ReaderOverflow | DebugAssert

text \<open>
  What one iteration of \<open>lock_slow\<close> decides after loading the state: retry the acquiring
  exchange with a new word, register as a waiter, or panic.
\<close>

datatype slow_choice = TryNext u64 | Contended | Panics serial_panic

definition slow_decide :: "u64 \<Rightarrow> bool \<Rightarrow> u64 \<Rightarrow> u64 \<Rightarrow> slow_choice" where
  "slow_decide owner read desired st =
     (if st = 0 then TryNext desired
      else if owned_by owner st then
        (if \<not> (read \<and> st AND SM_WRITE = 0) then Panics ConflictingReentrance
         else if st AND SM_COUNT = SM_COUNT then Panics ReaderOverflow
         else TryNext (st + 1))
      else Contended)"

text \<open>The counted release of \<open>unlock_read\<close>: the next word, and whether it is the last reader.\<close>

definition read_release :: "u64 \<Rightarrow> u64 \<times> bool" where
  "read_release st = (let is_last = (st AND SM_COUNT = 1) in (if is_last then 0 else st - 1, is_last))"

datatype spc =
    SIdle
  | SOwner bool                         \<comment> \<open>\<open>lock(read)\<close>: before \<open>thread_owner()\<close>\<close>
  | SFast bool u64                      \<comment> \<open>the exchange from 0 of \<open>lock\<close>\<close>
  | STryOwner                           \<comment> \<open>\<open>try_write_guard\<close>: before \<open>thread_owner()\<close>\<close>
  | STry u64                            \<comment> \<open>its exchange from 0\<close>
  | SSeq bool u64 backoff               \<comment> \<open>\<open>lock_slow\<close>: load the wake sequence\<close>
  | SLoad bool u64 backoff u32          \<comment> \<open>load the state and decide\<close>
  | SNext bool u64 backoff u64 u64      \<comment> \<open>the acquiring exchange\<close>
  | SPark bool u64 backoff u32 u64      \<comment> \<open>register as waiter\<close>
  | SWait bool u64 backoff u32          \<comment> \<open>\<open>futex_wait\<close>\<close>
  | SSleep bool u64 backoff             \<comment> \<open>parked in the kernel\<close>
  | SRelease u32 u64                    \<comment> \<open>\<open>unlock_read\<close>: the counted release, last value seen\<close>
  | SNotify                             \<comment> \<open>\<open>notify\<close>: bump the sequence\<close>
  | SWakeAll                            \<comment> \<open>\<open>notify\<close>: wake the sleepers\<close>
  | SPanic serial_panic

record sthread =
  spc :: spc
  cell :: u64          \<comment> \<open>the thread-local \<open>OWNER\<close>\<close>
  reads :: "u32 list"  \<comment> \<open>tokens of the read guards this thread owns\<close>
  writes :: nat        \<comment> \<open>write guards this thread owns\<close>

record serial_sys =
  mtx :: serial_mutex
  nxt :: usize                    \<comment> \<open>the static \<open>NEXT\<close>\<close>
  threads :: nat
  thr :: "tid \<Rightarrow> sthread"
  par :: nat                      \<comment> \<open>the cached parallelism of the backoff\<close>
  dead :: bool                    \<comment> \<open>the process has aborted\<close>
  notified :: nat                 \<comment> \<open>ghost: bumps of the wake sequence so far\<close>

datatype sact =
    CallRead tid | CallWrite tid | CallTry tid
  | DropRead tid u32 | DropWrite tid
  | SendRead tid tid u32 | SendWrite tid tid
  | SStep tid bool                 \<comment> \<open>one step; the flag makes a weak exchange fail\<close>
  | SSpurious tid

definition serial_init :: "nat \<Rightarrow> nat \<Rightarrow> serial_sys" where
  "serial_init n p =
     \<lparr>mtx = serial_new, nxt = 1, threads = n,
      thr = (\<lambda>_. \<lparr>spc = SIdle, cell = 0, reads = [], writes = 0\<rparr>), par = p, dead = False, notified = 0\<rparr>"

abbreviation (input) set_pc :: "serial_sys \<Rightarrow> tid \<Rightarrow> spc \<Rightarrow> serial_sys" where
  "set_pc s i p \<equiv> s\<lparr>thr := (thr s)(i := (thr s i)\<lparr>spc := p\<rparr>)\<rparr>"

abbreviation (input) set_word :: "serial_sys \<Rightarrow> u64 \<Rightarrow> serial_sys" where
  "set_word s w \<equiv> s\<lparr>mtx := (mtx s)\<lparr>sm_state := w\<rparr>\<rparr>"

abbreviation (input) set_wake :: "serial_sys \<Rightarrow> futex \<Rightarrow> serial_sys" where
  "set_wake s f \<equiv> s\<lparr>mtx := (mtx s)\<lparr>sm_wake := f\<rparr>\<rparr>"

text \<open>\<open>(owner >> 32) as u32\<close>, the token of a read guard.\<close>

definition token :: "u64 \<Rightarrow> u32" where
  "token owner = ucast (drop_bit 32 owner)"

text \<open>The guard a successful acquisition hands out.\<close>

definition acquired :: "serial_sys \<Rightarrow> tid \<Rightarrow> bool \<Rightarrow> u64 \<Rightarrow> serial_sys" where
  "acquired s i read owner =
     s\<lparr>thr := (thr s)(i := (if read
        then (thr s i)\<lparr>spc := SIdle, reads := token owner # reads (thr s i)\<rparr>
        else (thr s i)\<lparr>spc := SIdle, writes := writes (thr s i) + 1\<rparr>))\<rparr>"

definition owner_step :: "serial_sys \<Rightarrow> tid \<Rightarrow> (u64 \<Rightarrow> spc) \<Rightarrow> serial_sys" where
  "owner_step s i k =
     (case thread_owner (cell (thr s i)) (nxt s) of
        (None, n) \<Rightarrow> s\<lparr>nxt := n, dead := True\<rparr>
      | (Some ow, n) \<Rightarrow>
          s\<lparr>nxt := n, thr := (thr s)(i := (thr s i)\<lparr>spc := k ow, cell := ow\<rparr>)\<rparr>)"

text \<open>One step of \<open>lock\<close>, \<open>lock_slow\<close>, \<open>try_write_guard\<close>, \<open>unlock_read\<close> or \<open>notify\<close>.\<close>

fun thread_step :: "serial_sys \<Rightarrow> tid \<Rightarrow> bool \<Rightarrow> spc \<Rightarrow> serial_sys option" where
  "thread_step s i w (SOwner rd) = Some (owner_step s i (SFast rd))"
| "thread_step s i w (SFast rd ow) =
     (if sm_state (mtx s) = 0 then Some (acquired (set_word s (desired_word ow rd)) i rd ow)
      else Some (set_pc s i (SSeq rd ow (backoff_new (par s)))))"
| "thread_step s i w STryOwner = Some (owner_step s i STry)"
| "thread_step s i w (STry ow) =
     (if sm_state (mtx s) = 0 then Some (acquired (set_word s (desired_word ow False)) i False ow)
      else Some (set_pc s i SIdle))"
| "thread_step s i w (SSeq rd ow b) = Some (set_pc s i (SLoad rd ow b (fword (sm_wake (mtx s)))))"
| "thread_step s i w (SLoad rd ow b q) =
     Some (set_pc s i
       (case slow_decide ow rd (desired_word ow rd) (sm_state (mtx s)) of
          TryNext next \<Rightarrow> SNext rd ow b (sm_state (mtx s)) next
        | Panics e \<Rightarrow> SPanic e
        | Contended \<Rightarrow>
            if \<not> is_completed b then SSeq rd ow (snd (snooze b))
            else SPark rd ow b q (sm_state (mtx s))))"
| "thread_step s i w (SNext rd ow b st next) =
     (if sm_state (mtx s) = st \<and> \<not> w then Some (acquired (set_word s next) i rd ow)
      else Some (set_pc s i (SSeq rd ow b)))"
| "thread_step s i w (SPark rd ow b q st) =
     (if sm_state (mtx s) = st
      then Some (set_pc (set_word s (st OR SM_WAIT)) i (SWait rd ow b q))
      else Some (set_pc s i (SSeq rd ow b)))"
| "thread_step s i w (SWait rd ow b q) =
     (case futex_wait (sm_wake (mtx s)) q i of
        (f, True) \<Rightarrow> Some (set_pc (set_wake s f) i (SSleep rd ow b))
      | (f, False) \<Rightarrow> Some (set_pc s i (SSeq rd ow (backoff_reset b))))"
| "thread_step s i w (SSleep rd ow b) =
     (if i \<in> set (waiters (sm_wake (mtx s))) then None
      else Some (set_pc s i (SSeq rd ow (backoff_reset b))))"
| "thread_step s i w (SRelease t st) =
     (if \<not> (st AND SM_WRITE = 0 \<and> st AND SM_COUNT \<noteq> 0) then Some (set_pc s i (SPanic DebugAssert))
      else if sm_state (mtx s) = st \<and> \<not> w then
        (case read_release st of (next, is_last) \<Rightarrow>
           Some (set_pc (set_word s next) i
             (if is_last \<and> st AND SM_WAIT \<noteq> 0 then SNotify else SIdle)))
      else Some (set_pc s i (SRelease t (sm_state (mtx s)))))"
| "thread_step s i w SNotify =
     Some ((set_pc (set_wake s (futex_add (sm_wake (mtx s)) 1)) i SWakeAll)
             \<lparr>notified := notified s + 1\<rparr>)"
| "thread_step s i w SWakeAll =
     Some (set_pc (set_wake s (futex_wake_all (sm_wake (mtx s)))) i SIdle)"
| "thread_step s i w SIdle = None"
| "thread_step s i w (SPanic e) = None"

text \<open>
  \<open>unlock_read\<close> starts with the exchange of the exact word of a lone reader; \<open>unlock_write\<close>
  is a swap.
\<close>

definition drop_read :: "serial_sys \<Rightarrow> tid \<Rightarrow> u32 \<Rightarrow> serial_sys" where
  "drop_read s i t =
     (let expected = push_bit 32 (ucast t) OR 1;
          s' = s\<lparr>thr := (thr s)(i := (thr s i)\<lparr>reads := remove1 t (reads (thr s i))\<rparr>)\<rparr>
      in if sm_state (mtx s) = expected then set_word s' 0
         else set_pc s' i (SRelease t (sm_state (mtx s))))"

definition drop_write :: "serial_sys \<Rightarrow> tid \<Rightarrow> serial_sys" where
  "drop_write s i =
     (let st = sm_state (mtx s);
          s' = (set_word s 0)\<lparr>thr := (thr s)(i := (thr s i)\<lparr>writes := writes (thr s i) - 1\<rparr>)\<rparr>
      in if st AND SM_WRITE = 0 then set_pc s' i (SPanic DebugAssert)
         else if st AND SM_WAIT \<noteq> 0 then set_pc s' i SNotify else s')"

definition serial_step :: "sact \<Rightarrow> serial_sys \<Rightarrow> serial_sys option" where
  "serial_step a s =
     (let ok = (\<lambda>i. i < threads s \<and> spc (thr s i) = SIdle) in
      if dead s then None else
      case a of
        CallRead i \<Rightarrow> if ok i then Some (set_pc s i (SOwner True)) else None
      | CallWrite i \<Rightarrow> if ok i then Some (set_pc s i (SOwner False)) else None
      | CallTry i \<Rightarrow> if ok i then Some (set_pc s i STryOwner) else None
      | DropRead i t \<Rightarrow> if ok i \<and> t \<in> set (reads (thr s i)) then Some (drop_read s i t) else None
      | DropWrite i \<Rightarrow> if ok i \<and> 0 < writes (thr s i) then Some (drop_write s i) else None
      | SendRead i j t \<Rightarrow>
          if i < threads s \<and> j < threads s \<and> i \<noteq> j \<and> t \<in> set (reads (thr s i)) then
            Some (s\<lparr>thr := (thr s)(i := (thr s i)\<lparr>reads := remove1 t (reads (thr s i))\<rparr>,
                                   j := (thr s j)\<lparr>reads := t # reads (thr s j)\<rparr>)\<rparr>)
          else None
      | SendWrite i j \<Rightarrow>
          if i < threads s \<and> j < threads s \<and> i \<noteq> j \<and> 0 < writes (thr s i) then
            Some (s\<lparr>thr := (thr s)(i := (thr s i)\<lparr>writes := writes (thr s i) - 1\<rparr>,
                                   j := (thr s j)\<lparr>writes := writes (thr s j) + 1\<rparr>)\<rparr>)
          else None
      | SStep i w \<Rightarrow> if i < threads s then thread_step s i w (spc (thr s i)) else None
      | SSpurious i \<Rightarrow>
          if i < threads s then Some (set_wake s (futex_unpark (sm_wake (mtx s)) i)) else None)"

end
