(* ===== verification/Serial_Safety.thy ===== *)
theory Serial_Safety
  imports Serial
begin

text \<open>
  Safety of \<open>SerialMutex\<close>: the fields of the packed word, the abstract lock it implements,
  and the invariant that ties the word to the guards in existence.
\<close>

section \<open>The fields of the state word\<close>

definition sm_own :: "u64 \<Rightarrow> u64" where
  "sm_own st = drop_bit 32 st"

definition sm_writing :: "u64 \<Rightarrow> bool" where
  "sm_writing st = bit st 30"

definition sm_waiting :: "u64 \<Rightarrow> bool" where
  "sm_waiting st = bit st 31"

definition sm_count :: "u64 \<Rightarrow> nat" where
  "sm_count st = unat (take_bit 30 st)"

definition valid_owner :: "u64 \<Rightarrow> bool" where
  "valid_owner ow \<longleftrightarrow> take_bit 32 ow = 0 \<and> ow \<noteq> 0"

lemmas sm_view_defs = sm_own_def sm_writing_def sm_waiting_def sm_count_def

lemma SM_COUNT_mask: "SM_COUNT = mask 30"
  by (simp add: SM_COUNT_def mask_eq_exp_minus_1)

lemma U32_MAX64_mask: "U32_MAX64 = mask 32"
  by (simp add: U32_MAX64_def mask_eq_exp_minus_1)

lemma and_SM_COUNT: "st AND SM_COUNT = take_bit 30 st"
  by (simp add: SM_COUNT_mask take_bit_eq_mask)

lemma and_SM_COUNT_0 [word_view]: "st AND SM_COUNT = 0 \<longleftrightarrow> sm_count st = 0"
  by (simp add: and_SM_COUNT sm_count_def unat_eq_0)

lemma and_SM_COUNT_1 [word_view]: "st AND SM_COUNT = 1 \<longleftrightarrow> sm_count st = 1"
  by (simp add: and_SM_COUNT sm_count_def word_unat_eq_iff)

lemma and_SM_COUNT_max [word_view]: "st AND SM_COUNT = SM_COUNT \<longleftrightarrow> sm_count st = 2 ^ 30 - 1"
  by (simp only: and_SM_COUNT sm_count_def word_unat_eq_iff) (simp add: SM_COUNT_def)

lemma and_SM_WRITE [word_view]: "st AND SM_WRITE = 0 \<longleftrightarrow> \<not> sm_writing st"
  using and_exp_eq_0_iff_not_bit[of st 30]
  by (simp add: SM_WRITE_def sm_writing_def push_bit_eq_mult)

lemma and_SM_WAIT [word_view]: "st AND SM_WAIT = 0 \<longleftrightarrow> \<not> sm_waiting st"
  using and_exp_eq_0_iff_not_bit[of st 31]
  by (simp add: SM_WAIT_def sm_waiting_def push_bit_eq_mult)

lemma owned_by_iff [word_view]: "valid_owner ow \<Longrightarrow> owned_by ow st \<longleftrightarrow> sm_own st = sm_own ow"
proof -
  assume "valid_owner ow"
  then have "ow = push_bit 32 (drop_bit 32 ow)"
    using bits_ident[of 32 ow] by (simp add: valid_owner_def)
  then show ?thesis
    unfolding owned_by_def sm_own_def U32_MAX64_mask and_not_mask_push_drop
    by (metis drop_bit_and_not_mask and_not_mask_push_drop)
qed

lemma sm_count_less: "sm_count st < 2 ^ 30"
  by (simp add: sm_count_def unat_take_bit_word)

lemma sm_view_0 [simp]:
  "sm_own 0 = 0" "\<not> sm_writing 0" "\<not> sm_waiting 0" "sm_count 0 = 0"
  by (simp_all add: sm_view_defs)

lemma sm_high_eq:
  assumes "drop_bit 30 v = drop_bit 30 w"
  shows "sm_own v = sm_own w" "sm_writing v = sm_writing w" "sm_waiting v = sm_waiting w"
proof -
  have "drop_bit 2 (drop_bit 30 v) = drop_bit 2 (drop_bit 30 w)"
    "bit (drop_bit 30 v) 0 = bit (drop_bit 30 w) 0" "bit (drop_bit 30 v) 1 = bit (drop_bit 30 w) 1"
    by (simp_all only: assms)
  then show "sm_own v = sm_own w" "sm_writing v = sm_writing w" "sm_waiting v = sm_waiting w"
    by (simp_all add: sm_view_defs bit_drop_bit_eq)
qed

lemma sm_view_inc:
  assumes "sm_count st \<noteq> 2 ^ 30 - 1"
  shows "sm_own (st + 1) = sm_own st" "sm_writing (st + 1) = sm_writing st"
    "sm_waiting (st + 1) = sm_waiting st" "sm_count (st + 1) = sm_count st + 1"
proof -
  have "unat (take_bit 30 st) + 1 < 2 ^ 30"
    using assms sm_count_less[of st] by (simp add: sm_count_def)
  note field = low_field_inc[OF this]
  from sm_high_eq[OF field(1)] field(2) show "sm_own (st + 1) = sm_own st"
    "sm_writing (st + 1) = sm_writing st" "sm_waiting (st + 1) = sm_waiting st"
    "sm_count (st + 1) = sm_count st + 1"
    by (simp_all add: sm_count_def)
qed

lemma sm_view_dec:
  assumes "sm_count st \<noteq> 0"
  shows "sm_own (st - 1) = sm_own st" "sm_writing (st - 1) = sm_writing st"
    "sm_waiting (st - 1) = sm_waiting st" "sm_count (st - 1) = sm_count st - 1"
proof -
  have "0 < unat (take_bit 30 st)" using assms by (simp add: sm_count_def)
  note field = low_field_dec[OF this]
  from sm_high_eq[OF field(1)] field(2) show "sm_own (st - 1) = sm_own st"
    "sm_writing (st - 1) = sm_writing st" "sm_waiting (st - 1) = sm_waiting st"
    "sm_count (st - 1) = sm_count st - 1"
    by (simp_all add: sm_count_def)
qed

lemma sm_view_wait [simp]:
  "sm_own (st OR SM_WAIT) = sm_own st" "sm_writing (st OR SM_WAIT) = sm_writing st"
  "sm_waiting (st OR SM_WAIT)" "sm_count (st OR SM_WAIT) = sm_count st"
  by (simp_all add: sm_view_defs SM_WAIT_def bit_simps)

lemma sm_view_desired:
  assumes "valid_owner ow"
  shows "sm_own (desired_word ow rd) = sm_own ow" "sm_writing (desired_word ow rd) = (\<not> rd)"
    "\<not> sm_waiting (desired_word ow rd)" "sm_count (desired_word ow rd) = (if rd then 1 else 0)"
proof -
  have low: "\<not> bit ow k" if "k < 32" for k
    using assms that bit_take_bit_iff[of 32 ow k] by (simp add: valid_owner_def)
  have "take_bit 30 ow = 0"
    by (rule bit_eqI) (use low in \<open>simp add: bit_simps\<close>)
  then show "sm_own (desired_word ow rd) = sm_own ow" "sm_writing (desired_word ow rd) = (\<not> rd)"
    "\<not> sm_waiting (desired_word ow rd)" "sm_count (desired_word ow rd) = (if rd then 1 else 0)"
    by (auto simp: desired_word_def sm_view_defs SM_WRITE_def low bit_simps)
qed

lemma ucast_token: "valid_owner ow \<Longrightarrow> ucast (token ow) = sm_own ow"
  by (rule bit_word_eqI) (auto simp: token_def sm_own_def bit_simps dest: bit_imp_le_length)

lemma ucast_u32_inj: "(ucast u :: u64) = ucast v \<Longrightarrow> u = v" for u v :: u32
proof (rule bit_word_eqI)
  fix k assume "(ucast u :: u64) = ucast v" "k < LENGTH(32)"
  then show "bit u k = bit v k" using bit_unsigned_iff[of u k, where 'a = "64 word"]
      bit_unsigned_iff[of v k, where 'a = "64 word"] by simp
qed

lemma expected_word: "valid_owner ow \<Longrightarrow> push_bit 32 (ucast (token ow)) OR 1 = desired_word ow True"
  using bits_ident[of 32 ow] by (simp add: ucast_token desired_word_def valid_owner_def sm_own_def)

section \<open>The invariant\<close>

text \<open>The read guards a thread accounts for, the one it is releasing included.\<close>

definition read_tokens :: "sthread \<Rightarrow> u32 list" where
  "read_tokens th = reads th @ (case spc th of SRelease t _ \<Rightarrow> [t] | _ \<Rightarrow> [])"

definition total_reads :: "nat \<Rightarrow> (tid \<Rightarrow> sthread) \<Rightarrow> nat" where
  "total_reads n f = (\<Sum>i<n. length (read_tokens (f i)))"

definition total_writes :: "nat \<Rightarrow> (tid \<Rightarrow> sthread) \<Rightarrow> nat" where
  "total_writes n f = (\<Sum>i<n. writes (f i))"

text \<open>The word counts the guards, and every read guard carries the identity in the word.\<close>

definition guards_ok :: "nat \<Rightarrow> u64 \<Rightarrow> (tid \<Rightarrow> sthread) \<Rightarrow> bool" where
  "guards_ok n w f \<longleftrightarrow>
     total_reads n f = sm_count w \<and>
     total_writes n f = of_bool (sm_writing w) \<and>
     (sm_writing w \<longrightarrow> sm_count w = 0) \<and>
     (w \<noteq> 0 \<longrightarrow> 0 < sm_count w \<or> sm_writing w) \<and>
     (\<forall>i<n. \<forall>t\<in>set (read_tokens (f i)). sm_own w = ucast t)"

text \<open>What the program counter of a thread with identity \<open>c\<close> remembers.\<close>

fun pc_ok :: "u64 \<Rightarrow> spc \<Rightarrow> bool" where
  "pc_ok c (SFast rd ow) = (ow = c \<and> c \<noteq> 0)"
| "pc_ok c (STry ow) = (ow = c \<and> c \<noteq> 0)"
| "pc_ok c (SSeq rd ow b) = (ow = c \<and> c \<noteq> 0)"
| "pc_ok c (SLoad rd ow b q) = (ow = c \<and> c \<noteq> 0)"
| "pc_ok c (SNext rd ow b st next) =
     (ow = c \<and> c \<noteq> 0 \<and>
      (st = 0 \<and> next = desired_word c rd \<or>
       rd \<and> st \<noteq> 0 \<and> sm_own st = sm_own c \<and> \<not> sm_writing st \<and> sm_count st \<noteq> 2 ^ 30 - 1 \<and> next = st + 1))"
| "pc_ok c (SPark rd ow b q st) = (ow = c \<and> c \<noteq> 0 \<and> st \<noteq> 0)"
| "pc_ok c (SWait rd ow b q) = (ow = c \<and> c \<noteq> 0)"
| "pc_ok c (SSleep rd ow b) = (ow = c \<and> c \<noteq> 0)"
| "pc_ok c (SRelease t st) = (\<not> sm_writing st \<and> sm_count st \<noteq> 0)"
| "pc_ok c (SPanic e) = (e \<noteq> DebugAssert)"
| "pc_ok c p = True"

text \<open>Identities are handed out in order, fit their field and are never shared.\<close>

definition owners_ok :: "nat \<Rightarrow> usize \<Rightarrow> bool \<Rightarrow> (tid \<Rightarrow> sthread) \<Rightarrow> bool" where
  "owners_ok n nx dd f \<longleftrightarrow>
     0 < unat nx \<and> (\<not> dd \<longrightarrow> unat nx < 2 ^ 32) \<and>
     (\<forall>i<n. cell (f i) \<noteq> 0 \<longrightarrow> valid_owner (cell (f i)) \<and> (\<not> dd \<longrightarrow> unat (sm_own (cell (f i))) < unat nx)) \<and>
     (\<forall>i<n. \<forall>j<n. cell (f i) \<noteq> 0 \<longrightarrow> cell (f i) = cell (f j) \<longrightarrow> i = j)"

text \<open>The identity in a locked word is that of one of the threads.\<close>

definition holder_ok :: "nat \<Rightarrow> u64 \<Rightarrow> (tid \<Rightarrow> sthread) \<Rightarrow> bool" where
  "holder_ok n w f \<longleftrightarrow> (w \<noteq> 0 \<longrightarrow> (\<exists>k<n. cell (f k) \<noteq> 0 \<and> sm_own w = sm_own (cell (f k))))"

definition serial_inv :: "serial_sys \<Rightarrow> bool" where
  "serial_inv s \<longleftrightarrow>
     guards_ok (threads s) (sm_state (mtx s)) (thr s) \<and>
     owners_ok (threads s) (nxt s) (dead s) (thr s) \<and>
     holder_ok (threads s) (sm_state (mtx s)) (thr s) \<and>
     (\<forall>i<threads s. pc_ok (cell (thr s i)) (spc (thr s i)))"

lemma read_tokens_simps [simp]:
  "spc th = SRelease t st \<Longrightarrow> read_tokens th = reads th @ [t]"
  "(\<And>t st. spc th \<noteq> SRelease t st) \<Longrightarrow> read_tokens th = reads th"
  by (auto simp: read_tokens_def split: spc.splits)

lemma total_reads_upd:
  "i < n \<Longrightarrow> total_reads n (f(i := th)) + length (read_tokens (f i)) = total_reads n f + length (read_tokens th)"
  using sum_if_upd[of i n "\<lambda>j. length (read_tokens ((f(i := th)) j))" "\<lambda>j. length (read_tokens (f j))"]
  by (simp add: total_reads_def)

lemma total_writes_upd:
  "i < n \<Longrightarrow> total_writes n (f(i := th)) + writes (f i) = total_writes n f + writes th"
  using sum_if_upd[of i n "\<lambda>j. writes ((f(i := th)) j)" "\<lambda>j. writes (f j)"]
  by (simp add: total_writes_def)

lemma total_reads_ge: "i < n \<Longrightarrow> length (read_tokens (f i)) \<le> total_reads n f"
  unfolding total_reads_def by (rule member_le_sum_lt)

lemma total_writes_ge: "i < n \<Longrightarrow> writes (f i) \<le> total_writes n f"
  unfolding total_writes_def by (rule member_le_sum_lt)

text \<open>How the guard accounting moves with the word.\<close>

lemma guards_ok_same:
  assumes "guards_ok n w f" "i < n" "read_tokens th = read_tokens (f i)" "writes th = writes (f i)"
  shows "guards_ok n w (f(i := th))"
  using assms total_reads_upd[of i n f th] total_writes_upd[of i n f th]
  by (auto simp: guards_ok_def)

lemma guards_ok_reorder:
  assumes "guards_ok n w f" "i < n" "length (read_tokens th) = length (read_tokens (f i))"
    "set (read_tokens th) \<subseteq> set (read_tokens (f i))" "writes th = writes (f i)"
  shows "guards_ok n w (f(i := th))"
proof -
  have "sm_own w = ucast t" if "k < n" "t \<in> set (read_tokens ((f(i := th)) k))" for k t
  proof -
    from that(2) assms(4) have "t \<in> set (read_tokens (f k)) \<union> set (read_tokens (f i))"
      by (auto split: if_splits)
    with that(1) assms(1,2) show ?thesis unfolding guards_ok_def by blast
  qed
  then show ?thesis
    using assms total_reads_upd[of i n f th] total_writes_upd[of i n f th] by (simp add: guards_ok_def)
qed

lemma guards_ok_send:
  assumes "guards_ok n w f" "i < n" "j < n" "i \<noteq> j"
    "length (read_tokens a) + length (read_tokens b) = length (read_tokens (f i)) + length (read_tokens (f j))"
    "set (read_tokens a) \<union> set (read_tokens b) \<subseteq> set (read_tokens (f i)) \<union> set (read_tokens (f j))"
    "writes a + writes b = writes (f i) + writes (f j)"
  shows "guards_ok n w (f(i := a, j := b))"
proof -
  have "total_reads n (f(i := a, j := b)) = total_reads n f"
    using total_reads_upd[OF assms(2), of f a] total_reads_upd[OF assms(3), of "f(i := a)" b] assms(4,5)
    by simp
  moreover have "total_writes n (f(i := a, j := b)) = total_writes n f"
    using total_writes_upd[OF assms(2), of f a] total_writes_upd[OF assms(3), of "f(i := a)" b] assms(4,7)
    by simp
  moreover have "sm_own w = ucast t" if "k < n" "t \<in> set (read_tokens ((f(i := a, j := b)) k))" for k t
  proof -
    from that(2) assms(6) have "t \<in> set (read_tokens (f k)) \<union> set (read_tokens (f i)) \<union> set (read_tokens (f j))"
      by (auto split: if_splits)
    with that(1) assms(1-3) show ?thesis unfolding guards_ok_def by blast
  qed
  ultimately show ?thesis using assms(1) by (simp add: guards_ok_def)
qed

lemma guards_ok_read:
  assumes "guards_ok n w f" "i < n" "length (read_tokens th) = Suc (length (read_tokens (f i)))"
    "set (read_tokens th) \<subseteq> insert t (set (read_tokens (f i)))" "writes th = writes (f i)"
    "sm_count w' = sm_count w + 1" "\<not> sm_writing w" "\<not> sm_writing w'" "sm_own w' = ucast t"
    "w = 0 \<or> sm_own w = ucast t"
  shows "guards_ok n w' (f(i := th))"
proof -
  have "read_tokens (f j) = []" if "w = 0" "j < n" for j
    using assms(1) that total_reads_ge[of j n f] by (auto simp: guards_ok_def)
  then have "\<forall>j<n. \<forall>u\<in>set (read_tokens (f j)). ucast u = (ucast t :: u64)"
    using assms(1,10) by (fastforce simp: guards_ok_def)
  with assms total_reads_upd[of i n f th] total_writes_upd[of i n f th] show ?thesis
    by (auto simp: guards_ok_def)
qed

lemma guards_ok_write:
  assumes "guards_ok n 0 f" "i < n" "read_tokens th = read_tokens (f i)" "writes th = writes (f i) + 1"
    "sm_count w' = 0" "sm_writing w'"
  shows "guards_ok n w' (f(i := th))"
proof -
  have none: "read_tokens (f j) = []" if "j < n" for j
    using assms(1) that total_reads_ge[of j n f] by (auto simp: guards_ok_def)
  with assms total_reads_upd[of i n f th] total_writes_upd[of i n f th] show ?thesis
    by (auto simp: guards_ok_def)
qed

lemma guards_ok_unread:
  assumes "guards_ok n w f" "i < n" "length (read_tokens (f i)) = Suc (length (read_tokens th))"
    "set (read_tokens th) \<subseteq> set (read_tokens (f i))" "writes th = writes (f i)"
    "sm_count w' = sm_count w - 1" "\<not> sm_writing w'" "sm_count w = 1 \<Longrightarrow> w' = 0"
    "sm_count w \<noteq> 1 \<Longrightarrow> sm_own w' = sm_own w"
  shows "guards_ok n w' (f(i := th))"
proof -
  have pos: "sm_count w \<noteq> 0"
    using assms(1-3) total_reads_ge[of i n f] by (auto simp: guards_ok_def)
  then have nw: "\<not> sm_writing w" using assms(1) by (auto simp: guards_ok_def)
  have tot: "total_reads n (f(i := th)) = sm_count w - 1" "total_writes n (f(i := th)) = 0"
    using assms nw total_reads_upd[of i n f th] total_writes_upd[of i n f th]
    by (auto simp: guards_ok_def)
  have "sm_own w' = ucast u" if "j < n" "u \<in> set (read_tokens ((f(i := th)) j))" for j u
  proof (cases "sm_count w = 1")
    case True
    then have "read_tokens ((f(i := th)) j) = []"
      using tot(1) total_reads_ge[OF that(1), of "f(i := th)"] by simp
    with that show ?thesis by simp
  next
    case False
    then show ?thesis using assms(1,2,4,9) that by (auto simp: guards_ok_def split: if_splits)
  qed
  with assms tot pos nw show ?thesis
    by (cases "sm_count w = 1") (auto simp: guards_ok_def)
qed

lemma guards_ok_unwrite:
  assumes "guards_ok n w f" "i < n" "read_tokens th = read_tokens (f i)" "0 < writes (f i)"
    "writes th = writes (f i) - 1"
  shows "guards_ok n 0 (f(i := th))" "sm_writing w"
proof -
  show wr: "sm_writing w"
    using assms(1,2,4) total_writes_ge[of i n f] by (auto simp: guards_ok_def split: if_splits)
  have none: "read_tokens (f j) = []" if "j < n" for j
    using assms(1) that wr total_reads_ge[of j n f] by (auto simp: guards_ok_def)
  with assms wr total_reads_upd[of i n f th] total_writes_upd[of i n f th]
  show "guards_ok n 0 (f(i := th))" by (auto simp: guards_ok_def)
qed

lemma guards_ok_word:
  assumes "guards_ok n w f" "sm_count w' = sm_count w" "sm_writing w' = sm_writing w"
    "sm_own w' = sm_own w" "w \<noteq> 0"
  shows "guards_ok n w' f"
  using assms by (auto simp: guards_ok_def)

section \<open>Every step keeps the invariant\<close>

definition not_releasing :: "sthread \<Rightarrow> bool" where
  "not_releasing th \<longleftrightarrow> (\<forall>t st. spc th \<noteq> SRelease t st)"

lemma serial_inv_upd:
  assumes "serial_inv s" "i < threads s" "threads s' = threads s" "thr s' = (thr s)(i := th)"
    "nxt s' = nxt s" "dead s' = dead s" "cell th = cell (thr s i)" "pc_ok (cell th) (spc th)"
    "guards_ok (threads s) (sm_state (mtx s')) ((thr s)(i := th))"
    "sm_state (mtx s') = 0 \<or>
     sm_state (mtx s) \<noteq> 0 \<and> sm_own (sm_state (mtx s')) = sm_own (sm_state (mtx s)) \<or>
     cell th \<noteq> 0 \<and> sm_own (sm_state (mtx s')) = sm_own (cell th)"
  shows "serial_inv s'"
proof -
  have c: "cell (((thr s)(i := th)) j) = cell (thr s j)" for j using assms(7) by simp
  have "owners_ok (threads s) (nxt s) (dead s) ((thr s)(i := th))"
    unfolding owners_ok_def c using assms(1) by (simp add: serial_inv_def owners_ok_def)
  moreover have "holder_ok (threads s) (sm_state (mtx s')) ((thr s)(i := th))"
    unfolding holder_ok_def c
  proof
    assume "sm_state (mtx s') \<noteq> 0"
    then consider "cell (thr s i) \<noteq> 0" "sm_own (sm_state (mtx s')) = sm_own (cell (thr s i))"
      | "sm_state (mtx s) \<noteq> 0" "sm_own (sm_state (mtx s')) = sm_own (sm_state (mtx s))"
      using assms(7,10) by metis
    then show "\<exists>k<threads s. cell (thr s k) \<noteq> 0 \<and> sm_own (sm_state (mtx s')) = sm_own (cell (thr s k))"
      using assms(1,2) by cases (auto simp: serial_inv_def holder_ok_def)
  qed
  moreover have "pc_ok (cell (((thr s)(i := th)) j)) (spc (((thr s)(i := th)) j))" if "j < threads s" for j
    using assms(1,8) that by (simp add: serial_inv_def)
  ultimately show ?thesis using assms(3-6,9) by (simp add: serial_inv_def)
qed

lemma inv_move:
  assumes "serial_inv s" "i < threads s" "not_releasing (thr s i)" "\<And>t st. p \<noteq> SRelease t st"
    "pc_ok (cell (thr s i)) p" "threads s' = threads s" "nxt s' = nxt s" "dead s' = dead s"
    "thr s' = (thr s)(i := (thr s i)\<lparr>spc := p\<rparr>)" "sm_state (mtx s') = sm_state (mtx s)"
  shows "serial_inv s'"
proof (rule serial_inv_upd[OF assms(1,2,6,9,7,8)])
  show "guards_ok (threads s) (sm_state (mtx s')) ((thr s)(i := (thr s i)\<lparr>spc := p\<rparr>))"
    using assms by (intro guards_ok_same) (auto simp: serial_inv_def not_releasing_def)
qed (use assms in auto)

lemma inv_mark_wait:
  assumes "serial_inv s" "i < threads s" "not_releasing (thr s i)" "\<And>t st. p \<noteq> SRelease t st"
    "pc_ok (cell (thr s i)) p" "sm_state (mtx s) \<noteq> 0"
  shows "serial_inv (set_pc (set_word s (sm_state (mtx s) OR SM_WAIT)) i p)"
proof (rule serial_inv_upd[OF assms(1,2)])
  have "guards_ok (threads s) (sm_state (mtx s)) ((thr s)(i := (thr s i)\<lparr>spc := p\<rparr>))"
    using assms by (intro guards_ok_same) (auto simp: serial_inv_def not_releasing_def)
  then show "guards_ok (threads s)
     (sm_state (mtx (set_pc (set_word s (sm_state (mtx s) OR SM_WAIT)) i p)))
     ((thr s)(i := (thr s i)\<lparr>spc := p\<rparr>))"
    using assms(6) by simp (erule guards_ok_word, simp_all)
qed (use assms in auto)

lemma valid_cell: "serial_inv s \<Longrightarrow> i < threads s \<Longrightarrow> cell (thr s i) \<noteq> 0 \<Longrightarrow> valid_owner (cell (thr s i))"
  by (auto simp: serial_inv_def owners_ok_def)

lemma acquired_fields [simp]:
  "threads (acquired s i rd ow) = threads s" "nxt (acquired s i rd ow) = nxt s"
  "dead (acquired s i rd ow) = dead s" "mtx (acquired s i rd ow) = mtx s"
  "notified (acquired s i rd ow) = notified s"
  by (auto simp: acquired_def)

lemma inv_acquire_free:
  assumes inv: "serial_inv s" and i: "i < threads s" "not_releasing (thr s i)"
    and c: "cell (thr s i) \<noteq> 0" and free: "sm_state (mtx s) = 0"
  shows "serial_inv (acquired (set_word s (desired_word (cell (thr s i)) rd)) i rd (cell (thr s i)))"
proof -
  let ?c = "cell (thr s i)" and ?f = "thr s" and ?n = "threads s"
  let ?th = "if rd then (?f i)\<lparr>spc := SIdle, reads := token ?c # reads (?f i)\<rparr>
             else (?f i)\<lparr>spc := SIdle, writes := writes (?f i) + 1\<rparr>"
  note v = valid_cell[OF inv i(1) c]
  have g0: "guards_ok ?n 0 ?f" using inv free by (auto simp: serial_inv_def)
  have old: "read_tokens (?f i) = reads (?f i)" using i(2) by (auto simp: not_releasing_def)
  have "guards_ok ?n (desired_word ?c rd) (?f(i := ?th))"
  proof (cases rd)
    case True
    show ?thesis
      using guards_ok_read[OF g0 i(1), of ?th "token ?c" "desired_word ?c rd"]
        sm_view_desired[OF v, of rd] ucast_token[OF v] True old by auto
  next
    case False
    show ?thesis
      using guards_ok_write[OF g0 i(1), of ?th "desired_word ?c rd"] sm_view_desired[OF v, of rd] False old
      by auto
  qed
  then show ?thesis
    by (intro serial_inv_upd[OF inv i(1), of _ ?th])
      (use c v in \<open>auto simp: acquired_def sm_view_desired\<close>)
qed

lemma inv_acquire_again:
  assumes inv: "serial_inv s" and i: "i < threads s" "not_releasing (thr s i)"
    and c: "cell (thr s i) \<noteq> 0" and w: "sm_state (mtx s) \<noteq> 0" "sm_own (sm_state (mtx s)) = sm_own (cell (thr s i))"
      "\<not> sm_writing (sm_state (mtx s))" "sm_count (sm_state (mtx s)) \<noteq> 2 ^ 30 - 1"
  shows "serial_inv (acquired (set_word s (sm_state (mtx s) + 1)) i True (cell (thr s i)))"
proof -
  let ?c = "cell (thr s i)" and ?f = "thr s" and ?n = "threads s" and ?w = "sm_state (mtx s)"
  let ?th = "(?f i)\<lparr>spc := SIdle, reads := token ?c # reads (?f i)\<rparr>"
  have g: "guards_ok ?n ?w ?f" using inv by (auto simp: serial_inv_def)
  have old: "read_tokens (?f i) = reads (?f i)" using i(2) by (auto simp: not_releasing_def)
  have "guards_ok ?n (?w + 1) (?f(i := ?th))"
    using guards_ok_read[OF g i(1), of ?th "token ?c" "?w + 1"] sm_view_inc[OF w(4)]
      ucast_token[OF valid_cell[OF inv i(1) c]] w old by auto
  then show ?thesis
    by (intro serial_inv_upd[OF inv i(1), of _ ?th]) (use w sm_view_inc[OF w(4)] in \<open>auto simp: acquired_def\<close>)
qed

lemma release_positive:
  assumes "serial_inv s" "i < threads s" "t \<in> set (read_tokens (thr s i))"
  shows "sm_count (sm_state (mtx s)) \<noteq> 0" "\<not> sm_writing (sm_state (mtx s))"
    "sm_own (sm_state (mtx s)) = ucast t"
proof -
  have "guards_ok (threads s) (sm_state (mtx s)) (thr s)" using assms(1) by (simp add: serial_inv_def)
  moreover have "0 < length (read_tokens (thr s i))" using assms(3) by (cases "read_tokens (thr s i)") auto
  ultimately show "sm_count (sm_state (mtx s)) \<noteq> 0" "\<not> sm_writing (sm_state (mtx s))"
    "sm_own (sm_state (mtx s)) = ucast t"
    using total_reads_ge[OF assms(2), of "thr s"] assms(2,3) by (auto simp: guards_ok_def)
qed

lemma read_release_view:
  assumes "sm_count st \<noteq> 0" "read_release st = (next, is_last)"
  shows "is_last = (sm_count st = 1)" "is_last \<Longrightarrow> next = 0" "sm_count next = sm_count st - 1"
    "\<not> is_last \<Longrightarrow> next = st - 1" "\<not> is_last \<Longrightarrow> sm_own next = sm_own st" "sm_waiting next = (sm_waiting st \<and> \<not> is_last)"
    "sm_writing next = (sm_writing st \<and> \<not> is_last)"
  using assms sm_view_dec[OF assms(1)] by (auto simp: read_release_def Let_def and_SM_COUNT_1 split: if_splits)

lemma inv_counted_release:
  assumes inv: "serial_inv s" and i: "i < threads s" and pc: "spc (thr s i) = SRelease t st"
    and st: "sm_state (mtx s) = st" and p: "p = SNotify \<or> p = SIdle"
    and rel: "read_release st = (next, is_last)"
  shows "serial_inv (set_pc (set_word s next) i p)"
proof -
  let ?f = "thr s" and ?n = "threads s" and ?th = "(thr s i)\<lparr>spc := p\<rparr>"
  have g: "guards_ok ?n st ?f" using inv st by (auto simp: serial_inv_def)
  have tok: "read_tokens (?f i) = reads (?f i) @ [t]" "read_tokens ?th = reads (?f i)" using pc p by auto
  note pos = release_positive[OF inv i, of t, unfolded st] and v = read_release_view[OF _ rel]
  have "guards_ok ?n next (?f(i := ?th))"
    using guards_ok_unread[OF g i, of ?th "next"] v pos tok by auto
  then show ?thesis
    by (intro serial_inv_upd[OF inv i, of _ ?th]) (use v pos tok st p in auto)
qed

lemma sm_own_push: "unat nx < 2 ^ 32 \<Longrightarrow> sm_own (push_bit 32 nx) = nx"
  by (rule word_unat_eq_iff[THEN iffD2])
    (simp add: sm_own_def unat_drop_bit_word push_bit_eq_mult unat_word_ariths)

lemma valid_owner_push: "0 < unat nx \<Longrightarrow> unat nx < 2 ^ 32 \<Longrightarrow> valid_owner (push_bit 32 nx)"
  using sm_own_push[of nx] by (auto simp: valid_owner_def take_bit_push_bit)

lemma inv_fresh_owner:
  assumes inv: "serial_inv s" and i: "i < threads s" "not_releasing (thr s i)" "cell (thr s i) = 0"
    and alive: "\<not> dead s" and small: "unat (nxt s) < 2 ^ 32 - 1"
    and p: "\<And>t st. p \<noteq> SRelease t st" "pc_ok (push_bit 32 (nxt s)) p"
  shows "serial_inv (s\<lparr>nxt := nxt s + 1,
           thr := (thr s)(i := (thr s i)\<lparr>spc := p, cell := push_bit 32 (nxt s)\<rparr>)\<rparr>)"
    (is "serial_inv ?s'")
proof -
  let ?n = "threads s" and ?nx = "nxt s" and ?f = "thr s" and ?f' = "thr ?s'"
  have own: "owners_ok ?n ?nx False ?f" using inv alive by (simp add: serial_inv_def)
  have nx: "unat (?nx + 1) = unat ?nx + 1" using small by (simp add: unat_word_ariths)
  have new: "valid_owner (push_bit 32 ?nx)" "sm_own (push_bit 32 ?nx) = ?nx"
    using own small valid_owner_push[of ?nx] sm_own_push[of ?nx] by (auto simp: owners_ok_def)
  have fresh: "cell (?f j) \<noteq> push_bit 32 ?nx" if "j < ?n" for j
    using own that new by (auto simp: owners_ok_def valid_owner_def)
  have "owners_ok ?n (?nx + 1) False ?f'"
    using own new fresh nx small i(1) by (auto simp: owners_ok_def less_Suc_eq)
  moreover have "guards_ok ?n (sm_state (mtx s)) ?f'"
    using inv i p by (simp, intro guards_ok_same) (auto simp: serial_inv_def not_releasing_def)
  moreover have "holder_ok ?n (sm_state (mtx s)) ?f'"
    using inv i(3) unfolding serial_inv_def holder_ok_def by fastforce
  ultimately show ?thesis using inv alive p(2) by (auto simp: serial_inv_def)
qed

lemma inv_owner_step:
  assumes inv: "serial_inv s" and i: "i < threads s" "not_releasing (thr s i)" and alive: "\<not> dead s"
    and k: "\<And>ow t st. k ow \<noteq> SRelease t st" "\<And>ow. ow \<noteq> 0 \<Longrightarrow> pc_ok ow (k ow)"
  shows "serial_inv (owner_step s i k)"
proof (cases "cell (thr s i) = 0")
  case False
  then show ?thesis
    by (auto simp: owner_step_def thread_owner_def intro!: inv_move[OF inv i k(1) k(2)])
next
  case True
  have own: "owners_ok (threads s) (nxt s) False (thr s)" using inv alive by (simp add: serial_inv_def)
  show ?thesis
  proof (cases "0xFFFFFFFF \<le> nxt s")
    case abort: True
    have "0 < unat (nxt s + 1)" using own by (auto simp: owners_ok_def unat_word_ariths)
    with inv own abort True show ?thesis
      by (auto simp: owner_step_def thread_owner_def initialize_owner_def serial_inv_def owners_ok_def)
  next
    case False
    then have small: "unat (nxt s) < 2 ^ 32 - 1" by (simp add: word_le_nat_alt)
    then have "push_bit 32 (nxt s) \<noteq> 0"
      using valid_owner_push[of "nxt s"] own by (auto simp: valid_owner_def owners_ok_def)
    with False True inv_fresh_owner[OF inv i True alive small k(1) k(2)] show ?thesis
      by (simp add: owner_step_def thread_owner_def initialize_owner_def)
  qed
qed

lemma inv_drop_read:
  assumes inv: "serial_inv s" and i: "i < threads s" "spc (thr s i) = SIdle" and t: "t \<in> set (reads (thr s i))"
  shows "serial_inv (drop_read s i t)"
proof -
  let ?n = "threads s" and ?f = "thr s" and ?w = "sm_state (mtx s)"
  let ?th = "(?f i)\<lparr>reads := remove1 t (reads (?f i))\<rparr>"
  have g: "guards_ok ?n ?w ?f" using inv by (simp add: serial_inv_def)
  have tok: "read_tokens (?f i) = reads (?f i)" using i(2) by simp
  note pos = release_positive[OF inv i(1), of t, unfolded tok, OF t]
  have len: "length (reads (?f i)) = Suc (length (remove1 t (reads (?f i))))"
    using t by (simp add: length_remove1) (metis Suc_pred length_pos_if_in_set)
  note sub = set_remove1_subset[of t "reads (?f i)"]
  show ?thesis
  proof (cases "?w = push_bit 32 (ucast t) OR 1")
    case True
    obtain c where c: "valid_owner c" "sm_own ?w = sm_own c"
      using inv pos(1) valid_cell[OF inv] unfolding serial_inv_def holder_ok_def
      by (metis sm_view_0(4))
    then have "ucast t = (ucast (token c) :: u64)" using pos(3) ucast_token by simp
    then have "?w = desired_word c True" using True expected_word[OF c(1)] by simp
    then have one: "sm_count ?w = 1" using sm_view_desired(4)[OF c(1), of True] by simp
    have "guards_ok ?n 0 (?f(i := ?th))"
      using guards_ok_unread[OF g i(1), of ?th 0] one len tok i(2) sub by auto
    with True show ?thesis
      by (intro serial_inv_upd[OF inv i(1), of _ ?th]) (use i in \<open>auto simp: drop_read_def\<close>)
  next
    case False
    let ?th' = "(?f i)\<lparr>reads := remove1 t (reads (?f i)), spc := SRelease t ?w\<rparr>"
    have "guards_ok ?n ?w (?f(i := ?th'))"
      using len tok t sub by (intro guards_ok_reorder[OF g i(1)]) auto
    with False show ?thesis
      by (intro serial_inv_upd[OF inv i(1), of _ ?th']) (use i pos in \<open>auto simp: drop_read_def\<close>)
  qed
qed

lemma inv_drop_write:
  assumes inv: "serial_inv s" and i: "i < threads s" "spc (thr s i) = SIdle" and w: "0 < writes (thr s i)"
  shows "serial_inv (drop_write s i)"
proof -
  let ?f = "thr s" and ?w = "sm_state (mtx s)"
  define th where "th = (?f i)\<lparr>writes := writes (?f i) - 1, spc := (if sm_waiting ?w then SNotify else SIdle)\<rparr>"
  have g: "guards_ok (threads s) ?w ?f" using inv by (simp add: serial_inv_def)
  note un = guards_ok_unwrite[OF g i(1) _ w, of th]
  have rel: "guards_ok (threads s) 0 (?f(i := th))" "sm_writing ?w"
    using un i(2) by (auto simp: th_def)
  then have "drop_write s i = (set_word s 0)\<lparr>thr := ?f(i := th)\<rparr>"
    using i(2) by (cases "thr s i") (simp add: drop_write_def th_def Let_def word_view)
  with rel show ?thesis
    by (intro serial_inv_upd[OF inv i(1), of _ th]) (auto simp: th_def)
qed

lemma serial_inv_same_pcs:
  assumes "serial_inv s" "\<And>k. cell (f k) = cell (thr s k)" "\<And>k. spc (f k) = spc (thr s k)"
    "guards_ok (threads s) (sm_state (mtx s)) f"
  shows "serial_inv (s\<lparr>thr := f\<rparr>)"
  using assms by (simp add: serial_inv_def owners_ok_def holder_ok_def)

lemma inv_send:
  assumes inv: "serial_inv s" and ij: "i < threads s" "j < threads s" "i \<noteq> j"
    and a: "spc a = spc (thr s i)" "cell a = cell (thr s i)"
    and b: "spc b = spc (thr s j)" "cell b = cell (thr s j)"
    and reads: "length (reads a) + length (reads b) = length (reads (thr s i)) + length (reads (thr s j))"
      "set (reads a) \<union> set (reads b) \<subseteq> set (reads (thr s i)) \<union> set (reads (thr s j))"
    and writes: "writes a + writes b = writes (thr s i) + writes (thr s j)"
  shows "serial_inv (s\<lparr>thr := (thr s)(i := a, j := b)\<rparr>)"
proof -
  let ?f = "(thr s)(i := a, j := b)"
  have same: "cell (?f k) = cell (thr s k)" "spc (?f k) = spc (thr s k)" for k using a b by auto
  have "guards_ok (threads s) (sm_state (mtx s)) ?f"
    using inv reads writes a b
    by (intro guards_ok_send[OF _ ij]) (auto simp: serial_inv_def read_tokens_def)
  with inv same show ?thesis by (rule serial_inv_same_pcs)
qed

lemma inv_thread_step:
  assumes inv: "serial_inv s" and i: "i < threads s" and alive: "\<not> dead s"
    and st: "thread_step s i w (spc (thr s i)) = Some t"
  shows "serial_inv t"
proof -
  have ok: "pc_ok (cell (thr s i)) (spc (thr s i))" using inv i by (simp add: serial_inv_def)
  have move: "serial_inv t'" if "not_releasing (thr s i)" "\<And>t st. p \<noteq> SRelease t st"
    "pc_ok (cell (thr s i)) p" "threads t' = threads s" "nxt t' = nxt s" "dead t' = dead s"
    "thr t' = (thr s)(i := (thr s i)\<lparr>spc := p\<rparr>)" "sm_state (mtx t') = sm_state (mtx s)" for p t'
    using inv_move[OF inv i that] .
  show ?thesis
  proof (cases "spc (thr s i)")
    case (SLoad rd ow b q)
    with ok have c: "ow = cell (thr s i)" "cell (thr s i) \<noteq> 0" by auto
    note view = owned_by_iff[OF valid_cell[OF inv i c(2)]]
    let ?w = "sm_state (mtx s)"
    define p where "p = (case slow_decide ow rd (desired_word ow rd) ?w of
        TryNext next \<Rightarrow> SNext rd ow b ?w next | Panics e \<Rightarrow> SPanic e
      | Contended \<Rightarrow> if \<not> is_completed b then SSeq rd ow (snd (snooze b)) else SPark rd ow b q ?w)"
    have "pc_ok (cell (thr s i)) p" "p \<noteq> SRelease u v" for u v
      by (simp_all add: p_def slow_decide_def view c word_view)
    moreover have "t = set_pc s i p" using SLoad st by (simp add: p_def)
    ultimately show ?thesis using SLoad by (intro move[of p]) (simp_all add: not_releasing_def)
  next
    case (SNext rd ow b old new)
    with ok have c: "ow = cell (thr s i)" "cell (thr s i) \<noteq> 0" by auto
    have nr: "not_releasing (thr s i)" using SNext by (simp add: not_releasing_def)
    show ?thesis
    proof (cases "sm_state (mtx s) = old \<and> \<not> w")
      case True
      with SNext ok st c inv_acquire_free[OF inv i nr c(2), of rd] inv_acquire_again[OF inv i nr c(2)]
      show ?thesis by (auto split: if_splits)
    next
      case False
      with SNext st c nr show ?thesis by (intro move[of "SSeq rd ow b"]) auto
    qed
  next
    case (SPark rd ow b q old)
    with ok have c: "ow = cell (thr s i)" "cell (thr s i) \<noteq> 0" "old \<noteq> 0" by auto
    have nr: "not_releasing (thr s i)" using SPark by (simp add: not_releasing_def)
    show ?thesis
    proof (cases "sm_state (mtx s) = old")
      case True
      with SPark st c inv_mark_wait[OF inv i nr, of "SWait rd ow b q"] show ?thesis by auto
    next
      case False
      with SPark st c nr show ?thesis by (intro move[of "SSeq rd ow b"]) auto
    qed
  next
    case (SRelease u old)
    show ?thesis
    proof (cases "sm_state (mtx s) = old \<and> \<not> w")
      case True
      obtain nx l where r: "read_release old = (nx, l)" by fastforce
      let ?p = "if l \<and> old AND SM_WAIT \<noteq> 0 then SNotify else SIdle"
      have "t = set_pc (set_word s nx) i ?p" using True SRelease ok st r by (auto simp: word_view)
      moreover have "serial_inv (set_pc (set_word s nx) i ?p)"
        using True by (intro inv_counted_release[OF inv i SRelease _ _ r]) auto
      ultimately show ?thesis by simp
    next
      case False
      have tok: "u \<in> set (read_tokens (thr s i))" using SRelease by simp
      let ?th = "(thr s i)\<lparr>spc := SRelease u (sm_state (mtx s))\<rparr>"
      have "guards_ok (threads s) (sm_state (mtx s)) ((thr s)(i := ?th))"
        using inv i SRelease by (intro guards_ok_same) (auto simp: serial_inv_def)
      moreover have "t = s\<lparr>thr := (thr s)(i := ?th)\<rparr>"
        using SRelease ok st False by (auto simp: word_view)
      ultimately show ?thesis
        using release_positive[OF inv i tok] by (intro serial_inv_upd[OF inv i, of _ ?th]) auto
    qed
  next
    case (SFast rd ow)
    with ok st have c: "ow = cell (thr s i)" "cell (thr s i) \<noteq> 0" by auto
    have nr: "not_releasing (thr s i)" using SFast by (simp add: not_releasing_def)
    show ?thesis
    proof (cases "sm_state (mtx s) = 0")
      case True
      with SFast st c inv_acquire_free[OF inv i nr c(2), of rd] show ?thesis by simp
    next
      case False
      with SFast st c nr show ?thesis by (intro move[of "SSeq rd ow (backoff_new (par s))"]) auto
    qed
  next
    case (STry ow)
    with ok st have c: "ow = cell (thr s i)" "cell (thr s i) \<noteq> 0" by auto
    have nr: "not_releasing (thr s i)" using STry by (simp add: not_releasing_def)
    show ?thesis
    proof (cases "sm_state (mtx s) = 0")
      case True
      with STry st c inv_acquire_free[OF inv i nr c(2), of False] show ?thesis by simp
    next
      case False
      with STry st c nr show ?thesis by (intro move[of SIdle]) auto
    qed
  next
    case (SOwner rd)
    then show ?thesis using st inv_owner_step[OF inv i _ alive, of "SFast rd"]
      by (auto simp: not_releasing_def)
  next
    case STryOwner
    then show ?thesis using st inv_owner_step[OF inv i _ alive, of STry]
      by (auto simp: not_releasing_def)
  next
    case (SSeq rd ow b)
    then show ?thesis using st ok
      by (intro move[of "SLoad rd ow b (fword (sm_wake (mtx s)))"]) (auto simp: not_releasing_def)
  next
    case (SWait rd ow b q)
    then show ?thesis using st ok
      by (intro move[of "if fword (sm_wake (mtx s)) = q then SSleep rd ow b else SSeq rd ow (backoff_reset b)"])
        (auto simp: not_releasing_def futex_wait_def split: if_splits)
  next
    case (SSleep rd ow b)
    then show ?thesis using st ok
      by (intro move[of "SSeq rd ow (backoff_reset b)"]) (auto simp: not_releasing_def split: if_splits)
  next
    case SNotify
    then show ?thesis using st by (intro move[of SWakeAll]) (auto simp: not_releasing_def)
  next
    case SWakeAll
    then show ?thesis using st by (intro move[of SIdle]) (auto simp: not_releasing_def)
  qed (use st in auto)
qed

lemma serial_inv_step:
  assumes inv: "serial_inv s" and st: "serial_step a s = Some t"
  shows "serial_inv t"
proof -
  have alive: "\<not> dead s" using st by (auto simp: serial_step_def)
  have call: "serial_inv (set_pc s i p)"
    if "i < threads s" "spc (thr s i) = SIdle" "p = SOwner rd \<or> p = STryOwner" for i p rd
    using that by (intro inv_move[OF inv that(1), of p]) (auto simp: not_releasing_def)
  show ?thesis
  proof (cases a)
    case (SStep i w)
    with st alive inv_thread_step[OF inv _ alive] show ?thesis
      by (auto simp: serial_step_def split: if_splits)
  next
    case (DropRead i u)
    with st alive inv_drop_read[OF inv] show ?thesis by (auto simp: serial_step_def split: if_splits)
  next
    case (DropWrite i)
    with st alive inv_drop_write[OF inv] show ?thesis by (auto simp: serial_step_def split: if_splits)
  next
    case (SendRead i j u)
    with st alive have ij: "i < threads s" "j < threads s" "i \<noteq> j" and u: "u \<in> set (reads (thr s i))"
      by (auto simp: serial_step_def split: if_splits)
    have "length (remove1 u (reads (thr s i))) + 1 = length (reads (thr s i))"
      using u by (simp add: length_remove1) (metis Suc_pred length_pos_if_in_set)
    with SendRead st alive ij u set_remove1_subset[of u "reads (thr s i)"] show ?thesis
      by (auto simp: serial_step_def intro!: inv_send[OF inv ij])
  next
    case (SendWrite i j)
    with st alive show ?thesis
      by (auto simp: serial_step_def split: if_splits intro!: inv_send[OF inv])
  next
    case (SSpurious i)
    with st alive inv show ?thesis
      by (auto simp: serial_step_def serial_inv_def split: if_splits)
  qed (use st alive call in \<open>auto simp: serial_step_def split: if_splits\<close>)
qed

lemma serial_inv_init: "serial_inv (serial_init n p)"
  by (simp add: serial_inv_def serial_init_def serial_new_def guards_ok_def owners_ok_def holder_ok_def
      total_reads_def total_writes_def read_tokens_def)

interpretation serial: machine serial_step "serial_init n p" serial_inv
  for n p
  by unfold_locales (auto intro: serial_inv_init serial_inv_step)

section \<open>The abstract lock\<close>

text \<open>
  What the lock promises, without words and futexes: it is free, read by one thread any
  number of times, or written. The first argument of \<open>rw_step\<close> is the identity of the
  thread that acts.
\<close>

datatype rw = Free | Reading u64 nat | Writing u64

inductive rw_step :: "u64 \<Rightarrow> rw \<Rightarrow> rw \<Rightarrow> bool" where
  first_read: "rw_step c Free (Reading c 1)"
| again_read: "rw_step c (Reading c n) (Reading c (Suc n))"
| take_write: "rw_step c Free (Writing c)"
| release_one: "0 < n \<Longrightarrow> rw_step c (Reading ow (Suc n)) (Reading ow n)"
| release_last: "rw_step c (Reading ow 1) Free"
| release_write: "rw_step c (Writing ow) Free"

inductive_simps rw_step_simps [simp]:
  "rw_step c Free x" "rw_step c (Reading ow n) x" "rw_step c (Writing ow) x"

definition rw_abs :: "u64 \<Rightarrow> rw" where
  "rw_abs w = (if w = 0 then Free else if sm_writing w then Writing (sm_own w) else Reading (sm_own w) (sm_count w))"

fun actor :: "sact \<Rightarrow> tid" where
  "actor (CallRead i) = i"
| "actor (CallWrite i) = i"
| "actor (CallTry i) = i"
| "actor (DropRead i t) = i"
| "actor (DropWrite i) = i"
| "actor (SendRead i j t) = i"
| "actor (SendWrite i j) = i"
| "actor (SStep i w) = i"
| "actor (SSpurious i) = i"

text \<open>How the word of a thread with identity \<open>c\<close> can change in one step.\<close>

inductive word_change :: "u64 \<Rightarrow> u64 \<Rightarrow> u64 \<Rightarrow> bool" where
  wc_same: "word_change c w w"
| wc_acquire: "valid_owner c \<Longrightarrow> word_change c 0 (desired_word c rd)"
| wc_again: "w \<noteq> 0 \<Longrightarrow> sm_own w = sm_own c \<Longrightarrow> \<not> sm_writing w \<Longrightarrow> sm_count w \<noteq> 0x3FFFFFFF \<Longrightarrow>
    word_change c w (w + 1)"
| wc_wait: "w \<noteq> 0 \<Longrightarrow> word_change c w (w OR SM_WAIT)"
| wc_release: "\<not> sm_writing w \<Longrightarrow> sm_count w \<noteq> 0 \<Longrightarrow> word_change c w (fst (read_release w))"
| wc_unwrite: "sm_writing w \<Longrightarrow> word_change c w 0"

lemma thread_word_change:
  assumes inv: "serial_inv s" and i: "i < threads s"
    and st: "thread_step s i w (spc (thr s i)) = Some t"
  shows "word_change (cell (thr s i)) (sm_state (mtx s)) (sm_state (mtx t))"
proof -
  have ok: "pc_ok (cell (thr s i)) (spc (thr s i))" using inv i by (simp add: serial_inv_def)
  have val: "cell (thr s i) \<noteq> 0 \<Longrightarrow> valid_owner (cell (thr s i))" by (rule valid_cell[OF inv i])
  show ?thesis
  proof (cases "spc (thr s i)")
    case (SNext rd ow b old new)
    show ?thesis
    proof (cases "sm_state (mtx s) = old \<and> \<not> w")
      case True
      with SNext ok st val have "sm_state (mtx s) = old" "sm_state (mtx t) = new" by auto
      with SNext ok val show ?thesis by (auto intro: word_change.intros)
    next
      case False
      with SNext st show ?thesis by (auto intro: wc_same)
    qed
  next
    case (SRelease u old)
    show ?thesis
    proof (cases "sm_state (mtx s) = old \<and> \<not> w")
      case True
      with SRelease ok st have "sm_state (mtx s) = old" "sm_state (mtx t) = fst (read_release old)"
        by (auto simp: word_view split: prod.splits)
      with SRelease ok show ?thesis by (auto intro: wc_release)
    next
      case False
      with SRelease ok st show ?thesis by (auto simp: word_view intro: wc_same)
    qed
  next
    case (SWait rd ow b q)
    with st show ?thesis by (auto simp: futex_wait_def split: if_splits intro: wc_same)
  next
    case (SFast rd ow)
    with ok st val show ?thesis by (cases "sm_state (mtx s) = 0") (auto intro: word_change.intros)
  next
    case (STry ow)
    with ok st val show ?thesis by (cases "sm_state (mtx s) = 0") (auto intro: word_change.intros)
  next
    case (SPark rd ow b q old)
    with ok st show ?thesis by (cases "sm_state (mtx s) = old") (auto intro: word_change.intros)
  next
    case (SOwner rd)
    with st show ?thesis by (auto simp: owner_step_def intro: wc_same split: option.splits prod.splits)
  next
    case STryOwner
    with st show ?thesis by (auto simp: owner_step_def intro: wc_same split: option.splits prod.splits)
  qed (use st in \<open>auto split: if_splits intro: wc_same\<close>)
qed

lemma serial_word_change:
  assumes inv: "serial_inv s" and st: "serial_step a s = Some t"
  shows "word_change (cell (thr s (actor a))) (sm_state (mtx s)) (sm_state (mtx t))"
proof (cases a)
  case (SStep i w)
  with st thread_word_change[OF inv] show ?thesis by (auto simp: serial_step_def split: if_splits)
next
  case (DropRead i u)
  with st have u: "i < threads s" "spc (thr s i) = SIdle" "u \<in> set (reads (thr s i))" and t: "t = drop_read s i u"
    by (auto simp: serial_step_def split: if_splits)
  have pos: "sm_count (sm_state (mtx s)) \<noteq> 0" "\<not> sm_writing (sm_state (mtx s))"
    using release_positive[OF inv u(1), of u] u(2,3) by simp_all
  show ?thesis
  proof (cases "sm_state (mtx s) = push_bit 32 (ucast u) OR 1")
    case True
    obtain c where c: "valid_owner c" "sm_own (sm_state (mtx s)) = sm_own c"
      using inv pos(1) valid_cell[OF inv] unfolding serial_inv_def holder_ok_def by (metis sm_view_0(4))
    have "ucast u = (ucast (token c) :: u64)"
      using c release_positive(3)[OF inv u(1), of u] u(2,3) ucast_token by simp
    then have "sm_state (mtx s) = desired_word c True" using True expected_word[OF c(1)] by simp
    then have "sm_count (sm_state (mtx s)) = 1" using sm_view_desired(4)[OF c(1), of True] by simp
    then have "sm_state (mtx t) = fst (read_release (sm_state (mtx s)))"
      using True t by (simp add: drop_read_def read_release_def word_view)
    with pos show ?thesis by (auto intro: wc_release)
  next
    case False
    with t show ?thesis by (auto simp: drop_read_def intro: wc_same)
  qed
next
  case (DropWrite i)
  with st have i: "i < threads s" "0 < writes (thr s i)" and t: "t = drop_write s i"
    by (auto simp: serial_step_def split: if_splits)
  have "sm_writing (sm_state (mtx s))"
    using inv i total_writes_ge[OF i(1), of "thr s"] by (auto simp: serial_inv_def guards_ok_def split: if_splits)
  with t show ?thesis by (auto simp: drop_write_def Let_def intro: wc_unwrite)
qed (use st in \<open>auto simp: serial_step_def split: if_splits intro: wc_same\<close>)

lemma rw_abs_change:
  assumes "word_change c w w'" "w \<noteq> 0 \<longrightarrow> 0 < sm_count w \<or> sm_writing w" "sm_writing w \<longrightarrow> sm_count w = 0"
  shows "rw_abs w' = rw_abs w \<or> rw_step (sm_own c) (rw_abs w) (rw_abs w')"
proof -
  have nz: "v \<noteq> 0" if "0 < sm_count v \<or> sm_writing v" for v using that by auto
  from assms(1) show ?thesis
  proof cases
    case (wc_acquire rd)
    then have "w' \<noteq> 0" by (intro nz) (simp add: sm_view_desired)
    with wc_acquire show ?thesis by (simp add: rw_abs_def sm_view_desired)
  next
    case wc_again
    then have "w' \<noteq> 0" by (intro nz) (simp add: sm_view_inc)
    with wc_again show ?thesis by (simp add: rw_abs_def sm_view_inc)
  next
    case wc_wait
    have "w' \<noteq> 0" using wc_wait assms(2) by (intro nz) simp
    with wc_wait show ?thesis by (simp add: rw_abs_def)
  next
    case wc_release
    have wn: "w \<noteq> 0" using wc_release by auto
    show ?thesis
    proof (cases "sm_count w = 1")
      case True
      with wc_release wn show ?thesis by (simp add: rw_abs_def read_release_def word_view)
    next
      case False
      then have w': "w' = w - 1" "0 < sm_count w'" "sm_count w = Suc (sm_count w')"
        using wc_release sm_view_dec[of w] by (simp_all add: read_release_def word_view)
      then have "w' \<noteq> 0" by auto
      with wc_release w' wn sm_view_dec[of w] show ?thesis by (simp add: rw_abs_def)
    qed
  qed (auto simp: rw_abs_def)
qed

section \<open>Properties\<close>

lemma write_guard_alone:
  assumes "serial_inv s" "i < threads s" "j < threads s" "0 < writes (thr s i)"
  shows "writes (thr s i) = 1 \<and> (j \<noteq> i \<longrightarrow> writes (thr s j) = 0) \<and> reads (thr s j) = []"
proof -
  have g: "guards_ok (threads s) (sm_state (mtx s)) (thr s)"
    using assms(1) by (simp add: serial_inv_def)
  have tw: "total_writes (threads s) (thr s) = 1" and tr: "total_reads (threads s) (thr s) = 0"
    using g total_writes_ge[OF assms(2), of "thr s"] assms(4) by (auto simp: guards_ok_def split: if_splits)
  have "writes (thr s i) + writes (thr s j) \<le> 1" if "j \<noteq> i"
    using two_members_le_sum[OF assms(2,3) that[symmetric], of "\<lambda>k. writes (thr s k)"] tw
    by (simp add: total_writes_def)
  moreover have "length (read_tokens (thr s j)) \<le> 0"
    using total_reads_ge[OF assms(3), of "thr s"] tr by simp
  ultimately show ?thesis
    using total_writes_ge[OF assms(2), of "thr s"] assms(4) tw by (auto simp: read_tokens_def)
qed

text \<open>
  C1: mutual exclusion of \<open>SerialMutex\<close>, for any number of threads and any interleaving
  of locking, unlocking, waiting and guard transfer: while a thread owns a write guard, it
  owns exactly one, no other thread owns a write guard, and no thread owns a read guard.
\<close>

theorem serial_mutual_exclusion:
  assumes "reachable serial_step (serial_init n p) s" "i < threads s" "j < threads s" "0 < writes (thr s i)"
  shows "writes (thr s i) = 1 \<and> (j \<noteq> i \<longrightarrow> writes (thr s j) = 0) \<and> reads (thr s j) = []"
  using write_guard_alone[OF serial.always[OF assms(1)] assms(2-4)] .

theorem serial_mutual_exclusion_witness:
  "\<exists>s. reachable serial_step (serial_init 2 4) s \<and> 0 < writes (thr s 0) \<and>
     writes (thr s 1) = 0 \<and> reads (thr s 1) = []"
proof -
  have "run_to serial_step [CallWrite 0, SStep 0 False, SStep 0 False] (serial_init 2 4)
      (\<lambda>s. threads s = 2 \<and> 0 < writes (thr s 0))"
    by code_simp
  then obtain s where "reachable serial_step (serial_init 2 4) s" "threads s = 2" "0 < writes (thr s 0)"
    by (auto dest: run_toD)
  with serial_mutual_exclusion[of 2 4 s 0 1] show ?thesis by auto
qed

text \<open>
  Read aliases stay with one acquiring thread. In every reachable state all read guards
  in existence carry the same token, that token is the identity of one of the threads, and
  the reader count of the word is exactly the number of guards (those being released
  included), so the count cannot run over into the writer flag.
\<close>

theorem serial_read_aliases:
  assumes "reachable serial_step (serial_init n p) s" "i < threads s" "t \<in> set (reads (thr s i))"
  shows "\<exists>k<threads s. token (cell (thr s k)) = t \<and>
           (\<forall>j<threads s. \<forall>u\<in>set (reads (thr s j)). u = t) \<and>
           total_reads (threads s) (thr s) = sm_count (sm_state (mtx s))"
proof -
  have inv: "serial_inv s" by (rule serial.always[OF assms(1)])
  then have g: "guards_ok (threads s) (sm_state (mtx s)) (thr s)" by (simp add: serial_inv_def)
  have mem: "\<And>j u. u \<in> set (reads (thr s j)) \<Longrightarrow> u \<in> set (read_tokens (thr s j))" by (simp add: read_tokens_def)
  have own: "sm_own (sm_state (mtx s)) = ucast u" if "j < threads s" "u \<in> set (reads (thr s j))" for j u
    using g mem[OF that(2)] that(1) by (auto simp: guards_ok_def)
  have "sm_state (mtx s) \<noteq> 0" using release_positive(1)[OF inv assms(2) mem[OF assms(3)]] by auto
  then obtain k where k: "k < threads s" "cell (thr s k) \<noteq> 0" "sm_own (sm_state (mtx s)) = sm_own (cell (thr s k))"
    using inv by (auto simp: serial_inv_def holder_ok_def)
  have "(ucast (token (cell (thr s k))) :: u64) = ucast t"
    using ucast_token[OF valid_cell[OF inv k(1,2)]] k(3) own[OF assms(2,3)] by simp
  then have "token (cell (thr s k)) = t" by (rule ucast_u32_inj)
  moreover have "\<forall>j<threads s. \<forall>u\<in>set (reads (thr s j)). u = t"
    using own own[OF assms(2,3)] ucast_u32_inj by metis
  moreover have "total_reads (threads s) (thr s) = sm_count (sm_state (mtx s))" using g by (simp add: guards_ok_def)
  ultimately show ?thesis using k(1) by blast
qed

theorem serial_read_aliases_witness:
  "\<exists>s. reachable serial_step (serial_init 2 4) s \<and> length (reads (thr s 0)) = 1 \<and> length (reads (thr s 1)) = 1 \<and>
     hd (reads (thr s 0)) = hd (reads (thr s 1)) \<and> total_reads 2 (thr s) = sm_count (sm_state (mtx s))"
proof -
  have "run_to serial_step ([CallRead 0, SStep 0 False, SStep 0 False, CallRead 0] @
        replicate 5 (SStep 0 False) @ [SendRead 0 1 1]) (serial_init 2 4)
      (\<lambda>s. threads s = 2 \<and> length (reads (thr s 0)) = 1 \<and> length (reads (thr s 1)) = 1)"
    by code_simp
  then obtain s where s: "reachable serial_step (serial_init 2 4) s" "threads s = 2"
    "length (reads (thr s 0)) = 1" "length (reads (thr s 1)) = 1"
    by (auto dest: run_toD)
  then have mem: "hd (reads (thr s 0)) \<in> set (reads (thr s 0))" "hd (reads (thr s 1)) \<in> set (reads (thr s 1))"
    by (metis hd_in_set length_0_conv zero_neq_one)+
  obtain k where "\<forall>j<threads s. \<forall>u\<in>set (reads (thr s j)). u = hd (reads (thr s 1))"
    "total_reads (threads s) (thr s) = sm_count (sm_state (mtx s))"
    using serial_read_aliases[OF s(1), of 1 "hd (reads (thr s 1))"] s(2) mem(2) by auto
  moreover from this(1) mem(1) s(2) have "hd (reads (thr s 0)) = hd (reads (thr s 1))"
    by (metis zero_less_numeral)
  ultimately show ?thesis using s by (intro exI[of _ s]) simp
qed

text \<open>
  C5: the lock word implements the abstract reader/writer lock. From every reachable state,
  every step of every thread either leaves the abstract lock alone or is one of its
  transitions, made by the acting thread under its own identity.
\<close>

theorem serial_refines_rw:
  assumes "reachable serial_step (serial_init n p) s" "serial_step a s = Some t"
  shows "rw_abs (sm_state (mtx t)) = rw_abs (sm_state (mtx s)) \<or>
         rw_step (sm_own (cell (thr s (actor a)))) (rw_abs (sm_state (mtx s))) (rw_abs (sm_state (mtx t)))"
proof -
  have inv: "serial_inv s" by (rule serial.always[OF assms(1)])
  show ?thesis
    by (rule rw_abs_change[OF serial_word_change[OF inv assms(2)]])
      (use inv in \<open>auto simp: serial_inv_def guards_ok_def\<close>)
qed

theorem serial_refines_rw_witness:
  "\<exists>s t. reachable serial_step (serial_init 2 4) s \<and> serial_step (SStep 0 False) s = Some t \<and>
     rw_abs (sm_state (mtx s)) = Free \<and> rw_step 1 (rw_abs (sm_state (mtx s))) (rw_abs (sm_state (mtx t)))"
proof -
  let ?ok = "\<lambda>s. (case serial_step (SStep 0 False) s of None \<Rightarrow> False | Some t \<Rightarrow>
     cell (thr s 0) = push_bit 32 1 \<and> sm_state (mtx s) = 0 \<and> sm_state (mtx t) \<noteq> 0)"
  have "run_to serial_step [CallRead 0, SStep 0 False] (serial_init 2 4) ?ok" by code_simp
  from run_toD[OF this] obtain s where r: "reachable serial_step (serial_init 2 4) s" and "?ok s" by blast
  then obtain t where t: "serial_step (SStep 0 False) s = Some t"
    and c: "cell (thr s 0) = push_bit 32 1" "sm_state (mtx s) = 0" "sm_state (mtx t) \<noteq> 0"
    by (cases "serial_step (SStep 0 False) s") simp_all
  have free: "rw_abs (sm_state (mtx s)) = Free" "rw_abs (sm_state (mtx t)) \<noteq> Free"
    using c by (simp_all add: rw_abs_def)
  moreover have "sm_own (cell (thr s 0)) = 1" unfolding c(1) by (rule sm_own_push) simp
  moreover note serial_refines_rw[OF r t]
  ultimately have "rw_step 1 (rw_abs (sm_state (mtx s))) (rw_abs (sm_state (mtx t)))" by (simp only: actor.simps) metis
  with r t free show ?thesis by blast
qed

text \<open>
  Thread identities are never reused. Two threads whose identity is initialised have
  different ones, each a multiple of \<open>2^32\<close> that fits the owner field, and no reachable state
  has a thread stopped by one of the debug assertions of the release paths.
\<close>

theorem serial_identities:
  assumes "reachable serial_step (serial_init n p) s" "i < threads s" "j < threads s"
  shows "spc (thr s i) \<noteq> SPanic DebugAssert \<and>
         (cell (thr s i) \<noteq> 0 \<longrightarrow> valid_owner (cell (thr s i)) \<and> (cell (thr s j) = cell (thr s i) \<longrightarrow> j = i))"
proof -
  have inv: "serial_inv s" by (rule serial.always[OF assms(1)])
  then have "pc_ok (cell (thr s i)) (spc (thr s i))" using assms(2) by (simp add: serial_inv_def)
  moreover have "cell (thr s i) \<noteq> 0 \<longrightarrow> valid_owner (cell (thr s i)) \<and> (cell (thr s j) = cell (thr s i) \<longrightarrow> j = i)"
    using inv assms(2,3) by (auto simp: serial_inv_def owners_ok_def)
  ultimately show ?thesis by auto
qed

theorem serial_identities_witness:
  "\<exists>s. reachable serial_step (serial_init 2 4) s \<and> cell (thr s 0) \<noteq> 0 \<and> valid_owner (cell (thr s 0)) \<and>
     cell (thr s 1) \<noteq> cell (thr s 0)"
proof -
  have "run_to serial_step [CallRead 0, CallWrite 1, SStep 1 False, SStep 0 False] (serial_init 2 4)
      (\<lambda>s. threads s = 2 \<and> cell (thr s 0) \<noteq> 0)" by code_simp
  then obtain s where "reachable serial_step (serial_init 2 4) s" "threads s = 2" "cell (thr s 0) \<noteq> 0"
    by (auto dest: run_toD)
  with serial_identities[of 2 4 s 0 1] show ?thesis by auto
qed

end
