(* ===== verification/Parking.thy ===== *)
theory Parking
  imports Futex
begin

text \<open>
  The parking protocol that the locks of the crate share: a thread reads the wake sequence
  of a futex, checks that the lock is taken in a way that makes its holder signal on
  release, and parks with the sequence it read; a release that sees the mark bumps the
  sequence and wakes the sleepers. The locale \<open>parking\<close> states what a lock has to obey,
  step by step, and proves once that no wake-up is lost. Sequences are 32-bit words, so
  the claim is for runs with fewer than \<open>2^32\<close> bumps.
\<close>

text \<open>
  What a thread is doing to the futex: it holds a sequence number it has read, it has
  committed to park with one, it is about to bump the sequence, or about to wake.
\<close>

datatype role = Quiet | HasKey u32 | Committed u32 | Notifying | Waking

fun role_key :: "nat \<Rightarrow> role \<Rightarrow> bool" where
  "role_key m (HasKey q) = (\<exists>k\<le>m. q = of_nat k)"
| "role_key m (Committed q) = (\<exists>k\<le>m. q = of_nat k)"
| "role_key m r = True"

definition pending :: "nat \<Rightarrow> (tid \<Rightarrow> role) \<Rightarrow> role \<Rightarrow> bool" where
  "pending n r x \<longleftrightarrow> (\<exists>j<n. r j = x)"

text \<open>\<open>h\<close> says that the holder of the lock will see the mark and signal.\<close>

definition park_ok :: "nat \<Rightarrow> bool \<Rightarrow> futex \<Rightarrow> nat \<Rightarrow> (tid \<Rightarrow> role) \<Rightarrow> bool" where
  "park_ok n h f m r \<longleftrightarrow>
     fword f = of_nat m \<and> (\<forall>i<n. role_key m (r i)) \<and>
     (waiters f \<noteq> [] \<longrightarrow> h \<or> pending n r Notifying \<or> pending n r Waking) \<and>
     (\<forall>i<n. r i = Committed (fword f) \<longrightarrow> h \<or> pending n r Notifying)"

text \<open>
  A role may be taken up when it needs no key, when its key is the current sequence or was
  already held, and a commitment only while the holder is known to signal.
\<close>

fun role_from :: "bool \<Rightarrow> futex \<Rightarrow> role \<Rightarrow> role \<Rightarrow> bool" where
  "role_from h f x (HasKey q) = (q = fword f \<or> x = HasKey q)"
| "role_from h f x (Committed q) = (x = Committed q \<or> x = HasKey q \<and> h)"
| "role_from h f x y = True"

inductive park_change ::
  "nat \<Rightarrow> bool \<Rightarrow> futex \<Rightarrow> nat \<Rightarrow> (tid \<Rightarrow> role) \<Rightarrow> bool \<Rightarrow> futex \<Rightarrow> nat \<Rightarrow> (tid \<Rightarrow> role) \<Rightarrow> bool"
  for n h f m r where
  pk_same: "\<lbrakk>\<And>j. r' j = r j; h \<Longrightarrow> h'; fword f' = fword f; waiters f = [] \<Longrightarrow> waiters f' = [];
     m' = m\<rbrakk>
    \<Longrightarrow> park_change n h f m r h' f' m' r'"
| pk_move: "\<lbrakk>i < n; \<And>j. j \<noteq> i \<Longrightarrow> r' j = r j; r i \<noteq> Notifying; r i \<noteq> Waking; role_from h' f (r i) (r' i);
     h \<Longrightarrow> h' \<or> r' i = Notifying; f' = f; m' = m\<rbrakk>
    \<Longrightarrow> park_change n h f m r h' f' m' r'"
| pk_sleep: "\<lbrakk>i < n; \<And>j. j \<noteq> i \<Longrightarrow> r' j = r j; r i = Committed (fword f); r' i = Quiet; h' = h;
     f' = f\<lparr>waiters := waiters f @ [i]\<rparr>\<rbrakk>
    \<Longrightarrow> park_change n h f m r h' f' m r'"
| pk_notify: "\<lbrakk>i < n; \<And>j. j \<noteq> i \<Longrightarrow> r' j = r j; r i = Notifying; r' i = Waking; h' = h; f' = futex_add f 1;
     m' = Suc m\<rbrakk>
    \<Longrightarrow> park_change n h f m r h' f' m' r'"
| pk_wake: "\<lbrakk>i < n; \<And>j. j \<noteq> i \<Longrightarrow> r' j = r j; r i = Waking; r' i = Quiet; h' = h; f' = futex_wake_all f\<rbrakk>
    \<Longrightarrow> park_change n h f m r h' f' m r'"

lemma role_key_mono: "role_key m x \<Longrightarrow> m \<le> m' \<Longrightarrow> role_key m' x"
  by (cases x) (auto intro: order_trans)

lemma of_nat_u32_neq: "k \<le> m \<Longrightarrow> Suc m < 2 ^ 32 \<Longrightarrow> (of_nat k :: u32) \<noteq> of_nat (Suc m)"
  by (simp add: word_unat_eq_iff unat_of_nat take_bit_nat_eq_self_iff del: of_nat_Suc)

lemma pending_upd:
  assumes "pending n r x" "\<And>j. j \<noteq> i \<Longrightarrow> r' j = r j" "r i \<noteq> x"
  shows "pending n r' x"
  using assms unfolding pending_def by metis

lemma park_ok_move:
  assumes ok: "park_ok n h f m r" and i: "i < n" and r': "\<And>j. j \<noteq> i \<Longrightarrow> r' j = r j"
    and old: "r i \<noteq> Notifying" "r i \<noteq> Waking" and new: "role_from h' f (r i) (r' i)"
    and h: "h \<Longrightarrow> h' \<or> r' i = Notifying"
  shows "park_ok n h' f m r'"
proof -
  have hot: "h \<or> pending n r Notifying \<Longrightarrow> h' \<or> pending n r' Notifying"
    using h pending_upd[of n r Notifying i r'] r' old(1) i unfolding pending_def by metis
  have "role_key m (r i)" "fword f = of_nat m" using ok i by (simp_all add: park_ok_def)
  then have key: "role_key m (r' i)" using new by (cases "r' i") auto
  have "h' \<or> pending n r' Notifying" if "j < n" "r' j = Committed (fword f)" for j
  proof (cases "j = i \<and> r i \<noteq> Committed (fword f)")
    case True
    with that new show ?thesis by auto
  next
    case False
    with that r' have "r j = Committed (fword f)" by (cases "j = i") auto
    with ok that(1) show ?thesis by (intro hot) (auto simp: park_ok_def)
  qed
  moreover have "role_key m (r' j)" if "j < n" for j
    using ok that key r' by (cases "j = i") (auto simp: park_ok_def)
  ultimately show ?thesis
    using ok hot pending_upd[of n r Waking i r'] r' old(2) unfolding park_ok_def by blast
qed

lemma park_ok_notify:
  assumes ok: "park_ok n h f m r" and i: "i < n" and r': "\<And>j. j \<noteq> i \<Longrightarrow> r' j = r j" "r' i = Waking"
    and bound: "Suc m < 2 ^ 32"
  shows "park_ok n h (futex_add f 1) (Suc m) r'"
proof -
  have fw: "fword (futex_add f 1) = of_nat (Suc m)" using ok by (simp add: park_ok_def futex_add_def)
  have key: "role_key m (r' j)" if "j < n" for j
    using ok that r' by (cases "j = i") (auto simp: park_ok_def)
  have "r' j \<noteq> Committed (of_nat (Suc m))" if "j < n" for j
    using key[OF that] of_nat_u32_neq[OF _ bound] by (auto simp del: of_nat_Suc) (metis)
  moreover have "pending n r' Waking" using i r'(2) by (auto simp: pending_def)
  ultimately show ?thesis
    using key role_key_mono[of m _ "Suc m"] unfolding park_ok_def fw by auto
qed

lemma park_ok_change:
  assumes ok: "park_ok n h f m r" and ch: "park_change n h f m r h' f' m' r'" and bound: "m' < 2 ^ 32"
  shows "park_ok n h' f' m' r'"
  using ch
proof cases
  case pk_same
  then have "r' = r" by auto
  with ok pk_same show ?thesis by (auto simp: park_ok_def)
next
  case (pk_move i)
  then show ?thesis using park_ok_move[OF ok, of i r' h'] by simp
next
  case (pk_sleep i)
  have hot: "h \<or> pending n r Notifying" using ok pk_sleep by (auto simp: park_ok_def)
  have base: "park_ok n h f m r'" using pk_sleep by (intro park_ok_move[OF ok, of i]) auto
  have "h \<or> pending n r' Notifying" using hot pending_upd[of n r Notifying i r'] pk_sleep by auto
  with base pk_sleep show ?thesis by (auto simp: park_ok_def)
next
  case (pk_notify i)
  then show ?thesis using park_ok_notify[OF ok, of i r'] bound by simp
next
  case (pk_wake i)
  have keep: "pending n r Notifying \<Longrightarrow> pending n r' Notifying"
    using pending_upd[of n r Notifying i r'] pk_wake by auto
  have old: "role_key m (r' j)" "r' j = Committed q \<Longrightarrow> r j = Committed q" if "j < n" for j q
    using ok that pk_wake by (cases "j = i"; auto simp: park_ok_def)+
  show ?thesis
    unfolding park_ok_def pk_wake(1,6,7)
    using ok keep old by (auto simp: park_ok_def futex_wake_all_def)
qed

locale parking = machine step init inv
  for step :: "'act \<Rightarrow> 's \<Rightarrow> 's option" and init :: 's and inv :: "'s \<Rightarrow> bool" +
  fixes count :: "'s \<Rightarrow> nat" and hot :: "'s \<Rightarrow> bool" and fut :: "'s \<Rightarrow> futex"
    and bumps :: "'s \<Rightarrow> nat" and role :: "'s \<Rightarrow> tid \<Rightarrow> role"
  assumes count_step: "inv s \<Longrightarrow> step a s = Some t \<Longrightarrow> count t = count s"
    and park_init: "bumps init = 0" "fut init = futex_new 0" "role init i = Quiet"
    and park_step: "inv s \<Longrightarrow> step a s = Some t \<Longrightarrow>
      park_change (count s) (hot s) (fut s) (bumps s) (role s) (hot t) (fut t) (bumps t) (role t)"
begin

definition park_inv :: "'s \<Rightarrow> bool" where
  "park_inv s \<longleftrightarrow> inv s \<and> park_ok (count s) (hot s) (fut s) (bumps s) (role s)"

lemma bumps_mono: "inv s \<Longrightarrow> step a s = Some t \<Longrightarrow> bumps s \<le> bumps t"
  by (drule (1) park_step, erule park_change.cases) auto

lemma park_always:
  assumes "reachable step init s" "bumps s < 2 ^ 32"
  shows "park_inv s"
  using assms
proof (induction rule: reachable_induct)
  case init
  show ?case by (simp add: park_inv_def inv_init park_ok_def park_init futex_new_def)
next
  case (step s a t)
  have "inv s" by (rule always[OF step(1)])
  with step bumps_mono have "park_inv s" "bumps t < 2 ^ 32" by fastforce+
  moreover have "inv t" by (rule inv_step[OF \<open>inv s\<close> step(2)])
  ultimately show ?case
    using park_ok_change[OF _ park_step[OF \<open>inv s\<close> step(2)]] count_step[OF \<open>inv s\<close> step(2)]
    unfolding park_inv_def by simp
qed

lemma no_lost_wakeup:
  assumes "reachable step init s" "bumps s < 2 ^ 32" "i \<in> set (waiters (fut s))"
  shows "hot s \<or> (\<exists>j<count s. role s j = Notifying \<or> role s j = Waking)"
proof -
  have "waiters (fut s) \<noteq> []" using assms(3) by auto
  with park_always[OF assms(1,2)] show ?thesis
    unfolding park_inv_def park_ok_def pending_def by blast
qed

end

end
