(* ===== verification/Serial_Live.thy ===== *)
theory Serial_Live
  imports Serial_Safety Parking
begin

text \<open>
  No wake-up of \<open>SerialMutex\<close> is lost: the lock follows the parking protocol. The holder is
  responsible for a parked thread through the waiter flag of the word; after its release,
  the thread that is about to bump the wake sequence or to wake the sleepers.
\<close>

fun srole :: "spc \<Rightarrow> role" where
  "srole (SLoad rd ow b q) = HasKey q"
| "srole (SPark rd ow b q st) = HasKey q"
| "srole (SWait rd ow b q) = Committed q"
| "srole SNotify = Notifying"
| "srole SWakeAll = Waking"
| "srole _ = Quiet"

abbreviation (input) serial_hot :: "serial_sys \<Rightarrow> bool" where
  "serial_hot s \<equiv> sm_waiting (sm_state (mtx s))"

abbreviation (input) serial_parks :: "serial_sys \<Rightarrow> serial_sys \<Rightarrow> bool" where
  "serial_parks s t \<equiv>
     park_change (threads s) (serial_hot s) (sm_wake (mtx s)) (notified s) (\<lambda>j. srole (spc (thr s j)))
       (serial_hot t) (sm_wake (mtx t)) (notified t) (\<lambda>j. srole (spc (thr t j)))"

lemma serial_parks_move:
  assumes "i < threads s" "thr t = (thr s)(i := th)" "sm_wake (mtx t) = sm_wake (mtx s)" "notified t = notified s"
    "srole (spc (thr s i)) \<noteq> Notifying" "srole (spc (thr s i)) \<noteq> Waking"
    "role_from (serial_hot t) (sm_wake (mtx s)) (srole (spc (thr s i))) (srole (spc th))"
    "serial_hot s \<Longrightarrow> serial_hot t \<or> spc th = SNotify"
  shows "serial_parks s t"
  using assms by (intro pk_move[of i]) auto

lemma serial_thread_parks:
  assumes inv: "serial_inv s" and i: "i < threads s"
    and st: "thread_step s i wk (spc (thr s i)) = Some t"
  shows "serial_parks s t"
proof -
  have ok: "pc_ok (cell (thr s i)) (spc (thr s i))" using inv i by (simp add: serial_inv_def)
  note move = serial_parks_move[OF i]
  have val: "cell (thr s i) \<noteq> 0 \<Longrightarrow> valid_owner (cell (thr s i))" by (rule valid_cell[OF inv i])
  show ?thesis
  proof (cases "spc (thr s i)")
    case (SOwner rd)
    with st show ?thesis
      by (intro move[of t "thr t i"]) (auto simp: owner_step_def split: option.splits prod.splits)
  next
    case STryOwner
    with st show ?thesis
      by (intro move[of t "thr t i"]) (auto simp: owner_step_def split: option.splits prod.splits)
  next
    case (SFast rd ow)
    with st show ?thesis
      by (intro move[of t "thr t i"]) (auto simp: acquired_def split: if_splits)
  next
    case (STry ow)
    with st show ?thesis
      by (intro move[of t "thr t i"]) (auto simp: acquired_def split: if_splits)
  next
    case (SSeq rd ow b)
    with st show ?thesis by (intro move[of t "thr t i"]) auto
  next
    case (SLoad rd ow b q)
    define p where "p = (case slow_decide ow rd (desired_word ow rd) (sm_state (mtx s)) of
        TryNext next \<Rightarrow> SNext rd ow b (sm_state (mtx s)) next | Panics e \<Rightarrow> SPanic e
      | Contended \<Rightarrow> if \<not> is_completed b then SSeq rd ow (snd (snooze b)) else SPark rd ow b q (sm_state (mtx s)))"
    have "t = set_pc s i p" using SLoad st by (simp add: p_def)
    moreover have "role_from h f (HasKey q) (srole p)" for h f
      by (simp add: p_def split: slow_choice.splits)
    ultimately show ?thesis using SLoad by (intro move[of t "thr t i"]) auto
  next
    case (SNext rd ow b old new)
    have flag: "sm_waiting (sm_state (mtx s)) \<Longrightarrow> sm_waiting new" if "sm_state (mtx s) = old"
      using SNext ok val that sm_view_inc(3)[of old] by auto
    from SNext st flag show ?thesis
      by (intro move[of t "thr t i"]) (auto simp: acquired_def split: if_splits)
  next
    case (SPark rd ow b q old)
    with st show ?thesis by (intro move[of t "thr t i"]) (auto split: if_splits)
  next
    case (SWait rd ow b q)
    show ?thesis
    proof (cases "fword (sm_wake (mtx s)) = q")
      case True
      with SWait st have "t = set_pc (set_wake s ((sm_wake (mtx s))\<lparr>waiters := waiters (sm_wake (mtx s)) @ [i]\<rparr>))
          i (SSleep rd ow b)" by (simp add: futex_wait_def)
      with SWait True i show ?thesis by (simp) (rule pk_sleep[of i]; simp)
    next
      case False
      with SWait st show ?thesis by (intro move[of t "thr t i"]) (auto simp: futex_wait_def)
    qed
  next
    case (SSleep rd ow b)
    with st show ?thesis by (intro move[of t "thr t i"]) (auto split: if_splits)
  next
    case (SRelease u old)
    obtain nx l where r: "read_release old = (nx, l)" by fastforce
    have "sm_count old \<noteq> 0" using SRelease ok by simp
    from SRelease ok st r read_release_view[OF this r] show ?thesis
      by (intro move[of t "thr t i"]) (auto simp: word_view split: if_splits)
  next
    case SNotify
    with st i show ?thesis by (auto intro!: pk_notify[of i])
  next
    case SWakeAll
    with st i show ?thesis by (auto intro!: pk_wake[of i])
  qed (use st in auto)
qed

lemma serial_step_parks:
  assumes inv: "serial_inv s" and st: "serial_step a s = Some t"
  shows "serial_parks s t"
proof (cases a)
  case (SStep i wk)
  with st serial_thread_parks[OF inv] show ?thesis
    by (auto simp: serial_step_def split: if_splits)
next
  case (DropRead i u)
  with st have i: "i < threads s" "spc (thr s i) = SIdle" "u \<in> set (reads (thr s i))" and t: "t = drop_read s i u"
    by (auto simp: serial_step_def split: if_splits)
  have "\<not> sm_waiting (sm_state (mtx s))" if "sm_state (mtx s) = push_bit 32 (ucast u) OR 1"
    using that by (simp add: sm_waiting_def bit_simps)
  then show ?thesis
    using i t by (intro serial_parks_move[OF i(1), of t "thr t i"]) (auto simp: drop_read_def Let_def split: if_splits)
next
  case (DropWrite i)
  with st have i: "i < threads s" "spc (thr s i) = SIdle" "0 < writes (thr s i)" and t: "t = drop_write s i"
    by (auto simp: serial_step_def split: if_splits)
  have "sm_writing (sm_state (mtx s))"
    using inv i total_writes_ge[OF i(1), of "thr s"] by (auto simp: serial_inv_def guards_ok_def split: if_splits)
  then show ?thesis
    using i t by (intro serial_parks_move[OF i(1), of t "thr t i"]) (auto simp: drop_write_def Let_def word_view split: if_splits)
next
  case (SSpurious i)
  with st show ?thesis
    by (intro pk_same) (auto simp: serial_step_def futex_unpark_def split: if_splits)
next
  case (SendRead i j u)
  with st show ?thesis by (intro pk_same) (auto simp: serial_step_def split: if_splits)
next
  case (SendWrite i j)
  with st show ?thesis by (intro pk_same) (auto simp: serial_step_def split: if_splits)
next
  case (CallRead i)
  with st show ?thesis
    by (intro serial_parks_move[of i s t "thr t i"]) (auto simp: serial_step_def split: if_splits)
next
  case (CallWrite i)
  with st show ?thesis
    by (intro serial_parks_move[of i s t "thr t i"]) (auto simp: serial_step_def split: if_splits)
next
  case (CallTry i)
  with st show ?thesis
    by (intro serial_parks_move[of i s t "thr t i"]) (auto simp: serial_step_def split: if_splits)
qed

lemma thread_step_threads: "thread_step s i wk p = Some t \<Longrightarrow> threads t = threads s"
  by (cases "(s, i, wk, p)" rule: thread_step.cases)
    (auto simp: owner_step_def futex_wait_def split: if_splits option.splits prod.splits)

lemma serial_step_threads: "serial_step a s = Some t \<Longrightarrow> threads t = threads s"
  by (cases a) (auto simp: serial_step_def drop_read_def drop_write_def Let_def
      split: if_splits dest: thread_step_threads)

interpretation serial_parking: parking serial_step "serial_init n p" serial_inv threads serial_hot
    "\<lambda>s. sm_wake (mtx s)" notified "\<lambda>s j. srole (spc (thr s j))"
  for n p
  by unfold_locales
    (auto simp: serial_init_def serial_new_def intro: serial_step_parks serial_step_threads)

lemma srole_iff: "srole q = Notifying \<longleftrightarrow> q = SNotify" "srole q = Waking \<longleftrightarrow> q = SWakeAll"
  by (cases q; simp)+

section \<open>Properties\<close>

text \<open>
  C3: no wake-up is lost. In every state reachable with fewer than \<open>2^32\<close> notifications, if
  some thread is parked on the futex then either the lock is held and its word carries the
  waiter flag, so the releasing thread will notify, or some thread is already between its
  release and the wake. In particular, when nobody is notifying and nobody owns a guard, no
  thread is parked.
\<close>

theorem serial_no_lost_wakeup:
  assumes "reachable serial_step (serial_init n p) s" "notified s < 2 ^ 32"
    and "\<forall>j<threads s. spc (thr s j) \<noteq> SNotify \<and> spc (thr s j) \<noteq> SWakeAll"
    and "waiters (sm_wake (mtx s)) \<noteq> []"
  shows "sm_waiting (sm_state (mtx s)) \<and>
         0 < total_reads (threads s) (thr s) + total_writes (threads s) (thr s)"
proof -
  have inv: "serial_inv s" by (rule serial.always[OF assms(1)])
  obtain i where "i \<in> set (waiters (sm_wake (mtx s)))" using assms(4) by (cases "waiters (sm_wake (mtx s))") auto
  from serial_parking.no_lost_wakeup[OF assms(1,2) this] assms(3) have flag: "sm_waiting (sm_state (mtx s))"
    by (auto simp: srole_iff)
  then have "sm_state (mtx s) \<noteq> 0" by auto
  with inv flag show ?thesis by (auto simp: serial_inv_def guards_ok_def)
qed

text \<open>A run in which thread 1 backs off, registers and parks while thread 0 writes.\<close>

definition parked_run :: "sact list" where
  "parked_run = [CallWrite 0, SStep 0 False, SStep 0 False, CallWrite 1] @ replicate 24 (SStep 1 False)"

theorem serial_no_lost_wakeup_witness:
  "\<exists>s. reachable serial_step (serial_init 2 1) s \<and> waiters (sm_wake (mtx s)) = [1] \<and>
     sm_waiting (sm_state (mtx s)) \<and> 0 < total_reads 2 (thr s) + total_writes 2 (thr s)"
proof -
  have "run_to serial_step parked_run (serial_init 2 1)
      (\<lambda>s. threads s = 2 \<and> notified s = 0 \<and> waiters (sm_wake (mtx s)) = [1] \<and>
         spc (thr s 0) = SIdle \<and> (case spc (thr s 1) of SSleep _ _ _ \<Rightarrow> True | _ \<Rightarrow> False))"
    by code_simp
  then obtain s where s: "reachable serial_step (serial_init 2 1) s" "threads s = 2" "notified s = 0"
    "waiters (sm_wake (mtx s)) = [1]" "spc (thr s 0) = SIdle" "case spc (thr s 1) of SSleep _ _ _ \<Rightarrow> True | _ \<Rightarrow> False"
    by (auto dest: run_toD)
  then have "\<forall>j<threads s. spc (thr s j) \<noteq> SNotify \<and> spc (thr s j) \<noteq> SWakeAll"
    by (auto simp: less_2_cases_iff)
  with serial_no_lost_wakeup[OF s(1)] s show ?thesis by auto
qed

end
