(* ===== verification/RawMutex.thy ===== *)
theory RawMutex
  imports Backoff Futex
begin

text \<open>
  The reader/writer lock of \<open>src/core/mutex.rs\<close>. Bits 0 and 1 of the state word say that
  readers, respectively writers, are parked; the other 62 bits count the readers, and all
  of them set mean a writer. Readers and writers park on two futexes.

  As for \<open>SerialMutex\<close>, the lock is a transition system with one step per atomic access;
  the program counters \<open>rpc\<close> follow the loops of \<open>lock_exclusive_slow\<close>,
  \<open>lock_shared_slow\<close>, \<open>try_lock_shared_slow\<close>, \<open>unlock_exclusive_slow\<close> and \<open>downgrade\<close>.
  Each thread owns a number of shared and exclusive acquisitions (guards), which it may
  pass on. \<open>unlock_all_shared\<close> is given as the function it computes on the word.
\<close>

definition UNLOCKED :: usize where
  "UNLOCKED = 0"

definition READERS_PARKED :: usize where
  "READERS_PARKED = 1"

definition WRITERS_PARKED :: usize where
  "WRITERS_PARKED = 2"

definition ONE_READER :: usize where
  "ONE_READER = 4"

definition ONE_WRITER :: usize where
  "ONE_WRITER = NOT (READERS_PARKED OR WRITERS_PARKED)"

definition is_writer_locked :: "usize \<Rightarrow> bool" where
  "is_writer_locked st \<longleftrightarrow> st AND ONE_WRITER = ONE_WRITER"

definition readers_count :: "usize \<Rightarrow> usize" where
  "readers_count st = (if is_writer_locked st then 0 else drop_bit 2 (st AND ONE_WRITER))"

definition is_locked_shared :: "usize \<Rightarrow> bool" where
  "is_locked_shared st \<longleftrightarrow> \<not> is_writer_locked st \<and> 0 < readers_count st"

definition is_locked :: "usize \<Rightarrow> bool" where
  "is_locked st \<longleftrightarrow> st \<noteq> UNLOCKED"

text \<open>
  The reader's attempt: the new state, when the increment neither overflows nor reaches
  the writer pattern and no writer is parked.
\<close>

definition try_reader :: "usize \<Rightarrow> usize option" where
  "try_reader st =
     (case checked_add st ONE_READER of
        None \<Rightarrow> None
      | Some new_state \<Rightarrow>
          if new_state AND ONE_WRITER = ONE_WRITER \<or> st AND WRITERS_PARKED \<noteq> 0 then None
          else Some new_state)"

text \<open>The state a writer installs, and the one an exclusive release leaves behind.\<close>

definition writer_word :: "usize \<Rightarrow> usize" where
  "writer_word st = (st AND READERS_PARKED) OR ONE_WRITER"

definition release_word :: "usize \<Rightarrow> usize" where
  "release_word st =
     (let parked = st AND (READERS_PARKED OR WRITERS_PARKED)
      in if parked AND WRITERS_PARKED \<noteq> 0 then parked else UNLOCKED)"

definition downgrade_word :: "usize \<Rightarrow> usize" where
  "downgrade_word st = (st AND NOT ONE_WRITER) + ONE_READER"

text \<open>
  \<open>unlock_all_shared\<close> on the word it exchanges: the new word and whether writers are woken;
  \<open>None\<close> when there is no reader to remove.
\<close>

definition unlock_all_shared :: "usize \<Rightarrow> (usize \<times> bool) option" where
  "unlock_all_shared st =
     (let count = readers_count st in
      if count = 0 then None
      else let new_state = st - ONE_READER * count
           in Some (new_state, readers_count new_state = 0 \<and> st AND WRITERS_PARKED \<noteq> 0))"

record inner_mutex =
  state :: usize
  readers_futex :: futex
  writers_futex :: futex

definition inner_mutex_new :: inner_mutex where
  "inner_mutex_new = \<lparr>state = 0, readers_futex = futex_new 0, writers_futex = futex_new 0\<rparr>"

datatype rpc =
    RIdle
  | LXLoad                       \<comment> \<open>\<open>lock_exclusive_slow\<close>: the first load\<close>
  | LX usize backoff             \<comment> \<open>its loop, with the last value seen\<close>
  | LXKey backoff
  | LXCheck backoff u32
  | LXWait backoff u32
  | LXSleep backoff
  | LXReload backoff
  | UXLoad                       \<comment> \<open>\<open>unlock_exclusive_slow\<close>\<close>
  | UX usize
  | LSFast bool usize            \<comment> \<open>\<open>try_lock_shared_fast\<close>; the flag marks \<open>try_lock_shared\<close>\<close>
  | TSLoad                       \<comment> \<open>\<open>try_lock_shared_slow\<close>\<close>
  | TS usize
  | LSLoad backoff               \<comment> \<open>\<open>lock_shared_slow\<close>\<close>
  | LS usize backoff
  | LSKey backoff
  | LSCheck backoff u32
  | LSWait backoff u32
  | LSSleep backoff
  | DGLoad                       \<comment> \<open>\<open>downgrade\<close>\<close>
  | DG usize
  | WAddW                        \<comment> \<open>bump the writers' futex\<close>
  | WWakeW                       \<comment> \<open>wake the parked writers\<close>
  | WAddR
  | WWakeR

record rthread =
  rpc :: rpc
  shared :: nat        \<comment> \<open>shared acquisitions this thread owns\<close>
  exclusive :: nat     \<comment> \<open>exclusive acquisitions this thread owns\<close>

record raw_sys =
  raw :: inner_mutex
  rthreads :: nat
  rthr :: "tid \<Rightarrow> rthread"
  rpar :: nat
  wbumps :: nat        \<comment> \<open>ghost: bumps of the writers' futex\<close>

datatype ract =
    CallLockX tid | CallTryX tid | CallUnlockX tid
  | CallLockS tid | CallTryS tid | CallUnlockS tid
  | CallDowngrade tid
  | SendX tid tid | SendS tid tid
  | RStep tid bool     \<comment> \<open>one step; the flag makes a weak exchange fail\<close>
  | RSpurious tid

definition raw_init :: "nat \<Rightarrow> nat \<Rightarrow> raw_sys" where
  "raw_init n p =
     \<lparr>raw = inner_mutex_new, rthreads = n,
      rthr = (\<lambda>_. \<lparr>rpc = RIdle, shared = 0, exclusive = 0\<rparr>), rpar = p, wbumps = 0\<rparr>"

abbreviation (input) go :: "raw_sys \<Rightarrow> tid \<Rightarrow> rpc \<Rightarrow> raw_sys" where
  "go s i p \<equiv> s\<lparr>rthr := (rthr s)(i := (rthr s i)\<lparr>rpc := p\<rparr>)\<rparr>"

abbreviation (input) put :: "raw_sys \<Rightarrow> usize \<Rightarrow> raw_sys" where
  "put s w \<equiv> s\<lparr>raw := (raw s)\<lparr>state := w\<rparr>\<rparr>"

abbreviation (input) got_x :: "raw_sys \<Rightarrow> tid \<Rightarrow> raw_sys" where
  "got_x s i \<equiv> s\<lparr>rthr := (rthr s)(i := (rthr s i)\<lparr>rpc := RIdle, exclusive := exclusive (rthr s i) + 1\<rparr>)\<rparr>"

abbreviation (input) got_s :: "raw_sys \<Rightarrow> tid \<Rightarrow> rpc \<Rightarrow> raw_sys" where
  "got_s s i p \<equiv> s\<lparr>rthr := (rthr s)(i := (rthr s i)\<lparr>rpc := p, shared := shared (rthr s i) + 1\<rparr>)\<rparr>"

text \<open>Which futex an exclusive release or a downgrade has to signal after its exchange.\<close>

definition after_release :: "usize \<Rightarrow> rpc" where
  "after_release st =
     (if st AND WRITERS_PARKED \<noteq> 0 then WAddW
      else if st AND READERS_PARKED \<noteq> 0 then WAddR else RIdle)"

definition after_downgrade :: "usize \<Rightarrow> rpc" where
  "after_downgrade st = (if st AND READERS_PARKED \<noteq> 0 then WAddR else RIdle)"

text \<open>
  One step of each loop, by its program counter. In \<open>lock_exclusive_slow\<close> the loop goes on with
  the value it has seen while it backs off; the other loops reload the word.
\<close>

fun lock_exclusive_slow :: "raw_sys \<Rightarrow> tid \<Rightarrow> bool \<Rightarrow> rpc \<Rightarrow> raw_sys option" where
  "lock_exclusive_slow s i w LXLoad = Some (go s i (LX (state (raw s)) (backoff_new (rpar s))))"
| "lock_exclusive_slow s i w (LX st b) =
     (if st AND ONE_WRITER = 0 then
        (if state (raw s) = st \<and> \<not> w then Some (got_x (put s (writer_word st)) i)
         else Some (go s i (LX (state (raw s)) b)))
      else if st AND WRITERS_PARKED = 0 then
        (if \<not> is_completed b then Some (go s i (LX st (snd (snooze b))))
         else if state (raw s) = st \<and> \<not> w then Some (go (put s (st OR WRITERS_PARKED)) i (LXKey b))
         else Some (go s i (LX (state (raw s)) b)))
      else Some (go s i (LXKey b)))"
| "lock_exclusive_slow s i w (LXKey b) = Some (go s i (LXCheck b (fword (writers_futex (raw s)))))"
| "lock_exclusive_slow s i w (LXCheck b key) =
     (if state (raw s) AND ONE_WRITER = 0 \<or> state (raw s) AND WRITERS_PARKED = 0
      then Some (go s i (LXReload b)) else Some (go s i (LXWait b key)))"
| "lock_exclusive_slow s i w (LXWait b key) =
     (case futex_wait (writers_futex (raw s)) key i of
        (f, True) \<Rightarrow> Some (go (s\<lparr>raw := (raw s)\<lparr>writers_futex := f\<rparr>\<rparr>) i (LXSleep b))
      | (f, False) \<Rightarrow> Some (go s i (LXKey b)))"
| "lock_exclusive_slow s i w (LXSleep b) =
     (if i \<in> set (waiters (writers_futex (raw s))) then None else Some (go s i (LXKey b)))"
| "lock_exclusive_slow s i w (LXReload b) = Some (go s i (LX (state (raw s)) (backoff_reset b)))"
| "lock_exclusive_slow s i w _ = None"

fun unlock_exclusive_slow :: "raw_sys \<Rightarrow> tid \<Rightarrow> bool \<Rightarrow> rpc \<Rightarrow> raw_sys option" where
  "unlock_exclusive_slow s i w UXLoad = Some (go s i (UX (state (raw s))))"
| "unlock_exclusive_slow s i w (UX st) =
     (if state (raw s) = st \<and> \<not> w then Some (go (put s (release_word st)) i (after_release st))
      else Some (go s i (UX (state (raw s)))))"
| "unlock_exclusive_slow s i w _ = None"

fun try_lock_shared_fast :: "raw_sys \<Rightarrow> tid \<Rightarrow> bool \<Rightarrow> rpc \<Rightarrow> raw_sys option" where
  "try_lock_shared_fast s i w (LSFast nonblock st) =
     (let slow = (if nonblock then TSLoad else LSLoad (backoff_new (rpar s))) in
      case try_reader st of
        Some new_state \<Rightarrow>
          if state (raw s) = st then Some (got_s (put s new_state) i RIdle) else Some (go s i slow)
      | None \<Rightarrow> Some (go s i slow))"
| "try_lock_shared_fast s i w _ = None"

fun try_lock_shared_slow :: "raw_sys \<Rightarrow> tid \<Rightarrow> bool \<Rightarrow> rpc \<Rightarrow> raw_sys option" where
  "try_lock_shared_slow s i w TSLoad = Some (go s i (TS (state (raw s))))"
| "try_lock_shared_slow s i w (TS st) =
     (case try_reader st of
        Some new_state \<Rightarrow>
          if state (raw s) = st \<and> \<not> w then Some (got_s (put s new_state) i RIdle)
          else Some (go s i (TS (state (raw s))))
      | None \<Rightarrow> Some (go s i RIdle))"
| "try_lock_shared_slow s i w _ = None"

fun lock_shared_slow :: "raw_sys \<Rightarrow> tid \<Rightarrow> bool \<Rightarrow> rpc \<Rightarrow> raw_sys option" where
  "lock_shared_slow s i w (LSLoad b) = Some (go s i (LS (state (raw s)) b))"
| "lock_shared_slow s i w (LS st b) =
     (case try_reader st of
        Some new_state \<Rightarrow>
          if state (raw s) = st \<and> \<not> w then Some (got_s (put s new_state) i RIdle)
          else Some (go s i (LSLoad b))
      | None \<Rightarrow>
          if st AND READERS_PARKED = 0 then
            (if \<not> is_completed b then Some (go s i (LSLoad (snd (snooze b))))
             else if state (raw s) = st \<and> \<not> w then Some (go (put s (st OR READERS_PARKED)) i (LSKey b))
             else Some (go s i (LSLoad b)))
          else Some (go s i (LSKey b)))"
| "lock_shared_slow s i w (LSKey b) = Some (go s i (LSCheck b (fword (readers_futex (raw s)))))"
| "lock_shared_slow s i w (LSCheck b key) =
     (if state (raw s) AND ONE_WRITER \<noteq> ONE_WRITER \<and> state (raw s) AND WRITERS_PARKED = 0
      then Some (go s i (LSLoad (backoff_reset b))) else Some (go s i (LSWait b key)))"
| "lock_shared_slow s i w (LSWait b key) =
     (case futex_wait (readers_futex (raw s)) key i of
        (f, True) \<Rightarrow> Some (go (s\<lparr>raw := (raw s)\<lparr>readers_futex := f\<rparr>\<rparr>) i (LSSleep b))
      | (f, False) \<Rightarrow> Some (go s i (LSLoad (backoff_reset b))))"
| "lock_shared_slow s i w (LSSleep b) =
     (if i \<in> set (waiters (readers_futex (raw s))) then None
      else Some (go s i (LSLoad (backoff_reset b))))"
| "lock_shared_slow s i w _ = None"

fun downgrade_loop :: "raw_sys \<Rightarrow> tid \<Rightarrow> bool \<Rightarrow> rpc \<Rightarrow> raw_sys option" where
  "downgrade_loop s i w DGLoad = Some (go s i (DG (state (raw s))))"
| "downgrade_loop s i w (DG st) =
     (if state (raw s) = st then Some (got_s (put s (downgrade_word st)) i (after_downgrade st))
      else Some (go s i (DG (state (raw s)))))"
| "downgrade_loop s i w _ = None"

fun signal :: "raw_sys \<Rightarrow> tid \<Rightarrow> bool \<Rightarrow> rpc \<Rightarrow> raw_sys option" where
  "signal s i w WAddW =
     Some ((go (s\<lparr>raw := (raw s)\<lparr>writers_futex := futex_add (writers_futex (raw s)) 1\<rparr>\<rparr>) i WWakeW)
             \<lparr>wbumps := wbumps s + 1\<rparr>)"
| "signal s i w WWakeW =
     Some (go (s\<lparr>raw := (raw s)\<lparr>writers_futex := futex_wake_all (writers_futex (raw s))\<rparr>\<rparr>) i RIdle)"
| "signal s i w WAddR =
     Some (go (s\<lparr>raw := (raw s)\<lparr>readers_futex := futex_add (readers_futex (raw s)) 1\<rparr>\<rparr>) i WWakeR)"
| "signal s i w WWakeR =
     Some (go (s\<lparr>raw := (raw s)\<lparr>readers_futex := futex_wake_all (readers_futex (raw s))\<rparr>\<rparr>) i RIdle)"
| "signal s i w _ = None"

fun raw_thread_step :: "raw_sys \<Rightarrow> tid \<Rightarrow> bool \<Rightarrow> rpc \<Rightarrow> raw_sys option" where
  "raw_thread_step s i w LXLoad = lock_exclusive_slow s i w LXLoad"
| "raw_thread_step s i w (LX st b) = lock_exclusive_slow s i w (LX st b)"
| "raw_thread_step s i w (LXKey b) = lock_exclusive_slow s i w (LXKey b)"
| "raw_thread_step s i w (LXCheck b key) = lock_exclusive_slow s i w (LXCheck b key)"
| "raw_thread_step s i w (LXWait b key) = lock_exclusive_slow s i w (LXWait b key)"
| "raw_thread_step s i w (LXSleep b) = lock_exclusive_slow s i w (LXSleep b)"
| "raw_thread_step s i w (LXReload b) = lock_exclusive_slow s i w (LXReload b)"
| "raw_thread_step s i w UXLoad = unlock_exclusive_slow s i w UXLoad"
| "raw_thread_step s i w (UX st) = unlock_exclusive_slow s i w (UX st)"
| "raw_thread_step s i w (LSFast nonblock st) = try_lock_shared_fast s i w (LSFast nonblock st)"
| "raw_thread_step s i w TSLoad = try_lock_shared_slow s i w TSLoad"
| "raw_thread_step s i w (TS st) = try_lock_shared_slow s i w (TS st)"
| "raw_thread_step s i w (LSLoad b) = lock_shared_slow s i w (LSLoad b)"
| "raw_thread_step s i w (LS st b) = lock_shared_slow s i w (LS st b)"
| "raw_thread_step s i w (LSKey b) = lock_shared_slow s i w (LSKey b)"
| "raw_thread_step s i w (LSCheck b key) = lock_shared_slow s i w (LSCheck b key)"
| "raw_thread_step s i w (LSWait b key) = lock_shared_slow s i w (LSWait b key)"
| "raw_thread_step s i w (LSSleep b) = lock_shared_slow s i w (LSSleep b)"
| "raw_thread_step s i w DGLoad = downgrade_loop s i w DGLoad"
| "raw_thread_step s i w (DG st) = downgrade_loop s i w (DG st)"
| "raw_thread_step s i w WAddW = signal s i w WAddW"
| "raw_thread_step s i w WWakeW = signal s i w WWakeW"
| "raw_thread_step s i w WAddR = signal s i w WAddR"
| "raw_thread_step s i w WWakeR = signal s i w WWakeR"
| "raw_thread_step s i w RIdle = None"

text \<open>The first atomic access of each operation.\<close>

definition lock_exclusive :: "raw_sys \<Rightarrow> tid \<Rightarrow> raw_sys" where
  "lock_exclusive s i =
     (if state (raw s) = UNLOCKED then got_x (put s ONE_WRITER) i else go s i LXLoad)"

definition try_lock_exclusive :: "raw_sys \<Rightarrow> tid \<Rightarrow> raw_sys" where
  "try_lock_exclusive s i =
     (if state (raw s) = UNLOCKED then got_x (put s ONE_WRITER) i else s)"

definition unlock_exclusive :: "raw_sys \<Rightarrow> tid \<Rightarrow> raw_sys" where
  "unlock_exclusive s i =
     (let s' = s\<lparr>rthr := (rthr s)(i := (rthr s i)\<lparr>exclusive := exclusive (rthr s i) - 1\<rparr>)\<rparr>
      in if state (raw s) = ONE_WRITER then put s' UNLOCKED else go s' i UXLoad)"

definition lock_shared :: "raw_sys \<Rightarrow> tid \<Rightarrow> bool \<Rightarrow> raw_sys" where
  "lock_shared s i nonblock = go s i (LSFast nonblock (state (raw s)))"

definition unlock_shared :: "raw_sys \<Rightarrow> tid \<Rightarrow> raw_sys" where
  "unlock_shared s i =
     (let prev = state (raw s);
          s' = (put s (prev - ONE_READER))
                 \<lparr>rthr := (rthr s)(i := (rthr s i)\<lparr>shared := shared (rthr s i) - 1\<rparr>)\<rparr>
      in if readers_count prev = 1 \<and> prev AND WRITERS_PARKED \<noteq> 0 then go s' i WAddW else s')"

definition downgrade :: "raw_sys \<Rightarrow> tid \<Rightarrow> raw_sys" where
  "downgrade s i =
     s\<lparr>rthr := (rthr s)(i := (rthr s i)\<lparr>rpc := DGLoad, exclusive := exclusive (rthr s i) - 1\<rparr>)\<rparr>"

definition raw_step :: "ract \<Rightarrow> raw_sys \<Rightarrow> raw_sys option" where
  "raw_step a s =
     (let ok = (\<lambda>i. i < rthreads s \<and> rpc (rthr s i) = RIdle) in
      case a of
        CallLockX i \<Rightarrow> if ok i then Some (lock_exclusive s i) else None
      | CallTryX i \<Rightarrow> if ok i then Some (try_lock_exclusive s i) else None
      | CallUnlockX i \<Rightarrow> if ok i \<and> 0 < exclusive (rthr s i) then Some (unlock_exclusive s i) else None
      | CallLockS i \<Rightarrow> if ok i then Some (lock_shared s i False) else None
      | CallTryS i \<Rightarrow> if ok i then Some (lock_shared s i True) else None
      | CallUnlockS i \<Rightarrow> if ok i \<and> 0 < shared (rthr s i) then Some (unlock_shared s i) else None
      | CallDowngrade i \<Rightarrow> if ok i \<and> 0 < exclusive (rthr s i) then Some (downgrade s i) else None
      | SendX i j \<Rightarrow>
          if i < rthreads s \<and> j < rthreads s \<and> i \<noteq> j \<and> 0 < exclusive (rthr s i) then
            Some (s\<lparr>rthr := (rthr s)(i := (rthr s i)\<lparr>exclusive := exclusive (rthr s i) - 1\<rparr>,
                                    j := (rthr s j)\<lparr>exclusive := exclusive (rthr s j) + 1\<rparr>)\<rparr>)
          else None
      | SendS i j \<Rightarrow>
          if i < rthreads s \<and> j < rthreads s \<and> i \<noteq> j \<and> 0 < shared (rthr s i) then
            Some (s\<lparr>rthr := (rthr s)(i := (rthr s i)\<lparr>shared := shared (rthr s i) - 1\<rparr>,
                                    j := (rthr s j)\<lparr>shared := shared (rthr s j) + 1\<rparr>)\<rparr>)
          else None
      | RStep i w \<Rightarrow> if i < rthreads s then raw_thread_step s i w (rpc (rthr s i)) else None
      | RSpurious i \<Rightarrow>
          if i < rthreads s then
            Some (s\<lparr>raw := (raw s)\<lparr>writers_futex := futex_unpark (writers_futex (raw s)) i,
                                  readers_futex := futex_unpark (readers_futex (raw s)) i\<rparr>\<rparr>)
          else None)"

end
