(* ===== verification/RwSpec.thy ===== *)
theory RwSpec
  imports Prelude
begin

text \<open>
  The abstract reader/writer lock: what \<open>RawMutex\<close> promises (theory \<open>RawMutex_Safety\<close> proves that
  it refines this specification) and what the structures that coordinate through one rely on.
\<close>

datatype rwl = Readers nat | Writer

inductive rwl_step :: "rwl \<Rightarrow> rwl \<Rightarrow> bool" where
  acquire_x: "rwl_step (Readers 0) Writer"
| release_x: "rwl_step Writer (Readers 0)"
| acquire_s: "rwl_step (Readers n) (Readers (Suc n))"
| release_s: "rwl_step (Readers (Suc n)) (Readers n)"
| downgrade_x: "rwl_step Writer (Readers (Suc 0))"

text \<open>
  The moves a client makes, as functions: \<open>None\<close> is a refused attempt (a \<open>try\<close> call reports it, a
  blocking call waits).
\<close>

fun rw_shared :: "rwl \<Rightarrow> rwl option" where
  "rw_shared (Readers n) = Some (Readers (Suc n))"
| "rw_shared Writer = None"

fun rw_exclusive :: "rwl \<Rightarrow> rwl option" where
  "rw_exclusive (Readers 0) = Some Writer"
| "rw_exclusive _ = None"

fun rw_unshare :: "rwl \<Rightarrow> rwl" where
  "rw_unshare (Readers (Suc n)) = Readers n"
| "rw_unshare l = l"

fun rw_unlock :: "rwl \<Rightarrow> rwl" where
  "rw_unlock Writer = Readers 0"
| "rw_unlock l = l"

text \<open>The lock agrees with the number of shared and exclusive holders.\<close>

fun rw_ok :: "rwl \<Rightarrow> nat \<Rightarrow> nat \<Rightarrow> bool" where
  "rw_ok (Readers n) sh ex = (sh = n \<and> ex = 0)"
| "rw_ok Writer sh ex = (sh = 0 \<and> ex = 1)"

lemma rw_moves:
  "rw_shared l = Some l' \<Longrightarrow> rwl_step l l'" "rw_exclusive l = Some l' \<Longrightarrow> rwl_step l l'"
  "rw_ok l (Suc n) ex \<Longrightarrow> rwl_step l (rw_unshare l)" "rw_ok l sh (Suc m) \<Longrightarrow> rwl_step l (rw_unlock l)"
  by (cases l rule: rw_shared.cases; auto intro: rwl_step.intros)
    (cases l rule: rw_exclusive.cases; auto intro: rwl_step.intros)+

lemma rw_ok_shared: "rw_ok l sh ex \<Longrightarrow> rw_shared l = Some l' \<Longrightarrow> rw_ok l' (Suc sh) ex"
  by (cases l) auto

lemma rw_ok_exclusive: "rw_ok l sh ex \<Longrightarrow> rw_exclusive l = Some l' \<Longrightarrow> rw_ok l' sh (Suc ex) \<and> sh = 0 \<and> ex = 0"
  by (cases l rule: rw_exclusive.cases) auto

lemma rw_ok_unshare: "rw_ok l (Suc sh) ex \<Longrightarrow> rw_ok (rw_unshare l) sh ex"
  by (cases l) auto

lemma rw_ok_unlock: "rw_ok l sh (Suc ex) \<Longrightarrow> rw_ok (rw_unlock l) sh ex"
  by (cases l) auto

lemma rw_ok_excl: "rw_ok l sh ex \<Longrightarrow> 0 < sh \<Longrightarrow> ex = 0" "rw_ok l sh ex \<Longrightarrow> 0 < ex \<Longrightarrow> sh = 0 \<and> ex = 1"
  by (cases l; auto)+

lemmas rw_ok_moves = rw_ok_shared rw_ok_exclusive rw_ok_unshare rw_ok_unlock

end
