(* ===== verification/RawMutex_Safety.thy ===== *)
theory RawMutex_Safety
  imports RawMutex RwSpec
begin

text \<open>
  Safety of \<open>RawMutex\<close>: the reader count and the flags of the word, the moves every step
  makes on them, the invariant that ties the word to the guards in existence, and the
  abstract reader/writer lock that the word implements.
\<close>

section \<open>The fields of the state word\<close>

definition rcnt :: "usize \<Rightarrow> nat" where
  "rcnt w = unat w div 4"

abbreviation (input) WRITER_CNT :: nat where
  "WRITER_CNT \<equiv> 0x3FFFFFFFFFFFFFFF"

definition rp :: "usize \<Rightarrow> bool" where
  "rp w = bit w 0"

definition wp :: "usize \<Rightarrow> bool" where
  "wp w = bit w 1"

lemma ONE_WRITER_not_mask: "ONE_WRITER = NOT (mask 2)"
  by (simp add: ONE_WRITER_def READERS_PARKED_def WRITERS_PARKED_def mask_eq_exp_minus_1)

lemma rcnt_drop_bit: "rcnt w = unat (drop_bit 2 w)"
  by (simp add: rcnt_def unat_drop_bit_word)

lemma rcnt_le: "rcnt w \<le> WRITER_CNT"
  using unsigned_less[of w, where ?'a = nat] by (simp add: rcnt_def)

lemma unat_rcnt: "unat w = 4 * rcnt w + unat w mod 4"
  by (simp add: rcnt_def)

lemma and_ONE_WRITER: "w AND ONE_WRITER = push_bit 2 (drop_bit 2 w)"
  by (simp only: ONE_WRITER_not_mask and_not_mask_push_drop)

lemma rcnt_eq_iff: "rcnt v = rcnt w \<longleftrightarrow> v AND ONE_WRITER = w AND ONE_WRITER"
  by (metis rcnt_drop_bit and_ONE_WRITER ONE_WRITER_not_mask drop_bit_and_not_mask word_unat_eq_iff)

lemma rcnt_0 [simp]: "rcnt 0 = 0"
  by (simp add: rcnt_def)

lemma rcnt_ONE_WRITER [simp]: "rcnt ONE_WRITER = WRITER_CNT"
  by (simp add: rcnt_def ONE_WRITER_def READERS_PARKED_def WRITERS_PARKED_def)

lemma and_writer_0 [word_view]: "w AND ONE_WRITER = 0 \<longleftrightarrow> rcnt w = 0"
  using rcnt_eq_iff[of w 0] by simp

lemma and_writer_all [word_view]: "w AND ONE_WRITER = ONE_WRITER \<longleftrightarrow> rcnt w = WRITER_CNT"
  using rcnt_eq_iff[of w ONE_WRITER] by simp

lemma and_WRITERS_PARKED [word_view]: "w AND WRITERS_PARKED = 0 \<longleftrightarrow> \<not> wp w"
  using and_exp_eq_0_iff_not_bit[of w 1] by (simp add: WRITERS_PARKED_def wp_def)

lemma and_READERS_PARKED [word_view]: "w AND READERS_PARKED = 0 \<longleftrightarrow> \<not> rp w"
  using and_exp_eq_0_iff_not_bit[of w 0] by (simp add: READERS_PARKED_def rp_def)

lemma readers_count_view [word_view]:
  "unat (readers_count w) = (if rcnt w = WRITER_CNT then 0 else rcnt w)"
proof -
  have "drop_bit 2 (w AND ONE_WRITER) = drop_bit 2 w"
    unfolding ONE_WRITER_not_mask by (rule drop_bit_and_not_mask)
  then show ?thesis
    unfolding readers_count_def is_writer_locked_def and_writer_all by (simp add: rcnt_drop_bit)
qed

lemma readers_count_1 [word_view]: "readers_count w = 1 \<longleftrightarrow> rcnt w = 1"
  by (simp add: word_unat_eq_iff readers_count_view)

lemma readers_count_0 [word_view]: "readers_count w = 0 \<longleftrightarrow> rcnt w = 0 \<or> rcnt w = WRITER_CNT"
  by (auto simp: word_unat_eq_iff readers_count_view)

lemma parity_bits: "rp w \<longleftrightarrow> odd (unat w mod 4)" "wp w \<longleftrightarrow> 2 \<le> unat w mod 4"
proof -
  have "bit w 0 \<longleftrightarrow> odd (unat w)" "bit w 1 \<longleftrightarrow> odd (unat w div 2)"
    using bit_unsigned_iff[of w 0, where 'a = nat] bit_unsigned_iff[of w 1, where 'a = nat]
    by (simp_all add: bit_iff_odd bit_0 possible_bit_def del: bit_unsigned_iff)
  moreover have "odd (unat w) \<longleftrightarrow> odd (unat w mod 4)" "odd (unat w div 2) \<longleftrightarrow> 2 \<le> unat w mod 4"
    by presburger+
  ultimately show "rp w \<longleftrightarrow> odd (unat w mod 4)" "wp w \<longleftrightarrow> 2 \<le> unat w mod 4"
    by (simp_all add: rp_def wp_def)
qed

lemma word_eq_0_view: "w = 0 \<longleftrightarrow> rcnt w = 0 \<and> \<not> rp w \<and> \<not> wp w"
  unfolding word_unat_eq_iff[of w 0] parity_bits using unat_rcnt[of w] by auto

lemma or_flags [simp]:
  "rcnt (w OR WRITERS_PARKED) = rcnt w" "rcnt (w OR READERS_PARKED) = rcnt w"
  "wp (w OR WRITERS_PARKED)" "rp (w OR WRITERS_PARKED) = rp w"
  "rp (w OR READERS_PARKED)" "wp (w OR READERS_PARKED) = wp w"
  by (simp_all add: rcnt_drop_bit rp_def wp_def WRITERS_PARKED_def READERS_PARKED_def bit_simps)

lemma writer_word_view [simp]:
  "rcnt (writer_word w) = WRITER_CNT" "rp (writer_word w) = rp w" "\<not> wp (writer_word w)"
proof -
  have "writer_word w AND ONE_WRITER = ONE_WRITER"
    by (rule bit_word_eqI) (auto simp: writer_word_def bit_simps)
  then show "rcnt (writer_word w) = WRITER_CNT" by (simp add: word_view)
qed (auto simp: writer_word_def rp_def wp_def ONE_WRITER_not_mask READERS_PARKED_def bit_simps)

lemma release_word_view [simp]:
  "rcnt (release_word w) = 0" "rp (release_word w) = (rp w \<and> wp w)" "wp (release_word w) = wp w"
proof -
  let ?m = "READERS_PARKED OR WRITERS_PARKED"
  have m: "?m = mask 2" by (simp add: READERS_PARKED_def WRITERS_PARKED_def mask_eq_exp_minus_1)
  have w: "release_word w = (if wp w then w AND ?m else 0)"
    by (simp add: release_word_def Let_def UNLOCKED_def word_view) (simp add: wp_def m bit_simps)
  show "rcnt (release_word w) = 0"
    by (auto simp: w m rcnt_drop_bit drop_bit_take_bit simp flip: take_bit_eq_mask)
  show "rp (release_word w) = (rp w \<and> wp w)" "wp (release_word w) = wp w"
    unfolding w m by (auto simp: rp_def wp_def bit_simps)
qed

lemma rcnt_plus:
  assumes "rcnt w < WRITER_CNT"
  shows "rcnt (w + ONE_READER) = rcnt w + 1" "rp (w + ONE_READER) = rp w" "wp (w + ONE_READER) = wp w"
proof -
  have "unat w + 4 < 2 ^ 64" using assms unat_rcnt[of w] by simp
  then have "unat (w + ONE_READER) = unat w + 4"
    by (simp add: ONE_READER_def unat_word_ariths)
  then show "rcnt (w + ONE_READER) = rcnt w + 1" "rp (w + ONE_READER) = rp w"
    "wp (w + ONE_READER) = wp w"
    by (simp_all add: rcnt_def parity_bits)
qed

lemma rcnt_minus:
  assumes "0 < rcnt w"
  shows "rcnt (w - ONE_READER) = rcnt w - 1" "rp (w - ONE_READER) = rp w" "wp (w - ONE_READER) = wp w"
proof -
  have "4 \<le> unat w" using assms by (simp add: rcnt_def)
  then have "unat (w - ONE_READER) = unat w - 4"
    using unat_sub[of ONE_READER w] by (simp add: ONE_READER_def word_le_nat_alt)
  then show "rcnt (w - ONE_READER) = rcnt w - 1" "rp (w - ONE_READER) = rp w"
    "wp (w - ONE_READER) = wp w" using \<open>4 \<le> unat w\<close>
    by (auto simp: rcnt_def parity_bits le_mod_geq le_div_geq)
qed

lemma downgrade_word_view [simp]:
  "rcnt (downgrade_word w) = 1" "rp (downgrade_word w) = rp w" "wp (downgrade_word w) = wp w"
proof -
  let ?v = "w AND NOT ONE_WRITER"
  have v: "?v = take_bit 2 w" by (simp add: ONE_WRITER_not_mask take_bit_eq_mask)
  have "rcnt ?v = 0" by (simp add: v rcnt_drop_bit drop_bit_take_bit)
  moreover have "rp ?v = rp w" "wp ?v = wp w" unfolding v by (simp_all add: rp_def wp_def bit_simps)
  ultimately show "rcnt (downgrade_word w) = 1" "rp (downgrade_word w) = rp w" "wp (downgrade_word w) = wp w"
    using rcnt_plus[of ?v] by (simp_all add: downgrade_word_def)
qed

lemma try_reader_Some:
  assumes "try_reader st = Some w"
  shows "rcnt w = rcnt st + 1" "rcnt w \<noteq> WRITER_CNT" "rcnt st \<noteq> WRITER_CNT" "rp w = rp st"
    "wp w = wp st" "\<not> wp st"
proof -
  have w: "w = st + ONE_READER" "unat st + 4 < 2 ^ 64" "rcnt w \<noteq> WRITER_CNT" and nw: "\<not> wp st"
    using assms by (auto simp: try_reader_def word_view checked_add_def ONE_READER_def split: if_splits)
  have lt: "rcnt st < WRITER_CNT" using w(2) unat_rcnt[of st] by simp
  show "rcnt w = rcnt st + 1" "rcnt w \<noteq> WRITER_CNT" "rcnt st \<noteq> WRITER_CNT" "rp w = rp st"
    "wp w = wp st" "\<not> wp st"
    using rcnt_plus[OF lt] w nw lt by simp_all
qed

lemma try_reader_None: "try_reader st = None \<longleftrightarrow> rcnt st \<ge> WRITER_CNT - 1 \<or> wp st"
proof (cases "rcnt st < WRITER_CNT")
  case True
  then have "unat st + 4 < 2 ^ 64" using unat_rcnt[of st] by simp
  with rcnt_plus[OF True] True show ?thesis
    by (auto simp: try_reader_def checked_add_def word_view ONE_READER_def)
next
  case False
  then have "2 ^ 64 \<le> unat st + 4" using unat_rcnt[of st] by simp
  with False show ?thesis by (auto simp: try_reader_def checked_add_def ONE_READER_def)
qed

section \<open>The invariant\<close>

text \<open>
  A guard whose release is still under way counts as held: the word says so until the
  exchange of \<open>unlock_exclusive_slow\<close> or \<open>downgrade\<close> succeeds.
\<close>

fun releasing :: "rpc \<Rightarrow> bool" where
  "releasing UXLoad = True"
| "releasing (UX st) = True"
| "releasing DGLoad = True"
| "releasing (DG st) = True"
| "releasing _ = False"

definition held_x :: "rthread \<Rightarrow> nat" where
  "held_x th = exclusive th + (if releasing (rpc th) then 1 else 0)"

definition total_x :: "raw_sys \<Rightarrow> nat" where
  "total_x s = (\<Sum>i<rthreads s. held_x (rthr s i))"

definition total_s :: "raw_sys \<Rightarrow> nat" where
  "total_s s = (\<Sum>i<rthreads s. shared (rthr s i))"

definition raw_inv :: "raw_sys \<Rightarrow> bool" where
  "raw_inv s \<longleftrightarrow>
     (if rcnt (state (raw s)) = WRITER_CNT then total_x s = 1 \<and> total_s s = 0
      else total_x s = 0 \<and> total_s s = rcnt (state (raw s)))"

text \<open>
  The moves of one thread: the word, the exclusive and the shared guards the thread
  accounts for, before and after.
\<close>

inductive lock_move :: "usize \<Rightarrow> nat \<Rightarrow> nat \<Rightarrow> usize \<Rightarrow> nat \<Rightarrow> nat \<Rightarrow> bool" where
  lm_same: "rcnt w' = rcnt w \<Longrightarrow> lock_move w x r w' x r"
| lm_take_x: "rcnt w = 0 \<Longrightarrow> rcnt w' = WRITER_CNT \<Longrightarrow> lock_move w x r w' (Suc x) r"
| lm_drop_x: "rcnt w = WRITER_CNT \<Longrightarrow> rcnt w' = 0 \<Longrightarrow> lock_move w (Suc x) r w' x r"
| lm_take_s: "rcnt w < WRITER_CNT - 1 \<Longrightarrow> rcnt w' = rcnt w + 1 \<Longrightarrow> lock_move w x r w' x (Suc r)"
| lm_drop_s: "rcnt w < WRITER_CNT \<Longrightarrow> rcnt w = rcnt w' + 1 \<Longrightarrow> lock_move w x (Suc r) w' x r"
| lm_downgrade: "rcnt w = WRITER_CNT \<Longrightarrow> rcnt w' = 1 \<Longrightarrow> lock_move w (Suc x) r w' x (Suc r)"

definition moves :: "raw_sys \<Rightarrow> tid \<Rightarrow> raw_sys \<Rightarrow> bool" where
  "moves s i t \<longleftrightarrow>
     rthreads t = rthreads s \<and> (\<forall>j. j \<noteq> i \<longrightarrow> rthr t j = rthr s j) \<and>
     lock_move (state (raw s)) (held_x (rthr s i)) (shared (rthr s i))
               (state (raw t)) (held_x (rthr t i)) (shared (rthr t i))"

lemma raw_inv_move:
  assumes inv: "raw_inv s" and i: "i < rthreads s" and mv: "moves s i t"
  shows "raw_inv t"
proof -
  have n: "rthreads t = rthreads s" and eq: "\<And>j. j \<noteq> i \<Longrightarrow> rthr t j = rthr s j"
    using mv by (auto simp: moves_def)
  have x: "total_x t + held_x (rthr s i) = total_x s + held_x (rthr t i)"
    unfolding total_x_def n by (rule sum_if_upd[OF i]) (simp add: eq)
  have r: "total_s t + shared (rthr s i) = total_s s + shared (rthr t i)"
    unfolding total_s_def n by (rule sum_if_upd[OF i]) (simp add: eq)
  have "held_x (rthr s i) \<le> total_x s" "shared (rthr s i) \<le> total_s s"
    unfolding total_x_def total_s_def by (rule member_le_sum_lt[OF i])+
  note le = this x r inv[unfolded raw_inv_def]
  have "lock_move (state (raw s)) (held_x (rthr s i)) (shared (rthr s i))
      (state (raw t)) (held_x (rthr t i)) (shared (rthr t i))" using mv by (simp add: moves_def)
  then show ?thesis
    unfolding raw_inv_def by cases (use le in \<open>simp_all split: if_splits\<close>)
qed

lemma held_writer:
  assumes "raw_inv s" "i < rthreads s" "0 < held_x (rthr s i)"
  shows "rcnt (state (raw s)) = WRITER_CNT"
proof -
  have "0 < total_x s" using member_le_sum_lt[OF assms(2), of "\<lambda>j. held_x (rthr s j)"] assms(3)
    by (simp add: total_x_def)
  then show ?thesis using assms(1) by (auto simp: raw_inv_def split: if_splits)
qed

lemma held_reader:
  assumes "raw_inv s" "i < rthreads s" "0 < shared (rthr s i)"
  shows "0 < rcnt (state (raw s))" "rcnt (state (raw s)) < WRITER_CNT"
proof -
  have "0 < total_s s" using member_le_sum_lt[OF assms(2), of "\<lambda>j. shared (rthr s j)"] assms(3)
    by (simp add: total_s_def)
  then show "0 < rcnt (state (raw s))" "rcnt (state (raw s)) < WRITER_CNT"
    using assms(1) rcnt_le[of "state (raw s)"] by (auto simp: raw_inv_def split: if_splits)
qed

lemma held_x_simps [simp]:
  "held_x (th\<lparr>rpc := p\<rparr>) = exclusive th + (if releasing p then 1 else 0)"
  "held_x (th\<lparr>exclusive := n\<rparr>) = n + (if releasing (rpc th) then 1 else 0)"
  "held_x (th\<lparr>shared := m\<rparr>) = held_x th"
  by (simp_all add: held_x_def)

lemma after_not_releasing [simp]: "\<not> releasing (after_release st)" "\<not> releasing (after_downgrade st)"
  by (simp_all add: after_release_def after_downgrade_def)

lemma move_pc:
  assumes "rthreads t = rthreads s" "rthr t = (rthr s)(i := (rthr s i)\<lparr>rpc := p\<rparr>)"
    "rcnt (state (raw t)) = rcnt (state (raw s))" "releasing p = releasing (rpc (rthr s i))"
  shows "moves s i t"
  using assms lm_same[of "state (raw t)" "state (raw s)"] by (auto simp: moves_def held_x_def)

lemma move_take_x:
  assumes "rthreads t = rthreads s"
    "rthr t = (rthr s)(i := (rthr s i)\<lparr>rpc := RIdle, exclusive := exclusive (rthr s i) + 1\<rparr>)"
    "rcnt (state (raw s)) = 0" "rcnt (state (raw t)) = WRITER_CNT" "\<not> releasing (rpc (rthr s i))"
  shows "moves s i t"
  using assms by (auto simp: moves_def held_x_def intro: lm_take_x)

lemma move_take_s:
  assumes "rthreads t = rthreads s"
    "rthr t = (rthr s)(i := (rthr s i)\<lparr>rpc := RIdle, shared := shared (rthr s i) + 1\<rparr>)"
    "try_reader (state (raw s)) = Some (state (raw t))" "\<not> releasing (rpc (rthr s i))"
  shows "moves s i t"
proof -
  have "lock_move (state (raw s)) x r (state (raw t)) x (Suc r)" for x r
    using try_reader_Some[OF assms(3)] rcnt_le[of "state (raw t)"] by (intro lm_take_s) auto
  with assms show ?thesis by (auto simp: moves_def held_x_def)
qed

lemma thread_moves:
  assumes inv: "raw_inv s" and i: "i < rthreads s"
    and st: "raw_thread_step s i w (rpc (rthr s i)) = Some t"
  shows "moves s i t"
proof (cases "rpc (rthr s i)")
  case (LX old b)
  show ?thesis
  proof (cases "old AND ONE_WRITER = 0 \<and> state (raw s) = old \<and> \<not> w")
    case True
    with LX st show ?thesis by (intro move_take_x) (auto simp: word_view)
  next
    case False
    with LX st show ?thesis
      by (intro move_pc[where p = "rpc (rthr t i)"]) (auto split: if_splits)
  qed
next
  case (UX old)
  then have "0 < held_x (rthr s i)" by (simp add: held_x_def)
  from held_writer[OF inv i this] UX st show ?thesis
    by (cases "state (raw s) = old \<and> \<not> w") (auto simp: moves_def held_x_def intro!: lm_same lm_drop_x)
next
  case (DG old)
  then have "0 < held_x (rthr s i)" by (simp add: held_x_def)
  from held_writer[OF inv i this] DG st show ?thesis
    by (cases "state (raw s) = old") (auto simp: moves_def held_x_def intro!: lm_same lm_downgrade)
next
  case (LSFast nonblock old)
  show ?thesis
  proof (cases "try_reader old \<noteq> None \<and> state (raw s) = old")
    case True
    with LSFast st show ?thesis by (intro move_take_s) (auto simp: Let_def split: option.splits)
  next
    case False
    with LSFast st show ?thesis
      by (intro move_pc[where p = "if nonblock then TSLoad else LSLoad (backoff_new (rpar s))"])
        (auto simp: Let_def split: option.splits if_splits)
  qed
next
  case (TS old)
  show ?thesis
  proof (cases "try_reader old \<noteq> None \<and> state (raw s) = old \<and> \<not> w")
    case True
    with TS st show ?thesis by (intro move_take_s) (auto split: option.splits)
  next
    case False
    with TS st show ?thesis
      by (intro move_pc[where p = "if try_reader old = None then RIdle else TS (state (raw s))"])
        (auto split: option.splits if_splits)
  qed
next
  case (LS old b)
  show ?thesis
  proof (cases "try_reader old \<noteq> None \<and> state (raw s) = old \<and> \<not> w")
    case True
    with LS st show ?thesis by (intro move_take_s) (auto split: option.splits)
  next
    case False
    with LS st show ?thesis
      by (intro move_pc[where p = "rpc (rthr t i)"]) (auto split: option.splits if_splits)
  qed
next
  case (LXCheck b k)
  with st show ?thesis by (intro move_pc[where p = "rpc (rthr t i)"]) (auto split: if_splits)
next
  case (LXWait b k)
  with st show ?thesis
    by (intro move_pc[where p = "rpc (rthr t i)"]) (auto simp: futex_wait_def split: if_splits)
next
  case (LSCheck b k)
  with st show ?thesis by (intro move_pc[where p = "rpc (rthr t i)"]) (auto split: if_splits)
next
  case (LSWait b k)
  with st show ?thesis
    by (intro move_pc[where p = "rpc (rthr t i)"]) (auto simp: futex_wait_def split: if_splits)
qed (use st in \<open>auto intro: move_pc split: if_splits\<close>)

lemma unlock_exclusive_moves:
  assumes "raw_inv s" "i < rthreads s" "rpc (rthr s i) = RIdle" "0 < exclusive (rthr s i)"
  shows "moves s i (unlock_exclusive s i)"
proof -
  obtain x where x: "exclusive (rthr s i) = Suc x" using assms(4) by (cases "exclusive (rthr s i)") auto
  have "rcnt (state (raw s)) = WRITER_CNT"
    using held_writer[OF assms(1,2)] x by (simp add: held_x_def)
  with x assms(3) show ?thesis
    by (cases "state (raw s) = ONE_WRITER")
      (auto simp: moves_def unlock_exclusive_def Let_def held_x_def UNLOCKED_def intro!: lm_same lm_drop_x)
qed

lemma unlock_shared_moves:
  assumes "raw_inv s" "i < rthreads s" "rpc (rthr s i) = RIdle" "0 < shared (rthr s i)"
  shows "moves s i (unlock_shared s i)"
proof -
  obtain r where r: "shared (rthr s i) = Suc r" using assms(4) by (cases "shared (rthr s i)") auto
  note h = held_reader[OF assms(1,2,4)]
  have "lock_move (state (raw s)) x (Suc r) (state (raw s) - ONE_READER) x r" for x
    using h rcnt_minus[OF h(1)] by (intro lm_drop_s) auto
  with r assms(3) show ?thesis
    by (simp add: moves_def unlock_shared_def Let_def held_x_def)
qed

lemma raw_inv_send:
  assumes inv: "raw_inv s" and ij: "i < rthreads s" "j < rthreads s" "i \<noteq> j"
    and pcs: "rpc a = rpc (rthr s i)" "rpc b = rpc (rthr s j)"
    and x: "exclusive a + exclusive b = exclusive (rthr s i) + exclusive (rthr s j)"
    and r: "shared a + shared b = shared (rthr s i) + shared (rthr s j)"
  shows "raw_inv (s\<lparr>rthr := (rthr s)(i := a, j := b)\<rparr>)"
proof -
  have sums: "(\<Sum>k<rthreads s. f (((rthr s)(i := a, j := b)) k)) = (\<Sum>k<rthreads s. f (rthr s k))"
    if "f a + f b = f (rthr s i) + f (rthr s j)" for f :: "rthread \<Rightarrow> nat"
    using sum_if_upd[OF ij(1), of "\<lambda>k. f (((rthr s)(i := a)) k)" "\<lambda>k. f (rthr s k)"]
      sum_if_upd[OF ij(2), of "\<lambda>k. f (((rthr s)(i := a, j := b)) k)" "\<lambda>k. f (((rthr s)(i := a)) k)"]
      ij(3) that by simp
  have "held_x a + held_x b = held_x (rthr s i) + held_x (rthr s j)" using pcs x by (simp add: held_x_def)
  from sums[of held_x, OF this] sums[of shared, OF r]
  have "total_x (s\<lparr>rthr := (rthr s)(i := a, j := b)\<rparr>) = total_x s"
    "total_s (s\<lparr>rthr := (rthr s)(i := a, j := b)\<rparr>) = total_s s"
    by (simp_all add: total_x_def total_s_def)
  with inv show ?thesis by (simp add: raw_inv_def)
qed

text \<open>Every action but a transfer of a guard or a spurious wake-up is a move of its thread.\<close>

fun ractor :: "ract \<Rightarrow> tid" where
  "ractor (CallLockX i) = i"
| "ractor (CallTryX i) = i"
| "ractor (CallUnlockX i) = i"
| "ractor (CallLockS i) = i"
| "ractor (CallTryS i) = i"
| "ractor (CallUnlockS i) = i"
| "ractor (CallDowngrade i) = i"
| "ractor (SendX i j) = i"
| "ractor (SendS i j) = i"
| "ractor (RStep i w) = i"
| "ractor (RSpurious i) = i"

fun transfer :: "ract \<Rightarrow> bool" where
  "transfer (SendX i j) = True"
| "transfer (SendS i j) = True"
| "transfer _ = False"

lemma raw_step_moves:
  assumes inv: "raw_inv s" and st: "raw_step a s = Some t" and nt: "\<not> transfer a"
  shows "ractor a < rthreads s \<and> moves s (ractor a) t"
proof (cases a)
  case (RStep i w)
  with st thread_moves[OF inv] show ?thesis by (auto simp: raw_step_def split: if_splits)
next
  case (CallUnlockX i)
  with st unlock_exclusive_moves[OF inv] show ?thesis by (auto simp: raw_step_def split: if_splits)
next
  case (CallUnlockS i)
  with st unlock_shared_moves[OF inv] show ?thesis by (auto simp: raw_step_def split: if_splits)
next
  case (CallLockX i)
  with st show ?thesis
    by (cases "state (raw s) = 0")
      (auto simp: raw_step_def lock_exclusive_def UNLOCKED_def intro: move_take_x move_pc split: if_splits)
next
  case (CallTryX i)
  with st show ?thesis
    by (cases "state (raw s) = 0")
      (auto simp: raw_step_def try_lock_exclusive_def UNLOCKED_def moves_def held_x_def
        intro!: lm_take_x lm_same split: if_splits)
next
  case (CallDowngrade i)
  with st show ?thesis
    by (auto simp: raw_step_def downgrade_def moves_def held_x_def intro: lm_same split: if_splits)
next
  case (RSpurious i)
  with st show ?thesis
    by (auto simp: raw_step_def moves_def intro: lm_same split: if_splits)
qed (use st nt in \<open>auto simp: raw_step_def lock_shared_def intro: move_pc split: if_splits\<close>)

lemma raw_inv_step:
  assumes inv: "raw_inv s" and st: "raw_step a s = Some t"
  shows "raw_inv t"
proof (cases "transfer a")
  case False
  with raw_step_moves[OF inv st] raw_inv_move[OF inv] show ?thesis by blast
next
  case True
  with st show ?thesis
    by (cases a) (auto simp: raw_step_def split: if_splits intro!: raw_inv_send[OF inv])
qed

lemma raw_inv_init: "raw_inv (raw_init n p)"
  by (simp add: raw_inv_def raw_init_def inner_mutex_new_def total_x_def total_s_def held_x_def)

interpretation raw: machine raw_step "raw_init n p" raw_inv
  for n p
  by unfold_locales (auto intro: raw_inv_init raw_inv_step)

section \<open>The abstract lock\<close>

text \<open>The lock the word stands for.\<close>

definition rwl_abs :: "usize \<Rightarrow> rwl" where
  "rwl_abs w = (if is_writer_locked w then Writer else Readers (unat (readers_count w)))"

lemma rwl_abs_rcnt: "rwl_abs w = (if rcnt w = WRITER_CNT then Writer else Readers (rcnt w))"
  by (simp add: rwl_abs_def is_writer_locked_def word_view)

lemma lock_move_rwl:
  "lock_move w x r w' x' r' \<Longrightarrow> rwl_abs w' = rwl_abs w \<or> rwl_step (rwl_abs w) (rwl_abs w')"
  by (induction rule: lock_move.induct) (auto simp: rwl_abs_rcnt intro: rwl_step.intros)

section \<open>Properties\<close>

lemma exclusive_alone:
  assumes inv: "raw_inv s" and "i < rthreads s" "j < rthreads s" "0 < exclusive (rthr s i)"
  shows "exclusive (rthr s i) = 1 \<and> (j \<noteq> i \<longrightarrow> exclusive (rthr s j) = 0) \<and> shared (rthr s j) = 0"
proof -
  have x: "total_x s = 1" and r: "total_s s = 0"
    using inv held_writer[OF inv assms(2)] assms(4) by (simp_all add: raw_inv_def held_x_def)
  have "held_x (rthr s i) \<le> 1" using member_le_sum_lt[OF assms(2)] x by (metis total_x_def)
  moreover have "shared (rthr s j) \<le> 0" using member_le_sum_lt[OF assms(3)] r by (metis total_s_def)
  moreover have "held_x (rthr s i) + held_x (rthr s j) \<le> 1" if "j \<noteq> i"
    using two_members_le_sum[OF assms(2,3) that[symmetric], of "\<lambda>k. held_x (rthr s k)"] x
    by (simp add: total_x_def)
  ultimately show ?thesis using assms(4) by (auto simp: held_x_def)
qed

text \<open>
  C2: mutual exclusion of \<open>RawMutex\<close>, for any number of threads and any interleaving of
  locking, unlocking, downgrading and guard transfer: a thread that owns an exclusive
  acquisition owns exactly one, no other thread owns one, and nobody owns a shared one.
\<close>

theorem raw_mutual_exclusion:
  assumes "reachable raw_step (raw_init n p) s" "i < rthreads s" "j < rthreads s" "0 < exclusive (rthr s i)"
  shows "exclusive (rthr s i) = 1 \<and> (j \<noteq> i \<longrightarrow> exclusive (rthr s j) = 0) \<and> shared (rthr s j) = 0"
  using exclusive_alone[OF raw.always[OF assms(1)] assms(2-4)] .

theorem raw_mutual_exclusion_witness:
  "\<exists>s. reachable raw_step (raw_init 2 4) s \<and> 0 < exclusive (rthr s 0) \<and>
     exclusive (rthr s 1) = 0 \<and> shared (rthr s 1) = 0"
proof -
  have "run_to raw_step [CallLockS 1, CallLockX 0, RStep 1 False] (raw_init 2 4)
      (\<lambda>s. rthreads s = 2 \<and> 0 < exclusive (rthr s 0))"
    by code_simp
  then obtain s where "reachable raw_step (raw_init 2 4) s" "rthreads s = 2" "0 < exclusive (rthr s 0)"
    by (auto dest: run_toD)
  with raw_mutual_exclusion[of 2 4 s 0 1] show ?thesis by auto
qed

text \<open>
  The word counts the readers exactly. In every reachable state \<open>get_shared_locked\<close>
  returns the number of shared acquisitions in existence, and \<open>is_locked_exclusive\<close> is true
  exactly while one exclusive acquisition exists or is being released: the count never runs
  into the writer pattern and never loses a reader.
\<close>

theorem raw_reader_count:
  assumes "reachable raw_step (raw_init n p) s"
  shows "unat (readers_count (state (raw s))) = (\<Sum>i<rthreads s. shared (rthr s i)) \<and>
         (if is_writer_locked (state (raw s)) then 1 else 0) = (\<Sum>i<rthreads s. held_x (rthr s i))"
  using raw.always[OF assms]
  by (auto simp: raw_inv_def total_x_def total_s_def is_writer_locked_def word_view split: if_splits)

theorem raw_reader_count_witness:
  "\<exists>s. reachable raw_step (raw_init 2 4) s \<and> unat (readers_count (state (raw s))) = 2"
proof -
  have "run_to raw_step [CallLockS 0, CallTryS 1, RStep 1 False, RStep 0 False, RStep 0 False, RStep 0 False]
      (raw_init 2 4) (\<lambda>s. rthreads s = 2 \<and> shared (rthr s 0) = 1 \<and> shared (rthr s 1) = 1)"
    by code_simp
  then obtain s where s: "reachable raw_step (raw_init 2 4) s" "rthreads s = 2"
    "shared (rthr s 0) = 1" "shared (rthr s 1) = 1"
    by (auto dest: run_toD)
  with raw_reader_count[OF s(1)] show ?thesis by (auto simp: numeral_2_eq_2)
qed

text \<open>
  C6: the word implements the abstract reader/writer lock. From every reachable state,
  every action either leaves the abstract lock alone or is one of its transitions; a
  downgrade goes from the writer to one reader with no state in between in which another
  writer could enter.
\<close>

theorem raw_refines_rwl:
  assumes "reachable raw_step (raw_init n p) s" "raw_step a s = Some t"
  shows "rwl_abs (state (raw t)) = rwl_abs (state (raw s)) \<or>
         rwl_step (rwl_abs (state (raw s))) (rwl_abs (state (raw t)))"
proof (cases "transfer a")
  case False
  have "raw_inv s" by (rule raw.always[OF assms(1)])
  from raw_step_moves[OF this assms(2) False] show ?thesis
    unfolding moves_def by (blast dest: lock_move_rwl)
next
  case True
  with assms(2) show ?thesis by (cases a) (auto simp: raw_step_def split: if_splits)
qed

theorem raw_refines_rwl_witness:
  "\<exists>s t. reachable raw_step (raw_init 1 4) s \<and> raw_step (RStep 0 False) s = Some t \<and>
     rwl_abs (state (raw s)) = Writer \<and> rwl_abs (state (raw t)) = Readers 1 \<and>
     (rwl_abs (state (raw t)) = rwl_abs (state (raw s)) \<or>
      rwl_step (rwl_abs (state (raw s))) (rwl_abs (state (raw t))))"
proof -
  let ?ok = "\<lambda>s. (case raw_step (RStep 0 False) s of None \<Rightarrow> False | Some t \<Rightarrow>
     rwl_abs (state (raw s)) = Writer \<and> rwl_abs (state (raw t)) = Readers 1)"
  have "run_to raw_step [CallLockX 0, CallDowngrade 0, RStep 0 False] (raw_init 1 4) ?ok" by code_simp
  from run_toD[OF this] obtain s where r: "reachable raw_step (raw_init 1 4) s" and "?ok s" by blast
  then obtain t where t: "raw_step (RStep 0 False) s = Some t"
    and "rwl_abs (state (raw s)) = Writer" "rwl_abs (state (raw t)) = Readers 1"
    by (cases "raw_step (RStep 0 False) s") simp_all
  with raw_refines_rwl[OF r t] r show ?thesis by blast
qed

text \<open>
  \<open>unlock_all_shared\<close> gives up when there is no reader; otherwise the word it installs
  has no reader and no writer (its two debug assertions), keeps both parked flags, and
  writers are woken exactly when some are parked.
\<close>

theorem unlock_all_shared_effect:
  "unlock_all_shared w =
     (if readers_count w = 0 then None
      else Some (w AND (READERS_PARKED OR WRITERS_PARKED), w AND WRITERS_PARKED \<noteq> 0)) \<and>
   (\<forall>v b. unlock_all_shared w = Some (v, b) \<longrightarrow> \<not> is_writer_locked v \<and> readers_count v = 0)"
proof -
  let ?m = "READERS_PARKED OR WRITERS_PARKED"
  have m: "?m = mask 2" by (simp add: READERS_PARKED_def WRITERS_PARKED_def mask_eq_exp_minus_1)
  have zero: "rcnt (w AND ?m) = 0"
    by (simp add: m rcnt_drop_bit drop_bit_take_bit flip: take_bit_eq_mask)
  have "w = push_bit 2 (drop_bit 2 w) + take_bit 2 w" by (simp add: bits_ident)
  then have low: "w - ONE_READER * drop_bit 2 w = w AND ?m"
    by (simp add: m ONE_READER_def push_bit_eq_mult take_bit_eq_mask[symmetric]) (metis add_diff_cancel_left' mult.commute)
  have "readers_count w = drop_bit 2 w" if "readers_count w \<noteq> 0"
    using that drop_bit_and_not_mask[of 2 w]
    by (auto simp: readers_count_def ONE_WRITER_not_mask simp del: drop_bit_and split: if_splits)
  with low zero show ?thesis
    by (auto simp: unlock_all_shared_def Let_def word_view is_writer_locked_def)
qed

theorem unlock_all_shared_effect_witness:
  "readers_count 10 \<noteq> 0 \<and> unlock_all_shared 10 = Some (2, True) \<and> \<not> is_writer_locked 2 \<and> readers_count 2 = 0"
proof -
  have "unlock_all_shared 10 = Some (2, True)" "readers_count 10 \<noteq> 0" by code_simp+
  with unlock_all_shared_effect[of 10] show ?thesis by blast
qed

end
