(* ===== verification/RawMutex_Live.thy ===== *)
theory RawMutex_Live
  imports RawMutex_Safety Parking
begin

text \<open>
  Wake-ups of \<open>RawMutex\<close>. The writers' futex follows the parking protocol, so no parked
  writer is forgotten. The readers' futex does not: a reader parks without testing that
  its flag is still in the word, and a concrete schedule leaves one asleep on a free lock.
  A second schedule shows the flag that a downgrade leaves behind.
\<close>

section \<open>Writers\<close>

fun wrole :: "rpc \<Rightarrow> role" where
  "wrole (LXCheck b key) = HasKey key"
| "wrole (LXWait b key) = Committed key"
| "wrole WAddW = Notifying"
| "wrole WWakeW = Waking"
| "wrole _ = Quiet"

text \<open>The lock is held and its word says that writers are parked.\<close>

definition raw_hot :: "raw_sys \<Rightarrow> bool" where
  "raw_hot s \<longleftrightarrow> wp (state (raw s)) \<and> 0 < rcnt (state (raw s))"

abbreviation (input) raw_parks :: "raw_sys \<Rightarrow> raw_sys \<Rightarrow> bool" where
  "raw_parks s t \<equiv>
     park_change (rthreads s) (raw_hot s) (writers_futex (raw s)) (wbumps s) (\<lambda>j. wrole (rpc (rthr s j)))
       (raw_hot t) (writers_futex (raw t)) (wbumps t) (\<lambda>j. wrole (rpc (rthr t j)))"

lemma parks_move:
  assumes "i < rthreads s" "rthr t = (rthr s)(i := th)" "writers_futex (raw t) = writers_futex (raw s)"
    "wbumps t = wbumps s" "wrole (rpc (rthr s i)) \<noteq> Notifying" "wrole (rpc (rthr s i)) \<noteq> Waking"
    "role_from (raw_hot t) (writers_futex (raw s)) (wrole (rpc (rthr s i))) (wrole (rpc th))"
    "raw_hot s \<Longrightarrow> raw_hot t \<or> rpc th = WAddW"
  shows "raw_parks s t"
  using assms by (intro pk_move[of i]) auto

lemma thread_parks:
  assumes inv: "raw_inv s" and i: "i < rthreads s"
    and st: "raw_thread_step s i w (rpc (rthr s i)) = Some t"
  shows "raw_parks s t"
proof (cases "rpc (rthr s i)")
  case (LX old b)
  with st show ?thesis
    by (intro parks_move[OF i, of t "rthr t i"]) (auto simp: raw_hot_def word_view split: if_splits)
next
  case (LXCheck b k)
  with st show ?thesis
    by (intro parks_move[OF i, of t "rthr t i"]) (auto simp: raw_hot_def word_view split: if_splits)
next
  case (LXWait b k)
  show ?thesis
  proof (cases "fword (writers_futex (raw s)) = k")
    case True
    with LXWait st have "t = go (s\<lparr>raw := (raw s)\<lparr>writers_futex :=
        (writers_futex (raw s))\<lparr>waiters := waiters (writers_futex (raw s)) @ [i]\<rparr>\<rparr>\<rparr>) i (LXSleep b)"
      by (simp add: futex_wait_def)
    then show ?thesis using LXWait True i
      by (simp add: raw_hot_def) (rule pk_sleep[of i]; simp)
  next
    case False
    with LXWait st show ?thesis
      by (intro parks_move[OF i, of t "rthr t i"]) (auto simp: raw_hot_def futex_wait_def)
  qed
next
  case (UX old)
  with st show ?thesis
    by (intro parks_move[OF i, of t "rthr t i"])
      (auto simp: raw_hot_def word_view after_release_def split: if_splits)
next
  case (DG old)
  with st show ?thesis
    by (intro parks_move[OF i, of t "rthr t i"])
      (auto simp: raw_hot_def word_view after_downgrade_def split: if_splits)
next
  case (LSFast nb old)
  with st show ?thesis
    by (intro parks_move[OF i, of t "rthr t i"])
      (auto simp: raw_hot_def Let_def dest: try_reader_Some split: if_splits option.splits)
next
  case (TS old)
  with st show ?thesis
    by (intro parks_move[OF i, of t "rthr t i"])
      (auto simp: raw_hot_def dest: try_reader_Some split: if_splits option.splits)
next
  case (LS old b)
  with st show ?thesis
    by (intro parks_move[OF i, of t "rthr t i"])
      (auto simp: raw_hot_def dest: try_reader_Some split: if_splits option.splits)
next
  case WAddW
  with st i show ?thesis by (auto simp: raw_hot_def intro!: pk_notify[of i])
next
  case WWakeW
  with st i show ?thesis by (auto simp: raw_hot_def intro!: pk_wake[of i])
next
  case (LSWait b k)
  with st show ?thesis
    by (intro parks_move[OF i, of t "rthr t i"]) (auto simp: raw_hot_def futex_wait_def split: if_splits)
qed (rule parks_move[OF i, of t "rthr t i"]; use st in \<open>auto simp: raw_hot_def split: if_splits\<close>)+

lemma unlock_shared_parks:
  assumes inv: "raw_inv s" and i: "i < rthreads s" and "rpc (rthr s i) = RIdle" "0 < shared (rthr s i)"
  shows "raw_parks s (unlock_shared s i)"
proof -
  note h = held_reader[OF inv i assms(4)]
  show ?thesis using assms(3) h rcnt_minus[OF h(1)]
    by (intro parks_move[OF i, of _ "rthr (unlock_shared s i) i"])
      (auto simp: unlock_shared_def Let_def raw_hot_def word_view)
qed

lemma raw_step_parks:
  assumes inv: "raw_inv s" and st: "raw_step a s = Some t"
  shows "raw_parks s t"
proof (cases a)
  case (RStep i w)
  with st thread_parks[OF inv] show ?thesis by (auto simp: raw_step_def split: if_splits)
next
  case (CallUnlockS i)
  with st unlock_shared_parks[OF inv] show ?thesis by (auto simp: raw_step_def split: if_splits)
next
  case (SendX i j)
  with st show ?thesis
    by (intro pk_same)
      (auto simp: raw_step_def raw_hot_def split: if_splits)
next
  case (SendS i j)
  with st show ?thesis
    by (intro pk_same)
      (auto simp: raw_step_def raw_hot_def split: if_splits)
next
  case (RSpurious i)
  with st show ?thesis
    by (intro pk_same)
      (auto simp: raw_step_def raw_hot_def futex_unpark_def split: if_splits)
next
  case (CallUnlockX i)
  have "wp ONE_WRITER = False" by (simp add: wp_def ONE_WRITER_not_mask bit_simps)
  with CallUnlockX st show ?thesis
    by (intro parks_move[of i s t "rthr t i"])
      (auto simp: raw_step_def unlock_exclusive_def Let_def raw_hot_def split: if_splits)
qed (rule parks_move[of "ractor a" s t "rthr t (ractor a)"];
  use st in \<open>auto simp: raw_step_def lock_exclusive_def try_lock_exclusive_def lock_shared_def downgrade_def
    raw_hot_def UNLOCKED_def split: if_splits\<close>)+

lemma raw_step_threads: "raw_inv s \<Longrightarrow> raw_step a s = Some t \<Longrightarrow> rthreads t = rthreads s"
  using raw_step_moves[of s a t]
  by (cases a) (auto simp: moves_def raw_step_def split: if_splits)

interpretation raw_writers: parking raw_step "raw_init n p" raw_inv rthreads raw_hot
    "\<lambda>s. writers_futex (raw s)" wbumps "\<lambda>s j. wrole (rpc (rthr s j))"
  for n p
  by unfold_locales
    (auto simp: raw_step_threads raw_init_def inner_mutex_new_def intro: raw_step_parks)

lemma wrole_iff: "wrole q = Notifying \<longleftrightarrow> q = WAddW" "wrole q = Waking \<longleftrightarrow> q = WWakeW"
  by (cases q; simp)+

text \<open>
  C4: no wake-up of a writer is lost. In every reachable state with fewer than \<open>2^32\<close>
  signals so far, when a thread is parked on the writers' futex, either the lock is held
  by a guard whose release will see \<open>WRITERS_PARKED\<close>, or some thread is about to bump the
  sequence or to wake the sleepers.
\<close>

theorem raw_writer_wakeup:
  assumes "reachable raw_step (raw_init n p) s" "wbumps s < 2 ^ 32"
    "i \<in> set (waiters (writers_futex (raw s)))"
  shows "state (raw s) AND WRITERS_PARKED \<noteq> 0 \<and>
           (\<exists>j<rthreads s. 0 < held_x (rthr s j) \<or> 0 < shared (rthr s j)) \<or>
         (\<exists>j<rthreads s. rpc (rthr s j) = WAddW \<or> rpc (rthr s j) = WWakeW)"
proof -
  have inv: "raw_inv s" by (rule raw.always[OF assms(1)])
  have "\<exists>j<rthreads s. 0 < held_x (rthr s j) \<or> 0 < shared (rthr s j)" if "0 < rcnt (state (raw s))"
    using inv that sum_pos_ex[of "\<lambda>j. held_x (rthr s j)" "rthreads s"]
      sum_pos_ex[of "\<lambda>j. shared (rthr s j)" "rthreads s"]
    by (auto simp: raw_inv_def total_x_def total_s_def split: if_splits)
  with raw_writers.no_lost_wakeup[OF assms] show ?thesis
    by (auto simp: raw_hot_def word_view wrole_iff)
qed

text \<open>Thread 1 backs off, sets the flag and parks behind the exclusive guard of thread 0.\<close>

definition park_writer :: "ract list" where
  "park_writer = [CallLockX 0, CallLockX 1] @ replicate 14 (RStep 1 False)"

theorem raw_writer_wakeup_witness:
  "\<exists>s. reachable raw_step (raw_init 2 1) s \<and> waiters (writers_futex (raw s)) = [1] \<and>
     state (raw s) AND WRITERS_PARKED \<noteq> 0 \<and>
     (\<exists>j<rthreads s. 0 < held_x (rthr s j) \<or> 0 < shared (rthr s j))"
proof -
  have "run_to raw_step park_writer (raw_init 2 1)
      (\<lambda>s. rthreads s = 2 \<and> wbumps s = 0 \<and> waiters (writers_futex (raw s)) = [1] \<and>
         rpc (rthr s 0) = RIdle \<and> wrole (rpc (rthr s 1)) = Quiet)"
    by code_simp
  then obtain s where s: "reachable raw_step (raw_init 2 1) s" "rthreads s = 2" "wbumps s = 0"
    "waiters (writers_futex (raw s)) = [1]" "rpc (rthr s 0) = RIdle" "wrole (rpc (rthr s 1)) = Quiet"
    by (auto dest: run_toD)
  then have "\<not> (\<exists>j<rthreads s. rpc (rthr s j) = WAddW \<or> rpc (rthr s j) = WWakeW)"
    by (auto dest!: less_2_cases)
  with raw_writer_wakeup[OF s(1), of 1] s show ?thesis by (intro exI[of _ s]) auto
qed

section \<open>Readers\<close>

text \<open>
  Thread 0 wants to read while thread 1 writes. It sets \<open>READERS_PARKED\<close>; thread 1
  releases, clears the flag and signals; thread 2 takes the lock; only then does thread 0
  read the sequence and find a writer, and it parks although the word no longer has its
  flag. The release of thread 2 is the uncontended one and signals nobody.
\<close>

definition strand_reader :: "ract list" where
  "strand_reader =
     [CallLockX 1, CallLockS 0] @ replicate 21 (RStep 0 False) @
     [CallUnlockX 1] @ replicate 4 (RStep 1 False) @
     [CallLockX 2] @ replicate 3 (RStep 0 False) @ [CallUnlockX 2]"

text \<open>
  C35: a reader can be left asleep on a free lock. A state is reachable in which the word
  is \<open>UNLOCKED\<close>, thread 0 sleeps inside \<open>lock_shared\<close>, and no other thread holds a guard or
  is inside an operation, so nothing is under way that would wake it.
\<close>

theorem raw_reader_stranded:
  "\<exists>s. reachable raw_step (raw_init 3 1) s \<and> state (raw s) = UNLOCKED \<and>
     waiters (readers_futex (raw s)) = [0] \<and> raw_step (RStep 0 False) s = None \<and>
     list_all (\<lambda>j. shared (rthr s j) = 0 \<and> exclusive (rthr s j) = 0) [0, 1, 2] \<and>
     list_all (\<lambda>j. rpc (rthr s j) = RIdle) [1, 2]"
proof -
  have "run_to raw_step strand_reader (raw_init 3 1)
      (\<lambda>s. state (raw s) = UNLOCKED \<and> waiters (readers_futex (raw s)) = [0] \<and>
         (case raw_step (RStep 0 False) s of None \<Rightarrow> True | Some t \<Rightarrow> False) \<and>
         list_all (\<lambda>j. shared (rthr s j) = 0 \<and> exclusive (rthr s j) = 0) [0, 1, 2] \<and>
         rpc (rthr s 1) = RIdle \<and> rpc (rthr s 2) = RIdle)"
    by code_simp
  from run_toD[OF this] show ?thesis
    by (auto split: option.splits)
qed

text \<open>
  Thread 1 downgrades while thread 0 waits to read; both read, both release.
\<close>

definition stale_flag :: "ract list" where
  "stale_flag =
     [CallLockX 1, CallLockS 0] @ replicate 21 (RStep 0 False) @
     [CallDowngrade 1] @ replicate 4 (RStep 1 False) @ replicate 4 (RStep 0 False) @
     [CallUnlockS 0, CallUnlockS 1]"

text \<open>
  C36: a downgrade leaves \<open>READERS_PARKED\<close> behind. A state is reachable in which no thread is
  inside an operation, holds a guard or is parked, and yet \<open>is_locked\<close> says that the lock is
  locked and \<open>try_lock_exclusive\<close> fails.
\<close>

theorem raw_downgrade_stale_flag:
  "\<exists>s. reachable raw_step (raw_init 2 1) s \<and>
     list_all (\<lambda>j. rpc (rthr s j) = RIdle \<and> shared (rthr s j) = 0 \<and> exclusive (rthr s j) = 0) [0, 1] \<and>
     waiters (readers_futex (raw s)) = [] \<and> waiters (writers_futex (raw s)) = [] \<and>
     is_locked (state (raw s)) \<and> try_lock_exclusive s 0 = s"
proof -
  have "run_to raw_step stale_flag (raw_init 2 1)
      (\<lambda>s. list_all (\<lambda>j. rpc (rthr s j) = RIdle \<and> shared (rthr s j) = 0 \<and> exclusive (rthr s j) = 0) [0, 1] \<and>
         waiters (readers_futex (raw s)) = [] \<and> waiters (writers_futex (raw s)) = [] \<and>
         is_locked (state (raw s)))"
    by code_simp
  from run_toD[OF this] show ?thesis
    by (auto simp: is_locked_def try_lock_exclusive_def)
qed

end
