(* ===== verification/Queues.thy ===== *)
theory Queues
  imports Prelude
begin

text \<open>
  The contract of a queue that the clients in the crate rely on: a state with an abstract
  content, and a \<open>pop\<close> that removes the first element or reports that there is none. The
  iterators that drain a queue are proved once, over this contract.
\<close>

fun drain :: "('s \<Rightarrow> ('v option \<times> 's) option) \<Rightarrow> nat \<Rightarrow> 's \<Rightarrow> ('v list \<times> 's) option" where
  "drain pop 0 s = Some ([], s)"
| "drain pop (Suc n) s =
     (case pop s of
        None \<Rightarrow> None
      | Some (None, t) \<Rightarrow> Some ([], t)
      | Some (Some v, t) \<Rightarrow> (case drain pop n t of None \<Rightarrow> None | Some (vs, u) \<Rightarrow> Some (v # vs, u)))"

text \<open>A loop that pops until the queue is empty; \<open>None\<close> is a loop that does not end.\<close>

partial_function (option) pop_all :: "('s \<Rightarrow> ('v option \<times> 's) option) \<Rightarrow> 's \<Rightarrow> ('v list \<times> 's) option" where
  "pop_all pop s =
     (case pop s of
        None \<Rightarrow> None
      | Some r \<Rightarrow>
          (case fst r of
             None \<Rightarrow> Some ([], snd r)
           | Some v \<Rightarrow> Option.bind (pop_all pop (snd r)) (\<lambda>q. Some (v # fst q, snd q))))"

locale pop_queue =
  fixes pop :: "'s \<Rightarrow> ('v option \<times> 's) option"
    and items :: "'s \<Rightarrow> 'v list"
    and ok :: "'s \<Rightarrow> bool"
  assumes pop_empty: "ok s \<Longrightarrow> items s = [] \<Longrightarrow> \<exists>t. pop s = Some (None, t) \<and> ok t \<and> items t = []"
    and pop_first: "ok s \<Longrightarrow> items s = x # xs \<Longrightarrow> \<exists>t. pop s = Some (Some x, t) \<and> ok t \<and> items t = xs"
begin

lemma drain_take:
  "ok s \<Longrightarrow> \<exists>t. drain pop n s = Some (take n (items s), t) \<and> ok t \<and> items t = drop n (items s)"
proof (induction n arbitrary: s)
  case 0
  then show ?case by simp
next
  case (Suc n)
  show ?case
  proof (cases "items s")
    case Nil
    with pop_empty[OF Suc.prems] show ?thesis by auto
  next
    case (Cons x xs)
    with pop_first[OF Suc.prems] obtain t where t: "pop s = Some (Some x, t)" "ok t" "items t = xs" by blast
    from Suc.IH[OF t(2)] t Cons show ?thesis by auto
  qed
qed

lemma pop_all_everything:
  "ok s \<Longrightarrow> \<exists>t. pop_all pop s = Some (items s, t) \<and> ok t \<and> items t = []"
proof (induction "items s" arbitrary: s)
  case Nil
  with pop_empty[of s] show ?case by (subst pop_all.simps) auto
next
  case (Cons x xs)
  with pop_first[of s x xs] obtain t where t: "pop s = Some (Some x, t)" "ok t" "items t = xs" by auto
  from Cons.hyps(1)[of t] t Cons.hyps(2) show ?case by (subst pop_all.simps) auto
qed

lemma drain_everything:
  assumes "ok s" "length (items s) \<le> n"
  shows "\<exists>t. drain pop n s = Some (items s, t) \<and> ok t \<and> items t = []"
  using drain_take[OF assms(1), of n] assms(2) by simp

end

end
