(* ===== verification/Buffer.thy ===== *)
theory Buffer
  imports Backoff Queues
begin

text \<open>
  The bounded queue of \<open>src/atomic/buffer.rs\<close>. Each slot of the ring has a sequence number:
  \<open>p\<close> when it is free for the push that reserves position \<open>p\<close>, \<open>p + 1\<close> when that push has
  published its value, and \<open>p + cap\<close> when the pop of position \<open>p\<close> has released it. A queue of
  capacity one is a single pointer.

  The queue is a transition system with one step per access to shared memory, for any
  number of threads. A null pointer is \<open>None\<close>. The ghost fields record the values in the
  order of the reservations, the number of positions taken, and what each pop returned.
\<close>

record 'v slot =
  sequence :: usize
  slot_value :: "'v option"

record 'v buffer =
  head :: usize
  tail :: usize
  slots :: "'v slot list"
  single :: "'v option"
  cap :: usize

datatype buffer_error = CapacityNotPowerOfTwo | CapacityTooLarge

definition buffer_with_capacity :: "usize \<Rightarrow> buffer_error + 'v buffer" where
  "buffer_with_capacity c =
     (if \<not> is_power_of_two (unat c) then Inl CapacityNotPowerOfTwo
      else if \<not> c \<le> isize_MAX then Inl CapacityTooLarge
      else Inr \<lparr>head = 0, tail = 0,
                slots = map (\<lambda>i. \<lparr>sequence = of_nat i, slot_value = None\<rparr>) [0..<unat c],
                single = None, cap = c\<rparr>)"

definition slot_index :: "'v buffer \<Rightarrow> usize \<Rightarrow> nat" where
  "slot_index b pos = unat (pos AND (cap b - 1))"

text \<open>\<open>seq.wrapping_sub(pos) as isize\<close>.\<close>

definition seq_diff :: "usize \<Rightarrow> usize \<Rightarrow> int" where
  "seq_diff sq pos = sint (sq - pos)"

datatype 'v bpc =
    BIdle
  | PushSeq 'v usize            \<comment> \<open>\<open>push\<close>: load the sequence of the slot\<close>
  | PushCas 'v usize
  | PushReload 'v
  | PushWrite 'v usize
  | PushPublish 'v usize
  | PopSeq usize                \<comment> \<open>\<open>pop\<close>: load the sequence of the slot\<close>
  | PopCas usize
  | PopEmpty usize              \<comment> \<open>compare the tail\<close>
  | PopReload
  | PopTake usize
  | PopRelease usize "'v option"

datatype 'v outcome = Pushed | Rejected "'v option" | Popped "'v option" | Empty

record 'v bthread =
  bpc :: "'v bpc"
  outcome :: "'v outcome option"     \<comment> \<open>what the last operation returned\<close>

record 'v buffer_sys =
  buf :: "'v buffer"
  bthreads :: nat
  bthr :: "tid \<Rightarrow> 'v bthread"
  enq :: "'v list"                  \<comment> \<open>ghost: values in the order of their positions\<close>
  taken :: nat                      \<comment> \<open>ghost: positions reserved by pops\<close>
  gone :: "(nat \<times> 'v option) list"         \<comment> \<open>ghost: what the pops returned, by position\<close>

datatype 'v bact = CallPush tid "'v option" | CallPop tid | BStep tid bool

definition buffer_init :: "'v buffer \<Rightarrow> nat \<Rightarrow> 'v buffer_sys" where
  "buffer_init b n =
     \<lparr>buf = b, bthreads = n, bthr = (\<lambda>_. \<lparr>bpc = BIdle, outcome = None\<rparr>), enq = [], taken = 0, gone = []\<rparr>"

abbreviation (input) bgo :: "'v buffer_sys \<Rightarrow> tid \<Rightarrow> 'v bpc \<Rightarrow> 'v buffer_sys" where
  "bgo s i p \<equiv> s\<lparr>bthr := (bthr s)(i := (bthr s i)\<lparr>bpc := p\<rparr>)\<rparr>"

abbreviation (input) bret :: "'v buffer_sys \<Rightarrow> tid \<Rightarrow> 'v outcome \<Rightarrow> 'v buffer_sys" where
  "bret s i r \<equiv> s\<lparr>bthr := (bthr s)(i := \<lparr>bpc = BIdle, outcome = Some r\<rparr>)\<rparr>"

definition set_slot :: "'v buffer \<Rightarrow> nat \<Rightarrow> 'v slot \<Rightarrow> 'v buffer" where
  "set_slot b k x = b\<lparr>slots := (slots b)[k := x]\<rparr>"

text \<open>\<open>push\<close>: the null test, the capacity-one case, and the first load of the tail.\<close>

definition buffer_push :: "'v buffer_sys \<Rightarrow> tid \<Rightarrow> 'v option \<Rightarrow> 'v buffer_sys" where
  "buffer_push s i v =
     (case v of
        None \<Rightarrow> bret s i (Rejected None)
      | Some x \<Rightarrow>
          if cap (buf s) = 1 then
            (case single (buf s) of
               None \<Rightarrow> (bret (s\<lparr>buf := (buf s)\<lparr>single := Some x\<rparr>\<rparr>) i Pushed)\<lparr>enq := enq s @ [x]\<rparr>
             | Some y \<Rightarrow> bret s i (Rejected v))
          else bgo s i (PushSeq x (tail (buf s))))"

fun push_loop :: "'v buffer_sys \<Rightarrow> tid \<Rightarrow> bool \<Rightarrow> 'v bpc \<Rightarrow> 'v buffer_sys option" where
  "push_loop s i w (PushSeq v pos) =
     (let diff = seq_diff (sequence (slots (buf s) ! slot_index (buf s) pos)) pos in
      if diff = 0 then Some (bgo s i (PushCas v pos))
      else if diff < 0 then Some (bret s i (Rejected (Some v)))
      else Some (bgo s i (PushReload v)))"
| "push_loop s i w (PushCas v pos) =
     (if tail (buf s) = pos \<and> \<not> w then
        Some ((bgo (s\<lparr>buf := (buf s)\<lparr>tail := pos + 1\<rparr>\<rparr>) i (PushWrite v pos))\<lparr>enq := enq s @ [v]\<rparr>)
      else Some (bgo s i (PushSeq v (tail (buf s)))))"
| "push_loop s i w (PushReload v) = Some (bgo s i (PushSeq v (tail (buf s))))"
| "push_loop s i w (PushWrite v pos) =
     (let k = slot_index (buf s) pos; x = slots (buf s) ! k in
      Some (bgo (s\<lparr>buf := set_slot (buf s) k (x\<lparr>slot_value := Some v\<rparr>)\<rparr>) i (PushPublish v pos)))"
| "push_loop s i w (PushPublish v pos) =
     (let k = slot_index (buf s) pos; x = slots (buf s) ! k in
      Some (bret (s\<lparr>buf := set_slot (buf s) k (x\<lparr>sequence := pos + 1\<rparr>)\<rparr>) i Pushed))"
| "push_loop s i w _ = None"

definition buffer_pop :: "'v buffer_sys \<Rightarrow> tid \<Rightarrow> 'v buffer_sys" where
  "buffer_pop s i =
     (if cap (buf s) = 1 then
        (case single (buf s) of
           None \<Rightarrow> bret s i Empty
         | Some x \<Rightarrow>
             (bret (s\<lparr>buf := (buf s)\<lparr>single := None\<rparr>\<rparr>) i (Popped (Some x)))
               \<lparr>taken := taken s + 1, gone := gone s @ [(taken s, Some x)]\<rparr>)
      else bgo s i (PopSeq (head (buf s))))"

fun pop_loop :: "'v buffer_sys \<Rightarrow> tid \<Rightarrow> bool \<Rightarrow> 'v bpc \<Rightarrow> 'v buffer_sys option" where
  "pop_loop s i w (PopSeq pos) =
     (let diff = seq_diff (sequence (slots (buf s) ! slot_index (buf s) pos)) (pos + 1) in
      if diff = 0 then Some (bgo s i (PopCas pos))
      else if diff < 0 then Some (bgo s i (PopEmpty pos))
      else Some (bgo s i PopReload))"
| "pop_loop s i w (PopCas pos) =
     (if head (buf s) = pos \<and> \<not> w then
        Some ((bgo (s\<lparr>buf := (buf s)\<lparr>head := pos + 1\<rparr>\<rparr>) i (PopTake pos))\<lparr>taken := taken s + 1\<rparr>)
      else Some (bgo s i (PopSeq (head (buf s)))))"
| "pop_loop s i w (PopEmpty pos) =
     (if tail (buf s) = pos then Some (bret s i Empty) else Some (bgo s i PopReload))"
| "pop_loop s i w PopReload = Some (bgo s i (PopSeq (head (buf s))))"
| "pop_loop s i w (PopTake pos) =
     (let k = slot_index (buf s) pos; x = slots (buf s) ! k in
      Some (bgo (s\<lparr>buf := set_slot (buf s) k (x\<lparr>slot_value := None\<rparr>)\<rparr>) i (PopRelease pos (slot_value x))))"
| "pop_loop s i w (PopRelease pos v) =
     (let k = slot_index (buf s) pos; x = slots (buf s) ! k in
      Some ((bret (s\<lparr>buf := set_slot (buf s) k (x\<lparr>sequence := pos + cap (buf s)\<rparr>)\<rparr>) i (Popped v))
              \<lparr>gone := gone s @ [(unat pos, v)]\<rparr>))"
| "pop_loop s i w _ = None"

fun in_push :: "'v bpc \<Rightarrow> bool" where
  "in_push (PushSeq v pos) = True"
| "in_push (PushCas v pos) = True"
| "in_push (PushReload v) = True"
| "in_push (PushWrite v pos) = True"
| "in_push (PushPublish v pos) = True"
| "in_push _ = False"

definition buffer_step :: "'v bact \<Rightarrow> 'v buffer_sys \<Rightarrow> 'v buffer_sys option" where
  "buffer_step a s =
     (case a of
        CallPush i v \<Rightarrow>
          if i < bthreads s \<and> bpc (bthr s i) = BIdle then Some (buffer_push s i v) else None
      | CallPop i \<Rightarrow>
          if i < bthreads s \<and> bpc (bthr s i) = BIdle then Some (buffer_pop s i) else None
      | BStep i w \<Rightarrow>
          if i < bthreads s then
            (if in_push (bpc (bthr s i)) then push_loop s i w (bpc (bthr s i))
             else pop_loop s i w (bpc (bthr s i)))
          else None)"

text \<open>
  \<open>len_approx\<close> makes two loads, the head first; other threads may move between them. Its arguments are the
  buffer at the load of the head (of \<open>single\<close> for capacity one) and the buffer at the load of the tail.
\<close>

definition len_of_loads :: "usize \<Rightarrow> usize \<Rightarrow> usize \<Rightarrow> usize" where
  "len_of_loads c h t = min (t - h) c"

definition len_approx :: "'v buffer \<Rightarrow> 'v buffer \<Rightarrow> usize" where
  "len_approx b b' =
     (if cap b = 1 then (if single b = None then 0 else 1) else len_of_loads (cap b) (head b) (tail b'))"

definition is_empty_fast :: "'v buffer \<Rightarrow> 'v buffer \<Rightarrow> bool" where
  "is_empty_fast b b' \<longleftrightarrow> len_approx b b' = 0"

text \<open>
  \<open>drain_to_vec\<close> of a thread that runs alone: pops until one finds the queue empty, at most
  \<open>cap\<close> of them. A pop that runs alone takes four steps at most after its call.
\<close>

fun solo :: "nat \<Rightarrow> 'v buffer_sys \<Rightarrow> tid \<Rightarrow> 'v buffer_sys option" where
  "solo 0 s i = (if bpc (bthr s i) = BIdle then Some s else None)"
| "solo (Suc n) s i =
     (if bpc (bthr s i) = BIdle then Some s
      else case buffer_step (BStep i False) s of None \<Rightarrow> None | Some t \<Rightarrow> solo n t i)"

definition pop_alone :: "tid \<Rightarrow> 'v buffer_sys \<Rightarrow> ('v option option \<times> 'v buffer_sys) option" where
  "pop_alone i s =
     (case solo 4 (buffer_pop s i) i of
        None \<Rightarrow> None
      | Some t \<Rightarrow> Some (case outcome (bthr t i) of Some (Popped v) \<Rightarrow> Some v | _ \<Rightarrow> None, t))"

definition drain_to_vec :: "'v buffer_sys \<Rightarrow> tid \<Rightarrow> ('v option list \<times> 'v buffer_sys) option" where
  "drain_to_vec s i = drain (pop_alone i) (unat (cap (buf s))) s"

end
