(* ===== verification/Buffer_Safety.thy ===== *)
theory Buffer_Safety
  imports Buffer
begin

text \<open>
  The ring protocol of \<open>AtomicBuffer\<close>. The invariant \<open>ring_ok\<close> is stated over natural
  positions: a window of \<open>C\<close> positions starts at the number \<open>H\<close> of positions taken, and each
  slot serves exactly one position of it. The word level is tied to it for runs with fewer
  than \<open>2^63 - C\<close> pushes, in which the signed differences of the code are exact.
\<close>

section \<open>The protocol over natural positions\<close>

fun owner :: "'v bpc \<Rightarrow> (bool \<times> nat) option" where
  "owner (PushWrite v pos) = Some (True, unat pos)"
| "owner (PushPublish v pos) = Some (True, unat pos)"
| "owner (PopTake pos) = Some (False, unat pos)"
| "owner (PopRelease pos v) = Some (False, unat pos)"
| "owner _ = None"

definition owned :: "nat \<Rightarrow> (tid \<Rightarrow> 'v bpc) \<Rightarrow> bool \<Rightarrow> nat \<Rightarrow> bool" where
  "owned n pcs b p \<longleftrightarrow> (\<exists>i<n. owner (pcs i) = Some (b, p))"

text \<open>What a thread knows, with \<open>sq\<close> and \<open>vl\<close> giving the sequence and value of a slot.\<close>

fun thread_ok :: "nat \<Rightarrow> nat \<Rightarrow> 'v list \<Rightarrow> (nat \<Rightarrow> nat) \<Rightarrow> (nat \<Rightarrow> 'v option) \<Rightarrow> 'v bpc \<Rightarrow> bool" where
  "thread_ok C H es sq vl (PushSeq v pos) = (unat pos \<le> length es)"
| "thread_ok C H es sq vl (PushCas v pos) =
     (unat pos \<le> length es \<and> (unat pos < length es \<or> sq (unat pos mod C) = unat pos))"
| "thread_ok C H es sq vl (PushWrite v pos) =
     (H \<le> unat pos \<and> unat pos < length es \<and> sq (unat pos mod C) = unat pos \<and> es ! unat pos = v)"
| "thread_ok C H es sq vl (PushPublish v pos) =
     (H \<le> unat pos \<and> unat pos < length es \<and> sq (unat pos mod C) = unat pos \<and> es ! unat pos = v \<and>
      vl (unat pos mod C) = Some v)"
| "thread_ok C H es sq vl (PopSeq pos) = (unat pos \<le> H)"
| "thread_ok C H es sq vl (PopEmpty pos) = (unat pos \<le> H)"
| "thread_ok C H es sq vl (PopCas pos) =
     (unat pos \<le> H \<and> (unat pos < H \<or> sq (unat pos mod C) = unat pos + 1))"
| "thread_ok C H es sq vl (PopTake pos) =
     (unat pos < H \<and> length es \<le> unat pos + C \<and> sq (unat pos mod C) = unat pos + 1 \<and>
      vl (unat pos mod C) = Some (es ! unat pos))"
| "thread_ok C H es sq vl (PopRelease pos v) =
     (unat pos < H \<and> length es \<le> unat pos + C \<and> sq (unat pos mod C) = unat pos + 1 \<and>
      v = Some (es ! unat pos))"
| "thread_ok C H es sq vl _ = True"

definition window_ok :: "nat \<Rightarrow> nat \<Rightarrow> 'v list \<Rightarrow> (nat \<Rightarrow> nat) \<Rightarrow> (nat \<Rightarrow> 'v option) \<Rightarrow> (bool \<Rightarrow> nat \<Rightarrow> bool) \<Rightarrow> bool" where
  "window_ok C H es sq vl own \<longleftrightarrow>
     (\<forall>p. H \<le> p \<and> p < length es \<longrightarrow>
        sq (p mod C) = p \<and> own True p \<or> sq (p mod C) = p + 1 \<and> vl (p mod C) = Some (es ! p)) \<and>
     (\<forall>p. length es \<le> p \<and> p < H + C \<longrightarrow>
        sq (p mod C) = p \<or> C \<le> p \<and> sq (p mod C) = p - C + 1 \<and> own False (p - C))"

definition log_ok :: "nat \<Rightarrow> 'v list \<Rightarrow> (nat \<times> 'v option) list \<Rightarrow> (bool \<Rightarrow> nat \<Rightarrow> bool) \<Rightarrow> bool" where
  "log_ok H es G own \<longleftrightarrow>
     (\<forall>(p, v) \<in> set G. p < H \<and> v = Some (es ! p)) \<and> distinct (map fst G) \<and>
     (\<forall>p. p \<in> fst ` set G \<longleftrightarrow> p < H \<and> \<not> own False p)"

definition owners_distinct :: "nat \<Rightarrow> (tid \<Rightarrow> 'v bpc) \<Rightarrow> bool" where
  "owners_distinct n pcs \<longleftrightarrow>
     (\<forall>i<n. \<forall>j<n. owner (pcs i) \<noteq> None \<and> owner (pcs i) = owner (pcs j) \<longrightarrow> i = j)"

definition ring_ok :: "nat \<Rightarrow> nat \<Rightarrow> 'v list \<Rightarrow> (nat \<Rightarrow> nat) \<Rightarrow> (nat \<Rightarrow> 'v option) \<Rightarrow> nat \<Rightarrow> (tid \<Rightarrow> 'v bpc) \<Rightarrow> (nat \<times> 'v option) list \<Rightarrow> bool" where
  "ring_ok C H es sq vl n pcs G \<longleftrightarrow>
     2 \<le> C \<and> H \<le> length es \<and> length es \<le> H + C \<and> window_ok C H es sq vl (owned n pcs) \<and>
     (\<forall>i<n. thread_ok C H es sq vl (pcs i)) \<and> owners_distinct n pcs \<and> log_ok H es G (owned n pcs)"

lemma mod_eq_ge: "p mod C = q mod C \<Longrightarrow> p < q \<Longrightarrow> p + C \<le> q" for p q C :: nat
  by (metis le_add_diff_inverse less_imp_le mod_eq_dvd_iff_nat dvd_imp_le zero_less_diff nat_add_left_cancel_le)

lemma mod_Suc_neq: "2 \<le> C \<Longrightarrow> p mod C \<noteq> Suc p mod C" for p C :: nat
  using mod_eq_ge[of p C "Suc p"] by auto

lemma window_inj: "H \<le> p \<Longrightarrow> p < H + C \<Longrightarrow> H \<le> q \<Longrightarrow> q < H + C \<Longrightarrow> p mod C = q mod C \<Longrightarrow> p = q"
  for p q H C :: nat
  using mod_eq_ge[of p C q] mod_eq_ge[of q C p] by linarith

lemma owned_upd:
  assumes "owners_distinct n pcs" "i < n"
  shows "owned n (pcs(i := q)) b p \<longleftrightarrow>
    owner q = Some (b, p) \<or> owned n pcs b p \<and> owner (pcs i) \<noteq> Some (b, p)"
proof
  assume "owned n (pcs(i := q)) b p"
  then obtain j where j: "j < n" "owner ((pcs(i := q)) j) = Some (b, p)" by (auto simp: owned_def)
  show "owner q = Some (b, p) \<or> owned n pcs b p \<and> owner (pcs i) \<noteq> Some (b, p)"
  proof (cases "j = i")
    case False
    with j have "owner (pcs j) = Some (b, p)" by simp
    with j(1) False assms show ?thesis unfolding owned_def owners_distinct_def by (metis option.distinct(1))
  qed (use j in simp)
next
  assume "owner q = Some (b, p) \<or> owned n pcs b p \<and> owner (pcs i) \<noteq> Some (b, p)"
  with assms(2) show "owned n (pcs(i := q)) b p" unfolding owned_def by (metis fun_upd_apply)
qed

lemma owned_keep:
  assumes "i < n" "owner q = owner (pcs i)"
  shows "owned n (pcs(i := q)) = owned n pcs"
  using assms unfolding owned_def fun_eq_iff by (metis fun_upd_apply)

lemma owners_distinct_upd:
  assumes "owners_distinct n pcs" "\<And>j. j < n \<Longrightarrow> j \<noteq> i \<Longrightarrow> owner q = None \<or> owner (pcs j) \<noteq> owner q"
  shows "owners_distinct n (pcs(i := q))"
  unfolding owners_distinct_def
proof (intro allI impI)
  fix a b assume ab: "a < n" "b < n" "owner ((pcs(i := q)) a) \<noteq> None \<and> owner ((pcs(i := q)) a) = owner ((pcs(i := q)) b)"
  show "a = b"
  proof (cases "a = i \<or> b = i")
    case True
    with ab assms(2)[of a] assms(2)[of b] show ?thesis by (cases "a = i"; cases "b = i") auto
  next
    case False
    with ab assms(1) show ?thesis unfolding owners_distinct_def by (metis fun_upd_other)
  qed
qed

fun focus :: "'v bpc \<Rightarrow> nat" where
  "focus (PushCas v pos) = unat pos"
| "focus (PushWrite v pos) = unat pos"
| "focus (PushPublish v pos) = unat pos"
| "focus (PopCas pos) = unat pos"
| "focus (PopTake pos) = unat pos"
| "focus (PopRelease pos v) = unat pos"
| "focus _ = 0"

text \<open>A new sequence number matters only to a thread that relies on the old one.\<close>

lemma thread_ok_seq:
  assumes ok: "thread_ok C H es sq vl q"
    and free: "\<And>p. sq (p mod C) = p \<Longrightarrow> p mod C = k \<Longrightarrow> p < length es \<and> owner q \<noteq> Some (True, p)"
    and full: "\<And>p. sq (p mod C) = Suc p \<Longrightarrow> p mod C = k \<Longrightarrow> p < H \<and> owner q \<noteq> Some (False, p)"
  shows "thread_ok C H es (sq(k := x)) vl q"
proof -
  note f = free[of "focus q"] full[of "focus q"]
  show ?thesis
  proof (cases "focus q mod C = k")
    case True
    with ok f show ?thesis by (cases q) auto
  next
    case False
    with ok show ?thesis by (cases q) auto
  qed
qed

text \<open>A thread changes what it knows, not what it owns.\<close>

lemma ring_move:
  assumes ok: "ring_ok C H es sq vl n pcs G" and i: "i < n"
    and q: "owner q = owner (pcs i)" "thread_ok C H es sq vl q"
  shows "ring_ok C H es sq vl n (pcs(i := q)) G"
proof -
  have "owners_distinct n (pcs(i := q))"
    using ok i q(1) unfolding ring_ok_def owners_distinct_def by (metis fun_upd_apply)
  with ok q i show ?thesis by (auto simp: ring_ok_def owned_keep)
qed

text \<open>A push reserves position \<open>length es\<close>.\<close>

lemma ring_reserve_push:
  assumes ok: "ring_ok C H es sq vl n pcs G" and i: "i < n" "pcs i = PushCas v pos" and T: "unat pos = length es"
  shows "ring_ok C H (es @ [v]) sq vl n (pcs(i := PushWrite v pos)) G"
proof -
  let ?T = "length es" and ?q = "PushWrite v pos"
  note r = ok[unfolded ring_ok_def]
  have sqT: "sq (?T mod C) = ?T" using r i T by fastforce
  have room: "?T < H + C"
  proof (rule ccontr)
    assume "\<not> ?T < H + C"
    then have full: "?T = H + C" using r by simp
    with r have "sq (H mod C) = H \<or> sq (H mod C) = H + 1" unfolding window_ok_def by force
    with sqT full r show False by auto
  qed
  have fresh: "\<not> owned n pcs True ?T"
  proof
    assume "owned n pcs True ?T"
    then obtain j where "j < n" "owner (pcs j) = Some (True, ?T)" by (auto simp: owned_def)
    moreover have "thread_ok C H es sq vl (pcs j)" using r \<open>j < n\<close> by simp
    ultimately show False by (cases "pcs j") auto
  qed
  have own: "owned n (pcs(i := ?q)) b p \<longleftrightarrow> owned n pcs b p \<or> b \<and> p = ?T" for b p
    using owned_upd[of n pcs i ?q b p] r i T by auto
  have thr: "thread_ok C H (es @ [v]) sq vl (pcs j)" if "j < n" for j
  proof -
    have "thread_ok C H es sq vl (pcs j)" using r that by simp
    moreover have "?T + 1 \<le> p + C" if "p < H" "?T \<le> p + C" "sq (p mod C) = p + 1" for p
    proof (rule ccontr)
      assume "\<not> ?T + 1 \<le> p + C"
      with that have "?T = p + C" by simp
      with sqT that(3) r show False by auto
    qed
    ultimately show ?thesis using r by (cases "pcs j") (auto simp: nth_append)
  qed
  have "window_ok C H (es @ [v]) sq vl (owned n (pcs(i := ?q)))"
    using r sqT unfolding window_ok_def own by (auto simp: nth_append less_Suc_eq)
  moreover have "owners_distinct n (pcs(i := ?q))"
    using r fresh T by (intro owners_distinct_upd) (auto simp: owned_def)
  moreover have "log_ok H (es @ [v]) G (owned n (pcs(i := ?q)))"
    using r unfolding log_ok_def own by (fastforce simp: nth_append)
  ultimately show ?thesis using r room thr sqT T by (auto simp: ring_ok_def)
qed

text \<open>The owner of a pushed position stores its value; nobody else looks at the slot.\<close>

lemma ring_write:
  assumes ok: "ring_ok C H es sq vl n pcs G" and i: "i < n" "pcs i = PushWrite v pos"
  shows "ring_ok C H es sq (vl(unat pos mod C := Some v)) n (pcs(i := PushPublish v pos)) G"
proof -
  let ?p = "unat pos" and ?q = "PushPublish v pos" and ?vl = "vl(unat pos mod C := Some v)"
  note r = ok[unfolded ring_ok_def]
  have me: "H \<le> ?p" "?p < length es" "sq (?p mod C) = ?p" "es ! ?p = v" using r i by fastforce+
  have own: "owned n (pcs(i := ?q)) = owned n pcs" using i by (intro owned_keep) auto
  have taken: "p mod C \<noteq> ?p mod C" if "sq (p mod C) = Suc p" for p
    using that mod_Suc_neq[of C p] me(3) r by metis
  have free: "p mod C \<noteq> ?p mod C" if "sq (p mod C) = p" "p \<noteq> ?p" for p
    using that me(3) by metis
  have thr: "thread_ok C H es sq ?vl (pcs j)" if "j < n" "j \<noteq> i" for j
  proof -
    have "thread_ok C H es sq vl (pcs j)" using r that by simp
    moreover have "owner (pcs j) \<noteq> Some (True, ?p)"
      using r that i unfolding owners_distinct_def by (metis owner.simps(1) option.distinct(1))
    ultimately show ?thesis by (cases "pcs j") (auto simp: taken free)
  qed
  have keep: "?vl (p mod C) = vl (p mod C)" if "sq (p mod C) = p + 1" for p
    using taken[of p] that by simp
  have "window_ok C H es sq ?vl (owned n pcs)"
    using r keep unfolding window_ok_def by metis
  moreover have "owners_distinct n (pcs(i := ?q))"
    using r i unfolding owners_distinct_def by (metis fun_upd_apply owner.simps(1,2))
  ultimately show ?thesis using r thr me by (auto simp: ring_ok_def own)
qed

lemma ring_publish:
  assumes ok: "ring_ok C H es sq vl n pcs G" and i: "i < n" "pcs i = PushPublish v pos"
  shows "ring_ok C H es (sq(unat pos mod C := unat pos + 1)) vl n (pcs(i := BIdle)) G"
proof -
  let ?p = "unat pos" and ?sq = "sq(unat pos mod C := unat pos + 1)"
  note r = ok[unfolded ring_ok_def]
  have me: "H \<le> ?p" "?p < length es" "sq (?p mod C) = ?p" "es ! ?p = v" "vl (?p mod C) = Some v"
    using r i by fastforce+
  have own: "owned n (pcs(i := BIdle)) b p \<longleftrightarrow> owned n pcs b p \<and> \<not> (b \<and> p = ?p)" for b p
    using owned_upd[of n pcs i BIdle b p] r i by auto
  have taken: "p mod C \<noteq> ?p mod C" if "sq (p mod C) = Suc p" for p
    using that mod_Suc_neq[of C p] me(3) r by metis
  have free: "p mod C \<noteq> ?p mod C" if "sq (p mod C) = p" "p \<noteq> ?p" for p
    using that me(3) by metis
  have thr: "thread_ok C H es ?sq vl (pcs j)" if "j < n" "j \<noteq> i" for j
  proof -
    have "thread_ok C H es sq vl (pcs j)" using r that by simp
    moreover have "owner (pcs j) \<noteq> Some (True, ?p)"
      using r that i unfolding owners_distinct_def by (metis owner.simps(2) option.distinct(1))
    ultimately show ?thesis using me taken free by (intro thread_ok_seq) metis+
  qed
  have other: "?sq (p mod C) = sq (p mod C)" if "H \<le> p" "p < H + C" "p \<noteq> ?p" for p
    using that window_inj[of H p C ?p] me r by auto
  have "window_ok C H es ?sq vl (owned n (pcs(i := BIdle)))"
    unfolding window_ok_def own
  proof (intro conjI allI impI)
    fix p assume "H \<le> p \<and> p < length es"
    then show "?sq (p mod C) = p \<and> owned n pcs True p \<and> \<not> (True \<and> p = ?p) \<or>
        ?sq (p mod C) = p + 1 \<and> vl (p mod C) = Some (es ! p)"
      using r me other[of p] unfolding window_ok_def by (cases "p = ?p") auto
  next
    fix p assume "length es \<le> p \<and> p < H + C"
    then show "?sq (p mod C) = p \<or>
        C \<le> p \<and> ?sq (p mod C) = p - C + 1 \<and> owned n pcs False (p - C) \<and> \<not> (False \<and> p - C = ?p)"
      using r me other[of p] unfolding window_ok_def by auto
  qed
  moreover have "owners_distinct n (pcs(i := BIdle))" using r by (intro owners_distinct_upd) auto
  moreover have "log_ok H es G (owned n (pcs(i := BIdle)))" using r unfolding log_ok_def own by simp
  ultimately show ?thesis using r thr by (auto simp: ring_ok_def)
qed

text \<open>A pop reserves position \<open>H\<close>, which must have been published.\<close>

lemma ring_reserve_pop:
  assumes ok: "ring_ok C H es sq vl n pcs G" and i: "i < n" "pcs i = PopCas pos" and H: "unat pos = H"
  shows "ring_ok C (Suc H) es sq vl n (pcs(i := PopTake pos)) G"
proof -
  let ?q = "PopTake pos :: 'a bpc"
  note r = ok[unfolded ring_ok_def]
  have sqH: "sq (H mod C) = Suc H" using r i H by fastforce
  have lt: "H < length es"
  proof (rule ccontr)
    assume "\<not> H < length es"
    then have "sq (H mod C) = H \<or> C \<le> H \<and> sq (H mod C) = H - C + 1"
      using r unfolding window_ok_def by auto
    with sqH r show False by auto
  qed
  with r sqH have val: "vl (H mod C) = Some (es ! H)" unfolding window_ok_def by auto
  have owners: "p < H" if o: "owned n pcs False p" for p
  proof -
    obtain j where j: "j < n" "owner (pcs j) = Some (False, p)" using o by (auto simp: owned_def)
    have "thread_ok C H es sq vl (pcs j)" using r j(1) by simp
    with j(2) show ?thesis by (cases "pcs j") auto
  qed
  have own: "owned n (pcs(i := ?q)) b p \<longleftrightarrow> owned n pcs b p \<or> \<not> b \<and> p = H" for b p
    using owned_upd[of n pcs i ?q b p] r i H by auto
  have thr: "thread_ok C (Suc H) es sq vl (pcs j)" if "j < n" for j
  proof -
    have "thread_ok C H es sq vl (pcs j)" using r that by simp
    moreover have "unat q \<noteq> H" if "sq (unat q mod C) = unat q" for q :: usize using that sqH by auto
    ultimately show ?thesis by (cases "pcs j") (auto simp: order_le_less Suc_le_eq)
  qed
  have "window_ok C (Suc H) es sq vl (owned n (pcs(i := ?q)))"
    using r sqH unfolding window_ok_def own by (auto simp: less_Suc_eq)
  moreover have "owners_distinct n (pcs(i := ?q))"
    using r H owners by (intro owners_distinct_upd) (auto simp: owned_def)
  moreover have "log_ok (Suc H) es G (owned n (pcs(i := ?q)))"
    using r owners unfolding log_ok_def own by (auto simp: less_Suc_eq)
  ultimately show ?thesis using r thr sqH val lt H by (auto simp: ring_ok_def)
qed

lemma ring_take:
  assumes ok: "ring_ok C H es sq vl n pcs G" and i: "i < n" "pcs i = PopTake pos"
  shows "ring_ok C H es sq (vl(unat pos mod C := None)) n (pcs(i := PopRelease pos (vl (unat pos mod C)))) G"
proof -
  let ?p = "unat pos" and ?q = "PopRelease pos (vl (unat pos mod C))" and ?vl = "vl(unat pos mod C := None)"
  note r = ok[unfolded ring_ok_def]
  have me: "?p < H" "length es \<le> ?p + C" "sq (?p mod C) = Suc ?p" "vl (?p mod C) = Some (es ! ?p)"
    using r i by fastforce+
  have own: "owned n (pcs(i := ?q)) = owned n pcs" using i by (intro owned_keep) auto
  have free: "p mod C \<noteq> ?p mod C" if "sq (p mod C) = p" for p
    using that mod_Suc_neq[of C ?p] me(3) r by metis
  have full: "p mod C \<noteq> ?p mod C" if "sq (p mod C) = Suc p" "p \<noteq> ?p" for p
    using that me(3) by (metis nat.inject)
  have thr: "thread_ok C H es sq ?vl (pcs j)" if "j < n" "j \<noteq> i" for j
  proof -
    have "thread_ok C H es sq vl (pcs j)" using r that by simp
    moreover have "owner (pcs j) \<noteq> Some (False, ?p)"
      using r that i unfolding owners_distinct_def by (metis owner.simps(3) option.distinct(1))
    ultimately show ?thesis by (cases "pcs j") (auto simp: full free)
  qed
  have keep: "?vl (p mod C) = vl (p mod C)" if "H \<le> p" "sq (p mod C) = p + 1" for p
    using full[of p] that me(1) by simp
  have "window_ok C H es sq ?vl (owned n pcs)"
    using r keep unfolding window_ok_def by metis
  moreover have "owners_distinct n (pcs(i := ?q))"
    using r i unfolding owners_distinct_def by (metis fun_upd_apply owner.simps(3,4))
  ultimately show ?thesis unfolding ring_ok_def own using r thr me by (simp add: fun_upd_apply)
qed

lemma ring_release:
  assumes ok: "ring_ok C H es sq vl n pcs G" and i: "i < n" "pcs i = PopRelease pos v"
  shows "ring_ok C H es (sq(unat pos mod C := unat pos + C)) vl n (pcs(i := BIdle)) (G @ [(unat pos, v)])"
proof -
  let ?p = "unat pos" and ?sq = "sq(unat pos mod C := unat pos + C)"
  note r = ok[unfolded ring_ok_def]
  have me: "?p < H" "length es \<le> ?p + C" "sq (?p mod C) = Suc ?p" "v = Some (es ! ?p)"
    using r i by fastforce+
  have mine: "owned n pcs False ?p" using i by (auto simp: owned_def)
  have own: "owned n (pcs(i := BIdle)) b p \<longleftrightarrow> owned n pcs b p \<and> \<not> (\<not> b \<and> p = ?p)" for b p
    using owned_upd[of n pcs i BIdle b p] r i by auto
  have free: "p mod C \<noteq> ?p mod C" if "sq (p mod C) = p" for p
    using that mod_Suc_neq[of C ?p] me(3) r by metis
  have full: "p mod C \<noteq> ?p mod C" if "sq (p mod C) = Suc p" "p \<noteq> ?p" for p
    using that me(3) by (metis nat.inject)
  have thr: "thread_ok C H es ?sq vl (pcs j)" if "j < n" "j \<noteq> i" for j
  proof -
    have "thread_ok C H es sq vl (pcs j)" using r that by simp
    moreover have "owner (pcs j) \<noteq> Some (False, ?p)"
      using r that i unfolding owners_distinct_def by (metis owner.simps(4) option.distinct(1))
    ultimately show ?thesis using me free full by (intro thread_ok_seq) metis+
  qed
  have same: "(?p + C) mod C = ?p mod C" by simp
  have other: "?sq (p mod C) = sq (p mod C)" if "H \<le> p" "p < H + C" "p \<noteq> ?p + C" for p
    using that window_inj[of H p C "?p + C"] me r same by auto
  have "window_ok C H es ?sq vl (owned n (pcs(i := BIdle)))"
    unfolding window_ok_def own
  proof (intro conjI allI impI)
    fix p assume "H \<le> p \<and> p < length es"
    then show "?sq (p mod C) = p \<and> owned n pcs True p \<and> \<not> (\<not> True \<and> p = ?p) \<or>
        ?sq (p mod C) = p + 1 \<and> vl (p mod C) = Some (es ! p)"
      using r me other[of p] unfolding window_ok_def by auto
  next
    fix p assume "length es \<le> p \<and> p < H + C"
    then show "?sq (p mod C) = p \<or>
        C \<le> p \<and> ?sq (p mod C) = p - C + 1 \<and> owned n pcs False (p - C) \<and> \<not> (\<not> False \<and> p - C = ?p)"
      using r me other[of p] unfolding window_ok_def by (cases "p = ?p + C") auto
  qed
  moreover have "owners_distinct n (pcs(i := BIdle))" using r by (intro owners_distinct_upd) auto
  moreover have "log_ok H es (G @ [(?p, v)]) (owned n (pcs(i := BIdle)))"
    using r mine me(1,4) unfolding log_ok_def own by auto
  ultimately show ?thesis using r thr by (auto simp: ring_ok_def)
qed

section \<open>The word level\<close>

definition bcap :: "'v buffer \<Rightarrow> nat" where
  "bcap b = unat (cap b)"

definition seqs :: "'v buffer \<Rightarrow> nat \<Rightarrow> nat" where
  "seqs b k = unat (sequence (slots b ! k))"

definition vals :: "'v buffer \<Rightarrow> nat \<Rightarrow> 'v option" where
  "vals b k = slot_value (slots b ! k)"

abbreviation (input) pcs :: "'v buffer_sys \<Rightarrow> tid \<Rightarrow> 'v bpc" where
  "pcs s \<equiv> \<lambda>i. bpc (bthr s i)"

definition well_sized :: "'v buffer \<Rightarrow> bool" where
  "well_sized b \<longleftrightarrow> (\<exists>e<63. bcap b = 2 ^ e) \<and> length (slots b) = bcap b"

definition in_range :: "'v buffer_sys \<Rightarrow> bool" where
  "in_range s \<longleftrightarrow> length (enq s) + bcap (buf s) < 2 ^ 63"

definition single_ok :: "'v buffer_sys \<Rightarrow> bool" where
  "single_ok s \<longleftrightarrow>
     taken s \<le> length (enq s) \<and>
     drop (taken s) (enq s) = (case single (buf s) of None \<Rightarrow> [] | Some x \<Rightarrow> [x]) \<and>
     (\<forall>i<bthreads s. bpc (bthr s i) = BIdle) \<and>
     gone s = map (\<lambda>p. (p, Some (enq s ! p))) [0..<taken s]"

definition ring_inv :: "'v buffer_sys \<Rightarrow> bool" where
  "ring_inv s \<longleftrightarrow>
     unat (head (buf s)) = taken s \<and> unat (tail (buf s)) = length (enq s) \<and>
     ring_ok (bcap (buf s)) (taken s) (enq s) (seqs (buf s)) (vals (buf s)) (bthreads s) (pcs s) (gone s)"

definition buffer_inv :: "'v buffer_sys \<Rightarrow> bool" where
  "buffer_inv s \<longleftrightarrow> well_sized (buf s) \<and>
     (in_range s \<longrightarrow> (if bcap (buf s) = 1 then single_ok s else ring_inv s))"

lemma slot_index_mod:
  assumes "well_sized b"
  shows "slot_index b pos = unat pos mod bcap b" "slot_index b pos < length (slots b)"
proof -
  obtain e where e: "e < 63" "unat (cap b) = 2 ^ e" using assms by (auto simp: well_sized_def bcap_def)
  have "cap b = 2 ^ e" by (metis e(2) of_nat_numeral of_nat_power of_nat_unat ucast_id)
  then have "cap b - 1 = mask e" by (simp add: mask_eq_exp_minus_1)
  then show "slot_index b pos = unat pos mod bcap b"
    using e by (simp add: slot_index_def bcap_def unat_take_bit_word flip: take_bit_eq_mask)
  then show "slot_index b pos < length (slots b)"
    using assms e by (simp add: well_sized_def bcap_def)
qed

lemma seq_diff_exact:
  assumes "unat a < 2 ^ 63" "unat b < 2 ^ 63"
  shows "seq_diff a b = int (unat a) - int (unat b)"
proof -
  let ?d = "int (unat a) - int (unat b)"
  have "a - b = word_of_int ?d" by (simp add: of_int_diff)
  moreover have "int (unat a) < 2 ^ 63" "int (unat b) < 2 ^ 63"
    using assms by (metis of_nat_less_iff of_nat_numeral of_nat_power)+
  then have "signed_take_bit 63 ?d = ?d"
    by (intro signed_take_bit_int_eq_self) linarith+
  ultimately show ?thesis unfolding seq_diff_def by (simp only: signed_of_int) simp
qed

lemma unat_Suc: "unat pos + 1 < 2 ^ 64 \<Longrightarrow> unat (pos + 1) = Suc (unat pos)" for pos :: usize
  by (simp add: unat_word_ariths)

lemma views_set_slot [simp]:
  "k < length (slots b) \<Longrightarrow> seqs (set_slot b k x) = (seqs b)(k := unat (sequence x))"
  "k < length (slots b) \<Longrightarrow> vals (set_slot b k x) = (vals b)(k := slot_value x)"
  "bcap (set_slot b k x) = bcap b" "cap (set_slot b k x) = cap b" "head (set_slot b k x) = head b"
  "tail (set_slot b k x) = tail b" "single (set_slot b k x) = single b"
  "length (slots (set_slot b k x)) = length (slots b)"
  by (auto simp: seqs_def vals_def set_slot_def bcap_def fun_eq_iff nth_list_update)

lemma views_upd [simp]:
  "seqs (b\<lparr>head := w\<rparr>) = seqs b" "vals (b\<lparr>head := w\<rparr>) = vals b" "bcap (b\<lparr>head := w\<rparr>) = bcap b"
  "seqs (b\<lparr>tail := w\<rparr>) = seqs b" "vals (b\<lparr>tail := w\<rparr>) = vals b" "bcap (b\<lparr>tail := w\<rparr>) = bcap b"
  "bcap (b\<lparr>single := z\<rparr>) = bcap b"
  by (simp_all add: seqs_def vals_def bcap_def fun_eq_iff)

lemma seqs_self [simp]: "(seqs b)(k := seqs b k) = seqs b" "(vals b)(k := vals b k) = vals b"
  by simp_all

text \<open>Every sequence number stays below \<open>2^63\<close>.\<close>

lemma window_rep:
  fixes H C k :: nat
  assumes "k < C"
  shows "\<exists>q. H \<le> q \<and> q < H + C \<and> q mod C = k"
proof (intro exI conjI)
  let ?q = "H + (k + C - H mod C) mod C"
  have "?q mod C = (H mod C + (k + C - H mod C)) mod C" by (simp add: mod_add_left_eq mod_add_right_eq)
  also have "H mod C + (k + C - H mod C) = k + C" using assms mod_less_divisor[of C H] by linarith
  finally show "?q mod C = k" using assms by simp
  show "H \<le> ?q" "?q < H + C" using assms by simp_all
qed

lemma window_seq:
  assumes "ring_ok C H es sq vl n pcs' G" "H \<le> q" "q < H + C"
  shows "sq (q mod C) = q \<or> sq (q mod C) = q + 1 \<or> C \<le> q \<and> sq (q mod C) = q - C + 1 \<and> owned n pcs' False (q - C)"
  using assms unfolding ring_ok_def window_ok_def by (cases "q < length es") (auto simp: not_less)

lemma ring_seq_bound:
  assumes ok: "ring_ok C H es sq vl n pcs' G" and k: "k < C"
  shows "sq k \<le> length es + C"
proof -
  obtain q where q: "H \<le> q" "q < H + C" "q mod C = k" using window_rep[OF k] by blast
  with window_seq[OF ok q(1,2)] have "sq k \<le> q + 1" by auto
  moreover have "H \<le> length es" using ok by (simp add: ring_ok_def)
  ultimately show ?thesis using q by linarith
qed

lemma pcs_upd:
  "(\<lambda>j. bpc ((f(i := th)) j)) = (\<lambda>j. bpc (f j))(i := bpc th)"
  "(\<lambda>j. bpc (if j = i then th else f j)) = (\<lambda>j. bpc (f j))(i := bpc th)"
  by auto

lemma ring_inv_move:
  assumes "ring_inv s" "i < bthreads s" "owner (bpc th) = owner (bpc (bthr s i))"
    "thread_ok (bcap (buf s)) (taken s) (enq s) (seqs (buf s)) (vals (buf s)) (bpc th)"
  shows "ring_inv (s\<lparr>bthr := (bthr s)(i := th)\<rparr>)"
  using assms ring_move[of "bcap (buf s)" "taken s" "enq s" "seqs (buf s)" "vals (buf s)" "bthreads s" "pcs s" "gone s" i "bpc th"]
  by (simp add: ring_inv_def pcs_upd)

text \<open>What a loop sees when it compares the sequence of its slot.\<close>

lemma ring_seq_diff:
  assumes "well_sized (buf s)" "in_range s" "ring_inv s" "unat pos \<le> length (enq s) + 1"
  shows "seq_diff (sequence (slots (buf s) ! slot_index (buf s) q)) pos = 0 \<longleftrightarrow>
      seqs (buf s) (unat q mod bcap (buf s)) = unat pos" (is ?Q1)
    and "seq_diff (sequence (slots (buf s) ! slot_index (buf s) q)) pos < 0 \<longleftrightarrow>
      seqs (buf s) (unat q mod bcap (buf s)) < unat pos" (is ?Q2)
proof -
  let ?k = "unat q mod bcap (buf s)"
  have ok: "ring_ok (bcap (buf s)) (taken s) (enq s) (seqs (buf s)) (vals (buf s)) (bthreads s) (pcs s) (gone s)"
    using assms(3) by (simp add: ring_inv_def)
  then have "?k < bcap (buf s)" by (simp add: ring_ok_def)
  from ring_seq_bound[OF ok this] have "seqs (buf s) ?k < 2 ^ 63" using assms(2) by (simp add: in_range_def)
  moreover have "2 \<le> bcap (buf s)" using ok by (simp add: ring_ok_def)
  then have "unat pos < 2 ^ 63" using assms(2,4) by (simp add: in_range_def)
  ultimately have "seq_diff (sequence (slots (buf s) ! slot_index (buf s) q)) pos =
      int (seqs (buf s) ?k) - int (unat pos)"
    using seq_diff_exact slot_index_mod(1)[OF assms(1)] by (simp add: seqs_def)
  then show ?Q1 ?Q2 by linarith+
qed

lemma ring_inv_push_loop:
  assumes ws: "well_sized (buf s)" and rg: "in_range t" and inv: "ring_inv s" and i: "i < bthreads s"
    and st: "push_loop s i w (bpc (bthr s i)) = Some t"
  shows "ring_inv t"
proof -
  have rs: "in_range s"
    using rg st by (cases "bpc (bthr s i)") (auto simp: in_range_def Let_def split: if_splits)
  have ok: "ring_ok (bcap (buf s)) (taken s) (enq s) (seqs (buf s)) (vals (buf s)) (bthreads s) (pcs s) (gone s)"
    and hd: "unat (head (buf s)) = taken s" and tl: "unat (tail (buf s)) = length (enq s)"
    using inv by (simp_all add: ring_inv_def)
  have know: "thread_ok (bcap (buf s)) (taken s) (enq s) (seqs (buf s)) (vals (buf s)) (bpc (bthr s i))"
    using ok i by (simp add: ring_ok_def)
  note idx = slot_index_mod[OF ws]
  show ?thesis
  proof (cases "bpc (bthr s i)")
    case (PushSeq v pos)
    note d = ring_seq_diff[OF ws rs inv, of pos pos]
    from PushSeq know have le: "unat pos \<le> length (enq s)" by simp
    have "t = s\<lparr>bthr := (bthr s)(i := bthr t i)\<rparr>" "owner (bpc (bthr t i)) = None"
      "thread_ok (bcap (buf s)) (taken s) (enq s) (seqs (buf s)) (vals (buf s)) (bpc (bthr t i))"
      using PushSeq st le d by (auto simp: Let_def split: if_splits)
    with ring_inv_move[OF inv i, of "bthr t i"] PushSeq show ?thesis by simp
  next
    case (PushCas v pos)
    show ?thesis
    proof (cases "tail (buf s) = pos \<and> \<not> w")
      case True
      have "unat (pos + 1) = Suc (length (enq s))"
        using True tl rs unat_Suc[of pos] by (auto simp: in_range_def)
      with ring_reserve_push[OF ok i PushCas] True PushCas st tl hd show ?thesis
        by (auto simp: ring_inv_def pcs_upd)
    next
      case False
      with PushCas st ring_inv_move[OF inv i, of "(bthr s i)\<lparr>bpc := PushSeq v (tail (buf s))\<rparr>"] tl
      show ?thesis by auto
    qed
  next
    case (PushReload v)
    with st ring_inv_move[OF inv i, of "(bthr s i)\<lparr>bpc := PushSeq v (tail (buf s))\<rparr>"] tl
    show ?thesis by auto
  next
    case (PushWrite v pos)
    with st hd tl idx ring_write[OF ok i PushWrite] show ?thesis
      by (auto simp: ring_inv_def pcs_upd Let_def) (simp flip: seqs_def)
  next
    case (PushPublish v pos)
    have "unat (pos + 1) = Suc (unat pos)"
      using know PushPublish rs by (intro unat_Suc) (simp add: in_range_def)
    with PushPublish st hd tl idx ring_publish[OF ok i PushPublish] show ?thesis
      by (auto simp: ring_inv_def pcs_upd Let_def) (simp flip: vals_def)
  qed (use st in auto)
qed

lemma ring_inv_pop_loop:
  assumes ws: "well_sized (buf s)" and rs: "in_range s" and inv: "ring_inv s" and i: "i < bthreads s"
    and st: "pop_loop s i w (bpc (bthr s i)) = Some t"
  shows "ring_inv t"
proof -
  have ok: "ring_ok (bcap (buf s)) (taken s) (enq s) (seqs (buf s)) (vals (buf s)) (bthreads s) (pcs s) (gone s)"
    and hd: "unat (head (buf s)) = taken s" and tl: "unat (tail (buf s)) = length (enq s)"
    using inv by (simp_all add: ring_inv_def)
  have know: "thread_ok (bcap (buf s)) (taken s) (enq s) (seqs (buf s)) (vals (buf s)) (bpc (bthr s i))"
    and le: "taken s \<le> length (enq s)" using ok i by (simp_all add: ring_ok_def)
  note idx = slot_index_mod[OF ws]
  have reload: "ring_inv (s\<lparr>bthr := (bthr s)(i := (bthr s i)\<lparr>bpc := PopSeq (head (buf s))\<rparr>)\<rparr>)"
    if "owner (bpc (bthr s i)) = None"
    using ring_inv_move[OF inv i, of "(bthr s i)\<lparr>bpc := PopSeq (head (buf s))\<rparr>"] hd that by simp
  show ?thesis
  proof (cases "bpc (bthr s i)")
    case (PopSeq pos)
    from PopSeq know le have pos: "unat pos \<le> taken s" "unat (pos + 1) = Suc (unat pos)"
      using rs unat_Suc[of pos] by (auto simp: in_range_def)
    note d = ring_seq_diff[OF ws rs inv, of "pos + 1" pos]
    have "t = s\<lparr>bthr := (bthr s)(i := bthr t i)\<rparr>" "owner (bpc (bthr t i)) = None"
      "thread_ok (bcap (buf s)) (taken s) (enq s) (seqs (buf s)) (vals (buf s)) (bpc (bthr t i))"
      using PopSeq st le pos d by (auto simp: Let_def split: if_splits)
    with ring_inv_move[OF inv i, of "bthr t i"] PopSeq show ?thesis by simp
  next
    case (PopCas pos)
    show ?thesis
    proof (cases "head (buf s) = pos \<and> \<not> w")
      case True
      have "unat (pos + 1) = Suc (taken s)"
        using True hd le rs unat_Suc[of pos] by (auto simp: in_range_def)
      with ring_reserve_pop[OF ok i PopCas] True PopCas st tl hd show ?thesis
        by (auto simp: ring_inv_def pcs_upd)
    next
      case False
      with PopCas st reload show ?thesis by auto
    qed
  next
    case (PopEmpty pos)
    have "t = s\<lparr>bthr := (bthr s)(i := bthr t i)\<rparr>" "owner (bpc (bthr t i)) = None"
      "thread_ok (bcap (buf s)) (taken s) (enq s) (seqs (buf s)) (vals (buf s)) (bpc (bthr t i))"
      using PopEmpty st by (auto split: if_splits)
    with ring_inv_move[OF inv i, of "bthr t i"] PopEmpty show ?thesis by simp
  next
    case PopReload
    with st reload show ?thesis by auto
  next
    case (PopTake pos)
    with st hd tl idx ring_take[OF ok i PopTake] show ?thesis
      by (auto simp: ring_inv_def pcs_upd Let_def simp flip: vals_def) (simp flip: seqs_def)
  next
    case (PopRelease pos v)
    have "unat (pos + cap (buf s)) = unat pos + bcap (buf s)"
      using know PopRelease rs le by (simp add: unat_word_ariths bcap_def in_range_def)
    with PopRelease st hd tl idx ring_release[OF ok i PopRelease] show ?thesis
      by (auto simp: ring_inv_def pcs_upd Let_def) (simp flip: vals_def)
  qed (use st in auto)
qed

lemma well_sized_step: "buffer_step a s = Some t \<Longrightarrow> well_sized (buf s) \<Longrightarrow> well_sized (buf t) \<and> bcap (buf t) = bcap (buf s)"
proof -
  have push: "push_loop s i w q = Some t \<Longrightarrow> length (slots (buf t)) = length (slots (buf s)) \<and> cap (buf t) = cap (buf s)"
    and pop: "pop_loop s i w q = Some t \<Longrightarrow> length (slots (buf t)) = length (slots (buf s)) \<and> cap (buf t) = cap (buf s)"
    for i w q by (cases q; auto simp: Let_def split: if_splits)+
  assume "buffer_step a s = Some t" "well_sized (buf s)"
  then show ?thesis
    by (cases a)
      (auto simp: buffer_step_def well_sized_def bcap_def buffer_push_def buffer_pop_def
        split: if_splits option.splits dest: push pop)
qed

lemma enq_step: "buffer_step a s = Some t \<Longrightarrow> length (enq s) \<le> length (enq t)"
proof -
  have push: "push_loop s i w q = Some t \<Longrightarrow> length (enq s) \<le> length (enq t)"
    and pop: "pop_loop s i w q = Some t \<Longrightarrow> length (enq s) \<le> length (enq t)"
    for i w q by (cases q; auto simp: Let_def split: if_splits)+
  assume "buffer_step a s = Some t"
  then show ?thesis
    by (cases a) (auto simp: buffer_step_def buffer_push_def buffer_pop_def split: if_splits option.splits dest: push pop)
qed

lemma single_inv_step:
  assumes "single_ok s" "unat (cap (buf s)) = 1" "buffer_step a s = Some t"
  shows "single_ok t"
proof -
  have one: "cap (buf s) = 1" using assms(2) by (simp add: word_unat_eq_iff)
  have idle: "push_loop s i w BIdle = None" "pop_loop s i w BIdle = None" for i w by simp_all
  show ?thesis
  proof (cases a)
    case (CallPush i v)
    with assms one show ?thesis
      by (auto simp: buffer_step_def buffer_push_def single_ok_def nth_append split: if_splits option.splits)
  next
    case (CallPop i)
    have nth: "enq s ! taken s = x" if "drop (taken s) (enq s) = [x]" for x
      using that by (metis hd_drop_conv_nth list.distinct(1) list.sel(1) drop_all not_le_imp_less)
    from CallPop assms one show ?thesis
      by (auto simp: buffer_step_def buffer_pop_def single_ok_def split: if_splits option.splits)
        (auto simp: drop_Suc tl_drop[symmetric] nth dest: arg_cong[of _ _ tl] arg_cong[of _ _ length])
  next
    case (BStep i w)
    with assms idle show ?thesis by (auto simp: buffer_step_def single_ok_def split: if_splits)
  qed
qed

lemma buffer_inv_step:
  assumes "buffer_inv s" "buffer_step a s = Some t"
  shows "buffer_inv t"
proof -
  have ws: "well_sized (buf s)" using assms(1) by (simp add: buffer_inv_def)
  note size = well_sized_step[OF assms(2) ws]
  have "if bcap (buf t) = 1 then single_ok t else ring_inv t" if rt: "in_range t"
  proof (cases "bcap (buf s) = 1")
    case True
    have "in_range s" using rt enq_step[OF assms(2)] size by (simp add: in_range_def)
    with True assms size show ?thesis
      using single_inv_step[of s a t] by (simp add: buffer_inv_def bcap_def)
  next
    case False
    have rs: "in_range s" using rt enq_step[OF assms(2)] size by (simp add: in_range_def)
    with False assms(1) have inv: "ring_inv s" by (simp add: buffer_inv_def)
    have cap: "cap (buf s) \<noteq> 1" using False by (auto simp: bcap_def)
    have "ring_inv t"
    proof (cases a)
      case (BStep i w)
      with assms(2) ring_inv_push_loop[OF ws rt inv] ring_inv_pop_loop[OF ws rs inv] show ?thesis
        by (auto simp: buffer_step_def split: if_splits)
    next
      case (CallPush i v)
      with assms(2) cap have i: "i < bthreads s" and t: "t = s\<lparr>bthr := (bthr s)(i := bthr t i)\<rparr>"
        "owner (bpc (bthr t i)) = None" "owner (bpc (bthr s i)) = None"
        "thread_ok (bcap (buf s)) (taken s) (enq s) (seqs (buf s)) (vals (buf s)) (bpc (bthr t i))"
        using inv by (auto simp: buffer_step_def buffer_push_def ring_inv_def split: if_splits option.splits)
      with ring_inv_move[OF inv i, of "bthr t i"] show ?thesis by simp
    next
      case (CallPop i)
      with assms(2) cap have i: "i < bthreads s" and t: "t = s\<lparr>bthr := (bthr s)(i := bthr t i)\<rparr>"
        "owner (bpc (bthr t i)) = None" "owner (bpc (bthr s i)) = None"
        "thread_ok (bcap (buf s)) (taken s) (enq s) (seqs (buf s)) (vals (buf s)) (bpc (bthr t i))"
        using inv by (auto simp: buffer_step_def buffer_pop_def ring_inv_def split: if_splits option.splits)
      with ring_inv_move[OF inv i, of "bthr t i"] show ?thesis by simp
    qed
    with False size show ?thesis by simp
  qed
  with size show ?thesis by (simp add: buffer_inv_def)
qed

definition fresh_buffer :: "'v buffer \<Rightarrow> bool" where
  "fresh_buffer b \<longleftrightarrow> (\<exists>c. buffer_with_capacity c = Inr b)"

lemma fresh_bufferI: "buffer_with_capacity c = Inr b \<Longrightarrow> fresh_buffer b"
  by (auto simp: fresh_buffer_def)

lemma buffer_inv_init:
  assumes "fresh_buffer b"
  shows "buffer_inv (buffer_init b n)"
proof -
  obtain c where c: "is_power_of_two (unat c)" "unat c \<le> 2 ^ 63 - 1"
    and b: "b = \<lparr>head = 0, tail = 0, slots = map (\<lambda>i. \<lparr>sequence = of_nat i, slot_value = None\<rparr>) [0..<unat c],
      single = None, cap = c\<rparr>"
    using assms
    by (auto simp: fresh_buffer_def buffer_with_capacity_def isize_MAX_def word_le_nat_alt split: if_splits)
  define e where "e = trailing_zeros (unat c)"
  have e: "unat c = 2 ^ e" using is_power_of_twoD[OF c(1)] by (simp add: e_def)
  with c(2) have "(2::nat) ^ e < 2 ^ 63" by simp
  then have e63: "e < 63" by (rule power_less_imp_less_exp[rotated]) simp
  have ws: "well_sized b" using b e e63 by (auto simp: well_sized_def bcap_def)
  have seq: "seqs b k = k" if "k < unat c" for k
    using that c(2) b by (simp add: seqs_def unat_of_nat take_bit_nat_eq_self_iff)
  have one: "unat c \<noteq> 1 \<Longrightarrow> 2 \<le> unat c" using e by (cases e) auto
  have "ring_inv (buffer_init b n)" if "bcap b \<noteq> 1"
    using that b one seq
    by (auto simp: ring_inv_def buffer_init_def bcap_def ring_ok_def window_ok_def log_ok_def owners_distinct_def)
  moreover have "single_ok (buffer_init b n)" using b by (simp add: single_ok_def buffer_init_def)
  ultimately show ?thesis using ws by (simp add: buffer_inv_def buffer_init_def)
qed

interpretation buffer: machine buffer_step "buffer_init b n" "\<lambda>s. fresh_buffer b \<longrightarrow> buffer_inv s"
  for b :: "'v buffer" and n
  by unfold_locales (auto intro: buffer_inv_init buffer_inv_step)

lemma ring_log:
  assumes "buffer_inv s" "in_range s"
  shows "log_ok (taken s) (enq s) (gone s) (owned (bthreads s) (pcs s))"
    and "taken s \<le> length (enq s)" "length (enq s) \<le> taken s + bcap (buf s)"
proof -
  have "log_ok (taken s) (enq s) (gone s) (owned (bthreads s) (pcs s)) \<and>
      taken s \<le> length (enq s) \<and> length (enq s) \<le> taken s + bcap (buf s)"
  proof (cases "bcap (buf s) = 1")
    case False
    with assms show ?thesis by (simp add: buffer_inv_def ring_inv_def ring_ok_def)
  next
    case True
    with assms have ok: "single_ok s" by (simp add: buffer_inv_def)
    have "owned (bthreads s) (pcs s) x y = False" for x y using ok by (auto simp: single_ok_def owned_def)
    then have "log_ok (taken s) (enq s) (gone s) (owned (bthreads s) (pcs s))"
      using ok by (auto simp: single_ok_def log_ok_def comp_def image_image)
    moreover have "length (drop (taken s) (enq s)) \<le> 1"
      using ok by (simp add: single_ok_def split: option.splits)
    ultimately show ?thesis using ok True by (simp add: single_ok_def)
  qed
  then show "log_ok (taken s) (enq s) (gone s) (owned (bthreads s) (pcs s))"
    "taken s \<le> length (enq s)" "length (enq s) \<le> taken s + bcap (buf s)" by auto
qed

section \<open>Properties\<close>

text \<open>
  C7: the buffer is a first-in first-out queue that neither loses, duplicates nor invents a
  value. For any capacity the constructor accepts, any number of threads and any
  interleaving of pushes and pops: positions are handed out in order, at most \<open>cap\<close> of them
  are outstanding, every pop that has returned did return the value pushed at its position,
  no position was returned twice, and when no operation is under way the positions
  returned are exactly those taken.
\<close>

theorem buffer_fifo:
  assumes "buffer_with_capacity c = Inr b" "reachable buffer_step (buffer_init b n) s" "in_range s"
  shows "(\<forall>p v. (p, v) \<in> set (gone s) \<longrightarrow> p < taken s \<and> v = Some (enq s ! p)) \<and> distinct (map fst (gone s)) \<and>
         taken s \<le> length (enq s) \<and> length (enq s) \<le> taken s + unat (cap (buf s)) \<and>
         ((\<forall>i<bthreads s. bpc (bthr s i) = BIdle) \<longrightarrow> fst ` set (gone s) = {0..<taken s})"
proof -
  have inv: "buffer_inv s" using buffer.always[OF assms(2)] fresh_bufferI[OF assms(1)] by simp
  note l = ring_log[OF inv assms(3)]
  show ?thesis
  proof (intro conjI impI)
    show "\<forall>p v. (p, v) \<in> set (gone s) \<longrightarrow> p < taken s \<and> v = Some (enq s ! p)" "distinct (map fst (gone s))"
      using l(1) by (auto simp: log_ok_def)
    show "taken s \<le> length (enq s)" "length (enq s) \<le> taken s + unat (cap (buf s))"
      using l(2,3) by (simp_all add: bcap_def)
    assume "\<forall>i<bthreads s. bpc (bthr s i) = BIdle"
    then have "\<not> owned (bthreads s) (pcs s) False p" for p by (auto simp: owned_def)
    then have "p \<in> fst ` set (gone s) \<longleftrightarrow> p < taken s" for p using l(1) by (simp add: log_ok_def)
    then show "fst ` set (gone s) = {0..<taken s}" by (simp add: set_eq_iff)
  qed
qed

definition two_pushes :: "nat bact list" where
  "two_pushes = [CallPush 0 (Some 7), CallPush 1 (Some 8)] @
     replicate 2 (BStep 1 False) @ replicate 6 (BStep 0 False) @ replicate 2 (BStep 1 False) @ [CallPop 0] @ replicate 4 (BStep 0 False)"

text \<open>Thread 1 overtakes thread 0: its value comes out first.\<close>

theorem buffer_fifo_witness:
  "\<exists>s (b :: nat buffer). buffer_with_capacity 4 = Inr b \<and> reachable buffer_step (buffer_init b 2) s \<and>
     gone s = [(0, Some (enq s ! 0))] \<and> fst ` set (gone s) = {0..<taken s}"
proof -
  have "case buffer_with_capacity 4 of Inl e \<Rightarrow> False | Inr (b :: nat buffer) \<Rightarrow> True"
    by code_simp
  then obtain b :: "nat buffer" where b: "buffer_with_capacity 4 = Inr b" by (auto split: sum.splits)
  have "case buffer_with_capacity 4 of Inl e \<Rightarrow> False | Inr b \<Rightarrow>
      run_to buffer_step two_pushes (buffer_init b 2)
        (\<lambda>s. bthreads s = 2 \<and> bpc (bthr s 0) = BIdle \<and> bpc (bthr s 1) = BIdle \<and> gone s = [(0, Some 8)] \<and>
           length (enq s) = 2 \<and> cap (buf s) = 4)"
    by code_simp
  then obtain s where s: "reachable buffer_step (buffer_init b 2) s" "bthreads s = 2" "bpc (bthr s 0) = BIdle"
    "bpc (bthr s 1) = BIdle" "gone s = [(0, Some 8)]" "length (enq s) = 2" "cap (buf s) = 4"
    using b by (auto dest: run_toD)
  have r: "in_range s" using s by (simp add: in_range_def bcap_def)
  have idle: "\<forall>i<bthreads s. bpc (bthr s i) = BIdle" using s(2-4) by (auto dest!: less_2_cases)
  note f = buffer_fifo[OF b s(1) r]
  have "Some 8 = Some (enq s ! 0)" using f s(5) by (metis list.set_intros(1))
  moreover have "fst ` set (gone s) = {0..<taken s}" using f idle by blast
  ultimately show ?thesis using b s(1,5) by metis
qed

end
