(* ===== verification/Buffer_Ops.thy ===== *)
theory Buffer_Ops
  imports Buffer_Safety
begin

text \<open>
  What the operations of \<open>AtomicBuffer\<close> return: when a pop may say \<open>None\<close> and a push may
  hand its value back, and the behaviour of a thread that runs alone, up to
  \<open>drain_to_vec\<close> and \<open>len_approx\<close>.
\<close>

section \<open>Answers under contention\<close>

definition content :: "'v buffer_sys \<Rightarrow> 'v list" where
  "content s = drop (taken s) (enq s)"

lemma length_content: "buffer_inv s \<Longrightarrow> in_range s \<Longrightarrow> length (content s) + taken s = length (enq s)"
  using ring_log(2)[of s] by (simp add: content_def)

lemma reach_inv:
  assumes "buffer_with_capacity c = Inr b" "reachable buffer_step (buffer_init b n) s"
  shows "buffer_inv s"
  using buffer.always[OF assms(2)] fresh_bufferI[OF assms(1)] by simp

lemma ring_parts:
  assumes "buffer_inv s" "in_range s" "bcap (buf s) \<noteq> 1"
  shows "well_sized (buf s)" "ring_inv s"
    "ring_ok (bcap (buf s)) (taken s) (enq s) (seqs (buf s)) (vals (buf s)) (bthreads s) (pcs s) (gone s)"
    "unat (head (buf s)) = taken s" "unat (tail (buf s)) = length (enq s)"
  using assms by (simp_all add: buffer_inv_def ring_inv_def)

text \<open>A slot whose sequence is behind the push holds an older position.\<close>

lemma behind_full:
  assumes ok: "ring_ok C H es sq vl n pcs' G" and p: "p \<le> length es" and lt: "sq (p mod C) < p"
  shows "length es = H + C \<or> (\<exists>q. q + C = length es \<and> owned n pcs' False q)"
proof -
  note r = ok[unfolded ring_ok_def]
  have "p mod C < C" using r by simp
  then obtain q where q: "H \<le> q" "q < H + C" "q mod C = p mod C" using window_rep by blast
  note w = window_seq[OF ok q(1,2), unfolded q(3)]
  have qp: "q \<le> p"
  proof (rule ccontr)
    assume "\<not> q \<le> p"
    then have "p + C \<le> q" using mod_eq_ge[of p C q] q(3) by simp
    with w lt show False by auto
  qed
  show ?thesis
  proof (cases "q = p")
    case True
    with w lt have "C \<le> p" "owned n pcs' False (p - C)" by auto
    moreover have "\<not> p < length es" using r lt q True unfolding window_ok_def by auto
    ultimately show ?thesis using p by (intro disjI2 exI[of _ "p - C"]) simp
  next
    case False
    with qp mod_eq_ge[of q C p] q(3) have "H + C \<le> p" using q(1) by linarith
    with p r show ?thesis by simp
  qed
qed

text \<open>In the step \<open>a\<close> thread \<open>i\<close> finishes its operation with the answer \<open>r\<close>.\<close>

fun acts :: "'v bact \<Rightarrow> tid \<Rightarrow> bool" where
  "acts (CallPush j v) i = (j = i)"
| "acts (CallPop j) i = (j = i)"
| "acts (BStep j w) i = (j = i)"

definition returns :: "'v bact \<Rightarrow> 'v buffer_sys \<Rightarrow> 'v buffer_sys \<Rightarrow> tid \<Rightarrow> 'v outcome \<Rightarrow> bool" where
  "returns a s t i r \<longleftrightarrow>
     buffer_step a s = Some t \<and> acts a i \<and> bpc (bthr t i) = BIdle \<and> outcome (bthr t i) = Some r"

lemma returns_single:
  assumes "single_ok s" "bcap (buf s) = 1" "returns a s t i r"
  shows "i < bthreads s \<and>
     ((\<exists>v. a = CallPush i v \<and> t = buffer_push s i v) \<or> a = CallPop i \<and> t = buffer_pop s i)"
  using assms by (cases a) (auto simp: returns_def buffer_step_def single_ok_def split: if_splits)

lemma returns_ring:
  assumes "bcap (buf s) \<noteq> 1" "returns a s t i r"
  shows "r = Rejected None \<and> a = CallPush i None \<or>
     i < bthreads s \<and> (\<exists>w. push_loop s i w (bpc (bthr s i)) = Some t \<or> pop_loop s i w (bpc (bthr s i)) = Some t)"
  using assms
  by (cases a) (auto simp: returns_def buffer_step_def buffer_push_def buffer_pop_def bcap_def
      split: if_splits option.splits)

lemma loop_reject:
  assumes "push_loop s i w q = Some t \<or> pop_loop s i w q = Some t" "bpc (bthr t i) = BIdle"
    "outcome (bthr t i) = Some (Rejected r)"
  obtains v pos where "r = Some v" "q = PushSeq v pos"
    "seq_diff (sequence (slots (buf s) ! slot_index (buf s) pos)) pos < 0"
  using assms by (cases q) (auto simp: Let_def split: if_splits)

text \<open>
  \<open>pop\<close> says that the queue is empty only when it is. The step in which a pop of any
  thread decides to return \<open>None\<close> is taken in a state in which every reserved position has
  been taken.
\<close>

theorem buffer_pop_empty:
  assumes "buffer_with_capacity c = Inr b" "reachable buffer_step (buffer_init b n) s" "in_range s"
    "returns a s t i Empty"
  shows "content s = []"
proof -
  note inv = reach_inv[OF assms(1,2)]
  show ?thesis
  proof (cases "bcap (buf s) = 1")
    case True
    then have one: "cap (buf s) = 1" and ok: "single_ok s"
      using inv assms(3) by (simp_all add: buffer_inv_def bcap_def word_unat_eq_iff)
    from returns_single[OF ok True assms(4)] one ok assms(4) show ?thesis
      by (auto simp: buffer_push_def buffer_pop_def returns_def single_ok_def content_def split: option.splits)
  next
    case False
    note rp = ring_parts[OF inv assms(3) False]
    from returns_ring[OF False assms(4)] obtain w where i: "i < bthreads s"
      "push_loop s i w (bpc (bthr s i)) = Some t \<or> pop_loop s i w (bpc (bthr s i)) = Some t" by auto
    with assms(4) obtain pos where "bpc (bthr s i) = PopEmpty pos" "tail (buf s) = pos"
      by (cases "bpc (bthr s i)") (auto simp: returns_def Let_def split: if_splits)
    moreover from this have "unat pos \<le> taken s" using rp(3) i(1) by (force simp: ring_ok_def)
    ultimately show ?thesis using rp(5) by (simp add: content_def)
  qed
qed

lemma single_reject:
  assumes "single_ok s" "cap (buf s) = 1" "t = buffer_push s i u" "outcome (bthr t i) = Some (Rejected r)"
    "bpc (bthr t i) = BIdle"
  shows "r = u \<and> (u \<noteq> None \<longrightarrow> length (content s) = 1)"
  using assms by (auto simp: buffer_push_def single_ok_def content_def split: option.splits)

lemma single_pop_answers: "cap (buf s) = 1 \<Longrightarrow> outcome (bthr (buffer_pop s i) i) \<noteq> Some (Rejected r)"
  by (auto simp: buffer_pop_def split: option.splits)

text \<open>
  \<open>push\<close> hands a value back only for a reason. A null pointer is handed back at once; a
  value is handed back only in a state in which \<open>cap\<close> values are queued, or in which the slot
  the push needs belongs to a pop that has reserved it and has not released it yet.
\<close>

theorem buffer_push_rejects:
  assumes "buffer_with_capacity c = Inr b" "reachable buffer_step (buffer_init b n) s" "in_range s"
    "returns a s t i (Rejected r)"
  shows "case r of None \<Rightarrow> a = CallPush i None
     | Some v \<Rightarrow> length (content s) = unat (cap (buf s)) \<or>
         (\<exists>q. q + unat (cap (buf s)) = length (enq s) \<and> owned (bthreads s) (\<lambda>j. bpc (bthr s j)) False q)"
proof -
  note inv = reach_inv[OF assms(1,2)]
  show ?thesis
  proof (cases "bcap (buf s) = 1")
    case True
    then have one: "cap (buf s) = 1" and ok: "single_ok s"
      using inv assms(3) by (simp_all add: buffer_inv_def bcap_def word_unat_eq_iff)
    from assms(4) have r: "outcome (bthr t i) = Some (Rejected r)" "bpc (bthr t i) = BIdle"
      by (simp_all add: returns_def)
    from returns_single[OF ok True assms(4)] r(1) single_pop_answers[OF one, of i r]
    obtain u where u: "a = CallPush i u" "t = buffer_push s i u" by auto
    from single_reject[OF ok one u(2) r] u(1) one show ?thesis by (auto split: option.splits)
  next
    case False
    note rp = ring_parts[OF inv assms(3) False]
    show ?thesis
    proof (cases "a = CallPush i None")
      case True
      with assms(4) show ?thesis
        by (auto simp: returns_def buffer_step_def buffer_push_def split: if_splits)
    next
      case no: False
      with returns_ring[OF False assms(4)] obtain w where i: "i < bthreads s"
        "push_loop s i w (bpc (bthr s i)) = Some t \<or> pop_loop s i w (bpc (bthr s i)) = Some t" by auto
      from assms(4) have "bpc (bthr t i) = BIdle" "outcome (bthr t i) = Some (Rejected r)"
        by (simp_all add: returns_def)
      from loop_reject[OF i(2) this] obtain v pos where Some: "r = Some v" and pos: "bpc (bthr s i) = PushSeq v pos"
        and d: "seq_diff (sequence (slots (buf s) ! slot_index (buf s) pos)) pos < 0" .
      have le: "unat pos \<le> length (enq s)" using rp(3) i(1) pos by (force simp: ring_ok_def)
      with d have "seqs (buf s) (unat pos mod bcap (buf s)) < unat pos"
        using ring_seq_diff(2)[OF rp(1) assms(3) rp(2), of pos pos] by simp
      from behind_full[OF rp(3) le this] length_content[OF inv assms(3)] Some show ?thesis
        unfolding bcap_def by auto
    qed
  qed
qed

section \<open>A thread that runs alone\<close>

definition quiescent :: "'v buffer_sys \<Rightarrow> bool" where
  "quiescent s \<longleftrightarrow> (\<forall>i<bthreads s. bpc (bthr s i) = BIdle)"

text \<open>With no operation under way, the window tells the sequences of the two ends.\<close>

lemma quiescent_ends:
  assumes ok: "ring_ok C H es sq vl n pcs' G" and idle: "\<forall>i<n. pcs' i = BIdle"
  shows "length es < H + C \<Longrightarrow> sq (length es mod C) = length es"
    and "length es = H + C \<Longrightarrow> sq (length es mod C) < length es"
    and "H < length es \<Longrightarrow> sq (H mod C) = H + 1 \<and> vl (H mod C) = Some (es ! H)"
    and "H = length es \<Longrightarrow> sq (H mod C) = H"
proof -
  note r = ok[unfolded ring_ok_def]
  have none: "\<not> owned n pcs' b p" for b p using idle by (auto simp: owned_def)
  show end1: "sq (length es mod C) = length es" if "length es < H + C"
    using r that none unfolding window_ok_def by auto
  show start: "sq (H mod C) = H + 1 \<and> vl (H mod C) = Some (es ! H)" if "H < length es"
    using r that none unfolding window_ok_def by auto
  show "sq (H mod C) = H" if "H = length es" using r end1 that by auto
  show "sq (length es mod C) < length es" if "length es = H + C"
    using r start that by auto
qed

lemma solo_done: "bpc (bthr s i) = BIdle \<Longrightarrow> solo n s i = Some s"
  by (cases n) auto

lemma solo_go: "bpc (bthr s i) \<noteq> BIdle \<Longrightarrow> buffer_step (BStep i False) s = Some t \<Longrightarrow> solo (Suc n) s i = solo n t i"
  by simp

text \<open>The end of a solo run: the other threads and the number of threads are unchanged.\<close>

definition alone :: "'v buffer_sys \<Rightarrow> tid \<Rightarrow> 'v outcome \<Rightarrow> 'v buffer_sys \<Rightarrow> bool" where
  "alone s i r t \<longleftrightarrow>
     bthreads t = bthreads s \<and> (\<forall>j. j \<noteq> i \<longrightarrow> bthr t j = bthr s j) \<and> bthr t i = \<lparr>bpc = BIdle, outcome = Some r\<rparr> \<and>
     cap (buf t) = cap (buf s)"

lemma four: "(4::nat) = Suc (Suc (Suc (Suc 0)))" by simp

lemma push_solo_ok:
  assumes "cap (buf s) \<noteq> 1" "i < bthreads s"
    "seq_diff (sequence (slots (buf s) ! slot_index (buf s) (tail (buf s)))) (tail (buf s)) = 0"
  shows "\<exists>t. solo 4 (buffer_push s i (Some v)) i = Some t \<and> alone s i Pushed t \<and>
     enq t = enq s @ [v] \<and> taken t = taken s"
  using assms by (simp add: four buffer_push_def buffer_step_def Let_def alone_def)

lemma push_solo_full:
  assumes "cap (buf s) \<noteq> 1" "i < bthreads s"
    "seq_diff (sequence (slots (buf s) ! slot_index (buf s) (tail (buf s)))) (tail (buf s)) < 0"
  shows "\<exists>t. solo 4 (buffer_push s i (Some v)) i = Some t \<and> alone s i (Rejected (Some v)) t \<and>
     enq t = enq s \<and> taken t = taken s"
  using assms by (simp add: four buffer_push_def buffer_step_def Let_def alone_def)

lemma pop_solo_ok:
  assumes "cap (buf s) \<noteq> 1" "i < bthreads s"
    "seq_diff (sequence (slots (buf s) ! slot_index (buf s) (head (buf s)))) (head (buf s) + 1) = 0"
  shows "\<exists>t. solo 4 (buffer_pop s i) i = Some t \<and>
     alone s i (Popped (slot_value (slots (buf s) ! slot_index (buf s) (head (buf s))))) t \<and>
     enq t = enq s \<and> taken t = Suc (taken s)"
  using assms by (simp add: four buffer_pop_def buffer_step_def Let_def alone_def set_slot_def slot_index_def)

lemma pop_solo_empty:
  assumes "cap (buf s) \<noteq> 1" "i < bthreads s" "tail (buf s) = head (buf s)"
    "seq_diff (sequence (slots (buf s) ! slot_index (buf s) (head (buf s)))) (head (buf s) + 1) < 0"
  shows "\<exists>t. solo 4 (buffer_pop s i) i = Some t \<and> alone s i Empty t \<and> enq t = enq s \<and> taken t = taken s"
  using assms by (simp add: four buffer_pop_def buffer_step_def Let_def alone_def)

lemma solo_reachable:
  "solo n s i = Some t \<Longrightarrow> reachable buffer_step s0 s \<Longrightarrow> reachable buffer_step s0 t"
  by (induction n s i rule: solo.induct) (auto split: if_splits option.splits intro: reachable_step)

lemma quiescent_alone: "quiescent s \<Longrightarrow> alone s i r t \<Longrightarrow> quiescent t"
  unfolding quiescent_def alone_def by (metis bthread.select_convs(1))

lemma solo_push:
  assumes inv: "buffer_inv s" and rg: "in_range s" and q: "quiescent s" and i: "i < bthreads s"
  shows "\<exists>t. solo 4 (buffer_push s i (Some v)) i = Some t \<and>
     (if length (content s) < bcap (buf s) then alone s i Pushed t \<and> enq t = enq s @ [v] \<and> taken t = taken s
      else alone s i (Rejected (Some v)) t \<and> enq t = enq s \<and> taken t = taken s)"
proof (cases "bcap (buf s) = 1")
  case True
  then have one: "cap (buf s) = 1" and ok: "single_ok s"
    using inv rg by (simp_all add: buffer_inv_def bcap_def word_unat_eq_iff)
  with True show ?thesis
    by (auto simp: single_ok_def buffer_push_def solo_done content_def alone_def split: option.splits)
next
  case False
  note rp = ring_parts[OF inv rg False]
  have cap: "cap (buf s) \<noteq> 1" using False by (auto simp: bcap_def)
  have idle: "\<forall>i<bthreads s. pcs s i = BIdle" using q by (simp add: quiescent_def)
  note e = quiescent_ends[OF rp(3) idle]
  note d = ring_seq_diff[OF rp(1) rg rp(2), of "tail (buf s)" "tail (buf s)"]
  have len: "length (content s) < bcap (buf s) \<longleftrightarrow> length (enq s) < taken s + bcap (buf s)"
    "length (enq s) \<le> taken s + bcap (buf s)"
    using length_content[OF inv rg] ring_log(3)[OF inv rg] by linarith+
  show ?thesis
  proof (cases "length (content s) < bcap (buf s)")
    case True
    with e(1) len rp(5) d push_solo_ok[OF cap i] show ?thesis by simp
  next
    case False
    with e(2) len rp(5) d push_solo_full[OF cap i] show ?thesis by simp
  qed
qed

lemma solo_pop:
  assumes inv: "buffer_inv s" and rg: "in_range s" and q: "quiescent s" and i: "i < bthreads s"
  shows "\<exists>t. solo 4 (buffer_pop s i) i = Some t \<and>
     (case content s of
        [] \<Rightarrow> alone s i Empty t \<and> enq t = enq s \<and> taken t = taken s
      | x # xs \<Rightarrow> alone s i (Popped (Some x)) t \<and> enq t = enq s \<and> taken t = Suc (taken s))"
proof (cases "bcap (buf s) = 1")
  case True
  then have one: "cap (buf s) = 1" and ok: "single_ok s"
    using inv rg by (simp_all add: buffer_inv_def bcap_def word_unat_eq_iff)
  with True show ?thesis
    by (auto simp: single_ok_def buffer_pop_def solo_done content_def alone_def split: option.splits)
next
  case False
  note rp = ring_parts[OF inv rg False]
  have cap: "cap (buf s) \<noteq> 1" using False by (auto simp: bcap_def)
  have idle: "\<forall>i<bthreads s. pcs s i = BIdle" using q by (simp add: quiescent_def)
  note e = quiescent_ends[OF rp(3) idle]
  have le: "taken s \<le> length (enq s)" by (rule ring_log(2)[OF inv rg])
  have hd1: "unat (head (buf s) + 1) = Suc (taken s)"
    using rp(4) le rg by (subst unat_Suc) (simp_all add: in_range_def)
  note d = ring_seq_diff[OF rp(1) rg rp(2), of "head (buf s) + 1" "head (buf s)"]
  show ?thesis
  proof (cases "taken s < length (enq s)")
    case True
    then have c: "content s = enq s ! taken s # drop (Suc (taken s)) (enq s)"
      by (simp add: content_def Cons_nth_drop_Suc)
    have v: "slot_value (slots (buf s) ! slot_index (buf s) (head (buf s))) = Some (enq s ! taken s)"
      using e(3)[OF True] slot_index_mod(1)[OF rp(1)] rp(4) by (simp add: vals_def)
    from True e(3) rp(4) hd1 d le pop_solo_ok[OF cap i] c v show ?thesis by simp
  next
    case False
    then have "content s = []" "head (buf s) = tail (buf s)" using le rp(4,5)
      by (simp_all add: content_def word_unat_eq_iff)
    with False e(4) rp(4) hd1 d le pop_solo_empty[OF cap i] show ?thesis by simp
  qed
qed

definition calm :: "tid \<Rightarrow> 'v buffer_sys \<Rightarrow> bool" where
  "calm i s \<longleftrightarrow> buffer_inv s \<and> in_range s \<and> quiescent s \<and> i < bthreads s"

lemma solo_inv: "solo n s i = Some t \<Longrightarrow> buffer_inv s \<Longrightarrow> buffer_inv t"
  by (induction n s i rule: solo.induct) (auto split: if_splits option.splits intro: buffer_inv_step)

lemma buffer_pop_inv: "buffer_inv s \<Longrightarrow> quiescent s \<Longrightarrow> i < bthreads s \<Longrightarrow> buffer_inv (buffer_pop s i)"
  by (rule buffer_inv_step[of s "CallPop i"]) (auto simp: buffer_step_def quiescent_def)

lemma pop_alone_step:
  assumes c: "calm i s"
  shows "\<exists>t. pop_alone i s = Some (if content s = [] then None else Some (Some (hd (content s))), t) \<and>
     calm i t \<and> content t = tl (content s)"
proof -
  from c obtain t where t: "solo 4 (buffer_pop s i) i = Some t"
    and r: "case content s of [] \<Rightarrow> alone s i Empty t \<and> enq t = enq s \<and> taken t = taken s
      | x # xs \<Rightarrow> alone s i (Popped (Some x)) t \<and> enq t = enq s \<and> taken t = Suc (taken s)"
    using solo_pop[of s i] unfolding calm_def by blast
  have al: "\<exists>r. alone s i r t" "enq t = enq s" using r by (auto split: list.splits)
  have "buffer_inv t" using c t solo_inv buffer_pop_inv unfolding calm_def by blast
  then have "calm i t" using c al quiescent_alone unfolding calm_def alone_def in_range_def bcap_def by metis
  moreover have "content t = tl (content s)"
    using r by (auto simp: content_def drop_Suc tl_drop split: list.splits)
  moreover have "pop_alone i s = Some (if content s = [] then None else Some (Some (hd (content s))), t)"
    using r t by (auto simp: pop_alone_def alone_def split: list.splits)
  ultimately show ?thesis by blast
qed

interpretation buffer_queue: pop_queue "pop_alone i" "\<lambda>s. map Some (content s)" "calm i"
  for i :: tid
proof
  fix s :: "'a buffer_sys" assume "calm i s" "map Some (content s) = []"
  with pop_alone_step[of i s] show "\<exists>t. pop_alone i s = Some (None, t) \<and> calm i t \<and> map Some (content t) = []"
    by auto
next
  fix s :: "'a buffer_sys" and x xs assume "calm i s" "map Some (content s) = x # xs"
  with pop_alone_step[of i s]
  show "\<exists>t. pop_alone i s = Some (Some x, t) \<and> calm i t \<and> map Some (content t) = xs"
    by (cases "content s") auto
qed

lemma reach_calm:
  assumes "buffer_with_capacity c = Inr b" "reachable buffer_step (buffer_init b n) s" "in_range s"
    "quiescent s" "i < bthreads s"
  shows "calm i s"
  using reach_inv[OF assms(1,2)] assms(3-5) by (simp add: calm_def)

text \<open>
  A push that runs alone takes effect at once and always returns. From a state with no
  operation under way it appends its value if fewer than \<open>cap\<close> are queued, and otherwise
  hands the value back and changes nothing.
\<close>

theorem buffer_push_alone:
  assumes "buffer_with_capacity c = Inr b" "reachable buffer_step (buffer_init b n) s" "in_range s"
    "quiescent s" "i < bthreads s"
  shows "\<exists>t. solo 4 (buffer_push s i (Some v)) i = Some t \<and> quiescent t \<and>
     (if length (content s) < unat (cap (buf s))
      then outcome (bthr t i) = Some Pushed \<and> content t = content s @ [v]
      else outcome (bthr t i) = Some (Rejected (Some v)) \<and> content t = content s)"
proof -
  have inv: "buffer_inv s" by (rule reach_inv[OF assms(1,2)])
  from solo_push[OF inv assms(3-5), of v] obtain t where t: "solo 4 (buffer_push s i (Some v)) i = Some t"
    and r: "if length (content s) < bcap (buf s) then alone s i Pushed t \<and> enq t = enq s @ [v] \<and> taken t = taken s
      else alone s i (Rejected (Some v)) t \<and> enq t = enq s \<and> taken t = taken s" by blast
  have "taken s \<le> length (enq s)" by (rule ring_log(2)[OF inv assms(3)])
  with t r quiescent_alone[OF assms(4)] show ?thesis
    by (intro exI[of _ t]) (auto simp: bcap_def alone_def content_def split: if_splits)
qed

text \<open>
  Draining returns the whole queue. \<open>drain_to_vec\<close>, run with no other operation under
  way, returns every queued value in the order of the pushes and leaves the queue empty;
  \<open>cap\<close> pops are always enough.
\<close>

theorem drain_to_vec_all:
  assumes "buffer_with_capacity c = Inr b" "reachable buffer_step (buffer_init b n) s" "in_range s"
    "quiescent s" "i < bthreads s"
  shows "\<exists>t. drain_to_vec s i = Some (map Some (content s), t) \<and> content t = []"
proof -
  have "length (map Some (content s)) \<le> unat (cap (buf s))"
    using ring_log(3)[OF reach_inv[OF assms(1,2)] assms(3)] by (simp add: content_def bcap_def)
  from buffer_queue.drain_everything[OF reach_calm[OF assms] this] show ?thesis
    by (auto simp: drain_to_vec_def)
qed

text \<open>Between two states of a run only pushes add and only pops take; the capacity stays.\<close>

lemma taken_step: "buffer_step a s = Some t \<Longrightarrow> taken s \<le> taken t"
proof -
  have push: "push_loop s i w q = Some t \<Longrightarrow> taken s \<le> taken t"
    and pop: "pop_loop s i w q = Some t \<Longrightarrow> taken s \<le> taken t"
    for i w q by (cases q; auto simp: Let_def split: if_splits)+
  assume "buffer_step a s = Some t"
  then show ?thesis
    by (cases a) (auto simp: buffer_step_def buffer_push_def buffer_pop_def split: if_splits option.splits dest: push pop)
qed

lemma buffer_later:
  assumes "reachable buffer_step s t" "buffer_inv s"
  shows "buffer_inv t \<and> bcap (buf t) = bcap (buf s) \<and> length (enq s) \<le> length (enq t) \<and> taken s \<le> taken t"
  using assms(1)
proof (induction rule: reachable_induct)
  case (step u a t)
  then have "well_sized (buf u)" by (simp add: buffer_inv_def)
  with step buffer_inv_step[of u a t] well_sized_step[of a u t] enq_step[of a u t] taken_step[of a u t] show ?case by auto
qed (use assms(2) in simp)

text \<open>
  C37: what \<open>len_approx\<close> says under contention. Let any number of steps of other threads come between its two
  loads. Then its answer is at least the number of values queued at the first load and at most that number
  plus the pushes made in between, and never above the capacity; so it is exact when nothing was pushed in
  between. When \<open>is_empty_fast\<close> says yes, the queue was empty at the first load and, unless the capacity is
  one (where there is only one load), at the second load as well.
\<close>

theorem buffer_len_between:
  assumes "buffer_with_capacity c = Inr b" "reachable buffer_step (buffer_init b n) s" "reachable buffer_step s s'" "in_range s'"
  shows "length (content s) \<le> unat (len_approx (buf s) (buf s')) \<and>
    unat (len_approx (buf s) (buf s')) \<le> length (content s) + (length (enq s') - length (enq s)) \<and>
    unat (len_approx (buf s) (buf s')) \<le> unat (cap (buf s)) \<and>
    (is_empty_fast (buf s) (buf s') \<longrightarrow> content s = [] \<and> (cap (buf s) \<noteq> 1 \<longrightarrow> content s' = []))"
proof -
  have inv: "buffer_inv s" by (rule reach_inv[OF assms(1,2)])
  note L = buffer_later[OF assms(3) inv]
  have r: "in_range s" using L assms(4) by (simp add: in_range_def)
  note log = ring_log(2,3)[OF inv r] ring_log(2,3)[OF conjunct1[OF L] assms(4)]
  show ?thesis
  proof (cases "bcap (buf s) = 1")
    case True
    then have "cap (buf s) = 1" and "single_ok s" using inv r by (simp_all add: buffer_inv_def bcap_def word_unat_eq_iff)
    then show ?thesis by (auto simp: len_approx_def is_empty_fast_def content_def single_ok_def split: option.splits)
  next
    case False
    have c1: "cap (buf s) \<noteq> 1" using False by (auto simp: bcap_def)
    have "unat (head (buf s)) = taken s" "unat (tail (buf s')) = length (enq s')"
      using ring_parts(4)[OF inv r False] ring_parts(5)[OF conjunct1[OF L] assms(4)] L False by simp_all
    then have "unat (tail (buf s') - head (buf s)) = length (enq s') - taken s"
      using unat_sub[of "head (buf s)" "tail (buf s')"] L log by (simp add: word_le_nat_alt)
    then have v: "unat (len_approx (buf s) (buf s')) = min (length (enq s') - taken s) (bcap (buf s))"
      using c1 by (simp add: len_approx_def len_of_loads_def min_def word_le_nat_alt bcap_def)
    have e: "is_empty_fast (buf s) (buf s') \<longleftrightarrow> unat (len_approx (buf s) (buf s')) = 0" by (simp add: is_empty_fast_def unat_eq_0)
    have "0 < bcap (buf s)" using inv by (auto simp: buffer_inv_def well_sized_def)
    with v e L log show ?thesis by (auto simp: content_def min_def bcap_def split: if_splits)
  qed
qed

section \<open>Witnesses\<close>

definition fresh_run :: "usize \<Rightarrow> nat \<Rightarrow> 'v bact list \<Rightarrow> ('v buffer_sys \<Rightarrow> bool) \<Rightarrow> bool" where
  "fresh_run c n as P =
     (case buffer_with_capacity c of Inl e \<Rightarrow> False | Inr b \<Rightarrow> run_to buffer_step as (buffer_init b n) P)"

lemma fresh_runD:
  assumes "fresh_run c n as P"
  shows "\<exists>b s. buffer_with_capacity c = Inr b \<and> reachable buffer_step (buffer_init b n) s \<and> P s"
  using assms by (auto simp: fresh_run_def split: sum.splits dest: run_toD)

text \<open>Capacity two, both slots filled by thread 0.\<close>

definition fill_two :: "nat bact list" where
  "fill_two = CallPush 0 (Some 5) # replicate 4 (BStep 0 False) @ CallPush 0 (Some 6) # replicate 4 (BStep 0 False)"

lemma filled:
  "\<exists>(b :: nat buffer) s. buffer_with_capacity 2 = Inr b \<and> reachable buffer_step (buffer_init b 2) s \<and>
     bthreads s = 2 \<and> cap (buf s) = 2 \<and> enq s = [5, 6] \<and> taken s = 0 \<and> in_range s \<and> quiescent s"
proof -
  have "fresh_run 2 2 fill_two (\<lambda>s. bthreads s = 2 \<and> bpc (bthr s 0) = BIdle \<and> bpc (bthr s 1) = BIdle \<and>
      cap (buf s) = 2 \<and> enq s = [5, 6] \<and> taken s = 0)"
    by code_simp
  then obtain b :: "nat buffer" and s where b: "buffer_with_capacity 2 = Inr b" and s: "reachable buffer_step (buffer_init b 2) s"
    "bthreads s = 2" "bpc (bthr s 0) = BIdle" "bpc (bthr s 1) = BIdle" "cap (buf s) = 2" "enq s = [5, 6]" "taken s = 0"
    by (blast dest: fresh_runD)
  have "in_range s" using s by (simp add: in_range_def bcap_def)
  moreover have "quiescent s" using s(2-4) by (auto simp: quiescent_def dest!: less_2_cases)
  ultimately show ?thesis using b s by blast
qed

theorem buffer_push_alone_witness:
  "\<exists>(b :: nat buffer) s t. buffer_with_capacity 2 = Inr b \<and> reachable buffer_step (buffer_init b 2) s \<and>
     solo 4 (buffer_push s 1 (Some 9)) 1 = Some t \<and> outcome (bthr t 1) = Some (Rejected (Some 9)) \<and>
     content t = [5, 6]"
proof -
  obtain b :: "nat buffer" and s where s: "buffer_with_capacity 2 = Inr b" "reachable buffer_step (buffer_init b 2) s"
    "bthreads s = 2" "cap (buf s) = 2" "enq s = [5, 6]" "taken s = 0" "in_range s" "quiescent s"
    using filled by blast
  then have "content s = [5, 6]" by (simp add: content_def)
  with buffer_push_alone[OF s(1,2,7,8), of 1 9] s(3,4) obtain t where "solo 4 (buffer_push s 1 (Some 9)) 1 = Some t"
    "outcome (bthr t 1) = Some (Rejected (Some 9))" "content t = [5, 6]" by auto
  with s(1,2) show ?thesis by blast
qed

theorem drain_to_vec_all_witness:
  "\<exists>(b :: nat buffer) s t. buffer_with_capacity 2 = Inr b \<and> reachable buffer_step (buffer_init b 2) s \<and>
     drain_to_vec s 1 = Some ([Some 5, Some 6], t) \<and> content t = []"
proof -
  obtain b :: "nat buffer" and s where s: "buffer_with_capacity 2 = Inr b" "reachable buffer_step (buffer_init b 2) s"
    "bthreads s = 2" "enq s = [5, 6]" "taken s = 0" "in_range s" "quiescent s"
    using filled by blast
  then have "map Some (content s) = [Some 5, Some 6]" by (simp add: content_def)
  with drain_to_vec_all[OF s(1,2,6,7), of 1] s(3) obtain t where "drain_to_vec s 1 = Some ([Some 5, Some 6], t)"
    "content t = []" by auto
  with s(1,2) show ?thesis by blast
qed

text \<open>A push of another thread reserves its position between the two loads.\<close>

theorem buffer_len_between_witness:
  "\<exists>(b :: nat buffer) s s'. buffer_with_capacity 4 = Inr b \<and> reachable buffer_step (buffer_init b 2) s \<and> reachable buffer_step s s' \<and>
     length (content s) = 1 \<and> length (enq s') = 2 \<and> 1 \<le> unat (len_approx (buf s) (buf s')) \<and> unat (len_approx (buf s) (buf s')) \<le> 2 \<and>
     \<not> is_empty_fast (buf s) (buf s')"
proof -
  have "fresh_run 4 2 (CallPush 0 (Some 5) # replicate 4 (BStep 0 False))
      (\<lambda>s. cap (buf s) = 4 \<and> enq s = [5::nat] \<and> taken s = 0 \<and>
         run_to buffer_step (CallPush 1 (Some 6) # replicate 2 (BStep 1 False)) s (\<lambda>t. cap (buf t) = 4 \<and> enq t = [5, 6]))"
    by code_simp
  then obtain b :: "nat buffer" and s where s: "buffer_with_capacity 4 = Inr b" "reachable buffer_step (buffer_init b 2) s" "cap (buf s) = 4"
    "enq s = [5]" "taken s = 0" "run_to buffer_step (CallPush 1 (Some 6) # replicate 2 (BStep 1 False)) s (\<lambda>t. cap (buf t) = 4 \<and> enq t = [5, 6])"
    by (blast dest: fresh_runD)
  from run_toD[OF s(6)] obtain t where t: "reachable buffer_step s t" "cap (buf t) = 4" "enq t = [5, 6]" by blast
  have "in_range t" using t by (simp add: in_range_def bcap_def)
  from buffer_len_between[OF s(1,2) t(1) this] have
    "1 \<le> unat (len_approx (buf s) (buf t))" "unat (len_approx (buf s) (buf t)) \<le> 2" "\<not> is_empty_fast (buf s) (buf t)"
    using s(4,5) t(3) by (auto simp: content_def)
  with s t show ?thesis by (intro exI[of _ b] exI[of _ s] exI[of _ t]) (simp add: content_def)
qed

text \<open>Thread 1 pops while thread 0 has reserved nothing yet: its push loaded the tail only.\<close>

theorem buffer_pop_empty_witness:
  "\<exists>(b :: nat buffer) s t. buffer_with_capacity 2 = Inr b \<and> reachable buffer_step (buffer_init b 2) s \<and>
     returns (BStep 1 False) s t 1 Empty \<and> content s = []"
proof -
  let ?ok = "\<lambda>s :: nat buffer_sys. (case buffer_step (BStep 1 False) s of None \<Rightarrow> False | Some t \<Rightarrow>
     bpc (bthr t 1) = BIdle \<and> outcome (bthr t 1) = Some Empty \<and> length (enq s) = 0 \<and> cap (buf s) = 2)"
  have "fresh_run 2 2 [CallPush 0 (Some 5), CallPop 1, BStep 1 False, BStep 0 False] ?ok" by code_simp
  then obtain b :: "nat buffer" and s where b: "buffer_with_capacity 2 = Inr b" "reachable buffer_step (buffer_init b 2) s"
    and ok: "?ok s" by (blast dest: fresh_runD)
  from ok obtain t where t: "buffer_step (BStep 1 False) s = Some t" by (cases "buffer_step (BStep 1 False) s") simp_all
  with ok have "returns (BStep 1 False) s t 1 Empty" "in_range s" by (simp_all add: returns_def in_range_def bcap_def)
  with buffer_pop_empty[OF b] b show ?thesis by blast
qed

text \<open>
  Both slots are filled and a pop of thread 0 has reserved the first; a push of thread 1 is
  handed back.
\<close>

theorem buffer_push_rejects_witness:
  "\<exists>(b :: nat buffer) s t. buffer_with_capacity 2 = Inr b \<and> reachable buffer_step (buffer_init b 2) s \<and>
     returns (BStep 1 False) s t 1 (Rejected (Some 9)) \<and>
     (length (content s) = 2 \<or> (\<exists>q. q + 2 = length (enq s) \<and> owned (bthreads s) (\<lambda>j. bpc (bthr s j)) False q))"
proof -
  let ?ok = "\<lambda>s :: nat buffer_sys. (case buffer_step (BStep 1 False) s of None \<Rightarrow> False | Some t \<Rightarrow>
     bpc (bthr t 1) = BIdle \<and> outcome (bthr t 1) = Some (Rejected (Some 9)) \<and> length (enq s) = 2 \<and> cap (buf s) = 2)"
  have "fresh_run 2 2 (fill_two @ [CallPop 0, BStep 0 False, BStep 0 False, CallPush 1 (Some 9)]) ?ok" by code_simp
  then obtain b :: "nat buffer" and s where b: "buffer_with_capacity 2 = Inr b" "reachable buffer_step (buffer_init b 2) s"
    and ok: "?ok s" by (blast dest: fresh_runD)
  from ok obtain t where t: "buffer_step (BStep 1 False) s = Some t" by (cases "buffer_step (BStep 1 False) s") simp_all
  with ok have r: "returns (BStep 1 False) s t 1 (Rejected (Some 9))" "in_range s" "unat (cap (buf s)) = 2"
    by (simp_all add: returns_def in_range_def bcap_def)
  from buffer_push_rejects[OF b r(2,1)] r b show ?thesis by auto
qed

end
