(* ===== verification/HashMap.thy ===== *)
theory HashMap
  imports Prelude
begin

text \<open>
  \<open>AtomicHashMap\<close> of \<open>src/atomic/hashmap.rs\<close>: shards chosen by the top bits of the hash, each
  with a vector of slots chosen by the hash modulo the capacity, each slot with a chain of
  entries. Every operation holds the lock of its slot from the first load of the chain to
  the last store, so an operation is one function on the map; \<open>try_detach\<close>, which must hold
  all locks of a shard, is given what it finds at each of them.

  The hash builder is supplied by the user of the map: it is the parameter \<open>h\<close>, a function
  from keys to 64-bit hashes. Nothing is assumed of it; in particular it may collide.
\<close>

record ('k, 'v) entry =
  ekey :: 'k
  evalue :: 'v
  ehash :: u64

type_synonym ('k, 'v) chain = "('k, 'v) entry list"

record ('k, 'v) shard =
  sslots :: "('k, 'v) chain list"
  scapacity :: usize
  scount :: usize

record ('k, 'v) hashmap =
  shift :: nat
  shards :: "('k, 'v) shard list"

definition DEFAULT_SHARD_AMOUNT :: usize where
  "DEFAULT_SHARD_AMOUNT = 64"

definition entry_new :: "'k \<Rightarrow> 'v \<Rightarrow> u64 \<Rightarrow> ('k, 'v) entry" where
  "entry_new key value hash = \<lparr>ekey = key, evalue = value, ehash = hash\<rparr>"

definition shard_new :: "usize \<Rightarrow> ('k, 'v) shard" where
  "shard_new capacity = \<lparr>sslots = replicate (unat capacity) [], scapacity = capacity, scount = 0\<rparr>"

section \<open>Chains\<close>

text \<open>The search loop: an entry matches when both its hash and its key agree.\<close>

definition entry_matches :: "u64 \<Rightarrow> 'k \<Rightarrow> ('k, 'v) entry \<Rightarrow> bool" where
  "entry_matches hash key e \<longleftrightarrow> ehash e = hash \<and> ekey e = key"

fun chain_find :: "u64 \<Rightarrow> 'k \<Rightarrow> ('k, 'v) chain \<Rightarrow> 'v option" where
  "chain_find hash key [] = None"
| "chain_find hash key (e # es) = (if entry_matches hash key e then Some (evalue e) else chain_find hash key es)"

fun chain_replace :: "u64 \<Rightarrow> 'k \<Rightarrow> 'v \<Rightarrow> ('k, 'v) chain \<Rightarrow> ('v \<times> ('k, 'v) chain) option" where
  "chain_replace hash key v [] = None"
| "chain_replace hash key v (e # es) =
     (if entry_matches hash key e then Some (evalue e, e\<lparr>evalue := v\<rparr> # es)
      else case chain_replace hash key v es of None \<Rightarrow> None | Some (old, es') \<Rightarrow> Some (old, e # es'))"

fun chain_unlink :: "u64 \<Rightarrow> 'k \<Rightarrow> ('k, 'v) chain \<Rightarrow> ('v \<times> ('k, 'v) chain) option" where
  "chain_unlink hash key [] = None"
| "chain_unlink hash key (e # es) =
     (if entry_matches hash key e then Some (evalue e, es)
      else case chain_unlink hash key es of None \<Rightarrow> None | Some (old, es') \<Rightarrow> Some (old, e # es'))"

section \<open>Shards\<close>

definition get_slot :: "('k, 'v) shard \<Rightarrow> u64 \<Rightarrow> nat" where
  "get_slot sh hash = unat (hash mod scapacity sh)"

abbreviation (input) slot_chain :: "('k, 'v) shard \<Rightarrow> u64 \<Rightarrow> ('k, 'v) chain" where
  "slot_chain sh hash \<equiv> sslots sh ! get_slot sh hash"

definition shard_insert :: "('k, 'v) shard \<Rightarrow> 'k \<Rightarrow> 'v \<Rightarrow> u64 \<Rightarrow> 'v option \<times> ('k, 'v) shard" where
  "shard_insert sh key value hash =
     (let i = get_slot sh hash; c = sslots sh ! i in
      case chain_replace hash key value c of
        Some (old, c') \<Rightarrow> (Some old, sh\<lparr>sslots := (sslots sh)[i := c']\<rparr>)
      | None \<Rightarrow> (None, sh\<lparr>sslots := (sslots sh)[i := entry_new key value hash # c], scount := scount sh + 1\<rparr>))"

definition shard_remove :: "('k, 'v) shard \<Rightarrow> u64 \<Rightarrow> 'k \<Rightarrow> 'v option \<times> ('k, 'v) shard" where
  "shard_remove sh hash key =
     (let i = get_slot sh hash in
      case chain_unlink hash key (sslots sh ! i) of
        Some (old, c') \<Rightarrow> (Some old, sh\<lparr>sslots := (sslots sh)[i := c'], scount := scount sh - 1\<rparr>)
      | None \<Rightarrow> (None, sh))"

definition shard_contains :: "('k, 'v) shard \<Rightarrow> u64 \<Rightarrow> 'k \<Rightarrow> bool" where
  "shard_contains sh hash key = (chain_find hash key (slot_chain sh hash) \<noteq> None)"

text \<open>
  What \<open>try_write_guard\<close> finds at a slot, and the outcomes of \<open>try_detach\<close>: it gives up at
  the first slot held by another thread and panics at one held by the caller.
\<close>

datatype lock_view = Available | HeldByOther | HeldBySelf

datatype ('k, 'v) detach = Busy | Reentrant | Detached "('k, 'v) chain list" "('k, 'v) shard"

fun all_guards :: "lock_view list \<Rightarrow> bool option" where
  "all_guards [] = Some True"
| "all_guards (Available # vs) = all_guards vs"
| "all_guards (HeldByOther # vs) = Some False"
| "all_guards (HeldBySelf # vs) = None"

definition try_detach :: "lock_view list \<Rightarrow> ('k, 'v) shard \<Rightarrow> ('k, 'v) detach" where
  "try_detach views sh =
     (case all_guards views of
        None \<Rightarrow> Reentrant
      | Some False \<Rightarrow> Busy
      | Some True \<Rightarrow>
          Detached (sslots sh)
            (sh\<lparr>sslots := map (\<lambda>_. []) (sslots sh),
                scount := foldl (\<lambda>n c. n - of_nat (length c)) (scount sh) (sslots sh)\<rparr>))"

section \<open>The map\<close>

datatype map_error = ShardAmountTooSmall | ShardAmountNotPowerOfTwo | CapacityOverflow

definition round_capacity :: "usize \<Rightarrow> usize \<Rightarrow> usize option" where
  "round_capacity capacity shard_amount =
     (if capacity \<noteq> 0 then
        (case checked_add capacity (shard_amount - 1) of
           None \<Rightarrow> None
         | Some c \<Rightarrow> Some (c AND NOT (shard_amount - 1)))
      else Some capacity)"

definition with_capacity_and_shard_amount :: "usize \<Rightarrow> usize \<Rightarrow> map_error + ('k, 'v) hashmap" where
  "with_capacity_and_shard_amount capacity shard_amount =
     (if \<not> 1 < shard_amount then Inl ShardAmountTooSmall
      else if \<not> is_power_of_two (unat shard_amount) then Inl ShardAmountNotPowerOfTwo
      else case round_capacity capacity shard_amount of
             None \<Rightarrow> Inl CapacityOverflow
           | Some c \<Rightarrow>
               Inr \<lparr>shift = 64 - trailing_zeros (unat shard_amount),
                    shards = replicate (unat shard_amount)
                      (shard_new (if c = 0 then 16 else c div shard_amount))\<rparr>)"

definition hashmap_with_capacity :: "usize \<Rightarrow> map_error + ('k, 'v) hashmap" where
  "hashmap_with_capacity capacity = with_capacity_and_shard_amount capacity DEFAULT_SHARD_AMOUNT"

definition hashmap_new :: "map_error + ('k, 'v) hashmap" where
  "hashmap_new = hashmap_with_capacity 0"

definition with_shard_amount :: "usize \<Rightarrow> map_error + ('k, 'v) hashmap" where
  "with_shard_amount shard_amount = with_capacity_and_shard_amount 0 shard_amount"

definition determine_shard :: "('k, 'v) hashmap \<Rightarrow> u64 \<Rightarrow> nat" where
  "determine_shard m hash = unat (drop_bit (shift m) (push_bit 7 hash))"

definition on_shard :: "('k, 'v) hashmap \<Rightarrow> nat \<Rightarrow> 'r \<times> ('k, 'v) shard \<Rightarrow> 'r \<times> ('k, 'v) hashmap" where
  "on_shard m i x = (fst x, m\<lparr>shards := (shards m)[i := snd x]\<rparr>)"

definition map_insert :: "('k \<Rightarrow> u64) \<Rightarrow> ('k, 'v) hashmap \<Rightarrow> 'k \<Rightarrow> 'v \<Rightarrow> 'v option \<times> ('k, 'v) hashmap" where
  "map_insert h m key value =
     (let hash = h key; idx = determine_shard m hash
      in on_shard m idx (shard_insert (shards m ! idx) key value hash))"

definition map_get :: "('k \<Rightarrow> u64) \<Rightarrow> ('k, 'v) hashmap \<Rightarrow> 'k \<Rightarrow> 'v option" where
  "map_get h m key =
     (let hash = h key; shard = shards m ! determine_shard m hash
      in chain_find hash key (slot_chain shard hash))"

definition map_with :: "('k \<Rightarrow> u64) \<Rightarrow> ('k, 'v) hashmap \<Rightarrow> 'k \<Rightarrow> ('v \<Rightarrow> 'r) \<Rightarrow> 'r option" where
  "map_with h m key f = map_option f (map_get h m key)"

text \<open>
  \<open>get_mut\<close> hands out the value under the write guard of the slot; \<open>with_mut\<close> applies a
  function to it, which may replace the value and returns a result.
\<close>

definition map_with_mut ::
  "('k \<Rightarrow> u64) \<Rightarrow> ('k, 'v) hashmap \<Rightarrow> 'k \<Rightarrow> ('v \<Rightarrow> 'r \<times> 'v) \<Rightarrow> 'r option \<times> ('k, 'v) hashmap" where
  "map_with_mut h m key f =
     (let hash = h key; idx = determine_shard m hash; shard = shards m ! idx; i = get_slot shard hash in
      case chain_find hash key (sslots shard ! i) of
        None \<Rightarrow> (None, m)
      | Some v \<Rightarrow>
          (case chain_replace hash key (snd (f v)) (sslots shard ! i) of
             None \<Rightarrow> (None, m)
           | Some (_, c') \<Rightarrow> on_shard m idx (Some (fst (f v)), shard\<lparr>sslots := (sslots shard)[i := c']\<rparr>)))"

definition map_remove :: "('k \<Rightarrow> u64) \<Rightarrow> ('k, 'v) hashmap \<Rightarrow> 'k \<Rightarrow> 'v option \<times> ('k, 'v) hashmap" where
  "map_remove h m key =
     (let hash = h key; idx = determine_shard m hash
      in on_shard m idx (shard_remove (shards m ! idx) hash key))"

definition contains_key :: "('k \<Rightarrow> u64) \<Rightarrow> ('k, 'v) hashmap \<Rightarrow> 'k \<Rightarrow> bool" where
  "contains_key h m key =
     (let hash = h key in shard_contains (shards m ! determine_shard m hash) hash key)"

text \<open>
  \<open>clear\<close> of one shard: it tries until it holds every lock. Each attempt comes with what the
  caller finds at the slots, the shard lock itself being free or taken; in both cases a
  slot held by the caller is a panic. The result is \<open>None\<close> when the attempts are used up.
\<close>

datatype attempt = ShardOpen "lock_view list" | ShardTaken "lock_view list"

fun clear_shard :: "attempt list \<Rightarrow> ('k, 'v) shard \<Rightarrow> (unit + ('k, 'v) shard) option" where
  "clear_shard [] sh = None"
| "clear_shard (ShardTaken views # att) sh =
     (if HeldBySelf \<in> set views then Some (Inl ()) else clear_shard att sh)"
| "clear_shard (ShardOpen views # att) sh =
     (case try_detach views sh of
        Busy \<Rightarrow> clear_shard att sh
      | Reentrant \<Rightarrow> Some (Inl ())
      | Detached cs sh' \<Rightarrow> Some (Inr sh'))"

definition map_clear :: "('k, 'v) hashmap \<Rightarrow> ('k, 'v) hashmap" where
  "map_clear m =
     m\<lparr>shards := map (\<lambda>sh. case clear_shard [ShardOpen (map (\<lambda>_. Available) (sslots sh))] sh of
                             Some (Inr sh') \<Rightarrow> sh' | _ \<Rightarrow> sh) (shards m)\<rparr>"

definition as_vec :: "('k, 'v) hashmap \<Rightarrow> ('k \<times> 'v) list" where
  "as_vec m = concat (map (\<lambda>sh. concat (map (map (\<lambda>e. (ekey e, evalue e))) (sslots sh))) (shards m))"

definition map_len :: "('k, 'v) hashmap \<Rightarrow> usize" where
  "map_len m = sum_list (map scount (shards m))"

definition map_is_empty :: "('k, 'v) hashmap \<Rightarrow> bool" where
  "map_is_empty m \<longleftrightarrow> map_len m = 0"

definition map_capacity :: "('k, 'v) hashmap \<Rightarrow> usize" where
  "map_capacity m = sum_list (map scapacity (shards m))"

end
