(* ===== verification/Refinement.thy ===== *)
theory Refinement
  imports Prelude
begin

text \<open>
  Functional refinement of a container: an operation on the concrete state and the
  operation of its specification give the same answer, and the abstraction function
  commutes with both. The locale proves once that whole sequences of operations agree.
\<close>

fun run_all :: "('s \<Rightarrow> 'op \<Rightarrow> 'r \<times> 's) \<Rightarrow> 's \<Rightarrow> 'op list \<Rightarrow> 'r list \<times> 's" where
  "run_all f s [] = ([], s)"
| "run_all f s (x # xs) =
     (let (r, t) = f s x; (rs, u) = run_all f t xs in (r # rs, u))"

locale data_refinement =
  fixes conc :: "'s \<Rightarrow> 'op \<Rightarrow> 'r \<times> 's"
    and spec :: "'a \<Rightarrow> 'op \<Rightarrow> 'r \<times> 'a"
    and abst :: "'s \<Rightarrow> 'a"
    and wf :: "'s \<Rightarrow> bool"
  assumes same_answer: "wf s \<Longrightarrow> fst (conc s x) = fst (spec (abst s) x)"
    and commutes: "wf s \<Longrightarrow> abst (snd (conc s x)) = snd (spec (abst s) x)"
    and keeps_wf: "wf s \<Longrightarrow> wf (snd (conc s x))"
begin

lemma run_all_refines:
  "wf s \<Longrightarrow>
   fst (run_all conc s xs) = fst (run_all spec (abst s) xs) \<and>
   abst (snd (run_all conc s xs)) = snd (run_all spec (abst s) xs) \<and>
   wf (snd (run_all conc s xs))"
proof (induction xs arbitrary: s)
  case (Cons x xs)
  from Cons.IH[OF keeps_wf[OF Cons.prems, of x]] same_answer[OF Cons.prems, of x] commutes[OF Cons.prems, of x]
  show ?case by (simp add: case_prod_beta)
qed simp

end

text \<open>The values a stateful initializer (\<open>FnMut() -> T\<close>) produces in \<open>n\<close> calls, and its final state.\<close>

fun produce :: "('c \<Rightarrow> 'a \<times> 'c) \<Rightarrow> nat \<Rightarrow> 'c \<Rightarrow> 'a list \<times> 'c" where
  "produce g 0 c = ([], c)"
| "produce g (Suc n) c = (let (v, c') = g c; (vs, c'') = produce g n c' in (v # vs, c''))"

lemma length_produce [simp]: "length (fst (produce g n c)) = n"
  by (induction n arbitrary: c) (auto simp: case_prod_beta)

lemma produce_upt: "produce (\<lambda>k. (g k, Suc k)) n k = (map g [k..<k + n], k + n)"
  by (induction n arbitrary: k) (auto simp: upt_conv_Cons simp del: upt_Suc)

end
