(* ===== verification/HashMap_Map.thy ===== *)
theory HashMap_Map
  imports HashMap Refinement
begin

text \<open>
  \<open>AtomicHashMap\<close> implements a finite map: \<open>spec_op\<close> gives the calls on a map, and the
  interpretation of \<open>data_refinement\<close> shows that the hash table answers alike. The invariant \<open>map_inv\<close> says that every entry sits in the shard and slot its
  hash selects, that keys are distinct and that the counts are right.
\<close>

section \<open>The specification\<close>

text \<open>The calls a client can make, and what they do to a finite map.\<close>

datatype ('k, 'v) mop =
    Insert 'k 'v | Get 'k | ContainsKey 'k | WithMut 'k "'v \<Rightarrow> 'v" | Remove 'k | Clear | Len | IsEmpty

datatype 'v mres = Value "'v option" | Flag bool | Count usize | Done

fun map_op :: "('k \<Rightarrow> u64) \<Rightarrow> ('k, 'v) hashmap \<Rightarrow> ('k, 'v) mop \<Rightarrow> 'v mres \<times> ('k, 'v) hashmap" where
  "map_op h m (Insert k v) = (let (r, m') = map_insert h m k v in (Value r, m'))"
| "map_op h m (Get k) = (Value (map_get h m k), m)"
| "map_op h m (ContainsKey k) = (Flag (contains_key h m k), m)"
| "map_op h m (WithMut k f) = (let (r, m') = map_with_mut h m k (\<lambda>v. (v, f v)) in (Value r, m'))"
| "map_op h m (Remove k) = (let (r, m') = map_remove h m k in (Value r, m'))"
| "map_op h m Clear = (Done, map_clear m)"
| "map_op h m Len = (Count (map_len m), m)"
| "map_op h m IsEmpty = (Flag (map_is_empty m), m)"

fun spec_op :: "('k \<rightharpoonup> 'v) \<Rightarrow> ('k, 'v) mop \<Rightarrow> 'v mres \<times> ('k \<rightharpoonup> 'v)" where
  "spec_op M (Insert k v) = (Value (M k), M(k \<mapsto> v))"
| "spec_op M (Get k) = (Value (M k), M)"
| "spec_op M (ContainsKey k) = (Flag (M k \<noteq> None), M)"
| "spec_op M (WithMut k f) = (Value (M k), M(k := map_option f (M k)))"
| "spec_op M (Remove k) = (Value (M k), M(k := None))"
| "spec_op M Clear = (Done, Map.empty)"
| "spec_op M Len = (Count (of_nat (card (dom M))), M)"
| "spec_op M IsEmpty = (Flag (of_nat (card (dom M)) = (0 :: usize)), M)"

section \<open>Chains\<close>

definition keys_hashed :: "('k \<Rightarrow> u64) \<Rightarrow> ('k, 'v) chain \<Rightarrow> bool" where
  "keys_hashed h c \<longleftrightarrow> (\<forall>e \<in> set c. ehash e = h (ekey e)) \<and> distinct (map ekey c)"

lemma matches_iff: "ehash e = h (ekey e) \<Longrightarrow> entry_matches (h k) k e \<longleftrightarrow> ekey e = k"
  by (auto simp: entry_matches_def)

lemma keys_hashed_simps [simp]:
  "keys_hashed h []"
  "keys_hashed h (e # c) \<longleftrightarrow> ehash e = h (ekey e) \<and> ekey e \<notin> ekey ` set c \<and> keys_hashed h c"
  by (auto simp: keys_hashed_def)

lemma chain_find_map_of:
  "keys_hashed h c \<Longrightarrow> chain_find (h k) k c = map_of (map (\<lambda>e. (ekey e, evalue e)) c) k"
  by (induction c) (auto simp: matches_iff)

lemma chain_find_key: "keys_hashed h c \<Longrightarrow> chain_find (h k) k c = Some v \<Longrightarrow> k \<in> ekey ` set c"
  by (induction c) (auto simp: matches_iff split: if_splits)

lemma chain_find_None: "keys_hashed h c \<Longrightarrow> chain_find (h k) k c = None \<longleftrightarrow> k \<notin> ekey ` set c"
  by (induction c) (auto simp: matches_iff)

lemma chain_replace_Some:
  assumes "keys_hashed h c" "chain_replace (h k) k v c = Some (old, c')"
  shows "chain_find (h k) k c = Some old \<and> keys_hashed h c' \<and> map ekey c' = map ekey c \<and>
    (\<forall>k'. chain_find (h k') k' c' = (if k' = k then Some v else chain_find (h k') k' c))"
  using assms
proof (induction c arbitrary: c')
  case (Cons e c)
  show ?case
  proof (cases "ekey e = k")
    case True
    with Cons.prems show ?thesis by (auto simp: matches_iff entry_matches_def)
  next
    case False
    with Cons.prems obtain c'' where r: "chain_replace (h k) k v c = Some (old, c'')" "c' = e # c''"
      by (auto simp: matches_iff split: option.splits)
    have "keys_hashed h c" using Cons.prems(1) by simp
    note ih = Cons.IH[OF this r(1)]
    have "ekey ` set c'' = ekey ` set c" using ih by (metis list.set_map)
    with ih r(2) False Cons.prems(1) show ?thesis by (auto simp: matches_iff)
  qed
qed simp

lemma chain_replace_None:
  "keys_hashed h c \<Longrightarrow> chain_replace (h k) k v c = None \<longleftrightarrow> chain_find (h k) k c = None"
  by (induction c) (auto simp: matches_iff split: option.splits)

lemma chain_unlink_Some:
  assumes "keys_hashed h c" "chain_unlink (h k) k c = Some (old, c')"
  shows "chain_find (h k) k c = Some old \<and> keys_hashed h c' \<and> length c = Suc (length c') \<and> set c' \<subseteq> set c \<and>
    (\<forall>k'. chain_find (h k') k' c' = (if k' = k then None else chain_find (h k') k' c))"
  using assms
proof (induction c arbitrary: c')
  case (Cons e c)
  show ?case
  proof (cases "ekey e = k")
    case True
    with Cons.prems chain_find_None[of h c k] show ?thesis by (auto simp: matches_iff)
  next
    case False
    with Cons.prems obtain c'' where r: "chain_unlink (h k) k c = Some (old, c'')" "c' = e # c''"
      by (auto simp: matches_iff split: option.splits)
    have "keys_hashed h c" using Cons.prems(1) by simp
    note ih = Cons.IH[OF this r(1)]
    with r(2) False Cons.prems(1) show ?thesis by (auto simp: matches_iff)
  qed
qed simp

lemma chain_unlink_None:
  "keys_hashed h c \<Longrightarrow> chain_unlink (h k) k c = None \<longleftrightarrow> chain_find (h k) k c = None"
  by (induction c) (auto simp: matches_iff split: option.splits)

section \<open>The invariant\<close>

definition shard_ok :: "('k \<Rightarrow> u64) \<Rightarrow> (u64 \<Rightarrow> nat) \<Rightarrow> nat \<Rightarrow> ('k, 'v) shard \<Rightarrow> bool" where
  "shard_ok h d i sh \<longleftrightarrow>
     scapacity sh \<noteq> 0 \<and> length (sslots sh) = unat (scapacity sh) \<and>
     (\<forall>j<length (sslots sh). keys_hashed h (sslots sh ! j) \<and>
        (\<forall>e \<in> set (sslots sh ! j). get_slot sh (ehash e) = j \<and> d (ehash e) = i)) \<and>
     scount sh = of_nat (sum_list (map length (sslots sh)))"

definition map_inv :: "('k \<Rightarrow> u64) \<Rightarrow> ('k, 'v) hashmap \<Rightarrow> bool" where
  "map_inv h m \<longleftrightarrow>
     0 < shift m \<and> shift m < 64 \<and> length (shards m) = 2 ^ (64 - shift m) \<and>
     (\<forall>i<length (shards m). shard_ok h (determine_shard m) i (shards m ! i))"

lemma get_slot_less: "shard_ok h d i sh \<Longrightarrow> get_slot sh x < length (sslots sh)"
  by (simp add: shard_ok_def get_slot_def unat_mod_distrib unat_gt_0)

lemma get_slot_upd [simp]:
  "get_slot (sh\<lparr>sslots := x\<rparr>) = get_slot sh" "get_slot (sh\<lparr>scount := y\<rparr>) = get_slot sh"
  by (simp_all add: get_slot_def fun_eq_iff)

lemma determine_shard_upd [simp]: "determine_shard (m\<lparr>shards := x\<rparr>) = determine_shard m"
  by (simp add: determine_shard_def fun_eq_iff)

lemma determine_shard_less:
  assumes "0 < shift m" "shift m < 64"
  shows "determine_shard m x < 2 ^ (64 - shift m)"
proof -
  have "unat (push_bit 7 x) < 2 ^ 64" using unsigned_less[of "push_bit 7 x", where ?'a = nat] by simp
  also have "(2::nat) ^ 64 = 2 ^ (64 - shift m) * 2 ^ shift m" using assms by (simp flip: power_add)
  finally show ?thesis
    by (simp add: determine_shard_def unat_drop_bit_word div_less_iff_less_mult)
qed

text \<open>The map with one chain exchanged, the one that \<open>k\<close> selects.\<close>

definition home :: "('k \<Rightarrow> u64) \<Rightarrow> ('k, 'v) hashmap \<Rightarrow> 'k \<Rightarrow> ('k, 'v) chain" where
  "home h m k = (let sh = shards m ! determine_shard m (h k) in slot_chain sh (h k))"

definition put_chain :: "('k \<Rightarrow> u64) \<Rightarrow> ('k, 'v) hashmap \<Rightarrow> 'k \<Rightarrow> ('k, 'v) chain \<Rightarrow> usize \<Rightarrow> ('k, 'v) hashmap" where
  "put_chain h m k c n =
     (let i = determine_shard m (h k); sh = shards m ! i
      in m\<lparr>shards := (shards m)[i := sh\<lparr>sslots := (sslots sh)[get_slot sh (h k) := c], scount := n\<rparr>]\<rparr>)"

lemma map_get_home: "map_get h m k = chain_find (h k) k (home h m k)"
  by (simp add: map_get_def home_def Let_def)

lemma home_hashed:
  assumes "map_inv h m"
  shows "keys_hashed h (home h m k)"
proof -
  let ?i = "determine_shard m (h k)"
  have "?i < length (shards m)" using assms determine_shard_less[of m] by (simp add: map_inv_def)
  then have ok: "shard_ok h (determine_shard m) ?i (shards m ! ?i)" using assms by (simp add: map_inv_def)
  from get_slot_less[OF ok] ok show ?thesis by (simp add: home_def Let_def shard_ok_def)
qed

lemma put_chain_get:
  assumes inv: "map_inv h m" and c: "\<And>k'. chain_find (h k') k' c = (if k' = k then r else chain_find (h k') k' (home h m k))"
  shows "map_get h (put_chain h m k c n) = (map_get h m)(k := r)"
proof
  fix k'
  let ?i = "determine_shard m (h k)" and ?i' = "determine_shard m (h k')" and ?m = "put_chain h m k c n"
  let ?sh = "shards m ! ?i"
  have i: "?i < length (shards m)" using inv determine_shard_less[of m] by (simp add: map_inv_def)
  then have ok: "shard_ok h (determine_shard m) ?i ?sh" using inv by (simp add: map_inv_def)
  note j = get_slot_less[OF ok]
  have d: "determine_shard ?m x = determine_shard m x" for x
    by (simp add: put_chain_def Let_def)
  show "map_get h ?m k' = ((map_get h m)(k := r)) k'"
  proof (cases "?i' = ?i \<and> get_slot ?sh (h k') = get_slot ?sh (h k)")
    case True
    then have eq: "?i' = ?i" "get_slot ?sh (h k') = get_slot ?sh (h k)" by auto
    then have "home h ?m k' = c" "home h m k' = home h m k"
      using i j[of "h k"] by (simp_all add: home_def d) (simp add: put_chain_def Let_def)
    then show ?thesis using c[of k'] by (simp add: map_get_home)
  next
    case False
    then have "home h ?m k' = home h m k'" "k' \<noteq> k"
      using i by (auto simp: home_def d put_chain_def Let_def nth_list_update)
    then show ?thesis by (simp add: map_get_home)
  qed
qed

lemma sum_list_length_update:
  "j < length xs \<Longrightarrow> sum_list (map length (xs[j := c])) + length (xs ! j) = sum_list (map length xs) + length c"
  by (induction xs arbitrary: j) (auto split: nat.split)

lemma put_chain_inv:
  assumes inv: "map_inv h m" and c: "keys_hashed h c" "ekey ` set c \<subseteq> insert k (ekey ` set (home h m k))"
    and n: "n + of_nat (length (home h m k)) = scount (shards m ! determine_shard m (h k)) + of_nat (length c)"
  shows "map_inv h (put_chain h m k c n)"
proof -
  let ?i = "determine_shard m (h k)" and ?m = "put_chain h m k c n"
  let ?sh = "shards m ! ?i"
  let ?j = "get_slot ?sh (h k)"
  let ?sh' = "?sh\<lparr>sslots := (sslots ?sh)[?j := c], scount := n\<rparr>"
  have i: "?i < length (shards m)" using inv determine_shard_less[of m] by (simp add: map_inv_def)
  then have ok: "shard_ok h (determine_shard m) ?i ?sh" using inv by (simp add: map_inv_def)
  note j = get_slot_less[OF ok, of "h k"]
  have home: "home h m k = sslots ?sh ! ?j" by (simp add: home_def Let_def)
  have d: "determine_shard ?m = determine_shard m"
    by (simp add: determine_shard_def put_chain_def Let_def fun_eq_iff)
  have placed: "get_slot ?sh (ehash e) = ?j \<and> determine_shard m (ehash e) = ?i" if "e \<in> set c" for e
  proof -
    have e: "ehash e = h (ekey e)" using c(1) that by (simp add: keys_hashed_def)
    have "ekey e = k \<or> (\<exists>e' \<in> set (home h m k). ekey e' = ekey e)"
      using c(2) imageI[OF that, of ekey] by auto
    then show ?thesis
    proof
      assume "\<exists>e' \<in> set (home h m k). ekey e' = ekey e"
      then obtain e' where e': "e' \<in> set (sslots ?sh ! ?j)" "ekey e' = ekey e" using home by auto
      have slot: "keys_hashed h (sslots ?sh ! ?j)"
        "\<forall>e \<in> set (sslots ?sh ! ?j). get_slot ?sh (ehash e) = ?j \<and> determine_shard m (ehash e) = ?i"
        using ok j unfolding shard_ok_def by blast+
      then have "ehash e' = h (ekey e')" "get_slot ?sh (ehash e') = ?j" "determine_shard m (ehash e') = ?i"
        using e'(1) by (simp_all add: keys_hashed_def)
      with e e'(2) show ?thesis by simp
    qed (use e in simp)
  qed
  have sum: "of_nat (sum_list (map length ((sslots ?sh)[?j := c]))) + of_nat (length (home h m k)) =
      scount ?sh + (of_nat (length c) :: usize)"
    using arg_cong[OF sum_list_length_update[OF j, of c], of "of_nat :: nat \<Rightarrow> usize"] ok home
    by (simp add: shard_ok_def)
  have count: "n = of_nat (sum_list (map length ((sslots ?sh)[?j := c])))"
    by (rule add_right_imp_eq[of _ "of_nat (length (home h m k))"]) (simp only: n sum)
  have slots: "keys_hashed h (((sslots ?sh)[?j := c]) ! a) \<and>
      (\<forall>e \<in> set (((sslots ?sh)[?j := c]) ! a). get_slot ?sh (ehash e) = a \<and> determine_shard m (ehash e) = ?i)"
    if "a < length (sslots ?sh)" for a
    using that ok c(1) placed by (cases "a = ?j") (simp_all add: shard_ok_def)
  have "shard_ok h (determine_shard m) ?i ?sh'"
    using ok slots count by (simp add: shard_ok_def get_slot_def)
  then show ?thesis
    using inv i unfolding map_inv_def d by (auto simp: put_chain_def Let_def nth_list_update)
qed

section \<open>The operations\<close>

abbreviation (input) home_count :: "('k \<Rightarrow> u64) \<Rightarrow> ('k, 'v) hashmap \<Rightarrow> 'k \<Rightarrow> usize" where
  "home_count h m k \<equiv> scount (shards m ! determine_shard m (h k))"

lemma map_insert_chain:
  "map_insert h m k v =
     (case chain_replace (h k) k v (home h m k) of
        Some (old, c) \<Rightarrow> (Some old, put_chain h m k c (home_count h m k))
      | None \<Rightarrow> (None, put_chain h m k (entry_new k v (h k) # home h m k) (home_count h m k + 1)))"
  by (simp add: map_insert_def shard_insert_def on_shard_def put_chain_def home_def Let_def split: option.splits prod.splits)

lemma map_remove_chain:
  "map_remove h m k =
     (case chain_unlink (h k) k (home h m k) of
        Some (old, c) \<Rightarrow> (Some old, put_chain h m k c (home_count h m k - 1))
      | None \<Rightarrow> (None, m))"
  by (simp add: map_remove_def shard_remove_def on_shard_def put_chain_def home_def Let_def split: option.splits prod.splits)

lemma map_with_mut_chain:
  "map_with_mut h m k f =
     (case map_get h m k of
        None \<Rightarrow> (None, m)
      | Some v \<Rightarrow>
          (case chain_replace (h k) k (snd (f v)) (home h m k) of
             None \<Rightarrow> (None, m)
           | Some (_, c) \<Rightarrow> (Some (fst (f v)), put_chain h m k c (home_count h m k))))"
  by (simp add: map_with_mut_def on_shard_def put_chain_def home_def map_get_def Let_def split: option.splits prod.splits)

lemma insert_law:
  assumes inv: "map_inv h m"
  shows "fst (map_insert h m k v) = map_get h m k \<and>
    map_get h (snd (map_insert h m k v)) = (map_get h m)(k \<mapsto> v) \<and> map_inv h (snd (map_insert h m k v))"
proof -
  note hh = home_hashed[OF inv, of k]
  show ?thesis
  proof (cases "chain_replace (h k) k v (home h m k)")
    case None
    let ?c = "entry_new k v (h k) # home h m k"
    have no: "map_get h m k = None" using None chain_replace_None[OF hh] by (simp add: map_get_home)
    have "keys_hashed h ?c" using hh no chain_find_None[OF hh, of k] by (simp add: entry_new_def map_get_home)
    moreover have "chain_find (h k') k' ?c = (if k' = k then Some v else chain_find (h k') k' (home h m k))" for k'
      by (auto simp: entry_new_def entry_matches_def)
    ultimately show ?thesis
      using None no inv put_chain_get[OF inv, of ?c k "Some v"] put_chain_inv[OF inv, of ?c k]
      by (simp add: map_insert_chain entry_new_def)
  next
    case (Some x)
    obtain old c where x: "x = (old, c)" by (cases x)
    note r = chain_replace_Some[OF hh Some[unfolded x]]
    have "length c = length (home h m k)" "ekey ` set c = ekey ` set (home h m k)"
      using r by (metis length_map, metis list.set_map)
    then show ?thesis
      using Some x r inv put_chain_get[OF inv, of c k "Some v"] put_chain_inv[OF inv, of c k]
      by (simp add: map_insert_chain map_get_home subset_insertI)
  qed
qed

lemma remove_law:
  assumes inv: "map_inv h m"
  shows "fst (map_remove h m k) = map_get h m k \<and>
    map_get h (snd (map_remove h m k)) = (map_get h m)(k := None) \<and> map_inv h (snd (map_remove h m k))"
proof -
  note hh = home_hashed[OF inv, of k]
  show ?thesis
  proof (cases "chain_unlink (h k) k (home h m k)")
    case None
    then have "map_get h m k = None" using chain_unlink_None[OF hh] by (simp add: map_get_home)
    with None inv show ?thesis by (auto simp: map_remove_chain)
  next
    case (Some x)
    obtain old c where x: "x = (old, c)" by (cases x)
    note r = chain_unlink_Some[OF hh Some[unfolded x]]
    then show ?thesis
      using Some x inv put_chain_get[OF inv, of c k None] put_chain_inv[OF inv, of c k "home_count h m k - 1"]
      by (auto simp: map_remove_chain map_get_home)
  qed
qed

lemma with_mut_law:
  assumes inv: "map_inv h m"
  shows "fst (map_with_mut h m k f) = map_option (\<lambda>v. fst (f v)) (map_get h m k) \<and>
    map_get h (snd (map_with_mut h m k f)) = (map_get h m)(k := map_option (\<lambda>v. snd (f v)) (map_get h m k)) \<and>
    map_inv h (snd (map_with_mut h m k f))"
proof -
  note hh = home_hashed[OF inv, of k]
  show ?thesis
  proof (cases "map_get h m k")
    case None
    with inv show ?thesis by (auto simp: map_with_mut_chain)
  next
    case (Some v)
    then obtain old c where x: "chain_replace (h k) k (snd (f v)) (home h m k) = Some (old, c)"
      using chain_replace_None[OF hh, of k "snd (f v)"] by (fastforce simp: map_get_home)
    note r = chain_replace_Some[OF hh x]
    have "length c = length (home h m k)" "ekey ` set c = ekey ` set (home h m k)"
      using r by (metis length_map, metis list.set_map)
    then show ?thesis
      using Some x r inv put_chain_get[OF inv, of c k "Some (snd (f v))"] put_chain_inv[OF inv, of c k]
      by (simp add: map_with_mut_chain subset_insertI)
  qed
qed

section \<open>Enumeration\<close>

lemma distinct_concat_class:
  assumes "\<And>i. i < length xss \<Longrightarrow> distinct (xss ! i) \<and> (\<forall>x \<in> set (xss ! i). f x = i)"
  shows "distinct (concat xss)"
  using assms
proof (induction xss rule: rev_induct)
  case (snoc xs xss)
  have "distinct (concat xss)"
    using snoc.prems by (intro snoc.IH) (metis length_append_singleton less_SucI nth_append)
  moreover have "set (concat xss) \<inter> set xs = {}"
  proof -
    have "f x < length xss" if "x \<in> set (concat xss)" for x
      using that snoc.prems by (auto simp: in_set_conv_nth) (metis length_append_singleton less_SucI nth_append nth_mem)
    moreover have "f x = length xss" if "x \<in> set xs" for x
      using that snoc.prems[of "length xss"] by (simp add: nth_append)
    ultimately show ?thesis by fastforce
  qed
  moreover have "distinct xs" using snoc.prems[of "length xss"] by (simp add: nth_append)
  ultimately show ?case by auto
qed simp

definition shard_keys :: "('k, 'v) shard \<Rightarrow> 'k list" where
  "shard_keys sh = concat (map (map ekey) (sslots sh))"

lemma keys_as_vec: "map fst (as_vec m) = concat (map shard_keys (shards m))"
  by (simp add: as_vec_def shard_keys_def[abs_def] map_concat comp_def)

lemma shard_keys_distinct:
  assumes "shard_ok h d i sh"
  shows "distinct (shard_keys sh)"
  unfolding shard_keys_def
proof (rule distinct_concat_class[where f = "\<lambda>k. get_slot sh (h k)"])
  fix j assume "j < length (map (map ekey) (sslots sh))"
  then have "j < length (sslots sh)" by simp
  with assms have "keys_hashed h (sslots sh ! j)" "\<forall>e \<in> set (sslots sh ! j). get_slot sh (ehash e) = j"
    by (simp_all add: shard_ok_def)
  with \<open>j < length (sslots sh)\<close> show "distinct (map (map ekey) (sslots sh) ! j) \<and>
      (\<forall>x\<in>set (map (map ekey) (sslots sh) ! j). get_slot sh (h x) = j)"
    by (simp add: keys_hashed_def)
qed

lemma shard_keys_shard:
  assumes "shard_ok h d i sh" "k \<in> set (shard_keys sh)"
  shows "d (h k) = i"
proof -
  obtain c e where c: "c \<in> set (sslots sh)" "e \<in> set c" "ekey e = k"
    using assms(2) by (auto simp: shard_keys_def)
  then obtain j where j: "j < length (sslots sh)" "e \<in> set (sslots sh ! j)" "ekey e = k"
    by (metis in_set_conv_nth)
  with assms(1) have "keys_hashed h (sslots sh ! j)" "d (ehash e) = i" by (simp_all add: shard_ok_def)
  with j show ?thesis by (auto simp: keys_hashed_def)
qed

lemma as_vec_distinct:
  assumes "map_inv h m"
  shows "distinct (map fst (as_vec m))"
  unfolding keys_as_vec
proof (rule distinct_concat_class[where f = "\<lambda>k. determine_shard m (h k)"])
  fix i assume "i < length (map shard_keys (shards m))"
  then have i: "i < length (shards m)" by simp
  with assms have "shard_ok h (determine_shard m) i (shards m ! i)" by (simp add: map_inv_def)
  with i show "distinct (map shard_keys (shards m) ! i) \<and>
      (\<forall>k\<in>set (map shard_keys (shards m) ! i). determine_shard m (h k) = i)"
    using shard_keys_distinct shard_keys_shard by (metis length_map nth_map)
qed

lemma as_vec_member:
  assumes inv: "map_inv h m"
  shows "(k, v) \<in> set (as_vec m) \<longleftrightarrow> map_get h m k = Some v"
proof
  assume "(k, v) \<in> set (as_vec m)"
  then obtain sh c e where e: "sh \<in> set (shards m)" "c \<in> set (sslots sh)" "e \<in> set c" "ekey e = k" "evalue e = v"
    by (auto simp: as_vec_def)
  obtain i where i1: "i < length (shards m)" "shards m ! i = sh" using e(1) by (auto simp: in_set_conv_nth)
  obtain j where j1: "j < length (sslots sh)" "sslots sh ! j = c" using e(2) by (auto simp: in_set_conv_nth)
  note i = i1(1) j1(1)[folded i1(2)] e(3)[folded j1(2) i1(2)] e(4,5)
  let ?sh = "shards m ! i"
  have ok: "shard_ok h (determine_shard m) i ?sh" using inv i(1) by (simp add: map_inv_def)
  with i have c: "keys_hashed h (sslots ?sh ! j)" "get_slot ?sh (ehash e) = j" "determine_shard m (ehash e) = i"
    by (simp_all add: shard_ok_def)
  then have "ehash e = h k" using i(3,4) by (auto simp: keys_hashed_def)
  with c have home: "home h m k = sslots ?sh ! j" by (simp add: home_def)
  have "distinct (map fst (map (\<lambda>e. (ekey e, evalue e)) (sslots ?sh ! j)))"
    using c(1) by (simp add: keys_hashed_def comp_def)
  moreover have "(k, v) \<in> set (map (\<lambda>e. (ekey e, evalue e)) (sslots ?sh ! j))" using i(3-5) by auto
  ultimately show "map_get h m k = Some v"
    using c(1) home by (simp only: map_get_home chain_find_map_of map_of_eq_Some_iff)
next
  assume g: "map_get h m k = Some v"
  let ?sh = "shards m ! determine_shard m (h k)"
  have i: "determine_shard m (h k) < length (shards m)"
    using inv determine_shard_less[of m] by (simp add: map_inv_def)
  then have ok: "shard_ok h (determine_shard m) (determine_shard m (h k)) ?sh" using inv by (simp add: map_inv_def)
  have "map_of (map (\<lambda>e. (ekey e, evalue e)) (home h m k)) k = Some v"
    using g chain_find_map_of[OF home_hashed[OF inv]] by (simp add: map_get_home)
  then have "(k, v) \<in> (\<lambda>e. (ekey e, evalue e)) ` set (home h m k)" by (auto dest: map_of_SomeD)
  moreover have "home h m k \<in> set (sslots ?sh)" using get_slot_less[OF ok] by (simp add: home_def Let_def)
  moreover have "?sh \<in> set (shards m)" using i by simp
  ultimately show "(k, v) \<in> set (as_vec m)" by (auto simp: as_vec_def)
qed

lemma of_nat_lengths: "of_nat (sum_list (map f xs)) = sum_list (map (\<lambda>x. of_nat (f x)) xs)"
  by (induction xs) auto

lemma map_len_as_vec:
  assumes "map_inv h m"
  shows "map_len m = of_nat (length (as_vec m))"
proof -
  have cnt: "scount sh = of_nat (length (shard_keys sh))" if "sh \<in> set (shards m)" for sh
    using assms that by (auto simp: map_inv_def shard_ok_def in_set_conv_nth shard_keys_def length_concat comp_def)
  have "map_len m = sum_list (map (\<lambda>sh. of_nat (length (shard_keys sh))) (shards m))"
    unfolding map_len_def using cnt by (metis (mono_tags, lifting) map_eq_conv)
  also have "\<dots> = of_nat (length (concat (map shard_keys (shards m))))"
    by (simp add: length_concat comp_def of_nat_lengths)
  also have "\<dots> = of_nat (length (as_vec m))" by (metis keys_as_vec length_map)
  finally show ?thesis .
qed

section \<open>Clearing and construction\<close>

lemma all_guards_available: "all_guards (map (\<lambda>_. Available) xs) = Some True"
  by (induction xs) auto

lemma detached_count: "foldl (\<lambda>n c. n - of_nat (length c)) (of_nat (sum_list (map length cs)) + n) cs = (n :: usize)"
  by (induction cs) (simp_all add: algebra_simps)

lemma map_clear_shards:
  "map_clear m = m\<lparr>shards := map (\<lambda>sh. sh\<lparr>sslots := map (\<lambda>_. []) (sslots sh),
     scount := foldl (\<lambda>n c. n - of_nat (length c)) (scount sh) (sslots sh)\<rparr>) (shards m)\<rparr>"
  by (simp add: map_clear_def try_detach_def all_guards_available)

lemma clear_law:
  assumes inv: "map_inv h m"
  shows "map_get h (map_clear m) = Map.empty \<and> map_inv h (map_clear m)"
proof
  let ?m = "map_clear m"
  have d: "determine_shard ?m = determine_shard m" by (simp add: map_clear_shards)
  have len: "length (shards ?m) = length (shards m)" by (simp add: map_clear_shards)
  have ok: "shard_ok h (determine_shard m) i (shards ?m ! i)" if "i < length (shards m)" for i
  proof -
    have s: "shard_ok h (determine_shard m) i (shards m ! i)" using inv that by (simp add: map_inv_def)
    moreover have "foldl (\<lambda>n c. n - of_nat (length c)) (scount (shards m ! i)) (sslots (shards m ! i)) = 0"
      using s detached_count[where n = 0] by (simp add: shard_ok_def)
    moreover have "sum_list (map length (map (\<lambda>_. []) (sslots (shards m ! i)))) = 0" by (simp add: comp_def)
    ultimately show ?thesis using that by (simp add: map_clear_shards shard_ok_def comp_def)
  qed
  show inv': "map_inv h ?m" using inv ok by (auto simp: map_inv_def d len map_clear_shards)
  show "map_get h ?m = Map.empty"
  proof
    fix k
    let ?i = "determine_shard m (h k)"
    have i: "?i < length (shards m)" using inv determine_shard_less[of m] by (simp add: map_inv_def)
    then have "shard_ok h (determine_shard m) ?i (shards m ! ?i)" using inv by (simp add: map_inv_def)
    from get_slot_less[OF this, of "h k"] i have "home h ?m k = []"
      by (simp add: home_def d) (simp add: map_clear_shards)
    then show "map_get h ?m k = None" by (simp add: map_get_home)
  qed
qed

lemma shards_of_amount:
  fixes n :: usize
  assumes "1 < n" "is_power_of_two (unat n)"
  obtains t where "0 < t" "t < 64" "unat n = 2 ^ t" "trailing_zeros (unat n) = t" "n - 1 = mask t"
proof -
  let ?t = "trailing_zeros (unat n)"
  have n: "unat n = 2 ^ ?t" by (rule is_power_of_twoD[OF assms(2)])
  have "1 < unat n" using assms(1) by (simp add: word_less_nat_alt)
  then have "0 < ?t" using n by (metis One_nat_def gr0I less_irrefl power_0)
  moreover have "(2::nat) ^ ?t < 2 ^ 64" using n unsigned_less[of n, where ?'a = nat] by simp
  then have "?t < 64" by (rule power_less_imp_less_exp[rotated]) simp
  moreover have "n = 2 ^ ?t" by (metis n of_nat_numeral of_nat_power of_nat_unat ucast_id)
  then have "n - 1 = mask ?t" by (metis mask_eq_exp_minus_1)
  ultimately show thesis using that n by blast
qed

lemma shard_new_ok: "capacity \<noteq> 0 \<Longrightarrow> shard_ok h d i (shard_new capacity)"
  by (simp add: shard_ok_def shard_new_def sum_list_replicate)

lemma per_shard_capacity:
  fixes n :: usize
  assumes "unat n = 2 ^ t" "n - 1 = mask t" "t < 64" "capacity \<noteq> 0" "round_capacity capacity n = Some c"
  shows "unat (c div n) = (unat capacity + 2 ^ t - 1) div 2 ^ t" "c \<noteq> 0" "c div n \<noteq> 0"
proof -
  have "n \<noteq> 0" using assms(1) by auto
  then have m: "unat (mask t :: usize) = 2 ^ t - 1" using unat_minus_one[of n] assms(1,2) by simp
  obtain x where x: "checked_add capacity (mask t) = Some x" "c = x AND NOT (mask t)"
    using assms by (auto simp: round_capacity_def split: option.splits)
  have ux: "unat x = unat capacity + 2 ^ t - 1" using unat_checked_add[OF x(1)] m by simp
  have d: "drop_bit t c = drop_bit t x" unfolding x(2) by (rule drop_bit_and_not_mask)
  have "unat (c div n) = unat c div 2 ^ t" by (simp add: unat_div_distrib assms(1))
  also have "\<dots> = unat (drop_bit t c)" by (simp add: unat_drop_bit_word)
  also have "\<dots> = unat x div 2 ^ t" by (simp only: d unat_drop_bit_word)
  finally show q: "unat (c div n) = (unat capacity + 2 ^ t - 1) div 2 ^ t" by (simp only: ux)
  have "0 < unat capacity" using assms(4) by (simp add: unat_gt_0)
  then have "2 ^ t \<le> unat capacity + 2 ^ t - 1" by linarith
  then have "0 < (unat capacity + 2 ^ t - 1) div 2 ^ t" by (simp add: div_greater_zero_iff)
  with q show "c div n \<noteq> 0" by (metis less_irrefl unsigned_0)
  then show "c \<noteq> 0" by auto
qed

lemma new_map_inv:
  assumes "with_capacity_and_shard_amount capacity n = Inr m"
  shows "map_inv h m" "map_get h m = Map.empty"
proof -
  obtain c where n: "1 < n" "is_power_of_two (unat n)" and c: "round_capacity capacity n = Some c"
    and m: "m = \<lparr>shift = 64 - trailing_zeros (unat n),
       shards = replicate (unat n) (shard_new (if c = 0 then 16 else c div n))\<rparr>"
    using assms by (auto simp: with_capacity_and_shard_amount_def split: if_splits option.splits)
  obtain t where t: "0 < t" "t < 64" "unat n = 2 ^ t" "trailing_zeros (unat n) = t" "n - 1 = mask t"
    using shards_of_amount[OF n] .
  let ?c = "if c = 0 then 16 else c div n"
  have "?c \<noteq> 0"
  proof (cases "capacity = 0")
    case True
    with c show ?thesis by (simp add: round_capacity_def)
  next
    case False
    with per_shard_capacity[OF t(3,5,2) False c] show ?thesis by simp
  qed
  then show inv: "map_inv h m"
    using t m by (auto simp: map_inv_def shard_new_ok)
  show "map_get h m = Map.empty"
  proof
    fix k
    have i: "determine_shard m (h k) < length (shards m)"
      using inv determine_shard_less[of m] by (simp add: map_inv_def)
    then have "shard_ok h (determine_shard m) (determine_shard m (h k)) (shards m ! determine_shard m (h k))"
      using inv by (simp add: map_inv_def)
    from get_slot_less[OF this, of "h k"] i have "home h m k = []" unfolding home_def Let_def m
      by (simp add: shard_new_def)
    then show "map_get h m k = None" by (simp add: map_get_home)
  qed
qed

lemma card_dom_as_vec:
  assumes "map_inv h m"
  shows "card (dom (map_get h m)) = length (as_vec m)"
proof -
  have "dom (map_get h m) = fst ` set (as_vec m)"
    using as_vec_member[OF assms] by (force simp: dom_def)
  with as_vec_distinct[OF assms] show ?thesis by (metis distinct_card length_map list.set_map)
qed

lemma contains_law: "contains_key h m k \<longleftrightarrow> map_get h m k \<noteq> None"
  by (simp add: contains_key_def shard_contains_def map_get_def Let_def)

interpretation hash_map: data_refinement "map_op h" spec_op "map_get h" "map_inv h"
  for h :: "'k \<Rightarrow> u64"
proof
  fix m :: "('k, 'v) hashmap" and x :: "('k, 'v) mop"
  assume inv: "map_inv h m"
  note len = map_len_as_vec[OF inv] card_dom_as_vec[OF inv]
  have wm: "fst (map_with_mut h m k (\<lambda>v. (v, f v))) = map_get h m k"
    "map_get h (snd (map_with_mut h m k (\<lambda>v. (v, f v)))) = (map_get h m)(k := map_option f (map_get h m k))"
    "map_inv h (snd (map_with_mut h m k (\<lambda>v. (v, f v))))" for k f
    using with_mut_law[OF inv, of k "\<lambda>v. (v, f v)"] by (simp_all add: option.map_ident)
  show "fst (map_op h m x) = fst (spec_op (map_get h m) x)"
    using insert_law[OF inv] remove_law[OF inv] wm len
    by (cases x) (auto simp: case_prod_beta contains_law map_is_empty_def option.map_ident)
  show "map_get h (snd (map_op h m x)) = snd (spec_op (map_get h m) x)"
    using insert_law[OF inv] remove_law[OF inv] wm clear_law[OF inv]
    by (cases x) (auto simp: case_prod_beta)
  show "map_inv h (snd (map_op h m x))"
    using insert_law[OF inv] remove_law[OF inv] wm clear_law[OF inv] inv
    by (cases x) (auto simp: case_prod_beta)
qed

section \<open>Properties\<close>

text \<open>
  C25: the hash map refines a finite map. For every hash function, every map the constructor
  can build and every sequence of calls, the answers are those of a finite map that starts
  empty, and the final contents agree.
\<close>

theorem hashmap_refines_map:
  assumes "with_capacity_and_shard_amount capacity n = Inr m"
  shows "fst (run_all (map_op h) m xs) = fst (run_all spec_op Map.empty xs) \<and>
         map_get h (snd (run_all (map_op h) m xs)) = snd (run_all spec_op Map.empty xs)"
  using hash_map.run_all_refines[OF new_map_inv(1)[OF assms], of h xs] new_map_inv(2)[OF assms, of h] by simp

text \<open>
  C30: enumeration is faithful. After any sequence of calls \<open>as_vec\<close> lists each key once, with
  the value \<open>get\<close> returns for it, and \<open>len\<close> is the length of that list.
\<close>

theorem hashmap_as_vec:
  assumes "with_capacity_and_shard_amount capacity n = Inr m" "m' = snd (run_all (map_op h) m xs)"
  shows "distinct (map fst (as_vec m')) \<and> map_of (as_vec m') = map_get h m' \<and>
         map_len m' = of_nat (length (as_vec m'))"
proof -
  have inv: "map_inv h m'"
    using hash_map.run_all_refines[OF new_map_inv(1)[OF assms(1)], of h xs] assms(2) by simp
  have "map_of (as_vec m') k = map_get h m' k" for k
    using as_vec_member[OF inv, of k] map_of_eq_Some_iff[OF as_vec_distinct[OF inv], of k]
    by (metis not_None_eq)
  then show ?thesis using as_vec_distinct[OF inv] map_len_as_vec[OF inv] by auto
qed

text \<open>
  The shape of the table. A map the constructor builds has as many shards as asked for,
  every hash selects one of them and an existing slot in it, and the slots of all shards
  together are at least the capacity asked for.
\<close>

theorem hashmap_shape:
  assumes "with_capacity_and_shard_amount capacity n = Inr m"
  shows "length (shards m) = unat n \<and> determine_shard m x < length (shards m) \<and>
         get_slot (shards m ! determine_shard m x) x < length (sslots (shards m ! determine_shard m x)) \<and>
         unat capacity \<le> sum_list (map (\<lambda>sh. length (sslots sh)) (shards m))"
proof -
  have inv: "map_inv (\<lambda>_. 0) m" by (rule new_map_inv(1)[OF assms])
  have d: "determine_shard m x < length (shards m)" using inv determine_shard_less[of m] by (simp add: map_inv_def)
  then have s: "get_slot (shards m ! determine_shard m x) x < length (sslots (shards m ! determine_shard m x))"
    using inv get_slot_less by (fastforce simp: map_inv_def)
  obtain c where n: "1 < n" "is_power_of_two (unat n)" and c: "round_capacity capacity n = Some c"
    and m: "m = \<lparr>shift = 64 - trailing_zeros (unat n),
       shards = replicate (unat n) (shard_new (if c = 0 then 16 else c div n))\<rparr>"
    using assms by (auto simp: with_capacity_and_shard_amount_def split: if_splits option.splits)
  obtain t where t: "0 < t" "t < 64" "unat n = 2 ^ t" "trailing_zeros (unat n) = t" "n - 1 = mask t"
    using shards_of_amount[OF n] .
  have "unat capacity \<le> unat n * unat (c div n)" if "capacity \<noteq> 0"
  proof -
    let ?x = "unat capacity + 2 ^ t - 1"
    have "?x = 2 ^ t * (?x div 2 ^ t) + ?x mod 2 ^ t" by simp
    moreover have "?x mod 2 ^ t < 2 ^ t" by simp
    ultimately have "unat capacity \<le> 2 ^ t * (?x div 2 ^ t)" by linarith
    then show ?thesis using per_shard_capacity(1)[OF t(3,5,2) that c] t(3) by simp
  qed
  moreover have "capacity \<noteq> 0 \<Longrightarrow> c \<noteq> 0" using per_shard_capacity(2)[OF t(3,5,2) _ c] by blast
  ultimately have "unat capacity \<le> sum_list (map (\<lambda>sh. length (sslots sh)) (shards m))"
    using m by (cases "capacity = 0") (auto simp: shard_new_def sum_list_replicate)
  with d s m show ?thesis by simp
qed

lemma all_guards_self: "all_guards vs = None \<Longrightarrow> HeldBySelf \<in> set vs"
  by (induction vs rule: all_guards.induct) auto

lemma detached_shard:
  assumes "shard_ok h d i sh" "try_detach vs sh = Detached cs sh'"
  shows "cs = sslots sh \<and> sslots sh' = map (\<lambda>_. []) (sslots sh) \<and> scount sh' = 0 \<and> scapacity sh' = scapacity sh"
  using assms detached_count[of "sslots sh" 0]
  by (auto simp: try_detach_def shard_ok_def split: option.splits bool.splits)

lemma try_detach_cases:
  "try_detach vs sh = Busy \<longleftrightarrow> all_guards vs = Some False"
  "try_detach vs sh = Reentrant \<longleftrightarrow> all_guards vs = None"
  by (auto simp: try_detach_def split: option.splits bool.splits)

text \<open>
  \<open>clear\<close> never empties a shard in part. Whatever it finds at the locks, an attempt that
  meets a slot held by another thread leaves the shard unchanged and tries again, it panics
  only when the caller holds a slot of the shard, and when it succeeds every chain of the
  shard is detached and the count is zero.
\<close>

theorem clear_shard_atomic:
  assumes "shard_ok h d i sh"
  shows "case clear_shard att sh of
       None \<Rightarrow> list_all (\<lambda>a. case a of ShardOpen vs \<Rightarrow> all_guards vs = Some False | ShardTaken vs \<Rightarrow> HeldBySelf \<notin> set vs) att
     | Some (Inl _) \<Rightarrow> list_ex (\<lambda>a. case a of ShardOpen vs \<Rightarrow> HeldBySelf \<in> set vs | ShardTaken vs \<Rightarrow> HeldBySelf \<in> set vs) att
     | Some (Inr sh') \<Rightarrow> sslots sh' = map (\<lambda>_. []) (sslots sh) \<and> scount sh' = 0 \<and> scapacity sh' = scapacity sh"
    (is "?P att")
proof (induction att)
  case (Cons a att)
  show ?case
  proof (cases a)
    case (ShardTaken vs)
    with Cons show ?thesis by (auto split: option.splits sum.splits)
  next
    case (ShardOpen vs)
    show ?thesis
    proof (cases "try_detach vs sh")
      case Busy
      moreover from this have "all_guards vs = Some False" using try_detach_cases(1)[of vs sh] by blast
      ultimately show ?thesis using ShardOpen Cons by (auto split: option.splits sum.splits)
    next
      case Reentrant
      moreover from this have "HeldBySelf \<in> set vs" using try_detach_cases(2)[of vs sh] all_guards_self by blast
      ultimately show ?thesis using ShardOpen by simp
    next
      case (Detached cs sh')
      with ShardOpen detached_shard[OF assms Detached] show ?thesis by simp
    qed
  qed
qed simp

section \<open>Witnesses\<close>

text \<open>Two shards of one slot each and a hash that sends every key to the same place.\<close>

lemma tiny_map: "\<exists>m :: (nat, nat) hashmap. with_capacity_and_shard_amount 2 2 = Inr m"
proof -
  have "case with_capacity_and_shard_amount 2 2 of Inl e \<Rightarrow> False | Inr (m :: (nat, nat) hashmap) \<Rightarrow> True"
    by code_simp
  then show ?thesis by (auto split: sum.splits)
qed

theorem hashmap_refines_map_witness:
  "\<exists>m :: (nat, nat) hashmap. with_capacity_and_shard_amount 2 2 = Inr m \<and>
     fst (run_all (map_op (\<lambda>_. 7)) m [Insert 1 10, Insert 2 20, Insert 1 11, Remove 2, Get 1, Get 2]) =
       [Value None, Value None, Value (Some 10), Value (Some 20), Value (Some 11), Value None]"
proof -
  obtain m :: "(nat, nat) hashmap" where m: "with_capacity_and_shard_amount 2 2 = Inr m" using tiny_map by blast
  with hashmap_refines_map[OF m, of "\<lambda>_. 7" "[Insert 1 10, Insert 2 20, Insert 1 11, Remove 2, Get 1, Get 2]"]
  show ?thesis by (intro exI[of _ m]) simp
qed

theorem hashmap_as_vec_witness:
  "\<exists>m :: (nat, nat) hashmap. with_capacity_and_shard_amount 2 2 = Inr m \<and>
     map_of (as_vec (snd (run_all (map_op (\<lambda>_. 7)) m [Insert 1 10, Insert 2 20]))) =
       [1 \<mapsto> 10, 2 \<mapsto> 20]"
proof -
  obtain m :: "(nat, nat) hashmap" where m: "with_capacity_and_shard_amount 2 2 = Inr m" using tiny_map by blast
  let ?xs = "[Insert 1 10, Insert 2 20]"
  have "map_get (\<lambda>_. 7) (snd (run_all (map_op (\<lambda>_. 7)) m ?xs)) = [1 \<mapsto> 10, 2 \<mapsto> 20]"
    using hash_map.run_all_refines[OF new_map_inv(1)[OF m], of "\<lambda>_. 7" ?xs] new_map_inv(2)[OF m, of "\<lambda>_. 7"] by simp
  with hashmap_as_vec[OF m refl, of "\<lambda>_. 7" ?xs] m show ?thesis by (intro exI[of _ m]) simp
qed

theorem hashmap_shape_witness:
  "\<exists>m :: (nat, nat) hashmap. with_capacity_and_shard_amount 2 2 = Inr m \<and> determine_shard m (push_bit 56 1) < 2"
proof -
  obtain m :: "(nat, nat) hashmap" where m: "with_capacity_and_shard_amount 2 2 = Inr m" using tiny_map by blast
  with hashmap_shape[OF m, of "push_bit 56 1"] show ?thesis by auto
qed

theorem clear_shard_atomic_witness:
  "\<exists>sh :: (nat, nat) shard.
     clear_shard [ShardTaken [HeldByOther], ShardOpen [HeldByOther], ShardOpen [Available]]
       (snd (shard_insert (shard_new 1) 1 10 7)) = Some (Inr sh) \<and> scount sh = 0 \<and> sslots sh = [[]]"
proof -
  let ?sh = "snd (shard_insert (shard_new 1) 1 10 7) :: (nat, nat) shard"
  let ?att = "[ShardTaken [HeldByOther], ShardOpen [HeldByOther], ShardOpen [Available]]"
  have "shard_ok (\<lambda>_. 7) (\<lambda>_. 0) 0 ?sh"
    by (simp add: shard_ok_def shard_insert_def shard_new_def get_slot_def entry_new_def Let_def)
  from clear_shard_atomic[OF this, of ?att]
  have "case clear_shard ?att ?sh of None \<Rightarrow> False | Some (Inl _) \<Rightarrow> False | Some (Inr sh') \<Rightarrow>
      sslots sh' = [[]] \<and> scount sh' = 0"
    by (simp add: shard_insert_def shard_new_def get_slot_def Let_def split: option.splits sum.splits)
  then show ?thesis by (auto split: option.splits sum.splits)
qed

end
