(* ===== verification/HashMap_Conc.thy ===== *)
theory HashMap_Conc
  imports HashMap RwSpec Refinement
begin

text \<open>
  The operations of \<open>AtomicHashMap\<close> (\<open>src/atomic/hashmap.rs\<close>) run by any number of threads, one step per
  access to shared memory. Entries live in an explicit heap and are linked by pointers; the
  \<open>SerialMutex\<close> of a slot and the \<open>RawMutex\<close> of a shard are their contracts (theories \<open>Serial_Safety\<close> and
  \<open>RawMutex_Safety\<close>): one writer, or the readers of one thread, for a slot; one writer or any readers
  for a shard (theory \<open>HashMap_Conc_Spec\<close> ties the first to the specification \<open>SerialMutex\<close> refines). A guard of \<open>get\<close> or \<open>get_mut\<close> outlives the call and keeps the lock of its slot. A
  blocking call that has to wait leaves the state as it is; a conflicting reentrant access of a
  slot is a panic. An access through a dangling pointer has no successor state.

  Ghost fields: the chain of every slot, the owner of every entry (a slot, or the thread that is
  about to link or free it), the abstract map, and the log of the operations that took effect.
\<close>

type_synonym slot_id = "nat \<times> nat"

record ('k, 'v) node =
  nkey :: 'k
  nvalue :: 'v
  nhash :: u64
  nnext :: "nat option"

text \<open>What is fixed by the constructor: the hash builder, the shift and the sizes.\<close>

record 'k config =
  hc_hash :: "'k \<Rightarrow> u64"
  hc_shift :: nat
  hc_cap :: usize
  hc_shards :: nat

definition slot_of :: "'k config \<Rightarrow> 'k \<Rightarrow> slot_id" where
  "slot_of c k =
     (unat (drop_bit (hc_shift c) (push_bit 7 (hc_hash c k))), unat (hc_hash c k mod hc_cap c))"

section \<open>Locks\<close>

datatype slock = SFree | SReading tid nat | SWriting tid

datatype 'l grant = Got 'l | Wait | Conflict

text \<open>
  What \<open>write_guard\<close> (\<open>wr\<close>) and \<open>read_guard\<close> meet: the owner of the lock may only read again, up to the
  limit of the counter, any other thread waits.
\<close>

fun slot_lock :: "tid \<Rightarrow> bool \<Rightarrow> slock \<Rightarrow> slock grant" where
  "slot_lock i wr SFree = Got (if wr then SWriting i else SReading i 1)"
| "slot_lock i wr (SReading j n) =
     (if i = j then (if wr \<or> n = 0x3FFFFFFF then Conflict else Got (SReading j (Suc n))) else Wait)"
| "slot_lock i wr (SWriting j) = (if i = j then Conflict else Wait)"

fun slot_unlock :: "slock \<Rightarrow> slock" where
  "slot_unlock (SReading j n) = (if n = 1 then SFree else SReading j (n - 1))"
| "slot_unlock _ = SFree"

fun slot_owned :: "tid \<Rightarrow> slock \<Rightarrow> bool" where
  "slot_owned i SFree = False"
| "slot_owned i (SReading j n) = (i = j)"
| "slot_owned i (SWriting j) = (i = j)"

section \<open>Operations\<close>

datatype ('k, 'v) map_call = MInsert 'k 'v | MRemove 'k | MContains 'k | MGet 'k | MGetMut 'k

fun op_key :: "('k, 'v) map_call \<Rightarrow> 'k" where
  "op_key (MInsert k v) = k"
| "op_key (MRemove k) = k"
| "op_key (MContains k) = k"
| "op_key (MGet k) = k"
| "op_key (MGetMut k) = k"

fun op_writes :: "('k, 'v) map_call \<Rightarrow> bool" where
  "op_writes (MContains k) = False"
| "op_writes (MGet k) = False"
| "op_writes _ = True"

datatype 'v mans = MOld "'v option" | MBool bool | MDone | MPanic

text \<open>What takes effect: a call, a write through a guard, or the clearing of a shard.\<close>

datatype ('k, 'v) mevent = Call "('k, 'v) map_call" | Write 'k 'v | Clear nat

fun map_spec :: "'k config \<Rightarrow> ('k \<rightharpoonup> 'v) \<Rightarrow> ('k, 'v) mevent \<Rightarrow> 'v mans \<times> ('k \<rightharpoonup> 'v)" where
  "map_spec c m (Call (MInsert k v)) = (MOld (m k), m(k \<mapsto> v))"
| "map_spec c m (Call (MRemove k)) = (MOld (m k), m(k := None))"
| "map_spec c m (Call (MContains k)) = (MBool (m k \<noteq> None), m)"
| "map_spec c m (Call (MGet k)) = (MOld (m k), m)"
| "map_spec c m (Call (MGetMut k)) = (MOld (m k), m)"
| "map_spec c m (Write k v) = (MDone, m(k \<mapsto> v))"
| "map_spec c m (Clear sh) = (MDone, (\<lambda>k. if fst (slot_of c k) = sh then None else m k))"

section \<open>States\<close>

datatype ('k, 'v) hpc =
    HIdle
  | HShard "('k, 'v) map_call"                          \<comment> \<open>\<open>lock_shared\<close> of the shard\<close>
  | HSlot "('k, 'v) map_call"                           \<comment> \<open>\<open>write_guard\<close> or \<open>read_guard\<close> of the slot\<close>
  | HHead "('k, 'v) map_call"
  | HWalk "('k, 'v) map_call" "nat option" "nat option" \<comment> \<open>\<open>prev\<close> and \<open>cur\<close>\<close>
  | HSwap 'k 'v nat                                \<comment> \<open>\<open>insert\<close>: replace the value\<close>
  | HNew 'k 'v                                     \<comment> \<open>\<open>insert\<close>: \<open>Entry::new\<close>\<close>
  | HLink 'k 'v nat
  | HStore 'k 'v nat
  | HInc 'k
  | HNext 'k "nat option" nat                      \<comment> \<open>\<open>remove\<close>: load the successor\<close>
  | HUnlink 'k "nat option" nat "nat option"
  | HTake 'k nat                                   \<comment> \<open>\<open>remove\<close>: read the value out\<close>
  | HDec 'k nat 'v
  | HFree 'k nat 'v
  | HUnlock slot_id bool "'v mans"                 \<comment> \<open>drop the slot guard\<close>
  | HUnshare nat "'v mans"                         \<comment> \<open>drop the shard guard\<close>
  | CTry nat                                       \<comment> \<open>\<open>clear\<close>: \<open>try_lock\<close> of a shard\<close>
  | CGuards nat nat                                \<comment> \<open>\<open>try_detach\<close>: the guards below the index are held\<close>
  | COwned nat nat                                 \<comment> \<open>a guard was refused: whose is it\<close>
  | CSwap nat nat "nat option list"                \<comment> \<open>detach the chains from the index on\<close>
  | CCount nat nat "nat option list" "nat option" nat
  | CRelease nat nat "nat option list"             \<comment> \<open>drop the guards from the index on\<close>
  | CUnlock nat "nat option list"
  | CDrop nat "nat option list"                    \<comment> \<open>destroy the detached chains\<close>
  | CNode nat "nat option" "nat option list"
  | CBack nat nat nat bool                         \<comment> \<open>a failed attempt: drop the guards in between\<close>
  | CLeave nat bool
  | CShared nat                                    \<comment> \<open>\<open>lock_shared\<close> after a failed \<open>try_lock\<close>\<close>
  | CCheck nat nat
  | CUnshare nat bool

text \<open>A guard: its slot, the entry it points to, and whether it is a \<open>WatchGuardMut\<close>.\<close>

type_synonym mguard = "slot_id \<times> nat \<times> bool"

record ('k, 'v) hthread =
  hpc :: "('k, 'v) hpc"
  hguards :: "mguard list"
  hans :: "'v mans option"
  hcur :: "('k, 'v) map_call option"              \<comment> \<open>ghost: the call that is running\<close>
  hhist :: "(('k, 'v) map_call \<times> 'v mans) list"   \<comment> \<open>ghost: the calls that returned\<close>

record ('k, 'v) hsys =
  nodes :: "nat \<rightharpoonup> ('k, 'v) node"
  nfresh :: nat
  heads :: "slot_id \<Rightarrow> nat option"
  counts :: "nat \<Rightarrow> usize"
  shard_locks :: "nat \<Rightarrow> rwl"
  slot_locks :: "slot_id \<Rightarrow> slock"
  hthreads :: nat
  hthr :: "tid \<Rightarrow> ('k, 'v) hthread"
  hchain :: "slot_id \<Rightarrow> nat list"
  howner :: "nat \<rightharpoonup> slot_id + tid"
  hmap :: "'k \<rightharpoonup> 'v"
  hlog :: "(tid \<times> ('k, 'v) mevent \<times> 'v mans) list"

datatype ('k, 'v) hact =
    HCall tid "('k, 'v) map_call"
  | HClear tid
  | HGo tid
  | HDropGuard tid nat
  | HWrite tid nat 'v
  | HSend tid nat tid

definition hsys_new :: "nat \<Rightarrow> ('k, 'v) hsys" where
  "hsys_new n =
     \<lparr>nodes = Map.empty, nfresh = 0, heads = (\<lambda>_. None), counts = (\<lambda>_. 0), shard_locks = (\<lambda>_. Readers 0),
      slot_locks = (\<lambda>_. SFree), hthreads = n, hthr = (\<lambda>_. \<lparr>hpc = HIdle, hguards = [], hans = None, hcur = None, hhist = []\<rparr>),
      hchain = (\<lambda>_. []), howner = Map.empty, hmap = Map.empty, hlog = []\<rparr>"

definition hgo :: "('k, 'v) hsys \<Rightarrow> tid \<Rightarrow> ('k, 'v) hpc \<Rightarrow> ('k, 'v) hsys" where
  "hgo s i pc = s\<lparr>hthr := (hthr s)(i := (hthr s i)\<lparr>hpc := pc\<rparr>)\<rparr>"

definition hreturn :: "('k, 'v) hsys \<Rightarrow> tid \<Rightarrow> 'v mans \<Rightarrow> ('k, 'v) hsys" where
  "hreturn s i r = s\<lparr>hthr := (hthr s)(i := (hthr s i)\<lparr>hpc := HIdle, hans := Some r\<rparr>)\<rparr>"

definition remember :: "('k, 'v) hsys \<Rightarrow> tid \<Rightarrow> 'v mans \<Rightarrow> ('k, 'v) hsys" where
  "remember s i r =
     s\<lparr>hthr := (hthr s)(i := (hthr s i)
        \<lparr>hhist := hhist (hthr s i) @ (case hcur (hthr s i) of None \<Rightarrow> [] | Some op \<Rightarrow> if r = MPanic then [] else [(op, r)])\<rparr>)\<rparr>"

text \<open>The operation of thread \<open>i\<close> takes effect.\<close>

definition takes_effect :: "'k config \<Rightarrow> tid \<Rightarrow> ('k, 'v) mevent \<Rightarrow> ('k, 'v) hsys \<Rightarrow> ('k, 'v) hsys" where
  "takes_effect c i e s =
     s\<lparr>hmap := snd (map_spec c (hmap s) e), hlog := hlog s @ [(i, e, fst (map_spec c (hmap s) e))]\<rparr>"

definition node_matches :: "'k config \<Rightarrow> 'k \<Rightarrow> ('k, 'v) node \<Rightarrow> bool" where
  "node_matches c k nd \<longleftrightarrow> nhash nd = hc_hash c k \<and> nkey nd = k"

section \<open>Steps of the keyed operations\<close>

text \<open>The end of the search: the entry was found, or there is none.\<close>

fun on_found :: "'k config \<Rightarrow> ('k, 'v) hsys \<Rightarrow> tid \<Rightarrow> ('k, 'v) map_call \<Rightarrow> nat option \<Rightarrow> nat \<Rightarrow> ('k, 'v) node \<Rightarrow> ('k, 'v) hsys" where
  "on_found c s i (MInsert k v) prev a nd = hgo s i (HSwap k v a)"
| "on_found c s i (MRemove k) prev a nd = hgo s i (HNext k prev a)"
| "on_found c s i (MContains k) prev a nd =
     takes_effect c i (Call (MContains k)) (hgo s i (HUnlock (slot_of c k) False (MBool True)))"
| "on_found c s i (MGet k) prev a nd =
     takes_effect c i (Call (MGet k))
       (s\<lparr>hthr := (hthr s)(i := (hthr s i)\<lparr>hpc := HUnshare (fst (slot_of c k)) (MOld (Some (nvalue nd))),
          hguards := hguards (hthr s i) @ [(slot_of c k, a, False)]\<rparr>)\<rparr>)"
| "on_found c s i (MGetMut k) prev a nd =
     takes_effect c i (Call (MGetMut k))
       (s\<lparr>hthr := (hthr s)(i := (hthr s i)\<lparr>hpc := HUnshare (fst (slot_of c k)) (MOld (Some (nvalue nd))),
          hguards := hguards (hthr s i) @ [(slot_of c k, a, True)]\<rparr>)\<rparr>)"

fun on_missing :: "'k config \<Rightarrow> ('k, 'v) hsys \<Rightarrow> tid \<Rightarrow> ('k, 'v) map_call \<Rightarrow> ('k, 'v) hsys" where
  "on_missing c s i (MInsert k v) = hgo s i (HNew k v)"
| "on_missing c s i (MContains k) =
     takes_effect c i (Call (MContains k)) (hgo s i (HUnlock (slot_of c k) False (MBool False)))"
| "on_missing c s i op =
     takes_effect c i (Call op) (hgo s i (HUnlock (slot_of c (op_key op)) (op_writes op) (MOld None)))"

fun op_step :: "'k config \<Rightarrow> ('k, 'v) hsys \<Rightarrow> tid \<Rightarrow> ('k, 'v) hpc \<Rightarrow> ('k, 'v) hsys option" where
  "op_step c s i (HShard op) =
     (let sh = fst (slot_of c (op_key op)) in
      Some (case rw_shared (shard_locks s sh) of
              None \<Rightarrow> s
            | Some l \<Rightarrow> (hgo s i (HSlot op))\<lparr>shard_locks := (shard_locks s)(sh := l)\<rparr>))"
| "op_step c s i (HSlot op) =
     (let p = slot_of c (op_key op) in
      Some (case slot_lock i (op_writes op) (slot_locks s p) of
              Got l \<Rightarrow> (hgo s i (HHead op))\<lparr>slot_locks := (slot_locks s)(p := l)\<rparr>
            | Wait \<Rightarrow> s
            | Conflict \<Rightarrow> hgo s i (HUnshare (fst p) MPanic)))"
| "op_step c s i (HHead op) = Some (hgo s i (HWalk op None (heads s (slot_of c (op_key op)))))"
| "op_step c s i (HWalk op prev cur) =
     (case cur of
        None \<Rightarrow> Some (on_missing c s i op)
      | Some a \<Rightarrow>
          (case nodes s a of
             None \<Rightarrow> None
           | Some nd \<Rightarrow>
               Some (if node_matches c (op_key op) nd then on_found c s i op prev a nd
                     else hgo s i (HWalk op (Some a) (nnext nd)))))"
| "op_step c s i (HSwap k v a) =
     (case nodes s a of
        None \<Rightarrow> None
      | Some nd \<Rightarrow>
          Some (takes_effect c i (Call (MInsert k v))
            ((hgo s i (HUnlock (slot_of c k) True (MOld (Some (nvalue nd)))))
               \<lparr>nodes := (nodes s)(a \<mapsto> nd\<lparr>nvalue := v\<rparr>)\<rparr>)))"
| "op_step c s i (HNew k v) =
     (let a = nfresh s in
      Some ((hgo s i (HLink k v a))
              \<lparr>nodes := (nodes s)(a \<mapsto> \<lparr>nkey = k, nvalue = v, nhash = hc_hash c k, nnext = None\<rparr>),
               nfresh := a + 1, howner := (howner s)(a \<mapsto> Inr i)\<rparr>))"
| "op_step c s i (HLink k v a) =
     (case nodes s a of
        None \<Rightarrow> None
      | Some nd \<Rightarrow>
          Some ((hgo s i (HStore k v a))\<lparr>nodes := (nodes s)(a \<mapsto> nd\<lparr>nnext := heads s (slot_of c k)\<rparr>)\<rparr>))"
| "op_step c s i (HStore k v a) =
     (let p = slot_of c k in
      Some (takes_effect c i (Call (MInsert k v))
        ((hgo s i (HInc k))
           \<lparr>heads := (heads s)(p := Some a), hchain := (hchain s)(p := a # hchain s p), howner := (howner s)(a \<mapsto> Inl p)\<rparr>)))"
| "op_step c s i (HInc k) =
     (let p = slot_of c k in
      Some ((hgo s i (HUnlock p True (MOld None)))\<lparr>counts := (counts s)(fst p := counts s (fst p) + 1)\<rparr>))"
| "op_step c s i (HNext k prev a) =
     (case nodes s a of None \<Rightarrow> None | Some nd \<Rightarrow> Some (hgo s i (HUnlink k prev a (nnext nd))))"
| "op_step c s i (HUnlink k prev a nx) =
     (let p = slot_of c k;
          s' = takes_effect c i (Call (MRemove k))
            ((hgo s i (HTake k a))\<lparr>hchain := (hchain s)(p := remove1 a (hchain s p)), howner := (howner s)(a \<mapsto> Inr i)\<rparr>) in
      case prev of
        None \<Rightarrow> Some (s'\<lparr>heads := (heads s)(p := nx)\<rparr>)
      | Some b \<Rightarrow>
          (case nodes s b of None \<Rightarrow> None | Some nd \<Rightarrow> Some (s'\<lparr>nodes := (nodes s)(b \<mapsto> nd\<lparr>nnext := nx\<rparr>)\<rparr>)))"
| "op_step c s i (HTake k a) =
     (case nodes s a of None \<Rightarrow> None | Some nd \<Rightarrow> Some (hgo s i (HDec k a (nvalue nd))))"
| "op_step c s i (HDec k a v) =
     (let sh = fst (slot_of c k) in Some ((hgo s i (HFree k a v))\<lparr>counts := (counts s)(sh := counts s sh - 1)\<rparr>))"
| "op_step c s i (HFree k a v) =
     (case nodes s a of
        None \<Rightarrow> None
      | Some nd \<Rightarrow>
          Some ((hgo s i (HUnlock (slot_of c k) True (MOld (Some v))))
                  \<lparr>nodes := (nodes s)(a := None), howner := (howner s)(a := None)\<rparr>))"
| "op_step c s i (HUnlock p wr r) =
     Some ((hgo s i (HUnshare (fst p) r))\<lparr>slot_locks := (slot_locks s)(p := slot_unlock (slot_locks s p))\<rparr>)"
| "op_step c s i (HUnshare sh r) =
     Some ((hreturn (remember s i r) i r)\<lparr>shard_locks := (shard_locks s)(sh := rw_unshare (shard_locks s sh))\<rparr>)"
| "op_step c s i _ = None"

section \<open>Steps of clear\<close>

text \<open>After the last shard \<open>clear\<close> returns.\<close>

definition next_shard :: "'k config \<Rightarrow> ('k, 'v) hsys \<Rightarrow> tid \<Rightarrow> nat \<Rightarrow> ('k, 'v) hsys" where
  "next_shard c s i sh = (if sh < hc_shards c then hgo s i (CTry sh) else hreturn s i MDone)"

fun clear_step :: "'k config \<Rightarrow> ('k, 'v) hsys \<Rightarrow> tid \<Rightarrow> ('k, 'v) hpc \<Rightarrow> ('k, 'v) hsys option" where
  "clear_step c s i (CTry sh) =
     Some (case rw_exclusive (shard_locks s sh) of
             Some l \<Rightarrow> (hgo s i (CGuards sh 0))\<lparr>shard_locks := (shard_locks s)(sh := l)\<rparr>
           | None \<Rightarrow> hgo s i (CShared sh))"
| "clear_step c s i (CGuards sh j) =
     Some (if j < unat (hc_cap c) then
             (case slot_locks s (sh, j) of
                SFree \<Rightarrow> (hgo s i (CGuards sh (j + 1)))\<lparr>slot_locks := (slot_locks s)((sh, j) := SWriting i)\<rparr>
              | _ \<Rightarrow> hgo s i (COwned sh j))
           else takes_effect c i (Clear sh) (hgo s i (CSwap sh 0 [])))"
| "clear_step c s i (COwned sh j) = Some (hgo s i (CBack sh 0 j (slot_owned i (slot_locks s (sh, j)))))"
| "clear_step c s i (CSwap sh j cs) =
     Some (if j < unat (hc_cap c) then
             (hgo s i (CCount sh j (cs @ [heads s (sh, j)]) (heads s (sh, j)) 0))
               \<lparr>heads := (heads s)((sh, j) := None), hchain := (hchain s)((sh, j) := []),
                howner := (\<lambda>a. if howner s a = Some (Inl (sh, j)) then Some (Inr i) else howner s a)\<rparr>
           else hgo s i (CRelease sh 0 cs))"
| "clear_step c s i (CCount sh j cs cur n) =
     (case cur of
        None \<Rightarrow> Some ((hgo s i (CSwap sh (j + 1) cs))\<lparr>counts := (counts s)(sh := counts s sh - of_nat n)\<rparr>)
      | Some a \<Rightarrow> (case nodes s a of None \<Rightarrow> None | Some nd \<Rightarrow> Some (hgo s i (CCount sh j cs (nnext nd) (n + 1)))))"
| "clear_step c s i (CRelease sh j cs) =
     Some (if j < unat (hc_cap c) then
             (hgo s i (CRelease sh (j + 1) cs))\<lparr>slot_locks := (slot_locks s)((sh, j) := slot_unlock (slot_locks s (sh, j)))\<rparr>
           else hgo s i (CUnlock sh cs))"
| "clear_step c s i (CUnlock sh cs) =
     Some ((hgo s i (CDrop sh cs))\<lparr>shard_locks := (shard_locks s)(sh := rw_unlock (shard_locks s sh))\<rparr>)"
| "clear_step c s i (CDrop sh cs) =
     Some (case cs of [] \<Rightarrow> next_shard c s i (sh + 1) | q # qs \<Rightarrow> hgo s i (CNode sh q qs))"
| "clear_step c s i (CNode sh cur cs) =
     (case cur of
        None \<Rightarrow> Some (hgo s i (CDrop sh cs))
      | Some a \<Rightarrow>
          (case nodes s a of
             None \<Rightarrow> None
           | Some nd \<Rightarrow>
               Some ((hgo s i (CNode sh (nnext nd) cs))\<lparr>nodes := (nodes s)(a := None), howner := (howner s)(a := None)\<rparr>)))"
| "clear_step c s i (CBack sh j m own) =
     Some (if j < m then
             (hgo s i (CBack sh (j + 1) m own))\<lparr>slot_locks := (slot_locks s)((sh, j) := slot_unlock (slot_locks s (sh, j)))\<rparr>
           else hgo s i (CLeave sh own))"
| "clear_step c s i (CLeave sh own) =
     Some ((if own then hreturn s i MPanic else hgo s i (CTry sh))
             \<lparr>shard_locks := (shard_locks s)(sh := rw_unlock (shard_locks s sh))\<rparr>)"
| "clear_step c s i (CShared sh) =
     Some (case rw_shared (shard_locks s sh) of
             None \<Rightarrow> s
           | Some l \<Rightarrow> (hgo s i (CCheck sh 0))\<lparr>shard_locks := (shard_locks s)(sh := l)\<rparr>)"
| "clear_step c s i (CCheck sh j) =
     Some (if j < unat (hc_cap c) then
             hgo s i (if slot_owned i (slot_locks s (sh, j)) then CUnshare sh True else CCheck sh (j + 1))
           else hgo s i (CUnshare sh False))"
| "clear_step c s i (CUnshare sh own) =
     Some ((if own then hreturn s i MPanic else hgo s i (CTry sh))
             \<lparr>shard_locks := (shard_locks s)(sh := rw_unshare (shard_locks s sh))\<rparr>)"
| "clear_step c s i _ = None"

section \<open>All steps\<close>

fun clearing_pc :: "('k, 'v) hpc \<Rightarrow> bool" where
  "clearing_pc (CTry sh) = True"
| "clearing_pc (CGuards sh j) = True"
| "clearing_pc (COwned sh j) = True"
| "clearing_pc (CSwap sh j cs) = True"
| "clearing_pc (CCount sh j cs cur n) = True"
| "clearing_pc (CRelease sh j cs) = True"
| "clearing_pc (CUnlock sh cs) = True"
| "clearing_pc (CDrop sh cs) = True"
| "clearing_pc (CNode sh cur cs) = True"
| "clearing_pc (CBack sh j m own) = True"
| "clearing_pc (CLeave sh own) = True"
| "clearing_pc (CShared sh) = True"
| "clearing_pc (CCheck sh j) = True"
| "clearing_pc (CUnshare sh own) = True"
| "clearing_pc _ = False"

definition drop_nth :: "nat \<Rightarrow> 'x list \<Rightarrow> 'x list" where
  "drop_nth m xs = take m xs @ drop (Suc m) xs"

definition set_guards :: "('k, 'v) hsys \<Rightarrow> tid \<Rightarrow> mguard list \<Rightarrow> ('k, 'v) hsys" where
  "set_guards s i gs = s\<lparr>hthr := (hthr s)(i := (hthr s i)\<lparr>hguards := gs\<rparr>)\<rparr>"

text \<open>
  An idle thread drops a guard, writes the value behind a \<open>WatchGuardMut\<close> or gives a guard to another
  thread.
\<close>

fun map_step :: "'k config \<Rightarrow> ('k, 'v) hact \<Rightarrow> ('k, 'v) hsys \<Rightarrow> ('k, 'v) hsys option" where
  "map_step c (HCall i op) s = (if i < hthreads s \<and> hpc (hthr s i) = HIdle then
        Some (s\<lparr>hthr := (hthr s)(i := (hthr s i)\<lparr>hpc := HShard op, hcur := Some op\<rparr>)\<rparr>) else None)"
| "map_step c (HClear i) s = (if i < hthreads s \<and> hpc (hthr s i) = HIdle then Some (next_shard c s i 0) else None)"
| "map_step c (HGo i) s =
     (if i < hthreads s then
        (if clearing_pc (hpc (hthr s i)) then clear_step c s i (hpc (hthr s i)) else op_step c s i (hpc (hthr s i)))
      else None)"
| "map_step c (HDropGuard i m) s =
     (let gs = hguards (hthr s i) in
      if i < hthreads s \<and> hpc (hthr s i) = HIdle \<and> m < length gs then
        (let p = fst (gs ! m) in
         Some ((set_guards s i (drop_nth m gs))\<lparr>slot_locks := (slot_locks s)(p := slot_unlock (slot_locks s p))\<rparr>))
      else None)"
| "map_step c (HWrite i m v) s =
     (let gs = hguards (hthr s i) in
      if i < hthreads s \<and> hpc (hthr s i) = HIdle \<and> m < length gs \<and> snd (snd (gs ! m)) then
        (let a = fst (snd (gs ! m)) in
         case nodes s a of
           None \<Rightarrow> None
         | Some nd \<Rightarrow> Some (takes_effect c i (Write (nkey nd) v) (s\<lparr>nodes := (nodes s)(a \<mapsto> nd\<lparr>nvalue := v\<rparr>)\<rparr>)))
      else None)"
| "map_step c (HSend i m j) s =
     (let gs = hguards (hthr s i) in
      if i < hthreads s \<and> j < hthreads s \<and> i \<noteq> j \<and> hpc (hthr s i) = HIdle \<and> m < length gs then
        Some (set_guards (set_guards s i (drop_nth m gs)) j (hguards (hthr s j) @ [gs ! m]))
      else None)"

end
