(* ===== verification/HashMap_Conc_Inv.thy ===== *)
theory HashMap_Conc_Inv
  imports HashMap_Conc
begin

text \<open>
  The invariant of concurrent \<open>AtomicHashMap\<close>: which locks a thread holds, which entries it owns,
  and how the chains of the slots represent the abstract map.
\<close>

section \<open>Locks\<close>

fun pc_holds :: "'k config \<Rightarrow> ('k, 'v) hpc \<Rightarrow> (slot_id \<times> bool) list" where
  "pc_holds c (HHead op) = [(slot_of c (op_key op), op_writes op)]"
| "pc_holds c (HWalk op prev cur) = [(slot_of c (op_key op), op_writes op)]"
| "pc_holds c (HSwap k v a) = [(slot_of c k, True)]"
| "pc_holds c (HNew k v) = [(slot_of c k, True)]"
| "pc_holds c (HLink k v a) = [(slot_of c k, True)]"
| "pc_holds c (HStore k v a) = [(slot_of c k, True)]"
| "pc_holds c (HInc k) = [(slot_of c k, True)]"
| "pc_holds c (HNext k prev a) = [(slot_of c k, True)]"
| "pc_holds c (HUnlink k prev a nx) = [(slot_of c k, True)]"
| "pc_holds c (HTake k a) = [(slot_of c k, True)]"
| "pc_holds c (HDec k a v) = [(slot_of c k, True)]"
| "pc_holds c (HFree k a v) = [(slot_of c k, True)]"
| "pc_holds c (HUnlock p wr r) = [(p, wr)]"
| "pc_holds c (CGuards sh j) = map (\<lambda>m. ((sh, m), True)) [0..<j]"
| "pc_holds c (COwned sh j) = map (\<lambda>m. ((sh, m), True)) [0..<j]"
| "pc_holds c (CSwap sh j cs) = map (\<lambda>m. ((sh, m), True)) [0..<unat (hc_cap c)]"
| "pc_holds c (CCount sh j cs cur n) = map (\<lambda>m. ((sh, m), True)) [0..<unat (hc_cap c)]"
| "pc_holds c (CRelease sh j cs) = map (\<lambda>m. ((sh, m), True)) [j..<unat (hc_cap c)]"
| "pc_holds c (CBack sh j m own) = map (\<lambda>m. ((sh, m), True)) [j..<m]"
| "pc_holds c _ = []"

definition thread_holds :: "'k config \<Rightarrow> ('k, 'v) hthread \<Rightarrow> (slot_id \<times> bool) list" where
  "thread_holds c th = pc_holds c (hpc th) @ map (\<lambda>g. (fst g, snd (snd g))) (hguards th)"

definition slot_held :: "'k config \<Rightarrow> ('k, 'v) hsys \<Rightarrow> slot_id \<times> bool \<Rightarrow> nat" where
  "slot_held c s x = (\<Sum>i<hthreads s. count_list (thread_holds c (hthr s i)) x)"

fun slock_ok :: "slock \<Rightarrow> nat \<Rightarrow> nat \<Rightarrow> bool" where
  "slock_ok SFree r w = (r = 0 \<and> w = 0)"
| "slock_ok (SReading j n) r w = (r = n \<and> 0 < n \<and> w = 0)"
| "slock_ok (SWriting j) r w = (r = 0 \<and> w = 1)"

definition slots_ok :: "'k config \<Rightarrow> ('k, 'v) hsys \<Rightarrow> bool" where
  "slots_ok c s \<longleftrightarrow> (\<forall>p. slock_ok (slot_locks s p) (slot_held c s (p, False)) (slot_held c s (p, True)))"

section \<open>Entries\<close>

fun linked :: "(nat \<rightharpoonup> ('k, 'v) node) \<Rightarrow> nat option \<Rightarrow> nat list \<Rightarrow> bool" where
  "linked H q [] = (q = None)"
| "linked H q (a # as) = (q = Some a \<and> (\<exists>nd. H a = Some nd \<and> linked H (nnext nd) as))"

abbreviation nkey_of :: "('k, 'v) hsys \<Rightarrow> nat \<Rightarrow> 'k" where
  "nkey_of s a \<equiv> nkey (the (nodes s a))"

abbreviation nvalue_of :: "('k, 'v) hsys \<Rightarrow> nat \<Rightarrow> 'v" where
  "nvalue_of s a \<equiv> nvalue (the (nodes s a))"

definition lookup :: "('k, 'v) hsys \<Rightarrow> nat list \<Rightarrow> 'k \<Rightarrow> 'v option" where
  "lookup s as k = map_option (nvalue_of s) (find (\<lambda>a. nkey_of s a = k) as)"

definition chain_ok :: "'k config \<Rightarrow> ('k, 'v) hsys \<Rightarrow> slot_id \<Rightarrow> bool" where
  "chain_ok c s p \<longleftrightarrow>
     linked (nodes s) (heads s p) (hchain s p) \<and> distinct (map (nkey_of s) (hchain s p)) \<and>
     set (hchain s p) = {a. howner s a = Some (Inl p)} \<and>
     (\<forall>a\<in>set (hchain s p). nhash (the (nodes s a)) = hc_hash c (nkey_of s a) \<and> slot_of c (nkey_of s a) = p)"

definition memory_ok :: "('k, 'v) hsys \<Rightarrow> bool" where
  "memory_ok s \<longleftrightarrow> dom (howner s) = dom (nodes s) \<and> (\<forall>a\<in>dom (nodes s). a < nfresh s) \<and>
     (\<forall>a i. howner s a = Some (Inr i) \<longrightarrow> i < hthreads s)"

text \<open>The slots of a shard that \<open>clear\<close> has emptied in effect but not yet in memory.\<close>

fun clearing :: "('k, 'v) hpc \<Rightarrow> slot_id \<Rightarrow> bool" where
  "clearing (CSwap sh j cs) p = (fst p = sh \<and> j \<le> snd p)"
| "clearing (CCount sh j cs cur n) p = (fst p = sh \<and> j < snd p)"
| "clearing _ p = False"

definition abstracts :: "'k config \<Rightarrow> ('k, 'v) hsys \<Rightarrow> bool" where
  "abstracts c s \<longleftrightarrow>
     (\<forall>k. hmap s k = (if \<exists>i<hthreads s. clearing (hpc (hthr s i)) (slot_of c k) then None
                      else lookup s (hchain s (slot_of c k)) k))"

definition hlog_ok :: "'k config \<Rightarrow> ('k, 'v) hsys \<Rightarrow> bool" where
  "hlog_ok c s \<longleftrightarrow> run_all (map_spec c) Map.empty (map (fst \<circ> snd) (hlog s)) = (map (snd \<circ> snd) (hlog s), hmap s)"

section \<open>Threads\<close>

definition mine :: "('k, 'v) hsys \<Rightarrow> tid \<Rightarrow> nat set" where
  "mine s i = {a. howner s a = Some (Inr i)}"

fun calls :: "tid \<Rightarrow> (tid \<times> ('k, 'v) mevent \<times> 'v mans) list \<Rightarrow> (('k, 'v) map_call \<times> 'v mans) list" where
  "calls i [] = []"
| "calls i ((j, e, r) # l) = (case e of Call op \<Rightarrow> if i = j then [(op, r)] else [] | _ \<Rightarrow> []) @ calls i l"

definition before :: "('k, 'v) hsys \<Rightarrow> tid \<Rightarrow> ('k, 'v) map_call \<Rightarrow> bool" where
  "before s i op \<longleftrightarrow> hcur (hthr s i) = Some op \<and> calls i (hlog s) = hhist (hthr s i)"

definition after :: "('k, 'v) hsys \<Rightarrow> tid \<Rightarrow> 'v mans \<Rightarrow> bool" where
  "after s i r \<longleftrightarrow> (\<exists>op. hcur (hthr s i) = Some op \<and> calls i (hlog s) = hhist (hthr s i) @ [(op, r)]) \<and> r \<noteq> MPanic"

definition idle :: "('k, 'v) hsys \<Rightarrow> tid \<Rightarrow> bool" where
  "idle s i \<longleftrightarrow> calls i (hlog s) = hhist (hthr s i)"

definition chains_mine :: "('k, 'v) hsys \<Rightarrow> tid \<Rightarrow> nat option list \<Rightarrow> bool" where
  "chains_mine s i cs \<longleftrightarrow> (\<exists>ls. list_all2 (linked (nodes s)) cs ls \<and> mine s i = set (concat ls) \<and> distinct (concat ls))"

definition last_of :: "nat list \<Rightarrow> nat option" where
  "last_of xs = (if xs = [] then None else Some (last xs))"

definition first_of :: "nat list \<Rightarrow> nat option" where
  "first_of xs = (case xs of [] \<Rightarrow> None | a # _ \<Rightarrow> Some a)"

definition missing :: "'k config \<Rightarrow> ('k, 'v) hsys \<Rightarrow> 'k \<Rightarrow> bool" where
  "missing c s k \<longleftrightarrow> k \<notin> nkey_of s ` set (hchain s (slot_of c k))"

definition walked :: "'k config \<Rightarrow> ('k, 'v) hsys \<Rightarrow> 'k \<Rightarrow> nat option \<Rightarrow> nat option \<Rightarrow> bool" where
  "walked c s k prev cur \<longleftrightarrow>
     (\<exists>xs ys. hchain s (slot_of c k) = xs @ ys \<and> cur = first_of ys \<and> prev = last_of xs \<and> k \<notin> nkey_of s ` set xs)"

definition found :: "'k config \<Rightarrow> ('k, 'v) hsys \<Rightarrow> 'k \<Rightarrow> nat option \<Rightarrow> nat \<Rightarrow> bool" where
  "found c s k prev a \<longleftrightarrow> walked c s k prev (Some a) \<and> nkey_of s a = k"

definition new_node :: "'k config \<Rightarrow> ('k, 'v) hsys \<Rightarrow> tid \<Rightarrow> 'k \<Rightarrow> 'v \<Rightarrow> nat \<Rightarrow> bool" where
  "new_node c s i k v a \<longleftrightarrow> mine s i = {a} \<and> missing c s k \<and> nkey_of s a = k \<and> nvalue_of s a = v \<and>
     nhash (the (nodes s a)) = hc_hash c k"

fun knows :: "'k config \<Rightarrow> ('k, 'v) hsys \<Rightarrow> tid \<Rightarrow> ('k, 'v) hpc \<Rightarrow> bool" where
  "knows c s i (HShard op) = (mine s i = {} \<and> before s i op)"
| "knows c s i (HSlot op) = (mine s i = {} \<and> before s i op)"
| "knows c s i (HHead op) = (mine s i = {} \<and> before s i op)"
| "knows c s i (HWalk op prev cur) = (mine s i = {} \<and> before s i op \<and> walked c s (op_key op) prev cur)"
| "knows c s i (HSwap k v a) = (mine s i = {} \<and> before s i (MInsert k v) \<and> (\<exists>prev. found c s k prev a))"
| "knows c s i (HNew k v) = (mine s i = {} \<and> before s i (MInsert k v) \<and> missing c s k)"
| "knows c s i (HLink k v a) = (before s i (MInsert k v) \<and> new_node c s i k v a)"
| "knows c s i (HStore k v a) =
     (before s i (MInsert k v) \<and> new_node c s i k v a \<and> nnext (the (nodes s a)) = heads s (slot_of c k))"
| "knows c s i (HInc k) = (mine s i = {} \<and> after s i (MOld None))"
| "knows c s i (HNext k prev a) = (mine s i = {} \<and> before s i (MRemove k) \<and> found c s k prev a)"
| "knows c s i (HUnlink k prev a nx) =
     (mine s i = {} \<and> before s i (MRemove k) \<and> found c s k prev a \<and> nx = nnext (the (nodes s a)))"
| "knows c s i (HTake k a) = (mine s i = {a} \<and> after s i (MOld (Some (nvalue_of s a))))"
| "knows c s i (HDec k a v) = (mine s i = {a} \<and> after s i (MOld (Some v)))"
| "knows c s i (HFree k a v) = (mine s i = {a} \<and> after s i (MOld (Some v)))"
| "knows c s i (HUnlock p wr r) = (mine s i = {} \<and> after s i r)"
| "knows c s i (HUnshare sh r) = (mine s i = {} \<and> (if r = MPanic then idle s i else after s i r))"
| "knows c s i (CGuards sh j) = (mine s i = {} \<and> idle s i \<and> j \<le> unat (hc_cap c))"
| "knows c s i (CSwap sh j cs) = (chains_mine s i cs \<and> idle s i)"
| "knows c s i (CCount sh j cs cur n) =
     (chains_mine s i cs \<and> idle s i \<and> (\<exists>as. linked (nodes s) cur as \<and> set as \<subseteq> mine s i))"
| "knows c s i (CRelease sh j cs) = (chains_mine s i cs \<and> idle s i)"
| "knows c s i (CUnlock sh cs) = (chains_mine s i cs \<and> idle s i)"
| "knows c s i (CDrop sh cs) = (chains_mine s i cs \<and> idle s i)"
| "knows c s i (CNode sh cur cs) = (chains_mine s i (cur # cs) \<and> idle s i)"
| "knows c s i _ = (mine s i = {} \<and> idle s i)"

definition hguards_ok :: "('k, 'v) hsys \<Rightarrow> tid \<Rightarrow> bool" where
  "hguards_ok s i \<longleftrightarrow> (\<forall>g\<in>set (hguards (hthr s i)). fst (snd g) \<in> set (hchain s (fst g)))"

definition conc_map_inv :: "'k config \<Rightarrow> ('k, 'v) hsys \<Rightarrow> bool" where
  "conc_map_inv c s \<longleftrightarrow> (\<forall>p. chain_ok c s p) \<and> memory_ok s \<and> abstracts c s \<and> hlog_ok c s \<and> slots_ok c s \<and>
     (\<forall>i<hthreads s. knows c s i (hpc (hthr s i)) \<and> hguards_ok s i)"

section \<open>Counting locks\<close>

lemma held_upd:
  assumes "i < hthreads s" "hthreads t = hthreads s" "hthr t = (hthr s)(i := th)"
  shows "slot_held c t x + count_list (thread_holds c (hthr s i)) x = slot_held c s x + count_list (thread_holds c th) x"
  unfolding slot_held_def assms(2)
  using sum_if_upd[of i "hthreads s" "\<lambda>j. count_list (thread_holds c (hthr t j)) x" "\<lambda>j. count_list (thread_holds c (hthr s j)) x"]
    assms by simp

lemma held_member: "i < hthreads s \<Longrightarrow> count_list (thread_holds c (hthr s i)) x \<le> slot_held c s x"
  unfolding slot_held_def by (rule member_le_sum_lt)

lemma slot_lock_ok:
  assumes "slot_lock i wr l = Got l'" "slock_ok l r w"
  shows "slock_ok l' (if wr then r else Suc r) (if wr then Suc w else w)"
  using assms by (cases l) (auto split: if_splits)

lemma slot_unlock_ok:
  assumes "slock_ok l r w" "if wr then 0 < w else 0 < r"
  shows "slock_ok (slot_unlock l) (if wr then r else r - 1) (if wr then w - 1 else w)"
  using assms by (cases l) (auto split: if_splits)

lemma lockD: "slots_ok c s \<Longrightarrow> slock_ok (slot_locks s p) (slot_held c s (p, False)) (slot_held c s (p, True))"
  unfolding slots_ok_def by blast

lemma lockI: "(\<And>p. slock_ok (slot_locks s p) (slot_held c s (p, False)) (slot_held c s (p, True))) \<Longrightarrow> slots_ok c s"
  unfolding slots_ok_def by blast

text \<open>A lock changes hands together with the holdings of one thread.\<close>

lemma locks_same:
  assumes "slots_ok c s" "i < hthreads s" "hthreads t = hthreads s" "hthr t = (hthr s)(i := th)" "slot_locks t = slot_locks s"
    "\<And>x. count_list (thread_holds c th) x = count_list (thread_holds c (hthr s i)) x"
  shows "slots_ok c t"
proof -
  have "slot_held c t x = slot_held c s x" for x using held_upd[OF assms(2-4), of c x] assms(6)[of x] by simp
  then show ?thesis using assms(1,5) by (simp add: slots_ok_def)
qed

lemma locks_acquire:
  assumes "slots_ok c s" "i < hthreads s" "hthreads t = hthreads s" "hthr t = (hthr s)(i := th)"
    "slot_lock j wr (slot_locks s p) = Got l" "slot_locks t = (slot_locks s)(p := l)"
    "\<And>x. count_list (thread_holds c th) x = count_list (thread_holds c (hthr s i)) x + (if x = (p, wr) then 1 else 0)"
  shows "slots_ok c t"
proof -
  have h: "slot_held c t x = slot_held c s x + (if x = (p, wr) then 1 else 0)" for x
    using held_upd[OF assms(2-4), of c x] assms(7)[of x] by simp
  have "slock_ok (slot_locks t q) (slot_held c t (q, False)) (slot_held c t (q, True))" for q
    using slot_lock_ok[OF assms(5) lockD[OF assms(1)]] lockD[OF assms(1), of q]
    by (cases "q = p"; cases wr) (simp_all add: h assms(6))
  then show ?thesis by (rule lockI)
qed

lemma locks_release:
  assumes "slots_ok c s" "i < hthreads s" "hthreads t = hthreads s" "hthr t = (hthr s)(i := th)"
    "slot_locks t = (slot_locks s)(p := slot_unlock (slot_locks s p))"
    "\<And>x. count_list (thread_holds c (hthr s i)) x = count_list (thread_holds c th) x + (if x = (p, wr) then 1 else 0)"
  shows "slots_ok c t"
proof -
  have h: "slot_held c s x = slot_held c t x + (if x = (p, wr) then 1 else 0)" for x
    using held_upd[OF assms(2-4), of c x] assms(6)[of x] by simp
  note lockD[OF assms(1), of p]
  moreover have "if wr then 0 < slot_held c s (p, True) else 0 < slot_held c s (p, False)" using h by (cases wr) auto
  ultimately have "slock_ok (slot_unlock (slot_locks s p)) (slot_held c t (p, False)) (slot_held c t (p, True))"
    using slot_unlock_ok[of "slot_locks s p" "slot_held c s (p, False)" "slot_held c s (p, True)" wr] by (cases wr) (auto simp: h)
  moreover have "slock_ok (slot_locks s q) (slot_held c t (q, False)) (slot_held c t (q, True))" if "q \<noteq> p" for q
    using lockD[OF assms(1), of q] that h[of "(q, False)"] h[of "(q, True)"] by simp
  ultimately have "slock_ok (slot_locks t q) (slot_held c t (q, False)) (slot_held c t (q, True))" for q
    by (cases "q = p") (simp_all add: assms(5))
  then show ?thesis by (rule lockI)
qed

text \<open>A writer of a slot is alone in it, and is in it once.\<close>

lemma writer_alone:
  assumes ok: "slots_ok c s" and i: "i < hthreads s" and w: "(p, True) \<in> set (thread_holds c (hthr s i))"
  shows "j < hthreads s \<Longrightarrow> j \<noteq> i \<Longrightarrow> (p, b) \<notin> set (thread_holds c (hthr s j))"
    "count_list (thread_holds c (hthr s i)) (p, True) = 1" "(p, False) \<notin> set (thread_holds c (hthr s i))"
proof -
  have pos: "0 < count_list (thread_holds c (hthr s i)) (p, True)" using w by (metis count_list_0_iff gr0I)
  with held_member[OF i, of c "(p, True)"] have "0 < slot_held c s (p, True)" by simp
  moreover note lockD[OF ok, of p]
  ultimately have h: "slot_held c s (p, True) = 1" "slot_held c s (p, False) = 0" by (cases "slot_locks s p"; simp)+
  show "count_list (thread_holds c (hthr s i)) (p, True) = 1" using pos held_member[OF i, of c "(p, True)"] h by simp
  show "(p, False) \<notin> set (thread_holds c (hthr s i))"
    using held_member[OF i, of c "(p, False)"] h by (metis count_list_0_iff le_zero_eq)
  assume j: "j < hthreads s" "j \<noteq> i"
  have "count_list (thread_holds c (hthr s i)) (p, True) + count_list (thread_holds c (hthr s j)) (p, True) \<le> slot_held c s (p, True)"
    unfolding slot_held_def
    using two_members_le_sum[of i "hthreads s" j "\<lambda>k. count_list (thread_holds c (hthr s k)) (p, True)"] i j by simp
  with pos h have "count_list (thread_holds c (hthr s j)) (p, True) = 0" by simp
  moreover have "count_list (thread_holds c (hthr s j)) (p, False) = 0" using held_member[OF j(1), of c "(p, False)"] h by simp
  ultimately show "(p, b) \<notin> set (thread_holds c (hthr s j))" by (cases b) (simp_all add: count_list_0_iff)
qed

section \<open>Frames\<close>

lemma linked_cong: "(\<And>a. a \<in> set as \<Longrightarrow> map_option nnext (H a) = map_option nnext (H' a)) \<Longrightarrow> linked H q as = linked H' q as"
proof (induction as arbitrary: q)
  case (Cons a as)
  have "map_option nnext (H a) = map_option nnext (H' a)" using Cons.prems by simp
  with Cons.IH Cons.prems show ?case by (cases "H a"; cases "H' a") auto
qed simp

lemma linked_dom: "linked H q as \<Longrightarrow> set as \<subseteq> dom H"
  by (induction as arbitrary: q) auto

lemma linked_first: "linked H q as \<Longrightarrow> q = first_of as"
  by (cases as) (auto simp: first_of_def)

lemma linked_unique: "linked H q as \<Longrightarrow> linked H q bs \<Longrightarrow> as = bs"
  by (induction as arbitrary: q bs) (case_tac bs; auto)+

lemma linked_append: "linked H q (xs @ ys) \<Longrightarrow> xs = [] \<or> nnext (the (H (last xs))) = first_of ys"
proof (induction xs arbitrary: q)
  case (Cons a xs)
  then obtain nd where "H a = Some nd" "linked H (nnext nd) (xs @ ys)" by auto
  with Cons.IH[of "nnext nd"] show ?case using linked_first by (cases xs) fastforce+
qed simp

text \<open>What a thread knows depends on its own entries and on the chains of the slots it holds.\<close>

definition same_slot :: "('k, 'v) hsys \<Rightarrow> ('k, 'v) hsys \<Rightarrow> slot_id \<Rightarrow> bool" where
  "same_slot s t p \<longleftrightarrow> hchain t p = hchain s p \<and> heads t p = heads s p \<and>
     (\<forall>a\<in>set (hchain s p). nodes t a = nodes s a) \<and> (\<forall>a. howner t a = Some (Inl p) \<longleftrightarrow> howner s a = Some (Inl p))"

lemma walked_mem: "walked c s k prev (Some a) \<Longrightarrow> a \<in> set (hchain s (slot_of c k))"
proof -
  assume "walked c s k prev (Some a)"
  then obtain xs ys where "hchain s (slot_of c k) = xs @ ys" "first_of ys = Some a" unfolding walked_def by metis
  then show ?thesis by (cases ys) (auto simp: first_of_def)
qed

lemma found_mem: "found c s k prev a \<Longrightarrow> a \<in> set (hchain s (slot_of c k))"
  by (auto simp: found_def dest: walked_mem)

lemma same_slot_search:
  assumes "same_slot s t (slot_of c k)"
  shows "missing c t k = missing c s k" "walked c t k prev cur = walked c s k prev cur" "found c t k prev a = found c s k prev a"
proof -
  have h: "hchain t (slot_of c k) = hchain s (slot_of c k)" "\<And>a. a \<in> set (hchain s (slot_of c k)) \<Longrightarrow> nkey_of t a = nkey_of s a"
    using assms by (auto simp: same_slot_def)
  then show "missing c t k = missing c s k" by (auto simp: missing_def image_iff)
  have "nkey_of t ` set xs = nkey_of s ` set xs" if "hchain s (slot_of c k) = xs @ ys" for xs ys
    using h(2) that by (intro image_cong) auto
  then have w: "walked c t k prev cur = walked c s k prev cur" for prev cur unfolding walked_def h(1) by metis
  then show "walked c t k prev cur = walked c s k prev cur" .
  show "found c t k prev a = found c s k prev a"
    unfolding found_def w using h(2)[OF walked_mem[of c s k prev a]] by auto
qed

lemma chains_mine_frame:
  assumes "chains_mine s j cs" "mine t j = mine s j" "\<And>a. a \<in> mine s j \<Longrightarrow> nodes t a = nodes s a"
  shows "chains_mine t j cs"
proof -
  obtain ls where ls: "list_all2 (linked (nodes s)) cs ls" "mine s j = set (concat ls)" "distinct (concat ls)"
    using assms(1) by (auto simp: chains_mine_def)
  have "linked (nodes t) q l" if l: "l \<in> set ls" "linked (nodes s) q l" for q l
  proof -
    have "nodes t a = nodes s a" if "a \<in> set l" for a using that l(1) ls(2) assms(3) by auto
    then show ?thesis using l(2) linked_cong[of l "nodes s" "nodes t" q] by simp
  qed
  then have "list_all2 (linked (nodes t)) cs ls" using ls(1) by (auto elim: list.rel_mono_strong)
  with ls assms(2) show ?thesis unfolding chains_mine_def by auto
qed

lemma knows_frame:
  assumes j: "knows c s j pc"
    and t: "hcur (hthr t j) = hcur (hthr s j)" "hhist (hthr t j) = hhist (hthr s j)" "calls j (hlog t) = calls j (hlog s)"
      "mine t j = mine s j" "\<And>a. a \<in> mine s j \<Longrightarrow> nodes t a = nodes s a"
    and p: "\<And>p b. (p, b) \<in> set (pc_holds c pc) \<Longrightarrow> same_slot s t p"
  shows "knows c t j pc"
proof -
  have b: "before t j = before s j" "after t j = after s j" "idle t j = idle s j"
    unfolding fun_eq_iff before_def after_def idle_def t by simp_all
  have cm: "chains_mine s j cs \<Longrightarrow> chains_mine t j cs" for cs by (rule chains_mine_frame[of s]) (use t(4,5) in simp_all)
  have lk: "linked (nodes s) q as \<Longrightarrow> set as \<subseteq> mine s j \<Longrightarrow> linked (nodes t) q as" for q as
  proof -
    assume as: "linked (nodes s) q as" "set as \<subseteq> mine s j"
    then have "nodes t a = nodes s a" if "a \<in> set as" for a using that t(5) by auto
    then show ?thesis using as(1) linked_cong[of as "nodes s" "nodes t" q] by simp
  qed
  note ss = same_slot_search
  show ?thesis
  proof (cases pc)
    case (HWalk op prev cur)
    then show ?thesis using j b t(4) ss(2)[OF p[of "slot_of c (op_key op)" "op_writes op"]] by simp
  next
    case (HSwap k v a)
    then show ?thesis using j b t(4) ss(3)[OF p[of "slot_of c k" True]] by simp
  next
    case (HNew k v)
    then show ?thesis using j b t(4) ss(1)[OF p[of "slot_of c k" True]] by simp
  next
    case (HLink k v a)
    then show ?thesis using j b t(4,5) ss(1)[OF p[of "slot_of c k" True]] by (simp add: new_node_def)
  next
    case (HStore k v a)
    then show ?thesis using j b t(4,5) ss(1)[OF p[of "slot_of c k" True]] p[of "slot_of c k" True]
      by (simp add: new_node_def same_slot_def)
  next
    case (HNext k prev a)
    then show ?thesis using j b t(4) ss(3)[OF p[of "slot_of c k" True]] by simp
  next
    case (HUnlink k prev a nx)
    then have "same_slot s t (slot_of c k)" "a \<in> set (hchain s (slot_of c k))" using p[of _ True] j found_mem[of c s k prev a] by auto
    then show ?thesis using HUnlink j b t(4) ss(3)[of s t c k] by (simp add: same_slot_def)
  next
    case (CCount sh m cs cur n)
    then obtain as where "linked (nodes s) cur as" "set as \<subseteq> mine s j" using j by auto
    with lk[of cur as] show ?thesis using CCount j b t(4) cm by auto
  qed (use j b t(4,5) cm lk in auto)
qed

section \<open>Steps\<close>

lemma chain_ok_frame: "chain_ok c s p \<Longrightarrow> same_slot s t p \<Longrightarrow> chain_ok c t p"
proof -
  assume c: "chain_ok c s p" and st: "same_slot s t p"
  then have h: "hchain t p = hchain s p" "heads t p = heads s p" "\<And>a. a \<in> set (hchain s p) \<Longrightarrow> nodes t a = nodes s a"
    "{a. howner t a = Some (Inl p)} = {a. howner s a = Some (Inl p)}" by (auto simp: same_slot_def)
  have "linked (nodes t) (heads s p) (hchain s p) = linked (nodes s) (heads s p) (hchain s p)"
    by (rule linked_cong) (simp add: h)
  moreover have "map (nkey_of t) (hchain s p) = map (nkey_of s) (hchain s p)" by (rule map_cong) (simp_all add: h)
  moreover have "\<forall>a\<in>set (hchain s p). nhash (the (nodes t a)) = hc_hash c (nkey_of t a) \<and> slot_of c (nkey_of t a) = p"
    using c h(3) by (simp add: chain_ok_def)
  ultimately show ?thesis using c unfolding chain_ok_def h(1,2,4) by metis
qed

lemma lookup_frame: "same_slot s t p \<Longrightarrow> lookup t (hchain t p) k = lookup s (hchain s p) k"
proof -
  assume st: "same_slot s t p"
  then have "hchain t p = hchain s p" "\<And>a. a \<in> set (hchain s p) \<Longrightarrow> nodes t a = nodes s a" by (auto simp: same_slot_def)
  moreover have "map_option (nvalue_of t) (find (\<lambda>a. nkey_of t a = k) as) = map_option (nvalue_of s) (find (\<lambda>a. nkey_of s a = k) as)"
    if "\<And>a. a \<in> set as \<Longrightarrow> nodes t a = nodes s a" for as
    using that by (induction as) auto
  ultimately show ?thesis unfolding lookup_def by simp
qed

text \<open>A thread that writes a slot from a call has no guard on it.\<close>

lemma no_guard:
  assumes "slots_ok c s" "i < hthreads s" "(p, True) \<in> set (pc_holds c (hpc (hthr s i)))" "g \<in> set (hguards (hthr s i))"
  shows "fst g \<noteq> p"
proof
  assume g: "fst g = p"
  have th: "(p, True) \<in> set (thread_holds c (hthr s i))" using assms(3) by (simp add: thread_holds_def)
  note wa = writer_alone[OF assms(1,2) th]
  let ?gs = "map (\<lambda>g. (fst g, snd (snd g))) (hguards (hthr s i))"
  have m: "(p, snd (snd g)) \<in> set ?gs" unfolding set_map by (rule image_eqI[OF _ assms(4)]) (simp add: g)
  then have "snd (snd g)" using wa(3) by (cases "snd (snd g)") (simp_all add: thread_holds_def)
  with m have "(p, True) \<in> set ?gs" by simp
  then have "0 < count_list (map (\<lambda>g. (fst g, snd (snd g))) (hguards (hthr s i))) (p, True)"
    by (metis count_list_0_iff gr0I)
  moreover have "0 < count_list (pc_holds c (hpc (hthr s i))) (p, True)" using assms(3) by (metis count_list_0_iff gr0I)
  ultimately show False using wa(2) by (simp add: thread_holds_def)
qed

lemma conc_parts:
  assumes "conc_map_inv c s"
  shows "chain_ok c s p" "memory_ok s" "abstracts c s" "hlog_ok c s" "slots_ok c s"
    "i < hthreads s \<Longrightarrow> knows c s i (hpc (hthr s i))" "i < hthreads s \<Longrightarrow> hguards_ok s i"
  using assms unfolding conc_map_inv_def by blast+

text \<open>
  A step of thread \<open>i\<close> that writes only the slots \<open>W\<close>, which \<open>i\<close> holds, and its own entries keeps what the
  other threads know.
\<close>

lemma inv_frame:
  assumes inv: "conc_map_inv c s" and i: "i < hthreads s" and t: "hthreads t = hthreads s" "hthr t = (hthr s)(i := th)"
    and W: "\<And>p. p \<in> W \<Longrightarrow> (p, True) \<in> set (thread_holds c (hthr s i))" "\<And>p. p \<in> W \<Longrightarrow> chain_ok c t p"
      "\<And>p. p \<notin> W \<Longrightarrow> same_slot s t p"
    and oth: "\<And>j. j \<noteq> i \<Longrightarrow> mine t j = mine s j" "\<And>j a. j \<noteq> i \<Longrightarrow> a \<in> mine s j \<Longrightarrow> nodes t a = nodes s a"
      "\<And>j. j \<noteq> i \<Longrightarrow> calls j (hlog t) = calls j (hlog s)"
    and ok: "memory_ok t" "abstracts c t" "hlog_ok c t" "slots_ok c t" "knows c t i (hpc th)" "hguards_ok t i"
  shows "conc_map_inv c t"
  unfolding conc_map_inv_def
proof (intro conjI allI impI ok(1-4))
  show "chain_ok c t p" for p using W(2)[of p] chain_ok_frame[OF conc_parts(1)[OF inv] W(3)[of p]] by blast
  fix j assume "j < hthreads t"
  then have j: "j < hthreads s" by (simp add: t)
  have free: "same_slot s t p" if "j \<noteq> i" "(p, b) \<in> set (thread_holds c (hthr s j))" for p b
    using writer_alone(1)[OF conc_parts(5)[OF inv] i W(1)[of p] j that(1), of b] that(2) W(3)[of p] by blast
  show "knows c t j (hpc (hthr t j))"
  proof (cases "j = i")
    case False
    have "knows c t j (hpc (hthr s j))"
    proof (rule knows_frame[OF conc_parts(6)[OF inv j]])
      show "same_slot s t p" if "(p, b) \<in> set (pc_holds c (hpc (hthr s j)))" for p b
        using free[OF False, of p b] that by (simp add: thread_holds_def)
    qed (use False oth in \<open>simp_all add: t\<close>)
    with False show ?thesis by (simp add: t)
  qed (use ok(5) t in simp)
  show "hguards_ok t j"
  proof (cases "j = i")
    case False
    have "fst (snd g) \<in> set (hchain t (fst g))" if "g \<in> set (hguards (hthr s j))" for g
    proof -
      have "(fst g, snd (snd g)) \<in> set (thread_holds c (hthr s j))" using that by (simp add: thread_holds_def)
      from free[OF False this] have "hchain t (fst g) = hchain s (fst g)" by (simp add: same_slot_def)
      then show ?thesis using that conc_parts(7)[OF inv j] by (simp add: hguards_ok_def)
    qed
    with False show ?thesis by (simp add: hguards_ok_def t)
  qed (use ok(6) in simp)
qed

end
