(* ===== verification/HashMap_Conc_Steps.thy ===== *)
theory HashMap_Conc_Steps
  imports HashMap_Conc_Inv
begin

text \<open>
  The kinds of step of concurrent \<open>AtomicHashMap\<close>, by what they write: only the thread and the locks,
  an entry of the thread, the value of an entry of a slot, or the chain of a slot.
\<close>

section \<open>The abstract map at a slot_held slot\<close>

lemma slot_of_bound: "0 < hc_cap c \<Longrightarrow> snd (slot_of c k) < unat (hc_cap c)"
  unfolding slot_of_def by (simp add: unat_mod word_less_nat_alt)

lemma clearing_holds: "clearing pc p \<Longrightarrow> snd p < unat (hc_cap c) \<Longrightarrow> (p, True) \<in> set (pc_holds c pc)"
  by (cases pc; cases p) auto

lemma others_not_clearing:
  assumes "conc_map_inv c s" "0 < hc_cap c" "i < hthreads s" "(slot_of c k, b) \<in> set (thread_holds c (hthr s i))"
    "j < hthreads s" "j \<noteq> i"
  shows "\<not> clearing (hpc (hthr s j)) (slot_of c k)"
proof
  assume "clearing (hpc (hthr s j)) (slot_of c k)"
  then have "(slot_of c k, True) \<in> set (thread_holds c (hthr s j))"
    using clearing_holds slot_of_bound[OF assms(2)] unfolding thread_holds_def by fastforce
  from writer_alone(1)[OF conc_parts(5)[OF assms(1)] assms(5) this assms(3)] assms(4,6) show False by blast
qed

lemma abstract_at:
  assumes "conc_map_inv c s" "0 < hc_cap c" "i < hthreads s" "(slot_of c k, b) \<in> set (thread_holds c (hthr s i))"
    "\<not> clearing (hpc (hthr s i)) (slot_of c k)"
  shows "hmap s k = lookup s (hchain s (slot_of c k)) k"
proof -
  have "\<not> (\<exists>j<hthreads s. clearing (hpc (hthr s j)) (slot_of c k))"
    using others_not_clearing[OF assms(1-4)] assms(5) by blast
  then show ?thesis using conc_parts(3)[OF assms(1)] unfolding abstracts_def by auto
qed

lemma lookup_missing: "missing c s k \<Longrightarrow> lookup s (hchain s (slot_of c k)) k = None"
  by (auto simp: lookup_def missing_def find_None_iff)

lemma lookup_member:
  assumes "distinct (map (nkey_of s) as)" "a \<in> set as"
  shows "lookup s as (nkey_of s a) = Some (nvalue_of s a)"
  using assms unfolding lookup_def by (induction as) (auto simp: rev_image_eqI)

lemma chainD:
  assumes "chain_ok c s p"
  shows "linked (nodes s) (heads s p) (hchain s p)" "distinct (map (nkey_of s) (hchain s p))"
    "a \<in> set (hchain s p) \<longleftrightarrow> howner s a = Some (Inl p)"
    "a \<in> set (hchain s p) \<Longrightarrow> nhash (the (nodes s a)) = hc_hash c (nkey_of s a)"
    "a \<in> set (hchain s p) \<Longrightarrow> slot_of c (nkey_of s a) = p" "a \<in> set (hchain s p) \<Longrightarrow> a \<in> dom (nodes s)"
proof -
  show l: "linked (nodes s) (heads s p) (hchain s p)" using assms unfolding chain_ok_def by blast
  show "a \<in> set (hchain s p) \<Longrightarrow> a \<in> dom (nodes s)" using linked_dom[OF l] by blast
qed (use assms in \<open>auto simp: chain_ok_def\<close>)

lemma clearing_upd:
  assumes "i < hthreads s" "hthreads t = hthreads s" "hthr t = (hthr s)(i := th)"
  shows "(\<exists>j<hthreads t. clearing (hpc (hthr t j)) p) \<longleftrightarrow>
    clearing (hpc th) p \<or> (\<exists>j<hthreads s. j \<noteq> i \<and> clearing (hpc (hthr s j)) p)"
  using assms by (auto split: if_splits)

lemma abstracts_slots:
  assumes "conc_map_inv c s" "i < hthreads s" "hthreads t = hthreads s" "hthr t = (hthr s)(i := th)"
    and "\<And>k. slot_of c k \<notin> W \<Longrightarrow> hmap t k = hmap s k \<and> same_slot s t (slot_of c k) \<and>
      clearing (hpc th) (slot_of c k) = clearing (hpc (hthr s i)) (slot_of c k)"
    and "\<And>k. slot_of c k \<in> W \<Longrightarrow> hmap t k = (if clearing (hpc th) (slot_of c k) then None else lookup t (hchain t (slot_of c k)) k) \<and>
      (\<forall>j<hthreads s. j \<noteq> i \<longrightarrow> \<not> clearing (hpc (hthr s j)) (slot_of c k))"
  shows "abstracts c t"
  unfolding abstracts_def
proof
  fix k
  have eq: "hthr s = (hthr s)(i := hthr s i)" by simp
  note up = clearing_upd[OF assms(2-4), of "slot_of c k"] clearing_upd[OF assms(2) refl eq, of "slot_of c k"]
  show "hmap t k = (if \<exists>j<hthreads t. clearing (hpc (hthr t j)) (slot_of c k) then None else lookup t (hchain t (slot_of c k)) k)"
  proof (cases "slot_of c k \<in> W")
    case True
    show ?thesis unfolding up(1) using assms(6)[OF True] by auto
  next
    case False
    from conc_parts(3)[OF assms(1)]
    have "hmap s k = (if \<exists>j<hthreads s. clearing (hpc (hthr s j)) (slot_of c k) then None else lookup s (hchain s (slot_of c k)) k)"
      unfolding abstracts_def by blast
    then show ?thesis unfolding up using assms(5)[OF False] lookup_frame[of s t "slot_of c k" k] by auto
  qed
qed

section \<open>The log\<close>

lemma run_all_append:
  "run_all f s (xs @ ys) = (let (rs, t) = run_all f s xs; (qs, u) = run_all f t ys in (rs @ qs, u))"
  by (induction xs arbitrary: s) (auto simp: case_prod_beta Let_def)

lemma log_effect:
  assumes "hlog_ok c s" "hlog t = hlog s @ [(i, e, fst (map_spec c (hmap s) e))]" "hmap t = snd (map_spec c (hmap s) e)"
  shows "hlog_ok c t"
  using assms(1) unfolding hlog_ok_def assms(2,3) by (simp add: run_all_append case_prod_beta)

lemma calls_append: "calls j (l @ l') = calls j l @ calls j l'"
  by (induction j l rule: calls.induct) auto

section \<open>Kinds of step\<close>

lemma inv_thin:
  assumes inv: "conc_map_inv c s" and i: "i < hthreads s"
    and t: "nodes t = nodes s" "nfresh t = nfresh s" "heads t = heads s" "hchain t = hchain s" "howner t = howner s"
      "hmap t = hmap s" "hthreads t = hthreads s" "hthr t = (hthr s)(i := th)"
    and lg: "hlog_ok c t" "\<And>j. j \<noteq> i \<Longrightarrow> calls j (hlog t) = calls j (hlog s)"
    and cl: "\<And>k. clearing (hpc th) (slot_of c k) = clearing (hpc (hthr s i)) (slot_of c k)"
    and ok: "slots_ok c t" "knows c t i (hpc th)" "hguards_ok t i"
  shows "conc_map_inv c t"
proof (rule inv_frame[OF inv i t(7,8), where W = "{}"])
  show st: "same_slot s t p" for p by (simp add: same_slot_def t)
  show "memory_ok t" using conc_parts(2)[OF inv] by (simp add: memory_ok_def t)
  show "abstracts c t"
    by (rule abstracts_slots[OF inv i t(7,8), where W = "{}"]) (use st cl t(6) in simp_all)
qed (use lg ok in \<open>simp_all add: mine_def t\<close>)

text \<open>An entry of the thread is allocated, changed or freed.\<close>

lemma inv_own:
  assumes inv: "conc_map_inv c s" and i: "i < hthreads s"
    and t: "heads t = heads s" "hchain t = hchain s" "hmap t = hmap s" "hlog t = hlog s" "hthreads t = hthreads s"
      "hthr t = (hthr s)(i := th)"
    and a: "\<And>b. b \<noteq> a \<Longrightarrow> nodes t b = nodes s b \<and> howner t b = howner s b" "howner s a = None \<or> howner s a = Some (Inr i)"
      "howner t a = None \<or> howner t a = Some (Inr i)" "howner t a = None \<longleftrightarrow> nodes t a = None" "nfresh s \<le> nfresh t"
      "nodes t a \<noteq> None \<Longrightarrow> a < nfresh t"
    and cl: "\<And>k. clearing (hpc th) (slot_of c k) = clearing (hpc (hthr s i)) (slot_of c k)"
    and ok: "slots_ok c t" "knows c t i (hpc th)" "hguards_ok t i"
  shows "conc_map_inv c t"
proof (rule inv_frame[OF inv i t(5,6), where W = "{}"])
  have na: "b \<noteq> a" if "b \<in> set (hchain s p)" for b p using chainD(3)[OF conc_parts(1)[OF inv], of b p] that a(2) by auto
  show st: "same_slot s t p" for p
    unfolding same_slot_def t(1,2)
  proof (intro conjI refl ballI allI)
    show "nodes t b = nodes s b" if "b \<in> set (hchain s p)" for b using na[OF that] a(1) by blast
    show "(howner t b = Some (Inl p)) = (howner s b = Some (Inl p))" for b using a(1-3) by (cases "b = a") auto
  qed
  show "abstracts c t"
    by (rule abstracts_slots[OF inv i t(5,6), where W = "{}"]) (use st cl t(3) in simp_all)
  note m = conc_parts(2)[OF inv, unfolded memory_ok_def]
  show "memory_ok t" unfolding memory_ok_def
  proof (intro conjI ballI allI impI)
    have "(b \<in> dom (howner t)) = (b \<in> dom (nodes t))" for b
      using m a(1,4) by (cases "b = a") (auto simp: domIff)
    then show "dom (howner t) = dom (nodes t)" by blast
    show "b < nfresh t" if "b \<in> dom (nodes t)" for b
      using m that a(1)[of b] a(5,6) by (cases "b = a") (auto simp: domIff intro: order.strict_trans2)
    show "j < hthreads t" if "howner t b = Some (Inr j)" for b j using m that a(1)[of b] a(3) i t(5) by (cases "b = a") auto
  qed
  fix j assume j: "j \<noteq> i"
  have "b \<in> mine t j \<longleftrightarrow> b \<in> mine s j" for b using a(1-3) j by (cases "b = a") (auto simp: mine_def)
  then show "mine t j = mine s j" by blast
  show "nodes t b = nodes s b" if "b \<in> mine s j" for b using that a(1,2) j by (cases "b = a") (auto simp: mine_def)
qed (use conc_parts(4)[OF inv] ok t in \<open>simp_all add: hlog_ok_def\<close>)

text \<open>The chain of a slot that the thread writes changes, and entries move between the slot and the thread.\<close>

lemma inv_chain:
  assumes inv: "conc_map_inv c s" and cap: "0 < hc_cap c" and i: "i < hthreads s"
    and p: "(p, True) \<in> set (thread_holds c (hthr s i))"
    and t: "hthreads t = hthreads s" "hthr t = (hthr s)(i := th)" "nfresh t = nfresh s" "dom (nodes t) = dom (nodes s)"
    and q: "\<And>q. q \<noteq> p \<Longrightarrow> heads t q = heads s q \<and> hchain t q = hchain s q"
    and a: "\<And>b. howner s b \<noteq> Some (Inl p) \<Longrightarrow> howner s b \<noteq> Some (Inr i) \<Longrightarrow> nodes t b = nodes s b \<and> howner t b = howner s b"
      "\<And>b. howner s b = Some (Inl p) \<or> howner s b = Some (Inr i) \<Longrightarrow> howner t b = Some (Inl p) \<or> howner t b = Some (Inr i)"
    and lg: "hlog_ok c t" "\<And>j. j \<noteq> i \<Longrightarrow> calls j (hlog t) = calls j (hlog s)"
    and m: "\<And>k. slot_of c k \<noteq> p \<Longrightarrow> hmap t k = hmap s k \<and> clearing (hpc th) (slot_of c k) = clearing (hpc (hthr s i)) (slot_of c k)"
      "\<And>k. slot_of c k = p \<Longrightarrow> hmap t k = (if clearing (hpc th) p then None else lookup t (hchain t p) k)"
    and ok: "chain_ok c t p" "slots_ok c t" "knows c t i (hpc th)" "hguards_ok t i"
  shows "conc_map_inv c t"
proof (rule inv_frame[OF inv i t(1,2), where W = "{p}"])
  show st: "same_slot s t r" if "r \<notin> {p}" for r
    unfolding same_slot_def
  proof (intro conjI ballI allI)
    have "howner s b = Some (Inl r)" if "b \<in> set (hchain s r)" for b using chainD(3)[OF conc_parts(1)[OF inv]] that by blast
    then show "nodes t b = nodes s b" if "b \<in> set (hchain s r)" for b using that \<open>r \<notin> {p}\<close> a(1)[of b] by auto
    show "(howner t b = Some (Inl r)) = (howner s b = Some (Inl r))" for b
      using that a[of b] by (cases "howner s b = Some (Inl p) \<or> howner s b = Some (Inr i)") auto
  qed (use q that in auto)
  show "abstracts c t"
    by (rule abstracts_slots[OF inv i t(1,2), where W = "{p}"])
      (use st m in simp, use m others_not_clearing[OF inv cap i, of _ True] p in auto)
  note mm = conc_parts(2)[OF inv, unfolded memory_ok_def]
  show "memory_ok t" unfolding memory_ok_def t(3,4)
  proof (intro conjI ballI allI impI)
    have "(b \<in> dom (howner t)) = (b \<in> dom (howner s))" for b
      using a[of b] by (cases "howner s b = Some (Inl p) \<or> howner s b = Some (Inr i)") (auto simp: domIff)
    then show "dom (howner t) = dom (nodes s)" using mm by blast
    show "b < nfresh s" if "b \<in> dom (nodes s)" for b using mm that by blast
    show "j < hthreads t" if "howner t b = Some (Inr j)" for b j
      using mm that a[of b] i t(1) by (cases "howner s b = Some (Inl p) \<or> howner s b = Some (Inr i)") auto
  qed
  fix j assume j: "j \<noteq> i"
  have "b \<in> mine t j \<longleftrightarrow> b \<in> mine s j" for b
    using a[of b] j by (cases "howner s b = Some (Inl p) \<or> howner s b = Some (Inr i)") (auto simp: mine_def)
  then show "mine t j = mine s j" by blast
  show "nodes t b = nodes s b" if "b \<in> mine s j" for b using that a(1)[of b] j by (auto simp: mine_def)
qed (use p lg ok in auto)

text \<open>The value of an entry of a slot is replaced.\<close>

lemma inv_write:
  assumes inv: "conc_map_inv c s" and cap: "0 < hc_cap c" and i: "i < hthreads s"
    and p: "(p, True) \<in> set (thread_holds c (hthr s i))" and a: "a \<in> set (hchain s p)" "nodes s a = Some nd"
    and t: "nodes t = (nodes s)(a \<mapsto> nd\<lparr>nvalue := v\<rparr>)" "nfresh t = nfresh s" "heads t = heads s" "hchain t = hchain s"
      "howner t = howner s" "hmap t = (hmap s)(nkey nd \<mapsto> v)" "hthreads t = hthreads s" "hthr t = (hthr s)(i := th)"
    and lg: "hlog_ok c t" "\<And>j. j \<noteq> i \<Longrightarrow> calls j (hlog t) = calls j (hlog s)"
    and cl: "\<And>k. \<not> clearing (hpc th) (slot_of c k)" "\<And>k. \<not> clearing (hpc (hthr s i)) (slot_of c k)"
    and ok: "slots_ok c t" "knows c t i (hpc th)" "hguards_ok t i"
  shows "conc_map_inv c t"
proof (rule inv_chain[OF inv cap i p t(7,8,2)])
  note ch = chainD[OF conc_parts(1)[OF inv, of p]]
  have ks: "nkey_of t b = nkey_of s b" "nhash (the (nodes t b)) = nhash (the (nodes s b))" for b by (simp_all add: t a)
  have "linked (nodes t) (heads t p) (hchain s p) = linked (nodes s) (heads s p) (hchain s p)"
    unfolding t(3) by (rule linked_cong) (simp add: t a)
  then show "chain_ok c t p" unfolding chain_ok_def ks using conc_parts(1)[OF inv, of p] t unfolding chain_ok_def by simp
  show "dom (nodes t) = dom (nodes s)" using a t by auto
  have own: "howner s a = Some (Inl p)" using ch(3) a(1) by blast
  show "nodes t b = nodes s b \<and> howner t b = howner s b" if "howner s b \<noteq> Some (Inl p)" "howner s b \<noteq> Some (Inr i)" for b
    using that own by (auto simp: t)
  have kp: "slot_of c (nkey nd) = p" using ch(5)[OF a(1)] a(2) by simp
  show "hmap t k = hmap s k \<and> clearing (hpc th) (slot_of c k) = clearing (hpc (hthr s i)) (slot_of c k)" if "slot_of c k \<noteq> p" for k
    using that kp cl by (auto simp: t)
  fix k assume k: "slot_of c k = p"
  have lk: "lookup t (hchain s p) k = (if k = nkey nd then Some v else lookup s (hchain s p) k)"
  proof (cases "k = nkey nd")
    case True
    have "distinct (map (nkey_of t) (hchain s p))" using ch(2) by (simp only: ks)
    then have "lookup t (hchain s p) (nkey_of t a) = Some (nvalue_of t a)" using lookup_member a(1) by blast
    then show ?thesis using True a t by simp
  next
    case False
    then have "find (\<lambda>b. nkey_of s b = k) (hchain s p) \<noteq> Some a" using a(2) by (auto simp: find_Some_iff)
    then show ?thesis using False unfolding lookup_def ks by (cases "find (\<lambda>b. nkey_of s b = k) (hchain s p)") (auto simp: t)
  qed
  have "hmap s k = lookup s (hchain s p) k" using abstract_at[OF inv cap i, of k True] p k cl(2)[of k] by simp
  then show "hmap t k = (if clearing (hpc th) p then None else lookup t (hchain t p) k)"
    using cl(1)[of k] k lk t(4,6) by auto
qed (use lg ok t in auto)

end
