(* ===== verification/HashMap_Conc_Ops.thy ===== *)
theory HashMap_Conc_Ops
  imports HashMap_Conc_Steps
begin

text \<open>Every step of concurrent \<open>AtomicHashMap\<close> keeps the invariant.\<close>

section \<open>Moves\<close>

text \<open>Thread \<open>i\<close> moves on: memory and the abstract map stay, locks and counters may change.\<close>

definition hmoves :: "('k, 'v) hsys \<Rightarrow> ('k, 'v) hsys \<Rightarrow> tid \<Rightarrow> ('k, 'v) hpc \<Rightarrow> bool" where
  "hmoves s t i pc \<longleftrightarrow> nodes t = nodes s \<and> nfresh t = nfresh s \<and> heads t = heads s \<and> hchain t = hchain s \<and> howner t = howner s \<and>
     hmap t = hmap s \<and> hlog t = hlog s \<and> hthreads t = hthreads s \<and> hthr t = (hthr s)(i := (hthr s i)\<lparr>hpc := pc\<rparr>)"

lemma knows_same:
  assumes "knows c s i pc" "nodes t = nodes s" "heads t = heads s" "hchain t = hchain s" "howner t = howner s" "hlog t = hlog s"
    "hcur (hthr t i) = hcur (hthr s i)" "hhist (hthr t i) = hhist (hthr s i)"
  shows "knows c t i pc"
  by (rule knows_frame[OF assms(1)]) (simp_all add: assms mine_def same_slot_def)

lemma inv_moves:
  assumes inv: "conc_map_inv c s" and i: "i < hthreads s" and m: "hmoves s t i pc" and ok: "slots_ok c t" "knows c s i pc"
    and cl: "\<And>k. clearing pc (slot_of c k) = clearing (hpc (hthr s i)) (slot_of c k)"
  shows "conc_map_inv c t"
proof -
  note m' = m[unfolded hmoves_def]
  have "knows c t i pc" by (rule knows_same[OF ok(2)]) (use m' in auto)
  then show ?thesis
    by (intro inv_thin[OF inv i, of t "(hthr s i)\<lparr>hpc := pc\<rparr>"])
      (use m' cl ok(1) conc_parts(4)[OF inv] conc_parts(7)[OF inv i] in \<open>auto simp: hlog_ok_def hguards_ok_def\<close>)
qed

lemma moves_thr:
  "hmoves s t i pc \<Longrightarrow> hthreads t = hthreads s" "hmoves s t i pc \<Longrightarrow> hthr t = (hthr s)(i := (hthr s i)\<lparr>hpc := pc\<rparr>)"
  by (simp_all add: hmoves_def)

lemma moves_same:
  assumes "conc_map_inv c s" "i < hthreads s" "hmoves s t i pc" "slot_locks t = slot_locks s"
    "pc_holds c pc = pc_holds c (hpc (hthr s i))" "knows c s i pc"
    "\<And>k. clearing pc (slot_of c k) = clearing (hpc (hthr s i)) (slot_of c k)"
  shows "conc_map_inv c t"
proof -
  have "slots_ok c t"
    by (rule locks_same[OF conc_parts(5)[OF assms(1)] assms(2) moves_thr[OF assms(3)] assms(4)]) (simp add: thread_holds_def assms(5))
  with assms show ?thesis by (blast intro: inv_moves)
qed

lemma moves_acquire:
  assumes "conc_map_inv c s" "i < hthreads s" "hmoves s t i pc" "slot_lock j wr (slot_locks s p) = Got l"
    "slot_locks t = (slot_locks s)(p := l)" "pc_holds c pc = pc_holds c (hpc (hthr s i)) @ [(p, wr)]" "knows c s i pc"
    "\<And>k. clearing pc (slot_of c k) = clearing (hpc (hthr s i)) (slot_of c k)"
  shows "conc_map_inv c t"
proof -
  have "slots_ok c t"
    by (rule locks_acquire[OF conc_parts(5)[OF assms(1)] assms(2) moves_thr[OF assms(3)] assms(4,5)])
      (auto simp: thread_holds_def assms(6))
  with assms show ?thesis by (blast intro: inv_moves)
qed

lemma moves_release:
  assumes "conc_map_inv c s" "i < hthreads s" "hmoves s t i pc"
    "slot_locks t = (slot_locks s)(p := slot_unlock (slot_locks s p))" "pc_holds c (hpc (hthr s i)) = (p, wr) # pc_holds c pc"
    "knows c s i pc" "\<And>k. clearing pc (slot_of c k) = clearing (hpc (hthr s i)) (slot_of c k)"
  shows "conc_map_inv c t"
proof -
  have "slots_ok c t"
    by (rule locks_release[OF conc_parts(5)[OF assms(1)] assms(2) moves_thr[OF assms(3)] assms(4), where wr = wr])
      (auto simp: thread_holds_def assms(5))
  with assms show ?thesis by (blast intro: inv_moves)
qed

text \<open>A call that only reads takes effect; the slot lock may pass to a guard.\<close>

lemma inv_read:
  assumes inv: "conc_map_inv c s" and i: "i < hthreads s"
    and t: "nodes t = nodes s" "nfresh t = nfresh s" "heads t = heads s" "hchain t = hchain s" "howner t = howner s"
      "hmap t = hmap s" "hthreads t = hthreads s" "hlog t = hlog s @ [(i, Call op, r)]" "slot_locks t = slot_locks s"
      "hthr t = (hthr s)(i := (hthr s i)\<lparr>hpc := pc, hguards := hguards (hthr s i) @ gs\<rparr>)"
    and r: "map_spec c (hmap s) (Call op) = (r, hmap s)" "r \<noteq> MPanic" "before s i op" "mine s i = {}"
    and pc: "pc = HUnlock p wr r \<or> pc = HUnshare sh r" "\<And>k. \<not> clearing (hpc (hthr s i)) (slot_of c k)"
    and gs: "pc_holds c (hpc (hthr s i)) = pc_holds c pc @ map (\<lambda>g. (fst g, snd (snd g))) gs" "\<And>g. g \<in> set gs \<Longrightarrow> fst (snd g) \<in> set (hchain s (fst g))"
  shows "conc_map_inv c t"
proof (rule inv_thin[OF inv i t(1-7,10)])
  show "hlog_ok c t" by (rule log_effect[OF conc_parts(4)[OF inv], where e = "Call op" and i = i]) (use t r in simp_all)
  show "calls j (hlog t) = calls j (hlog s)" if "j \<noteq> i" for j using that by (simp add: t calls_append)
  have "after t i r" using r(2,3) by (simp add: after_def before_def t calls_append)
  moreover have "mine t i = {}" using r(4) by (simp add: mine_def t)
  ultimately show "knows c t i (hpc ((hthr s i)\<lparr>hpc := pc, hguards := hguards (hthr s i) @ gs\<rparr>))" using pc(1) r(2) by auto
  show "hguards_ok t i" using conc_parts(7)[OF inv i] gs(2) unfolding hguards_ok_def t by (simp add: ball_Un)
  show "slots_ok c t"
    by (rule locks_same[OF conc_parts(5)[OF inv] i t(7,10,9)]) (simp add: thread_holds_def gs(1))
qed (use pc in auto)

section \<open>The search\<close>

lemma walked_start: "chain_ok c s (slot_of c k) \<Longrightarrow> walked c s k None (heads s (slot_of c k))"
  unfolding walked_def using linked_first[OF chainD(1)] by (intro exI[of _ "[]"] exI[of _ "hchain s (slot_of c k)"]) (simp add: last_of_def)

lemma walked_end: "walked c s k prev None \<Longrightarrow> missing c s k"
proof -
  assume "walked c s k prev None"
  then obtain xs ys where "hchain s (slot_of c k) = xs @ ys" "first_of ys = None" "k \<notin> nkey_of s ` set xs"
    unfolding walked_def by metis
  then show ?thesis by (cases ys) (auto simp: missing_def first_of_def)
qed

lemma walked_cases:
  assumes ch: "chain_ok c s (slot_of c k)" and w: "walked c s k prev (Some a)" and a: "nodes s a = Some nd"
  shows "node_matches c k nd \<Longrightarrow> found c s k prev a" "\<not> node_matches c k nd \<Longrightarrow> walked c s k (Some a) (nnext nd)"
proof -
  show "node_matches c k nd \<Longrightarrow> found c s k prev a" using w a by (simp add: found_def node_matches_def)
  assume no: "\<not> node_matches c k nd"
  have "nkey nd \<noteq> k" using chainD(4)[OF ch walked_mem[OF w]] no a by (auto simp: node_matches_def)
  moreover obtain xs ys where xy: "hchain s (slot_of c k) = xs @ a # ys" "k \<notin> nkey_of s ` set xs"
    using w unfolding walked_def first_of_def by (metis list.case_eq_if list.collapse option.distinct(1) option.inject)
  moreover have "nnext nd = first_of ys" using linked_append[of "nodes s" _ "xs @ [a]" ys] chainD(1)[OF ch] xy(1) a by auto
  ultimately show "walked c s k (Some a) (nnext nd)"
    unfolding walked_def using a by (intro exI[of _ "xs @ [a]"] exI[of _ ys]) (simp add: last_of_def)
qed

lemma found_chain:
  assumes "found c s k prev a"
  obtains xs ys where "hchain s (slot_of c k) = xs @ a # ys" "prev = last_of xs" "k \<notin> nkey_of s ` set xs" "nkey_of s a = k"
  using assms unfolding found_def walked_def first_of_def
  by (metis list.case_eq_if list.collapse option.distinct(1) option.inject)

lemma found_map:
  assumes "conc_map_inv c s" "0 < hc_cap c" "i < hthreads s" "(slot_of c k, b) \<in> set (pc_holds c (hpc (hthr s i)))"
    "\<not> clearing (hpc (hthr s i)) (slot_of c k)"
  shows "found c s k prev a \<Longrightarrow> hmap s k = Some (nvalue_of s a)" "missing c s k \<Longrightarrow> hmap s k = None"
proof -
  have m: "hmap s k = lookup s (hchain s (slot_of c k)) k"
    by (rule abstract_at[OF assms(1-3) _ assms(5), where b = b]) (use assms(4) in \<open>simp add: thread_holds_def\<close>)
  show "missing c s k \<Longrightarrow> hmap s k = None" using m lookup_missing by metis
  assume f: "found c s k prev a"
  have "nkey_of s a = k" using f by (simp add: found_def)
  then show "hmap s k = Some (nvalue_of s a)"
    using m lookup_member[OF chainD(2)[OF conc_parts(1)[OF assms(1)]] found_mem[OF f]] by simp
qed

text \<open>The search ends: a writing call goes on, a reading call takes effect.\<close>

lemma on_missing_inv:
  assumes inv: "conc_map_inv c s" and cap: "0 < hc_cap c" and i: "i < hthreads s" and pc: "hpc (hthr s i) = HWalk op prev None"
  shows "conc_map_inv c (on_missing c s i op)"
proof -
  have tk: "mine s i = {}" "before s i op" "missing c s (op_key op)"
    using conc_parts(6)[OF inv i] pc walked_end[of c s "op_key op" prev] by auto
  have m: "hmap s (op_key op) = None"
    by (rule found_map(2)[OF inv cap i, where b = "op_writes op"]) (use pc tk in auto)
  have rd: "conc_map_inv c (takes_effect c i (Call op) (hgo s i (HUnlock (slot_of c (op_key op)) (op_writes op) r)))"
    if "map_spec c (hmap s) (Call op) = (r, hmap s)" "r \<noteq> MPanic" for r
    by (rule inv_read[OF inv i, where gs = "[]" and op = op and r = r and pc = "HUnlock (slot_of c (op_key op)) (op_writes op) r"])
      (use that pc tk in \<open>simp_all add: takes_effect_def hgo_def\<close>)
  show ?thesis
  proof (cases op)
    case (MInsert k v)
    then show ?thesis using tk pc by (auto intro!: moves_same[OF inv i, where pc = "HNew k v"] simp: hmoves_def hgo_def)
  next
    case (MRemove k)
    have "(hmap s)(k := None) = hmap s" using m MRemove by auto
    then show ?thesis using rd[of "MOld None"] MRemove m by simp
  next
    case (MContains k)
    then show ?thesis using rd[of "MBool False"] m by simp
  qed (use rd[of "MOld None"] m in simp_all)
qed

lemma on_found_inv:
  assumes inv: "conc_map_inv c s" and cap: "0 < hc_cap c" and i: "i < hthreads s" and pc: "hpc (hthr s i) = HWalk op prev (Some a)"
    and a: "nodes s a = Some nd" "node_matches c (op_key op) nd"
  shows "conc_map_inv c (on_found c s i op prev a nd)"
proof -
  have f: "found c s (op_key op) prev a" and tk: "mine s i = {}" "before s i op"
    using conc_parts(6)[OF inv i] pc walked_cases(1)[OF conc_parts(1)[OF inv] _ a(1)] a(2) by auto
  have m: "hmap s (op_key op) = Some (nvalue nd)"
    using found_map(1)[OF inv cap i, where b = "op_writes op", OF _ _ f] pc a by auto
  note mem = found_mem[OF f]
  show ?thesis
  proof (cases op)
    case (MInsert k v)
    then show ?thesis using tk pc f by (auto intro!: moves_same[OF inv i, where pc = "HSwap k v a"] simp: hmoves_def hgo_def)
  next
    case (MRemove k)
    then show ?thesis using tk pc f by (auto intro!: moves_same[OF inv i, where pc = "HNext k prev a"] simp: hmoves_def hgo_def)
  next
    case (MContains k)
    show ?thesis
      by (rule inv_read[OF inv i, where gs = "[]" and op = op and r = "MBool True" and pc = "HUnlock (slot_of c k) False (MBool True)"])
        (use MContains pc tk m in \<open>auto simp: takes_effect_def hgo_def\<close>)
  next
    case (MGet k)
    show ?thesis
      by (rule inv_read[OF inv i, where gs = "[(slot_of c k, a, False)]" and op = op and r = "MOld (Some (nvalue nd))"
            and pc = "HUnshare (fst (slot_of c k)) (MOld (Some (nvalue nd)))"])
        (use MGet pc tk m mem in \<open>auto simp: takes_effect_def hgo_def\<close>)
  next
    case (MGetMut k)
    show ?thesis
      by (rule inv_read[OF inv i, where gs = "[(slot_of c k, a, True)]" and op = op and r = "MOld (Some (nvalue nd))"
            and pc = "HUnshare (fst (slot_of c k)) (MOld (Some (nvalue nd)))"])
        (use MGetMut pc tk m mem in \<open>auto simp: takes_effect_def hgo_def\<close>)
  qed
qed

end
