(* ===== verification/HashMap_Conc_Write.thy ===== *)
theory HashMap_Conc_Write
  imports HashMap_Conc_Ops
begin

text \<open>The steps of \<open>insert\<close> and \<open>remove\<close> that write memory keep the invariant.\<close>

lemma pc_writes: "(p, True) \<in> set (pc_holds c (hpc th)) \<Longrightarrow> (p, True) \<in> set (thread_holds c th)"
  by (simp add: thread_holds_def)

lemma guards_same: "hguards_ok s i \<Longrightarrow> hchain t = hchain s \<Longrightarrow> hguards (hthr t i) = hguards (hthr s i) \<Longrightarrow> hguards_ok t i"
  by (simp add: hguards_ok_def)

lemma guards_elsewhere:
  assumes "conc_map_inv c s" "i < hthreads s" "(p, True) \<in> set (pc_holds c (hpc (hthr s i)))"
    "\<And>q. q \<noteq> p \<Longrightarrow> hchain t q = hchain s q" "hguards (hthr t i) = hguards (hthr s i)"
  shows "hguards_ok t i"
  using conc_parts(7)[OF assms(1,2)] no_guard[OF conc_parts(5)[OF assms(1)] assms(2,3)] assms(4,5) by (simp add: hguards_ok_def)

text \<open>The locks are as before when the thread holds what it held.\<close>

lemma locks_still:
  assumes "conc_map_inv c s" "i < hthreads s" "hthreads t = hthreads s" "hthr t = (hthr s)(i := (hthr s i)\<lparr>hpc := pc\<rparr>)"
    "slot_locks t = slot_locks s" "pc_holds c pc = pc_holds c (hpc (hthr s i))"
  shows "slots_ok c t"
  by (rule locks_same[OF conc_parts(5)[OF assms(1)] assms(2-5)]) (simp add: thread_holds_def assms(6))

lemma swap_inv:
  assumes inv: "conc_map_inv c s" and cap: "0 < hc_cap c" and i: "i < hthreads s" and pc: "hpc (hthr s i) = HSwap k v a"
    and st: "op_step c s i (HSwap k v a) = Some t"
  shows "conc_map_inv c t"
proof -
  have tk: "mine s i = {}" "before s i (MInsert k v)" using conc_parts(6)[OF inv i] pc by auto
  obtain prev where f: "found c s k prev a" using conc_parts(6)[OF inv i] pc by auto
  obtain nd where nd: "nodes s a = Some nd" using st by (auto split: option.splits)
  let ?pc = "HUnlock (slot_of c k) True (MOld (Some (nvalue nd)))"
  have t: "t = takes_effect c i (Call (MInsert k v)) ((hgo s i ?pc)\<lparr>nodes := (nodes s)(a \<mapsto> nd\<lparr>nvalue := v\<rparr>)\<rparr>)"
    using st nd by simp
  have m: "hmap s k = Some (nvalue nd)" using found_map(1)[OF inv cap i _ _ f, of True] pc nd by simp
  have k: "nkey nd = k" using f nd by (simp add: found_def)
  show ?thesis
  proof (rule inv_write[OF inv cap i _ found_mem[OF f] nd, where v = v and th = "(hthr s i)\<lparr>hpc := ?pc\<rparr>"])
    show "hlog_ok c t"
      by (rule log_effect[OF conc_parts(4)[OF inv], where i = i and e = "Call (MInsert k v)"]) (simp_all add: t takes_effect_def hgo_def)
    show "slots_ok c t" by (rule locks_still[OF inv i, where pc = ?pc]) (simp_all add: t takes_effect_def hgo_def pc)
    show "hguards_ok t i" by (rule guards_same[OF conc_parts(7)[OF inv i]]) (simp_all add: t takes_effect_def hgo_def)
    show "knows c t i (hpc ((hthr s i)\<lparr>hpc := ?pc\<rparr>))"
      using tk m by (simp add: t takes_effect_def hgo_def mine_def after_def before_def calls_append)
  qed (use pc in \<open>simp_all add: t takes_effect_def hgo_def k calls_append pc_writes\<close>)
qed

lemma new_inv:
  assumes inv: "conc_map_inv c s" and i: "i < hthreads s" and pc: "hpc (hthr s i) = HNew k v"
    and st: "op_step c s i (HNew k v) = Some t"
  shows "conc_map_inv c t"
proof -
  have tk: "mine s i = {}" "before s i (MInsert k v)" "missing c s k" using conc_parts(6)[OF inv i] pc by auto
  let ?a = "nfresh s" and ?pc = "HLink k v (nfresh s)"
  have t: "t = (hgo s i ?pc)\<lparr>nodes := (nodes s)(?a \<mapsto> \<lparr>nkey = k, nvalue = v, nhash = hc_hash c k, nnext = None\<rparr>),
      nfresh := ?a + 1, howner := (howner s)(?a \<mapsto> Inr i)\<rparr>" using st by (simp add: Let_def)
  have fr: "nodes s ?a = None" "howner s ?a = None" using conc_parts(2)[OF inv] unfolding memory_ok_def by blast+
  have na: "?a \<notin> set (hchain s p)" for p using chainD(3)[OF conc_parts(1)[OF inv]] fr(2) by simp
  show ?thesis
  proof (rule inv_own[OF inv i, where a = ?a and th = "(hthr s i)\<lparr>hpc := ?pc\<rparr>"])
    show "slots_ok c t" by (rule locks_still[OF inv i, where pc = ?pc]) (simp_all add: t hgo_def pc)
    show "hguards_ok t i" by (rule guards_same[OF conc_parts(7)[OF inv i]]) (simp_all add: t hgo_def)
    have "mine t i = {?a}" using tk(1) by (auto simp: mine_def t hgo_def)
    moreover have "missing c t k" using tk(3) na[of "slot_of c k"] by (auto simp: missing_def t hgo_def image_iff)
    moreover have "before t i (MInsert k v)" using tk(2) by (simp add: before_def t hgo_def)
    ultimately show "knows c t i (hpc ((hthr s i)\<lparr>hpc := ?pc\<rparr>))" by (simp add: new_node_def t hgo_def)
  qed (use pc fr in \<open>simp_all add: t hgo_def\<close>)
qed

lemma link_inv:
  assumes inv: "conc_map_inv c s" and i: "i < hthreads s" and pc: "hpc (hthr s i) = HLink k v a"
    and st: "op_step c s i (HLink k v a) = Some t"
  shows "conc_map_inv c t"
proof -
  have tk: "before s i (MInsert k v)" "mine s i = {a}" "missing c s k" "nkey_of s a = k" "nvalue_of s a = v"
    "nhash (the (nodes s a)) = hc_hash c k" using conc_parts(6)[OF inv i] pc by (auto simp: new_node_def)
  obtain nd where nd: "nodes s a = Some nd" using st by (auto split: option.splits)
  let ?pc = "HStore k v a"
  have t: "t = (hgo s i ?pc)\<lparr>nodes := (nodes s)(a \<mapsto> nd\<lparr>nnext := heads s (slot_of c k)\<rparr>)\<rparr>" using st nd by simp
  have own: "howner s a = Some (Inr i)" using tk(2) by (auto simp: mine_def)
  have na: "a \<notin> set (hchain s p)" for p using chainD(3)[OF conc_parts(1)[OF inv]] own by simp
  show ?thesis
  proof (rule inv_own[OF inv i, where a = a and th = "(hthr s i)\<lparr>hpc := ?pc\<rparr>"])
    show "slots_ok c t" by (rule locks_still[OF inv i, where pc = ?pc]) (simp_all add: t hgo_def pc)
    show "hguards_ok t i" by (rule guards_same[OF conc_parts(7)[OF inv i]]) (simp_all add: t hgo_def)
    have "mine t i = {a}" using tk(2) by (auto simp: mine_def t hgo_def)
    moreover have "missing c t k" using tk(3) na[of "slot_of c k"] by (auto simp: missing_def t hgo_def image_iff)
    moreover have "before t i (MInsert k v)" using tk(1) by (simp add: before_def t hgo_def)
    ultimately show "knows c t i (hpc ((hthr s i)\<lparr>hpc := ?pc\<rparr>))" using tk(4-6) nd by (simp add: new_node_def t hgo_def)
    show "nodes t a \<noteq> None \<Longrightarrow> a < nfresh t" using conc_parts(2)[OF inv] nd by (auto simp: memory_ok_def t hgo_def)
  qed (use pc own in \<open>simp_all add: t hgo_def\<close>)
qed

lemma free_inv:
  assumes inv: "conc_map_inv c s" and i: "i < hthreads s" and pc: "hpc (hthr s i) = HFree k a v"
    and st: "op_step c s i (HFree k a v) = Some t"
  shows "conc_map_inv c t"
proof -
  have tk: "mine s i = {a}" "after s i (MOld (Some v))" using conc_parts(6)[OF inv i] pc by auto
  let ?pc = "HUnlock (slot_of c k) True (MOld (Some v))"
  have t: "t = (hgo s i ?pc)\<lparr>nodes := (nodes s)(a := None), howner := (howner s)(a := None)\<rparr>" using st by (auto split: option.splits)
  have own: "howner s a = Some (Inr i)" using tk(1) by (auto simp: mine_def)
  show ?thesis
  proof (rule inv_own[OF inv i, where a = a and th = "(hthr s i)\<lparr>hpc := ?pc\<rparr>"])
    show "slots_ok c t" by (rule locks_still[OF inv i, where pc = ?pc]) (simp_all add: t hgo_def pc)
    show "hguards_ok t i" by (rule guards_same[OF conc_parts(7)[OF inv i]]) (simp_all add: t hgo_def)
    have "mine t i = {}" using tk(1) by (auto simp: mine_def t hgo_def)
    then show "knows c t i (hpc ((hthr s i)\<lparr>hpc := ?pc\<rparr>))" using tk(2) by (simp add: after_def t hgo_def)
  qed (use pc own in \<open>simp_all add: t hgo_def\<close>)
qed

lemma unshare_inv:
  assumes inv: "conc_map_inv c s" and i: "i < hthreads s" and pc: "hpc (hthr s i) = HUnshare sh r"
    and st: "op_step c s i (HUnshare sh r) = Some t"
  shows "conc_map_inv c t"
proof -
  have tk: "mine s i = {}" "if r = MPanic then idle s i else after s i r" using conc_parts(6)[OF inv i] pc by auto
  have t: "t = (hreturn (remember s i r) i r)\<lparr>shard_locks := (shard_locks s)(sh := rw_unshare (shard_locks s sh))\<rparr>" using st by simp
  show ?thesis
  proof (rule inv_thin[OF inv i, where th = "hthr t i"])
    show "slots_ok c t" by (rule locks_same[OF conc_parts(5)[OF inv] i, where th = "hthr t i"])
      (simp_all add: t hreturn_def remember_def thread_holds_def pc)
    show "knows c t i (hpc (hthr t i))" using tk
      by (auto simp: t hreturn_def remember_def mine_def idle_def after_def split: if_splits option.splits)
  qed (use pc conc_parts(4)[OF inv] conc_parts(7)[OF inv i] in \<open>simp_all add: t hreturn_def remember_def hlog_ok_def hguards_ok_def\<close>)
qed

section \<open>Linking a new entry\<close>

lemma lookup_Cons: "lookup s (a # as) k = (if nkey_of s a = k then Some (nvalue_of s a) else lookup s as k)"
  by (simp add: lookup_def)

lemma lookup_cong: "(\<And>a. a \<in> set as \<Longrightarrow> nkey_of t a = nkey_of s a \<and> nvalue_of t a = nvalue_of s a) \<Longrightarrow> lookup t as k = lookup s as k"
  by (induction as) (simp_all add: lookup_Cons, simp add: lookup_def)

lemma store_inv:
  assumes inv: "conc_map_inv c s" and cap: "0 < hc_cap c" and i: "i < hthreads s" and pc: "hpc (hthr s i) = HStore k v a"
    and st: "op_step c s i (HStore k v a) = Some t"
  shows "conc_map_inv c t"
proof -
  let ?p = "slot_of c k" and ?pc = "HInc k :: ('a, 'b) hpc"
  have tk: "before s i (MInsert k v)" "mine s i = {a}" "missing c s k" "nkey_of s a = k" "nvalue_of s a = v"
    "nhash (the (nodes s a)) = hc_hash c k" "nnext (the (nodes s a)) = heads s ?p"
    using conc_parts(6)[OF inv i] pc by (auto simp: new_node_def)
  have t: "t = takes_effect c i (Call (MInsert k v)) ((hgo s i ?pc)
      \<lparr>heads := (heads s)(?p := Some a), hchain := (hchain s)(?p := a # hchain s ?p), howner := (howner s)(a \<mapsto> Inl ?p)\<rparr>)"
    using st by (simp add: Let_def)
  have T: "nodes t = nodes s" "heads t ?p = Some a" "hchain t ?p = a # hchain s ?p" "howner t = (howner s)(a \<mapsto> Inl ?p)"
    "hmap t = (hmap s)(k \<mapsto> v)" by (simp_all add: t takes_effect_def hgo_def)
  have own: "howner s a = Some (Inr i)" using tk(2) by (auto simp: mine_def)
  obtain nd where nd: "nodes s a = Some nd" using own conc_parts(2)[OF inv] unfolding memory_ok_def by blast
  note ch = conc_parts(1)[OF inv, of ?p]
  have m: "hmap s k = None" using found_map(2)[OF inv cap i _ _ tk(3), of True] pc by simp
  show ?thesis
  proof (rule inv_chain[OF inv cap i, where p = ?p and th = "(hthr s i)\<lparr>hpc := ?pc\<rparr>"])
    show "hlog_ok c t"
      by (rule log_effect[OF conc_parts(4)[OF inv], where i = i and e = "Call (MInsert k v)"]) (simp_all add: t takes_effect_def hgo_def)
    show "slots_ok c t" by (rule locks_still[OF inv i, where pc = ?pc]) (simp_all add: t takes_effect_def hgo_def pc)
    show "hguards_ok t i"
      by (rule guards_elsewhere[OF inv i, where p = ?p]) (simp_all add: t takes_effect_def hgo_def pc)
    have "mine t i = {}" using tk(2) T(4) by (auto simp: mine_def)
    then show "knows c t i (hpc ((hthr s i)\<lparr>hpc := ?pc\<rparr>))"
      using tk(1) m by (simp add: t takes_effect_def hgo_def after_def before_def calls_append)
    show "chain_ok c t ?p" unfolding chain_ok_def T(1-4)
    proof (intro conjI ballI)
      show "linked (nodes s) (Some a) (a # hchain s ?p)" using chainD(1)[OF ch] nd tk(7) by simp
      show "distinct (map (nkey_of s) (a # hchain s ?p))" using chainD(2)[OF ch] tk(3,4) by (simp add: missing_def)
      show "set (a # hchain s ?p) = {b. ((howner s)(a \<mapsto> Inl ?p)) b = Some (Inl ?p)}" using chainD(3)[OF ch] by auto
      show "nhash (the (nodes s b)) = hc_hash c (nkey_of s b)" "slot_of c (nkey_of s b) = ?p" if "b \<in> set (a # hchain s ?p)" for b
        using that tk(4,6) chainD(4,5)[OF ch, of b] by auto
    qed
    show "hmap t l = (if clearing (hpc ((hthr s i)\<lparr>hpc := ?pc\<rparr>)) ?p then None else lookup t (hchain t ?p) l)" if "slot_of c l = ?p" for l
    proof -
      have "hmap s l = lookup s (hchain s ?p) l"
        using abstract_at[OF inv cap i, of l True] pc that by (simp add: thread_holds_def)
      then show ?thesis using tk(4,5) unfolding T(3,5) lookup_Cons lookup_cong[of "hchain s ?p" t s] by (simp add: T(1) lookup_def)
    qed
  qed (use pc own in \<open>auto simp: t takes_effect_def hgo_def calls_append pc_writes\<close>)
qed

section \<open>Unlinking an entry\<close>

lemma linked_remove:
  assumes "linked H q (xs @ b # a # ys)" "H b = Some nb" "distinct (xs @ b # a # ys)"
  shows "linked (H(b \<mapsto> nb\<lparr>nnext := nnext (the (H a))\<rparr>)) q (xs @ b # ys)"
  using assms(1,3)
proof (induction xs arbitrary: q)
  case Nil
  let ?H = "H(b \<mapsto> nb\<lparr>nnext := nnext (the (H a))\<rparr>)"
  from Nil assms(2) obtain na where na: "q = Some b" "H a = Some na" "linked H (nnext na) ys" by auto
  moreover have "linked ?H (nnext na) ys = linked H (nnext na) ys" by (rule linked_cong) (use Nil in auto)
  ultimately show ?case by (simp add: fun_upd_def)
next
  case (Cons x xs)
  then obtain nx where "q = Some x" "H x = Some nx" "linked H (nnext nx) (xs @ b # a # ys)" by auto
  with Cons show ?case by auto
qed

lemma lookup_remove:
  assumes "distinct (map (nkey_of s) (xs @ a # ys))"
  shows "lookup s (xs @ ys) k = (if k = nkey_of s a then None else lookup s (xs @ a # ys) k)"
  using assms
proof (induction xs)
  case Nil
  then have "lookup s ys (nkey_of s a) = None" by (auto simp: lookup_def find_None_iff image_iff)
  then show ?case by (simp add: lookup_Cons)
next
  case (Cons x xs)
  then show ?case by (auto simp: lookup_Cons)
qed

lemma unlink_inv:
  assumes inv: "conc_map_inv c s" and cap: "0 < hc_cap c" and i: "i < hthreads s" and pc: "hpc (hthr s i) = HUnlink k prev a nx"
    and st: "op_step c s i (HUnlink k prev a nx) = Some t"
  shows "conc_map_inv c t"
proof -
  let ?p = "slot_of c k" and ?pc = "HTake k a :: ('a, 'b) hpc"
  have tk: "mine s i = {}" "before s i (MRemove k)" "found c s k prev a" "nx = nnext (the (nodes s a))"
    using conc_parts(6)[OF inv i] pc by auto
  obtain xs ys where xy: "hchain s ?p = xs @ a # ys" "prev = last_of xs" "nkey_of s a = k" using found_chain[OF tk(3)] by metis
  note ch = conc_parts(1)[OF inv, of ?p]
  have ds: "distinct (xs @ a # ys)" using chainD(2)[OF ch] unfolding xy(1) distinct_map by blast
  then have rm: "remove1 a (hchain s ?p) = xs @ ys" unfolding xy(1) by (simp add: remove1_append)
  have m: "hmap s k = Some (nvalue_of s a)" using found_map(1)[OF inv cap i _ _ tk(3), of True] pc by simp
  have T: "hthr t = (hthr s)(i := (hthr s i)\<lparr>hpc := ?pc\<rparr>)" "hthreads t = hthreads s" "nfresh t = nfresh s" "slot_locks t = slot_locks s"
    "hchain t = (hchain s)(?p := xs @ ys)" "howner t = (howner s)(a \<mapsto> Inr i)" "hmap t = (hmap s)(k := None)"
    "hlog t = hlog s @ [(i, Call (MRemove k), MOld (hmap s k))]" "\<And>q. q \<noteq> ?p \<Longrightarrow> heads t q = heads s q"
    using st rm by (auto simp: Let_def takes_effect_def hgo_def split: option.splits)
  have own: "howner s a = Some (Inl ?p)" using chainD(3)[OF ch, of a] xy(1) by simp
  have nds: "dom (nodes t) = dom (nodes s)" "nkey_of t b = nkey_of s b" "nvalue_of t b = nvalue_of s b"
    "nhash (the (nodes t b)) = nhash (the (nodes s b))" "b \<notin> set xs \<Longrightarrow> nodes t b = nodes s b" for b
    using st xy(2) by (auto simp: Let_def takes_effect_def hgo_def last_of_def split: option.splits if_splits)
  have lk: "linked (nodes t) (heads t ?p) (xs @ ys)"
  proof (cases xs rule: rev_cases)
    case Nil
    then show ?thesis using chainD(1)[OF ch] xy st tk(4) by (auto simp: Let_def takes_effect_def hgo_def last_of_def)
  next
    case (snoc zs b)
    then have "prev = Some b" using xy(2) by (simp add: last_of_def)
    then obtain nb where nb: "nodes s b = Some nb" "nodes t = (nodes s)(b \<mapsto> nb\<lparr>nnext := nx\<rparr>)" "heads t = heads s"
      using st by (auto simp: Let_def takes_effect_def hgo_def split: option.splits)
    show ?thesis using linked_remove[of "nodes s" "heads s ?p" zs b a ys nb] chainD(1)[OF ch] nb ds tk(4) by (simp add: xy(1) snoc)
  qed
  show ?thesis
  proof (rule inv_chain[OF inv cap i, where p = ?p, OF _ T(2,1,3) nds(1)])
    show "hlog_ok c t"
      by (rule log_effect[OF conc_parts(4)[OF inv], where i = i and e = "Call (MRemove k)"]) (simp_all add: T)
    show "slots_ok c t" by (rule locks_still[OF inv i T(2,1,4)]) (simp add: pc)
    show "hguards_ok t i" by (rule guards_elsewhere[OF inv i, where p = ?p]) (simp_all add: T pc)
    have "mine t i = {a}" using tk(1) T(6) by (auto simp: mine_def)
    then show "knows c t i (hpc ((hthr s i)\<lparr>hpc := ?pc\<rparr>))"
      using tk(2) m by (simp add: T after_def before_def calls_append nds)
    show "chain_ok c t ?p" unfolding chain_ok_def T(5,6) fun_upd_same nds(2,4)
    proof (intro conjI ballI lk)
      show "distinct (map (nkey_of s) (xs @ ys))" using chainD(2)[OF ch] xy(1) by auto
      show "set (xs @ ys) = {b. ((howner s)(a \<mapsto> Inr i)) b = Some (Inl ?p)}" using chainD(3)[OF ch] xy(1) ds by auto
      show "nhash (the (nodes s b)) = hc_hash c (nkey_of s b)" "slot_of c (nkey_of s b) = ?p" if "b \<in> set (xs @ ys)" for b
        using that chainD(4,5)[OF ch, of b] xy(1) by auto
    qed
    show "hmap t l = (if clearing (hpc ((hthr s i)\<lparr>hpc := ?pc\<rparr>)) ?p then None else lookup t (hchain t ?p) l)" if "slot_of c l = ?p" for l
    proof -
      have "hmap s l = lookup s (hchain s ?p) l" using abstract_at[OF inv cap i, of l True] pc that by (simp add: thread_holds_def)
      moreover have "lookup t (xs @ ys) l = (if l = k then None else lookup s (hchain s ?p) l)"
        using lookup_remove[of s xs a ys l] chainD(2)[OF ch] xy(1,3) lookup_cong[of "xs @ ys" t s l] nds by simp
      ultimately show ?thesis by (simp add: T)
    qed
    show "nodes t b = nodes s b \<and> howner t b = howner s b" if "howner s b \<noteq> Some (Inl ?p)" "howner s b \<noteq> Some (Inr i)" for b
      using that own chainD(3)[OF ch, of b] xy(1) nds(5)[of b] by (auto simp: T)
  qed (use pc own in \<open>auto simp: T calls_append thread_holds_def\<close>)
qed

section \<open>All steps of a keyed operation\<close>

lemma op_step_inv:
  assumes inv: "conc_map_inv c s" and cap: "0 < hc_cap c" and i: "i < hthreads s" and st: "op_step c s i (hpc (hthr s i)) = Some t"
  shows "conc_map_inv c t"
proof -
  note tk = conc_parts(6)[OF inv i]
  note mv = moves_same[OF inv i]
  show ?thesis
  proof (cases "hpc (hthr s i)")
    case (HShard op)
    then show ?thesis using st tk inv
      by (auto simp: Let_def hgo_def hmoves_def split: option.splits intro!: mv[of _ "HSlot op"])
  next
    case (HSlot op)
    show ?thesis
    proof (cases "slot_lock i (op_writes op) (slot_locks s (slot_of c (op_key op)))")
      case (Got l)
      show ?thesis by (rule moves_acquire[OF inv i _ Got, where pc = "HHead op"])
        (use st tk HSlot Got in \<open>auto simp: Let_def hgo_def hmoves_def\<close>)
    next
      case Wait
      then show ?thesis using st HSlot inv by (simp add: Let_def)
    next
      case Conflict
      show ?thesis by (rule mv[where pc = "HUnshare (fst (slot_of c (op_key op))) MPanic"])
        (use st tk HSlot Conflict in \<open>auto simp: Let_def hgo_def hmoves_def before_def idle_def\<close>)
    qed
  next
    case (HHead op)
    show ?thesis by (rule mv[where pc = "HWalk op None (heads s (slot_of c (op_key op)))"])
      (use st tk HHead walked_start[OF conc_parts(1)[OF inv]] in \<open>auto simp: hgo_def hmoves_def\<close>)
  next
    case (HWalk op prev cur)
    show ?thesis
    proof (cases cur)
      case None
      then show ?thesis using st HWalk on_missing_inv[OF inv cap i] by simp
    next
      case (Some a)
      then obtain nd where nd: "nodes s a = Some nd" using st HWalk by (auto split: option.splits)
      show ?thesis
      proof (cases "node_matches c (op_key op) nd")
        case True
        then show ?thesis using st HWalk Some nd on_found_inv[OF inv cap i _ nd] by simp
      next
        case False
        show ?thesis by (rule mv[where pc = "HWalk op (Some a) (nnext nd)"])
          (use st tk HWalk Some nd False walked_cases(2)[OF conc_parts(1)[OF inv] _ nd False] in \<open>auto simp: hgo_def hmoves_def\<close>)
      qed
    qed
  next
    case (HInc k)
    show ?thesis by (rule mv[where pc = "HUnlock (slot_of c k) True (MOld None)"])
      (use st tk HInc in \<open>auto simp: hgo_def hmoves_def Let_def\<close>)
  next
    case (HNext k prev a)
    then obtain nd where nd: "nodes s a = Some nd" using st by (auto split: option.splits)
    show ?thesis by (rule mv[where pc = "HUnlink k prev a (nnext nd)"])
      (use st tk HNext nd in \<open>auto simp: hgo_def hmoves_def\<close>)
  next
    case (HTake k a)
    then obtain nd where nd: "nodes s a = Some nd" using st by (auto split: option.splits)
    show ?thesis by (rule mv[where pc = "HDec k a (nvalue nd)"])
      (use st tk HTake nd in \<open>auto simp: hgo_def hmoves_def\<close>)
  next
    case (HDec k a v)
    show ?thesis by (rule mv[where pc = "HFree k a v"])
      (use st tk HDec in \<open>auto simp: hgo_def hmoves_def Let_def\<close>)
  next
    case (HUnlock p wr r)
    show ?thesis by (rule moves_release[OF inv i, where pc = "HUnshare (fst p) r" and p = p and wr = wr])
      (use st tk HUnlock in \<open>auto simp: hgo_def hmoves_def after_def\<close>)
  qed (use st swap_inv[OF inv cap i] new_inv[OF inv i] link_inv[OF inv i] store_inv[OF inv cap i] unlink_inv[OF inv cap i]
      free_inv[OF inv i] unshare_inv[OF inv i] in \<open>simp_all del: op_step.simps(5,6,7,8,11,14,16)\<close>)
qed

end
