(* ===== verification/HashMap_Conc_Clear.thy ===== *)
theory HashMap_Conc_Clear
  imports HashMap_Conc_Write
begin

text \<open>The steps of \<open>clear\<close> and of the guards keep the invariant.\<close>

section \<open>Detached chains\<close>

lemma chains_mine_Nil: "chains_mine s i [] \<longleftrightarrow> mine s i = {}"
  by (auto simp: chains_mine_def)

lemma chains_mine_None: "chains_mine s i (None # cs) \<Longrightarrow> chains_mine s i cs"
proof -
  assume "chains_mine s i (None # cs)"
  then obtain l ls where "linked (nodes s) None l" "list_all2 (linked (nodes s)) cs ls" "mine s i = set (concat (l # ls))"
    "distinct (concat (l # ls))" by (auto simp: chains_mine_def list_all2_Cons1)
  moreover from this(1) have "l = []" by (cases l) auto
  ultimately show ?thesis by (auto simp: chains_mine_def)
qed

lemma chains_mine_snoc:
  assumes "chains_mine s i cs" "linked (nodes t) q as" "nodes t = nodes s" "distinct as" "mine t i = mine s i \<union> set as" "mine s i \<inter> set as = {}"
  shows "chains_mine t i (cs @ [q])"
proof -
  obtain ls where "list_all2 (linked (nodes s)) cs ls" "mine s i = set (concat ls)" "distinct (concat ls)"
    using assms(1) by (auto simp: chains_mine_def)
  then show ?thesis using assms unfolding chains_mine_def
    by (intro exI[of _ "ls @ [as]"]) (auto intro!: list_all2_appendI)
qed

lemma chains_mine_free:
  assumes "chains_mine s i (Some a # cs)" "nodes s a = Some nd" "nodes t = (nodes s)(a := None)" "mine t i = mine s i - {a}"
  shows "chains_mine t i (nnext nd # cs)"
proof -
  obtain l' ls where l': "linked (nodes s) (Some a) l'" and ls: "list_all2 (linked (nodes s)) cs ls" "mine s i = set (concat (l' # ls))"
    "distinct (concat (l' # ls))" using assms(1) by (auto simp: chains_mine_def list_all2_Cons1)
  from l' assms(2) obtain l where l: "l' = a # l" "linked (nodes s) (nnext nd) l" by (cases l') auto
  have fr: "linked (nodes t) q as" if "linked (nodes s) q as" "a \<notin> set as" for q as
  proof -
    have "map_option nnext (nodes s b) = map_option nnext (nodes t b)" if "b \<in> set as" for b
      using that \<open>a \<notin> set as\<close> assms(3) by auto
    then show ?thesis using linked_cong[of as "nodes s" "nodes t" q] that(1) by simp
  qed
  have "list_all2 (linked (nodes t)) cs ls" using ls(1)
    by (rule list.rel_mono_strong) (use fr ls(3) l(1) in auto)
  moreover have "linked (nodes t) (nnext nd) l" using fr[OF l(2)] ls(3) l(1) by auto
  ultimately show ?thesis unfolding chains_mine_def using ls(2,3) l(1) assms(4)
    by (intro exI[of _ "l # ls"]) auto
qed

section \<open>Steps of clear\<close>

lemma inv_return:
  assumes inv: "conc_map_inv c s" and i: "i < hthreads s"
    and t: "nodes t = nodes s" "nfresh t = nfresh s" "heads t = heads s" "hchain t = hchain s" "howner t = howner s"
      "hmap t = hmap s" "hthreads t = hthreads s" "hlog t = hlog s" "slot_locks t = slot_locks s"
      "hthr t = (hthr s)(i := (hthr s i)\<lparr>hpc := HIdle, hans := x\<rparr>)"
    and pc: "pc_holds c (hpc (hthr s i)) = []" "\<And>k. \<not> clearing (hpc (hthr s i)) (slot_of c k)" "mine s i = {}" "idle s i"
  shows "conc_map_inv c t"
proof (rule inv_thin[OF inv i t(1-7,10)])
  show "slots_ok c t" by (rule locks_same[OF conc_parts(5)[OF inv] i t(7,10,9)]) (simp add: thread_holds_def pc(1))
qed (use pc conc_parts(4)[OF inv] conc_parts(7)[OF inv i] in \<open>simp_all add: t hlog_ok_def hguards_ok_def idle_def mine_def\<close>)

lemma next_shard_inv:
  assumes "conc_map_inv c s" "i < hthreads s" "pc_holds c (hpc (hthr s i)) = []" "\<And>k. \<not> clearing (hpc (hthr s i)) (slot_of c k)"
    "mine s i = {}" "idle s i"
  shows "conc_map_inv c (next_shard c s i sh)"
proof (cases "sh < hc_shards c")
  case True
  show ?thesis by (rule moves_same[OF assms(1,2), where pc = "CTry sh"])
    (use True assms(3-) in \<open>simp_all add: next_shard_def hmoves_def hgo_def\<close>)
next
  case False
  show ?thesis by (rule inv_return[OF assms(1,2), where x = "Some MDone"])
    (use False assms(3-) in \<open>simp_all add: next_shard_def hreturn_def\<close>)
qed

lemma clear_effect_inv:
  assumes inv: "conc_map_inv c s" and cap: "0 < hc_cap c" and i: "i < hthreads s" and pc: "hpc (hthr s i) = CGuards sh (unat (hc_cap c))"
  shows "conc_map_inv c (takes_effect c i (Clear sh) (hgo s i (CSwap sh 0 [])))" (is "conc_map_inv c ?t")
proof -
  have tk: "mine s i = {}" "idle s i" using conc_parts(6)[OF inv i] pc by auto
  have T: "hthreads ?t = hthreads s" "hthr ?t = (hthr s)(i := (hthr s i)\<lparr>hpc := CSwap sh 0 []\<rparr>)" by (simp_all add: takes_effect_def hgo_def)
  have st: "same_slot s ?t p" for p by (simp add: same_slot_def takes_effect_def hgo_def)
  have h: "(slot_of c k, True) \<in> set (thread_holds c (hthr s i))" if "fst (slot_of c k) = sh" for k
    using slot_of_bound[OF cap, of k] that by (cases "slot_of c k") (auto simp: thread_holds_def pc)
  show ?thesis
  proof (rule inv_frame[OF inv i T, where W = "{}"])
    show "abstracts c ?t"
    proof (rule abstracts_slots[OF inv i T, where W = "{p. fst p = sh}"])
      fix k
      assume "slot_of c k \<in> {p. fst p = sh}"
      then show "hmap ?t k = (if clearing (hpc ((hthr s i)\<lparr>hpc := CSwap sh 0 []\<rparr>)) (slot_of c k) then None else lookup ?t (hchain ?t (slot_of c k)) k) \<and>
          (\<forall>j<hthreads s. j \<noteq> i \<longrightarrow> \<not> clearing (hpc (hthr s j)) (slot_of c k))"
        using others_not_clearing[OF inv cap i h] by (auto simp: takes_effect_def)
    qed (use st pc in \<open>auto simp: takes_effect_def hgo_def\<close>)
    show "hlog_ok c ?t" by (rule log_effect[OF conc_parts(4)[OF inv], where i = i and e = "Clear sh"]) (simp_all add: takes_effect_def hgo_def)
    show "slots_ok c ?t" by (rule locks_still[OF inv i T]) (simp_all add: pc takes_effect_def hgo_def)
    show "memory_ok ?t" using conc_parts(2)[OF inv] by (simp add: memory_ok_def takes_effect_def hgo_def)
    have "mine ?t i = {}" using tk(1) by (simp add: mine_def takes_effect_def hgo_def)
    then show "knows c ?t i (hpc ((hthr s i)\<lparr>hpc := CSwap sh 0 []\<rparr>))"
      using tk(2) by (simp add: chains_mine_Nil idle_def takes_effect_def hgo_def calls_append)
    show "hguards_ok ?t i" by (rule guards_same[OF conc_parts(7)[OF inv i]]) (simp_all add: takes_effect_def hgo_def)
  qed (use st in \<open>simp_all add: mine_def takes_effect_def hgo_def calls_append\<close>)
qed

lemma detach_inv:
  assumes inv: "conc_map_inv c s" and cap: "0 < hc_cap c" and i: "i < hthreads s" and pc: "hpc (hthr s i) = CSwap sh j cs"
    and j: "j < unat (hc_cap c)" and st: "clear_step c s i (CSwap sh j cs) = Some t"
  shows "conc_map_inv c t"
proof -
  let ?p = "(sh, j)" and ?h = "heads s (sh, j)"
  let ?pc = "CCount sh j (cs @ [?h]) ?h 0"
  have tk: "chains_mine s i cs" "idle s i" using conc_parts(6)[OF inv i] pc by auto
  have T: "hthreads t = hthreads s" "hthr t = (hthr s)(i := (hthr s i)\<lparr>hpc := ?pc\<rparr>)" "nfresh t = nfresh s" "nodes t = nodes s"
    "slot_locks t = slot_locks s" "hmap t = hmap s" "hlog t = hlog s" "heads t = (heads s)(?p := None)" "hchain t = (hchain s)(?p := [])"
    "howner t = (\<lambda>a. if howner s a = Some (Inl ?p) then Some (Inr i) else howner s a)" using st j by (auto simp: hgo_def)
  note ch = conc_parts(1)[OF inv, of ?p]
  have pw: "(?p, True) \<in> set (pc_holds c (hpc (hthr s i)))" using j pc by simp
  have my: "mine t i = mine s i \<union> set (hchain s ?p)" "mine s i \<inter> set (hchain s ?p) = {}"
    using chainD(3)[OF ch] by (auto simp: mine_def T(10))
  have cm: "chains_mine t i (cs @ [?h])"
    by (rule chains_mine_snoc[OF tk(1) _ T(4) _ my]) (use chainD(1,2)[OF ch] in \<open>auto simp: T(4) distinct_map\<close>)
  show ?thesis
  proof (rule inv_chain[OF inv cap i pc_writes[OF pw] T(1-3)])
    show "slots_ok c t" by (rule locks_still[OF inv i T(1,2,5)]) (simp add: pc)
    show "hguards_ok t i" by (rule guards_elsewhere[OF inv i pw]) (simp_all add: T)
    show "knows c t i (hpc ((hthr s i)\<lparr>hpc := ?pc\<rparr>))"
      using cm tk(2) my(1) chainD(1)[OF ch] by (auto simp: idle_def T)
    show "chain_ok c t ?p" by (auto simp: chain_ok_def T)
    show "hmap t k = hmap s k \<and> clearing (hpc ((hthr s i)\<lparr>hpc := ?pc\<rparr>)) (slot_of c k) = clearing (hpc (hthr s i)) (slot_of c k)"
      if "slot_of c k \<noteq> ?p" for k using that by (cases "slot_of c k") (auto simp: pc T)
    show "hmap t k = (if clearing (hpc ((hthr s i)\<lparr>hpc := ?pc\<rparr>)) ?p then None else lookup t (hchain t ?p) k)" if "slot_of c k = ?p" for k
    proof -
      have "\<exists>m<hthreads s. clearing (hpc (hthr s m)) (slot_of c k)" using i that pc by (intro exI[of _ i]) simp
      then have "hmap s k = None" using conc_parts(3)[OF inv] unfolding abstracts_def by simp
      then show ?thesis by (simp add: T lookup_def)
    qed
  qed (use conc_parts(4)[OF inv] in \<open>auto simp: T hlog_ok_def\<close>)
qed

lemma destroy_inv:
  assumes inv: "conc_map_inv c s" and i: "i < hthreads s" and pc: "hpc (hthr s i) = CNode sh (Some a) cs"
    and st: "clear_step c s i (CNode sh (Some a) cs) = Some t"
  shows "conc_map_inv c t"
proof -
  have tk: "chains_mine s i (Some a # cs)" "idle s i" using conc_parts(6)[OF inv i] pc by auto
  obtain nd where nd: "nodes s a = Some nd" using st by (auto split: option.splits)
  let ?pc = "CNode sh (nnext nd) cs"
  have t: "t = (hgo s i ?pc)\<lparr>nodes := (nodes s)(a := None), howner := (howner s)(a := None)\<rparr>" using st nd by simp
  have "a \<in> mine s i"
  proof -
    obtain l ls where "linked (nodes s) (Some a) l" "mine s i = set (concat (l # ls))"
      using tk(1) by (auto simp: chains_mine_def list_all2_Cons1)
    then show ?thesis by (cases l) auto
  qed
  then have own: "howner s a = Some (Inr i)" by (simp add: mine_def)
  show ?thesis
  proof (rule inv_own[OF inv i, where a = a and th = "(hthr s i)\<lparr>hpc := ?pc\<rparr>"])
    show "slots_ok c t" by (rule locks_still[OF inv i, where pc = ?pc]) (simp_all add: t hgo_def pc)
    show "hguards_ok t i" by (rule guards_same[OF conc_parts(7)[OF inv i]]) (simp_all add: t hgo_def)
    have "mine t i = mine s i - {a}" by (auto simp: mine_def t hgo_def)
    then have "chains_mine t i (nnext nd # cs)" using chains_mine_free[OF tk(1) nd] by (simp add: t hgo_def)
    then show "knows c t i (hpc ((hthr s i)\<lparr>hpc := ?pc\<rparr>))" using tk(2) by (simp add: idle_def t hgo_def)
  qed (use pc own in \<open>simp_all add: t hgo_def\<close>)
qed

lemma upt_head: "j < m \<Longrightarrow> [j..<m] = j # [Suc j..<m]"
  by (rule upt_conv_Cons)

lemma leave_inv:
  assumes "conc_map_inv c s" "i < hthreads s" "pc_holds c (hpc (hthr s i)) = []" "\<And>k. \<not> clearing (hpc (hthr s i)) (slot_of c k)"
    "mine s i = {}" "idle s i"
  shows "conc_map_inv c ((if own then hreturn s i MPanic else hgo s i (CTry sh))\<lparr>shard_locks := S\<rparr>)"
proof (cases own)
  case True
  show ?thesis by (rule inv_return[OF assms(1,2), where x = "Some MPanic"]) (use True assms(3-) in \<open>simp_all add: hreturn_def\<close>)
next
  case False
  show ?thesis by (rule moves_same[OF assms(1,2), where pc = "CTry sh"]) (use False assms(3-) in \<open>simp_all add: hmoves_def hgo_def\<close>)
qed

lemma guards_step_inv:
  assumes inv: "conc_map_inv c s" and cap: "0 < hc_cap c" and i: "i < hthreads s" and pc: "hpc (hthr s i) = CGuards sh j"
    and st: "clear_step c s i (CGuards sh j) = Some t"
  shows "conc_map_inv c t"
proof -
  have tk: "mine s i = {}" "idle s i" "j \<le> unat (hc_cap c)" using conc_parts(6)[OF inv i] pc by auto
  show ?thesis
  proof (cases "j < unat (hc_cap c)")
    case False
    then have "j = unat (hc_cap c)" using tk(3) by simp
    then show ?thesis using st clear_effect_inv[OF inv cap i] pc by simp
  next
    case j: True
    show ?thesis
    proof (cases "slot_locks s (sh, j) = SFree")
      case True
      then have g: "slot_lock i True (slot_locks s (sh, j)) = Got (SWriting i)" by simp
      show ?thesis by (rule moves_acquire[OF inv i _ g, where pc = "CGuards sh (j + 1)"])
        (use st True j pc tk in \<open>auto simp: hmoves_def hgo_def\<close>)
    next
      case False
      show ?thesis by (rule moves_same[OF inv i, where pc = "COwned sh j"])
        (use st False j pc tk in \<open>auto simp: hmoves_def hgo_def split: slock.splits\<close>)
    qed
  qed
qed

lemma clear_step_inv:
  assumes inv: "conc_map_inv c s" and cap: "0 < hc_cap c" and i: "i < hthreads s" and st: "clear_step c s i (hpc (hthr s i)) = Some t"
  shows "conc_map_inv c t"
proof -
  note tk = conc_parts(6)[OF inv i]
  note mv = moves_same[OF inv i]
  show ?thesis
  proof (cases "hpc (hthr s i)")
    case (CTry sh)
    define pc where "pc = (if rw_exclusive (shard_locks s sh) = None then CShared sh else CGuards sh 0 :: ('a, 'b) hpc)"
    show ?thesis by (rule mv[where pc = pc])
      (use st tk CTry in \<open>auto simp: hgo_def hmoves_def pc_def split: option.splits\<close>)
  next
    case (CGuards sh j)
    then show ?thesis using guards_step_inv[OF inv cap i] st by simp
  next
    case (COwned sh j)
    show ?thesis by (rule mv[where pc = "CBack sh 0 j (slot_owned i (slot_locks s (sh, j)))"])
      (use st tk COwned in \<open>auto simp: hgo_def hmoves_def\<close>)
  next
    case (CSwap sh j cs)
    show ?thesis
    proof (cases "j < unat (hc_cap c)")
      case True
      then show ?thesis using detach_inv[OF inv cap i CSwap] st CSwap by simp
    next
      case False
      have "\<not> j \<le> snd (slot_of c k)" for k using False slot_of_bound[OF cap, of k] by simp
      then show ?thesis by (intro mv[where pc = "CRelease sh 0 cs"]) (use st tk CSwap False in \<open>auto simp: hgo_def hmoves_def\<close>)
    qed
  next
    case (CCount sh j cs cur n)
    show ?thesis
    proof (cases cur)
      case None
      show ?thesis by (rule mv[where pc = "CSwap sh (j + 1) cs"])
        (use st tk CCount None in \<open>auto simp: hgo_def hmoves_def Suc_le_eq\<close>)
    next
      case (Some a)
      then obtain nd where nd: "nodes s a = Some nd" using st CCount by (auto split: option.splits)
      obtain as where "linked (nodes s) (Some a) as" "set as \<subseteq> mine s i" using tk CCount Some by auto
      then obtain bs where "linked (nodes s) (nnext nd) bs" "set bs \<subseteq> mine s i" using nd by (cases as) auto
      then show ?thesis by (intro mv[where pc = "CCount sh j cs (nnext nd) (n + 1)"])
        (use st tk CCount Some nd in \<open>auto simp: hgo_def hmoves_def\<close>)
    qed
  next
    case (CRelease sh j cs)
    show ?thesis
    proof (cases "j < unat (hc_cap c)")
      case True
      show ?thesis by (rule moves_release[OF inv i, where pc = "CRelease sh (j + 1) cs" and p = "(sh, j)" and wr = True])
        (use st tk CRelease True in \<open>auto simp: hgo_def hmoves_def upt_head\<close>)
    next
      case False
      show ?thesis by (rule mv[where pc = "CUnlock sh cs"]) (use st tk CRelease False in \<open>auto simp: hgo_def hmoves_def\<close>)
    qed
  next
    case (CUnlock sh cs)
    show ?thesis by (rule mv[where pc = "CDrop sh cs"]) (use st tk CUnlock in \<open>auto simp: hgo_def hmoves_def\<close>)
  next
    case (CDrop sh cs)
    show ?thesis
    proof (cases cs)
      case Nil
      then show ?thesis using st CDrop tk next_shard_inv[OF inv i, of "sh + 1"] by (auto simp: chains_mine_Nil)
    next
      case (Cons q qs)
      show ?thesis by (rule mv[where pc = "CNode sh q qs"]) (use st tk CDrop Cons in \<open>auto simp: hgo_def hmoves_def\<close>)
    qed
  next
    case (CNode sh cur cs)
    show ?thesis
    proof (cases cur)
      case None
      show ?thesis by (rule mv[where pc = "CDrop sh cs"])
        (use st tk CNode None chains_mine_None in \<open>auto simp: hgo_def hmoves_def\<close>)
    next
      case (Some a)
      then show ?thesis using destroy_inv[OF inv i] CNode st by simp
    qed
  next
    case (CBack sh j m own)
    show ?thesis
    proof (cases "j < m")
      case True
      show ?thesis by (rule moves_release[OF inv i, where pc = "CBack sh (j + 1) m own" and p = "(sh, j)" and wr = True])
        (use st tk CBack True in \<open>auto simp: hgo_def hmoves_def upt_head\<close>)
    next
      case False
      show ?thesis by (rule mv[where pc = "CLeave sh own"]) (use st tk CBack False in \<open>auto simp: hgo_def hmoves_def\<close>)
    qed
  next
    case (CLeave sh own)
    then show ?thesis using st tk leave_inv[OF inv i] by auto
  next
    case (CShared sh)
    then show ?thesis using st tk inv
      by (auto simp: hgo_def hmoves_def split: option.splits intro!: mv[of _ "CCheck sh 0"])
  next
    case (CCheck sh j)
    define pc where "pc = (if j < unat (hc_cap c) then
        if slot_owned i (slot_locks s (sh, j)) then CUnshare sh True else CCheck sh (j + 1) else CUnshare sh False :: ('a, 'b) hpc)"
    show ?thesis by (rule mv[where pc = pc]) (use st tk CCheck in \<open>auto simp: hgo_def hmoves_def pc_def\<close>)
  next
    case (CUnshare sh own)
    then show ?thesis using st tk leave_inv[OF inv i] by auto
  qed (use st in simp_all)
qed

section \<open>Guards\<close>

lemma drop_nth_count:
  assumes "m < length xs"
  shows "count_list (map f xs) x = count_list (map f (drop_nth m xs)) x + (if x = f (xs ! m) then 1 else 0)"
proof -
  have "map f xs = map f (take m xs) @ f (xs ! m) # map f (drop (Suc m) xs)" using id_take_nth_drop[OF assms] by (metis list.simps(9) map_append)
  then show ?thesis by (simp add: drop_nth_def)
qed

lemma drop_nth_subset: "set (drop_nth m xs) \<subseteq> set xs"
  unfolding drop_nth_def using set_take_subset[of m xs] set_drop_subset[of "Suc m" xs] by auto

lemma drop_guard_inv:
  assumes inv: "conc_map_inv c s" and st: "map_step c (HDropGuard i m) s = Some t"
  shows "conc_map_inv c t"
proof -
  let ?gs = "hguards (hthr s i)"
  let ?g = "?gs ! m"
  have i: "i < hthreads s" and m: "m < length ?gs" and pc: "hpc (hthr s i) = HIdle"
    and t: "t = (set_guards s i (drop_nth m ?gs))\<lparr>slot_locks := (slot_locks s)(fst ?g := slot_unlock (slot_locks s (fst ?g)))\<rparr>"
    using st by (auto simp: Let_def split: if_splits)
  have tk: "mine s i = {}" "idle s i" using conc_parts(6)[OF inv i] pc by auto
  show ?thesis
  proof (rule inv_thin[OF inv i, where th = "(hthr s i)\<lparr>hguards := drop_nth m ?gs\<rparr>"])
    show "slots_ok c t"
      by (rule locks_release[OF conc_parts(5)[OF inv] i, where p = "fst ?g" and wr = "snd (snd ?g)" and th = "(hthr s i)\<lparr>hguards := drop_nth m ?gs\<rparr>"])
        (simp_all add: t set_guards_def thread_holds_def drop_nth_count[OF m])
    show "hguards_ok t i" using conc_parts(7)[OF inv i] drop_nth_subset[of m ?gs] by (auto simp: hguards_ok_def t set_guards_def)
  qed (use tk pc conc_parts(4)[OF inv] in \<open>simp_all add: t set_guards_def hlog_ok_def mine_def idle_def\<close>)
qed

lemma write_guard_inv:
  assumes inv: "conc_map_inv c s" and cap: "0 < hc_cap c" and st: "map_step c (HWrite i m v) s = Some t"
  shows "conc_map_inv c t"
proof -
  let ?g = "hguards (hthr s i) ! m"
  obtain nd where i: "i < hthreads s" and m: "m < length (hguards (hthr s i))" "snd (snd ?g)" and pc: "hpc (hthr s i) = HIdle"
    and nd: "nodes s (fst (snd ?g)) = Some nd"
    and t: "t = takes_effect c i (Write (nkey nd) v) (s\<lparr>nodes := (nodes s)(fst (snd ?g) \<mapsto> nd\<lparr>nvalue := v\<rparr>)\<rparr>)"
    using st by (auto simp: Let_def split: if_splits option.splits)
  have tk: "mine s i = {}" "idle s i" using conc_parts(6)[OF inv i] pc by auto
  have g: "?g \<in> set (hguards (hthr s i))" using m by simp
  have p: "(fst ?g, True) \<in> set (thread_holds c (hthr s i))"
  proof -
    have "(fst ?g, snd (snd ?g)) \<in> set (thread_holds c (hthr s i))" using g by (simp add: thread_holds_def)
    then show ?thesis using m(2) by simp
  qed
  have a: "fst (snd ?g) \<in> set (hchain s (fst ?g))" using conc_parts(7)[OF inv i] g by (simp add: hguards_ok_def)
  have T: "hthr t = (hthr s)(i := hthr s i)" by (simp add: t takes_effect_def)
  show ?thesis
  proof (rule inv_write[OF inv cap i p a nd _ _ _ _ _ _ _ T, where v = v])
    show "hlog_ok c t"
      by (rule log_effect[OF conc_parts(4)[OF inv], where i = i and e = "Write (nkey nd) v"]) (simp_all add: t takes_effect_def)
    show "slots_ok c t" by (rule locks_same[OF conc_parts(5)[OF inv] i _ T]) (simp_all add: t takes_effect_def)
    show "hguards_ok t i" by (rule guards_same[OF conc_parts(7)[OF inv i]]) (simp_all add: t takes_effect_def)
    show "knows c t i (hpc (hthr s i))" using tk pc by (simp add: t takes_effect_def mine_def idle_def calls_append)
  qed (use pc in \<open>simp_all add: t takes_effect_def calls_append\<close>)
qed

text \<open>A guard passes to another thread.\<close>

lemma send_guard_inv:
  assumes inv: "conc_map_inv c s" and st: "map_step c (HSend i m j) s = Some t"
  shows "conc_map_inv c t"
proof -
  let ?gs = "hguards (hthr s i)"
  let ?u = "set_guards s i (drop_nth m ?gs)"
  have ij: "i < hthreads s" "j < hthreads s" "i \<noteq> j" and m: "m < length ?gs"
    and t: "t = set_guards ?u j (hguards (hthr s j) @ [?gs ! m])"
    using st by (auto simp: Let_def split: if_splits)
  have T: "nodes t = nodes s" "nfresh t = nfresh s" "heads t = heads s" "hchain t = hchain s" "howner t = howner s" "hmap t = hmap s"
    "hthreads t = hthreads s" "hlog t = hlog s" "slot_locks t = slot_locks s" "hpc (hthr t k) = hpc (hthr s k)" "mine t k = mine s k"
    "hcur (hthr t k) = hcur (hthr s k)" "hhist (hthr t k) = hhist (hthr s k)" for k
    by (auto simp: t set_guards_def mine_def)
  have h: "slot_held c t x = slot_held c s x" for x
  proof -
    have u: "slot_held c ?u x + count_list (thread_holds c (hthr s i)) x = slot_held c s x + count_list (thread_holds c (hthr ?u i)) x"
      by (rule held_upd[OF ij(1)]) (simp_all add: set_guards_def)
    have "slot_held c t x + count_list (thread_holds c (hthr ?u j)) x = slot_held c ?u x + count_list (thread_holds c (hthr t j)) x"
      by (rule held_upd) (use ij in \<open>simp_all add: t set_guards_def\<close>)
    with u show ?thesis using ij drop_nth_count[OF m, of "\<lambda>g. (fst g, snd (snd g))" x]
      by (cases "x = (fst (?gs ! m), snd (snd (?gs ! m)))") (simp_all add: thread_holds_def t set_guards_def)
  qed
  show ?thesis unfolding conc_map_inv_def
  proof (intro conjI allI impI)
    show "chain_ok c t p" for p by (rule chain_ok_frame[OF conc_parts(1)[OF inv]]) (simp add: same_slot_def T)
    show "memory_ok t" using conc_parts(2)[OF inv] by (simp add: memory_ok_def T)
    show "abstracts c t" using conc_parts(3)[OF inv] unfolding abstracts_def lookup_def T .
    show "hlog_ok c t" using conc_parts(4)[OF inv] by (simp add: hlog_ok_def T)
    show "slots_ok c t" using conc_parts(5)[OF inv] unfolding slots_ok_def h T .
    fix k assume "k < hthreads t"
    then have k: "k < hthreads s" by (simp add: T)
    show "knows c t k (hpc (hthr t k))" unfolding T(10)
      by (rule knows_frame[OF conc_parts(6)[OF inv k]]) (simp_all add: T same_slot_def)
    have "set (hguards (hthr t k)) \<subseteq> set (hguards (hthr s k)) \<union> {?gs ! m}"
      using drop_nth_subset[of m ?gs] by (auto simp: t set_guards_def)
    then show "hguards_ok t k" using conc_parts(7)[OF inv k] conc_parts(7)[OF inv ij(1)] m by (auto simp: hguards_ok_def T)
  qed
qed

lemma map_inv_step:
  assumes "conc_map_inv c s" "0 < hc_cap c" "map_step c a s = Some t"
  shows "conc_map_inv c t"
proof (cases a)
  case (HCall i op)
  then have i: "i < hthreads s" and pc: "hpc (hthr s i) = HIdle"
    and t: "t = s\<lparr>hthr := (hthr s)(i := (hthr s i)\<lparr>hpc := HShard op, hcur := Some op\<rparr>)\<rparr>" using assms(3) by (auto split: if_splits)
  have tk: "mine s i = {}" "idle s i" using conc_parts(6)[OF assms(1) i] pc by auto
  show ?thesis
  proof (rule inv_thin[OF assms(1) i, where th = "(hthr s i)\<lparr>hpc := HShard op, hcur := Some op\<rparr>"])
    show "slots_ok c t" by (rule locks_same[OF conc_parts(5)[OF assms(1)] i, where th = "(hthr s i)\<lparr>hpc := HShard op, hcur := Some op\<rparr>"])
      (simp_all add: t thread_holds_def pc)
  qed (use pc tk conc_parts(4)[OF assms(1)] conc_parts(7)[OF assms(1) i] in
      \<open>simp_all add: t hlog_ok_def hguards_ok_def mine_def idle_def before_def\<close>)
next
  case (HClear i)
  then show ?thesis using assms(3) conc_parts(6)[OF assms(1), of i] next_shard_inv[OF assms(1), of i 0] by (auto split: if_splits)
next
  case (HGo i)
  then show ?thesis using assms(3) clear_step_inv[OF assms(1,2), of i t] op_step_inv[OF assms(1,2), of i t] by (auto split: if_splits)
next
  case (HDropGuard i m)
  then show ?thesis using drop_guard_inv[OF assms(1)] assms(3) by blast
next
  case (HWrite i m v)
  then show ?thesis using write_guard_inv[OF assms(1,2)] assms(3) by blast
next
  case (HSend i m j)
  then show ?thesis using send_guard_inv[OF assms(1)] assms(3) by blast
qed

lemma map_inv_init: "conc_map_inv c (hsys_new n)"
proof -
  have h: "slot_held c (hsys_new n) x = 0" for x by (simp add: slot_held_def hsys_new_def thread_holds_def)
  show ?thesis unfolding conc_map_inv_def slots_ok_def h
    by (auto simp: hsys_new_def chain_ok_def memory_ok_def abstracts_def lookup_def hlog_ok_def mine_def idle_def hguards_ok_def)
qed

end
