(* ===== verification/HashMap_Conc_Spec.thy ===== *)
theory HashMap_Conc_Spec
  imports HashMap_Conc_Clear Serial_Safety
begin

text \<open>What concurrent \<open>AtomicHashMap\<close> promises.\<close>

section \<open>The slot lock is the lock that SerialMutex refines\<close>

fun slock_rw :: "(tid \<Rightarrow> u64) \<Rightarrow> slock \<Rightarrow> rw" where
  "slock_rw own SFree = Free"
| "slock_rw own (SReading i n) = Reading (own i) n"
| "slock_rw own (SWriting i) = Writing (own i)"

lemma slot_lock_rw: "slot_lock i wr l = Got l' \<Longrightarrow> rw_step (own i) (slock_rw own l) (slock_rw own l')"
  by (cases l) (auto split: if_splits)

lemma slot_unlock_rw: "slock_ok l r w \<Longrightarrow> 0 < r + w \<Longrightarrow> rw_step u (slock_rw own l) (slock_rw own (slot_unlock l))"
  by (cases l) auto

lemma slot_waits_rw:
  assumes "inj own" "slot_lock i wr l = Wait"
  shows "\<not> rw_step (own i) (slock_rw own l) (slock_rw own (if wr then SWriting i else SReading i n))"
  using assms by (cases l) (auto split: if_splits dest: injD)

section \<open>Reachable states\<close>

definition conc_inv :: "'k config \<Rightarrow> ('k, 'v) hsys \<Rightarrow> bool" where
  "conc_inv c s \<longleftrightarrow> 0 < hc_cap c \<longrightarrow> conc_map_inv c s"

interpretation map_machine: machine "map_step c" "hsys_new n" "conc_inv c" for c :: "'k config" and n
  by unfold_locales (use map_inv_init map_inv_step in \<open>auto simp: conc_inv_def\<close>)

lemma map_always: "reachable (map_step c) (hsys_new n) s \<Longrightarrow> 0 < hc_cap c \<Longrightarrow> conc_map_inv c s"
  using map_machine.always[of c n s] by (simp add: conc_inv_def)

lemma idle_calls:
  assumes "conc_map_inv c s" "i < hthreads s"
  shows "\<exists>p. calls i (hlog s) = hhist (hthr s i) @ p \<and> length p \<le> 1 \<and> (hpc (hthr s i) = HIdle \<longrightarrow> p = [])"
proof -
  have b: "before s i op \<or> idle s i \<Longrightarrow> \<exists>p. calls i (hlog s) = hhist (hthr s i) @ p \<and> length p \<le> 1 \<and> (hpc (hthr s i) = HIdle \<longrightarrow> p = [])"
    "after s i r \<Longrightarrow> hpc (hthr s i) \<noteq> HIdle \<Longrightarrow>
      \<exists>p. calls i (hlog s) = hhist (hthr s i) @ p \<and> length p \<le> 1 \<and> (hpc (hthr s i) = HIdle \<longrightarrow> p = [])" for op r
    by (auto simp: before_def after_def idle_def)
  show ?thesis
  proof (cases "hpc (hthr s i)")
    case (HUnshare sh r)
    then show ?thesis using conc_parts(6)[OF assms] b by (cases "r = MPanic") auto
  qed (use conc_parts(6)[OF assms] b in auto)
qed

lemma quiet_memory:
  assumes "conc_map_inv c s" "\<forall>i<hthreads s. hpc (hthr s i) = HIdle"
  shows "hmap s k = lookup s (hchain s (slot_of c k)) k" "a \<in> dom (nodes s) \<longleftrightarrow> (\<exists>p. a \<in> set (hchain s p))"
proof -
  show "hmap s k = lookup s (hchain s (slot_of c k)) k"
    using conc_parts(3)[OF assms(1)] assms(2) unfolding abstracts_def by auto
  have no: "howner s a \<noteq> Some (Inr i)" for i
  proof
    assume h: "howner s a = Some (Inr i)"
    then have "i < hthreads s" using conc_parts(2)[OF assms(1)] unfolding memory_ok_def by blast
    then have "mine s i = {}" using conc_parts(6)[OF assms(1)] assms(2) by fastforce
    with h show False by (auto simp: mine_def)
  qed
  have "a \<in> dom (nodes s) \<longleftrightarrow> a \<in> dom (howner s)" using conc_parts(2)[OF assms(1)] by (simp add: memory_ok_def)
  also have "\<dots> \<longleftrightarrow> (\<exists>p. howner s a = Some (Inl p))" using no by (metis domD domIff option.distinct(1) sum.exhaust)
  also have "\<dots> \<longleftrightarrow> (\<exists>p. a \<in> set (hchain s p))" using chainD(3)[OF conc_parts(1)[OF assms(1)]] by blast
  finally show "a \<in> dom (nodes s) \<longleftrightarrow> (\<exists>p. a \<in> set (hchain s p))" .
qed

text \<open>Every entry a running operation is about to touch is allocated.\<close>

lemma running_steps:
  assumes inv: "conc_map_inv c s" and i: "i < hthreads s" and pc: "hpc (hthr s i) \<noteq> HIdle"
  shows "\<exists>t. map_step c (HGo i) s = Some t"
proof -
  note tk = conc_parts(6)[OF inv i]
  have wk: "\<exists>nd. nodes s a = Some nd" if "walked c s k prev (Some a)" for k prev a
    using chainD(6)[OF conc_parts(1)[OF inv] walked_mem[OF that]] by blast
  have fd: "\<exists>nd. nodes s a = Some nd" if "found c s k prev a" for k prev a using wk that by (auto simp: found_def)
  have mn: "\<exists>nd. nodes s a = Some nd" if "mine s i = {a}" for a
  proof -
    have "a \<in> dom (howner s)" using that by (auto simp: mine_def)
    then show ?thesis using conc_parts(2)[OF inv] by (auto simp: memory_ok_def)
  qed
  have pv: "\<exists>nd. nodes s b = Some nd" if f: "found c s k (Some b) a" for k a b
  proof -
    obtain xs ys where xy: "hchain s (slot_of c k) = xs @ a # ys" "Some b = last_of xs" using found_chain[OF f] by metis
    then have "b \<in> set (hchain s (slot_of c k))" by (auto simp: last_of_def split: if_splits)
    then show ?thesis using chainD(6)[OF conc_parts(1)[OF inv]] by blast
  qed
  have lk: "\<exists>nd. nodes s a = Some nd" if "linked (nodes s) (Some a) as" for a as using that by (cases as) auto
  have cm: "\<exists>nd. nodes s a = Some nd" if "chains_mine s i (Some a # cs)" for a cs
    using that lk by (auto simp: chains_mine_def list_all2_Cons1)
  show ?thesis
  proof (cases "hpc (hthr s i)")
    case (HWalk op prev cur)
    then show ?thesis using i tk by (cases cur) (auto dest!: wk)
  next
    case (HUnlink k prev a nx)
    then show ?thesis using i tk by (cases prev) (auto simp: Let_def dest!: pv)
  next
    case (CCount sh j cs cur m)
    then show ?thesis using i tk by (cases cur) (auto dest!: lk)
  next
    case (CNode sh cur cs)
    then show ?thesis using i tk by (cases cur) (auto dest!: cm)
  next
    case (HSwap k v a)
    then show ?thesis using i tk by (auto dest!: fd)
  next
    case (HNext k prev a)
    then show ?thesis using i tk by (auto dest!: fd)
  next
    case (HLink k v a)
    then show ?thesis using i tk mn[of a] by (auto simp: new_node_def)
  next
    case (HTake k a)
    then show ?thesis using i tk mn[of a] by auto
  next
    case (HFree k a v)
    then show ?thesis using i tk mn[of a] by auto
  qed (use i pc in \<open>simp_all add: Let_def\<close>)
qed

text \<open>C10: Concurrent calls of \<open>AtomicHashMap\<close> are linearizable: in every interleaving the answers are
  those of a finite map to which the calls, the writes through guards and the clearings of shards are
  applied one after the other, in the order in which they took effect; a thread's calls took effect in
  its order, each before it returned; and when no call is running the chains in memory hold exactly
  the entries of that map.\<close>

theorem map_conc_linearizable:
  assumes "reachable (map_step c) (hsys_new n) s" "0 < hc_cap c"
  shows "run_all (map_spec c) Map.empty (map (fst \<circ> snd) (hlog s)) = (map (snd \<circ> snd) (hlog s), hmap s) \<and>
    (\<forall>i<hthreads s. \<exists>p. calls i (hlog s) = hhist (hthr s i) @ p \<and> length p \<le> 1 \<and> (hpc (hthr s i) = HIdle \<longrightarrow> p = [])) \<and>
    ((\<forall>i<hthreads s. hpc (hthr s i) = HIdle) \<longrightarrow>
      (\<forall>k. \<exists>as. linked (nodes s) (heads s (slot_of c k)) as \<and> hmap s k = lookup s as k))"
proof (intro conjI allI impI)
  have inv: "conc_map_inv c s" by (rule map_always[OF assms])
  show "run_all (map_spec c) Map.empty (map (fst \<circ> snd) (hlog s)) = (map (snd \<circ> snd) (hlog s), hmap s)"
    using conc_parts(4)[OF inv] by (simp add: hlog_ok_def)
  show "\<exists>p. calls i (hlog s) = hhist (hthr s i) @ p \<and> length p \<le> 1 \<and> (hpc (hthr s i) = HIdle \<longrightarrow> p = [])" if "i < hthreads s" for i
    by (rule idle_calls[OF inv that])
  show "\<exists>as. linked (nodes s) (heads s (slot_of c k)) as \<and> hmap s k = lookup s as k" if "\<forall>i<hthreads s. hpc (hthr s i) = HIdle" for k
    using quiet_memory(1)[OF inv that] chainD(1)[OF conc_parts(1)[OF inv]] by blast
qed

text \<open>A map whose keys all collide.\<close>

definition one_slot :: "nat config" where
  "one_slot = \<lparr>hc_hash = (\<lambda>_. 0), hc_shift = 63, hc_cap = 1, hc_shards = 2\<rparr>"

lemma one_slot_cap: "0 < hc_cap one_slot"
  by (simp add: one_slot_def)

theorem map_conc_linearizable_witness:
  "\<exists>s :: (nat, nat) hsys. reachable (map_step one_slot) (hsys_new 2) s \<and>
     hlog s = [(0, Call (MInsert 7 5), MOld None), (1, Call (MContains 7), MBool True)] \<and>
     calls 1 (hlog s) = hhist (hthr s 1) \<and> hmap s 7 = Some 5"
proof -
  have "run_to (map_step one_slot) (HCall 0 (MInsert 7 5) # HCall 1 (MContains 7) # replicate 2 (HGo 0) @ [HGo 1, HGo 1] @
        replicate 8 (HGo 0) @ replicate 5 (HGo 1)) (hsys_new 2 :: (nat, nat) hsys)
      (\<lambda>s. hlog s = [(0, Call (MInsert 7 5), MOld None), (1, Call (MContains 7), MBool True)] \<and> hthreads s = 2 \<and>
         hpc (hthr s 0) = HIdle \<and> hpc (hthr s 1) = HIdle)"
    by code_simp
  from run_toD[OF this] obtain s :: "(nat, nat) hsys"
    where s: "reachable (map_step one_slot) (hsys_new 2) s" "hthreads s = 2" "hpc (hthr s 1) = HIdle"
      "hlog s = [(0, Call (MInsert 7 5), MOld None), (1, Call (MContains 7), MBool True)]" by blast
  note th = map_conc_linearizable[OF s(1) one_slot_cap]
  have "calls 1 (hlog s) = hhist (hthr s 1)" proof -
    have "\<exists>p. calls 1 (hlog s) = hhist (hthr s 1) @ p \<and> length p \<le> 1 \<and> (hpc (hthr s 1) = HIdle \<longrightarrow> p = [])" using th s(2) by simp
    then show ?thesis using s(3) by auto
  qed
  moreover
  have "hmap s = [7 \<mapsto> 5]" using conjunct1[OF th] by (simp add: s(4))
  then have "hmap s 7 = Some 5" by simp
  ultimately show ?thesis using s(1,4) by blast
qed

text \<open>C11: Memory of the concurrent hash map is safe and not leaked: every running operation has a next
  step (an access through a dangling pointer would have none), and when no call is running the
  allocated entries are exactly those linked into the chains.\<close>

theorem map_conc_memory_safe:
  assumes "reachable (map_step c) (hsys_new n) s" "0 < hc_cap c"
  shows "(\<forall>i<hthreads s. hpc (hthr s i) \<noteq> HIdle \<longrightarrow> (\<exists>t. map_step c (HGo i) s = Some t)) \<and>
    ((\<forall>i<hthreads s. hpc (hthr s i) = HIdle) \<longrightarrow>
      dom (nodes s) = (\<Union>p. {a. \<exists>as. linked (nodes s) (heads s p) as \<and> a \<in> set as}))"
proof (intro conjI allI impI)
  have inv: "conc_map_inv c s" by (rule map_always[OF assms])
  show "\<exists>t. map_step c (HGo i) s = Some t" if "i < hthreads s" "hpc (hthr s i) \<noteq> HIdle" for i
    by (rule running_steps[OF inv that])
  have l: "(\<exists>as. linked (nodes s) (heads s p) as \<and> a \<in> set as) \<longleftrightarrow> a \<in> set (hchain s p)" for p a
    using chainD(1)[OF conc_parts(1)[OF inv], of p] linked_unique by metis
  show "dom (nodes s) = (\<Union>p. {a. \<exists>as. linked (nodes s) (heads s p) as \<and> a \<in> set as})" if "\<forall>i<hthreads s. hpc (hthr s i) = HIdle"
    unfolding l using quiet_memory(2)[OF inv that] by blast
qed

theorem map_conc_memory_safe_witness:
  "\<exists>s t :: (nat, nat) hsys. reachable (map_step one_slot) (hsys_new 2) s \<and> hpc (hthr s 0) = HFree 7 0 5 \<and>
     map_step one_slot (HGo 0) s = Some t"
proof -
  have "run_to (map_step one_slot) (HCall 0 (MInsert 7 5) # replicate 10 (HGo 0) @ HCall 0 (MRemove 7) # replicate 8 (HGo 0))
      (hsys_new 2 :: (nat, nat) hsys) (\<lambda>s. hpc (hthr s 0) = HFree 7 0 5 \<and> hthreads s = 2)"
    by code_simp
  from run_toD[OF this] obtain s :: "(nat, nat) hsys"
    where s: "reachable (map_step one_slot) (hsys_new 2) s" "hpc (hthr s 0) = HFree 7 0 5" "hthreads s = 2" by blast
  have "\<exists>t. map_step one_slot (HGo 0) s = Some t"
    using conjunct1[OF map_conc_memory_safe[OF s(1) one_slot_cap]] s(2,3) by (simp del: map_step.simps)
  with s(1,2) show ?thesis by blast
qed

lemma count_one_filter:
  assumes "count_list (map f xs) y = 1" "x \<in> set xs" "f x = y" "\<And>z. z \<in> set xs \<Longrightarrow> P z \<longleftrightarrow> f z = y"
  shows "filter P xs = [x]"
proof -
  have "length (filter (\<lambda>z. f z = y) xs) = 1" using length_filter_map[of "\<lambda>z. z = y" f xs] assms(1) by (simp add: count_list_eq_length_filter comp_def eq_commute[of y])
  moreover have "filter P xs = filter (\<lambda>z. f z = y) xs" using assms(4) by (rule filter_cong[OF refl])
  moreover have "x \<in> set (filter (\<lambda>z. f z = y) xs)" using assms(2,3) by simp
  ultimately show ?thesis by (cases "filter (\<lambda>z. f z = y) xs") auto
qed

lemma guard_mut_sole:
  assumes ok: "slots_ok c s" and i: "i < hthreads s" and g: "(p, a, True) \<in> set (hguards (hthr s i))"
  shows "filter (\<lambda>g. fst g = p) (hguards (hthr s i)) = [(p, a, True)]" "(p, b) \<notin> set (pc_holds c (hpc (hthr s i)))"
proof -
  let ?f = "\<lambda>g :: slot_id \<times> _ \<times> bool. (fst g, snd (snd g))"
  have m: "(p, True) \<in> set (map ?f (hguards (hthr s i)))" using g by force
  then have "(p, True) \<in> set (thread_holds c (hthr s i))" by (simp add: thread_holds_def)
  note wa = writer_alone(2,3)[OF ok i this]
  have pos: "0 < count_list (map ?f (hguards (hthr s i))) (p, True)" using m by (metis count_list_0_iff gr0I)
  with wa(1) have n: "count_list (map ?f (hguards (hthr s i))) (p, True) = 1" "count_list (pc_holds c (hpc (hthr s i))) (p, True) = 0"
    by (simp_all add: thread_holds_def)
  have nf: "(p, False) \<notin> set (map ?f (hguards (hthr s i)))" "(p, False) \<notin> set (pc_holds c (hpc (hthr s i)))"
    using wa(2) by (simp_all add: thread_holds_def)
  show "filter (\<lambda>g. fst g = p) (hguards (hthr s i)) = [(p, a, True)]"
  proof (rule count_one_filter[OF n(1) g])
    fix z assume z: "z \<in> set (hguards (hthr s i))"
    have "snd (snd z)" if "fst z = p" using nf(1) z that by (cases "snd (snd z)") (force simp: image_iff)+
    then show "fst z = p \<longleftrightarrow> ?f z = (p, True)" by auto
  qed simp
  show "(p, b) \<notin> set (pc_holds c (hpc (hthr s i)))" using n(2) nf(2) by (cases b) (simp_all add: count_list_0_iff)
qed

text \<open>C12: A guard keeps its entry: the entry of every guard is allocated, linked into the chain of the
  guard's slot and carries a key of that slot, whatever other threads do; and a
  \<open>WatchGuardMut\<close> is the only guard on its slot: its own thread has no other one there and no call of
  its own inside the slot (it may be anywhere else), and no other thread has a guard or a call there.\<close>

theorem map_guard_valid:
  assumes "reachable (map_step c) (hsys_new n) s" "0 < hc_cap c" "i < hthreads s" "(p, a, w) \<in> set (hguards (hthr s i))"
  shows "\<exists>nd as. nodes s a = Some nd \<and> slot_of c (nkey nd) = p \<and> linked (nodes s) (heads s p) as \<and> a \<in> set as \<and>
    hmap s (nkey nd) = Some (nvalue nd) \<and>
    (w \<longrightarrow> filter (\<lambda>g. fst g = p) (hguards (hthr s i)) = [(p, a, w)] \<and> (\<forall>b. (p, b) \<notin> set (pc_holds c (hpc (hthr s i)))) \<and>
      (\<forall>j<hthreads s. j \<noteq> i \<longrightarrow> (\<forall>b. (p, b) \<notin> set (thread_holds c (hthr s j)))))"
proof -
  have inv: "conc_map_inv c s" by (rule map_always[OF assms(1,2)])
  have a: "a \<in> set (hchain s p)" using conc_parts(7)[OF inv assms(3)] assms(4) by (auto simp: hguards_ok_def)
  note ch = conc_parts(1)[OF inv, of p]
  obtain nd where nd: "nodes s a = Some nd" using chainD(6)[OF ch a] by blast
  have k: "slot_of c (nkey nd) = p" using chainD(5)[OF ch a] nd by simp
  have h: "(p, w) \<in> set (thread_holds c (hthr s i))" using assms(4) by (force simp: thread_holds_def)
  have "\<not> clearing (hpc (hthr s i)) p"
    using no_guard[OF conc_parts(5)[OF inv] assms(3) clearing_holds[of _ p] assms(4)] slot_of_bound[OF assms(2), of "nkey nd"] k by auto
  then have "hmap s (nkey nd) = Some (nvalue nd)"
    using abstract_at[OF inv assms(2,3), of "nkey nd" w] h k lookup_member[OF chainD(2)[OF ch] a] nd by simp
  moreover have "(p, b) \<notin> set (thread_holds c (hthr s j))" if "w" "j < hthreads s" "j \<noteq> i" for j b
    using writer_alone(1)[OF conc_parts(5)[OF inv] assms(3), of p j b] h that by simp
  moreover have "filter (\<lambda>g. fst g = p) (hguards (hthr s i)) = [(p, a, w)] \<and> (\<forall>b. (p, b) \<notin> set (pc_holds c (hpc (hthr s i))))" if "w"
    using guard_mut_sole[OF conc_parts(5)[OF inv] assms(3), of p a] assms(4) that by simp
  ultimately show ?thesis using nd k chainD(1)[OF ch] a by blast
qed

theorem map_guard_valid_witness:
  "\<exists>s :: (nat, nat) hsys. reachable (map_step one_slot) (hsys_new 2) s \<and> hguards (hthr s 1) = [((0, 0), 0, True)] \<and>
     (\<exists>nd. nodes s 0 = Some nd \<and> hmap s (nkey nd) = Some (nvalue nd)) \<and> ((0, 0), False) \<notin> set (thread_holds one_slot (hthr s 0))"
proof -
  have "run_to (map_step one_slot) (HCall 0 (MInsert 7 5) # replicate 10 (HGo 0) @ HCall 1 (MGetMut 7) # replicate 5 (HGo 1))
      (hsys_new 2 :: (nat, nat) hsys) (\<lambda>s. hguards (hthr s 1) = [((0, 0), 0, True)] \<and> hthreads s = 2)"
    by code_simp
  from run_toD[OF this] obtain s :: "(nat, nat) hsys"
    where s: "reachable (map_step one_slot) (hsys_new 2) s" "hguards (hthr s 1) = [((0, 0), 0, True)]" "hthreads s = 2" by blast
  with map_guard_valid[OF s(1) one_slot_cap, of 1 "(0, 0)" 0 True] show ?thesis by (intro exI[of _ s]) auto
qed

end
