(* ===== verification/HashMap_Conc_Count.thy ===== *)
theory HashMap_Conc_Count
  imports HashMap_Conc_Spec
begin

text \<open>
  The shard counters of concurrent \<open>AtomicHashMap\<close>. \<open>insert\<close> links before it counts, \<open>remove\<close> and \<open>clear\<close>
  unlink before they discount: a counter differs from the linked entries by exactly what the
  running operations still have to settle.
\<close>

definition chain_len :: "(nat \<rightharpoonup> ('k, 'v) node) \<Rightarrow> nat option \<Rightarrow> nat" where
  "chain_len H q = (THE n. \<exists>as. linked H q as \<and> n = length as)"

lemma chain_len: "linked H q as \<Longrightarrow> chain_len H q = length as"
  unfolding chain_len_def by (rule the_equality) (auto dest: linked_unique)

text \<open>Entries unlinked and still counted, and entries linked and not yet counted.\<close>

fun owed :: "'k config \<Rightarrow> (nat \<rightharpoonup> ('k, 'v) node) \<Rightarrow> nat \<Rightarrow> ('k, 'v) hpc \<Rightarrow> nat" where
  "owed c H sh (HTake k a) = of_bool (fst (slot_of c k) = sh)"
| "owed c H sh (HDec k a v) = of_bool (fst (slot_of c k) = sh)"
| "owed c H sh (CCount sh' j cs cur n) = (if sh' = sh then n + chain_len H cur else 0)"
| "owed c H sh _ = 0"

fun ahead :: "'k config \<Rightarrow> nat \<Rightarrow> ('k, 'v) hpc \<Rightarrow> nat" where
  "ahead c sh (HInc k) = of_bool (fst (slot_of c k) = sh)"
| "ahead c sh _ = 0"

definition in_chains :: "'k config \<Rightarrow> (slot_id \<Rightarrow> nat list) \<Rightarrow> nat \<Rightarrow> nat" where
  "in_chains c ch sh = (\<Sum>j<unat (hc_cap c). length (ch (sh, j)))"

definition counts_ok :: "'k config \<Rightarrow> ('k, 'v) hsys \<Rightarrow> bool" where
  "counts_ok c s \<longleftrightarrow>
     (\<forall>sh. counts s sh + of_nat (\<Sum>i<hthreads s. ahead c sh (hpc (hthr s i))) =
           of_nat (in_chains c (hchain s) sh + (\<Sum>i<hthreads s. owed c (nodes s) sh (hpc (hthr s i)))))"

section \<open>Steps\<close>

lemma in_chains_upd:
  assumes "j < unat (hc_cap c)"
  shows "in_chains c (ch((sh, j) := as)) sh' + (if sh' = sh then length (ch (sh, j)) else 0) =
    in_chains c ch sh' + (if sh' = sh then length as else 0)"
  unfolding in_chains_def
  using sum_if_upd[of j "unat (hc_cap c)" "\<lambda>m. length ((ch((sh, j) := as)) (sh', m))" "\<lambda>m. length (ch (sh', m))"] assms
  by (cases "sh' = sh") simp_all

lemma settle:
  fixes A :: "'g :: ab_group_add"
  assumes "O' + o1 = O1 + o2" "A' + a1 = A + a2" "C + A = N + O1" "C' + (a2 + o1 + N) = C + (a1 + o2 + N')"
  shows "C' + A' = N' + O'"
proof -
  have e: "O' = O1 + o2 - o1" "A' = A + a2 - a1" "C = N + O1 - A" using assms(1-3) by (simp_all add: eq_diff_eq)
  have "C' = C + (a1 + o2 + N') - (a2 + o1 + N)" using assms(4) by (simp add: eq_diff_eq)
  then show ?thesis unfolding e by simp
qed

lemma owed_frame:
  assumes inv: "conc_map_inv c s" and j: "j < hthreads s" and n: "\<And>a. a \<in> mine s j \<Longrightarrow> nodes t a = nodes s a"
  shows "owed c (nodes t) sh (hpc (hthr s j)) = owed c (nodes s) sh (hpc (hthr s j))"
proof (cases "hpc (hthr s j)")
  case (CCount sh' m cs cur k)
  then obtain as where as: "linked (nodes s) cur as" "set as \<subseteq> mine s j" using conc_parts(6)[OF inv j] by auto
  have "linked (nodes t) cur as = linked (nodes s) cur as" by (rule linked_cong) (use n as(2) in auto)
  then have "chain_len (nodes t) cur = length as" "chain_len (nodes s) cur = length as" using as(1) by (simp_all add: chain_len)
  then show ?thesis using CCount by simp
qed simp_all

text \<open>A step of thread \<open>i\<close> keeps the counters right when it does so locally.\<close>

lemma counts_local:
  assumes inv: "conc_map_inv c s" and ok: "counts_ok c s" and i: "i < hthreads s"
    and t: "hthreads t = hthreads s" "hthr t = (hthr s)(i := th)"
    and n: "\<And>j a. j \<noteq> i \<Longrightarrow> a \<in> mine s j \<Longrightarrow> nodes t a = nodes s a"
    and eq: "\<And>sh. counts t sh + of_nat (ahead c sh (hpc th) + owed c (nodes s) sh (hpc (hthr s i)) + in_chains c (hchain s) sh) =
      counts s sh + of_nat (ahead c sh (hpc (hthr s i)) + owed c (nodes t) sh (hpc th) + in_chains c (hchain t) sh)"
  shows "counts_ok c t"
  unfolding counts_ok_def t(1)
proof
  fix sh
  let ?o = "\<lambda>j. if j = i then owed c (nodes t) sh (hpc th) else owed c (nodes s) sh (hpc (hthr s j))"
  have "owed c (nodes t) sh (hpc (hthr s j)) = owed c (nodes s) sh (hpc (hthr s j))" if "j < hthreads s" "j \<noteq> i" for j
    by (rule owed_frame[OF inv that(1)]) (use n that in blast)
  then have "(\<Sum>j<hthreads s. owed c (nodes t) sh (hpc (hthr t j))) = (\<Sum>j<hthreads s. ?o j)"
    by (intro sum.cong) (auto simp: t)
  then have o: "(\<Sum>j<hthreads s. owed c (nodes t) sh (hpc (hthr t j))) + owed c (nodes s) sh (hpc (hthr s i)) =
      (\<Sum>j<hthreads s. owed c (nodes s) sh (hpc (hthr s j))) + owed c (nodes t) sh (hpc th)"
    using sum_if_upd[of i "hthreads s" ?o "\<lambda>j. owed c (nodes s) sh (hpc (hthr s j))"] i by simp
  have a: "(\<Sum>j<hthreads s. ahead c sh (hpc (hthr t j))) + ahead c sh (hpc (hthr s i)) =
      (\<Sum>j<hthreads s. ahead c sh (hpc (hthr s j))) + ahead c sh (hpc th)"
    using sum_if_upd[of i "hthreads s" "\<lambda>j. ahead c sh (hpc (hthr t j))" "\<lambda>j. ahead c sh (hpc (hthr s j))"] i t by simp
  have b: "counts s sh + of_nat (\<Sum>j<hthreads s. ahead c sh (hpc (hthr s j))) =
      of_nat (in_chains c (hchain s) sh + (\<Sum>j<hthreads s. owed c (nodes s) sh (hpc (hthr s j))))"
    using ok by (simp add: counts_ok_def)
  show "counts t sh + of_nat (\<Sum>j<hthreads s. ahead c sh (hpc (hthr t j))) =
      of_nat (in_chains c (hchain t) sh + (\<Sum>j<hthreads s. owed c (nodes t) sh (hpc (hthr t j))))"
    unfolding of_nat_add
    by (rule settle[OF _ _ b[unfolded of_nat_add] eq[of sh, unfolded of_nat_add]])
      (use arg_cong[OF o, of of_nat] arg_cong[OF a, of of_nat] in simp_all)
qed

section \<open>Keyed operations\<close>

lemma op_step_shape:
  assumes "op_step c s i pc = Some t"
  shows "hthreads t = hthreads s" "hthr t = (hthr s)(i := hthr t i)"
proof -
  have f: "hthreads (on_found c s i op prev a nd) = hthreads s" "hthreads (on_missing c s i op) = hthreads s"
    "hthr (on_found c s i op prev a nd) = (hthr s)(i := hthr (on_found c s i op prev a nd) i)"
    "hthr (on_missing c s i op) = (hthr s)(i := hthr (on_missing c s i op) i)" for op prev a nd
    by (cases op; simp add: takes_effect_def hgo_def)+
  show "hthreads t = hthreads s" "hthr t = (hthr s)(i := hthr t i)"
    using assms f by (cases pc; auto simp: Let_def takes_effect_def hgo_def hreturn_def remember_def split: option.splits if_splits grant.splits)+
qed

lemma search_end:
  "nodes (on_found c s i op prev a nd) = nodes s" "nodes (on_missing c s i op) = nodes s"
  "counts (on_found c s i op prev a nd) = counts s" "counts (on_missing c s i op) = counts s"
  "hchain (on_found c s i op prev a nd) = hchain s" "hchain (on_missing c s i op) = hchain s"
  "owed c H sh (hpc (hthr (on_found c s i op prev a nd) i)) = 0" "owed c H sh (hpc (hthr (on_missing c s i op) i)) = 0"
  "ahead c sh (hpc (hthr (on_found c s i op prev a nd) i)) = 0" "ahead c sh (hpc (hthr (on_missing c s i op) i)) = 0"
  by (cases op; simp add: takes_effect_def hgo_def)+

text \<open>A thread writes to its own entries and to those of the slots it holds.\<close>

lemma op_step_nodes:
  assumes inv: "conc_map_inv c s" and i: "i < hthreads s" and st: "op_step c s i (hpc (hthr s i)) = Some t" and j: "j \<noteq> i" "a \<in> mine s j"
  shows "nodes t a = nodes s a"
proof -
  note tk = conc_parts(6)[OF inv i]
  have own: "howner s a = Some (Inr j)" using j(2) by (simp add: mine_def)
  have ch: "a \<notin> set (hchain s p)" for p using chainD(3)[OF conc_parts(1)[OF inv]] own by simp
  have fd: "a \<noteq> b" if "found c s k prev b" for k prev b using found_mem[OF that] ch by blast
  have pv: "a \<noteq> b" if f: "found c s k (Some b) x" for k x b
  proof -
    obtain xs ys where "hchain s (slot_of c k) = xs @ x # ys" "Some b = last_of xs" using found_chain[OF f] by metis
    then have "b \<in> set (hchain s (slot_of c k))" by (auto simp: last_of_def split: if_splits)
    then show ?thesis using ch by blast
  qed
  have mi: "a \<noteq> b" if "mine s i = {b}" for b
  proof -
    have "b \<in> mine s i" using that by simp
    then show ?thesis using own j(1) by (auto simp: mine_def)
  qed
  have "a \<in> dom (nodes s)" using conc_parts(2)[OF inv] own by (auto simp: memory_ok_def)
  then have fr: "a \<noteq> nfresh s" using conc_parts(2)[OF inv] by (auto simp: memory_ok_def)
  show ?thesis
  proof (cases "hpc (hthr s i)")
    case (HUnlink k prev b nx)
    then have "prev = Some x \<Longrightarrow> a \<noteq> x" for x using tk pv[of k x b] by simp
    then show ?thesis using st HUnlink by (cases prev) (auto simp: Let_def takes_effect_def hgo_def split: option.splits)
  next
    case (HSwap k v b)
    then have "a \<noteq> b" using tk fd[of k _ b] by auto
    then show ?thesis using st HSwap by (auto simp: takes_effect_def hgo_def split: option.splits)
  next
    case (HLink k v b)
    then have "a \<noteq> b" using tk mi[of b] by (simp add: new_node_def)
    then show ?thesis using st HLink by (auto simp: hgo_def split: option.splits)
  next
    case (HFree k b v)
    then have "a \<noteq> b" using tk mi[of b] by simp
    then show ?thesis using st HFree by (auto simp: hgo_def split: option.splits)
  next
    case (HNew k v)
    then show ?thesis using st fr by (auto simp: hgo_def Let_def)
  next
    case (HWalk op prev cur)
    then show ?thesis using st by (auto simp: hgo_def search_end split: option.splits if_splits)
  next
    case (HSlot op)
    then show ?thesis using st by (auto simp: Let_def hgo_def split: grant.splits)
  qed (use st in \<open>simp_all add: Let_def takes_effect_def hgo_def hreturn_def remember_def split: option.splits\<close>, auto)
qed

lemma op_counts:
  assumes inv: "conc_map_inv c s" and cap: "0 < hc_cap c" and ok: "counts_ok c s" and i: "i < hthreads s"
    and st: "op_step c s i (hpc (hthr s i)) = Some t"
  shows "counts_ok c t"
proof (rule counts_local[OF inv ok i op_step_shape[OF st]])
  show "nodes t a = nodes s a" if "j \<noteq> i" "a \<in> mine s j" for j a by (rule op_step_nodes[OF inv i st that])
  fix sh
  note tk = conc_parts(6)[OF inv i]
  have ch: "in_chains c ((hchain s)(slot_of c k := as)) sh + (if sh = fst (slot_of c k) then length (hchain s (slot_of c k)) else 0) =
      in_chains c (hchain s) sh + (if sh = fst (slot_of c k) then length as else 0)" for k as
    using in_chains_upd[OF slot_of_bound[OF cap, of k], of "hchain s" "fst (slot_of c k)" as sh] unfolding prod.collapse .
  show "counts t sh + of_nat (ahead c sh (hpc (hthr t i)) + owed c (nodes s) sh (hpc (hthr s i)) + in_chains c (hchain s) sh) =
      counts s sh + of_nat (ahead c sh (hpc (hthr s i)) + owed c (nodes t) sh (hpc (hthr t i)) + in_chains c (hchain t) sh)"
  proof (cases "hpc (hthr s i)")
    case (HStore k v a)
    have "in_chains c (hchain t) sh = in_chains c (hchain s) sh + (if sh = fst (slot_of c k) then 1 else 0)"
      using ch[of k "a # hchain s (slot_of c k)"] st HStore by (auto simp: Let_def takes_effect_def hgo_def split: if_splits)
    then show ?thesis using st HStore by (auto simp: Let_def takes_effect_def hgo_def)
  next
    case (HUnlink k prev a nx)
    let ?p = "slot_of c k"
    have "found c s k prev a" using tk HUnlink by simp
    then have "length (remove1 a (hchain s ?p)) + 1 = length (hchain s ?p)"
      using found_mem[of c s k prev a] length_pos_if_in_set[of a "hchain s ?p"] by (simp add: length_remove1)
    then have "in_chains c (hchain s) sh = in_chains c ((hchain s)(?p := remove1 a (hchain s ?p))) sh + (if sh = fst ?p then 1 else 0)"
      using ch[of k "remove1 a (hchain s ?p)"] by (auto split: if_splits)
    moreover have "hchain t = (hchain s)(?p := remove1 a (hchain s ?p))" "counts t = counts s" "hpc (hthr t i) = HTake k a"
      using st HUnlink by (auto simp: Let_def takes_effect_def hgo_def split: option.splits)
    ultimately show ?thesis using HUnlink by auto
  next
    case (HWalk op prev cur)
    then show ?thesis using st by (auto simp: hgo_def search_end split: option.splits if_splits)
  qed (use st in \<open>auto simp: Let_def takes_effect_def hgo_def hreturn_def remember_def split: option.splits grant.splits\<close>)
qed

section \<open>Clear and guards\<close>

lemma clear_step_shape:
  assumes "clear_step c s i pc = Some t"
  shows "hthreads t = hthreads s" "hthr t = (hthr s)(i := hthr t i)"
  using assms
  by (cases pc; auto simp: takes_effect_def hgo_def hreturn_def next_shard_def split: option.splits if_splits slock.splits list.splits)+

lemma clear_step_nodes:
  assumes inv: "conc_map_inv c s" and i: "i < hthreads s" and st: "clear_step c s i (hpc (hthr s i)) = Some t" and j: "j \<noteq> i" "a \<in> mine s j"
  shows "nodes t a = nodes s a"
proof (cases "\<exists>sh b cs. hpc (hthr s i) = CNode sh (Some b) cs")
  case True
  then obtain sh b cs where pc: "hpc (hthr s i) = CNode sh (Some b) cs" by blast
  then have "chains_mine s i (Some b # cs)" using conc_parts(6)[OF inv i] by simp
  then obtain l ls where "linked (nodes s) (Some b) l" "mine s i = set (concat (l # ls))" by (auto simp: chains_mine_def list_all2_Cons1)
  then have "b \<in> mine s i" by (cases l) auto
  then have "a \<noteq> b" using j by (auto simp: mine_def)
  then show ?thesis using st pc by (auto simp: hgo_def split: option.splits)
next
  case False
  then show ?thesis using st
    by (cases "hpc (hthr s i)")
      (auto simp: takes_effect_def hgo_def hreturn_def next_shard_def split: option.splits if_splits slock.splits list.splits)
qed

lemma clear_counts:
  assumes inv: "conc_map_inv c s" and ok: "counts_ok c s" and i: "i < hthreads s"
    and st: "clear_step c s i (hpc (hthr s i)) = Some t"
  shows "counts_ok c t"
proof (rule counts_local[OF inv ok i clear_step_shape[OF st]])
  show "nodes t a = nodes s a" if "j \<noteq> i" "a \<in> mine s j" for j a by (rule clear_step_nodes[OF inv i st that])
  fix m
  note tk = conc_parts(6)[OF inv i]
  show "counts t m + of_nat (ahead c m (hpc (hthr t i)) + owed c (nodes s) m (hpc (hthr s i)) + in_chains c (hchain s) m) =
      counts s m + of_nat (ahead c m (hpc (hthr s i)) + owed c (nodes t) m (hpc (hthr t i)) + in_chains c (hchain t) m)"
  proof (cases "hpc (hthr s i)")
    case (CSwap sh j cs)
    show ?thesis
    proof (cases "j < unat (hc_cap c)")
      case True
      have l: "chain_len (nodes s) (heads s (sh, j)) = length (hchain s (sh, j))"
        by (rule chain_len[OF chainD(1)[OF conc_parts(1)[OF inv]]])
      have T: "nodes t = nodes s" "counts t = counts s" "hchain t = (hchain s)((sh, j) := [])"
        "hpc (hthr t i) = CCount sh j (cs @ [heads s (sh, j)]) (heads s (sh, j)) 0"
        using st CSwap True by (auto simp: hgo_def)
      show ?thesis using in_chains_upd[OF True, of "hchain s" sh "[]" m] unfolding T CSwap
        by (cases "m = sh") (simp_all add: l add.commute flip: of_nat_add)
    next
      case False
      then show ?thesis using st CSwap by (auto simp: hgo_def)
    qed
  next
    case (CCount sh j cs cur n)
    then obtain as where as: "linked (nodes s) cur as" using tk by auto
    show ?thesis
    proof (cases cur)
      case None
      then have l: "chain_len (nodes s) cur = 0" using chain_len[of "nodes s" None "[]"] by simp
      have T: "nodes t = nodes s" "counts t = (counts s)(sh := counts s sh - of_nat n)" "hchain t = hchain s" "hpc (hthr t i) = CSwap sh (j + 1) cs"
        using st CCount None by (auto simp: hgo_def)
      show ?thesis unfolding T CCount owed.simps l by simp
    next
      case (Some a)
      with as obtain bs where bs: "as = a # bs" by (cases as) simp_all
      with as Some obtain nd where nd: "nodes s a = Some nd" "linked (nodes s) (nnext nd) bs" by auto
      have l: "chain_len (nodes s) cur = Suc (chain_len (nodes s) (nnext nd))"
        unfolding chain_len[OF as] chain_len[OF nd(2)] bs by simp
      have T: "nodes t = nodes s" "counts t = counts s" "hchain t = hchain s" "hpc (hthr t i) = CCount sh j cs (nnext nd) (n + 1)"
        using st CCount Some nd by (auto simp: hgo_def)
      show ?thesis unfolding T CCount owed.simps l by simp
    qed
  next
    case (CDrop sh cs)
    then show ?thesis using st by (cases cs) (auto simp: hgo_def hreturn_def next_shard_def)
  qed (use st in \<open>auto simp: takes_effect_def hgo_def hreturn_def split: option.splits if_splits slock.splits\<close>)
qed

lemma counts_step:
  assumes inv: "conc_map_inv c s" and cap: "0 < hc_cap c" and ok: "counts_ok c s" and st: "map_step c a s = Some t"
  shows "counts_ok c t"
proof (cases a)
  case (HCall i op)
  then show ?thesis using st by (intro counts_local[OF inv ok, of i t "hthr t i"]) (auto split: if_splits)
next
  case (HClear i)
  then show ?thesis using st by (intro counts_local[OF inv ok, of i t "hthr t i"]) (auto simp: next_shard_def hgo_def hreturn_def split: if_splits)
next
  case (HGo i)
  then show ?thesis using st clear_counts[OF inv ok, of i t] op_counts[OF inv cap ok, of i t] by (auto split: if_splits)
next
  case (HDropGuard i m)
  then show ?thesis using st by (intro counts_local[OF inv ok, of i t "hthr t i"]) (auto simp: Let_def set_guards_def split: if_splits)
next
  case (HWrite i m v)
  let ?g = "hguards (hthr s i) ! m"
  obtain nd where w: "i < hthreads s" "m < length (hguards (hthr s i))" "hpc (hthr s i) = HIdle"
    and t: "t = takes_effect c i (Write (nkey nd) v) (s\<lparr>nodes := (nodes s)(fst (snd ?g) \<mapsto> nd\<lparr>nvalue := v\<rparr>)\<rparr>)"
    using st HWrite by (auto simp: Let_def split: if_splits option.splits)
  have "fst (snd ?g) \<in> set (hchain s (fst ?g))" using conc_parts(7)[OF inv w(1)] w(2) by (simp add: hguards_ok_def)
  then have "howner s (fst (snd ?g)) = Some (Inl (fst ?g))" using chainD(3)[OF conc_parts(1)[OF inv]] by blast
  then have "b \<in> mine s j \<Longrightarrow> nodes t b = nodes s b" for b j by (auto simp: t takes_effect_def mine_def)
  then show ?thesis using w by (intro counts_local[OF inv ok, of i t "hthr t i"]) (auto simp: t takes_effect_def)
next
  case (HSend i m j)
  then have "nodes t = nodes s" "counts t = counts s" "hchain t = hchain s" "hthreads t = hthreads s" "\<And>k. hpc (hthr t k) = hpc (hthr s k)"
    using st by (auto simp: Let_def set_guards_def split: if_splits)
  then show ?thesis using ok by (simp add: counts_ok_def)
qed

definition count_inv :: "'k config \<Rightarrow> ('k, 'v) hsys \<Rightarrow> bool" where
  "count_inv c s \<longleftrightarrow> 0 < hc_cap c \<longrightarrow> conc_map_inv c s \<and> counts_ok c s"

interpretation count_machine: machine "map_step c" "hsys_new n" "count_inv c" for c :: "'k config" and n
proof unfold_locales
  show "count_inv c (hsys_new n)"
    by (simp add: count_inv_def map_inv_init) (simp add: counts_ok_def hsys_new_def in_chains_def)
qed (use counts_step map_inv_step in \<open>auto simp: count_inv_def\<close>)

section \<open>Length\<close>

lemma shard_keys:
  assumes inv: "conc_map_inv c s" and cap: "0 < hc_cap c" and quiet: "\<forall>i<hthreads s. hpc (hthr s i) = HIdle"
  shows "card {k. hmap s k \<noteq> None \<and> fst (slot_of c k) = sh} = in_chains c (hchain s) sh"
proof -
  let ?K = "\<lambda>j. nkey_of s ` set (hchain s (sh, j))"
  note ch = conc_parts(1)[OF inv]
  have K: "k \<in> ?K j \<Longrightarrow> slot_of c k = (sh, j)" for k j using chainD(5)[OF ch] by auto
  have dm: "hmap s k \<noteq> None \<longleftrightarrow> k \<in> nkey_of s ` set (hchain s (slot_of c k))" for k
    unfolding quiet_memory(1)[OF inv quiet] by (auto simp: lookup_def find_None_iff)
  have "{k. hmap s k \<noteq> None \<and> fst (slot_of c k) = sh} = (\<Union>j<unat (hc_cap c). ?K j)"
  proof (intro set_eqI iffI)
    fix k
    show "k \<in> (\<Union>j<unat (hc_cap c). ?K j)" if "k \<in> {k. hmap s k \<noteq> None \<and> fst (slot_of c k) = sh}"
      using that dm[of k] slot_of_bound[OF cap, of k] by (cases "slot_of c k") auto
    show "k \<in> {k. hmap s k \<noteq> None \<and> fst (slot_of c k) = sh}" if k: "k \<in> (\<Union>j<unat (hc_cap c). ?K j)"
    proof -
      obtain j where j: "k \<in> ?K j" using k by blast
      then have "slot_of c k = (sh, j)" by (rule K)
      then show ?thesis using dm[of k] j by simp
    qed
  qed
  moreover have "card (\<Union>j<unat (hc_cap c). ?K j) = (\<Sum>j<unat (hc_cap c). card (?K j))"
  proof (rule card_UN_disjoint)
    have "?K i \<inter> ?K j = {}" if "i \<noteq> j" for i j using K[of _ i] K[of _ j] that by (metis Int_emptyI Pair_inject)
    then show "\<forall>i\<in>{..<unat (hc_cap c)}. \<forall>j\<in>{..<unat (hc_cap c)}. i \<noteq> j \<longrightarrow> ?K i \<inter> ?K j = {}" by blast
  qed simp_all
  moreover have "card (?K j) = length (hchain s (sh, j))" for j
    using distinct_card[OF chainD(2)[OF ch, of "(sh, j)"]] by simp
  ultimately show ?thesis by (simp add: in_chains_def)
qed

text \<open>C29: The counter of every shard, which \<open>len\<close> adds up, is exact when no operation is running: it is
  the number of keys of the map in that shard, although \<open>insert\<close>, \<open>remove\<close> and \<open>clear\<close> change chain and
  counter in separate steps (modulo \<open>2^64\<close>, the width of the counter).\<close>

theorem map_conc_len:
  assumes "reachable (map_step c) (hsys_new n) s" "0 < hc_cap c" "\<forall>i<hthreads s. hpc (hthr s i) = HIdle"
  shows "counts s sh = of_nat (card {k. hmap s k \<noteq> None \<and> fst (slot_of c k) = sh})"
proof -
  have s: "conc_map_inv c s" "counts_ok c s" using count_machine.always[OF assms(1)] assms(2) by (simp_all add: count_inv_def)
  from s(2) have "counts s sh + of_nat (\<Sum>i<hthreads s. ahead c sh (hpc (hthr s i))) =
      of_nat (in_chains c (hchain s) sh + (\<Sum>i<hthreads s. owed c (nodes s) sh (hpc (hthr s i))))"
    unfolding counts_ok_def by blast
  then have "counts s sh = of_nat (in_chains c (hchain s) sh)" using assms(3) by simp
  then show ?thesis unfolding shard_keys[OF s(1) assms(2,3)] .
qed

theorem map_conc_len_witness:
  "\<exists>s :: (nat, nat) hsys. reachable (map_step one_slot) (hsys_new 2) s \<and> hlog s \<noteq> [] \<and>
     counts s 0 = of_nat (card {k. hmap s k \<noteq> None \<and> fst (slot_of one_slot k) = 0})"
proof -
  have "run_to (map_step one_slot) (HCall 0 (MInsert 7 5) # HCall 1 (MInsert 8 5) # replicate 10 (HGo 0) @ replicate 11 (HGo 1))
      (hsys_new 2 :: (nat, nat) hsys) (\<lambda>s. hthreads s = 2 \<and> hpc (hthr s 0) = HIdle \<and> hpc (hthr s 1) = HIdle \<and> length (hlog s) = 2)"
    by code_simp
  from run_toD[OF this] obtain s :: "(nat, nat) hsys"
    where s: "reachable (map_step one_slot) (hsys_new 2) s" "hthreads s = 2" "hpc (hthr s 0) = HIdle" "hpc (hthr s 1) = HIdle"
      "length (hlog s) = 2" by blast
  have "\<forall>i<hthreads s. hpc (hthr s i) = HIdle" using s(2-4) by (auto simp: less_2_cases_iff)
  from map_conc_len[OF s(1) one_slot_cap this, of 0] s(1,5) show ?thesis by (intro exI[of _ s]) auto
qed

end
