(* ===== verification/HashMap_Conc_Drop.thy ===== *)
theory HashMap_Conc_Drop
  imports HashMap_Conc_Spec
begin

text \<open>
  The destruction of \<open>AtomicHashMap\<close>: the last handle drops the shards, each detaches its chains and
  frees them entry by entry. Freeing an entry that is not allocated has no result.
\<close>

partial_function (option) drop_chain :: "(nat \<rightharpoonup> ('k, 'v) node) \<Rightarrow> nat option \<Rightarrow> (nat \<rightharpoonup> ('k, 'v) node) option" where
  "drop_chain H q =
     (case q of
        None \<Rightarrow> Some H
      | Some a \<Rightarrow> (case H a of None \<Rightarrow> None | Some nd \<Rightarrow> drop_chain (H(a := None)) (nnext nd)))"

fun drop_chains :: "(nat \<rightharpoonup> ('k, 'v) node) \<Rightarrow> nat option list \<Rightarrow> (nat \<rightharpoonup> ('k, 'v) node) option" where
  "drop_chains H [] = Some H"
| "drop_chains H (q # qs) = (case drop_chain H q of None \<Rightarrow> None | Some H' \<Rightarrow> drop_chains H' qs)"

text \<open>\<open>Shard::drop\<close> detaches every slot before it frees anything.\<close>

definition shard_drop :: "'k config \<Rightarrow> ('k, 'v) hsys \<Rightarrow> nat \<Rightarrow> (nat \<rightharpoonup> ('k, 'v) node) \<Rightarrow> (nat \<rightharpoonup> ('k, 'v) node) option" where
  "shard_drop c s sh H = drop_chains H (map (\<lambda>j. heads s (sh, j)) [0..<unat (hc_cap c)])"

fun shards_drop :: "'k config \<Rightarrow> ('k, 'v) hsys \<Rightarrow> nat list \<Rightarrow> (nat \<rightharpoonup> ('k, 'v) node) \<Rightarrow> (nat \<rightharpoonup> ('k, 'v) node) option" where
  "shards_drop c s [] H = Some H"
| "shards_drop c s (sh # shs) H = (case shard_drop c s sh H of None \<Rightarrow> None | Some H' \<Rightarrow> shards_drop c s shs H')"

definition map_drop :: "'k config \<Rightarrow> ('k, 'v) hsys \<Rightarrow> (nat \<rightharpoonup> ('k, 'v) node) option" where
  "map_drop c s = shards_drop c s [0..<hc_shards c] (nodes s)"

section \<open>Freeing chains\<close>

lemma drop_chain_linked: "linked H q as \<Longrightarrow> distinct as \<Longrightarrow> drop_chain H q = Some (H |` (- set as))"
proof (induction as arbitrary: H q)
  case Nil
  then show ?case by (simp add: drop_chain.simps restrict_map_def fun_eq_iff)
next
  case (Cons a as)
  then obtain nd where nd: "q = Some a" "H a = Some nd" "linked H (nnext nd) as" by auto
  have "linked (H(a := None)) (nnext nd) as = linked H (nnext nd) as" by (rule linked_cong) (use Cons.prems(2) in auto)
  with nd(3) have l: "linked (H(a := None)) (nnext nd) as" by simp
  have "drop_chain (H(a := None)) (nnext nd) = Some (H(a := None) |` (- set as))" 
    by (rule Cons.IH[OF l]) (use Cons.prems(2) in simp)
  moreover have "H(a := None) |` (- set as) = H |` (- set (a # as))" by (auto simp: restrict_map_def fun_eq_iff)
  ultimately show ?case using nd by (simp add: drop_chain.simps[of H "Some a"])
qed

lemma linked_restrict:
  assumes "linked H q as" "set as \<inter> B = {}"
  shows "linked (H |` (- B)) q as"
proof -
  have "linked H q as = linked (H |` (- B)) q as" by (rule linked_cong) (use assms(2) in \<open>auto simp: restrict_map_def\<close>)
  then show ?thesis using assms(1) by simp
qed

lemma drop_chains_linked:
  "list_all2 (linked H) qs ls \<Longrightarrow> distinct (concat ls) \<Longrightarrow> drop_chains H qs = Some (H |` (- set (concat ls)))"
proof (induction qs arbitrary: H ls)
  case Nil
  then show ?case by (simp add: restrict_map_def fun_eq_iff)
next
  case (Cons q qs)
  then obtain l ls' where l: "ls = l # ls'" "linked H q l" "list_all2 (linked H) qs ls'" by (auto simp: list_all2_Cons1)
  then have d: "distinct l" "distinct (concat ls')" "set l \<inter> set (concat ls') = {}" using Cons.prems(2) by auto
  have "list_all2 (linked (H |` (- set l))) qs ls'" using l(3)
    by (rule list.rel_mono_strong) (use d(3) in \<open>auto intro!: linked_restrict\<close>)
  from Cons.IH[OF this d(2)] show ?case
    using drop_chain_linked[OF l(2) d(1)] by (simp add: l(1) Int_commute)
qed

section \<open>Dropping the map\<close>

lemma chains_distinct:
  assumes "conc_map_inv c s" "distinct ps"
  shows "distinct (concat (map (hchain s) ps))"
  using assms(2)
proof (induction ps)
  case (Cons p ps)
  note ch = conc_parts(1)[OF assms(1)]
  have "distinct (hchain s p)" using chainD(2)[OF ch, of p] by (simp add: distinct_map)
  moreover have "set (hchain s p) \<inter> set (hchain s q) = {}" if "q \<in> set ps" for q
  proof -
    have "q \<noteq> p" using that Cons.prems by auto
    then show ?thesis using chainD(3)[OF ch, of _ p] chainD(3)[OF ch, of _ q] by (metis Int_emptyI Inl_inject option.inject)
  qed
  ultimately show ?case using Cons by auto
qed simp

lemma drop_chains_append:
  "drop_chains H (xs @ ys) = (case drop_chains H xs of None \<Rightarrow> None | Some H' \<Rightarrow> drop_chains H' ys)"
  by (induction xs arbitrary: H) (auto split: option.splits)

lemma shards_drop_product:
  "shards_drop c s shs H = drop_chains H (map (heads s) (List.product shs [0..<unat (hc_cap c)]))"
  by (induction shs arbitrary: H) (simp_all add: shard_drop_def drop_chains_append comp_def split: option.splits)

lemma shard_in_range:
  assumes "hc_shards c = 2 ^ b" "hc_shift c = 64 - b" "b \<le> 64"
  shows "fst (slot_of c k) < hc_shards c"
proof -
  let ?h = "push_bit 7 (hc_hash c k)"
  have "unat ?h div 2 ^ (64 - b) < 2 ^ b"
  proof (rule less_mult_imp_div_less)
    have "unat ?h < 2 ^ 64" using unsigned_less[of ?h] by simp
    also have "(2 :: nat) ^ 64 = 2 ^ b * 2 ^ (64 - b)" using assms(3) by (simp flip: power_add)
    finally show "unat ?h < 2 ^ b * 2 ^ (64 - b)" .
  qed
  moreover have "unat (drop_bit m ?h) = unat ?h div 2 ^ m" for m by (metis drop_bit_eq_div unat_drop_bit_eq)
  ultimately show ?thesis unfolding slot_of_def assms by simp
qed

text \<open>Dropping the last handle frees every entry exactly once: after any concurrent history that has
  come to rest, the destruction of all shards never frees an entry twice or follows a dangling
  link, ends, and leaves no entry allocated.\<close>

theorem map_drop_exact:
  assumes "reachable (map_step c) (hsys_new n) s" "0 < hc_cap c" "\<forall>i<hthreads s. hpc (hthr s i) = HIdle"
    and "hc_shards c = 2 ^ b" "hc_shift c = 64 - b" "b \<le> 64"
  shows "map_drop c s = Some Map.empty"
proof -
  have inv: "conc_map_inv c s" by (rule map_always[OF assms(1,2)])
  let ?ps = "List.product [0..<hc_shards c] [0..<unat (hc_cap c)]"
  note ch = conc_parts(1)[OF inv]
  have "drop_chains (nodes s) (map (heads s) ?ps) = Some (nodes s |` (- set (concat (map (hchain s) ?ps))))"
    by (rule drop_chains_linked) (use chainD(1)[OF ch] chains_distinct[OF inv] in \<open>simp_all add: list_all2_conv_all_nth distinct_product\<close>)
  moreover have "dom (nodes s) \<subseteq> set (concat (map (hchain s) ?ps))"
  proof
    fix a assume "a \<in> dom (nodes s)"
    then obtain p where p: "a \<in> set (hchain s p)" using quiet_memory(2)[OF inv assms(3)] by blast
    then have "p = slot_of c (nkey_of s a)" using chainD(5)[OF ch] by metis
    then have "p \<in> set ?ps" using shard_in_range[OF assms(4-6)] slot_of_bound[OF assms(2)] by (cases p) (metis atLeastLessThan_iff fst_conv snd_conv set_upt set_product mem_Sigma_iff zero_le)
    with p show "a \<in> set (concat (map (hchain s) ?ps))" by auto
  qed
  ultimately show ?thesis unfolding map_drop_def shards_drop_product
    by (auto simp: restrict_map_def fun_eq_iff)
qed

theorem map_drop_exact_witness:
  "\<exists>s :: (nat, nat) hsys. reachable (map_step one_slot) (hsys_new 1) s \<and> nodes s 0 \<noteq> None \<and> map_drop one_slot s = Some Map.empty"
proof -
  have "run_to (map_step one_slot) (HCall 0 (MInsert 7 5) # replicate 10 (HGo 0)) (hsys_new 1 :: (nat, nat) hsys)
      (\<lambda>s. hthreads s = 1 \<and> hpc (hthr s 0) = HIdle \<and> nodes s 0 \<noteq> None)"
    by code_simp
  from run_toD[OF this] obtain s :: "(nat, nat) hsys"
    where s: "reachable (map_step one_slot) (hsys_new 1) s" "hthreads s = 1" "hpc (hthr s 0) = HIdle" "nodes s 0 \<noteq> None" by blast
  have "map_drop one_slot s = Some Map.empty"
    by (rule map_drop_exact[OF s(1) one_slot_cap, where b = 1]) (use s(2,3) in \<open>simp_all add: one_slot_def\<close>)
  with s show ?thesis by blast
qed

end
