(* ===== verification/Array.thy ===== *)
theory Array
  imports Refinement
begin

text \<open>
  \<open>AtomicArray\<close> of \<open>src/atomic/array.rs\<close>: a bounded array that is filled by \<open>push\<close> and indexed
  by \<open>get\<close>. This theory has the data and the operations as a thread that runs alone performs
  them; a \<open>push\<close> is composed of its atomic accesses (\<open>reserve\<close>, \<open>write_value\<close>, \<open>count_one\<close>,
  \<open>publish\<close>), which theory \<open>Array_Conc\<close> interleaves. Where the code waits for a slot to be
  written the result is \<open>None\<close> if it never is: such a call does not return. Closures
  (\<open>FnMut\<close>) are functions that pass their own state along. Indices are natural numbers:
  all of them are bounded by the capacity of an allocated array.
\<close>

definition DEFAULT_ARRAY_CAP :: nat where
  "DEFAULT_ARRAY_CAP = 32"

definition EMPTY :: usize where
  "EMPTY = 0"

definition WRITE :: usize where
  "WRITE = 1"

record 'a aslot =
  avalue :: "'a option"
  astate :: usize

record 'a array =
  aslots :: "'a aslot list"
  ahead :: nat
  atail :: nat
  alen :: nat

datatype array_error = ZeroCapacity | ResetWhileHolding

definition aslot_new :: "'a aslot" where
  "aslot_new = \<lparr>avalue = None, astate = EMPTY\<rparr>"

definition aslot_reset :: "'a aslot \<Rightarrow> 'a aslot" where
  "aslot_reset sl = sl\<lparr>astate := EMPTY\<rparr>"

definition is_written :: "'a aslot \<Rightarrow> bool" where
  "is_written sl \<longleftrightarrow> astate sl AND WRITE \<noteq> 0"

definition allocate_slots :: "nat \<Rightarrow> 'a aslot list" where
  "allocate_slots capacity = map (\<lambda>_. aslot_new) [0..<capacity]"

definition array_with_capacity :: "nat \<Rightarrow> array_error + 'a array" where
  "array_with_capacity capacity =
     (if 0 < capacity
      then Inr \<lparr>aslots = allocate_slots capacity, ahead = 0, atail = 0, alen = 0\<rparr>
      else Inl ZeroCapacity)"

definition array_new :: "array_error + 'a array" where
  "array_new = array_with_capacity DEFAULT_ARRAY_CAP"

definition array_capacity :: "'a array \<Rightarrow> nat" where
  "array_capacity a = length (aslots a)"

definition array_len :: "'a array \<Rightarrow> nat" where
  "array_len a = alen a"

definition array_is_empty :: "'a array \<Rightarrow> bool" where
  "array_is_empty a \<longleftrightarrow> array_len a = 0"

section \<open>Push\<close>

definition reserve :: "'a array \<Rightarrow> 'a array" where
  "reserve a = a\<lparr>atail := atail a + 1\<rparr>"

definition write_value :: "'a array \<Rightarrow> nat \<Rightarrow> 'a \<Rightarrow> 'a array" where
  "write_value a t v = a\<lparr>aslots := (aslots a)[t := (aslots a ! t)\<lparr>avalue := Some v\<rparr>]\<rparr>"

definition count_one :: "'a array \<Rightarrow> 'a array" where
  "count_one a = a\<lparr>alen := alen a + 1\<rparr>"

definition publish :: "'a array \<Rightarrow> nat \<Rightarrow> 'a array" where
  "publish a t = a\<lparr>aslots := (aslots a)[t := (aslots a ! t)\<lparr>astate := WRITE\<rparr>]\<rparr>"

definition array_push :: "'a array \<Rightarrow> 'a \<Rightarrow> ('a + unit) \<times> 'a array" where
  "array_push a v =
     (let t = atail a in
      if array_capacity a \<le> t then (Inl v, a)
      else (Inr (), publish (count_one (write_value (reserve a) t v)) t))"

fun push_each :: "('c \<Rightarrow> 'a \<times> 'c) \<Rightarrow> nat \<Rightarrow> 'a array \<Rightarrow> 'c \<Rightarrow> 'a array \<times> 'c" where
  "push_each initializer 0 a c = (a, c)"
| "push_each initializer (Suc n) a c =
     (let (v, c') = initializer c in push_each initializer n (snd (array_push a v)) c')"

definition init_with :: "nat \<Rightarrow> ('c \<Rightarrow> 'a \<times> 'c) \<Rightarrow> 'c \<Rightarrow> array_error + ('a array \<times> 'c)" where
  "init_with cap initializer c =
     (case array_with_capacity cap of Inl e \<Rightarrow> Inl e | Inr a \<Rightarrow> Inr (push_each initializer cap a c))"

definition from_iter :: "'a list \<Rightarrow> array_error + 'a array" where
  "from_iter vs =
     (case array_with_capacity (max (length vs) DEFAULT_ARRAY_CAP) of
        Inl e \<Rightarrow> Inl e
      | Inr a \<Rightarrow> Inr (foldl (\<lambda>a v. snd (array_push a v)) a vs))"

section \<open>Access\<close>

text \<open>\<open>wait_write\<close> and the value behind it.\<close>

definition wait_write :: "'a array \<Rightarrow> nat \<Rightarrow> 'a option" where
  "wait_write a t =
     (if t < array_capacity a \<and> is_written (aslots a ! t) then avalue (aslots a ! t) else None)"

definition array_get :: "'a array \<Rightarrow> nat \<Rightarrow> 'a option option" where
  "array_get a index =
     (if alen a \<le> index then Some None
      else let target = ahead a + index in
           if array_capacity a \<le> target then Some None
           else map_option Some (wait_write a target))"

definition array_with :: "'a array \<Rightarrow> nat \<Rightarrow> ('a \<Rightarrow> 'r) \<Rightarrow> 'r option option" where
  "array_with a index f = map_option (map_option f) (array_get a index)"

definition array_with_mut :: "'a array \<Rightarrow> nat \<Rightarrow> ('a \<Rightarrow> 'r \<times> 'a) \<Rightarrow> ('r option \<times> 'a array) option" where
  "array_with_mut a index f =
     (if alen a \<le> index then Some (None, a)
      else let target = ahead a + index in
           if array_capacity a \<le> target then Some (None, a)
           else (case wait_write a target of
                   None \<Rightarrow> None
                 | Some v \<Rightarrow> Some (Some (fst (f v)), write_value a target (snd (f v)))))"

fun array_collect :: "'a array \<Rightarrow> nat list \<Rightarrow> 'a list option" where
  "array_collect a [] = Some []"
| "array_collect a (i # is) =
     (let target = ahead a + i in
      if target < array_capacity a then
        (case wait_write a target of
           None \<Rightarrow> None
         | Some v \<Rightarrow> map_option (\<lambda>vs. v # vs) (array_collect a is))
      else array_collect a is)"

definition array_as_vec :: "'a array \<Rightarrow> 'a list option" where
  "array_as_vec a = (if alen a = 0 then Some [] else array_collect a [0..<alen a])"

fun visit_each :: "('a \<Rightarrow> 'c \<Rightarrow> 'c) \<Rightarrow> 'a array \<Rightarrow> nat list \<Rightarrow> 'c \<Rightarrow> 'c option" where
  "visit_each f a [] c = Some c"
| "visit_each f a (i # is) c =
     (case wait_write a (ahead a + i) of None \<Rightarrow> None | Some v \<Rightarrow> visit_each f a is (f v c))"

definition array_for_each :: "('a \<Rightarrow> 'c \<Rightarrow> 'c) \<Rightarrow> 'a array \<Rightarrow> 'c \<Rightarrow> 'c option" where
  "array_for_each f a c = visit_each f a [0..<alen a] c"

fun update_each :: "('a \<Rightarrow> 'c \<Rightarrow> 'a \<times> 'c) \<Rightarrow> nat list \<Rightarrow> 'a array \<Rightarrow> 'c \<Rightarrow> ('a array \<times> 'c) option" where
  "update_each f [] a c = Some (a, c)"
| "update_each f (i # is) a c =
     (case wait_write a (ahead a + i) of
        None \<Rightarrow> None
      | Some v \<Rightarrow> (let (v', c') = f v c in update_each f is (write_value a (ahead a + i) v') c'))"

definition array_for_each_mut :: "('a \<Rightarrow> 'c \<Rightarrow> 'a \<times> 'c) \<Rightarrow> 'a array \<Rightarrow> 'c \<Rightarrow> ('a array \<times> 'c) option" where
  "array_for_each_mut f a c = update_each f [0..<alen a] a c"

section \<open>Reset\<close>

text \<open>
  What an attempt to take the coordination lock finds: it is free, or taken by guards of
  others only (\<open>GateTaken False\<close>), or the caller itself holds a guard (\<open>GateTaken True\<close>).
  The result carries the array whose storage was swapped out, which is dropped last.
\<close>

datatype gate_view = GateFree | GateTaken bool

fun take_gate :: "gate_view list \<Rightarrow> (array_error + unit) option" where
  "take_gate [] = None"
| "take_gate (GateFree # vs) = Some (Inr ())"
| "take_gate (GateTaken True # vs) = Some (Inl ResetWhileHolding)"
| "take_gate (GateTaken False # vs) = take_gate vs"

definition swap_storage :: "'a array \<Rightarrow> 'a array \<Rightarrow> nat \<Rightarrow> 'a array \<times> 'a array" where
  "swap_storage a other new_cap =
     (\<lparr>aslots = aslots other, ahead = 0, atail = new_cap, alen = new_cap\<rparr>,
      \<lparr>aslots = aslots a, ahead = ahead a, atail = atail a, alen = alen a\<rparr>)"

definition reset_with ::
  "gate_view list \<Rightarrow> 'a array \<Rightarrow> nat \<Rightarrow> ('c \<Rightarrow> 'a \<times> 'c) \<Rightarrow> 'c \<Rightarrow> (array_error + nat \<times> 'a array \<times> 'a array \<times> 'c) option" where
  "reset_with views a new_cap initializer c =
     (case init_with new_cap initializer c of
        Inl e \<Rightarrow> Some (Inl e)
      | Inr (replacement, c') \<Rightarrow>
          (case take_gate views of
             None \<Rightarrow> None
           | Some (Inl e) \<Rightarrow> Some (Inl e)
           | Some (Inr _) \<Rightarrow>
               (case swap_storage a replacement new_cap of
                  (a', old) \<Rightarrow> Some (Inr (new_cap, a', old, c')))))"

text \<open>\<open>Drop\<close> of the slots: the values that are destroyed.\<close>

definition dropped_values :: "'a array \<Rightarrow> 'a option list" where
  "dropped_values a = map avalue (filter is_written (aslots a))"

section \<open>Chunks\<close>

definition saturating_add :: "nat \<Rightarrow> nat \<Rightarrow> nat" where
  "saturating_add a b = min (a + b) (2 ^ 64 - 1)"

function chunk_loop :: "nat \<Rightarrow> nat \<Rightarrow> nat \<Rightarrow> (nat \<times> nat) list" where
  "chunk_loop len chunk_size start =
     (if start < len \<and> 0 < chunk_size
      then (start, min (saturating_add start chunk_size) len) # chunk_loop len chunk_size (start + chunk_size)
      else [])"
  by pat_completeness auto
termination
  by (relation "measure (\<lambda>(len, _, start). len - start)") auto

declare chunk_loop.simps [simp del]

definition chunk_indices :: "'a array \<Rightarrow> nat \<Rightarrow> (nat \<times> nat) list" where
  "chunk_indices a num_chunks =
     (let len = array_len a in
      if len = 0 \<or> num_chunks = 0 then []
      else chunk_loop len (div_ceil len num_chunks) 0)"

section \<open>The invariant and the abstraction\<close>

text \<open>
  Between the calls of a single thread every reserved slot is written and the counters
  agree; the array stands for the list of the values of its reserved slots.
\<close>

definition array_inv :: "'a array \<Rightarrow> bool" where
  "array_inv a \<longleftrightarrow> ahead a = 0 \<and> alen a = atail a \<and> atail a \<le> array_capacity a \<and> 0 < array_capacity a \<and>
     (\<forall>i<atail a. astate (aslots a ! i) = WRITE \<and> avalue (aslots a ! i) \<noteq> None) \<and>
     (\<forall>i. atail a \<le> i \<and> i < array_capacity a \<longrightarrow> aslots a ! i = aslot_new)"

definition array_list :: "'a array \<Rightarrow> 'a list" where
  "array_list a = map (\<lambda>i. the (avalue (aslots a ! i))) [0..<atail a]"

end
