(* ===== verification/Array_List.thy ===== *)
theory Array_List
  imports Array
begin

text \<open>
  The sequential contract of \<open>AtomicArray\<close>: its operations on an array are those of a bounded
  list, for every sequence of calls; \<open>from_iter\<close> and \<open>as_vec\<close> are inverse to each other;
  \<open>chunk_indices\<close> partitions the indices; a reset replaces everything or nothing.
\<close>

lemma length_array_list [simp]: "length (array_list a) = atail a"
  by (simp add: array_list_def)

lemma array_list_Nil: "array_list a = [] \<longleftrightarrow> atail a = 0"
  by (simp flip: length_0_conv)

lemma array_len_inv: "array_inv a \<Longrightarrow> array_len a = length (array_list a)"
  by (simp add: array_len_def array_inv_def)

lemma array_list_nth: "i < atail a \<Longrightarrow> array_list a ! i = the (avalue (aslots a ! i))"
  by (simp add: array_list_def)

lemma is_written_WRITE: "astate sl = WRITE \<Longrightarrow> is_written sl"
  by (simp add: is_written_def WRITE_def)

lemma not_written_new [simp]: "\<not> is_written aslot_new"
  by (simp add: is_written_def aslot_new_def EMPTY_def)

lemma wait_write_inv: "array_inv a \<Longrightarrow> i < atail a \<Longrightarrow> wait_write a i = Some (array_list a ! i)"
  by (auto simp: wait_write_def array_inv_def array_list_nth is_written_WRITE)

lemma array_get_inv:
  "array_inv a \<Longrightarrow> array_get a i = Some (if i < length (array_list a) then Some (array_list a ! i) else None)"
  using wait_write_inv[of a i] by (auto simp: array_get_def array_inv_def)

lemma write_value_inv:
  assumes "array_inv a" "i < atail a"
  shows "array_inv (write_value a i v)" "array_list (write_value a i v) = (array_list a)[i := v]"
proof -
  have i: "i < length (aslots a)" using assms by (auto simp: array_inv_def array_capacity_def)
  show "array_inv (write_value a i v)"
    using assms i by (auto simp: array_inv_def write_value_def array_capacity_def nth_list_update)
  show "array_list (write_value a i v) = (array_list a)[i := v]"
    by (rule nth_equalityI) (use i in \<open>auto simp: array_list_def write_value_def nth_list_update\<close>)
qed

lemma array_with_mut_inv:
  assumes "array_inv a"
  shows "if i < length (array_list a)
    then array_with_mut a i f = Some (Some (fst (f (array_list a ! i))), write_value a i (snd (f (array_list a ! i))))
    else array_with_mut a i f = Some (None, a)"
  using assms wait_write_inv[OF assms, of i] by (auto simp: array_with_mut_def array_inv_def)

lemma array_push_full:
  "array_inv a \<Longrightarrow> length (array_list a) = array_capacity a \<Longrightarrow> array_push a v = (Inl v, a)"
  by (simp add: array_push_def)

lemma array_push_room:
  assumes inv: "array_inv a" and room: "length (array_list a) < array_capacity a"
  shows "\<exists>b. array_push a v = (Inr (), b) \<and> array_inv b \<and> array_list b = array_list a @ [v] \<and>
    array_capacity b = array_capacity a"
proof -
  let ?t = "atail a"
  let ?b = "publish (count_one (write_value (reserve a) ?t v)) ?t"
  have t: "?t < length (aslots a)" using room by (simp add: array_capacity_def)
  have s: "aslots ?b = (aslots a)[?t := \<lparr>avalue = Some v, astate = WRITE\<rparr>]"
    and r: "ahead ?b = ahead a" "atail ?b = ?t + 1" "alen ?b = alen a + 1"
    using t inv by (auto simp: publish_def count_one_def write_value_def reserve_def array_inv_def
        array_capacity_def aslot_new_def)
  have "array_push a v = (Inr (), ?b)" using t by (simp add: array_push_def Let_def array_capacity_def)
  moreover have "array_inv ?b" using inv t s r
    by (auto simp: array_inv_def array_capacity_def nth_list_update less_Suc_eq)
  moreover have "array_list ?b = array_list a @ [v]"
    using t by (auto simp: array_list_def s r nth_list_update)
  moreover have "array_capacity ?b = array_capacity a" by (simp add: array_capacity_def s)
  ultimately show ?thesis by blast
qed

lemma array_push_keeps:
  assumes "array_inv a"
  shows "array_inv (snd (array_push a v))" "array_capacity (snd (array_push a v)) = array_capacity a"
    "array_list (snd (array_push a v)) = take (array_capacity a) (array_list a @ [v])"
proof -
  have le: "length (array_list a) \<le> array_capacity a" using assms by (simp add: array_inv_def)
  consider "length (array_list a) = array_capacity a" | "length (array_list a) < array_capacity a"
    using le by linarith
  then have "array_inv (snd (array_push a v)) \<and> array_capacity (snd (array_push a v)) = array_capacity a \<and>
    array_list (snd (array_push a v)) = take (array_capacity a) (array_list a @ [v])"
  proof cases
    case 1
    then show ?thesis using array_push_full[OF assms 1, of v] assms by simp
  next
    case 2
    then show ?thesis using array_push_room[OF assms 2, of v] by auto
  qed
  then show "array_inv (snd (array_push a v))" "array_capacity (snd (array_push a v)) = array_capacity a"
    "array_list (snd (array_push a v)) = take (array_capacity a) (array_list a @ [v])" by auto
qed

lemma collect_inv:
  "array_inv a \<Longrightarrow> \<forall>i\<in>set is. i < atail a \<Longrightarrow> array_collect a is = Some (map ((!) (array_list a)) is)"
proof (induction "is")
  case (Cons i "is")
  then have "i < array_capacity a" "ahead a = 0" by (auto simp: array_inv_def)
  with Cons wait_write_inv[of a i] show ?case by simp
qed simp

lemma map_nth_upt: "map ((!) xs) [0..<length xs] = xs"
  by (simp add: map_nth)

lemma array_as_vec_inv: "array_inv a \<Longrightarrow> array_as_vec a = Some (array_list a)"
  using collect_inv[of a "[0..<alen a]"] map_nth_upt[of "array_list a"]
  by (auto simp: array_as_vec_def array_inv_def array_list_def)

lemma visit_each_inv:
  "array_inv a \<Longrightarrow> \<forall>i\<in>set is. i < atail a \<Longrightarrow> visit_each f a is c = Some (fold f (map ((!) (array_list a)) is) c)"
proof (induction "is" arbitrary: c)
  case (Cons i "is")
  then have "ahead a = 0" by (auto simp: array_inv_def)
  with Cons wait_write_inv[of a i] show ?case by simp
qed simp

lemma array_for_each_inv: "array_inv a \<Longrightarrow> array_for_each f a c = Some (fold f (array_list a) c)"
  using visit_each_inv[of a "[0..<alen a]" f c] map_nth_upt[of "array_list a"]
  by (auto simp: array_for_each_def array_inv_def)

text \<open>The reference for a stateful update of every element, in order.\<close>

fun map_accum :: "('a \<Rightarrow> 'c \<Rightarrow> 'a \<times> 'c) \<Rightarrow> 'a list \<Rightarrow> 'c \<Rightarrow> 'a list \<times> 'c" where
  "map_accum f [] c = ([], c)"
| "map_accum f (x # xs) c = (let (y, c') = f x c; (ys, c'') = map_accum f xs c' in (y # ys, c''))"

lemma update_each_inv:
  assumes "array_inv a" "k \<le> atail a"
  shows "\<exists>b. update_each f [k..<atail a] a c = Some (b, snd (map_accum f (drop k (array_list a)) c)) \<and>
    array_inv b \<and> array_capacity b = array_capacity a \<and>
    array_list b = take k (array_list a) @ fst (map_accum f (drop k (array_list a)) c)"
  using assms
proof (induction "atail a - k" arbitrary: a k c)
  case 0
  then show ?case by simp
next
  case (Suc n)
  then have k: "k < atail a" by simp
  obtain y c' where f: "f (array_list a ! k) c = (y, c')" by fastforce
  let ?a = "write_value a k y"
  have a: "array_inv ?a" "array_list ?a = (array_list a)[k := y]" "array_capacity ?a = array_capacity a"
    and t: "atail ?a = atail a" "ahead a = 0"
    using write_value_inv[OF Suc.prems(1) k] Suc.prems(1) by (auto simp: write_value_def array_capacity_def array_inv_def)
  have split: "[k..<atail a] = k # [Suc k..<atail a]" "drop k (array_list a) = array_list a ! k # drop (Suc k) (array_list a)"
    using k by (simp_all add: upt_conv_Cons Cons_nth_drop_Suc)
  have "drop (Suc k) (array_list ?a) = drop (Suc k) (array_list a)"
    "take (Suc k) (array_list ?a) = take k (array_list a) @ [y]"
    using k by (simp_all add: a take_Suc_conv_app_nth)
  moreover have "n = atail ?a - Suc k" "Suc k \<le> atail ?a" using Suc.hyps(2) k t by simp_all
  ultimately show ?case using Suc.hyps(1)[OF _ a(1), of "Suc k" c'] f t a(3) wait_write_inv[OF Suc.prems(1) k]
    by (auto simp: split case_prod_beta)
qed

lemma array_for_each_mut_inv:
  assumes "array_inv a"
  shows "\<exists>b. array_for_each_mut f a c = Some (b, snd (map_accum f (array_list a) c)) \<and> array_inv b \<and>
    array_capacity b = array_capacity a \<and> array_list b = fst (map_accum f (array_list a) c)"
  using update_each_inv[OF assms, of 0 f c] assms by (simp add: array_for_each_mut_def array_inv_def)

lemma array_with_capacity_inv:
  assumes "array_with_capacity n = Inr a"
  shows "array_inv a \<and> array_list a = [] \<and> array_capacity a = n"
  using assms by (auto simp: array_with_capacity_def array_inv_def array_list_def array_capacity_def
      allocate_slots_def split: if_splits)


section \<open>Construction and reset\<close>

lemma push_each_inv:
  assumes "array_inv a" "length (array_list a) + n \<le> array_capacity a"
  shows "\<exists>b. push_each g n a c = (b, snd (produce g n c)) \<and> array_inv b \<and>
    array_list b = array_list a @ fst (produce g n c) \<and> array_capacity b = array_capacity a"
  using assms
proof (induction n arbitrary: a c)
  case 0
  then show ?case by simp
next
  case (Suc n)
  obtain v c' where g: "g c = (v, c')" by fastforce
  obtain b where b: "array_push a v = (Inr (), b)" "array_inv b" "array_list b = array_list a @ [v]"
    "array_capacity b = array_capacity a"
    using array_push_room[OF Suc.prems(1), of v] Suc.prems(2) by auto
  with Suc.prems(2) have "length (array_list b) + n \<le> array_capacity b"
    by (simp del: length_array_list)
  from Suc.IH[OF b(2) this, of c'] g b show ?case by (auto simp: case_prod_beta)
qed

lemma foldl_push_inv:
  assumes "array_inv a" "length (array_list a) + length vs \<le> array_capacity a"
  shows "array_inv (foldl (\<lambda>a v. snd (array_push a v)) a vs) \<and>
    array_list (foldl (\<lambda>a v. snd (array_push a v)) a vs) = array_list a @ vs"
  using assms
proof (induction vs arbitrary: a)
  case (Cons v vs)
  obtain b where b: "array_push a v = (Inr (), b)" "array_inv b" "array_list b = array_list a @ [v]"
    "array_capacity b = array_capacity a"
    using array_push_room[OF Cons.prems(1), of v] Cons.prems(2) by auto
  with Cons.prems(2) have "length (array_list b) + length vs \<le> array_capacity b"
    by (simp del: length_array_list)
  from Cons.IH[OF b(2) this] b show ?case by simp
qed simp

lemma init_with_inv:
  assumes "0 < n"
  shows "\<exists>b. init_with n g c = Inr (b, snd (produce g n c)) \<and> array_inv b \<and>
    array_list b = fst (produce g n c) \<and> array_capacity b = n"
proof -
  obtain a :: "'a array" where a: "array_with_capacity n = Inr a" using assms by (simp add: array_with_capacity_def)
  from array_with_capacity_inv[OF a] push_each_inv[of a n g c] a show ?thesis
    by (auto simp: init_with_def simp del: length_array_list)
qed

lemma filter_written:
  assumes "array_inv a"
  shows "filter is_written (aslots a) = take (atail a) (aslots a)"
proof -
  have "filter is_written (take (atail a) (aslots a)) = take (atail a) (aslots a)"
    using assms is_written_WRITE[of "aslots a ! _"] by (auto simp: filter_id_conv in_set_conv_nth array_inv_def)
  moreover have "filter is_written (drop (atail a) (aslots a)) = []"
  proof -
    have "\<not> is_written x" if x: "x \<in> set (drop (atail a) (aslots a))" for x
    proof -
      obtain i where "i < array_capacity a - atail a" "x = aslots a ! (atail a + i)"
        using x by (auto simp: in_set_conv_nth array_capacity_def)
      with assms have "x = aslot_new" by (simp add: array_inv_def)
      then show ?thesis by simp
    qed
    then show ?thesis by (simp add: filter_empty_conv)
  qed
  ultimately show ?thesis by (metis append.right_neutral append_take_drop_id filter_append)
qed

lemma dropped_values_inv: "array_inv a \<Longrightarrow> dropped_values a = map Some (array_list a)"
  unfolding dropped_values_def filter_written
  by (rule nth_equalityI) (auto simp: array_inv_def array_capacity_def array_list_nth)

lemma swap_storage_inv:
  assumes "array_inv b" "array_list b = vs" "length vs = n" "array_capacity b = n"
  shows "array_inv (fst (swap_storage a b n))" "array_list (fst (swap_storage a b n)) = vs"
    "array_capacity (fst (swap_storage a b n)) = n" "snd (swap_storage a b n) = a"
proof -
  have "atail b = n" using assms(2,3) by auto
  with assms show "array_inv (fst (swap_storage a b n))" "array_list (fst (swap_storage a b n)) = vs"
    "array_capacity (fst (swap_storage a b n)) = n" "snd (swap_storage a b n) = a"
    by (auto simp: swap_storage_def array_inv_def array_list_def array_capacity_def)
qed

section \<open>The operations together\<close>

datatype 'a aop = PushA 'a | GetA nat | WithMutA nat "'a \<Rightarrow> 'a \<times> 'a" | ForEachMutA "'a \<Rightarrow> 'a"
  | AsVecA | LenA | IsEmptyA | CapacityA | ResetA nat "nat \<Rightarrow> 'a"

datatype 'a ares = Done | Refused 'a | Maybe "'a option" | Values "'a list" | Count nat | Flag bool
  | Panic array_error | Stuck

definition array_op :: "'a array \<Rightarrow> 'a aop \<Rightarrow> 'a ares \<times> 'a array" where
  "array_op a x = (case x of
     PushA v \<Rightarrow> (case array_push a v of (Inl w, b) \<Rightarrow> (Refused w, b) | (Inr _, b) \<Rightarrow> (Done, b))
   | GetA i \<Rightarrow> (case array_get a i of None \<Rightarrow> (Stuck, a) | Some r \<Rightarrow> (Maybe r, a))
   | WithMutA i f \<Rightarrow> (case array_with_mut a i f of None \<Rightarrow> (Stuck, a) | Some (r, b) \<Rightarrow> (Maybe r, b))
   | ForEachMutA f \<Rightarrow> (case array_for_each_mut (\<lambda>v _. (f v, ())) a () of None \<Rightarrow> (Stuck, a) | Some (b, _) \<Rightarrow> (Done, b))
   | AsVecA \<Rightarrow> (case array_as_vec a of None \<Rightarrow> (Stuck, a) | Some vs \<Rightarrow> (Values vs, a))
   | LenA \<Rightarrow> (Count (array_len a), a)
   | IsEmptyA \<Rightarrow> (Flag (array_is_empty a), a)
   | CapacityA \<Rightarrow> (Count (array_capacity a), a)
   | ResetA n g \<Rightarrow> (case reset_with [GateFree] a n (\<lambda>k. (g k, Suc k)) 0 of
         None \<Rightarrow> (Stuck, a) | Some (Inl e) \<Rightarrow> (Panic e, a) | Some (Inr (m, b, old, _)) \<Rightarrow> (Count m, b)))"

text \<open>The specification: a list and the bound on its length.\<close>

definition list_op :: "nat \<times> 'a list \<Rightarrow> 'a aop \<Rightarrow> 'a ares \<times> (nat \<times> 'a list)" where
  "list_op cl x = (case cl of (cap, l) \<Rightarrow> (case x of
     PushA v \<Rightarrow> if length l < cap then (Done, (cap, l @ [v])) else (Refused v, (cap, l))
   | GetA i \<Rightarrow> (Maybe (if i < length l then Some (l ! i) else None), (cap, l))
   | WithMutA i f \<Rightarrow> if i < length l then (Maybe (Some (fst (f (l ! i)))), (cap, l[i := snd (f (l ! i))]))
       else (Maybe None, (cap, l))
   | ForEachMutA f \<Rightarrow> (Done, (cap, map f l))
   | AsVecA \<Rightarrow> (Values l, (cap, l))
   | LenA \<Rightarrow> (Count (length l), (cap, l))
   | IsEmptyA \<Rightarrow> (Flag (l = []), (cap, l))
   | CapacityA \<Rightarrow> (Count cap, (cap, l))
   | ResetA n g \<Rightarrow> if n = 0 then (Panic ZeroCapacity, (cap, l)) else (Count n, (n, map g [0..<n]))))"

definition array_abs :: "'a array \<Rightarrow> nat \<times> 'a list" where
  "array_abs a = (array_capacity a, array_list a)"

lemma map_accum_map: "map_accum (\<lambda>v. Pair (f v)) l () = (map f l, ())"
  by (induction l) (auto simp: case_prod_beta)

lemma reset_inv:
  assumes "0 < n"
  shows "\<exists>b c'. reset_with [GateFree] a n (\<lambda>k. (g k, Suc k)) 0 = Some (Inr (n, b, a, c')) \<and> array_inv b \<and>
    array_list b = map g [0..<n] \<and> array_capacity b = n"
proof -
  obtain r where r: "init_with n (\<lambda>k. (g k, Suc k)) 0 = Inr (r, n)" "array_inv r" "array_list r = map g [0..<n]"
    "array_capacity r = n"
    using init_with_inv[OF assms, of "\<lambda>k. (g k, Suc k)" 0] by (auto simp: produce_upt)
  from swap_storage_inv[OF r(2) r(3) _ r(4), of a] r(1) show ?thesis
    by (auto simp: reset_with_def case_prod_beta)
qed

lemma array_op_refines:
  assumes inv: "array_inv a"
  shows "fst (array_op a x) = fst (list_op (array_abs a) x) \<and>
    array_abs (snd (array_op a x)) = snd (list_op (array_abs a) x) \<and> array_inv (snd (array_op a x))"
proof (cases x)
  case (PushA v)
  have "length (array_list a) \<le> array_capacity a" using inv by (simp add: array_inv_def)
  then consider "length (array_list a) = array_capacity a" | "length (array_list a) < array_capacity a" by linarith
  then show ?thesis
    by cases (use PushA inv array_push_full[OF inv, of v] array_push_room[OF inv, of v] in
      \<open>auto simp: array_op_def list_op_def array_abs_def\<close>)
next
  case (WithMutA i f)
  have "array_capacity (write_value a i v) = array_capacity a" for v
    by (simp add: write_value_def array_capacity_def)
  with WithMutA inv array_with_mut_inv[OF inv, of i f] write_value_inv[OF inv, of i] show ?thesis
    by (auto simp: array_op_def list_op_def array_abs_def split: if_splits)
next
  case (ForEachMutA f)
  with inv array_for_each_mut_inv[OF inv, of "\<lambda>v _. (f v, ())" "()"] show ?thesis
    by (auto simp: array_op_def list_op_def array_abs_def map_accum_map)
next
  case (ResetA n g)
  show ?thesis
  proof (cases "n = 0")
    case True
    with ResetA inv show ?thesis
      by (simp add: array_op_def list_op_def array_abs_def reset_with_def init_with_def array_with_capacity_def)
  next
    case False
    with ResetA reset_inv[of n a g] show ?thesis by (auto simp: array_op_def list_op_def array_abs_def)
  qed
qed (use inv in \<open>auto simp: array_op_def list_op_def array_abs_def array_get_inv array_as_vec_inv array_len_inv
    array_is_empty_def array_list_Nil\<close>)

interpretation array: data_refinement array_op list_op array_abs array_inv
  by unfold_locales (use array_op_refines in blast)+

section \<open>Properties\<close>

text \<open>
  C26: the array is a bounded list. Every sequence of calls on a freshly built array, made by
  one thread, gets the answers of a list bounded by the capacity (no call blocks), and the
  contents agree at the end.
\<close>

theorem array_refines_list:
  assumes "array_with_capacity n = Inr a"
  shows "fst (run_all array_op a xs) = fst (run_all list_op (n, []) xs) \<and>
    array_abs (snd (run_all array_op a xs)) = snd (run_all list_op (n, []) xs)"
  using array.run_all_refines[of a xs] array_with_capacity_inv[OF assms] by (simp add: array_abs_def)

theorem array_refines_list_witness:
  "\<exists>a :: nat array. array_with_capacity 2 = Inr a \<and>
     fst (run_all array_op a [PushA 7, PushA 8, PushA 9, WithMutA 1 (\<lambda>v. (v, v + 1)), GetA 1, GetA 2, ResetA 3 (\<lambda>i. i), AsVecA]) =
       [Done, Done, Refused 9, Maybe (Some 8), Maybe (Some 9), Maybe None, Count 3, Values [0, 1, 2]]"
proof -
  obtain a :: "nat array" where a: "array_with_capacity 2 = Inr a" by (simp add: array_with_capacity_def)
  show ?thesis
    using array_refines_list[OF a, of "[PushA 7, PushA 8, PushA 9, WithMutA 1 (\<lambda>v. (v, v + 1)), GetA 1, GetA 2, ResetA 3 (\<lambda>i. i), AsVecA]"]
    by (intro exI[of _ a]) (simp add: a list_op_def upt_rec)
qed

text \<open>
  Collecting an iterator into an array and reading it back with \<open>as_vec\<close> gives the list,
  whatever its length.
\<close>

theorem from_iter_as_vec:
  "\<exists>a. from_iter vs = Inr a \<and> array_as_vec a = Some vs \<and> array_len a = length vs"
proof -
  let ?n = "max (length vs) DEFAULT_ARRAY_CAP"
  obtain a :: "'a array" where a: "array_with_capacity ?n = Inr a"
    by (simp add: array_with_capacity_def DEFAULT_ARRAY_CAP_def less_max_iff_disj)
  let ?b = "foldl (\<lambda>a v. snd (array_push a v)) a vs"
  have a': "array_inv a" "array_list a = []" "array_capacity a = ?n" using array_with_capacity_inv[OF a] by blast+
  then have "length (array_list a) + length vs \<le> array_capacity a" by (simp only: list.size add_0 max.cobounded1)
  from foldl_push_inv[OF a'(1) this] have b: "array_inv ?b" "array_list ?b = vs" by (simp_all only: a'(2) append_Nil)
  then have "array_len ?b = length vs" by (simp only: array_len_inv)
  with b(2) show ?thesis using array_as_vec_inv[OF b(1)] by (simp add: from_iter_def a)
qed

text \<open>
  A reset replaces everything or nothing. A zero capacity and a guard of the caller are
  refused; while others hold guards it retries; once it has the lock the array holds exactly
  the \<open>new_cap\<close> values the initializer produced, and the values destroyed are the old ones.
\<close>

theorem reset_with_atomic:
  assumes "array_inv a"
  shows "case reset_with views a new_cap g c of
      None \<Rightarrow> 0 < new_cap \<and> set views \<subseteq> {GateTaken False}
    | Some (Inl e) \<Rightarrow> new_cap = 0 \<and> e = ZeroCapacity \<or> 0 < new_cap \<and> e = ResetWhileHolding \<and> GateTaken True \<in> set views
    | Some (Inr (r, b, old, c')) \<Rightarrow>
        r = new_cap \<and> array_inv b \<and> array_capacity b = new_cap \<and> (array_list b, c') = produce g new_cap c \<and>
        dropped_values old = map Some (array_list a) \<and> GateFree \<in> set views"
proof (cases "new_cap = 0")
  case True
  then show ?thesis by (simp add: reset_with_def init_with_def array_with_capacity_def)
next
  case False
  then obtain r where r: "init_with new_cap g c = Inr (r, snd (produce g new_cap c))" "array_inv r"
    "array_list r = fst (produce g new_cap c)" "array_capacity r = new_cap"
    using init_with_inv[of new_cap g c] by auto
  have gate: "case take_gate views of None \<Rightarrow> set views \<subseteq> {GateTaken False}
    | Some (Inl e) \<Rightarrow> e = ResetWhileHolding \<and> GateTaken True \<in> set views | Some (Inr _) \<Rightarrow> GateFree \<in> set views"
    by (induction views rule: take_gate.induct) (auto split: option.splits sum.splits)
  from swap_storage_inv[OF r(2) r(3) _ r(4), of a] gate False dropped_values_inv[OF assms] r(1)
  show ?thesis by (auto simp: reset_with_def case_prod_beta split: option.splits sum.splits)
qed

theorem reset_with_atomic_witness:
  "\<exists>a :: nat array. array_inv a \<and>
     reset_with [GateTaken False, GateTaken True] a 2 (\<lambda>k. (k, k)) (5::nat) = Some (Inl ResetWhileHolding)"
proof -
  obtain a :: "nat array" where "array_with_capacity 2 = Inr a" by (simp add: array_with_capacity_def)
  then have "array_inv a" using array_with_capacity_inv by blast
  moreover from reset_with_atomic[OF this, where views = "[GateTaken False, GateTaken True]" and new_cap = 2 and g = "\<lambda>k. (k, k)" and c = 5]
  have "reset_with [GateTaken False, GateTaken True] a 2 (\<lambda>k. (k, k)) 5 = Some (Inl ResetWhileHolding)"
    by (auto split: option.splits sum.splits prod.splits)
  ultimately show ?thesis by blast
qed

lemma chunk_loop_ranges:
  assumes "len < 2 ^ 64" "0 < k"
  shows "concat (map (\<lambda>(s, e). [s..<e]) (chunk_loop len k start)) = [start..<len] \<and>
    (\<forall>p\<in>set (chunk_loop len k start). fst p < snd p \<and> snd p \<le> fst p + k) \<and>
    length (chunk_loop len k start) = (len - start + (k - 1)) div k"
proof (induction "len - start" arbitrary: start rule: less_induct)
  case less
  show ?case
  proof (cases "start < len")
    case False
    then show ?thesis using assms(2) by (simp add: chunk_loop.simps[of len k start])
  next
    case True
    have e: "min (saturating_add start k) len = min (start + k) len"
      using assms(1) by (auto simp: saturating_add_def min_def)
    have loop: "chunk_loop len k start = (start, min (start + k) len) # chunk_loop len k (start + k)"
      using True assms(2) e by (simp add: chunk_loop.simps[of len k start])
    have "[start..<len] = [start..<min (start + k) len] @ [start + k..<len]"
      using upt_add_eq_append[of start "start + k" "len - (start + k)"] by (cases "start + k \<le> len") (auto simp: min_def)
    moreover have "(len - start + (k - 1)) div k = Suc ((len - (start + k) + (k - 1)) div k)"
    proof (cases "start + k \<le> len")
      case True
      then have "len - start + (k - 1) = (len - (start + k) + (k - 1)) + k" using assms(2) by simp
      then show ?thesis using assms(2) by (metis Suc_eq_plus1 div_add_self2 less_not_refl)
    next
      case False
      then have "len - start + (k - 1) = (len - start - 1) + k" "len - start - 1 < k" "len - (start + k) = 0" "k - 1 < k"
        using True assms(2) by simp_all
      then show ?thesis using assms(2) by (metis Suc_eq_plus1 add_0 div_add_self2 div_less less_not_refl)
    qed
    ultimately show ?thesis using less[of "start + k"] True assms(2) by (simp add: loop)
  qed
qed

text \<open>
  The chunks partition the indices. Concatenated, the half-open ranges enumerate
  \<open>0, \<dots>, len - 1\<close> in order; none is empty, none is longer than the first, and there are at
  most \<open>num_chunks\<close> of them, for every length that fits the machine word.
\<close>

theorem chunk_indices_partition:
  assumes "array_len a < 2 ^ 64" "0 < num_chunks"
  shows "concat (map (\<lambda>(s, e). [s..<e]) (chunk_indices a num_chunks)) = [0..<array_len a] \<and>
    (\<forall>p\<in>set (chunk_indices a num_chunks). fst p < snd p \<and> snd p - fst p \<le> div_ceil (array_len a) num_chunks) \<and>
    length (chunk_indices a num_chunks) \<le> num_chunks"
proof (cases "array_len a = 0")
  case True
  then show ?thesis by (simp add: chunk_indices_def)
next
  case False
  let ?len = "array_len a" let ?size = "div_ceil ?len num_chunks"
  have size: "0 < ?size" using False assms(2) by (intro div_ceil_pos) simp_all
  have le: "?len \<le> num_chunks * ?size" using div_ceil_le[OF assms(2), of ?len] by (simp add: mult.commute)
  have "(?len + (?size - 1)) div ?size < num_chunks + 1"
    using le size by (simp add: div_less_iff_less_mult algebra_simps)
  then show ?thesis using chunk_loop_ranges[OF assms(1) size, of 0] False assms(2)
    by (auto simp: chunk_indices_def Let_def)
qed

theorem chunk_indices_partition_witness:
  "\<exists>a :: nat array. array_len a = 10 \<and> length (chunk_indices a 4) \<le> 4 \<and>
     concat (map (\<lambda>(s, e). [s..<e]) (chunk_indices a 4)) = [0..<10]"
  using chunk_indices_partition[of "\<lparr>aslots = [], ahead = 0, atail = 0, alen = 10\<rparr> :: nat array" 4]
  by (intro exI[of _ "\<lparr>aslots = [], ahead = 0, atail = 0, alen = 10\<rparr>"]) (simp add: array_len_def)

end
