(* ===== verification/Array_Conc.thy ===== *)
theory Array_Conc
  imports Array_List RwSpec
begin

text \<open>
  \<open>AtomicArray\<close> under concurrency: any number of threads push, get and reset at the same time,
  one step per atomic access. The coordination lock is the abstract reader/writer lock that
  \<open>RawMutex\<close> refines. A guard returned by \<open>get\<close> keeps its share of that lock until it is dropped.
  The slot locks only order readers of a slot against \<open>get_mut\<close>, which theory \<open>Array_List\<close>
  covers, and have no step here.
\<close>

datatype 'a apc =
    AIdle
  | PushLoad 'a | PushCas 'a nat | SlowLoad 'a | SlowCas 'a nat
  | PushWrite 'a nat | PushCount nat | PushPublish nat | PushLeave "'a + unit"
  | GetLen nat | GetHead nat | GetWait nat nat | GetHold nat 'a | GetLeave
  | ResetTry "'a array" | ResetInspect "'a array" | ResetLook "'a array"
  | ResetSwap "'a array" | ResetHead nat | ResetTail nat | ResetLen nat | ResetOpen

record 'a array_sys =
  arr :: "'a array"
  gate :: rwl
  arr_threads :: nat
  arr_pc :: "tid \<Rightarrow> 'a apc"
  history :: "'a list"      \<comment> \<open>ghost: the values in the order their positions were reserved\<close>

datatype 'a aact = CallPush tid 'a | CallGet tid nat | CallReset tid nat "nat \<Rightarrow> 'a" | ArrStep tid

text \<open>The array \<open>with_capacity\<close> builds, shared by \<open>n\<close> threads.\<close>

definition array_init :: "nat \<Rightarrow> nat \<Rightarrow> 'a array_sys" where
  "array_init capacity n =
     \<lparr>arr = \<lparr>aslots = allocate_slots capacity, ahead = 0, atail = 0, alen = 0\<rparr>, gate = Readers 0,
      arr_threads = n, arr_pc = (\<lambda>_. AIdle), history = []\<rparr>"

abbreviation (input) a_go :: "'a array_sys \<Rightarrow> tid \<Rightarrow> 'a apc \<Rightarrow> 'a array_sys" where
  "a_go s i p \<equiv> s\<lparr>arr_pc := (arr_pc s)(i := p)\<rparr>"

text \<open>The capacity test on a loaded tail, the exchange of the tail, and what follows a failure.\<close>

definition test_tail :: "'a array_sys \<Rightarrow> tid \<Rightarrow> 'a \<Rightarrow> nat \<Rightarrow> ('a \<Rightarrow> nat \<Rightarrow> 'a apc) \<Rightarrow> 'a array_sys" where
  "test_tail s i v t nxt = a_go s i (if array_capacity (arr s) \<le> t then PushLeave (Inl v) else nxt v t)"

definition exchange_tail :: "'a array_sys \<Rightarrow> tid \<Rightarrow> 'a \<Rightarrow> nat \<Rightarrow> 'a array_sys" where
  "exchange_tail s i v t =
     (a_go s i (PushWrite v t))\<lparr>arr := reserve (arr s), history := history s @ [v]\<rparr>"

fun push_step :: "'a array_sys \<Rightarrow> tid \<Rightarrow> 'a apc \<Rightarrow> 'a array_sys option" where
  "push_step s i (PushLoad v) = Some (test_tail s i v (atail (arr s)) PushCas)"
| "push_step s i (PushCas v t) =
     Some (if atail (arr s) = t then exchange_tail s i v t else a_go s i (SlowLoad v))"
| "push_step s i (SlowLoad v) = Some (test_tail s i v (atail (arr s)) SlowCas)"
| "push_step s i (SlowCas v t) =
     Some (if atail (arr s) = t then exchange_tail s i v t else test_tail s i v (atail (arr s)) SlowCas)"
| "push_step s i (PushWrite v t) = Some ((a_go s i (PushCount t))\<lparr>arr := write_value (arr s) t v\<rparr>)"
| "push_step s i (PushCount t) = Some ((a_go s i (PushPublish t))\<lparr>arr := count_one (arr s)\<rparr>)"
| "push_step s i (PushPublish t) = Some ((a_go s i (PushLeave (Inr ())))\<lparr>arr := publish (arr s) t\<rparr>)"
| "push_step s i (PushLeave r) = Some ((a_go s i AIdle)\<lparr>gate := rw_unshare (gate s)\<rparr>)"
| "push_step s i _ = None"

fun get_step :: "'a array_sys \<Rightarrow> tid \<Rightarrow> 'a apc \<Rightarrow> 'a array_sys option" where
  "get_step s i (GetLen k) = Some (a_go s i (if alen (arr s) \<le> k then GetLeave else GetHead k))"
| "get_step s i (GetHead k) =
     (let target = ahead (arr s) + k
      in Some (a_go s i (if array_capacity (arr s) \<le> target then GetLeave else GetWait k target)))"
| "get_step s i (GetWait k t) =
     (if is_written (aslots (arr s) ! t)
      then (case avalue (aslots (arr s) ! t) of None \<Rightarrow> None | Some v \<Rightarrow> Some (a_go s i (GetHold k v)))
      else Some s)"
| "get_step s i (GetHold k v) = Some ((a_go s i AIdle)\<lparr>gate := rw_unshare (gate s)\<rparr>)"
| "get_step s i GetLeave = Some ((a_go s i AIdle)\<lparr>gate := rw_unshare (gate s)\<rparr>)"
| "get_step s i _ = None"

fun reset_step :: "'a array_sys \<Rightarrow> tid \<Rightarrow> 'a apc \<Rightarrow> 'a array_sys option" where
  "reset_step s i (ResetTry r) =
     (case rw_exclusive (gate s) of
        Some g \<Rightarrow> Some ((a_go s i (ResetSwap r))\<lparr>gate := g\<rparr>)
      | None \<Rightarrow> Some (a_go s i (ResetInspect r)))"
| "reset_step s i (ResetInspect r) =
     map_option (\<lambda>g. (a_go s i (ResetLook r))\<lparr>gate := g\<rparr>) (rw_shared (gate s))"
| "reset_step s i (ResetLook r) = Some ((a_go s i (ResetTry r))\<lparr>gate := rw_unshare (gate s)\<rparr>)"
| "reset_step s i (ResetSwap r) =
     Some ((a_go s i (ResetHead (array_capacity r)))
       \<lparr>arr := (arr s)\<lparr>aslots := aslots r\<rparr>, history := array_list r\<rparr>)"
| "reset_step s i (ResetHead n) = Some ((a_go s i (ResetTail n))\<lparr>arr := (arr s)\<lparr>ahead := 0\<rparr>\<rparr>)"
| "reset_step s i (ResetTail n) = Some ((a_go s i (ResetLen n))\<lparr>arr := (arr s)\<lparr>atail := n\<rparr>\<rparr>)"
| "reset_step s i (ResetLen n) = Some ((a_go s i ResetOpen)\<lparr>arr := (arr s)\<lparr>alen := n\<rparr>\<rparr>)"
| "reset_step s i ResetOpen = Some ((a_go s i AIdle)\<lparr>gate := rw_unlock (gate s)\<rparr>)"
| "reset_step s i _ = None"

text \<open>A reset first builds its replacement, which no other thread sees; a zero capacity panics there.\<close>

definition replacement :: "nat \<Rightarrow> (nat \<Rightarrow> 'a) \<Rightarrow> 'a array option" where
  "replacement n g = (case init_with n (\<lambda>k. (g k, Suc k)) 0 of Inl _ \<Rightarrow> None | Inr (r, _) \<Rightarrow> Some r)"

definition arr_thread_step :: "'a array_sys \<Rightarrow> tid \<Rightarrow> 'a array_sys option" where
  "arr_thread_step s i =
     (case push_step s i (arr_pc s i) of
        Some t \<Rightarrow> Some t
      | None \<Rightarrow> (case get_step s i (arr_pc s i) of
                   Some t \<Rightarrow> Some t
                 | None \<Rightarrow> reset_step s i (arr_pc s i)))"

definition array_step :: "'a aact \<Rightarrow> 'a array_sys \<Rightarrow> 'a array_sys option" where
  "array_step x s =
     (let idle = (\<lambda>i. i < arr_threads s \<and> arr_pc s i = AIdle) in
      case x of
        CallPush i v \<Rightarrow>
          if idle i then map_option (\<lambda>g. (a_go s i (PushLoad v))\<lparr>gate := g\<rparr>) (rw_shared (gate s)) else None
      | CallGet i k \<Rightarrow>
          if idle i then map_option (\<lambda>g. (a_go s i (GetLen k))\<lparr>gate := g\<rparr>) (rw_shared (gate s)) else None
      | CallReset i n g \<Rightarrow>
          if idle i then map_option (\<lambda>r. a_go s i (ResetTry r)) (replacement n g) else None
      | ArrStep i \<Rightarrow> if i < arr_threads s then arr_thread_step s i else None)"

section \<open>The invariant\<close>

definition holds_share :: "'a apc \<Rightarrow> nat" where
  "holds_share p = (case p of AIdle \<Rightarrow> 0 | ResetTry _ \<Rightarrow> 0 | ResetInspect _ \<Rightarrow> 0 | ResetSwap _ \<Rightarrow> 0
     | ResetHead _ \<Rightarrow> 0 | ResetTail _ \<Rightarrow> 0 | ResetLen _ \<Rightarrow> 0 | ResetOpen \<Rightarrow> 0 | _ \<Rightarrow> 1)"

definition holds_gate :: "'a apc \<Rightarrow> nat" where
  "holds_gate p = (case p of ResetSwap _ \<Rightarrow> 1 | ResetHead _ \<Rightarrow> 1 | ResetTail _ \<Rightarrow> 1 | ResetLen _ \<Rightarrow> 1
     | ResetOpen \<Rightarrow> 1 | _ \<Rightarrow> 0)"

text \<open>A position is in flight between its reservation and its publication.\<close>

definition in_flight :: "nat \<Rightarrow> 'a apc \<Rightarrow> nat" where
  "in_flight t p = (case p of PushWrite _ u \<Rightarrow> if u = t then 1 else 0 | PushCount u \<Rightarrow> if u = t then 1 else 0
     | PushPublish u \<Rightarrow> if u = t then 1 else 0 | _ \<Rightarrow> 0)"

definition uncounted :: "'a apc \<Rightarrow> nat" where
  "uncounted p = (case p of PushWrite _ _ \<Rightarrow> 1 | PushCount _ \<Rightarrow> 1 | _ \<Rightarrow> 0)"

definition over_threads :: "('a apc \<Rightarrow> nat) \<Rightarrow> 'a array_sys \<Rightarrow> nat" where
  "over_threads f s = (\<Sum>i<arr_threads s. f (arr_pc s i))"

definition slot_ok :: "'a array_sys \<Rightarrow> nat \<Rightarrow> bool" where
  "slot_ok s t \<longleftrightarrow>
     (let sl = aslots (arr s) ! t in
      if t < atail (arr s) \<and> over_threads (in_flight t) s = 0
      then astate sl = WRITE \<and> avalue sl = Some (history s ! t)
      else astate sl = EMPTY \<and> over_threads (in_flight t) s = (if t < atail (arr s) then 1 else 0))"

definition data_ok :: "'a array_sys \<Rightarrow> bool" where
  "data_ok s \<longleftrightarrow> ahead (arr s) = 0 \<and> atail (arr s) = length (history s) \<and>
     atail (arr s) \<le> array_capacity (arr s) \<and>
     alen (arr s) + over_threads uncounted s = atail (arr s) \<and>
     (\<forall>t<array_capacity (arr s). slot_ok s t)"

definition storage_full :: "'a array_sys \<Rightarrow> nat \<Rightarrow> bool" where
  "storage_full s n \<longleftrightarrow> array_capacity (arr s) = n \<and> length (history s) = n \<and>
     (\<forall>t<n. astate (aslots (arr s) ! t) = WRITE \<and> avalue (aslots (arr s) ! t) = Some (history s ! t))"

definition fresh_full :: "'a array \<Rightarrow> bool" where
  "fresh_full r \<longleftrightarrow> array_inv r \<and> atail r = array_capacity r"

fun pc_ok :: "'a array_sys \<Rightarrow> 'a apc \<Rightarrow> bool" where
  "pc_ok s (PushCas v t) = (t < array_capacity (arr s))"
| "pc_ok s (SlowCas v t) = (t < array_capacity (arr s))"
| "pc_ok s (PushWrite v t) = (t < atail (arr s) \<and> history s ! t = v)"
| "pc_ok s (PushCount t) = (t < atail (arr s) \<and> avalue (aslots (arr s) ! t) = Some (history s ! t))"
| "pc_ok s (PushPublish t) = (t < atail (arr s) \<and> avalue (aslots (arr s) ! t) = Some (history s ! t))"
| "pc_ok s (PushLeave r) = (case r of Inl v \<Rightarrow> atail (arr s) = array_capacity (arr s) | Inr _ \<Rightarrow> True)"
| "pc_ok s (GetHead k) = (k < alen (arr s))"
| "pc_ok s (GetWait k t) = (t = k \<and> k < atail (arr s))"
| "pc_ok s (GetHold k v) = (k < atail (arr s) \<and> v = history s ! k)"
| "pc_ok s (ResetTry r) = fresh_full r"
| "pc_ok s (ResetInspect r) = fresh_full r"
| "pc_ok s (ResetLook r) = fresh_full r"
| "pc_ok s (ResetSwap r) = fresh_full r"
| "pc_ok s (ResetHead n) = storage_full s n"
| "pc_ok s (ResetTail n) = (storage_full s n \<and> ahead (arr s) = 0)"
| "pc_ok s (ResetLen n) = (storage_full s n \<and> ahead (arr s) = 0 \<and> atail (arr s) = n)"
| "pc_ok s _ = True"

definition halfway :: "'a apc \<Rightarrow> bool" where
  "halfway p \<longleftrightarrow> (case p of ResetHead _ \<Rightarrow> True | ResetTail _ \<Rightarrow> True | ResetLen _ \<Rightarrow> True | _ \<Rightarrow> False)"

definition arr_inv :: "'a array_sys \<Rightarrow> bool" where
  "arr_inv s \<longleftrightarrow> rw_ok (gate s) (over_threads holds_share s) (over_threads holds_gate s) \<and>
     (\<forall>i<arr_threads s. pc_ok s (arr_pc s i)) \<and>
     ((\<forall>i<arr_threads s. \<not> halfway (arr_pc s i)) \<longrightarrow> data_ok s)"

lemma over_upd:
  assumes "i < arr_threads s" "arr_threads t = arr_threads s" "arr_pc t = (arr_pc s)(i := q)"
  shows "over_threads f t + f (arr_pc s i) = over_threads f s + f q"
  unfolding over_threads_def assms(2,3)
  using sum_if_upd[OF assms(1), of "\<lambda>j. f (((arr_pc s)(i := q)) j)" "\<lambda>j. f (arr_pc s j)"] by simp

lemma over_member: "i < arr_threads s \<Longrightarrow> f (arr_pc s i) \<le> over_threads f s"
  unfolding over_threads_def by (rule member_le_sum_lt)

lemma over_zero: "over_threads f s = 0 \<Longrightarrow> i < arr_threads s \<Longrightarrow> f (arr_pc s i) = 0"
  using over_member[of i s f] by simp

lemma over_all_zero: "(\<And>i. i < arr_threads s \<Longrightarrow> f (arr_pc s i) = 0) \<Longrightarrow> over_threads f s = 0"
  unfolding over_threads_def by simp

lemma halfway_gate: "holds_gate p = 0 \<Longrightarrow> \<not> halfway p"
  by (cases p) (auto simp: holds_gate_def halfway_def)

lemma no_gate_data: "arr_inv s \<Longrightarrow> over_threads holds_gate s = 0 \<Longrightarrow> data_ok s"
  unfolding arr_inv_def using over_zero[of holds_gate s] halfway_gate by blast

lemma share_no_gate:
  assumes "arr_inv s" "i < arr_threads s" "holds_share (arr_pc s i) = 1"
  shows "over_threads holds_gate s = 0" "data_ok s"
proof -
  have "0 < over_threads holds_share s" using over_member[of i s holds_share] assms(2,3) by simp
  then show z: "over_threads holds_gate s = 0" using assms(1) rw_ok_excl(1) unfolding arr_inv_def by blast
  show "data_ok s" by (rule no_gate_data[OF assms(1) z])
qed

lemma pc_ok_cong: "arr t = arr s \<Longrightarrow> history t = history s \<Longrightarrow> pc_ok t p = pc_ok s p"
  by (cases "(s, p)" rule: pc_ok.cases) (auto simp: storage_full_def split: sum.splits)

lemma data_ok_cong:
  assumes "arr t = arr s" "history t = history s" "over_threads uncounted t = over_threads uncounted s"
    "\<And>u. over_threads (in_flight u) t = over_threads (in_flight u) s"
  shows "data_ok t = data_ok s"
  using assms by (simp add: data_ok_def slot_ok_def)

text \<open>A step that leaves the array alone.\<close>

lemma quiet_step:
  assumes inv: "arr_inv s" and i: "i < arr_threads s"
    and t: "arr t = arr s" "history t = history s" "arr_threads t = arr_threads s" "arr_pc t = (arr_pc s)(i := q)"
    and q: "pc_ok s q" "\<not> halfway q" "\<not> halfway (arr_pc s i)"
    and fl: "uncounted q = uncounted (arr_pc s i)" "\<And>u. in_flight u q = in_flight u (arr_pc s i)"
    and g: "rw_ok (gate t) (over_threads holds_share t) (over_threads holds_gate t)"
  shows "arr_inv t"
proof -
  have "over_threads uncounted t = over_threads uncounted s" using over_upd[OF i t(3,4), of uncounted] fl by simp
  moreover have "over_threads (in_flight u) t = over_threads (in_flight u) s" for u
    using over_upd[OF i t(3,4), of "in_flight u"] fl by simp
  ultimately have d: "data_ok t = data_ok s" by (rule data_ok_cong[OF t(1,2)])
  have "data_ok s" if h: "\<forall>j<arr_threads t. \<not> halfway (arr_pc t j)"
  proof -
    have "\<not> halfway (arr_pc s j)" if "j < arr_threads s" for j using h q(3) that t(3,4) by (cases "j = i") auto
    with inv show ?thesis by (simp add: arr_inv_def)
  qed
  with d inv g q show ?thesis by (auto simp: arr_inv_def t(3,4) pc_ok_cong[OF t(1,2)])
qed

lemma quiet_same_gate:
  assumes "arr_inv s" "i < arr_threads s" "pc_ok s q" "\<not> halfway q" "\<not> halfway (arr_pc s i)"
    "uncounted q = uncounted (arr_pc s i)" "\<And>u. in_flight u q = in_flight u (arr_pc s i)"
    "holds_share q = holds_share (arr_pc s i)" "holds_gate q = holds_gate (arr_pc s i)"
  shows "arr_inv (a_go s i q)"
proof (rule quiet_step[OF assms(1,2), where q = q])
  have "over_threads holds_share (a_go s i q) = over_threads holds_share s"
    "over_threads holds_gate (a_go s i q) = over_threads holds_gate s"
    using over_upd[OF assms(2), of "a_go s i q" q holds_share] over_upd[OF assms(2), of "a_go s i q" q holds_gate] assms(8,9)
    by simp_all
  with assms(1) show "rw_ok (gate (a_go s i q)) (over_threads holds_share (a_go s i q)) (over_threads holds_gate (a_go s i q))"
    by (simp add: arr_inv_def)
qed (use assms in simp_all)

lemma acquire_share:
  assumes "arr_inv s" "i < arr_threads s" "rw_shared (gate s) = Some g" "pc_ok s q" "\<not> halfway q" "\<not> halfway (arr_pc s i)"
    "uncounted q = 0" "uncounted (arr_pc s i) = 0" "\<And>u. in_flight u q = 0" "\<And>u. in_flight u (arr_pc s i) = 0"
    "holds_share q = 1" "holds_share (arr_pc s i) = 0" "holds_gate q = 0" "holds_gate (arr_pc s i) = 0"
  shows "arr_inv ((a_go s i q)\<lparr>gate := g\<rparr>)"
proof (rule quiet_step[OF assms(1,2), where q = q])
  let ?t = "(a_go s i q)\<lparr>gate := g\<rparr>"
  have "over_threads holds_share ?t = Suc (over_threads holds_share s)" "over_threads holds_gate ?t = over_threads holds_gate s"
    using over_upd[OF assms(2), of ?t q holds_share] over_upd[OF assms(2), of ?t q holds_gate] assms(11-14) by simp_all
  with assms(1) rw_ok_shared[OF _ assms(3)] show "rw_ok (gate ?t) (over_threads holds_share ?t) (over_threads holds_gate ?t)"
    by (simp add: arr_inv_def)
qed (use assms in simp_all)

lemma release_share:
  assumes "arr_inv s" "i < arr_threads s" "pc_ok s q" "\<not> halfway q" "\<not> halfway (arr_pc s i)"
    "uncounted q = 0" "uncounted (arr_pc s i) = 0" "\<And>u. in_flight u q = 0" "\<And>u. in_flight u (arr_pc s i) = 0"
    "holds_share q = 0" "holds_share (arr_pc s i) = 1" "holds_gate q = 0" "holds_gate (arr_pc s i) = 0"
  shows "arr_inv ((a_go s i q)\<lparr>gate := rw_unshare (gate s)\<rparr>)"
proof (rule quiet_step[OF assms(1,2), where q = q])
  let ?t = "(a_go s i q)\<lparr>gate := rw_unshare (gate s)\<rparr>"
  have "Suc (over_threads holds_share ?t) = over_threads holds_share s" "over_threads holds_gate ?t = over_threads holds_gate s"
    using over_upd[OF assms(2), of ?t q holds_share] over_upd[OF assms(2), of ?t q holds_gate] assms(10-13) by simp_all
  with assms(1) rw_ok_unshare[of "gate s" "over_threads holds_share ?t" "over_threads holds_gate ?t"]
  show "rw_ok (gate ?t) (over_threads holds_share ?t) (over_threads holds_gate ?t)"
    by (simp add: arr_inv_def)
qed (use assms in simp_all)

section \<open>The steps of a push\<close>

text \<open>A step that works on the array under a share of the lock.\<close>

lemma data_step:
  assumes inv: "arr_inv s" and i: "i < arr_threads s" "holds_share (arr_pc s i) = 1" "holds_gate (arr_pc s i) = 0"
    and t: "gate t = gate s" "arr_threads t = arr_threads s" "arr_pc t = (arr_pc s)(i := q)"
    and q: "holds_share q = 1" "holds_gate q = 0" "pc_ok t q"
    and d: "data_ok s \<Longrightarrow> data_ok t"
    and others: "\<And>j. j < arr_threads s \<Longrightarrow> j \<noteq> i \<Longrightarrow> data_ok s \<Longrightarrow> pc_ok s (arr_pc s j) \<Longrightarrow> holds_gate (arr_pc s j) = 0 \<Longrightarrow> pc_ok t (arr_pc s j)"
  shows "arr_inv t"
proof -
  note z = share_no_gate[OF inv i(1,2)]
  have "over_threads holds_share t = over_threads holds_share s" "over_threads holds_gate t = over_threads holds_gate s"
    using over_upd[OF i(1) t(2,3), of holds_share] over_upd[OF i(1) t(2,3), of holds_gate] i q by simp_all
  moreover have "pc_ok t (arr_pc t j)" if "j < arr_threads s" for j
    using that others[OF that _ z(2)] over_zero[OF z(1) that] inv q(3) t(3) by (cases "j = i") (auto simp: arr_inv_def)
  ultimately show ?thesis using inv d z(2) t(1,2) by (simp add: arr_inv_def)
qed

lemma in_flight_unique:
  assumes "data_ok s" "i < arr_threads s" "j < arr_threads s" "i \<noteq> j" "in_flight u (arr_pc s i) = 1" "u < array_capacity (arr s)"
  shows "in_flight u (arr_pc s j) = 0"
proof -
  have "in_flight u (arr_pc s i) + in_flight u (arr_pc s j) \<le> over_threads (in_flight u) s"
    unfolding over_threads_def using two_members_le_sum[OF assms(2-4), of "\<lambda>k. in_flight u (arr_pc s k)"] .
  moreover have "slot_ok s u" using assms(1,6) by (simp add: data_ok_def)
  then have "over_threads (in_flight u) s \<le> 1" by (auto simp: slot_ok_def Let_def split: if_splits)
  ultimately show ?thesis using assms(5) by simp
qed

lemma exchange_inv:
  assumes inv: "arr_inv s" and i: "i < arr_threads s" and p: "arr_pc s i = PushCas v k \<or> arr_pc s i = SlowCas v k"
    and k: "atail (arr s) = k"
  shows "arr_inv (exchange_tail s i v k)"
proof -
  define t where "t = exchange_tail s i v k"
  have t: "gate t = gate s" "arr_threads t = arr_threads s" "arr_pc t = (arr_pc s)(i := PushWrite v k)"
    by (simp_all add: t_def exchange_tail_def)
  have kc: "k < array_capacity (arr s)" using inv i p by (auto simp: arr_inv_def)
  have u: "over_threads uncounted t = over_threads uncounted s + 1"
    using over_upd[OF i t(2,3), of uncounted] p by (auto simp: uncounted_def)
  have f: "over_threads (in_flight x) t = over_threads (in_flight x) s + (if x = k then 1 else 0)" for x
    using over_upd[OF i t(2,3), of "in_flight x"] p by (auto simp: in_flight_def)
  have a: "aslots (arr t) = aslots (arr s)" "atail (arr t) = k + 1" "alen (arr t) = alen (arr s)" "ahead (arr t) = ahead (arr s)"
    "history t = history s @ [v]" "array_capacity (arr t) = array_capacity (arr s)"
    using k by (simp_all add: t_def exchange_tail_def reserve_def array_capacity_def)
  have d: "data_ok t" if d: "data_ok s"
  proof -
    have "slot_ok t x" if "x < array_capacity (arr s)" for x
    proof -
      from d that have "slot_ok s x" "length (history s) = k" by (simp_all add: data_ok_def k)
      then show ?thesis unfolding slot_ok_def a f by (auto simp: k nth_append Let_def split: if_splits)
    qed
    with d k kc u show ?thesis by (auto simp: data_ok_def a)
  qed
  have dat: "data_ok s" using share_no_gate(2)[OF inv i] p by (auto simp: holds_share_def)
  have "pc_ok t (arr_pc s j)" if "pc_ok s (arr_pc s j)" "holds_gate (arr_pc s j) = 0" for j
    using that k kc dat
    by (cases "(s, arr_pc s j)" rule: pc_ok.cases) (auto simp: a holds_gate_def nth_append data_ok_def split: sum.splits)
  moreover have "pc_ok t (PushWrite v k)" using dat k by (simp add: a data_ok_def)
  ultimately have "arr_inv t"
    using p d by (intro data_step[OF inv i _ _ t]) (auto simp: holds_share_def holds_gate_def)
  then show ?thesis by (simp add: t_def)
qed

lemma in_flight_self:
  assumes inv: "arr_inv s" and i: "i < arr_threads s" and p: "in_flight k (arr_pc s i) = 1"
  shows "data_ok s" "k < atail (arr s)" "k < length (aslots (arr s))" "k < array_capacity (arr s)"
    "over_threads (in_flight k) s = 1" "astate (aslots (arr s) ! k) = EMPTY"
proof -
  have "holds_share (arr_pc s i) = 1" using p by (auto simp: in_flight_def holds_share_def split: apc.splits)
  then show d: "data_ok s" using share_no_gate(2)[OF inv i] by blast
  have pk: "pc_ok s (arr_pc s i)" using inv i by (simp add: arr_inv_def)
  then show k: "k < atail (arr s)" using p by (auto simp: in_flight_def split: apc.splits if_splits)
  with d show c: "k < array_capacity (arr s)" by (simp add: data_ok_def)
  then show "k < length (aslots (arr s))" by (simp add: array_capacity_def)
  have "slot_ok s k" using d c by (simp add: data_ok_def)
  moreover have "over_threads (in_flight k) s \<noteq> 0" using over_member[OF i, of "in_flight k"] p by simp
  ultimately show "over_threads (in_flight k) s = 1" "astate (aslots (arr s) ! k) = EMPTY"
    using k by (auto simp: slot_ok_def Let_def)
qed

lemma write_inv:
  assumes inv: "arr_inv s" and i: "i < arr_threads s" and p: "arr_pc s i = PushWrite v k"
  shows "arr_inv ((a_go s i (PushCount k))\<lparr>arr := write_value (arr s) k v\<rparr>)"
proof -
  define t where "t = (a_go s i (PushCount k))\<lparr>arr := write_value (arr s) k v\<rparr>"
  have t: "gate t = gate s" "arr_threads t = arr_threads s" "arr_pc t = (arr_pc s)(i := PushCount k)"
    by (simp_all add: t_def)
  have own: "in_flight k (arr_pc s i) = 1" using p by (simp add: in_flight_def)
  note self = in_flight_self[OF inv i own]
  have hv: "history s ! k = v" using inv i p by (auto simp: arr_inv_def)
  have u: "over_threads uncounted t = over_threads uncounted s"
    using over_upd[OF i t(2,3), of uncounted] p by (auto simp: uncounted_def)
  have f: "over_threads (in_flight x) t = over_threads (in_flight x) s" for x
    using over_upd[OF i t(2,3), of "in_flight x"] p by (auto simp: in_flight_def)
  have a: "aslots (arr t) = (aslots (arr s))[k := (aslots (arr s) ! k)\<lparr>avalue := Some v\<rparr>]"
    "atail (arr t) = atail (arr s)" "alen (arr t) = alen (arr s)" "ahead (arr t) = ahead (arr s)"
    "history t = history s" "array_capacity (arr t) = array_capacity (arr s)"
    by (simp_all add: t_def write_value_def array_capacity_def)
  have "slot_ok t x" if "x < array_capacity (arr s)" for x
  proof -
    have "slot_ok s x" using self(1) that by (simp add: data_ok_def)
    then show ?thesis unfolding slot_ok_def a f using self by (cases "x = k") (auto simp: Let_def)
  qed
  with self(1) u have d: "data_ok t" by (auto simp: data_ok_def a)
  have "pc_ok t (arr_pc s j)" if j: "j < arr_threads s" "j \<noteq> i" "pc_ok s (arr_pc s j)" "holds_gate (arr_pc s j) = 0" for j
  proof -
    have "in_flight k (arr_pc s j) = 0" by (rule in_flight_unique[OF self(1) i j(1) _ own self(4)]) (use j(2) in simp)
    with j(3,4) show ?thesis
      by (cases "(s, arr_pc s j)" rule: pc_ok.cases) (auto simp: a holds_gate_def in_flight_def nth_list_update split: if_splits sum.splits)
  qed
  moreover have "pc_ok t (PushCount k)" using self hv by (simp add: a)
  ultimately have "arr_inv t"
    using p d by (intro data_step[OF inv i _ _ t]) (auto simp: holds_share_def holds_gate_def)
  then show ?thesis by (simp add: t_def)
qed

lemma count_inv:
  assumes inv: "arr_inv s" and i: "i < arr_threads s" and p: "arr_pc s i = PushCount k"
  shows "arr_inv ((a_go s i (PushPublish k))\<lparr>arr := count_one (arr s)\<rparr>)"
proof -
  define t where "t = (a_go s i (PushPublish k))\<lparr>arr := count_one (arr s)\<rparr>"
  have t: "gate t = gate s" "arr_threads t = arr_threads s" "arr_pc t = (arr_pc s)(i := PushPublish k)"
    by (simp_all add: t_def)
  have own: "in_flight k (arr_pc s i) = 1" using p by (simp add: in_flight_def)
  note self = in_flight_self[OF inv i own]
  have u: "over_threads uncounted t + 1 = over_threads uncounted s"
    using over_upd[OF i t(2,3), of uncounted] p by (auto simp: uncounted_def)
  have f: "over_threads (in_flight x) t = over_threads (in_flight x) s" for x
    using over_upd[OF i t(2,3), of "in_flight x"] p by (auto simp: in_flight_def)
  have a: "aslots (arr t) = aslots (arr s)" "atail (arr t) = atail (arr s)" "alen (arr t) = alen (arr s) + 1"
    "ahead (arr t) = ahead (arr s)" "history t = history s" "array_capacity (arr t) = array_capacity (arr s)"
    by (simp_all add: t_def count_one_def array_capacity_def)
  have "slot_ok t x = slot_ok s x" for x by (simp add: slot_ok_def a f)
  with self(1) u have d: "data_ok t" by (auto simp: data_ok_def a)
  have "pc_ok t (arr_pc s j)" if "pc_ok s (arr_pc s j)" "holds_gate (arr_pc s j) = 0" for j
    using that by (cases "(s, arr_pc s j)" rule: pc_ok.cases) (auto simp: a holds_gate_def split: sum.splits)
  moreover have "pc_ok t (PushPublish k)" using inv i p by (auto simp: a arr_inv_def)
  ultimately have "arr_inv t"
    using p d by (intro data_step[OF inv i _ _ t]) (auto simp: holds_share_def holds_gate_def)
  then show ?thesis by (simp add: t_def)
qed

lemma publish_inv:
  assumes inv: "arr_inv s" and i: "i < arr_threads s" and p: "arr_pc s i = PushPublish k"
  shows "arr_inv ((a_go s i (PushLeave (Inr ())))\<lparr>arr := publish (arr s) k\<rparr>)"
proof -
  define t where "t = (a_go s i (PushLeave (Inr ())))\<lparr>arr := publish (arr s) k\<rparr>"
  have t: "gate t = gate s" "arr_threads t = arr_threads s" "arr_pc t = (arr_pc s)(i := PushLeave (Inr ()))"
    by (simp_all add: t_def)
  have own: "in_flight k (arr_pc s i) = 1" using p by (simp add: in_flight_def)
  note self = in_flight_self[OF inv i own]
  have hv: "avalue (aslots (arr s) ! k) = Some (history s ! k)" using inv i p by (auto simp: arr_inv_def)
  have u: "over_threads uncounted t = over_threads uncounted s"
    using over_upd[OF i t(2,3), of uncounted] p by (auto simp: uncounted_def)
  have f: "over_threads (in_flight x) t = (if x = k then 0 else over_threads (in_flight x) s)" for x
    using over_upd[OF i t(2,3), of "in_flight x"] p self(5) by (auto simp: in_flight_def)
  have a: "aslots (arr t) = (aslots (arr s))[k := (aslots (arr s) ! k)\<lparr>astate := WRITE\<rparr>]"
    "atail (arr t) = atail (arr s)" "alen (arr t) = alen (arr s)" "ahead (arr t) = ahead (arr s)"
    "history t = history s" "array_capacity (arr t) = array_capacity (arr s)"
    by (simp_all add: t_def publish_def array_capacity_def)
  have "slot_ok t x" if "x < array_capacity (arr s)" for x
  proof -
    have "slot_ok s x" using self(1) that by (simp add: data_ok_def)
    then show ?thesis unfolding slot_ok_def a f using self hv by (cases "x = k") (auto simp: Let_def)
  qed
  with self(1) u have d: "data_ok t" by (auto simp: data_ok_def a)
  have v: "avalue (aslots (arr t) ! x) = avalue (aslots (arr s) ! x)" for x
    by (cases "x = k") (simp_all add: a self(3))
  have "pc_ok t (arr_pc s j)" if "pc_ok s (arr_pc s j)" "holds_gate (arr_pc s j) = 0" for j
    using that by (cases "(s, arr_pc s j)" rule: pc_ok.cases) (auto simp: a(2-) v holds_gate_def split: sum.splits)
  then have "arr_inv t"
    using p d by (intro data_step[OF inv i _ _ t]) (auto simp: holds_share_def holds_gate_def)
  then show ?thesis by (simp add: t_def)
qed

lemma test_tail_inv:
  assumes inv: "arr_inv s" and i: "i < arr_threads s"
    and p: "arr_pc s i = PushLoad v \<or> arr_pc s i = SlowLoad v \<or> arr_pc s i = SlowCas v k" and n: "nxt = PushCas \<or> nxt = SlowCas"
  shows "arr_inv (test_tail s i v (atail (arr s)) nxt)"
proof -
  have "data_ok s" using share_no_gate(2)[OF inv i] p by (auto simp: holds_share_def)
  then have "atail (arr s) \<le> array_capacity (arr s)" by (simp add: data_ok_def)
  then show ?thesis unfolding test_tail_def
    by (intro quiet_same_gate[OF inv i])
      (use p n in \<open>auto simp: halfway_def uncounted_def in_flight_def holds_share_def holds_gate_def\<close>)
qed

lemma push_step_inv:
  assumes inv: "arr_inv s" and i: "i < arr_threads s" and st: "push_step s i (arr_pc s i) = Some t"
  shows "arr_inv t"
proof (cases "arr_pc s i")
  case (PushLoad v)
  with st test_tail_inv[OF inv i] show ?thesis by auto
next
  case (SlowLoad v)
  with st test_tail_inv[OF inv i] show ?thesis by auto
next
  case (PushCas v k)
  have "arr_inv (a_go s i (SlowLoad v))"
    by (rule quiet_same_gate[OF inv i])
      (simp_all add: PushCas halfway_def uncounted_def in_flight_def holds_share_def holds_gate_def)
  with st PushCas exchange_inv[OF inv i, of v k] show ?thesis by (auto split: if_splits)
next
  case (SlowCas v k)
  with st exchange_inv[OF inv i, of v k] test_tail_inv[OF inv i, of v k SlowCas] show ?thesis by (auto split: if_splits)
next
  case (PushWrite v k)
  with st write_inv[OF inv i PushWrite] show ?thesis by simp
next
  case (PushCount k)
  with st count_inv[OF inv i PushCount] show ?thesis by simp
next
  case (PushPublish k)
  with st publish_inv[OF inv i PushPublish] show ?thesis by simp
next
  case (PushLeave r)
  have "arr_inv ((a_go s i AIdle)\<lparr>gate := rw_unshare (gate s)\<rparr>)"
    by (rule release_share[OF inv i])
      (simp_all add: PushLeave halfway_def uncounted_def in_flight_def holds_share_def holds_gate_def)
  with st PushLeave show ?thesis by simp
qed (use st in auto)

section \<open>The steps of a get and of a reset\<close>

lemmas pc_views = halfway_def uncounted_def in_flight_def holds_share_def holds_gate_def

lemma get_step_inv:
  assumes inv: "arr_inv s" and i: "i < arr_threads s" and st: "get_step s i (arr_pc s i) = Some t"
  shows "arr_inv t"
proof -
  have pk: "pc_ok s (arr_pc s i)" using inv i by (simp add: arr_inv_def)
  have dat: "data_ok s" if "holds_share (arr_pc s i) = 1" using share_no_gate(2)[OF inv i that] .
  show ?thesis
  proof (cases "arr_pc s i")
    case (GetLen k)
    have "arr_inv (a_go s i (if alen (arr s) \<le> k then GetLeave else GetHead k))"
      by (rule quiet_same_gate[OF inv i]) (simp_all add: GetLen pc_views)
    with st GetLen show ?thesis by simp
  next
    case (GetHead k)
    with dat pk have k: "k < atail (arr s)" "ahead (arr s) = 0" by (auto simp: holds_share_def data_ok_def)
    have "arr_inv (a_go s i (if array_capacity (arr s) \<le> k then GetLeave else GetWait k k))"
      by (rule quiet_same_gate[OF inv i]) (use k in \<open>simp_all add: GetHead pc_views\<close>)
    with st GetHead k show ?thesis by simp
  next
    case (GetWait k u)
    with pk dat have k: "u = k" "k < atail (arr s)" "slot_ok s k" by (auto simp: holds_share_def data_ok_def)
    show ?thesis
    proof (cases "is_written (aslots (arr s) ! k)")
      case True
      then have "astate (aslots (arr s) ! k) \<noteq> EMPTY" by (auto simp: is_written_def EMPTY_def)
      with k have v: "avalue (aslots (arr s) ! k) = Some (history s ! k)"
        by (auto simp: slot_ok_def Let_def split: if_splits)
      have "arr_inv (a_go s i (GetHold k (history s ! k)))"
        by (rule quiet_same_gate[OF inv i]) (use k in \<open>simp_all add: GetWait pc_views\<close>)
      with st GetWait k v True show ?thesis by simp
    qed (use st GetWait k inv in simp)
  next
    case (GetHold k v)
    have "arr_inv ((a_go s i AIdle)\<lparr>gate := rw_unshare (gate s)\<rparr>)"
      by (rule release_share[OF inv i]) (simp_all add: GetHold pc_views)
    with st GetHold show ?thesis by simp
  next
    case GetLeave
    have "arr_inv ((a_go s i AIdle)\<lparr>gate := rw_unshare (gate s)\<rparr>)"
      by (rule release_share[OF inv i]) (simp_all add: GetLeave pc_views)
    with st GetLeave show ?thesis by simp
  qed (use st in auto)
qed

lemma outside_pc_ok: "holds_share p = 0 \<Longrightarrow> holds_gate p = 0 \<Longrightarrow> pc_ok t p = pc_ok s p"
  by (cases "(s, p)" rule: pc_ok.cases) (auto simp: holds_share_def holds_gate_def)

lemma gate_alone:
  assumes "arr_inv s" "i < arr_threads s" "holds_gate (arr_pc s i) = 1" "j < arr_threads s"
  shows "holds_share (arr_pc s j) = 0" "j \<noteq> i \<Longrightarrow> holds_gate (arr_pc s j) = 0"
proof -
  have "0 < over_threads holds_gate s" using over_member[of i s holds_gate] assms(2,3) by simp
  with assms(1) have z: "over_threads holds_share s = 0" "over_threads holds_gate s = 1"
    using rw_ok_excl(2) unfolding arr_inv_def by blast+
  show "holds_share (arr_pc s j) = 0" by (rule over_zero[OF z(1) assms(4)])
  show "holds_gate (arr_pc s j) = 0" if "j \<noteq> i"
    using two_members_le_sum[OF assms(2,4), of "\<lambda>k. holds_gate (arr_pc s k)"] that assms(3) z(2)
    by (simp add: over_threads_def)
qed

text \<open>A step of the reset that holds the lock.\<close>

lemma exclusive_step:
  assumes inv: "arr_inv s" and i: "i < arr_threads s" "holds_gate (arr_pc s i) = 1"
    and t: "gate t = gate s" "arr_threads t = arr_threads s" "arr_pc t = (arr_pc s)(i := q)"
    and q: "holds_gate q = 1" "holds_share q = 0" "pc_ok t q"
    and d: "\<not> halfway q \<Longrightarrow> over_threads uncounted t = 0 \<Longrightarrow> (\<And>u. over_threads (in_flight u) t = 0) \<Longrightarrow> data_ok t"
  shows "arr_inv t"
proof -
  note alone = gate_alone[OF inv i]
  have none: "uncounted p = 0" "in_flight u p = 0" if "holds_share p = 0" for p :: "'a apc" and u
    using that by (cases p; simp add: pc_views)+
  have sh: "holds_share (arr_pc t j) = 0" if "j < arr_threads t" for j
    using alone(1)[of j] q(2) that t(2,3) by (cases "j = i") auto
  have "over_threads holds_share t = over_threads holds_share s" "over_threads holds_gate t = over_threads holds_gate s"
    using over_upd[OF i(1) t(2,3), of holds_share] over_upd[OF i(1) t(2,3), of holds_gate] i q alone(1)[OF i(1)] by simp_all
  moreover have "pc_ok t (arr_pc t j)" if "j < arr_threads s" for j
    using that inv q(3) t(3) outside_pc_ok[OF alone(1)[OF that] alone(2)[OF that], of t s] by (cases "j = i") (auto simp: arr_inv_def)
  moreover have "data_ok t" if "\<forall>j<arr_threads t. \<not> halfway (arr_pc t j)"
  proof (rule d)
    show "\<not> halfway q" using that i(1) t(2,3) by force
    show "over_threads uncounted t = 0" "\<And>u. over_threads (in_flight u) t = 0"
      by (rule over_all_zero; rule none; rule sh; assumption)+
  qed
  ultimately show ?thesis using inv t(1,2) by (simp add: arr_inv_def)
qed

lemma fresh_full_slots:
  "fresh_full r \<Longrightarrow> k < array_capacity r \<Longrightarrow> astate (aslots r ! k) = WRITE \<and> avalue (aslots r ! k) = Some (array_list r ! k)"
  by (auto simp: fresh_full_def array_inv_def array_list_nth)

lemma reset_swap_inv:
  assumes inv: "arr_inv s" and i: "i < arr_threads s" and p: "arr_pc s i = ResetSwap r"
  shows "arr_inv ((a_go s i (ResetHead (array_capacity r)))\<lparr>arr := (arr s)\<lparr>aslots := aslots r\<rparr>, history := array_list r\<rparr>)"
proof -
  have r: "fresh_full r" using inv i p by (auto simp: arr_inv_def)
  let ?t = "(a_go s i (ResetHead (array_capacity r)))\<lparr>arr := (arr s)\<lparr>aslots := aslots r\<rparr>, history := array_list r\<rparr>"
  have "array_capacity (arr ?t) = array_capacity r" by (simp add: array_capacity_def)
  with r fresh_full_slots[OF r] have "storage_full ?t (array_capacity r)"
    by (simp add: storage_full_def fresh_full_def array_inv_def)
  then show ?thesis
    by (intro exclusive_step[OF inv i, where q = "ResetHead (array_capacity r)"]) (simp_all add: p pc_views)
qed

lemma full_data:
  assumes "storage_full s n" "ahead (arr s) = 0" "atail (arr s) = n" "alen (arr s) = n"
    "over_threads uncounted s = 0" "\<And>u. over_threads (in_flight u) s = 0"
  shows "data_ok s"
  using assms by (simp add: data_ok_def slot_ok_def storage_full_def)

lemma reset_step_inv:
  assumes inv: "arr_inv s" and i: "i < arr_threads s" and st: "reset_step s i (arr_pc s i) = Some t"
  shows "arr_inv t"
proof -
  have pk: "pc_ok s (arr_pc s i)" using inv i by (simp add: arr_inv_def)
  have full: "storage_full (s\<lparr>arr_pc := pcs, arr := a\<rparr>) n = storage_full s n" if "aslots a = aslots (arr s)" for pcs a n
    using that by (simp add: storage_full_def array_capacity_def)
  show ?thesis
  proof (cases "arr_pc s i")
    case (ResetTry r)
    show ?thesis
    proof (cases "rw_exclusive (gate s)")
      case None
      have "arr_inv (a_go s i (ResetInspect r))"
        by (rule quiet_same_gate[OF inv i]) (use pk in \<open>simp_all add: ResetTry pc_views\<close>)
      with st ResetTry None show ?thesis by simp
    next
      case (Some g)
      let ?t = "(a_go s i (ResetSwap r))\<lparr>gate := g\<rparr>"
      have "over_threads holds_share ?t = over_threads holds_share s" "over_threads holds_gate ?t = Suc (over_threads holds_gate s)"
        using over_upd[OF i, of ?t "ResetSwap r" holds_share] over_upd[OF i, of ?t "ResetSwap r" holds_gate]
        by (simp_all add: ResetTry pc_views)
      with rw_ok_exclusive[OF _ Some] inv
      have "rw_ok (gate ?t) (over_threads holds_share ?t) (over_threads holds_gate ?t)" by (simp add: arr_inv_def)
      then have "arr_inv ?t"
        by (intro quiet_step[OF inv i, where q = "ResetSwap r"]) (use pk in \<open>simp_all add: ResetTry pc_views\<close>)
      with st ResetTry Some show ?thesis by simp
    qed
  next
    case (ResetInspect r)
    with st obtain g where g: "rw_shared (gate s) = Some g" "t = (a_go s i (ResetLook r))\<lparr>gate := g\<rparr>" by auto
    have "arr_inv ((a_go s i (ResetLook r))\<lparr>gate := g\<rparr>)"
      by (rule acquire_share[OF inv i g(1)]) (use pk in \<open>simp_all add: ResetInspect pc_views\<close>)
    with g show ?thesis by simp
  next
    case (ResetLook r)
    have "arr_inv ((a_go s i (ResetTry r))\<lparr>gate := rw_unshare (gate s)\<rparr>)"
      by (rule release_share[OF inv i]) (use pk in \<open>simp_all add: ResetLook pc_views\<close>)
    with st ResetLook show ?thesis by simp
  next
    case (ResetSwap r)
    with st reset_swap_inv[OF inv i ResetSwap] show ?thesis by simp
  next
    case (ResetHead n)
    have "arr_inv ((a_go s i (ResetTail n))\<lparr>arr := (arr s)\<lparr>ahead := 0\<rparr>\<rparr>)"
      by (rule exclusive_step[OF inv i, where q = "ResetTail n"]) (use pk in \<open>simp_all add: ResetHead pc_views full\<close>)
    with st ResetHead show ?thesis by simp
  next
    case (ResetTail n)
    have "arr_inv ((a_go s i (ResetLen n))\<lparr>arr := (arr s)\<lparr>atail := n\<rparr>\<rparr>)"
      by (rule exclusive_step[OF inv i, where q = "ResetLen n"]) (use pk in \<open>simp_all add: ResetTail pc_views full\<close>)
    with st ResetTail show ?thesis by simp
  next
    case (ResetLen n)
    have "arr_inv ((a_go s i ResetOpen)\<lparr>arr := (arr s)\<lparr>alen := n\<rparr>\<rparr>)"
      by (rule exclusive_step[OF inv i, where q = ResetOpen])
        (use pk in \<open>auto simp: ResetLen pc_views full intro!: full_data[of _ n]\<close>)
    with st ResetLen show ?thesis by simp
  next
    case ResetOpen
    let ?t = "(a_go s i AIdle)\<lparr>gate := rw_unlock (gate s)\<rparr>"
    have "over_threads holds_share ?t = over_threads holds_share s" "Suc (over_threads holds_gate ?t) = over_threads holds_gate s"
      using over_upd[OF i, of ?t AIdle holds_share] over_upd[OF i, of ?t AIdle holds_gate] by (simp_all add: ResetOpen pc_views)
    with inv rw_ok_unlock[of "gate s" "over_threads holds_share ?t" "over_threads holds_gate ?t"]
    have "rw_ok (gate ?t) (over_threads holds_share ?t) (over_threads holds_gate ?t)" by (simp add: arr_inv_def)
    then have "arr_inv ?t" by (intro quiet_step[OF inv i, where q = AIdle]) (simp_all add: ResetOpen pc_views)
    with st ResetOpen show ?thesis by simp
  qed (use st in auto)
qed

lemma replacement_full: "replacement n g = Some r \<Longrightarrow> fresh_full r \<and> array_capacity r = n"
proof -
  assume r: "replacement n g = Some r"
  then have n: "0 < n" by (auto simp: replacement_def init_with_def array_with_capacity_def split: if_splits)
  obtain b where b: "init_with n (\<lambda>k. (g k, Suc k)) 0 = Inr (b, n)" "array_inv b" "array_list b = map g [0..<n]" "array_capacity b = n"
    using init_with_inv[OF n, of "\<lambda>k. (g k, Suc k)" 0] by (auto simp: produce_upt)
  then have "atail b = n" using length_array_list[of b] by simp
  with b r show ?thesis by (simp add: replacement_def fresh_full_def)
qed

lemma arr_inv_step:
  assumes inv: "arr_inv s" and st: "array_step x s = Some t"
  shows "arr_inv t"
proof (cases x)
  case (CallPush i v)
  with st obtain g where g: "i < arr_threads s" "arr_pc s i = AIdle" "rw_shared (gate s) = Some g"
    "t = (a_go s i (PushLoad v))\<lparr>gate := g\<rparr>" by (auto simp: array_step_def Let_def split: if_splits)
  then show ?thesis by (auto intro!: acquire_share[OF inv] simp: pc_views)
next
  case (CallGet i k)
  with st obtain g where g: "i < arr_threads s" "arr_pc s i = AIdle" "rw_shared (gate s) = Some g"
    "t = (a_go s i (GetLen k))\<lparr>gate := g\<rparr>" by (auto simp: array_step_def Let_def split: if_splits)
  then show ?thesis by (auto intro!: acquire_share[OF inv] simp: pc_views)
next
  case (CallReset i n g)
  with st obtain r where r: "i < arr_threads s" "arr_pc s i = AIdle" "replacement n g = Some r" "t = a_go s i (ResetTry r)"
    by (auto simp: array_step_def Let_def split: if_splits)
  with replacement_full[OF r(3)] show ?thesis by (auto intro!: quiet_same_gate[OF inv] simp: pc_views)
next
  case (ArrStep i)
  with st have "i < arr_threads s" "arr_thread_step s i = Some t" by (auto simp: array_step_def Let_def split: if_splits)
  then show ?thesis using push_step_inv[OF inv] get_step_inv[OF inv] reset_step_inv[OF inv]
    by (auto simp: arr_thread_step_def split: option.splits)
qed

lemma arr_inv_init: "arr_inv (array_init c n)"
  by (simp add: arr_inv_def array_init_def data_ok_def slot_ok_def over_threads_def holds_share_def holds_gate_def
      uncounted_def in_flight_def array_capacity_def allocate_slots_def aslot_new_def)

interpretation arr_machine: machine array_step "array_init c n" arr_inv
  for c n
  by unfold_locales (auto intro: arr_inv_init arr_inv_step)

section \<open>Properties\<close>

text \<open>
  C24: every slot has one writer and readers see what it wrote. In every reachable state with no
  reset half done, the reserved positions are those below the tail and fit the capacity; each
  of them is either published, with the value that was reserved for it, or still owned by
  exactly one push; \<open>len\<close> lacks only the pushes that have not counted themselves, so it is
  the tail once they have; a guard holds the value pushed at its index; and a push gives its
  value back only when the array is full.
\<close>

theorem array_publication:
  assumes "reachable array_step (array_init c n) s" "over_threads holds_gate s = 0"
  shows "atail (arr s) = length (history s) \<and> length (history s) \<le> array_capacity (arr s) \<and>
    alen (arr s) + over_threads uncounted s = atail (arr s) \<and>
    (\<forall>t. t < atail (arr s) \<longrightarrow>
       (if is_written (aslots (arr s) ! t)
        then avalue (aslots (arr s) ! t) = Some (history s ! t) \<and> over_threads (in_flight t) s = 0
        else over_threads (in_flight t) s = 1)) \<and>
    (\<forall>i k v. i < arr_threads s \<and> arr_pc s i = GetHold k v \<longrightarrow> k < length (history s) \<and> v = history s ! k) \<and>
    (\<forall>i v. i < arr_threads s \<and> arr_pc s i = PushLeave (Inl v) \<longrightarrow> length (history s) = array_capacity (arr s))"
proof -
  have inv: "arr_inv s" by (rule arr_machine.always[OF assms(1)])
  have d: "data_ok s" by (rule no_gate_data[OF inv assms(2)])
  have pk: "pc_ok s (arr_pc s i)" if "i < arr_threads s" for i using inv that by (simp add: arr_inv_def)
  have "if is_written (aslots (arr s) ! t)
        then avalue (aslots (arr s) ! t) = Some (history s ! t) \<and> over_threads (in_flight t) s = 0
        else over_threads (in_flight t) s = 1" if "t < atail (arr s)" for t
  proof -
    have "slot_ok s t" using d that by (simp add: data_ok_def)
    with that show ?thesis
      by (auto simp: slot_ok_def Let_def is_written_def WRITE_def EMPTY_def split: if_splits)
  qed
  moreover have "k < length (history s) \<and> v = history s ! k" if "i < arr_threads s" "arr_pc s i = GetHold k v" for i k v
    using pk[OF that(1)] that(2) d by (simp add: data_ok_def)
  moreover have "length (history s) = array_capacity (arr s)" if "i < arr_threads s" "arr_pc s i = PushLeave (Inl v)" for i v
    using pk[OF that(1)] that(2) d by (simp add: data_ok_def)
  ultimately show ?thesis using d by (auto simp: data_ok_def)
qed

theorem array_publication_witness:
  "\<exists>s :: nat array_sys. reachable array_step (array_init 2 3) s \<and> history s = [7, 8] \<and> alen (arr s) = 1 \<and>
     over_threads (in_flight 0) s = 1 \<and> avalue (aslots (arr s) ! 1) = Some 8"
proof -
  let ?acts = "[CallPush 0 7, CallPush 1 8, ArrStep 0, ArrStep 1, ArrStep 0, ArrStep 1, ArrStep 1, ArrStep 1, ArrStep 1, ArrStep 1, ArrStep 1]"
  have "run_to array_step ?acts (array_init 2 3 :: nat array_sys)
     (\<lambda>s. history s = [7, 8] \<and> alen (arr s) = 1 \<and> atail (arr s) = 2 \<and> over_threads holds_gate s = 0 \<and>
        is_written (aslots (arr s) ! 1) \<and> \<not> is_written (aslots (arr s) ! 0))" by code_simp
  then obtain s :: "nat array_sys" where s: "reachable array_step (array_init 2 3) s" "history s = [7, 8]" "alen (arr s) = 1"
    "atail (arr s) = 2" "over_threads holds_gate s = 0" "is_written (aslots (arr s) ! 1)" "\<not> is_written (aslots (arr s) ! 0)"
    by (auto dest: run_toD)
  note p = array_publication[OF s(1) s(5)]
  from p s have "over_threads (in_flight 0) s = 1" "avalue (aslots (arr s) ! 1) = Some 8"
    by (auto dest!: spec[of _ "1::nat"] spec[of _ "0::nat"])
  with s show ?thesis by blast
qed

end
