(* ===== verification/Vec.thy ===== *)
theory Vec
  imports Queues Refinement
begin

text \<open>
  \<open>AtomicVec\<close> of \<open>src/atomic/vec.rs\<close>: an unbounded FIFO of linked blocks with a pool of free
  blocks, a list of retired blocks and a cache from block numbers to blocks. Blocks live in
  an explicit heap; a pointer is an address or null (\<open>None\<close>), and an access through a pointer
  to memory that is not allocated has no result. The operations are those of a thread that is
  alone in the structure: the bulk operations take the exclusive side of the coordination
  lock, and \<open>push\<close> and \<open>pop\<close> are shown as they run between two other operations. A loop that
  would wait for another thread has no result either (\<open>None\<close>), so results below are also
  proofs that the loops end. The packed indices are natural numbers; bit 0 is \<open>HAS_NEXT\<close>, the
  rest the physical index, exact for fewer than \<open>2 ^ 62\<close> pushes.
\<close>

definition BLOCK_CAP :: nat where
  "BLOCK_CAP = 32"

definition SLOT_WRITE :: usize where
  "SLOT_WRITE = 1"

definition SLOT_READ :: usize where
  "SLOT_READ = 2"

definition POOL_CAP :: nat where
  "POOL_CAP = 512"

type_synonym addr = nat

record 'a vslot =
  vstate :: usize
  vvalue :: "'a option"

record 'a vblock =
  vnext :: "addr option"
  vcounters :: nat
  vslots :: "'a vslot list"

definition block_new :: "'a vblock" where
  "block_new = \<lparr>vnext = None, vcounters = 0, vslots = replicate BLOCK_CAP \<lparr>vstate = 0, vvalue = None\<rparr>\<rparr>"

definition block_reset :: "'a vblock \<Rightarrow> 'a vblock" where
  "block_reset b = b\<lparr>vnext := None, vcounters := 0, vslots := map (vstate_update (\<lambda>_. 0)) (vslots b)\<rparr>"

definition slot_written :: "'a vslot \<Rightarrow> bool" where
  "slot_written sl \<longleftrightarrow> vstate sl AND SLOT_WRITE \<noteq> 0"

section \<open>The block cache\<close>

text \<open>An entry is a tag, \<open>None\<close> for \<open>usize::MAX\<close>, and a block pointer.\<close>

type_synonym block_array = "(nat option \<times> addr option) list"

definition block_array_new :: block_array where
  "block_array_new = replicate BLOCK_CAP (None, None)"

definition block_array_get :: "block_array \<Rightarrow> nat \<Rightarrow> addr option" where
  "block_array_get es idx = (let e = es ! (idx mod BLOCK_CAP) in if fst e = Some idx then snd e else None)"

definition block_array_set :: "block_array \<Rightarrow> nat \<Rightarrow> addr option \<Rightarrow> block_array" where
  "block_array_set es idx p = es[idx mod BLOCK_CAP := (Some idx, p)]"

definition block_array_clear :: "block_array \<Rightarrow> nat \<Rightarrow> block_array" where
  "block_array_clear es idx = es[idx mod BLOCK_CAP := (None, snd (es ! (idx mod BLOCK_CAP)))]"

section \<open>The vector\<close>

record 'a vec =
  vheap :: "addr \<rightharpoonup> 'a vblock"
  vfresh :: addr
  head_index :: nat
  head_block :: "addr option"
  tail_index :: nat
  tail_block :: "addr option"
  cache :: block_array
  free_list :: "addr list"
  retired :: "addr option"
  retired_count :: nat

definition new_block :: "'a vec \<Rightarrow> addr \<times> 'a vec" where
  "new_block v = (vfresh v, v\<lparr>vheap := (vheap v)(vfresh v \<mapsto> block_new), vfresh := vfresh v + 1\<rparr>)"

definition dealloc_block :: "'a vec \<Rightarrow> addr \<Rightarrow> 'a vec" where
  "dealloc_block v p = v\<lparr>vheap := (vheap v)(p := None)\<rparr>"

definition vec_new :: "'a vec" where
  "vec_new =
     (let (p, v) = new_block
        \<lparr>vheap = Map.empty, vfresh = 0, head_index = 0, head_block = None, tail_index = 0, tail_block = None,
         cache = block_array_new, free_list = [], retired = None, retired_count = 0\<rparr>
      in v\<lparr>tail_block := Some p, head_block := Some p, cache := block_array_set (cache v) 0 (Some p)\<rparr>)"

text \<open>The pool is an \<open>AtomicBuffer\<close>: a bounded queue that refuses a block when it is full.\<close>

definition pool_push :: "'a vec \<Rightarrow> addr \<Rightarrow> 'a vec option" where
  "pool_push v p =
     (if length (free_list v) < POOL_CAP then Some (v\<lparr>free_list := free_list v @ [p]\<rparr>) else None)"

fun preallocate :: "nat \<Rightarrow> 'a vec \<Rightarrow> 'a vec" where
  "preallocate 0 v = v"
| "preallocate (Suc n) v =
     preallocate n (let (p, w) = new_block v in case pool_push w p of Some u \<Rightarrow> u | None \<Rightarrow> dealloc_block w p)"

definition vec_with_capacity :: "nat \<Rightarrow> 'a vec" where
  "vec_with_capacity cap = preallocate (min (div_ceil cap BLOCK_CAP) 65 - 1) vec_new"

definition calc_len :: "nat \<Rightarrow> nat \<Rightarrow> nat" where
  "calc_len start fin =
     (if fin \<le> start then 0
      else let logical = (\<lambda>p. p div BLOCK_CAP * (BLOCK_CAP - 1) + min (p mod BLOCK_CAP) (BLOCK_CAP - 1))
           in logical fin - logical start)"

definition vec_len :: "'a vec \<Rightarrow> nat" where
  "vec_len v = calc_len (head_index v div 2) (tail_index v div 2)"

definition vec_is_empty :: "'a vec \<Rightarrow> bool" where
  "vec_is_empty v \<longleftrightarrow> vec_len v = 0"

definition vec_capacity :: "'a vec \<Rightarrow> nat" where
  "vec_capacity v =
     (let d = tail_index v div 2 - head_index v div 2 in d - d mod BLOCK_CAP + BLOCK_CAP)"

section \<open>Reclamation\<close>

partial_function (option) reclaim_loop :: "'a vec \<Rightarrow> addr option \<Rightarrow> 'a vec option" where
  "reclaim_loop v blk =
     (case blk of
        None \<Rightarrow> Some v
      | Some p \<Rightarrow>
          (case vheap v p of
             None \<Rightarrow> None
           | Some b \<Rightarrow>
               (if length (free_list v) = POOL_CAP then reclaim_loop (dealloc_block v p) (vnext b)
                else let w = v\<lparr>vheap := (vheap v)(p \<mapsto> block_reset b)\<rparr>
                     in reclaim_loop (case pool_push w p of Some u \<Rightarrow> u | None \<Rightarrow> dealloc_block w p) (vnext b))))"

definition reclaim_retired :: "'a vec \<Rightarrow> 'a vec option" where
  "reclaim_retired v = reclaim_loop (v\<lparr>retired := None, retired_count := 0\<rparr>) (retired v)"

definition retire :: "'a vec \<Rightarrow> addr \<Rightarrow> (nat \<times> 'a vec) option" where
  "retire v p =
     (case vheap v p of
        None \<Rightarrow> None
      | Some b \<Rightarrow>
          Some (retired_count v + 1,
            v\<lparr>vheap := (vheap v)(p \<mapsto> b\<lparr>vnext := retired v\<rparr>), retired := Some p, retired_count := retired_count v + 1\<rparr>))"

definition try_reclaim :: "'a vec \<Rightarrow> 'a vec option" where
  "try_reclaim v = (if retired_count v = 0 then Some v else reclaim_retired v)"

definition acquire_block :: "'a vec \<Rightarrow> addr \<times> 'a vec" where
  "acquire_block v = (case free_list v of [] \<Rightarrow> new_block v | p # ps \<Rightarrow> (p, v\<lparr>free_list := ps\<rparr>))"

section \<open>Push and pop\<close>

text \<open>The successor of a block that has been filled: link it, cache it, move the tail to it.\<close>

definition install_next :: "'a vec \<Rightarrow> addr \<Rightarrow> nat \<Rightarrow> 'a vec option" where
  "install_next v p new_tail =
     (let (nx, w) = acquire_block v in
      case vheap w p of
        None \<Rightarrow> None
      | Some b \<Rightarrow>
          Some (w\<lparr>vheap := (vheap w)(p \<mapsto> b\<lparr>vnext := Some nx\<rparr>),
                  cache := block_array_set (cache w) (new_tail div 2 div BLOCK_CAP + 1) (Some nx),
                  tail_block := Some nx, tail_index := new_tail + 2\<rparr>))"

definition write_slot :: "'a vec \<Rightarrow> addr \<Rightarrow> nat \<Rightarrow> 'a \<Rightarrow> 'a vec option" where
  "write_slot v p offset x =
     (case vheap v p of
        None \<Rightarrow> None
      | Some b \<Rightarrow>
          Some (v\<lparr>vheap := (vheap v)(p \<mapsto> b\<lparr>vslots := (vslots b)[offset := \<lparr>vstate = SLOT_WRITE, vvalue = Some x\<rparr>]\<rparr>)\<rparr>))"

definition push_internal :: "'a vec \<Rightarrow> 'a \<Rightarrow> 'a vec option" where
  "push_internal v x =
     (let tl = tail_index v; offset = tl div 2 mod BLOCK_CAP in
      case tail_block v of
        None \<Rightarrow> None
      | Some p \<Rightarrow>
          if offset = BLOCK_CAP - 1 then None
          else let new_tail = tl + 2; w = v\<lparr>tail_index := new_tail\<rparr> in
               case (if offset + 1 = BLOCK_CAP - 1 then install_next w p new_tail else Some w) of
                 None \<Rightarrow> None
               | Some u \<Rightarrow> write_slot u p offset x)"

fun push_batch :: "'a vec \<Rightarrow> 'a list \<Rightarrow> 'a vec option" where
  "push_batch v [] = Some v"
| "push_batch v (x # xs) = (case push_internal v x of None \<Rightarrow> None | Some w \<Rightarrow> push_batch w xs)"

text \<open>Leaving a block: the head moves to its successor.\<close>

definition advance_head :: "'a vec \<Rightarrow> addr \<Rightarrow> nat \<Rightarrow> 'a vec option" where
  "advance_head v p new_head =
     (case vheap v p of
        None \<Rightarrow> None
      | Some b \<Rightarrow>
          (case vnext b of
             None \<Rightarrow> None
           | Some nx \<Rightarrow>
               (case vheap v nx of
                  None \<Rightarrow> None
                | Some nb \<Rightarrow>
                    Some (v\<lparr>head_block := Some nx,
                            head_index := new_head - new_head mod 2 + 2 + (if vnext nb = None then 0 else 1)\<rparr>))))"

text \<open>Reading a slot out; the last reader of a block retires it.\<close>

definition read_slot :: "'a vec \<Rightarrow> addr \<Rightarrow> nat \<Rightarrow> (('a option \<times> bool) \<times> 'a vec) option" where
  "read_slot v p offset =
     (case vheap v p of
        None \<Rightarrow> None
      | Some b \<Rightarrow>
          let sl = vslots b ! offset in
          if \<not> slot_written sl then None
          else let n = vcounters b + 1;
                   w = v\<lparr>vheap := (vheap v)(p \<mapsto> b\<lparr>vslots := (vslots b)[offset := sl\<lparr>vstate := SLOT_READ\<rparr>], vcounters := n\<rparr>)\<rparr>
               in if n = BLOCK_CAP - 1
                  then (case retire w p of
                          None \<Rightarrow> None
                        | Some (r, u) \<Rightarrow> Some ((vvalue sl, 64 \<le> r \<and> r mod 64 = 0), u))
                  else Some ((vvalue sl, False), w))"

definition pop_raw :: "'a vec \<Rightarrow> (('a option \<times> bool) \<times> 'a vec) option" where
  "pop_raw v =
     (let hd = head_index v; offset = hd div 2 mod BLOCK_CAP in
      case head_block v of
        None \<Rightarrow> None
      | Some p \<Rightarrow>
          if offset = BLOCK_CAP - 1 then None
          else let new_head = hd + 2; tl = tail_index v in
               if new_head mod 2 = 0 \<and> hd div 2 = tl div 2 then Some ((None, False), v)
               else let new_head = (if new_head mod 2 = 0 \<and> hd div 2 div BLOCK_CAP \<noteq> tl div 2 div BLOCK_CAP
                                    then new_head + 1 else new_head);
                        w = v\<lparr>head_index := new_head\<rparr>
                    in case (if offset + 1 = BLOCK_CAP - 1 then advance_head w p new_head else Some w) of
                         None \<Rightarrow> None
                       | Some u \<Rightarrow> read_slot u p offset)"

definition pop_internal :: "'a vec \<Rightarrow> ('a option \<times> 'a vec) option" where
  "pop_internal v = map_option (\<lambda>((x, _), w). (x, w)) (pop_raw v)"

definition vec_pop :: "'a vec \<Rightarrow> ('a option \<times> 'a vec) option" where
  "vec_pop v =
     (case pop_raw v of
        None \<Rightarrow> None
      | Some ((x, reclaim), w) \<Rightarrow>
          if reclaim then map_option (\<lambda>u. (x, u)) (try_reclaim w) else Some (x, w))"

definition pop_batch :: "nat \<Rightarrow> 'a vec \<Rightarrow> ('a list \<times> 'a vec) option" where
  "pop_batch n v = drain vec_pop n v"

definition vec_drain :: "'a vec \<Rightarrow> ('a list \<times> 'a vec) option" where
  "vec_drain v = pop_batch (vec_len v) v"

section \<open>Bulk operations\<close>

text \<open>
  The scans of \<open>index_of\<close>, \<open>find\<close>, \<open>for_each\<close>, \<open>fold\<close> and \<open>reduce\<close> are one loop: \<open>f\<close> handles the value of
  a written slot and may leave the scan (\<open>Inr\<close>), \<open>skip\<close> what happens to the loop variable at
  any other slot.
\<close>

function scan_slots ::
  "('b \<Rightarrow> 'a option \<Rightarrow> 'b + 'r) \<Rightarrow> ('b \<Rightarrow> 'b) \<Rightarrow> 'a vslot list \<Rightarrow> nat \<Rightarrow> nat \<Rightarrow> nat \<Rightarrow> 'b \<Rightarrow> 'b + 'r" where
  "scan_slots f skip sls block_start block_end offset acc =
     (if block_start + offset < block_end \<and> offset < BLOCK_CAP - 1
      then let sl = sls ! offset in
           if slot_written sl
           then (case f acc (vvalue sl) of
                   Inl a \<Rightarrow> scan_slots f skip sls block_start block_end (offset + 1) a
                 | Inr r \<Rightarrow> Inr r)
           else scan_slots f skip sls block_start block_end (offset + 1) (skip acc)
      else Inl acc)"
  by pat_completeness auto
termination
  by (relation "measure (\<lambda>(f, skip, sls, bs, be, off, acc). BLOCK_CAP - off)") (auto simp: BLOCK_CAP_def)

declare scan_slots.simps [simp del]

function scan_blocks ::
  "('b \<Rightarrow> 'a option \<Rightarrow> 'b + 'r) \<Rightarrow> ('b \<Rightarrow> 'b) \<Rightarrow> 'a vec \<Rightarrow> nat \<Rightarrow> addr option \<Rightarrow> nat \<Rightarrow> nat \<Rightarrow> 'b \<Rightarrow> ('b + 'r) option" where
  "scan_blocks f skip v end_idx blk block_start offset acc =
     (case blk of
        None \<Rightarrow> Some (Inl acc)
      | Some p \<Rightarrow>
          if block_start < end_idx
          then (case vheap v p of
                  None \<Rightarrow> None
                | Some b \<Rightarrow>
                    (case scan_slots f skip (vslots b) block_start (min (block_start + BLOCK_CAP - 1) end_idx) offset acc of
                       Inr r \<Rightarrow> Some (Inr r)
                     | Inl a \<Rightarrow> scan_blocks f skip v end_idx (vnext b) (block_start + BLOCK_CAP) 0 a))
          else Some (Inl acc))"
  by pat_completeness auto
termination
  by (relation "measure (\<lambda>(f, skip, v, e, blk, bs, off, acc). e - bs)") (auto simp: BLOCK_CAP_def)

declare scan_blocks.simps [simp del]

definition scan :: "('b \<Rightarrow> 'a option \<Rightarrow> 'b + 'r) \<Rightarrow> ('b \<Rightarrow> 'b) \<Rightarrow> 'a vec \<Rightarrow> 'b \<Rightarrow> ('b + 'r) option" where
  "scan f skip v acc =
     (let start = head_index v div 2
      in scan_blocks f skip v (tail_index v div 2) (head_block v) (start - start mod BLOCK_CAP) (start mod BLOCK_CAP) acc)"

definition index_of :: "'a vec \<Rightarrow> 'a \<Rightarrow> nat option option" where
  "index_of v x =
     map_option (\<lambda>r. case r of Inl _ \<Rightarrow> None | Inr i \<Rightarrow> Some i)
       (scan (\<lambda>i y. if y = Some x then Inr i else Inl (i + 1)) (\<lambda>i. i + 1) v 0)"

definition vec_contains :: "'a vec \<Rightarrow> 'a \<Rightarrow> bool option" where
  "vec_contains v x = map_option (\<lambda>r. r \<noteq> None) (index_of v x)"

definition vec_find :: "('a \<Rightarrow> bool) \<Rightarrow> 'a vec \<Rightarrow> 'a option option" where
  "vec_find predicate v =
     map_option (\<lambda>r. case r of Inl _ \<Rightarrow> None | Inr y \<Rightarrow> y)
       (scan (\<lambda>u y. if predicate (the y) then Inr y else Inl u) (\<lambda>u. u) v ())"

definition vec_fold :: "('b \<Rightarrow> 'a \<Rightarrow> 'b) \<Rightarrow> 'b \<Rightarrow> 'a vec \<Rightarrow> 'b option" where
  "vec_fold f init v =
     map_option (\<lambda>r. case r of Inl a \<Rightarrow> a | Inr a \<Rightarrow> a) (scan (\<lambda>a y. Inl (f a (the y))) (\<lambda>a. a) v init)"

text \<open>\<open>for_each\<close> runs a closure for its effect on a state of its own.\<close>

definition vec_for_each :: "('a \<Rightarrow> 's \<Rightarrow> 's) \<Rightarrow> 'a vec \<Rightarrow> 's \<Rightarrow> 's option" where
  "vec_for_each f v s = vec_fold (\<lambda>s y. f y s) s v"

definition vec_reduce :: "('a \<Rightarrow> 'a \<Rightarrow> 'a) \<Rightarrow> 'a vec \<Rightarrow> 'a option option" where
  "vec_reduce f v =
     (if tail_index v div 2 \<le> head_index v div 2 then Some None
      else vec_fold (\<lambda>acc y. Some (case acc of None \<Rightarrow> y | Some a \<Rightarrow> f a y)) None v)"

section \<open>Indexed access\<close>

fun follow :: "nat \<Rightarrow> 'a vec \<Rightarrow> addr option \<Rightarrow> addr option option" where
  "follow n v None = Some None"
| "follow 0 v (Some p) = Some (Some p)"
| "follow (Suc n) v (Some p) = (case vheap v p of None \<Rightarrow> None | Some b \<Rightarrow> follow n v (vnext b))"

definition get_block_at :: "'a vec \<Rightarrow> nat \<Rightarrow> nat \<Rightarrow> addr option option" where
  "get_block_at v target_block start_block =
     (case block_array_get (cache v) target_block of
        Some p \<Rightarrow> Some (Some p)
      | None \<Rightarrow> follow (target_block - start_block) v (head_block v))"

definition get_slot_ptr :: "'a vec \<Rightarrow> nat \<Rightarrow> nat \<Rightarrow> (addr \<times> nat) option option" where
  "get_slot_ptr v index start_idx =
     (let logical = start_idx mod BLOCK_CAP + index;
          target_block = start_idx div BLOCK_CAP + logical div (BLOCK_CAP - 1);
          offset = logical mod (BLOCK_CAP - 1)
      in map_option (map_option (\<lambda>p. (p, offset))) (get_block_at v target_block (start_idx div BLOCK_CAP)))"

definition slot_at :: "'a vec \<Rightarrow> addr \<times> nat \<Rightarrow> 'a vslot option" where
  "slot_at v po = map_option (\<lambda>b. vslots b ! snd po) (vheap v (fst po))"

definition vec_get :: "'a vec \<Rightarrow> nat \<Rightarrow> 'a option option" where
  "vec_get v index =
     (let start_idx = head_index v div 2 in
      if vec_len v \<le> index then Some None
      else case get_slot_ptr v index start_idx of
             None \<Rightarrow> None
           | Some None \<Rightarrow> Some None
           | Some (Some po) \<Rightarrow>
               map_option (\<lambda>sl. if slot_written sl then vvalue sl else None) (slot_at v po))"

definition put_value :: "'a vec \<Rightarrow> addr \<times> nat \<Rightarrow> 'a option \<Rightarrow> 'a vec option" where
  "put_value v po x =
     (case vheap v (fst po) of
        None \<Rightarrow> None
      | Some b \<Rightarrow>
          Some (v\<lparr>vheap := (vheap v)(fst po \<mapsto> b\<lparr>vslots := (vslots b)[snd po := (vslots b ! snd po)\<lparr>vvalue := x\<rparr>]\<rparr>)\<rparr>))"

definition vec_swap :: "'a vec \<Rightarrow> nat \<Rightarrow> nat \<Rightarrow> (bool \<times> 'a vec) option" where
  "vec_swap v i j =
     (if i = j then Some (True, v)
      else let start_idx = head_index v div 2 in
           if vec_len v \<le> i \<or> vec_len v \<le> j then Some (False, v)
           else case (get_slot_ptr v i start_idx, get_slot_ptr v j start_idx) of
                  (Some (Some pi), Some (Some pj)) \<Rightarrow>
                    (case (slot_at v pi, slot_at v pj) of
                       (Some si, Some sj) \<Rightarrow>
                         (case put_value v pi (vvalue sj) of
                            None \<Rightarrow> None
                          | Some w \<Rightarrow> map_option (\<lambda>u. (True, u)) (put_value w pj (vvalue si)))
                     | _ \<Rightarrow> None)
                | (Some _, Some _) \<Rightarrow> Some (False, v)
                | _ \<Rightarrow> None)"

section \<open>Rebuilding operations\<close>

definition vec_as_vec :: "'a vec \<Rightarrow> ('a list \<times> 'a vec) option" where
  "vec_as_vec v =
     (case pop_all pop_internal v of
        None \<Rightarrow> None
      | Some (xs, w) \<Rightarrow> map_option (\<lambda>u. (xs, u)) (reclaim_retired w))"

definition vec_remove :: "'a vec \<Rightarrow> nat \<Rightarrow> ('a option \<times> 'a vec) option" where
  "vec_remove v index =
     (if vec_len v \<le> index then Some (None, v)
      else case pop_all pop_internal v of
             None \<Rightarrow> None
           | Some (elements, w) \<Rightarrow>
               if length elements \<le> index then map_option (\<lambda>u. (None, u)) (push_batch w elements)
               else map_option (\<lambda>u. (Some (elements ! index), u))
                      (push_batch w (take index elements @ drop (index + 1) elements)))"

definition vec_reverse :: "'a vec \<Rightarrow> 'a vec option" where
  "vec_reverse v =
     (case pop_all pop_internal v of None \<Rightarrow> None | Some (elements, w) \<Rightarrow> push_batch w (rev elements))"

fun push_init :: "nat \<Rightarrow> ('c \<Rightarrow> 'a \<times> 'c) \<Rightarrow> 'a vec \<Rightarrow> 'c \<Rightarrow> ('a vec \<times> 'c) option" where
  "push_init 0 init v c = Some (v, c)"
| "push_init (Suc n) init v c =
     (case init c of (x, c') \<Rightarrow> (case push_internal v x of None \<Rightarrow> None | Some w \<Rightarrow> push_init n init w c'))"

definition restart :: "'a vec \<Rightarrow> 'a vec option" where
  "restart v =
     (let w = v\<lparr>head_index := 0, tail_index := 0,
                cache := foldl (\<lambda>es i. block_array_set es i None) (cache v) [0..<BLOCK_CAP]\<rparr>
      in case head_block v of
           Some p \<Rightarrow>
             (case vheap w p of
                None \<Rightarrow> None
              | Some b \<Rightarrow>
                  Some (w\<lparr>vheap := (vheap w)(p \<mapsto> block_reset b), tail_block := Some p, head_block := Some p,
                          cache := block_array_set (cache w) 0 (Some p)\<rparr>))
         | None \<Rightarrow>
             (let (p, u) = acquire_block w
              in Some (u\<lparr>tail_block := Some p, head_block := Some p, cache := block_array_set (cache u) 0 (Some p)\<rparr>)))"

definition vec_reset_with :: "'a vec \<Rightarrow> nat \<Rightarrow> ('c \<Rightarrow> 'a \<times> 'c) \<Rightarrow> 'c \<Rightarrow> (nat \<times> 'a vec \<times> 'c) option" where
  "vec_reset_with v cap init c =
     (case pop_all pop_internal v of
        None \<Rightarrow> None
      | Some (_, w) \<Rightarrow>
          (case reclaim_retired w of
             None \<Rightarrow> None
           | Some u \<Rightarrow>
               (case restart u of
                  None \<Rightarrow> None
                | Some r \<Rightarrow> map_option (\<lambda>(t, c'). (cap, t, c')) (push_init cap init r c))))"

definition vec_init_with :: "nat \<Rightarrow> ('c \<Rightarrow> 'a \<times> 'c) \<Rightarrow> 'c \<Rightarrow> ('a vec \<times> 'c) option" where
  "vec_init_with cap init c = push_init cap init (vec_with_capacity cap) c"

definition vec_from_iter :: "'a list \<Rightarrow> 'a vec option" where
  "vec_from_iter xs = push_batch vec_new xs"

section \<open>Drop\<close>

text \<open>Destroying a block drops the values that were written and not read.\<close>

definition block_values :: "'a vblock \<Rightarrow> 'a option list" where
  "block_values b = map vvalue (filter (\<lambda>sl. slot_written sl \<and> vstate sl AND SLOT_READ = 0) (vslots b))"

partial_function (option) chain :: "'a vec \<Rightarrow> addr option \<Rightarrow> addr list option" where
  "chain v blk =
     (case blk of
        None \<Rightarrow> Some []
      | Some p \<Rightarrow>
          (case vheap v p of
             None \<Rightarrow> None
           | Some b \<Rightarrow> Option.bind (chain v (vnext b)) (\<lambda>ps. Some (p # ps))))"

definition vec_owned :: "'a vec \<Rightarrow> addr list option" where
  "vec_owned v =
     (case (chain v (head_block v), chain v (retired v)) of
        (Some bs, Some rs) \<Rightarrow> Some (bs @ free_list v @ rs)
      | _ \<Rightarrow> None)"

definition vec_dropped :: "'a vec \<Rightarrow> 'a option list option" where
  "vec_dropped v =
     map_option (\<lambda>ps. concat (map (\<lambda>p. case vheap v p of None \<Rightarrow> [] | Some b \<Rightarrow> block_values b) ps)) (vec_owned v)"

end
