(* ===== verification/Vec_Rep.thy ===== *)
theory Vec_Rep
  imports Vec
begin

text \<open>
  What a state of \<open>AtomicVec\<close> between two operations represents: the number \<open>h\<close> of elements popped
  so far and the list \<open>xs\<close> of elements still there. Element \<open>l\<close> (counting all pushes) lives in
  block \<open>l div 31\<close> at offset \<open>l mod 31\<close>, since the last slot of a block is never used; \<open>phys\<close> is the
  physical index of the code. The heap is split, without overlap and without rest, between
  the live chain, the pool and the retired list.
\<close>

definition phys :: "nat \<Rightarrow> nat" where
  "phys l = 32 * (l div 31) + l mod 31"

lemma phys_div [simp]: "phys l div 32 = l div 31"
proof -
  have "l mod 31 < 32" by (rule less_trans[OF mod_less_divisor]) simp_all
  then show ?thesis by (simp add: phys_def)
qed

lemma phys_mod [simp]: "phys l mod 32 = l mod 31"
proof -
  have "l mod 31 < 32" by (rule less_trans[OF mod_less_divisor]) simp_all
  then show ?thesis by (simp add: phys_def)
qed

lemma mod_31_bound: "l mod 31 \<noteq> 31" "l mod 31 < 31" for l :: nat
  using mod_less_divisor[of 31 l] by simp_all

lemma phys_inj: "phys l = phys k \<longleftrightarrow> l = k"
  by (metis phys_div phys_mod mult_div_mod_eq)

lemma phys_mono: "h < t \<Longrightarrow> phys h < phys t"
proof -
  assume "h < t"
  then have "h div 31 \<le> t div 31" by (simp add: div_le_mono)
  moreover have "h = 31 * (h div 31) + h mod 31" "t = 31 * (t div 31) + t mod 31" by simp_all
  moreover note mod_31_bound(2)[of h]
  ultimately show ?thesis using \<open>h < t\<close> unfolding phys_def by linarith
qed

lemma Suc_div_31:
  "l mod 31 \<noteq> 30 \<Longrightarrow> Suc l div 31 = l div 31" "l mod 31 \<noteq> 30 \<Longrightarrow> Suc l mod 31 = Suc (l mod 31)"
  "l mod 31 = 30 \<Longrightarrow> Suc l div 31 = Suc (l div 31)" "l mod 31 = 30 \<Longrightarrow> Suc l mod 31 = 0"
  by (auto simp: div_Suc mod_Suc)

lemma phys_Suc: "phys (Suc l) = phys l + (if l mod 31 = 30 then 2 else 1)"
  by (simp add: phys_def Suc_div_31)

lemma calc_len_phys: "h \<le> t \<Longrightarrow> calc_len (phys h) (phys t) = t - h"
proof (cases "h = t")
  case False
  assume "h \<le> t"
  with False have "\<not> phys t \<le> phys h" using phys_mono[of h t] by simp
  then show ?thesis using mod_31_bound(2)[of t] mod_31_bound(2)[of h]
    by (simp add: calc_len_def BLOCK_CAP_def Let_def min_def mult.commute)
qed (simp add: calc_len_def)

section \<open>The representation\<close>

definition slot_state :: "nat \<Rightarrow> nat \<Rightarrow> nat \<Rightarrow> usize" where
  "slot_state h t l = (if l < h then SLOT_READ else if l < t then SLOT_WRITE else 0)"

definition block_rep :: "'a vblock \<Rightarrow> nat \<Rightarrow> nat \<Rightarrow> 'a list \<Rightarrow> bool" where
  "block_rep b k h xs \<longleftrightarrow> length (vslots b) = 32 \<and> vstate (vslots b ! 31) = 0 \<and>
     vcounters b = (if k = h div 31 then h mod 31 else 0) \<and>
     (\<forall>i<31. vstate (vslots b ! i) = slot_state h (h + length xs) (31 * k + i) \<and>
        (h \<le> 31 * k + i \<and> 31 * k + i < h + length xs \<longrightarrow> vvalue (vslots b ! i) = Some (xs ! (31 * k + i - h))))"

definition spent :: "'a vblock \<Rightarrow> bool" where
  "spent b \<longleftrightarrow> length (vslots b) = 32 \<and> vstate (vslots b ! 31) = 0 \<and> (\<forall>i<31. vstate (vslots b ! i) = SLOT_READ)"

definition unused :: "'a vblock \<Rightarrow> bool" where
  "unused b \<longleftrightarrow> length (vslots b) = 32 \<and> vnext b = None \<and> vcounters b = 0 \<and> (\<forall>i<32. vstate (vslots b ! i) = 0)"

fun first_ptr :: "addr list \<Rightarrow> addr option" where
  "first_ptr [] = None"
| "first_ptr (p # ps) = Some p"

definition next_ptr :: "addr list \<Rightarrow> nat \<Rightarrow> addr option" where
  "next_ptr ps k = (if k + 1 < length ps then Some (ps ! (k + 1)) else None)"

definition store_rep :: "(addr \<rightharpoonup> 'a vblock) \<Rightarrow> addr list \<Rightarrow> addr list \<Rightarrow> addr list \<Rightarrow> nat \<Rightarrow> 'a list \<Rightarrow> bool" where
  "store_rep H bs fs rs h xs \<longleftrightarrow>
     (\<forall>k<length bs. \<exists>b. H (bs ! k) = Some b \<and> block_rep b (h div 31 + k) h xs \<and> vnext b = next_ptr bs k) \<and>
     (\<forall>k<length rs. \<exists>b. H (rs ! k) = Some b \<and> spent b \<and> vnext b = next_ptr rs k) \<and>
     (\<forall>p\<in>set fs. \<exists>b. H p = Some b \<and> unused b) \<and>
     distinct (bs @ fs @ rs) \<and> dom H = set (bs @ fs @ rs)"

definition core_rep :: "'a vec \<Rightarrow> addr list \<Rightarrow> addr list \<Rightarrow> nat \<Rightarrow> 'a list \<Rightarrow> bool" where
  "core_rep v bs rs h xs \<longleftrightarrow>
     (let t = h + length xs in
      head_index v div 2 = phys h \<and> (odd (head_index v) \<longrightarrow> h div 31 < t div 31) \<and> tail_index v = 2 * phys t \<and>
      length bs = t div 31 - h div 31 + 1 \<and> head_block v = Some (bs ! 0) \<and> tail_block v = Some (last bs) \<and>
      store_rep (vheap v) bs (free_list v) rs h xs \<and> (\<forall>p\<in>dom (vheap v). p < vfresh v) \<and>
      length (cache v) = 32 \<and>
      (\<forall>k<length bs. block_array_get (cache v) (h div 31 + k) \<in> {None, Some (bs ! k)}) \<and>
      length (free_list v) \<le> POOL_CAP)"

definition vec_rep :: "'a vec \<Rightarrow> addr list \<Rightarrow> addr list \<Rightarrow> nat \<Rightarrow> 'a list \<Rightarrow> bool" where
  "vec_rep v bs rs h xs \<longleftrightarrow> core_rep v bs rs h xs \<and> retired v = first_ptr rs \<and> retired_count v = length rs"

section \<open>Blocks\<close>

lemma unused_new: "unused block_new"
  by (simp add: unused_def block_new_def BLOCK_CAP_def)

lemma unused_reset: "length (vslots b) = 32 \<Longrightarrow> unused (block_reset b)"
  by (simp add: unused_def block_reset_def)

lemma unused_block_rep:
  assumes "unused b" "h + length xs \<le> 31 * k" "k = h div 31 \<Longrightarrow> h mod 31 = 0"
  shows "block_rep b k h xs"
  using assms by (auto simp: block_rep_def unused_def slot_state_def)

lemma block_rep_next [simp]: "block_rep (b\<lparr>vnext := n\<rparr>) k h xs = block_rep b k h xs"
  by (simp add: block_rep_def)

lemma spent_next [simp]: "spent (b\<lparr>vnext := n\<rparr>) = spent b"
  by (simp add: spent_def)

text \<open>Appending an element touches one slot of its own block only.\<close>

lemma block_rep_push_other:
  assumes "block_rep b k h xs" "k \<noteq> (h + length xs) div 31"
  shows "block_rep b k h (xs @ [x])"
proof -
  let ?t = "h + length xs"
  have ne: "31 * k + i \<noteq> ?t" if "i < 31" for i
  proof
    assume "31 * k + i = ?t"
    then have "?t div 31 = k" using that by (simp flip: \<open>31 * k + i = ?t\<close>)
    with assms(2) show False by simp
  qed
  have st: "slot_state h (h + length (xs @ [x])) (31 * k + i) = slot_state h ?t (31 * k + i)" if "i < 31" for i
    using ne[OF that] by (simp add: slot_state_def)
  have "(xs @ [x]) ! (31 * k + i - h) = xs ! (31 * k + i - h)" if "31 * k + i < ?t" "h \<le> 31 * k + i" for i
  proof -
    have "31 * k + i - h < length xs" using that by linarith
    then show ?thesis by (simp add: nth_append)
  qed
  with assms(1) st ne show ?thesis unfolding block_rep_def
    by (simp add: less_Suc_eq)
qed

lemma block_rep_push_here:
  assumes "block_rep b k h xs" "k = (h + length xs) div 31"
  shows "block_rep (b\<lparr>vslots := (vslots b)[(h + length xs) mod 31 := \<lparr>vstate = SLOT_WRITE, vvalue = Some x\<rparr>]\<rparr>) k h (xs @ [x])"
proof -
  let ?t = "h + length xs" let ?i = "(h + length xs) mod 31"
  have t: "31 * k + ?i = ?t" "?i < 31" using assms(2) mod_31_bound(2)[of ?t] by simp_all
  have eq: "31 * k + i = ?t \<longleftrightarrow> i = ?i" for i using t by linarith
  have len: "length (vslots b) = 32" using assms(1) by (simp add: block_rep_def)
  have st: "slot_state h (h + length (xs @ [x])) (31 * k + i) =
      (if i = ?i then SLOT_WRITE else slot_state h ?t (31 * k + i))" for i
    using eq[of i] t by (auto simp: slot_state_def)
  have val: "(xs @ [x]) ! (31 * k + i - h) = (if i = ?i then x else xs ! (31 * k + i - h))"
    if "h \<le> 31 * k + i" "31 * k + i < Suc ?t" for i
    using that eq[of i] by (auto simp: nth_append)
  have "i \<noteq> ?i \<Longrightarrow> 31 * k + i < Suc ?t \<longleftrightarrow> 31 * k + i < ?t" for i using eq[of i] by linarith
  with assms(1) len t(2) st val show ?thesis unfolding block_rep_def
    by (simp add: nth_list_update)
qed

text \<open>Removing the first element touches one slot and the counter of the head block.\<close>

lemma block_rep_pop_other:
  assumes b: "block_rep b k h (x # xs)" and k: "h div 31 < k"
  shows "block_rep b k (Suc h) xs"
proof -
  have "h < k * 31" using k by (simp add: div_less_iff_less_mult)
  then have le: "Suc h \<le> 31 * k + i" for i by linarith
  have st: "slot_state (Suc h) (Suc h + length xs) (31 * k + i) = slot_state h (h + length (x # xs)) (31 * k + i)" for i
    using le[of i] by (simp add: slot_state_def)
  have val: "(x # xs) ! (31 * k + i - h) = xs ! (31 * k + i - Suc h)" for i
  proof -
    have "31 * k + i - h = Suc (31 * k + i - Suc h)" using le[of i] by linarith
    then show ?thesis by simp
  qed
  have c: "(if k = Suc h div 31 then Suc h mod 31 else 0) = (if k = h div 31 then h mod 31 else 0)"
    using k Suc_div_31(1)[of h] Suc_div_31(4)[of h] by (cases "h mod 31 = 30") auto
  have v: "vvalue (vslots b ! i) = Some (xs ! (31 * k + i - Suc h))"
    if i: "i < 31" "31 * k + i < Suc h + length xs" for i
  proof -
    have "h \<le> 31 * k + i \<and> 31 * k + i < h + length (x # xs)" using le[of i] i(2) by simp
    moreover have "h \<le> 31 * k + i \<and> 31 * k + i < h + length (x # xs) \<longrightarrow> vvalue (vslots b ! i) = Some ((x # xs) ! (31 * k + i - h))"
      using b i(1) unfolding block_rep_def by blast
    ultimately show ?thesis unfolding val by blast
  qed
  have s: "\<forall>i<31. vstate (vslots b ! i) = slot_state (Suc h) (Suc h + length xs) (31 * k + i)"
    unfolding st using b unfolding block_rep_def by blast
  have "length (vslots b) = 32" "vstate (vslots b ! 31) = 0" "vcounters b = (if k = Suc h div 31 then Suc h mod 31 else 0)"
    unfolding c using b unfolding block_rep_def by blast+
  with v s show ?thesis unfolding block_rep_def by blast
qed

lemma block_rep_pop_here:
  assumes b: "block_rep b (h div 31) h (x # xs)" and h: "h mod 31 \<noteq> 30"
  shows "block_rep (b\<lparr>vslots := (vslots b)[h mod 31 := sl\<lparr>vstate := SLOT_READ\<rparr>], vcounters := h mod 31 + 1\<rparr>) (h div 31) (Suc h) xs"
    (is "block_rep ?b ?k _ _")
proof -
  let ?i = "h mod 31"
  have hi: "31 * ?k + ?i = h" "?i < 31" using mod_31_bound(2)[of h] by simp_all
  have eq: "31 * ?k + i = h \<longleftrightarrow> i = ?i" for i using hi by linarith
  have len: "length (vslots b) = 32" using b by (simp add: block_rep_def)
  have nth: "vslots ?b ! i = (if i = ?i then sl\<lparr>vstate := SLOT_READ\<rparr> else vslots b ! i)" for i
    using len hi(2) by (simp add: nth_list_update)
  have st: "vstate (vslots ?b ! i) = slot_state (Suc h) (Suc h + length xs) (31 * ?k + i)" if "i < 31" for i
  proof -
    have "vstate (vslots b ! i) = slot_state h (h + length (x # xs)) (31 * ?k + i)" using b that unfolding block_rep_def by blast
    moreover have "slot_state (Suc h) (Suc h + length xs) (31 * ?k + i) =
        (if i = ?i then SLOT_READ else slot_state h (h + length (x # xs)) (31 * ?k + i))"
      using eq[of i] by (auto simp: slot_state_def)
    ultimately show ?thesis unfolding nth by simp
  qed
  have v: "vvalue (vslots ?b ! i) = Some (xs ! (31 * ?k + i - Suc h))"
    if i: "i < 31" "Suc h \<le> 31 * ?k + i" "31 * ?k + i < Suc h + length xs" for i
  proof -
    have "h \<le> 31 * ?k + i \<and> 31 * ?k + i < h + length (x # xs)" using i by simp
    then have "vvalue (vslots b ! i) = Some ((x # xs) ! (31 * ?k + i - h))" using b i(1) unfolding block_rep_def by blast
    moreover have "31 * ?k + i - h = Suc (31 * ?k + i - Suc h)" using i(2) by linarith
    moreover have "i \<noteq> ?i" using eq[of i] i(2) by linarith
    ultimately show ?thesis unfolding nth by simp
  qed
  have "length (vslots ?b) = 32" "vstate (vslots ?b ! 31) = 0"
    using b hi(2) unfolding nth by (auto simp: block_rep_def)
  moreover have "vcounters ?b = (if ?k = Suc h div 31 then Suc h mod 31 else 0)" using Suc_div_31[of h] h by simp
  ultimately show ?thesis using st v unfolding block_rep_def by blast
qed

lemma block_rep_spent:
  assumes b: "block_rep b (h div 31) h xs" and h: "h mod 31 = 30"
  shows "spent (b\<lparr>vslots := (vslots b)[h mod 31 := sl\<lparr>vstate := SLOT_READ\<rparr>], vcounters := n, vnext := p\<rparr>)"
proof -
  have hk: "h = 31 * (h div 31) + 30" using h mult_div_mod_eq[of 31 h] by simp
  have "vstate (vslots b ! i) = SLOT_READ" if "i < 31" "i \<noteq> 30" for i
  proof -
    have "31 * (h div 31) + i < h" using hk that by linarith
    then show ?thesis using b that(1) unfolding block_rep_def slot_state_def by auto
  qed
  then show ?thesis using b h by (auto simp: spent_def block_rep_def nth_list_update)
qed

lemma block_rep_first:
  assumes b: "block_rep b (h div 31) h (x # xs)"
  shows "slot_written (vslots b ! (h mod 31))" "vvalue (vslots b ! (h mod 31)) = Some x"
proof -
  let ?i = "h mod 31"
  have hi: "31 * (h div 31) + ?i = h" "?i < 31" using mod_31_bound(2)[of h] by simp_all
  have "vstate (vslots b ! ?i) = slot_state h (h + length (x # xs)) (31 * (h div 31) + ?i)"
    using b hi(2) unfolding block_rep_def by blast
  then show "slot_written (vslots b ! ?i)" unfolding hi by (simp add: slot_state_def slot_written_def SLOT_WRITE_def)
  have "h \<le> 31 * (h div 31) + ?i \<and> 31 * (h div 31) + ?i < h + length (x # xs) \<longrightarrow>
      vvalue (vslots b ! ?i) = Some ((x # xs) ! (31 * (h div 31) + ?i - h))"
    using b hi(2) unfolding block_rep_def by blast
  then show "vvalue (vslots b ! ?i) = Some x" unfolding hi by simp
qed

section \<open>The store\<close>

lemma store_bs:
  "store_rep H bs fs rs h xs \<Longrightarrow> k < length bs \<Longrightarrow>
   \<exists>b. H (bs ! k) = Some b \<and> block_rep b (h div 31 + k) h xs \<and> vnext b = next_ptr bs k"
  by (simp add: store_rep_def)

lemma store_rs:
  "store_rep H bs fs rs h xs \<Longrightarrow> k < length rs \<Longrightarrow>
   \<exists>b. H (rs ! k) = Some b \<and> spent b \<and> vnext b = next_ptr rs k"
  by (simp add: store_rep_def)

lemma store_fs: "store_rep H bs fs rs h xs \<Longrightarrow> p \<in> set fs \<Longrightarrow> \<exists>b. H p = Some b \<and> unused b"
  by (simp add: store_rep_def)

lemma store_dom: "store_rep H bs fs rs h xs \<Longrightarrow> dom H = set (bs @ fs @ rs)" "store_rep H bs fs rs h xs \<Longrightarrow> distinct (bs @ fs @ rs)"
  by (simp_all add: store_rep_def)

lemma store_nth_eq:
  "store_rep H bs fs rs h xs \<Longrightarrow> k < length bs \<Longrightarrow> j < length bs \<Longrightarrow> bs ! k = bs ! j \<longleftrightarrow> k = j"
  by (auto dest!: store_dom(2) simp: nth_eq_iff_index_eq)

lemma store_apart:
  assumes "store_rep H bs fs rs h xs"
  shows "p \<in> set fs \<Longrightarrow> p \<notin> set bs" "p \<in> set rs \<Longrightarrow> p \<notin> set bs" "p \<in> set rs \<Longrightarrow> p \<notin> set fs"
  using store_dom(2)[OF assms] by auto

lemma chain_last:
  assumes "length bs = (h + n) div 31 - h div 31 + 1"
  shows "last bs = bs ! (length bs - 1)" "length bs - 1 < length bs" "h div 31 + (length bs - 1) = (h + n) div 31"
    "last bs \<in> set bs"
proof -
  have "bs \<noteq> []" using assms by auto
  then show "last bs = bs ! (length bs - 1)" "length bs - 1 < length bs" "last bs \<in> set bs" by (simp_all add: last_conv_nth)
  show "h div 31 + (length bs - 1) = (h + n) div 31" using assms by (simp add: div_le_mono)
qed

text \<open>The last block of the chain is the block of the next push.\<close>

lemma store_push:
  assumes st: "store_rep H bs fs rs h xs" and len: "length bs = (h + length xs) div 31 - h div 31 + 1"
    and b: "H (last bs) = Some b"
    and b': "b' = b\<lparr>vslots := (vslots b)[(h + length xs) mod 31 := \<lparr>vstate = SLOT_WRITE, vvalue = Some x\<rparr>]\<rparr>"
  shows "store_rep (H(last bs \<mapsto> b')) bs fs rs h (xs @ [x])"
proof -
  let ?n = "length bs - 1"
  note l = chain_last[OF len]
  have "\<exists>c. (H(last bs \<mapsto> b')) (bs ! k) = Some c \<and> block_rep c (h div 31 + k) h (xs @ [x]) \<and> vnext c = next_ptr bs k"
    if k: "k < length bs" for k
  proof (cases "k = ?n")
    case True
    with store_bs[OF st k] b l have "block_rep b ((h + length xs) div 31) h xs" "vnext b = next_ptr bs k" by auto
    with block_rep_push_here[OF this(1) refl, of x] l True show ?thesis by (simp add: b')
  next
    case False
    then have "bs ! k \<noteq> last bs" "h div 31 + k \<noteq> (h + length xs) div 31" using store_nth_eq[OF st k l(2)] l by auto
    with store_bs[OF st k] block_rep_push_other[of _ "h div 31 + k" h xs x] show ?thesis by auto
  qed
  moreover have "p \<in> set fs \<union> set rs \<Longrightarrow> p \<noteq> last bs" for p
    using store_apart[OF st] l(4) by force
  ultimately show ?thesis using st b l(4) unfolding store_rep_def by (auto simp: fun_upd_apply)
qed

lemma store_push_last:
  assumes st: "store_rep H bs (nx # fs) rs h xs" and len: "length bs = (h + length xs) div 31 - h div 31 + 1"
    and full: "(h + length xs) mod 31 = 30" and b: "H (last bs) = Some b"
    and b': "b' = b\<lparr>vnext := Some nx, vslots := (vslots b)[(h + length xs) mod 31 := \<lparr>vstate = SLOT_WRITE, vvalue = Some x\<rparr>]\<rparr>"
  shows "store_rep (H(last bs \<mapsto> b')) (bs @ [nx]) fs rs h (xs @ [x])"
proof -
  let ?n = "length bs - 1" let ?t = "h + length xs"
  have le: "h div 31 \<le> ?t div 31" by (simp add: div_le_mono)
  note l = chain_last[OF len]
  have nx: "nx \<noteq> last bs" using store_apart(1)[OF st, of nx] l(4) by auto
  obtain nb where nb: "H nx = Some nb" "unused nb" using store_fs[OF st, of nx] by auto
  have "\<exists>c. (H(last bs \<mapsto> b')) ((bs @ [nx]) ! k) = Some c \<and> block_rep c (h div 31 + k) h (xs @ [x]) \<and> vnext c = next_ptr (bs @ [nx]) k"
    if k: "k < length (bs @ [nx])" for k
  proof -
    consider "k = length bs" | "k = ?n" | "k < ?n" using k l(2) by fastforce
    then show ?thesis
    proof cases
      case 1
      have "31 * (h div 31 + length bs) = Suc ?t" using len full le mult_div_mod_eq[of 31 ?t] by simp
      then have "block_rep nb (h div 31 + k) h (xs @ [x])"
        using 1 len by (intro unused_block_rep[OF nb(2)]) simp_all
      with 1 nb nx show ?thesis by (simp add: next_ptr_def unused_def)
    next
      case 2
      with store_bs[OF st l(2)] b l have "block_rep b (?t div 31) h xs" by auto
      from block_rep_push_here[OF this refl, of x] have "block_rep b' (?t div 31) h (xs @ [x])" by (simp add: b' block_rep_def)
      moreover have "Suc ?n = length bs" using l(2) by simp
      then have "(bs @ [nx]) ! ?n = last bs" "vnext b' = next_ptr (bs @ [nx]) ?n"
        using l(1,2) by (simp_all only: nth_append next_ptr_def b' Suc_eq_plus1[symmetric]) simp_all
      ultimately show ?thesis using 2 l(3) by simp
    next
      case 3
      then have k: "k < length bs" "k \<noteq> ?n" by simp_all
      then have "bs ! k \<noteq> last bs" "h div 31 + k \<noteq> ?t div 31" using store_nth_eq[OF st k(1) l(2)] l by auto
      with store_bs[OF st k(1)] block_rep_push_other[of _ "h div 31 + k" h xs x] 3 show ?thesis
        by (auto simp: nth_append next_ptr_def)
    qed
  qed
  moreover have "p \<in> set fs \<union> set rs \<Longrightarrow> p \<noteq> last bs" for p
    using store_apart[OF st] l(4) by force
  ultimately show ?thesis using st b l(4) unfolding store_rep_def by (auto simp: fun_upd_apply)
qed

lemma store_pop:
  assumes st: "store_rep H bs fs rs h (x # xs)" and bs: "bs \<noteq> []" and h: "h mod 31 \<noteq> 30" and b: "H (bs ! 0) = Some b"
    and b': "b' = b\<lparr>vslots := (vslots b)[h mod 31 := sl\<lparr>vstate := SLOT_READ\<rparr>], vcounters := h mod 31 + 1\<rparr>"
  shows "store_rep (H(bs ! 0 \<mapsto> b')) bs fs rs (Suc h) xs"
proof -
  have z: "0 < length bs" "bs ! 0 \<in> set bs" using bs by simp_all
  have "\<exists>c. (H(bs ! 0 \<mapsto> b')) (bs ! k) = Some c \<and> block_rep c (Suc h div 31 + k) (Suc h) xs \<and> vnext c = next_ptr bs k"
    if k: "k < length bs" for k
  proof (cases "k = 0")
    case True
    with store_bs[OF st k] b have "block_rep b (h div 31) h (x # xs)" "vnext b = next_ptr bs 0" by auto
    with block_rep_pop_here[OF this(1) h, of sl] True show ?thesis by (simp add: b' Suc_div_31(1)[OF h])
  next
    case False
    then have "bs ! k \<noteq> bs ! 0" using store_nth_eq[OF st k z(1)] by simp
    with store_bs[OF st k] block_rep_pop_other[of _ "h div 31 + k" h x xs] False show ?thesis
      by (auto simp: Suc_div_31(1)[OF h])
  qed
  moreover have "p \<in> set fs \<union> set rs \<Longrightarrow> p \<noteq> bs ! 0" for p using store_apart[OF st] z(2) by force
  ultimately show ?thesis using st z(2) unfolding store_rep_def by (auto simp: fun_upd_apply)
qed

lemma store_pop_last:
  assumes st: "store_rep H bs fs rs h (x # xs)" and bs: "1 < length bs" and h: "h mod 31 = 30" and b: "H (bs ! 0) = Some b"
    and b': "b' = b\<lparr>vslots := (vslots b)[h mod 31 := sl\<lparr>vstate := SLOT_READ\<rparr>], vcounters := n, vnext := first_ptr rs\<rparr>"
  shows "store_rep (H(bs ! 0 \<mapsto> b')) (tl bs) fs (bs ! 0 # rs) (Suc h) xs"
proof -
  obtain p ps where ps: "bs = p # ps" using bs by (cases bs) auto
  have dis: "distinct (p # ps @ fs @ rs)" "dom H = set (p # ps @ fs @ rs)" using store_dom[OF st] by (auto simp: ps)
  have "\<exists>c. (H(p \<mapsto> b')) (ps ! k) = Some c \<and> block_rep c (Suc h div 31 + k) (Suc h) xs \<and> vnext c = next_ptr ps k"
    if k: "k < length ps" for k
  proof -
    have "ps ! k \<noteq> p" using dis(1) k by (auto simp: in_set_conv_nth)
    moreover have "Suc k < length bs" using k by (simp add: ps)
    ultimately show ?thesis
      using store_bs[OF st, of "Suc k"] block_rep_pop_other[of _ "h div 31 + Suc k" h x xs]
      by (auto simp: Suc_div_31(3)[OF h] ps next_ptr_def)
  qed
  moreover have "\<exists>c. (H(p \<mapsto> b')) ((p # rs) ! k) = Some c \<and> spent c \<and> vnext c = next_ptr (p # rs) k"
    if k: "k < length (p # rs)" for k
  proof (cases k)
    case 0
    have "block_rep b (h div 31) h (x # xs)" using store_bs[OF st, of 0] b by (auto simp: ps)
    from block_rep_spent[OF this h, where sl = sl and n = n and p = "first_ptr rs"] 0 show ?thesis
      by (cases rs) (auto simp: b' next_ptr_def)
  next
    case (Suc j)
    then have "rs ! j \<noteq> p" using dis(1) k by (auto simp: in_set_conv_nth)
    with store_rs[OF st, of j] Suc k show ?thesis by (auto simp: next_ptr_def)
  qed
  moreover have "\<exists>c. (H(p \<mapsto> b')) q = Some c \<and> unused c" if "q \<in> set fs" for q
    using that dis(1) store_fs[OF st that] by auto
  moreover have "distinct (ps @ fs @ p # rs)" "dom (H(p \<mapsto> b')) = set (ps @ fs @ p # rs)" using dis by auto
  ultimately show ?thesis unfolding store_rep_def ps by simp
qed

text \<open>The first retired block goes back to the pool or to the allocator.\<close>

lemma store_recycle:
  assumes st: "store_rep H bs fs (r # rs) h xs" and b: "H r = Some b"
  shows "store_rep (H(r \<mapsto> block_reset b)) bs (fs @ [r]) rs h xs" "store_rep (H(r := None)) bs fs rs h xs"
proof -
  have dis: "distinct (bs @ fs @ r # rs)" "dom H = set (bs @ fs @ r # rs)" using store_dom[OF st] by auto
  have u: "unused (block_reset b)" using store_rs[OF st, of 0] b by (auto simp: spent_def intro: unused_reset)
  have nb: "bs ! k \<noteq> r" if "k < length bs" for k using dis(1) that by (auto simp: in_set_conv_nth)
  have nr: "rs ! k \<noteq> r" if "k < length rs" for k using dis(1) that by (auto simp: in_set_conv_nth)
  have R: "\<exists>c. H (rs ! k) = Some c \<and> spent c \<and> vnext c = next_ptr rs k" if "k < length rs" for k
    using store_rs[OF st, of "Suc k"] that by (auto simp: next_ptr_def)
  show "store_rep (H(r \<mapsto> block_reset b)) bs (fs @ [r]) rs h xs"
    unfolding store_rep_def using store_bs[OF st] store_fs[OF st] R dis u nb nr by auto
  have "dom (H(r := None)) = set (bs @ fs @ rs)" using dis by auto
  then show "store_rep (H(r := None)) bs fs rs h xs"
    unfolding store_rep_def using store_bs[OF st] store_fs[OF st] R dis(1) nb nr by auto
qed

section \<open>The operations\<close>

lemma reclaim_loop_rep:
  assumes "core_rep v bs rs h xs"
  shows "\<exists>w. reclaim_loop v (first_ptr rs) = Some w \<and> core_rep w bs [] h xs \<and>
    retired w = retired v \<and> retired_count w = retired_count v"
  using assms
proof (induction rs arbitrary: v)
  case Nil
  then show ?case by (subst reclaim_loop.simps) auto
next
  case (Cons r rs)
  note c = Cons.prems[unfolded core_rep_def Let_def]
  have st: "store_rep (vheap v) bs (free_list v) (r # rs) h xs" using c by blast
  obtain b where b: "vheap v r = Some b" "vnext b = first_ptr rs"
    using store_rs[OF st, of 0] by (cases rs) (auto simp: next_ptr_def)
  let ?w = "if length (free_list v) = POOL_CAP then dealloc_block v r
    else v\<lparr>vheap := (vheap v)(r \<mapsto> block_reset b), free_list := free_list v @ [r]\<rparr>"
  have "core_rep ?w bs rs h xs"
    using c store_recycle[OF st b(1)] b(1) by (auto simp: core_rep_def Let_def dealloc_block_def)
  moreover have "retired ?w = retired v" "retired_count ?w = retired_count v" by (simp_all add: dealloc_block_def)
  moreover have "reclaim_loop v (first_ptr (r # rs)) = reclaim_loop ?w (first_ptr rs)"
    using b c by (subst reclaim_loop.simps) (auto simp: pool_push_def)
  ultimately show ?case using Cons.IH[of ?w] by simp
qed

lemma reclaim_retired_rep:
  assumes "vec_rep v bs rs h xs"
  shows "\<exists>w. reclaim_retired v = Some w \<and> vec_rep w bs [] h xs"
proof -
  let ?v = "v\<lparr>retired := None, retired_count := 0\<rparr>"
  have "core_rep ?v bs rs h xs" "retired v = first_ptr rs" using assms by (auto simp: vec_rep_def core_rep_def)
  with reclaim_loop_rep[of ?v bs rs h xs] show ?thesis by (auto simp: reclaim_retired_def vec_rep_def)
qed

lemma try_reclaim_rep:
  assumes "vec_rep v bs rs h xs"
  shows "\<exists>w. try_reclaim v = Some w \<and> vec_rep w bs [] h xs"
proof (cases "retired_count v = 0")
  case True
  with assms have "rs = []" by (simp add: vec_rep_def)
  with assms True show ?thesis by (simp add: try_reclaim_def)
qed (use reclaim_retired_rep[OF assms] in \<open>simp add: try_reclaim_def\<close>)

lemma acquire_rep:
  assumes "store_rep (vheap v) bs (free_list v) rs h xs" "\<forall>p\<in>dom (vheap v). p < vfresh v"
  shows "\<exists>nx w. acquire_block v = (nx, w) \<and> store_rep (vheap w) bs (nx # free_list w) rs h xs \<and>
    (\<forall>p\<in>dom (vheap w). p < vfresh w) \<and> length (free_list w) \<le> length (free_list v) \<and>
    w = v\<lparr>vheap := vheap w, vfresh := vfresh w, free_list := free_list w\<rparr>"
proof (cases "free_list v")
  case Nil
  let ?w = "v\<lparr>vheap := (vheap v)(vfresh v \<mapsto> block_new), vfresh := vfresh v + 1\<rparr>"
  have f: "vfresh v \<notin> dom (vheap v)" using assms(2) by blast
  then have nf: "vfresh v \<notin> set bs" "vfresh v \<notin> set rs" using store_dom(1)[OF assms(1)] by auto
  have ne: "k < length bs \<Longrightarrow> bs ! k \<noteq> vfresh v" "k < length rs \<Longrightarrow> rs ! k \<noteq> vfresh v" for k
    using nf by (metis nth_mem)+
  have "store_rep (vheap ?w) bs [vfresh v] rs h xs"
    unfolding store_rep_def
    using store_bs[OF assms(1)] store_rs[OF assms(1)] store_dom[OF assms(1)] nf ne unused_new Nil
    by auto
  moreover have "\<forall>p\<in>dom (vheap ?w). p < vfresh ?w" using assms(2) by (auto intro: less_SucI)
  ultimately show ?thesis using Nil by (auto simp: acquire_block_def new_block_def)
next
  case (Cons p ps)
  with assms show ?thesis by (auto simp: acquire_block_def)
qed

lemma block_array_get_set:
  "length es = 32 \<Longrightarrow> block_array_get (block_array_set es i p) j =
     (if i = j then p else if i mod 32 = j mod 32 then None else block_array_get es j)"
  by (auto simp: block_array_get_def block_array_set_def BLOCK_CAP_def Let_def)

lemma length_block_array_set [simp]: "length (block_array_set es i p) = length es"
  by (simp add: block_array_set_def)

lemma tail_arith:
  assumes "tail_index v = 2 * phys t"
  shows "tail_index v div 2 mod BLOCK_CAP = t mod 31" "t mod 31 = 30 \<Longrightarrow> (tail_index v + 2) div 2 div BLOCK_CAP = t div 31"
proof -
  show "tail_index v div 2 mod BLOCK_CAP = t mod 31" using assms by (simp add: BLOCK_CAP_def)
  assume t: "t mod 31 = 30"
  have "(tail_index v + 2) div 2 = phys t + 1" using assms by simp
  also have "\<dots> = 32 * (t div 31) + 31" using t by (simp add: phys_def)
  finally show "(tail_index v + 2) div 2 div BLOCK_CAP = t div 31" by (simp add: BLOCK_CAP_def)
qed

lemma push_rep:
  assumes rep: "vec_rep v bs rs h xs"
  shows "\<exists>w bs'. push_internal v x = Some w \<and> vec_rep w bs' rs h (xs @ [x])"
proof -
  let ?t = "h + length xs" let ?o = "(h + length xs) mod 31"
  note c = rep[unfolded vec_rep_def core_rep_def Let_def]
  have st: "store_rep (vheap v) bs (free_list v) rs h xs" and len: "length bs = ?t div 31 - h div 31 + 1"
    and tb: "tail_block v = Some (last bs)" and ti: "tail_index v = 2 * phys ?t" and cl: "length (cache v) = 32"
    using c by blast+
  note l = chain_last[OF len]
  obtain b where b: "vheap v (last bs) = Some b" using store_bs[OF st l(2)] l(1) by auto
  have o: "?o \<noteq> 31" "tail_index v div 2 mod BLOCK_CAP = ?o" using mod_31_bound(1) tail_arith(1)[OF ti] by blast+
  show ?thesis
  proof (cases "?o = 30")
    case False
    let ?b = "b\<lparr>vslots := (vslots b)[?o := \<lparr>vstate = SLOT_WRITE, vvalue = Some x\<rparr>]\<rparr>"
    let ?w = "v\<lparr>tail_index := tail_index v + 2, vheap := (vheap v)(last bs \<mapsto> ?b)\<rparr>"
    have "push_internal v x = Some ?w" using tb o b False
      by (simp add: push_internal_def write_slot_def BLOCK_CAP_def Let_def)
    moreover have "vec_rep ?w bs rs h (xs @ [x])"
      using c store_push[OF st len b refl, of x] b Suc_div_31(1)[OF False] phys_Suc[of ?t] False
      by (auto simp: vec_rep_def core_rep_def Let_def)
    ultimately show ?thesis by blast
  next
    case True
    let ?v = "v\<lparr>tail_index := tail_index v + 2\<rparr>"
    obtain nx w where w: "acquire_block ?v = (nx, w)" "store_rep (vheap w) bs (nx # free_list w) rs h xs"
      "\<forall>p\<in>dom (vheap w). p < vfresh w" "length (free_list w) \<le> length (free_list v)"
      "w = ?v\<lparr>vheap := vheap w, vfresh := vfresh w, free_list := free_list w\<rparr>"
      using acquire_rep[of ?v bs rs h xs] st c by auto
    obtain d where d: "vheap w (last bs) = Some d" using store_bs[OF w(2) l(2)] l(1) by auto
    let ?d = "d\<lparr>vnext := Some nx, vslots := (vslots d)[?o := \<lparr>vstate = SLOT_WRITE, vvalue = Some x\<rparr>]\<rparr>"
    let ?u = "w\<lparr>vheap := (vheap w)(last bs \<mapsto> ?d), cache := block_array_set (cache w) (?t div 31 + 1) (Some nx),
        tail_block := Some nx, tail_index := tail_index v + 4\<rparr>"
    have same: "cache w = cache v" "retired w = retired v" "retired_count w = retired_count v" "head_index w = head_index v"
      "head_block w = head_block v"
      by (subst w(5); simp)+
    have push: "push_internal v x = Some ?u"
      using tb o w(1) d True tail_arith(2)[OF ti True]
      by (simp add: push_internal_def install_next_def write_slot_def BLOCK_CAP_def Let_def)
    have "store_rep (vheap ?u) (bs @ [nx]) (free_list ?u) rs h (xs @ [x])"
      using store_push_last[OF w(2) len True d refl, of x] by simp
    moreover have "block_array_get (cache ?u) (h div 31 + k) \<in> {None, Some ((bs @ [nx]) ! k)}" if k: "k < length (bs @ [nx])" for k
    proof (cases "k = length bs")
      case True
      then have "h div 31 + k = ?t div 31 + 1" using l(2,3) by linarith
      with True cl show ?thesis by (simp add: same block_array_get_set)
    next
      case False
      with k have "k < length bs" by simp
      with c have "block_array_get (cache v) (h div 31 + k) \<in> {None, Some (bs ! k)}" by blast
      moreover have "h div 31 + k \<noteq> ?t div 31 + 1" using \<open>k < length bs\<close> l(3) by linarith
      ultimately show ?thesis using cl \<open>k < length bs\<close> by (auto simp: same block_array_get_set nth_append)
    qed
    moreover have "\<forall>p\<in>dom (vheap ?u). p < vfresh ?u" using w(3) d by auto
    ultimately have "vec_rep ?u (bs @ [nx]) rs h (xs @ [x])"
      using c w(4) Suc_div_31(3)[OF True] phys_Suc[of ?t] True cl len l(2) same
      by (auto simp: vec_rep_def core_rep_def Let_def nth_append Suc_diff_le div_le_mono)
    with push show ?thesis by blast
  qed
qed

lemma pop_rep_empty:
  assumes rep: "vec_rep v bs rs h []"
  shows "pop_raw v = Some ((None, False), v)"
proof -
  note c = rep[unfolded vec_rep_def core_rep_def Let_def]
  have "even (head_index v)" "head_index v div 2 = phys h" "tail_index v div 2 = phys h" "head_block v = Some (bs ! 0)"
    using c by auto
  then show ?thesis using mod_31_bound(1)[of h]
    by (simp add: pop_raw_def Let_def BLOCK_CAP_def even_iff_mod_2_eq_zero)
qed

text \<open>The new head index of a pop, before a block is left.\<close>

lemma head_arith:
  fixes hi :: nat
  assumes "hi div 2 = phys h" "d = (if (hi + 2) mod 2 = 0 \<and> e then hi + 2 + 1 else hi + 2)"
  shows "d div 2 = phys h + 1" "odd d \<longleftrightarrow> odd hi \<or> e" "d - d mod 2 = 2 * phys h + 2" "hi div 2 mod BLOCK_CAP = h mod 31"
proof -
  have hi: "hi = 2 * phys h + hi mod 2" using assms(1) mult_div_mod_eq[of 2 hi] by simp
  then show "d div 2 = phys h + 1" "odd d \<longleftrightarrow> odd hi \<or> e" "d - d mod 2 = 2 * phys h + 2"
    unfolding assms(2) by (cases "hi mod 2 = 0"; auto; presburger)+
  show "hi div 2 mod BLOCK_CAP = h mod 31" using assms(1) by (simp add: BLOCK_CAP_def)
qed

lemma pop_rep_first:
  assumes rep: "vec_rep v bs rs h (x # xs)"
  shows "\<exists>w bs' rs' r. pop_raw v = Some ((Some x, r), w) \<and> vec_rep w bs' rs' (Suc h) xs \<and>
    length rs' + h div 31 = length rs + Suc h div 31"
proof -
  let ?t = "h + length (x # xs)"
  note c = rep[unfolded vec_rep_def core_rep_def Let_def]
  have st: "store_rep (vheap v) bs (free_list v) rs h (x # xs)" and len: "length bs = ?t div 31 - h div 31 + 1"
    and hb: "head_block v = Some (bs ! 0)" and hi: "head_index v div 2 = phys h" and ti: "tail_index v = 2 * phys ?t"
    using c by blast+
  have bs: "bs \<noteq> []" "0 < length bs" using len by auto
  obtain b where b: "vheap v (bs ! 0) = Some b" "block_rep b (h div 31) h (x # xs)" "vnext b = next_ptr bs 0"
    using store_bs[OF st bs(2)] by auto
  let ?e = "h div 31 \<noteq> ?t div 31"
  define d where "d = (if (head_index v + 2) mod 2 = 0 \<and> ?e then head_index v + 2 + 1 else head_index v + 2)"
  note d = head_arith[OF hi d_def]
  have odd: "odd d \<Longrightarrow> h div 31 < ?t div 31" using d(2) c div_le_mono[of h ?t 31] by auto
  have ne: "phys h \<noteq> phys ?t" by (simp add: phys_inj)
  have fields: "vcounters b = h mod 31" "vvalue (vslots b ! (h mod 31)) = Some x" "slot_written (vslots b ! (h mod 31))"
    using b(2) block_rep_first[OF b(2)] by (auto simp: block_rep_def)
  have pop: "pop_raw v =
      (case (if h mod 31 + 1 = BLOCK_CAP - 1 then advance_head (v\<lparr>head_index := d\<rparr>) (bs ! 0) d else Some (v\<lparr>head_index := d\<rparr>)) of
         None \<Rightarrow> None | Some u \<Rightarrow> read_slot u (bs ! 0) (h mod 31))"
    using hb hi ti ne mod_31_bound(1)[of h] phys_div[of h] phys_div[of ?t] unfolding pop_raw_def Let_def d(4) d_def
    by (simp add: BLOCK_CAP_def)
  show ?thesis
  proof (cases "h mod 31 = 30")
    case False
    let ?b = "b\<lparr>vslots := (vslots b)[h mod 31 := (vslots b ! (h mod 31))\<lparr>vstate := SLOT_READ\<rparr>], vcounters := h mod 31 + 1\<rparr>"
    let ?w = "v\<lparr>head_index := d, vheap := (vheap v)(bs ! 0 \<mapsto> ?b)\<rparr>"
    have "pop_raw v = Some ((Some x, False), ?w)"
      using pop False b(1) fields by (simp add: read_slot_def Let_def BLOCK_CAP_def)
    moreover have "vec_rep ?w bs rs (Suc h) xs"
      using c store_pop[OF st bs(1) False b(1) refl] b(1) d(1) odd Suc_div_31(1)[OF False] phys_Suc[of h] False
      by (auto simp: vec_rep_def core_rep_def Let_def)
    ultimately show ?thesis using Suc_div_31(1)[OF False] by auto
  next
    case True
    have "Suc h \<le> ?t" by simp
    then have "h div 31 + 1 \<le> ?t div 31" using div_le_mono[of "Suc h" ?t 31] Suc_div_31(3)[OF True] by simp
    then have bs2: "1 < length bs" using len by simp
    obtain nb where nb: "vheap v (bs ! 1) = Some nb" "vnext nb = next_ptr bs 1" using store_bs[OF st bs2] by auto
    let ?d = "2 * phys h + 4 + (if vnext nb = None then 0 else 1)"
    let ?b = "b\<lparr>vslots := (vslots b)[h mod 31 := (vslots b ! (h mod 31))\<lparr>vstate := SLOT_READ\<rparr>], vcounters := 31, vnext := first_ptr rs\<rparr>"
    let ?w = "v\<lparr>head_index := ?d, head_block := Some (bs ! 1), vheap := (vheap v)(bs ! 0 \<mapsto> ?b), retired := Some (bs ! 0),
        retired_count := retired_count v + 1\<rparr>"
    have nx: "vnext b = Some (bs ! 1)" using b(3) bs2 by (simp add: next_ptr_def)
    have "\<exists>r. pop_raw v = Some ((Some x, r), ?w)"
      using pop True b(1) nb(1) nx fields d(3) c
      by (simp add: advance_head_def read_slot_def retire_def Let_def BLOCK_CAP_def)
    moreover have "vec_rep ?w (tl bs) (bs ! 0 # rs) (Suc h) xs"
    proof -
      have "?d div 2 = phys (Suc h)" "odd ?d \<Longrightarrow> 2 < length bs"
        using phys_Suc[of h] True nb(2) by (auto simp: next_ptr_def split: if_splits)
      moreover have "length (tl bs) = (Suc h + length xs) div 31 - Suc h div 31 + 1"
        using len bs2 Suc_div_31(3)[OF True] by (simp add: Suc_diff_Suc)
      moreover have "tl bs ! k = bs ! Suc k" if "k < length (tl bs)" for k using that by (simp add: nth_tl)
      moreover have "block_array_get (cache v) (Suc h div 31 + k) \<in> {None, Some (tl bs ! k)}" if "k < length (tl bs)" for k
      proof -
        have "Suc k < length bs" using that by simp
        with c have "block_array_get (cache v) (h div 31 + Suc k) \<in> {None, Some (bs ! Suc k)}" by blast
        with that show ?thesis by (simp add: Suc_div_31(3)[OF True] nth_tl)
      qed
      moreover have "last (tl bs) = last bs" using bs2 by (metis last_tl length_tl less_numeral_extra(3) list.size(3) zero_less_diff)
      ultimately show ?thesis
        using c store_pop_last[OF st bs2 True b(1) refl, where n = 31] b(1) bs2 len Suc_div_31(3)[OF True]
        unfolding vec_rep_def core_rep_def Let_def by (auto simp: nth_tl)
    qed
    ultimately show ?thesis using Suc_div_31(3)[OF True] by fastforce
  qed
qed

end
