(* ===== verification/Vec_List.thy ===== *)
theory Vec_List
  imports Vec_Rep
begin

text \<open>
  \<open>AtomicVec\<close> as a list: the scans visit exactly the elements in order, indexed access finds the
  element through the cache or along the chain, the rebuilding operations and \<open>pop\<close> are those
  of a first-in first-out list, and the blocks are accounted for.
\<close>

section \<open>Scans\<close>

fun fold_until :: "('b \<Rightarrow> 'a option \<Rightarrow> 'b + 'r) \<Rightarrow> 'b \<Rightarrow> 'a list \<Rightarrow> 'b + 'r" where
  "fold_until f acc [] = Inl acc"
| "fold_until f acc (y # ys) = (case f acc (Some y) of Inl a \<Rightarrow> fold_until f a ys | Inr r \<Rightarrow> Inr r)"

lemma fold_until_append:
  "fold_until f acc (xs @ ys) = (case fold_until f acc xs of Inl a \<Rightarrow> fold_until f a ys | Inr r \<Rightarrow> Inr r)"
  by (induction xs arbitrary: acc) (auto split: sum.splits)

lemma phys_less: "i < 31 \<Longrightarrow> 32 * k + i < phys t \<longleftrightarrow> 31 * k + i < t"
proof -
  assume "i < 31"
  then have "phys (31 * k + i) = 32 * k + i" by (simp add: phys_def)
  then show ?thesis using phys_mono[of "31 * k + i" t] phys_mono[of t "31 * k + i"]
    by (cases rule: linorder_cases[of "31 * k + i" t]) auto
qed

lemma scan_slots_rep:
  assumes b: "block_rep b k h xs" and i: "i \<le> 31" "h \<le> 31 * k + i"
  shows "scan_slots f skip (vslots b) (32 * k) (min (32 * k + BLOCK_CAP - 1) (phys (h + length xs))) i acc =
    fold_until f acc (map (\<lambda>l. xs ! (l - h)) [31 * k + i..<min (h + length xs) (31 * (k + 1))])"
  using i
proof (induction "31 - i" arbitrary: i acc)
  case 0
  then show ?case by (subst scan_slots.simps) (simp add: BLOCK_CAP_def)
next
  case (Suc n)
  let ?t = "h + length xs" let ?l = "31 * k + i"
  have i: "i < 31" using Suc.hyps(2) by simp
  show ?case
  proof (cases "?l < ?t")
    case False
    then show ?thesis using phys_less[OF i, of k ?t] by (subst scan_slots.simps) (auto simp: BLOCK_CAP_def)
  next
    case True
    have "vstate (vslots b ! i) = slot_state h ?t ?l" "h \<le> ?l \<and> ?l < ?t \<longrightarrow> vvalue (vslots b ! i) = Some (xs ! (?l - h))"
      using b i unfolding block_rep_def by blast+
    then have sl: "slot_written (vslots b ! i)" "vvalue (vslots b ! i) = Some (xs ! (?l - h))"
      using True Suc.prems(2) by (simp_all add: slot_state_def slot_written_def SLOT_WRITE_def)
    have "[?l..<min ?t (31 * (k + 1))] = ?l # [31 * k + (i + 1)..<min ?t (31 * (k + 1))]"
      using True i by (simp add: upt_conv_Cons)
    moreover have "32 * k + i < min (32 * k + BLOCK_CAP - 1) (phys ?t) \<and> i < BLOCK_CAP - 1"
      using phys_less[OF i, of k ?t] True i by (simp add: BLOCK_CAP_def)
    ultimately show ?thesis
      using Suc.hyps(1)[of "i + 1"] Suc.hyps(2) Suc.prems sl
      by (subst scan_slots.simps) (simp add: Let_def split: sum.split)
  qed
qed

lemma scan_blocks_rep:
  assumes st: "store_rep (vheap v) bs (free_list v) rs h xs" and len: "length bs = (h + length xs) div 31 - h div 31 + 1"
    and k: "k \<le> length bs" and i: "i \<le> 30" "h \<le> 31 * (h div 31 + k) + i"
  shows "scan_blocks f skip v (phys (h + length xs)) (if k < length bs then Some (bs ! k) else None) (32 * (h div 31 + k)) i acc =
    Some (fold_until f acc (map (\<lambda>l. xs ! (l - h)) [31 * (h div 31 + k) + i..<h + length xs]))"
  using k i
proof (induction "length bs - k" arbitrary: k i acc)
  case 0
  then have "k = length bs" by simp
  then have "h div 31 + k = (h + length xs) div 31 + 1" using chain_last(2,3)[OF len] by linarith
  then have "h + length xs \<le> 31 * (h div 31 + k) + i"
    using mult_div_mod_eq[of 31 "h + length xs"] mod_31_bound(2)[of "h + length xs"] by simp
  with \<open>k = length bs\<close> show ?case by (subst scan_blocks.simps) simp
next
  case (Suc n)
  let ?t = "h + length xs" let ?B = "h div 31 + k"
  have k: "k < length bs" using Suc.hyps(2) by simp
  obtain b where b: "vheap v (bs ! k) = Some b" "block_rep b ?B h xs" "vnext b = next_ptr bs k" using store_bs[OF st k] by blast
  show ?case
  proof (cases "32 * ?B < phys ?t")
    case False
    then have "?t \<le> 31 * ?B" using phys_less[of 0 ?B ?t] by simp
    with False k show ?thesis by (subst scan_blocks.simps) simp
  next
    case True
    let ?g = "\<lambda>l. xs ! (l - h)"
    have split: "[31 * ?B + i..<?t] = [31 * ?B + i..<min ?t (31 * (?B + 1))] @ [31 * (?B + 1)..<?t]"
    proof (cases "?t \<le> 31 * (?B + 1)")
      case False
      then show ?thesis using Suc.prems(2) upt_add_eq_append[of "31 * ?B + i" "31 * (?B + 1)" "?t - 31 * (?B + 1)"] by simp
    qed simp
    have nx: "vnext b = (if Suc k < length bs then Some (bs ! Suc k) else None)" using b(3) by (simp add: next_ptr_def)
    have "h \<le> 31 * (h div 31 + Suc k) + 0" using mult_div_mod_eq[of 31 h] mod_31_bound(2)[of h] by simp
    then have rest: "scan_blocks f skip v (phys ?t) (vnext b) (32 * (?B + 1)) 0 a =
        Some (fold_until f a (map ?g [31 * (?B + 1)..<?t]))" for a
      using Suc.hyps(1)[of "Suc k" 0 a] Suc.hyps(2) k nx by simp
    define B where "B = ?B"
    have "scan_blocks f skip v (phys ?t) (Some (bs ! k)) (32 * B) i acc =
        (case scan_slots f skip (vslots b) (32 * B) (min (32 * B + BLOCK_CAP - 1) (phys ?t)) i acc of
           Inr r \<Rightarrow> Some (Inr r) | Inl a \<Rightarrow> scan_blocks f skip v (phys ?t) (vnext b) (32 * (B + 1)) 0 a)"
      using True[folded B_def] b(1) by (subst scan_blocks.simps) (simp add: BLOCK_CAP_def add.commute[of 32] split: sum.split)
    moreover have "scan_slots f skip (vslots b) (32 * B) (min (32 * B + BLOCK_CAP - 1) (phys ?t)) i acc =
        fold_until f acc (map ?g [31 * B + i..<min ?t (31 * (B + 1))])"
      unfolding B_def by (rule scan_slots_rep[OF b(2) _ Suc.prems(3)]) (use Suc.prems(2) in simp)
    ultimately show ?thesis
      using k unfolding B_def[symmetric] split[folded B_def] map_append fold_until_append rest[folded B_def]
      by (auto split: sum.split)
  qed
qed

lemma scan_rep:
  assumes rep: "vec_rep v bs rs h xs"
  shows "scan f skip v acc = Some (fold_until f acc xs)"
proof -
  note c = rep[unfolded vec_rep_def core_rep_def Let_def]
  have st: "store_rep (vheap v) bs (free_list v) rs h xs" and len: "length bs = (h + length xs) div 31 - h div 31 + 1"
    and hb: "head_block v = Some (bs ! 0)" and hi: "head_index v div 2 = phys h" and ti: "tail_index v div 2 = phys (h + length xs)"
    using c by auto
  have "phys h - phys h mod 32 = 32 * (h div 31)" "h mod 31 \<le> 30" using mod_31_bound(2)[of h] by (simp_all add: phys_def)
  moreover have "map (\<lambda>l. xs ! (l - h)) [h..<h + length xs] = xs"
    by (rule nth_equalityI) simp_all
  ultimately show ?thesis
    using scan_blocks_rep[OF st len, of 0 "h mod 31" f skip acc] len hb hi ti
    by (simp add: scan_def Let_def BLOCK_CAP_def)
qed

section \<open>Reading\<close>

definition vec_list :: "'a vec \<Rightarrow> 'a list" where
  "vec_list v = (case vec_fold (\<lambda>acc y. acc @ [y]) [] v of Some xs \<Rightarrow> xs | None \<Rightarrow> [])"

definition vec_ok :: "'a vec \<Rightarrow> bool" where
  "vec_ok v \<longleftrightarrow> (\<exists>bs rs h xs. vec_rep v bs rs h xs)"

lemma fold_until_fold: "fold_until (\<lambda>a y. Inl (f a (the y))) acc xs = Inl (foldl f acc xs)"
  by (induction xs arbitrary: acc) auto

lemma vec_fold_rep: "vec_rep v bs rs h xs \<Longrightarrow> vec_fold f acc v = Some (foldl f acc xs)"
  by (simp add: vec_fold_def scan_rep fold_until_fold)

lemma foldl_snoc: "foldl (\<lambda>acc y. acc @ [y]) ys xs = ys @ xs"
  by (induction xs arbitrary: ys) auto

lemma vec_list_rep: "vec_rep v bs rs h xs \<Longrightarrow> vec_list v = xs"
  by (simp add: vec_list_def vec_fold_rep foldl_snoc)

lemma vec_okI: "vec_rep v bs rs h xs \<Longrightarrow> vec_ok v"
  unfolding vec_ok_def by blast

lemma vec_okE:
  assumes "vec_ok v"
  obtains bs rs h where "vec_rep v bs rs h (vec_list v)"
  using assms vec_list_rep unfolding vec_ok_def by metis

lemma vec_len_rep: "vec_rep v bs rs h xs \<Longrightarrow> vec_len v = length xs"
  by (auto simp: vec_rep_def core_rep_def vec_len_def Let_def calc_len_phys)

lemma fold_until_index:
  "fold_until (\<lambda>i y. if y = Some x then Inr i else Inl (i + 1)) k xs =
     (if x \<in> set xs then Inr (k + length (takeWhile (\<lambda>y. y \<noteq> x) xs)) else Inl (k + length xs))"
  by (induction xs arbitrary: k) auto

lemma index_of_rep:
  "vec_rep v bs rs h xs \<Longrightarrow> index_of v x = Some (if x \<in> set xs then Some (length (takeWhile (\<lambda>y. y \<noteq> x) xs)) else None)"
  by (simp add: index_of_def scan_rep fold_until_index)

lemma fold_until_find:
  "fold_until (\<lambda>u y. if P (the y) then Inr y else Inl u) () xs =
     (case find P xs of None \<Rightarrow> Inl () | Some y \<Rightarrow> Inr (Some y))"
  by (induction xs) auto

lemma vec_find_rep: "vec_rep v bs rs h xs \<Longrightarrow> vec_find P v = Some (find P xs)"
  by (simp add: vec_find_def scan_rep fold_until_find split: option.split)

lemma foldl_reduce:
  "foldl (\<lambda>acc y. Some (case acc of None \<Rightarrow> y | Some a \<Rightarrow> f a y)) (Some a) ys = Some (foldl f a ys)"
  by (induction ys arbitrary: a) auto

lemma vec_reduce_rep:
  assumes rep: "vec_rep v bs rs h xs"
  shows "vec_reduce f v = Some (case xs of [] \<Rightarrow> None | y # ys \<Rightarrow> Some (foldl f y ys))"
proof (cases xs)
  case Nil
  with rep have "tail_index v div 2 \<le> head_index v div 2" by (auto simp: vec_rep_def core_rep_def Let_def)
  with Nil show ?thesis by (simp add: vec_reduce_def)
next
  case (Cons y ys)
  with rep have "\<not> tail_index v div 2 \<le> head_index v div 2"
    using phys_mono[of h "h + length xs"] by (auto simp: vec_rep_def core_rep_def Let_def)
  with Cons vec_fold_rep[OF rep, of "\<lambda>acc y. Some (case acc of None \<Rightarrow> y | Some a \<Rightarrow> f a y)" None]
  show ?thesis by (simp add: vec_reduce_def foldl_reduce)
qed

section \<open>Indexed access\<close>

lemma follow_rep:
  assumes "store_rep (vheap v) bs fs rs h xs" "i + j < length bs"
  shows "follow j v (Some (bs ! i)) = Some (Some (bs ! (i + j)))"
  using assms(2)
proof (induction j arbitrary: i)
  case (Suc j)
  from store_bs[OF assms(1), of i] Suc.prems Suc.IH[of "Suc i"] show ?case by (auto simp: next_ptr_def)
qed simp

lemma block_of_index:
  fixes h i n :: nat
  assumes "i < n"
  shows "(h + i) div 31 - h div 31 < (h + n) div 31 - h div 31 + 1"
    "h div 31 + ((h + i) div 31 - h div 31) = (h + i) div 31"
    "h div 31 + (h mod 31 + i) div 31 = (h + i) div 31" "(h mod 31 + i) mod 31 = (h + i) mod 31"
proof -
  have "h div 31 \<le> (h + i) div 31" "(h + i) div 31 \<le> (h + n) div 31" using assms by (simp_all add: div_le_mono)
  then show "(h + i) div 31 - h div 31 < (h + n) div 31 - h div 31 + 1" "h div 31 + ((h + i) div 31 - h div 31) = (h + i) div 31"
    by linarith+
  have "h + i = 31 * (h div 31) + (h mod 31 + i)" by simp
  then show "h div 31 + (h mod 31 + i) div 31 = (h + i) div 31" "(h mod 31 + i) mod 31 = (h + i) mod 31"
    by (metis add.commute div_mult_self2 zero_neq_numeral, simp add: mod_simps)
qed

lemma slot_ptr_rep:
  assumes rep: "vec_rep v bs rs h xs" and i: "i < length xs"
  shows "get_slot_ptr v i (head_index v div 2) = Some (Some (bs ! ((h + i) div 31 - h div 31), (h + i) mod 31))"
    "\<exists>b. vheap v (bs ! ((h + i) div 31 - h div 31)) = Some b \<and> slot_written (vslots b ! ((h + i) mod 31)) \<and>
       vvalue (vslots b ! ((h + i) mod 31)) = Some (xs ! i)"
proof -
  let ?k = "(h + i) div 31 - h div 31"
  note c = rep[unfolded vec_rep_def core_rep_def Let_def]
  have st: "store_rep (vheap v) bs (free_list v) rs h xs" and len: "length bs = (h + length xs) div 31 - h div 31 + 1"
    and hb: "head_block v = Some (bs ! 0)" and hi: "head_index v div 2 = phys h" using c by auto
  note a = block_of_index[OF i, of h]
  have k: "?k < length bs" using a(1) len by simp
  with c have "block_array_get (cache v) (h div 31 + ?k) \<in> {None, Some (bs ! ?k)}" by blast
  then have "get_block_at v ((h + i) div 31) (h div 31) = Some (Some (bs ! ?k))"
    using follow_rep[OF st, of 0 ?k] k hb unfolding a(2) by (auto simp: get_block_at_def)
  then show "get_slot_ptr v i (head_index v div 2) = Some (Some (bs ! ?k, (h + i) mod 31))"
    using a(3,4) by (simp add: get_slot_ptr_def hi Let_def BLOCK_CAP_def)
  obtain b where b: "vheap v (bs ! ?k) = Some b" "block_rep b ((h + i) div 31) h xs" using store_bs[OF st k] a(2) by auto
  have l: "31 * ((h + i) div 31) + (h + i) mod 31 = h + i" "(h + i) mod 31 < 31" by (simp_all add: mod_31_bound)
  then have "vstate (vslots b ! ((h + i) mod 31)) = slot_state h (h + length xs) (h + i)"
    "vvalue (vslots b ! ((h + i) mod 31)) = Some (xs ! i)"
    using b(2) i unfolding block_rep_def by (metis, metis add_diff_cancel_left' le_add1 nat_add_left_cancel_less)
  with b(1) i show "\<exists>b. vheap v (bs ! ?k) = Some b \<and> slot_written (vslots b ! ((h + i) mod 31)) \<and>
       vvalue (vslots b ! ((h + i) mod 31)) = Some (xs ! i)"
    by (simp add: slot_state_def slot_written_def SLOT_WRITE_def)
qed

lemma vec_get_rep:
  assumes rep: "vec_rep v bs rs h xs"
  shows "vec_get v i = Some (if i < length xs then Some (xs ! i) else None)"
proof (cases "i < length xs")
  case True
  from slot_ptr_rep(2)[OF rep True] obtain b where "vheap v (bs ! ((h + i) div 31 - h div 31)) = Some b"
    "slot_written (vslots b ! ((h + i) mod 31))" "vvalue (vslots b ! ((h + i) mod 31)) = Some (xs ! i)" by blast
  with True show ?thesis using slot_ptr_rep(1)[OF rep True] vec_len_rep[OF rep] by (simp add: vec_get_def Let_def slot_at_def)
qed (simp add: vec_get_def vec_len_rep[OF rep])

lemma block_rep_put:
  assumes b: "block_rep b k h xs" and i: "i < length xs"
  shows "block_rep (if k = (h + i) div 31
      then b\<lparr>vslots := (vslots b)[(h + i) mod 31 := (vslots b ! ((h + i) mod 31))\<lparr>vvalue := Some y\<rparr>]\<rparr> else b) k h (xs[i := y])"
proof -
  have len: "length (vslots b) = 32" using b by (simp add: block_rep_def)
  have o: "(h + i) mod 31 < 31" by (simp add: mod_31_bound)
  have eq: "31 * k + j = h + i \<longleftrightarrow> k = (h + i) div 31 \<and> j = (h + i) mod 31" if "j < 31" for j
  proof
    assume "31 * k + j = h + i"
    then show "k = (h + i) div 31 \<and> j = (h + i) mod 31" using that by (simp flip: \<open>31 * k + j = h + i\<close>)
  qed simp
  have val: "(xs[i := y]) ! (31 * k + j - h) = (if k = (h + i) div 31 \<and> j = (h + i) mod 31 then y else xs ! (31 * k + j - h))"
    if "j < 31" "h \<le> 31 * k + j" for j
    using eq[OF that(1)] that(2) i by (auto simp: nth_list_update)
  show ?thesis
    using b len o val unfolding block_rep_def by (auto simp: nth_list_update)
qed

lemma put_value_rep:
  assumes rep: "vec_rep v bs rs h xs" and i: "i < length xs"
  shows "\<exists>w. put_value v (bs ! ((h + i) div 31 - h div 31), (h + i) mod 31) (Some y) = Some w \<and> vec_rep w bs rs h (xs[i := y])"
proof -
  let ?k = "(h + i) div 31 - h div 31"
  note c = rep[unfolded vec_rep_def core_rep_def Let_def]
  have st: "store_rep (vheap v) bs (free_list v) rs h xs" and len: "length bs = (h + length xs) div 31 - h div 31 + 1"
    using c by auto
  note a = block_of_index[OF i, of h]
  have k: "?k < length bs" using a(1) len by simp
  obtain b where b: "vheap v (bs ! ?k) = Some b" using store_bs[OF st k] by auto
  let ?b = "b\<lparr>vslots := (vslots b)[(h + i) mod 31 := (vslots b ! ((h + i) mod 31))\<lparr>vvalue := Some y\<rparr>]\<rparr>"
  let ?w = "v\<lparr>vheap := (vheap v)(bs ! ?k \<mapsto> ?b)\<rparr>"
  have "\<exists>c. (vheap ?w) (bs ! j) = Some c \<and> block_rep c (h div 31 + j) h (xs[i := y]) \<and> vnext c = next_ptr bs j" if j: "j < length bs" for j
  proof (cases "j = ?k")
    case True
    with store_bs[OF st j] b a(2) have "block_rep b (h div 31 + j) h xs" "vnext b = next_ptr bs j" by auto
    with block_rep_put[OF this(1) i, of y] True a(2) show ?thesis by simp
  next
    case False
    then have "bs ! j \<noteq> bs ! ?k" "h div 31 + j \<noteq> (h + i) div 31" using store_nth_eq[OF st j k] a(2) by auto
    with store_bs[OF st j] block_rep_put[OF _ i, of _ "h div 31 + j" h y] show ?thesis by auto
  qed
  moreover have "p \<in> set (free_list v) \<union> set rs \<Longrightarrow> p \<noteq> bs ! ?k" for p
    using store_apart[OF st] k by force
  ultimately have "store_rep (vheap ?w) bs (free_list ?w) rs h (xs[i := y])"
    using st b k unfolding store_rep_def by auto
  then have "vec_rep ?w bs rs h (xs[i := y])"
    using c b unfolding vec_rep_def core_rep_def Let_def by auto
  then show ?thesis using b by (simp add: put_value_def)
qed

lemma vec_swap_rep:
  assumes rep: "vec_rep v bs rs h xs"
  shows "\<exists>w. vec_swap v i j = Some (i = j \<or> i < length xs \<and> j < length xs, w) \<and>
    vec_rep w bs rs h (if i < length xs \<and> j < length xs then xs[i := xs ! j, j := xs ! i] else xs)"
proof (cases "i \<noteq> j \<and> i < length xs \<and> j < length xs")
  case False
  then have "vec_swap v i j = Some (i = j, v)" using vec_len_rep[OF rep] by (auto simp: vec_swap_def Let_def)
  moreover have "i = j \<Longrightarrow> xs[i := xs ! j, j := xs ! i] = xs" by simp
  ultimately show ?thesis using False rep by auto
next
  case True
  then have i: "i < length xs" and j: "j < length xs" by auto
  obtain u where u: "put_value v (bs ! ((h + i) div 31 - h div 31), (h + i) mod 31) (Some (xs ! j)) = Some u"
    "vec_rep u bs rs h (xs[i := xs ! j])" using put_value_rep[OF rep i] by blast
  obtain w where w: "put_value u (bs ! ((h + j) div 31 - h div 31), (h + j) mod 31) (Some (xs ! i)) = Some w"
    "vec_rep w bs rs h (xs[i := xs ! j, j := xs ! i])" using put_value_rep[OF u(2), of j "xs ! i"] j by auto
  have "vec_swap v i j = Some (True, w)"
    using True vec_len_rep[OF rep] slot_ptr_rep[OF rep i] slot_ptr_rep[OF rep j] u(1) w(1)
    by (auto simp: vec_swap_def Let_def slot_at_def)
  with True w(2) show ?thesis by auto
qed

end
