(* ===== verification/Vec_Ops.thy ===== *)
theory Vec_Ops
  imports Vec_List
begin

text \<open>
  The operations of \<open>AtomicVec\<close> that change it, put together: construction, batches, the
  operations that take the vector apart and rebuild it, and the refinement of a list by all
  of them.
\<close>

section \<open>Construction\<close>

lemma vec_new_rep: "vec_rep vec_new [0] [] 0 []"
proof -
  have "block_rep block_new 0 0 []" by (rule unused_block_rep[OF unused_new]) simp_all
  moreover have "vnext block_new = None" by (simp add: block_new_def)
  ultimately have "store_rep [0 \<mapsto> block_new] [0] [] [] 0 []" by (simp add: store_rep_def next_ptr_def)
  moreover have "length block_array_new = 32" "block_array_get (block_array_set block_array_new 0 (Some 0)) 0 = Some 0"
    by (simp_all add: block_array_new_def BLOCK_CAP_def block_array_get_set)
  ultimately show ?thesis
    by (simp add: vec_rep_def core_rep_def vec_new_def new_block_def Let_def phys_def)
qed

lemma preallocate_rep: "vec_rep v bs rs h xs \<Longrightarrow> vec_rep (preallocate n v) bs rs h xs"
proof (induction n arbitrary: v)
  case (Suc n)
  note c = Suc.prems[unfolded vec_rep_def core_rep_def Let_def]
  let ?p = "vfresh v" let ?H = "(vheap v)(vfresh v \<mapsto> block_new)"
  have st: "store_rep (vheap v) bs (free_list v) rs h xs" and fr: "\<forall>p\<in>dom (vheap v). p < vfresh v" using c by blast+
  have f: "?p \<notin> dom (vheap v)" using fr by blast
  then have nf: "?p \<notin> set bs" "?p \<notin> set rs" "?p \<notin> set (free_list v)" using store_dom(1)[OF st] by auto
  show ?case
  proof (cases "length (free_list v) < POOL_CAP")
    case True
    let ?w = "v\<lparr>vheap := ?H, vfresh := ?p + 1, free_list := free_list v @ [?p]\<rparr>"
    have ne: "k < length bs \<Longrightarrow> bs ! k \<noteq> ?p" "k < length rs \<Longrightarrow> rs ! k \<noteq> ?p" for k using nf by (metis nth_mem)+
    have "store_rep ?H bs (free_list v @ [?p]) rs h xs"
      unfolding store_rep_def using store_bs[OF st] store_rs[OF st] store_fs[OF st] store_dom[OF st] nf ne unused_new by auto
    moreover have "\<forall>p\<in>dom ?H. p < ?p + 1" using fr by (auto intro: less_SucI)
    ultimately have "vec_rep ?w bs rs h xs" using c True unfolding vec_rep_def core_rep_def Let_def by auto
    with Suc.IH[of ?w] True show ?thesis by (simp add: new_block_def pool_push_def)
  next
    case False
    have "(vheap v)(?p := None) = vheap v" using f by (auto simp: domIff)
    then have "vec_rep (v\<lparr>vfresh := Suc ?p, vheap := (vheap v)(?p := None)\<rparr>) bs rs h xs"
      using c unfolding vec_rep_def core_rep_def Let_def by (auto intro: less_SucI)
    with Suc.IH False show ?thesis by (simp add: new_block_def pool_push_def dealloc_block_def)
  qed
qed simp

lemma vec_with_capacity_rep: "vec_rep (vec_with_capacity cap) [0] [] 0 []"
  unfolding vec_with_capacity_def by (rule preallocate_rep[OF vec_new_rep])

section \<open>Batches and loops\<close>

lemma push_batch_rep:
  assumes "vec_rep v bs rs h xs"
  shows "\<exists>w bs'. push_batch v ys = Some w \<and> vec_rep w bs' rs h (xs @ ys)"
  using assms
proof (induction ys arbitrary: v bs xs)
  case (Cons y ys)
  obtain u bs' where u: "push_internal v y = Some u" "vec_rep u bs' rs h (xs @ [y])" using push_rep[OF Cons.prems] by blast
  from Cons.IH[OF u(2)] u(1) show ?case by auto
qed auto


lemma push_init_batch:
  "push_init n init v c = map_option (\<lambda>w. (w, snd (produce init n c))) (push_batch v (fst (produce init n c)))"
  by (induction n arbitrary: v c) (auto simp: case_prod_beta split: option.split)

lemma pop_all_rep:
  assumes "vec_rep v bs rs h xs"
  shows "\<exists>w bs' rs'. pop_all pop_internal v = Some (xs, w) \<and> vec_rep w bs' rs' (h + length xs) [] \<and>
    length rs' + h div 31 = length rs + (h + length xs) div 31"
  using assms
proof (induction xs arbitrary: v bs rs h)
  case Nil
  then show ?case using pop_rep_empty[OF Nil] by (subst pop_all.simps) (auto simp: pop_internal_def)
next
  case (Cons x xs)
  obtain u bs' rs' r where u: "pop_raw v = Some ((Some x, r), u)" "vec_rep u bs' rs' (Suc h) xs"
    "length rs' + h div 31 = length rs + Suc h div 31" using pop_rep_first[OF Cons.prems] by blast
  from Cons.IH[OF u(2)] obtain w bs'' rs'' where w: "pop_all pop_internal u = Some (xs, w)"
    "vec_rep w bs'' rs'' (Suc h + length xs) []" "length rs'' + Suc h div 31 = length rs' + (Suc h + length xs) div 31" by blast
  have "pop_all pop_internal v = Some (x # xs, w)" using u(1) w(1) by (subst pop_all.simps) (simp add: pop_internal_def)
  moreover have "length rs'' + h div 31 = length rs + (h + length (x # xs)) div 31" using u(3) w(3) by simp
  ultimately show ?case using w(2) by auto
qed

lemma vec_pop_rep_empty: "vec_rep v bs rs h [] \<Longrightarrow> vec_pop v = Some (None, v)"
  by (simp add: vec_pop_def pop_rep_empty)

lemma vec_pop_rep_first:
  assumes "vec_rep v bs rs h (x # xs)"
  shows "\<exists>w bs' rs'. vec_pop v = Some (Some x, w) \<and> vec_rep w bs' rs' (Suc h) xs"
proof -
  obtain u bs' rs' r where u: "pop_raw v = Some ((Some x, r), u)" "vec_rep u bs' rs' (Suc h) xs"
    using pop_rep_first[OF assms] by blast
  show ?thesis
  proof (cases r)
    case True
    with try_reclaim_rep[OF u(2)] u(1) show ?thesis by (auto simp: vec_pop_def)
  next
    case False
    with u show ?thesis by (auto simp: vec_pop_def)
  qed
qed

interpretation vec_queue: pop_queue vec_pop vec_list vec_ok
proof
  fix s :: "'a vec" assume "vec_ok s" "vec_list s = []"
  then obtain bs rs h where r: "vec_rep s bs rs h []" by (metis vec_okE)
  with vec_pop_rep_empty[OF r] show "\<exists>t. vec_pop s = Some (None, t) \<and> vec_ok t \<and> vec_list t = []"
    using vec_list_rep[OF r] vec_okI[OF r] by auto
next
  fix s :: "'a vec" and x xs assume "vec_ok s" "vec_list s = x # xs"
  then obtain bs rs h where r: "vec_rep s bs rs h (x # xs)" by (metis vec_okE)
  from vec_pop_rep_first[OF r] show "\<exists>t. vec_pop s = Some (Some x, t) \<and> vec_ok t \<and> vec_list t = xs"
    by (auto intro: vec_okI simp: vec_list_rep)
qed

section \<open>Rebuilding\<close>

lemma vec_reverse_rep:
  assumes rep: "vec_rep v bs rs h xs"
  shows "\<exists>w bs' rs'. vec_reverse v = Some w \<and> vec_rep w bs' rs' (h + length xs) (rev xs) \<and>
    length rs' + h div 31 = length rs + (h + length xs) div 31"
proof -
  obtain u bs' rs' where u: "pop_all pop_internal v = Some (xs, u)" "vec_rep u bs' rs' (h + length xs) []"
    "length rs' + h div 31 = length rs + (h + length xs) div 31" using pop_all_rep[OF rep] by blast
  from push_batch_rep[OF u(2), of "rev xs"] u show ?thesis by (auto simp: vec_reverse_def)
qed

lemma vec_remove_rep:
  assumes rep: "vec_rep v bs rs h xs"
  shows "\<exists>w. vec_remove v i = Some (if i < length xs then Some (xs ! i) else None, w) \<and> vec_ok w \<and>
    vec_list w = take i xs @ drop (Suc i) xs"
proof (cases "i < length xs")
  case False
  with rep show ?thesis using vec_len_rep[OF rep] vec_list_rep[OF rep] by (auto simp: vec_remove_def vec_ok_def)
next
  case True
  obtain u bs' rs' where u: "pop_all pop_internal v = Some (xs, u)" "vec_rep u bs' rs' (h + length xs) []"
    using pop_all_rep[OF rep] by blast
  obtain w bs'' where w: "push_batch u (take i xs @ drop (i + 1) xs) = Some w"
    "vec_rep w bs'' rs' (h + length xs) (take i xs @ drop (i + 1) xs)" using push_batch_rep[OF u(2)] by fastforce
  with True u(1) show ?thesis using vec_len_rep[OF rep] vec_list_rep[OF w(2)] by (auto simp: vec_remove_def vec_ok_def)
qed

lemma vec_as_vec_rep:
  assumes rep: "vec_rep v bs rs h xs"
  shows "\<exists>w. vec_as_vec v = Some (xs, w) \<and> vec_ok w \<and> vec_list w = []"
proof -
  obtain u bs' rs' where u: "pop_all pop_internal v = Some (xs, u)" "vec_rep u bs' rs' (h + length xs) []"
    using pop_all_rep[OF rep] by blast
  from reclaim_retired_rep[OF u(2)] u(1) show ?thesis by (auto simp: vec_as_vec_def vec_list_rep intro: vec_okI)
qed

lemma length_foldl_set: "length (foldl (\<lambda>es i. block_array_set es i None) es is) = length es"
  by (induction "is" arbitrary: es) auto

lemma restart_rep:
  assumes rep: "vec_rep v bs [] h []"
  shows "\<exists>w p. restart v = Some w \<and> vec_rep w [p] [] 0 []"
proof -
  note c = rep[unfolded vec_rep_def core_rep_def Let_def]
  have st: "store_rep (vheap v) bs (free_list v) [] h []" using c by blast
  obtain p where p: "bs = [p]" using c by (auto simp: length_Suc_conv)
  obtain b where b: "vheap v p = Some b" "length (vslots b) = 32"
    using store_bs[OF st, of 0] by (auto simp: p block_rep_def)
  let ?es = "foldl (\<lambda>es i. block_array_set es i None) (cache v) [0..<BLOCK_CAP]"
  let ?w = "v\<lparr>head_index := 0, tail_index := 0, vheap := (vheap v)(p \<mapsto> block_reset b), tail_block := Some p,
      head_block := Some p, cache := block_array_set ?es 0 (Some p)\<rparr>"
  have r: "restart v = Some ?w" using c b by (simp add: restart_def Let_def p)
  have u: "unused (block_reset b)" by (rule unused_reset[OF b(2)])
  have "block_rep (block_reset b) 0 0 []" by (rule unused_block_rep[OF u]) simp_all
  moreover have "vnext (block_reset b) = None" using u by (simp add: unused_def)
  moreover have "p \<notin> set (free_list v)" using store_dom(2)[OF st] by (simp add: p)
  ultimately have "store_rep (vheap ?w) [p] (free_list v) [] 0 []"
    using store_fs[OF st] store_dom[OF st] unfolding store_rep_def by (auto simp: p next_ptr_def)
  moreover have "length ?es = 32" using c by (simp add: length_foldl_set)
  ultimately have "vec_rep ?w [p] [] 0 []" using c b(1)
    unfolding vec_rep_def core_rep_def Let_def by (auto simp: phys_def block_array_get_set)
  with r show ?thesis by blast
qed

lemma vec_reset_with_rep:
  assumes rep: "vec_rep v bs rs h xs"
  shows "\<exists>w. vec_reset_with v cap init c = Some (cap, w, snd (produce init cap c)) \<and> vec_ok w \<and>
    vec_list w = fst (produce init cap c)"
proof -
  obtain u bs' rs' where u: "pop_all pop_internal v = Some (xs, u)" "vec_rep u bs' rs' (h + length xs) []"
    using pop_all_rep[OF rep] by blast
  obtain t where t: "reclaim_retired u = Some t" "vec_rep t bs' [] (h + length xs) []" using reclaim_retired_rep[OF u(2)] by blast
  obtain r p where r: "restart t = Some r" "vec_rep r [p] [] 0 []" using restart_rep[OF t(2)] by blast
  from push_batch_rep[OF r(2), of "fst (produce init cap c)"] obtain w bs'' where
    w: "push_batch r (fst (produce init cap c)) = Some w" "vec_rep w bs'' [] 0 (fst (produce init cap c))" by auto
  with u(1) t(1) r(1) show ?thesis
    using vec_list_rep[OF w(2)] by (auto simp: vec_reset_with_def push_init_batch vec_ok_def)
qed

section \<open>The operations together\<close>

datatype 'a vop = VPush 'a | VPushBatch "'a list" | VPop | VPopBatch nat | VDrain | VAsVec | VGet nat | VSwap nat nat
  | VRemove nat | VReverse | VIndexOf 'a | VFind "'a \<Rightarrow> bool" | VReduce "'a \<Rightarrow> 'a \<Rightarrow> 'a" | VLen | VIsEmpty
  | VReset nat "nat \<Rightarrow> 'a"

datatype 'a vres = VDone | VMaybe "'a option" | VList "'a list" | VNat nat | VBool bool | VIndex "nat option" | VStuck

definition answer :: "'a vec \<Rightarrow> ('b \<Rightarrow> 'a vres) \<Rightarrow> ('b \<times> 'a vec) option \<Rightarrow> 'a vres \<times> 'a vec" where
  "answer v f r = (case r of None \<Rightarrow> (VStuck, v) | Some (x, w) \<Rightarrow> (f x, w))"

definition vec_op :: "'a vec \<Rightarrow> 'a vop \<Rightarrow> 'a vres \<times> 'a vec" where
  "vec_op v x = (case x of
     VPush y \<Rightarrow> answer v (\<lambda>_. VDone) (map_option (Pair ()) (push_internal v y))
   | VPushBatch ys \<Rightarrow> answer v (\<lambda>_. VDone) (map_option (Pair ()) (push_batch v ys))
   | VPop \<Rightarrow> answer v VMaybe (vec_pop v)
   | VPopBatch n \<Rightarrow> answer v VList (pop_batch n v)
   | VDrain \<Rightarrow> answer v VList (vec_drain v)
   | VAsVec \<Rightarrow> answer v VList (vec_as_vec v)
   | VGet i \<Rightarrow> answer v VMaybe (map_option (\<lambda>r. (r, v)) (vec_get v i))
   | VSwap i j \<Rightarrow> answer v VBool (vec_swap v i j)
   | VRemove i \<Rightarrow> answer v VMaybe (vec_remove v i)
   | VReverse \<Rightarrow> answer v (\<lambda>_. VDone) (map_option (Pair ()) (vec_reverse v))
   | VIndexOf y \<Rightarrow> answer v VIndex (map_option (\<lambda>r. (r, v)) (index_of v y))
   | VFind P \<Rightarrow> answer v VMaybe (map_option (\<lambda>r. (r, v)) (vec_find P v))
   | VReduce f \<Rightarrow> answer v VMaybe (map_option (\<lambda>r. (r, v)) (vec_reduce f v))
   | VLen \<Rightarrow> (VNat (vec_len v), v)
   | VIsEmpty \<Rightarrow> (VBool (vec_is_empty v), v)
   | VReset n g \<Rightarrow> answer v VNat (map_option (\<lambda>(r, w, _). (r, w)) (vec_reset_with v n (\<lambda>k. (g k, Suc k)) 0)))"

text \<open>The specification: a list used first in, first out.\<close>

definition fifo_op :: "'a list \<Rightarrow> 'a vop \<Rightarrow> 'a vres \<times> 'a list" where
  "fifo_op l x = (case x of
     VPush y \<Rightarrow> (VDone, l @ [y])
   | VPushBatch ys \<Rightarrow> (VDone, l @ ys)
   | VPop \<Rightarrow> (case l of [] \<Rightarrow> (VMaybe None, []) | y # ys \<Rightarrow> (VMaybe (Some y), ys))
   | VPopBatch n \<Rightarrow> (VList (take n l), drop n l)
   | VDrain \<Rightarrow> (VList l, [])
   | VAsVec \<Rightarrow> (VList l, [])
   | VGet i \<Rightarrow> (VMaybe (if i < length l then Some (l ! i) else None), l)
   | VSwap i j \<Rightarrow> if i < length l \<and> j < length l then (VBool True, l[i := l ! j, j := l ! i]) else (VBool (i = j), l)
   | VRemove i \<Rightarrow> (VMaybe (if i < length l then Some (l ! i) else None), take i l @ drop (Suc i) l)
   | VReverse \<Rightarrow> (VDone, rev l)
   | VIndexOf y \<Rightarrow> (VIndex (if y \<in> set l then Some (length (takeWhile (\<lambda>z. z \<noteq> y) l)) else None), l)
   | VFind P \<Rightarrow> (VMaybe (find P l), l)
   | VReduce f \<Rightarrow> (VMaybe (case l of [] \<Rightarrow> None | y # ys \<Rightarrow> Some (foldl f y ys)), l)
   | VLen \<Rightarrow> (VNat (length l), l)
   | VIsEmpty \<Rightarrow> (VBool (l = []), l)
   | VReset n g \<Rightarrow> (VNat n, map g [0..<n]))"

lemma answer_refines:
  assumes "r = Some (x, w)" "vec_ok w" "f x = y" "vec_list w = l"
  shows "fst (answer v f r) = fst (y, l) \<and> vec_list (snd (answer v f r)) = snd (y, l) \<and> vec_ok (snd (answer v f r))"
  using assms by (simp add: answer_def)

lemma vec_op_refines:
  assumes ok: "vec_ok v"
  shows "fst (vec_op v x) = fst (fifo_op (vec_list v) x) \<and> vec_list (snd (vec_op v x)) = snd (fifo_op (vec_list v) x) \<and>
    vec_ok (snd (vec_op v x))"
proof -
  obtain bs rs h where rep: "vec_rep v bs rs h (vec_list v)" using ok by (rule vec_okE)
  show ?thesis
  proof (cases x)
    case (VPush y)
    from push_rep[OF rep, of y] obtain w bs' where "push_internal v y = Some w" "vec_rep w bs' rs h (vec_list v @ [y])" by blast
    then show ?thesis unfolding VPush vec_op_def fifo_op_def vop.case
      by (intro answer_refines) (auto simp: vec_list_rep intro: vec_okI)
  next
    case (VPushBatch ys)
    from push_batch_rep[OF rep, of ys] obtain w bs' where "push_batch v ys = Some w" "vec_rep w bs' rs h (vec_list v @ ys)" by blast
    then show ?thesis unfolding VPushBatch vec_op_def fifo_op_def vop.case
      by (intro answer_refines) (auto simp: vec_list_rep intro: vec_okI)
  next
    case VPop
    show ?thesis
    proof (cases "vec_list v")
      case Nil
      with vec_queue.pop_empty[OF ok] VPop show ?thesis by (auto simp: vec_op_def fifo_op_def answer_def)
    next
      case (Cons y ys)
      with vec_queue.pop_first[OF ok] VPop show ?thesis by (auto simp: vec_op_def fifo_op_def answer_def)
    qed
  next
    case (VPopBatch n)
    with vec_queue.drain_take[OF ok, of n] show ?thesis by (auto simp: vec_op_def fifo_op_def answer_def pop_batch_def)
  next
    case VDrain
    with vec_queue.drain_everything[OF ok, of "vec_len v"] vec_len_rep[OF rep] show ?thesis
      by (auto simp: vec_op_def fifo_op_def answer_def pop_batch_def vec_drain_def)
  next
    case VAsVec
    with vec_as_vec_rep[OF rep] show ?thesis by (auto simp: vec_op_def fifo_op_def answer_def)
  next
    case (VSwap i j)
    from vec_swap_rep[OF rep, of i j] obtain w where w: "vec_swap v i j = Some (i = j \<or> i < length (vec_list v) \<and> j < length (vec_list v), w)"
      "vec_rep w bs rs h (if i < length (vec_list v) \<and> j < length (vec_list v) then (vec_list v)[i := vec_list v ! j, j := vec_list v ! i] else vec_list v)"
      by blast
    from w(1) vec_list_rep[OF w(2)] vec_okI[OF w(2)] VSwap show ?thesis
      by (auto simp: vec_op_def fifo_op_def answer_def)
  next
    case (VRemove i)
    with vec_remove_rep[OF rep, of i] show ?thesis by (auto simp: vec_op_def fifo_op_def answer_def)
  next
    case VReverse
    from vec_reverse_rep[OF rep] obtain w bs' rs' where "vec_reverse v = Some w" "vec_rep w bs' rs' (h + length (vec_list v)) (rev (vec_list v))"
      by blast
    then show ?thesis unfolding VReverse vec_op_def fifo_op_def vop.case
      by (intro answer_refines) (auto simp: vec_list_rep intro: vec_okI)
  next
    case (VReset n g)
    with vec_reset_with_rep[OF rep, of n "\<lambda>k. (g k, Suc k)" 0] show ?thesis
      by (auto simp: vec_op_def fifo_op_def answer_def produce_upt)
  qed (use rep ok in \<open>auto simp: vec_op_def fifo_op_def answer_def vec_get_rep index_of_rep vec_find_rep vec_reduce_rep
      vec_len_rep vec_is_empty_def\<close>)
qed

interpretation vec: data_refinement vec_op fifo_op vec_list vec_ok
  by unfold_locales (use vec_op_refines in blast)+

lemma run_vec_list:
  "fst (run_all vec_op (vec_with_capacity cap) xs) = fst (run_all fifo_op [] xs)"
  "vec_list (snd (run_all vec_op (vec_with_capacity cap) xs)) = snd (run_all fifo_op [] xs)"
  "vec_ok (snd (run_all vec_op (vec_with_capacity cap) xs))"
  using vec.run_all_refines[OF vec_okI[OF vec_with_capacity_rep], of cap xs]
  by (auto simp: vec_list_rep[OF vec_with_capacity_rep])

section \<open>Properties\<close>

text \<open>
  C27: the vector is a list used first in, first out. Every sequence of calls on a new vector,
  whatever capacity it was created with, gets the answers of a plain list; no call waits for
  a block, a slot or a pointer that never comes, and none touches memory that was freed.
\<close>

theorem vec_refines_list:
  "fst (run_all vec_op (vec_with_capacity cap) xs) = fst (run_all fifo_op [] xs) \<and>
   vec_list (snd (run_all vec_op (vec_with_capacity cap) xs)) = snd (run_all fifo_op [] xs)"
  by (simp add: run_vec_list)

text \<open>
  The length computed from the two packed indices is the number of elements, whatever
  blocks they are spread over, and the reported capacity exceeds it.
\<close>

theorem vec_len_exact:
  assumes "v = snd (run_all vec_op (vec_with_capacity cap) xs)"
  shows "vec_len v = length (vec_list v) \<and> (vec_is_empty v \<longleftrightarrow> vec_list v = []) \<and> vec_len v < vec_capacity v"
proof -
  have "vec_ok v" using run_vec_list(3) assms by simp
  then obtain bs rs h where rep: "vec_rep v bs rs h (vec_list v)" by (rule vec_okE)
  let ?t = "h + length (vec_list v)"
  have d: "tail_index v div 2 - head_index v div 2 = phys ?t - phys h"
    using rep by (auto simp: vec_rep_def core_rep_def Let_def)
  have "h div 31 \<le> ?t div 31" by (simp add: div_le_mono)
  then have "length (vec_list v) \<le> phys ?t - phys h"
    using mult_div_mod_eq[of 31 h] mult_div_mod_eq[of 31 ?t] unfolding phys_def by linarith
  moreover have "n < n - n mod 32 + 32" for n :: nat using mod_less_divisor[of 32 n] by linarith
  ultimately have "length (vec_list v) < vec_capacity v"
    using le_less_trans by (auto simp: vec_capacity_def Let_def d BLOCK_CAP_def)
  with vec_len_rep[OF rep] show ?thesis by (auto simp: vec_is_empty_def)
qed

theorem vec_len_exact_witness:
  "vec_len (snd (run_all vec_op (vec_with_capacity 100) [VPush (3::nat), VPush 4, VPop])) = 1"
proof -
  have "snd (run_all fifo_op [] [VPush (3::nat), VPush 4, VPop]) = [4]" by (simp add: fifo_op_def)
  with vec_len_exact[OF refl, of 100 "[VPush (3::nat), VPush 4, VPop]"]
  show ?thesis by (simp add: run_vec_list(2) del: run_all.simps)
qed

section \<open>Ownership of the blocks\<close>

lemma chain_next:
  assumes "\<forall>k<length ps. \<exists>b. vheap v (ps ! k) = Some b \<and> vnext b = next_ptr ps k"
  shows "chain v (first_ptr ps) = Some ps"
  using assms
proof (induction ps)
  case Nil
  then show ?case by (subst chain.simps) simp
next
  case (Cons p ps)
  have "vheap v (ps ! k) = Some b \<and> vnext b = next_ptr ps k \<longleftrightarrow> vheap v ((p # ps) ! Suc k) = Some b \<and> vnext b = next_ptr (p # ps) (Suc k)"
    for k b by (simp add: next_ptr_def)
  with Cons.prems have IH: "chain v (first_ptr ps) = Some ps" by (intro Cons.IH) (metis Suc_less_eq length_Cons)
  from Cons.prems obtain b where "vheap v p = Some b" "vnext b = first_ptr ps" by (cases ps) (force simp: next_ptr_def)+
  with IH show ?case by (subst chain.simps) simp
qed

lemma vec_owned_rep:
  assumes rep: "vec_rep v bs rs h xs"
  shows "vec_owned v = Some (bs @ free_list v @ rs)" "distinct (bs @ free_list v @ rs)" "set (bs @ free_list v @ rs) = dom (vheap v)"
proof -
  note c = rep[unfolded vec_rep_def core_rep_def Let_def]
  have st: "store_rep (vheap v) bs (free_list v) rs h xs" using c by blast
  have "head_block v = first_ptr bs" using c by (cases bs) auto
  moreover have "chain v (first_ptr bs) = Some bs" "chain v (first_ptr rs) = Some rs"
    using store_bs[OF st] store_rs[OF st] by (auto intro!: chain_next)
  ultimately show "vec_owned v = Some (bs @ free_list v @ rs)" using c by (simp add: vec_owned_def)
  show "distinct (bs @ free_list v @ rs)" "set (bs @ free_list v @ rs) = dom (vheap v)" using store_dom[OF st] by auto
qed

lemma block_values_none: "(\<And>i. i < length (vslots b) \<Longrightarrow> \<not> slot_written (vslots b ! i)) \<Longrightarrow> block_values b = []"
  by (auto simp: block_values_def filter_empty_conv in_set_conv_nth)

lemma split_last_slot: "length s = Suc n \<Longrightarrow> s = map ((!) s) [0..<n] @ [s ! n]"
  using map_nth[of s] by simp

lemma filter_last: "\<not> P y \<Longrightarrow> filter P (ys @ [y]) = filter P ys"
  by simp

lemma block_values_rep:
  assumes b: "block_rep b k h xs"
  shows "block_values b = map (\<lambda>l. Some (xs ! (l - h))) (filter (\<lambda>l. h \<le> l \<and> l < h + length xs) [31 * k..<31 * k + 31])"
proof -
  let ?t = "h + length xs" let ?P = "\<lambda>sl. slot_written sl \<and> vstate sl AND SLOT_READ = 0"
  have len: "length (vslots b) = 32" "vstate (vslots b ! 31) = 0" using b by (auto simp: block_rep_def)
  have sl: "?P (vslots b ! i) \<longleftrightarrow> h \<le> 31 * k + i \<and> 31 * k + i < ?t" "h \<le> 31 * k + i \<and> 31 * k + i < ?t \<Longrightarrow> vvalue (vslots b ! i) = Some (xs ! (31 * k + i - h))"
    if "i < 31" for i
  proof -
    have "vstate (vslots b ! i) = slot_state h ?t (31 * k + i)" using b that unfolding block_rep_def by blast
    then show "?P (vslots b ! i) \<longleftrightarrow> h \<le> 31 * k + i \<and> 31 * k + i < ?t"
      by (auto simp: slot_state_def slot_written_def SLOT_WRITE_def SLOT_READ_def)
    show "h \<le> 31 * k + i \<and> 31 * k + i < ?t \<Longrightarrow> vvalue (vslots b ! i) = Some (xs ! (31 * k + i - h))"
      using b that unfolding block_rep_def by blast
  qed
  have "vslots b = map ((!) (vslots b)) [0..<31] @ [vslots b ! 31]" by (rule split_last_slot) (simp add: len(1))
  moreover have "\<not> ?P (vslots b ! 31)" using len(2) by (simp add: slot_written_def)
  ultimately have "filter ?P (vslots b) = filter ?P (map ((!) (vslots b)) [0..<31])"
    using filter_last[of ?P "vslots b ! 31" "map ((!) (vslots b)) [0..<31]"] by argo
  also have "\<dots> = map ((!) (vslots b)) (filter (\<lambda>i. h \<le> 31 * k + i \<and> 31 * k + i < ?t) [0..<31])"
    unfolding filter_map comp_def by (intro arg_cong[of _ _ "map _"] filter_cong refl sl(1)) (simp only: set_upt atLeastLessThan_iff)
  finally have "block_values b = map (\<lambda>i. vvalue (vslots b ! i)) (filter (\<lambda>i. h \<le> 31 * k + i \<and> 31 * k + i < ?t) [0..<31])"
    by (simp only: block_values_def map_map comp_def)
  also have "\<dots> = map (\<lambda>i. Some (xs ! (31 * k + i - h))) (filter (\<lambda>i. h \<le> 31 * k + i \<and> 31 * k + i < ?t) [0..<31])"
    by (intro map_cong refl sl(2)) (simp_all only: set_filter set_upt atLeastLessThan_iff mem_Collect_eq)
  also have "\<dots> = map (\<lambda>l. Some (xs ! (l - h))) (filter (\<lambda>l. h \<le> l \<and> l < ?t) (map (\<lambda>i. i + 31 * k) [0..<31]))"
    by (simp only: filter_map comp_def add.commute map_map)
  finally show ?thesis by (simp only: map_add_upt add.commute add_0_right)
qed

lemma filter_upt_bounds:
  assumes "a \<le> h" "t \<le> b"
  shows "filter (\<lambda>l. h \<le> l \<and> l < t) [a..<b] = [h..<t]"
proof (cases "h \<le> t")
  case True
  then have "[a..<b] = [a..<h] @ [h..<t] @ [t..<b]"
    using assms upt_add_eq_append[of a h "b - h"] upt_add_eq_append[of h t "b - t"] by simp
  then show ?thesis by (simp add: filter_empty_conv filter_id_conv)
next
  case False
  then show ?thesis by (simp add: filter_empty_conv)
qed

lemma concat_chunks: "concat (map (\<lambda>j. filter P [31 * (a + j)..<31 * (a + j) + 31]) [0..<n]) = filter P [31 * a..<31 * (a + n)]"
proof (induction n)
  case (Suc n)
  have "[31 * a..<31 * (a + Suc n)] = [31 * a..<31 * (a + n)] @ [31 * (a + n)..<31 * (a + n) + 31]"
    using upt_add_eq_append[of "31 * a" "31 * (a + n)" 31] by (simp add: algebra_simps)
  with Suc show ?case by simp
qed simp

lemma vec_dropped_rep:
  assumes rep: "vec_rep v bs rs h xs"
  shows "vec_dropped v = Some (map Some xs)"
proof -
  let ?t = "h + length xs" let ?P = "\<lambda>l. h \<le> l \<and> l < ?t" let ?g = "\<lambda>l. Some (xs ! (l - h))"
  let ?f = "\<lambda>p. case vheap v p of None \<Rightarrow> [] | Some b \<Rightarrow> block_values b"
  note c = rep[unfolded vec_rep_def core_rep_def Let_def]
  have st: "store_rep (vheap v) bs (free_list v) rs h xs" and len: "length bs = ?t div 31 - h div 31 + 1" using c by auto
  have "?f p = []" if "p \<in> set (free_list v)" for p
    using store_fs[OF st that] by (auto simp: unused_def slot_written_def intro!: block_values_none)
  moreover have "?f p = []" if p: "p \<in> set rs" for p
  proof -
    obtain b where b: "vheap v p = Some b" "spent b" using p store_rs[OF st] by (metis in_set_conv_nth)
    have "\<not> slot_written (vslots b ! i)" if "i < length (vslots b)" for i
      using b(2) that by (cases "i = 31") (auto simp: spent_def slot_written_def SLOT_WRITE_def SLOT_READ_def)
    with b(1) show ?thesis by (simp add: block_values_none)
  qed
  moreover have "concat (map ?f bs) = map Some xs"
  proof -
    have "map ?f bs = map (\<lambda>k. ?f (bs ! k)) [0..<length bs]" by (rule nth_equalityI) simp_all
    also have "\<dots> = map (\<lambda>k. map ?g (filter ?P [31 * (h div 31 + k)..<31 * (h div 31 + k) + 31])) [0..<length bs]"
      using store_bs[OF st] block_values_rep by (intro map_cong refl) fastforce
    finally have "concat (map ?f bs) = map ?g (filter ?P [31 * (h div 31)..<31 * (h div 31 + length bs)])"
      by (simp only: concat_chunks[symmetric] map_concat map_map comp_def)
    moreover have "filter ?P [31 * (h div 31)..<31 * (h div 31 + length bs)] = [h..<?t]"
    proof -
      have "31 * (h div 31) \<le> h" by simp
      moreover have "h div 31 + length bs = ?t div 31 + 1" using chain_last(2,3)[OF len] by linarith
      then have "?t \<le> 31 * (h div 31 + length bs)"
        using mult_div_mod_eq[of 31 ?t] mod_31_bound(2)[of ?t] by simp
      ultimately show ?thesis by (auto simp: filter_upt_bounds)
    qed
    moreover have "map ?g [h..<?t] = map Some xs" by (rule nth_equalityI) simp_all
    ultimately show ?thesis by simp
  qed
  ultimately have "concat (map ?f (bs @ free_list v @ rs)) = map Some xs" by (simp add: concat_eq_Nil_conv)
  then show ?thesis by (simp add: vec_dropped_def vec_owned_rep(1)[OF rep])
qed

text \<open>
  C28: the blocks are accounted for. After any sequence of calls the live chain, the pool and the
  retired list hold every allocated block exactly once, so \<open>Drop\<close> frees each of them once and
  leaks none; the pool stays within its bound; and the values destroyed are the elements.
\<close>

theorem vec_drop_exact:
  assumes "v = snd (run_all vec_op (vec_with_capacity cap) xs)"
  shows "\<exists>ps. vec_owned v = Some ps \<and> distinct ps \<and> set ps = dom (vheap v) \<and> length (free_list v) \<le> POOL_CAP \<and>
    vec_dropped v = Some (map Some (vec_list v))"
proof -
  have "vec_ok v" using run_vec_list(3) assms by simp
  then obtain bs rs h where rep: "vec_rep v bs rs h (vec_list v)" by (rule vec_okE)
  then have "length (free_list v) \<le> POOL_CAP" by (simp add: vec_rep_def core_rep_def Let_def)
  with vec_owned_rep[OF rep] vec_dropped_rep[OF rep] show ?thesis by blast
qed

theorem vec_drop_exact_witness:
  "vec_dropped (snd (run_all vec_op (vec_with_capacity 64) [VPush (3::nat), VPush 4, VPop])) = Some [Some 4]"
proof -
  have "snd (run_all fifo_op [] [VPush (3::nat), VPush 4, VPop]) = [4]" by (simp add: fifo_op_def)
  with vec_drop_exact[OF refl, of 64 "[VPush (3::nat), VPush 4, VPop]"]
  show ?thesis by (auto simp: run_vec_list(2) simp del: run_all.simps)
qed

text \<open>A sequence of reversals and the blocks it leaves on the retired list.\<close>

fun reverse_times :: "nat \<Rightarrow> 'a vec \<Rightarrow> 'a vec option" where
  "reverse_times 0 v = Some v"
| "reverse_times (Suc n) v = (case vec_reverse v of None \<Rightarrow> None | Some w \<Rightarrow> reverse_times n w)"

lemma reverse_times_rep:
  assumes "vec_rep v bs rs h xs"
  shows "\<exists>w bs' rs'. reverse_times n v = Some w \<and> vec_rep w bs' rs' (h + n * length xs) (if even n then xs else rev xs) \<and>
    length rs' + h div 31 = length rs + (h + n * length xs) div 31"
  using assms
proof (induction n arbitrary: v bs rs h xs)
  case (Suc n)
  obtain u bs' rs' where u: "vec_reverse v = Some u" "vec_rep u bs' rs' (h + length xs) (rev xs)"
    "length rs' + h div 31 = length rs + (h + length xs) div 31" using vec_reverse_rep[OF Suc.prems] by blast
  from Suc.IH[OF u(2)] obtain w bs'' rs'' where w: "reverse_times n u = Some w"
    "vec_rep w bs'' rs'' (h + length xs + n * length xs) (if even n then rev xs else xs)"
    "length rs'' + (h + length xs) div 31 = length rs' + (h + length xs + n * length xs) div 31"
    by (simp only: length_rev rev_rev_ident) blast
  have "length rs'' + h div 31 = length rs + (h + Suc n * length xs) div 31" using u(3) w(3) by (simp add: add.assoc)
  with u(1) w(1,2) show ?case by (intro exI[of _ w] exI[of _ bs''] exI[of _ rs'']) (auto simp: add.assoc)
qed auto

text \<open>
  Rebuilding operations never reclaim. \<open>reverse\<close> (and \<open>remove\<close>, which pops in the same way)
  ignores the reclamation signal of the pops it makes: on a vector of \<open>31\<close> or more elements each
  reversal adds at least \<open>len div 31\<close> blocks to the retired list and none is ever recycled, so
  the backlog passes every bound.
\<close>

theorem vec_reverse_backlog:
  assumes "v = snd (run_all vec_op (vec_with_capacity cap) xs)"
  shows "\<exists>w. reverse_times n v = Some w \<and> retired_count v + n * (vec_len v div 31) \<le> retired_count w"
proof -
  have "vec_ok v" using run_vec_list(3) assms by simp
  then obtain bs rs h where rep: "vec_rep v bs rs h (vec_list v)" by (rule vec_okE)
  let ?k = "length (vec_list v)"
  obtain w bs' rs' where w: "reverse_times n v = Some w"
    "vec_rep w bs' rs' (h + n * ?k) (if even n then vec_list v else rev (vec_list v))"
    "length rs' + h div 31 = length rs + (h + n * ?k) div 31" using reverse_times_rep[OF rep, of n] by blast
  have "31 * (n * (?k div 31)) \<le> n * ?k" using mult_le_mono2[of "31 * (?k div 31)" ?k n] by (simp add: mult.left_commute)
  then have "(h + 31 * (n * (?k div 31))) div 31 \<le> (h + n * ?k) div 31" by (intro div_le_mono) simp
  then have "length rs + n * (?k div 31) \<le> length rs'" using w(3) by simp
  then show ?thesis using rep w(1,2) vec_len_rep[OF rep] by (auto simp: vec_rep_def)
qed

theorem vec_reverse_backlog_witness:
  "\<exists>v w. vec_list v = replicate 62 (7::nat) \<and> reverse_times 300 v = Some w \<and> 600 \<le> retired_count w"
proof -
  let ?v = "snd (run_all vec_op (vec_with_capacity 0) [VPushBatch (replicate 62 (7::nat))])"
  have "vec_list ?v = replicate 62 7" by (simp add: run_vec_list(2) del: run_all.simps) (simp add: fifo_op_def)
  moreover from this have "vec_len ?v = 62"
    using vec_okE[OF run_vec_list(3)] vec_len_rep by (metis length_replicate)
  moreover obtain w where "reverse_times 300 ?v = Some w" "retired_count ?v + 300 * (vec_len ?v div 31) \<le> retired_count w"
    using vec_reverse_backlog[OF refl, of 300 0 "[VPushBatch (replicate 62 (7::nat))]"] by blast
  ultimately have "vec_list ?v = replicate 62 7 \<and> reverse_times 300 ?v = Some w \<and> 600 \<le> retired_count w" by simp
  then show ?thesis by blast
qed

end
