(* ===== verification/Vec_Conc.thy ===== *)
theory Vec_Conc
  imports Vec_Rep
begin

text \<open>
  \<open>push\<close> and \<open>pop\<close> of \<open>AtomicVec\<close> (\<open>src/atomic/vec.rs\<close>) run by any number of threads, with one step per
  access to shared memory: the loads and the compare-and-swap of the packed indices, the
  linking of the next block, the slot states, the read counter of a block, the list of retired
  blocks. The fields of the vector, the blocks and the pool are those of \<open>Vec\<close>. An access
  through a null or dangling pointer has no successor state.

  A thread is pinned between \<open>coord_lock.shared()\<close> and the drop of that guard. The exclusive side of the
  coordination lock is entered when no thread is pinned (theory \<open>Coord\<close>), so \<open>reclaim_retired\<close> is one
  step. The pool is touched by the one thread that installs a block, and under exclusion.

  Ghost fields: the block addresses in the order of their installation (\<open>vblk\<close>, \<open>vnb\<close> of them, the
  first \<open>vbase\<close> reclaimed), the numbers of the blocks on the retired list, the pushed values in
  the order of their reservations, and the rank and value of every completed pop.
\<close>

section \<open>States\<close>

datatype 'a vpc =
    VIdle
  | PStart 'a                                    \<comment> \<open>\<open>push_internal\<close>: load the tail index\<close>
  | PBlk 'a nat                                  \<comment> \<open>load the tail block\<close>
  | PCas 'a nat "addr option"
  | PAcquire 'a nat "addr option"                \<comment> \<open>the last slot was reserved: get a block\<close>
  | PNext 'a nat "addr option" addr
  | PCache 'a nat "addr option" addr
  | PTailB 'a nat "addr option" addr
  | PTailI 'a nat "addr option"
  | PWrite 'a nat "addr option"
  | PPub 'a nat "addr option"
  | QStart                                       \<comment> \<open>\<open>pop_raw\<close>: load the head index\<close>
  | QBlk nat                                     \<comment> \<open>load the head block\<close>
  | QTail nat "addr option"                      \<comment> \<open>compare the tail\<close>
  | QCas nat nat "addr option"
  | QNext nat nat "addr option"                  \<comment> \<open>\<open>wait_next\<close>\<close>
  | QGet nat nat "addr option" addr              \<comment> \<open>\<open>get_next\<close>\<close>
  | QHeadB nat "addr option" addr nat
  | QHeadI nat "addr option" nat
  | QWait nat "addr option"                      \<comment> \<open>\<open>wait_write_raw\<close>\<close>
  | QRead nat "addr option"
  | QMark nat "addr option" "'a option"
  | QCount nat "addr option" "'a option"
  | QRetLoad nat "addr option" "'a option"       \<comment> \<open>\<open>retire\<close>\<close>
  | QRetNext nat "addr option" "'a option" "addr option"
  | QRetCas nat "addr option" "'a option" "addr option"
  | QRetCnt nat "'a option"
  | QTry nat "'a option"                         \<comment> \<open>\<open>try_reclaim\<close>, no longer pinned\<close>
  | QExcl nat "'a option" bool

datatype 'a vanswer = VPushed | VPopped "'a option" | VEmpty

record 'a vsys =
  vv :: "'a vec"
  vthreads :: nat
  vpc :: "tid \<Rightarrow> 'a vpc"
  vans :: "tid \<Rightarrow> 'a vanswer option"
  vblk :: "nat \<Rightarrow> addr"
  vnb :: nat
  vbase :: nat
  vrl :: "nat list"
  venq :: "'a list"
  vgone :: "(nat \<times> 'a option) list"

datatype 'a vact = VPush tid 'a | VPop tid | VGo tid bool

text \<open>The number of usable slots before a physical index.\<close>

definition rank :: "nat \<Rightarrow> nat" where
  "rank t = (BLOCK_CAP - 1) * (t div BLOCK_CAP) + min (t mod BLOCK_CAP) (BLOCK_CAP - 1)"

definition vsys_new :: "nat \<Rightarrow> 'a vsys" where
  "vsys_new n =
     \<lparr>vv = vec_new, vthreads = n, vpc = (\<lambda>_. VIdle), vans = (\<lambda>_. None), vblk = (\<lambda>_. 0), vnb = 1, vbase = 0,
      vrl = [], venq = [], vgone = []\<rparr>"

definition vgo :: "'a vsys \<Rightarrow> tid \<Rightarrow> 'a vpc \<Rightarrow> 'a vsys" where
  "vgo s i pc = s\<lparr>vpc := (vpc s)(i := pc)\<rparr>"

definition vret :: "'a vsys \<Rightarrow> tid \<Rightarrow> 'a vanswer \<Rightarrow> 'a vsys" where
  "vret s i r = s\<lparr>vpc := (vpc s)(i := VIdle), vans := (vans s)(i := Some r)\<rparr>"

definition vpopped :: "'a vsys \<Rightarrow> tid \<Rightarrow> nat \<Rightarrow> 'a option \<Rightarrow> 'a vsys" where
  "vpopped s i h v = (vret s i (VPopped v))\<lparr>vgone := vgone s @ [(rank (h div 2), v)]\<rparr>"

definition deref :: "'a vec \<Rightarrow> addr option \<Rightarrow> 'a vblock option" where
  "deref v p = (case p of None \<Rightarrow> None | Some a \<Rightarrow> vheap v a)"

definition set_block :: "'a vec \<Rightarrow> addr option \<Rightarrow> 'a vblock \<Rightarrow> 'a vec" where
  "set_block v p b = v\<lparr>vheap := (vheap v)(the p \<mapsto> b)\<rparr>"

definition offset_of :: "nat \<Rightarrow> nat" where
  "offset_of t = t div 2 mod BLOCK_CAP"

section \<open>push\<close>

fun vec_push_step :: "'a vsys \<Rightarrow> tid \<Rightarrow> bool \<Rightarrow> 'a vpc \<Rightarrow> 'a vsys option" where
  "vec_push_step s i w (PStart x) = Some (vgo s i (PBlk x (tail_index (vv s))))"
| "vec_push_step s i w (PBlk x t) =
     Some (vgo s i (if offset_of t = BLOCK_CAP - 1 then PStart x else PCas x t (tail_block (vv s))))"
| "vec_push_step s i w (PCas x t b) =
     (if tail_index (vv s) = t \<and> \<not> w then
        Some ((vgo s i (if offset_of t + 1 = BLOCK_CAP - 1 then PAcquire x t b else PWrite x t b))
                \<lparr>vv := (vv s)\<lparr>tail_index := t + 2\<rparr>, venq := venq s @ [x]\<rparr>)
      else Some (vgo s i (PBlk x (tail_index (vv s)))))"
| "vec_push_step s i w (PAcquire x t b) =
     (let (nx, v) = acquire_block (vv s) in Some ((vgo s i (PNext x t b nx))\<lparr>vv := v\<rparr>))"
| "vec_push_step s i w (PNext x t b nx) =
     (case deref (vv s) b of
        None \<Rightarrow> None
      | Some c \<Rightarrow>
          Some ((vgo s i (PCache x t b nx))
                  \<lparr>vv := set_block (vv s) b (c\<lparr>vnext := Some nx\<rparr>), vblk := (vblk s)(vnb s := nx), vnb := vnb s + 1\<rparr>))"
| "vec_push_step s i w (PCache x t b nx) =
     Some ((vgo s i (PTailB x t b nx))
             \<lparr>vv := (vv s)\<lparr>cache := block_array_set (cache (vv s)) ((t + 2) div 2 div BLOCK_CAP + 1) (Some nx)\<rparr>\<rparr>)"
| "vec_push_step s i w (PTailB x t b nx) =
     Some ((vgo s i (PTailI x t b))\<lparr>vv := (vv s)\<lparr>tail_block := Some nx\<rparr>\<rparr>)"
| "vec_push_step s i w (PTailI x t b) =
     Some ((vgo s i (PWrite x t b))\<lparr>vv := (vv s)\<lparr>tail_index := t + 2 + 2\<rparr>\<rparr>)"
| "vec_push_step s i w (PWrite x t b) =
     (case deref (vv s) b of
        None \<Rightarrow> None
      | Some c \<Rightarrow>
          let k = offset_of t in
          Some ((vgo s i (PPub x t b))
                  \<lparr>vv := set_block (vv s) b (c\<lparr>vslots := (vslots c)[k := (vslots c ! k)\<lparr>vvalue := Some x\<rparr>]\<rparr>)\<rparr>))"
| "vec_push_step s i w (PPub x t b) =
     (case deref (vv s) b of
        None \<Rightarrow> None
      | Some c \<Rightarrow>
          let k = offset_of t in
          Some ((vret s i VPushed)
                  \<lparr>vv := set_block (vv s) b (c\<lparr>vslots := (vslots c)[k := (vslots c ! k)\<lparr>vstate := SLOT_WRITE\<rparr>]\<rparr>)\<rparr>))"
| "vec_push_step s i w _ = None"

section \<open>pop\<close>

text \<open>\<open>new_head\<close>: a head in a block before the block of the tail gets the \<open>HAS_NEXT\<close> bit.\<close>

definition new_head :: "nat \<Rightarrow> nat \<Rightarrow> nat" where
  "new_head h t =
     (if (h + 2) mod 2 = 0 \<and> h div 2 div BLOCK_CAP \<noteq> t div 2 div BLOCK_CAP then h + 2 + 1 else h + 2)"

fun vec_pop_step :: "'a vsys \<Rightarrow> tid \<Rightarrow> bool \<Rightarrow> 'a vpc \<Rightarrow> 'a vsys option" where
  "vec_pop_step s i w QStart = Some (vgo s i (QBlk (head_index (vv s))))"
| "vec_pop_step s i w (QBlk h) =
     (let b = head_block (vv s) in
      Some (vgo s i (if offset_of h = BLOCK_CAP - 1 \<or> b = None then QStart
                     else if (h + 2) mod 2 = 0 then QTail h b else QCas h (h + 2) b)))"
| "vec_pop_step s i w (QTail h b) =
     (let t = tail_index (vv s) in
      if h div 2 = t div 2 then Some (vret s i VEmpty) else Some (vgo s i (QCas h (new_head h t) b)))"
| "vec_pop_step s i w (QCas h nh b) =
     (if head_index (vv s) = h \<and> \<not> w then
        Some ((vgo s i (if offset_of h + 1 = BLOCK_CAP - 1 then QNext h nh b else QWait h b))
                \<lparr>vv := (vv s)\<lparr>head_index := nh\<rparr>\<rparr>)
      else Some (vgo s i (QBlk (head_index (vv s)))))"
| "vec_pop_step s i w (QNext h nh b) =
     (case deref (vv s) b of
        None \<Rightarrow> None
      | Some c \<Rightarrow> (case vnext c of None \<Rightarrow> Some s | Some nx \<Rightarrow> Some (vgo s i (QGet h nh b nx))))"
| "vec_pop_step s i w (QGet h nh b nx) =
     (case deref (vv s) (Some nx) of
        None \<Rightarrow> None
      | Some c \<Rightarrow> Some (vgo s i (QHeadB h b nx (nh - nh mod 2 + 2 + (if vnext c = None then 0 else 1)))))"
| "vec_pop_step s i w (QHeadB h b nx ni) =
     Some ((vgo s i (QHeadI h b ni))\<lparr>vv := (vv s)\<lparr>head_block := Some nx\<rparr>\<rparr>)"
| "vec_pop_step s i w (QHeadI h b ni) =
     Some ((vgo s i (QWait h b))\<lparr>vv := (vv s)\<lparr>head_index := ni\<rparr>\<rparr>)"
| "vec_pop_step s i w (QWait h b) =
     (case deref (vv s) b of
        None \<Rightarrow> None
      | Some c \<Rightarrow> Some (if slot_written (vslots c ! offset_of h) then vgo s i (QRead h b) else s))"
| "vec_pop_step s i w (QRead h b) =
     (case deref (vv s) b of
        None \<Rightarrow> None
      | Some c \<Rightarrow> Some (vgo s i (QMark h b (vvalue (vslots c ! offset_of h)))))"
| "vec_pop_step s i w (QMark h b v) =
     (case deref (vv s) b of
        None \<Rightarrow> None
      | Some c \<Rightarrow>
          let k = offset_of h in
          Some ((vgo s i (QCount h b v))
                  \<lparr>vv := set_block (vv s) b (c\<lparr>vslots := (vslots c)[k := (vslots c ! k)\<lparr>vstate := SLOT_READ\<rparr>]\<rparr>)\<rparr>))"
| "vec_pop_step s i w (QCount h b v) =
     (case deref (vv s) b of
        None \<Rightarrow> None
      | Some c \<Rightarrow>
          let n = vcounters c + 1; s' = s\<lparr>vv := set_block (vv s) b (c\<lparr>vcounters := n\<rparr>)\<rparr> in
          Some (if n = BLOCK_CAP - 1 then vgo s' i (QRetLoad h b v) else vpopped s' i h v))"
| "vec_pop_step s i w _ = None"

section \<open>retire and try\_reclaim\<close>

fun unpinned :: "'a vpc \<Rightarrow> bool" where
  "unpinned VIdle = True"
| "unpinned (QTry h v) = True"
| "unpinned (QExcl h v m) = True"
| "unpinned _ = False"

fun vec_retire_step :: "'a vsys \<Rightarrow> tid \<Rightarrow> bool \<Rightarrow> 'a vpc \<Rightarrow> 'a vsys option" where
  "vec_retire_step s i w (QRetLoad h b v) = Some (vgo s i (QRetNext h b v (retired (vv s))))"
| "vec_retire_step s i w (QRetNext h b v nx) =
     (case deref (vv s) b of
        None \<Rightarrow> None
      | Some c \<Rightarrow> Some ((vgo s i (QRetCas h b v nx))\<lparr>vv := set_block (vv s) b (c\<lparr>vnext := nx\<rparr>)\<rparr>))"
| "vec_retire_step s i w (QRetCas h b v nx) =
     (if retired (vv s) = nx \<and> \<not> w then
        Some ((vgo s i (QRetCnt h v))
                \<lparr>vv := (vv s)\<lparr>retired := b\<rparr>, vrl := h div 2 div BLOCK_CAP # vrl s\<rparr>)
      else Some (vgo s i (QRetNext h b v (retired (vv s)))))"
| "vec_retire_step s i w (QRetCnt h v) =
     (let r = retired_count (vv s) + 1; s' = s\<lparr>vv := (vv s)\<lparr>retired_count := r\<rparr>\<rparr> in
      Some (if 64 \<le> r \<and> r mod 64 = 0 then vgo s' i (QTry h v) else vpopped s' i h v))"
| "vec_retire_step s i w (QTry h v) =
     (let n = retired_count (vv s) in
      Some (if n = 0 then vpopped s i h v else vgo s i (QExcl h v (512 \<le> n))))"
| "vec_retire_step s i w (QExcl h v must) =
     (if list_all (\<lambda>j. unpinned (vpc s j)) [0..<vthreads s] \<and> (must \<or> \<not> w) then
        (case reclaim_retired (vv s) of
           None \<Rightarrow> None
         | Some u \<Rightarrow>
             Some ((vpopped s i h v)\<lparr>vv := u, vbase := head_index (vv s) div 2 div BLOCK_CAP, vrl := []\<rparr>))
      else Some (if must then s else vpopped s i h v))"
| "vec_retire_step s i w _ = None"

section \<open>Steps\<close>

fun pushing :: "'a vpc \<Rightarrow> bool" where
  "pushing (PStart x) = True"
| "pushing (PBlk x t) = True"
| "pushing (PCas x t b) = True"
| "pushing (PAcquire x t b) = True"
| "pushing (PNext x t b nx) = True"
| "pushing (PCache x t b nx) = True"
| "pushing (PTailB x t b nx) = True"
| "pushing (PTailI x t b) = True"
| "pushing (PWrite x t b) = True"
| "pushing (PPub x t b) = True"
| "pushing _ = False"

fun retiring :: "'a vpc \<Rightarrow> bool" where
  "retiring (QRetLoad h b v) = True"
| "retiring (QRetNext h b v nx) = True"
| "retiring (QRetCas h b v nx) = True"
| "retiring (QRetCnt h v) = True"
| "retiring (QTry h v) = True"
| "retiring (QExcl h v m) = True"
| "retiring _ = False"

fun vec_step :: "'a vact \<Rightarrow> 'a vsys \<Rightarrow> 'a vsys option" where
  "vec_step (VPush i x) s = (if i < vthreads s \<and> vpc s i = VIdle then Some (vgo s i (PStart x)) else None)"
| "vec_step (VPop i) s = (if i < vthreads s \<and> vpc s i = VIdle then Some (vgo s i QStart) else None)"
| "vec_step (VGo i w) s =
     (if i < vthreads s then
        (if pushing (vpc s i) then vec_push_step s i w (vpc s i)
         else if retiring (vpc s i) then vec_retire_step s i w (vpc s i)
         else vec_pop_step s i w (vpc s i))
      else None)"

end
