(* ===== verification/Vec_Conc_Inv.thy ===== *)
theory Vec_Conc_Inv
  imports Vec_Conc
begin

text \<open>
  The invariant of concurrent \<open>push\<close> and \<open>pop\<close>. The slot of rank \<open>r\<close> is the one of block \<open>r div 31\<close> at offset
  \<open>r mod 31\<close>; a push and a pop own the rank they reserved until they are done with the slot. Nothing
  here compares the head with the tail: a pop may reserve a rank before the push of that rank
  does, and then waits.
\<close>

section \<open>Ownership\<close>

definition owns :: "('p \<Rightarrow> 'x option) \<Rightarrow> nat \<Rightarrow> (tid \<Rightarrow> 'p) \<Rightarrow> 'x \<Rightarrow> bool" where
  "owns f n pcs x \<longleftrightarrow> (\<exists>i<n. f (pcs i) = Some x)"

definition sole :: "('p \<Rightarrow> 'x option) \<Rightarrow> nat \<Rightarrow> (tid \<Rightarrow> 'p) \<Rightarrow> bool" where
  "sole f n pcs \<longleftrightarrow> (\<forall>i<n. \<forall>j<n. \<forall>x. f (pcs i) = Some x \<and> f (pcs j) = Some x \<longrightarrow> i = j)"

lemma ownsI: "i < n \<Longrightarrow> f (pcs i) = Some x \<Longrightarrow> owns f n pcs x"
  by (auto simp: owns_def)

lemma owns_keep: "i < n \<Longrightarrow> f q = f (pcs i) \<Longrightarrow> owns f n (pcs(i := q)) = owns f n pcs"
  unfolding owns_def fun_eq_iff by (metis fun_upd_apply)

lemma owns_new: "i < n \<Longrightarrow> f (pcs i) = None \<Longrightarrow> owns f n (pcs(i := q)) x \<longleftrightarrow> f q = Some x \<or> owns f n pcs x"
  unfolding owns_def by (metis fun_upd_apply option.distinct(1))

lemma owns_gone:
  assumes "i < n" "sole f n pcs" "f (pcs i) = Some y" "f q = None"
  shows "owns f n (pcs(i := q)) x \<longleftrightarrow> owns f n pcs x \<and> x \<noteq> y"
proof
  assume "owns f n (pcs(i := q)) x"
  then obtain j where j: "j < n" "f ((pcs(i := q)) j) = Some x" by (auto simp: owns_def)
  with assms(4) have "j \<noteq> i" by auto
  with j assms(1-3) show "owns f n pcs x \<and> x \<noteq> y" unfolding owns_def sole_def by (metis fun_upd_apply)
next
  assume "owns f n pcs x \<and> x \<noteq> y"
  with assms(3) show "owns f n (pcs(i := q)) x" unfolding owns_def by (metis fun_upd_apply option.inject)
qed

lemma sole_keep: "i < n \<Longrightarrow> sole f n pcs \<Longrightarrow> f q = f (pcs i) \<or> f q = None \<Longrightarrow> sole f n (pcs(i := q))"
  unfolding sole_def by (metis fun_upd_apply option.distinct(1))

lemma sole_new:
  assumes "i < n" "sole f n pcs" "\<And>x. f q = Some x \<Longrightarrow> \<not> owns f n pcs x"
  shows "sole f n (pcs(i := q))"
  using assms unfolding sole_def owns_def by (metis fun_upd_apply)

lemma sole_other: "sole f n pcs \<Longrightarrow> i < n \<Longrightarrow> j < n \<Longrightarrow> f (pcs i) = Some x \<Longrightarrow> i \<noteq> j \<Longrightarrow> f (pcs j) \<noteq> Some x"
  by (auto simp: sole_def)

lemma sole_sub:
  assumes "sole f n pcs" "\<And>p x. g p = Some x \<Longrightarrow> f p = Some (h x)"
  shows "sole g n pcs"
  using assms unfolding sole_def by blast

fun pushr :: "'a vpc \<Rightarrow> nat option" where
  "pushr (PAcquire x t b) = Some (rank (t div 2))"
| "pushr (PNext x t b nx) = Some (rank (t div 2))"
| "pushr (PCache x t b nx) = Some (rank (t div 2))"
| "pushr (PTailB x t b nx) = Some (rank (t div 2))"
| "pushr (PTailI x t b) = Some (rank (t div 2))"
| "pushr (PWrite x t b) = Some (rank (t div 2))"
| "pushr (PPub x t b) = Some (rank (t div 2))"
| "pushr _ = None"

fun filled :: "'a vpc \<Rightarrow> nat option" where
  "filled (PPub x t b) = Some (rank (t div 2))"
| "filled _ = None"

fun inst :: "'a vpc \<Rightarrow> unit option" where
  "inst (PAcquire x t b) = Some ()"
| "inst (PNext x t b nx) = Some ()"
| "inst (PCache x t b nx) = Some ()"
| "inst (PTailB x t b nx) = Some ()"
| "inst (PTailI x t b) = Some ()"
| "inst _ = None"

fun popr :: "'a vpc \<Rightarrow> nat option" where
  "popr (QNext h nh b) = Some (rank (h div 2))"
| "popr (QGet h nh b nx) = Some (rank (h div 2))"
| "popr (QHeadB h b nx ni) = Some (rank (h div 2))"
| "popr (QHeadI h b ni) = Some (rank (h div 2))"
| "popr (QWait h b) = Some (rank (h div 2))"
| "popr (QRead h b) = Some (rank (h div 2))"
| "popr (QMark h b v) = Some (rank (h div 2))"
| "popr _ = None"

fun cntr :: "'a vpc \<Rightarrow> nat option" where
  "cntr (QCount h b v) = Some (rank (h div 2))"
| "cntr pc = popr pc"

fun heldr :: "'a vpc \<Rightarrow> nat option" where
  "heldr (QRetLoad h b v) = Some (rank (h div 2))"
| "heldr (QRetNext h b v nx) = Some (rank (h div 2))"
| "heldr (QRetCas h b v nx) = Some (rank (h div 2))"
| "heldr (QRetCnt h v) = Some (rank (h div 2))"
| "heldr (QTry h v) = Some (rank (h div 2))"
| "heldr (QExcl h v m) = Some (rank (h div 2))"
| "heldr pc = cntr pc"

fun mov :: "'a vpc \<Rightarrow> unit option" where
  "mov (QNext h nh b) = Some ()"
| "mov (QGet h nh b nx) = Some ()"
| "mov (QHeadB h b nx ni) = Some ()"
| "mov (QHeadI h b ni) = Some ()"
| "mov _ = None"

fun linkd :: "'a vpc \<Rightarrow> (nat \<times> addr option) option" where
  "linkd (QRetCas h b v nx) = Some (h div 2 div 32, nx)"
| "linkd _ = None"

fun retr :: "'a vpc \<Rightarrow> nat option" where
  "retr (QRetLoad h b v) = Some (h div 2 div 32)"
| "retr (QRetNext h b v nx) = Some (h div 2 div 32)"
| "retr (QRetCas h b v nx) = Some (h div 2 div 32)"
| "retr _ = None"

abbreviation own :: "('a vpc \<Rightarrow> 'x option) \<Rightarrow> 'a vsys \<Rightarrow> 'x \<Rightarrow> bool" where
  "own f s \<equiv> owns f (vthreads s) (vpc s)"

section \<open>The invariant\<close>

abbreviation claimed :: "'a vsys \<Rightarrow> nat" where
  "claimed s \<equiv> rank (head_index (vv s) div 2)"

definition in_block :: "'a vsys \<Rightarrow> nat \<Rightarrow> addr option \<Rightarrow> bool" where
  "in_block s t b \<longleftrightarrow> offset_of t < 31 \<and> vbase s \<le> t div 2 div 32 \<and> t div 2 div 32 < vnb s \<and>
     b = Some (vblk s (t div 2 div 32))"

definition push_own :: "'a vsys \<Rightarrow> 'a \<Rightarrow> nat \<Rightarrow> addr option \<Rightarrow> bool" where
  "push_own s x t b \<longleftrightarrow> in_block s t b \<and> rank (t div 2) < length (venq s) \<and> venq s ! rank (t div 2) = x"

definition installing :: "'a vsys \<Rightarrow> nat \<Rightarrow> nat \<Rightarrow> bool" where
  "installing s t d \<longleftrightarrow> offset_of t = 30 \<and> tail_index (vv s) = t + 2 \<and> vnb s = t div 2 div 32 + d"

definition pop_own :: "'a vsys \<Rightarrow> nat \<Rightarrow> addr option \<Rightarrow> bool" where
  "pop_own s h b \<longleftrightarrow> in_block s h b \<and> rank (h div 2) < claimed s"

definition moving :: "'a vsys \<Rightarrow> nat \<Rightarrow> bool" where
  "moving s h \<longleftrightarrow> offset_of h = 30 \<and> head_index (vv s) div 2 = h div 2 + 1"

definition moved :: "'a vsys \<Rightarrow> nat \<Rightarrow> addr \<Rightarrow> bool" where
  "moved s h nx \<longleftrightarrow> Suc (h div 2 div 32) < vnb s \<and> nx = vblk s (Suc (h div 2 div 32))"

definition ready :: "'a vsys \<Rightarrow> nat \<Rightarrow> bool" where
  "ready s r \<longleftrightarrow> r < length (venq s) \<and> \<not> own pushr s r"

definition got :: "'a vsys \<Rightarrow> nat \<Rightarrow> 'a option \<Rightarrow> bool" where
  "got s h v \<longleftrightarrow> rank (h div 2) < claimed s \<and> ready s (rank (h div 2)) \<and> v = Some (venq s ! rank (h div 2))"

definition pristine :: "'a vsys \<Rightarrow> addr \<Rightarrow> bool" where
  "pristine s p \<longleftrightarrow> (\<exists>c. vheap (vv s) p = Some c \<and> unused c) \<and> p \<notin> vblk s ` {vbase s..<vnb s}"

fun tok :: "'a vsys \<Rightarrow> 'a vpc \<Rightarrow> bool" where
  "tok s (PBlk x t) = (t \<le> tail_index (vv s))"
| "tok s (PCas x t b) =
     (t \<le> tail_index (vv s) \<and> offset_of t \<noteq> 31 \<and> (t = tail_index (vv s) \<longrightarrow> b = tail_block (vv s)))"
| "tok s (PAcquire x t b) = (push_own s x t b \<and> installing s t 1)"
| "tok s (PNext x t b nx) =
     (push_own s x t b \<and> installing s t 1 \<and> pristine s nx \<and> nx \<notin> set (free_list (vv s)))"
| "tok s (PCache x t b nx) = (push_own s x t b \<and> installing s t 2 \<and> nx = vblk s (Suc (t div 2 div 32)))"
| "tok s (PTailB x t b nx) = (push_own s x t b \<and> installing s t 2 \<and> nx = vblk s (Suc (t div 2 div 32)))"
| "tok s (PTailI x t b) =
     (push_own s x t b \<and> installing s t 2 \<and> tail_block (vv s) = Some (vblk s (Suc (t div 2 div 32))))"
| "tok s (PWrite x t b) = push_own s x t b"
| "tok s (PPub x t b) = push_own s x t b"
| "tok s (QBlk h) = (h \<le> head_index (vv s))"
| "tok s (QTail h b) =
     (h \<le> head_index (vv s) \<and> offset_of h \<noteq> 31 \<and> (h = head_index (vv s) \<longrightarrow> b = head_block (vv s)))"
| "tok s (QCas h nh b) =
     (h \<le> head_index (vv s) \<and> offset_of h \<noteq> 31 \<and> (h = head_index (vv s) \<longrightarrow> b = head_block (vv s)) \<and>
      nh div 2 = h div 2 + 1)"
| "tok s (QNext h nh b) = (pop_own s h b \<and> moving s h \<and> nh div 2 = h div 2 + 1)"
| "tok s (QGet h nh b nx) = (pop_own s h b \<and> moving s h \<and> nh div 2 = h div 2 + 1 \<and> moved s h nx)"
| "tok s (QHeadB h b nx ni) = (pop_own s h b \<and> moving s h \<and> ni div 2 = h div 2 + 2 \<and> moved s h nx)"
| "tok s (QHeadI h b ni) =
     (pop_own s h b \<and> moving s h \<and> ni div 2 = h div 2 + 2 \<and>
      (\<exists>nx. moved s h nx \<and> head_block (vv s) = Some nx))"
| "tok s (QWait h b) = pop_own s h b"
| "tok s (QRead h b) = (pop_own s h b \<and> ready s (rank (h div 2)))"
| "tok s (QMark h b v) = (pop_own s h b \<and> got s h v)"
| "tok s (QCount h b v) = (pop_own s h b \<and> got s h v)"
| "tok s (QRetLoad h b v) = (pop_own s h b \<and> got s h v)"
| "tok s (QRetNext h b v nx) = (pop_own s h b \<and> got s h v)"
| "tok s (QRetCas h b v nx) = (pop_own s h b \<and> got s h v)"
| "tok s (QRetCnt h v) = got s h v"
| "tok s (QTry h v) = got s h v"
| "tok s (QExcl h v m) = got s h v"
| "tok s _ = True"

definition slot_ok :: "'a vsys \<Rightarrow> nat \<Rightarrow> 'a vslot \<Rightarrow> bool" where
  "slot_ok s r c \<longleftrightarrow>
     (if length (venq s) \<le> r \<or> own pushr s r then vstate c = 0 \<and> (own filled s r \<longrightarrow> vvalue c = Some (venq s ! r))
      else if claimed s \<le> r \<or> own popr s r then vstate c = SLOT_WRITE \<and> vvalue c = Some (venq s ! r)
      else vstate c = SLOT_READ)"

definition counted :: "'a vsys \<Rightarrow> nat \<Rightarrow> nat set" where
  "counted s k = {r. r div 31 = k \<and> r < claimed s \<and> \<not> own cntr s r}"

definition block_ok :: "'a vsys \<Rightarrow> nat \<Rightarrow> 'a vblock \<Rightarrow> bool" where
  "block_ok s k c \<longleftrightarrow>
     length (vslots c) = 32 \<and> vcounters c = card (counted s k) \<and>
     (vcounters c < 31 \<longrightarrow> vnext c = (if Suc k < vnb s then Some (vblk s (Suc k)) else None)) \<and>
     (\<forall>nx. own linkd s (k, nx) \<longrightarrow> vnext c = nx) \<and>
     (vcounters c = 31 \<longleftrightarrow> own retr s k \<or> k \<in> set (vrl s)) \<and>
     (\<forall>j<31. slot_ok s (31 * k + j) (vslots c ! j))"

definition blocks_ok :: "'a vsys \<Rightarrow> bool" where
  "blocks_ok s \<longleftrightarrow>
     (\<forall>k. vbase s \<le> k \<and> k < vnb s \<longrightarrow> (\<exists>c. vheap (vv s) (vblk s k) = Some c \<and> block_ok s k c))"

definition index_ok :: "'a vsys \<Rightarrow> bool" where
  "index_ok s \<longleftrightarrow>
     (let T = tail_index (vv s) div 2; H = head_index (vv s) div 2 in
      even (tail_index (vv s)) \<and> length (venq s) = rank T \<and>
      vbase s \<le> H div 32 \<and> H div 32 < vnb s \<and> T div 32 < vnb s \<and>
      (if T mod 32 = 31 then own inst s ()
       else \<not> own inst s () \<and> tail_block (vv s) = Some (vblk s (T div 32)) \<and> vnb s = T div 32 + 1) \<and>
      (if H mod 32 = 31 then own mov s ()
       else \<not> own mov s () \<and> head_block (vv s) = Some (vblk s (H div 32))))"

definition pool_ok :: "'a vsys \<Rightarrow> bool" where
  "pool_ok s \<longleftrightarrow>
     inj_on (vblk s) {vbase s..<vnb s} \<and> distinct (free_list (vv s)) \<and>
     (\<forall>p\<in>set (free_list (vv s)). pristine s p) \<and> (\<forall>p\<in>dom (vheap (vv s)). p < vfresh (vv s))"

definition retired_ok :: "'a vsys \<Rightarrow> bool" where
  "retired_ok s \<longleftrightarrow>
     distinct (vrl s) \<and> (\<forall>k\<in>set (vrl s). vbase s \<le> k \<and> k < vnb s \<and> \<not> own retr s k) \<and>
     retired (vv s) = first_ptr (map (vblk s) (vrl s)) \<and>
     (\<forall>j<length (vrl s). \<exists>c. vheap (vv s) (vblk s (vrl s ! j)) = Some c \<and>
        vnext c = next_ptr (map (vblk s) (vrl s)) j)"

definition sole_ok :: "'a vsys \<Rightarrow> bool" where
  "sole_ok s \<longleftrightarrow> sole pushr (vthreads s) (vpc s) \<and> sole heldr (vthreads s) (vpc s) \<and> sole inst (vthreads s) (vpc s) \<and>
     sole mov (vthreads s) (vpc s) \<and> sole retr (vthreads s) (vpc s)"

definition gone_ok :: "'a vsys \<Rightarrow> bool" where
  "gone_ok s \<longleftrightarrow>
     (\<forall>(r, v)\<in>set (vgone s). ready s r \<and> v = Some (venq s ! r)) \<and> distinct (map fst (vgone s)) \<and>
     (\<forall>r. r \<in> fst ` set (vgone s) \<longleftrightarrow> r < claimed s \<and> \<not> own heldr s r)"

definition vec_inv :: "'a vsys \<Rightarrow> bool" where
  "vec_inv s \<longleftrightarrow> index_ok s \<and> blocks_ok s \<and> pool_ok s \<and> retired_ok s \<and> sole_ok s \<and> gone_ok s \<and>
     (\<forall>i<vthreads s. tok s (vpc s i))"

section \<open>Ranks\<close>

lemma rank_def': "rank t = 31 * (t div 32) + min (t mod 32) 31"
  by (simp add: rank_def BLOCK_CAP_def)

lemma offset_def': "offset_of t = t div 2 mod 32"
  by (simp add: offset_of_def BLOCK_CAP_def)

lemma offset_lt: "offset_of t \<noteq> 31 \<longleftrightarrow> offset_of t < 31"
  unfolding offset_def' using mod_less_divisor[of 32 "t div 2"] by linarith

lemma rank_offset: "offset_of t < 31 \<Longrightarrow> rank (t div 2) = 31 * (t div 2 div 32) + offset_of t"
  by (simp add: rank_def' offset_def')

lemma rank_div:
  assumes "offset_of t < 31"
  shows "rank (t div 2) div 31 = t div 2 div 32" "rank (t div 2) mod 31 = offset_of t"
  using assms by (simp_all add: rank_offset)

lemma div_mod_Suc32:
  "m mod 32 \<noteq> 31 \<Longrightarrow> Suc m div 32 = m div 32" "m mod 32 \<noteq> 31 \<Longrightarrow> Suc m mod 32 = Suc (m mod 32)"
  "m mod 32 = 31 \<Longrightarrow> Suc m div 32 = Suc (m div 32)" "m mod 32 = 31 \<Longrightarrow> Suc m mod 32 = 0"
  by (auto simp: div_Suc mod_Suc)

lemma rank_Suc: "rank (Suc m) = (if m mod 32 = 31 then rank m else Suc (rank m))"
proof (cases "m mod 32 = 31")
  case False
  moreover have "m mod 32 < 32" by simp
  ultimately have "m mod 32 < 31" by linarith
  with False show ?thesis by (simp add: rank_def' div_mod_Suc32)
qed (simp add: rank_def' div_mod_Suc32)

lemma rank_mono: "m \<le> n \<Longrightarrow> rank m \<le> rank n"
  by (induction rule: dec_induct) (auto simp: rank_Suc)

lemma rank_le: "rank m \<le> 31 * (m div 32) + 31"
  by (simp add: rank_def')

lemma rank_le_blocks: "m div 32 < k \<Longrightarrow> rank m \<le> 31 * k"
  using rank_le[of m] mult_le_mono2[of "m div 32 + 1" k 31] by simp

lemma rank_block_le: "31 * (m div 32) \<le> rank m"
  by (simp add: rank_def')

section \<open>Consequences of the invariant\<close>

lemma tokD: "vec_inv s \<Longrightarrow> i < vthreads s \<Longrightarrow> vpc s i = pc \<Longrightarrow> tok s pc"
  by (auto simp: vec_inv_def)

lemmas tok_defs = push_own_def pop_own_def in_block_def installing_def moving_def moved_def got_def ready_def

lemma pushr_lt: "vec_inv s \<Longrightarrow> own pushr s r \<Longrightarrow> r < length (venq s)"
proof -
  assume s: "vec_inv s" and "own pushr s r"
  then obtain i where i: "i < vthreads s" "pushr (vpc s i) = Some r" by (auto simp: owns_def)
  with tokD[OF s i(1) refl] show ?thesis by (cases "vpc s i") (auto simp: push_own_def)
qed

lemma filled_pushr: "own filled s r \<Longrightarrow> own pushr s r"
proof -
  have "filled q = Some r \<Longrightarrow> pushr q = Some r" for q :: "'a vpc" by (cases q) auto
  then show "own filled s r \<Longrightarrow> own pushr s r" by (auto simp: owns_def)
qed

lemma popr_cntr: "popr q = Some r \<Longrightarrow> cntr q = Some r"
  by (cases q) auto

lemma cntr_heldr: "cntr q = Some r \<Longrightarrow> heldr q = Some r"
  by (cases q) auto

lemma heldr_lt: "vec_inv s \<Longrightarrow> own heldr s r \<Longrightarrow> r < claimed s"
proof -
  assume s: "vec_inv s" and "own heldr s r"
  then obtain i where i: "i < vthreads s" "heldr (vpc s i) = Some r" by (auto simp: owns_def)
  with tokD[OF s i(1) refl] show ?thesis by (cases "vpc s i") (auto simp: pop_own_def got_def)
qed

text \<open>A rank is not read while it is being pushed.\<close>

lemma pushr_unread:
  assumes s: "vec_inv s" and r: "own pushr s r" "r < claimed s"
  shows "own popr s r"
proof -
  have nr: "\<not> ready s r" using r(1) by (simp add: ready_def)
  have "own heldr s r"
  proof (rule ccontr)
    assume "\<not> own heldr s r"
    with s r(2) have "r \<in> fst ` set (vgone s)" by (simp add: vec_inv_def gone_ok_def)
    with s nr show False by (fastforce simp: vec_inv_def gone_ok_def)
  qed
  then obtain i where i: "i < vthreads s" "heldr (vpc s i) = Some r" by (auto simp: owns_def)
  with tokD[OF s i(1) refl] nr have "popr (vpc s i) = Some r" by (cases "vpc s i") (auto simp: got_def)
  with i(1) show ?thesis by (intro ownsI[of i])
qed

lemma own_sub: "own f s x \<Longrightarrow> (\<And>q. f q = Some x \<Longrightarrow> g q = Some y) \<Longrightarrow> own g s y"
  by (auto simp: owns_def)

lemma retr_range: "vec_inv s \<Longrightarrow> own retr s k \<Longrightarrow> vbase s \<le> k \<and> k < vnb s"
proof -
  assume s: "vec_inv s" and "own retr s k"
  then obtain i where i: "i < vthreads s" "retr (vpc s i) = Some k" by (auto simp: owns_def)
  with tokD[OF s i(1) refl] show ?thesis by (cases "vpc s i") (auto simp: pop_own_def in_block_def)
qed

lemma linkd_retr: "own linkd s (k, nx) \<Longrightarrow> own retr s k"
  by (erule own_sub) (auto elim!: linkd.elims)

lemma soles:
  assumes "vec_inv s"
  shows "sole pushr (vthreads s) (vpc s)" "sole heldr (vthreads s) (vpc s)" "sole inst (vthreads s) (vpc s)"
    "sole mov (vthreads s) (vpc s)" "sole retr (vthreads s) (vpc s)" "sole popr (vthreads s) (vpc s)"
    "sole cntr (vthreads s) (vpc s)" "sole filled (vthreads s) (vpc s)" "sole linkd (vthreads s) (vpc s)"
proof -
  show *: "sole pushr (vthreads s) (vpc s)" "sole heldr (vthreads s) (vpc s)" "sole inst (vthreads s) (vpc s)"
    "sole mov (vthreads s) (vpc s)" "sole retr (vthreads s) (vpc s)"
    using assms by (auto simp: vec_inv_def sole_ok_def)
  show "sole popr (vthreads s) (vpc s)" "sole cntr (vthreads s) (vpc s)"
    by (rule sole_sub[OF *(2), where h = id]; simp add: popr_cntr cntr_heldr)+
  show "sole filled (vthreads s) (vpc s)"
    by (rule sole_sub[OF *(1), where h = id]) (auto elim!: filled.elims)
  show "sole linkd (vthreads s) (vpc s)"
    by (rule sole_sub[OF *(5), where h = fst]) (auto elim!: linkd.elims)
qed

lemma counted_fin: "finite (counted s k)" "counted s k \<subseteq> {31 * k..<31 * k + 31}"
proof -
  show "counted s k \<subseteq> {31 * k..<31 * k + 31}"
  proof
    fix r assume "r \<in> counted s k"
    then have "k = r div 31" by (simp add: counted_def)
    moreover have "r = 31 * (r div 31) + r mod 31" "r mod 31 < 31" by simp_all
    ultimately have "31 * k \<le> r" "r < 31 * k + 31" by linarith+
    then show "r \<in> {31 * k..<31 * k + 31}" by simp
  qed
  then show "finite (counted s k)" by (rule finite_subset) simp
qed

lemma counted_full:
  assumes "card (counted s k) = 31"
  shows "counted s k = {31 * k..<31 * k + 31}"
  using assms counted_fin[of s k] by (intro card_subset_eq) auto

lemma block_full:
  assumes "card (counted s k) = 31" "r div 31 = k"
  shows "r < claimed s \<and> \<not> own cntr s r"
proof -
  have "31 * k \<le> r" "r < 31 * k + 31" using assms(2) div_mult_mod_eq[of r 31] mod_less_divisor[of 31 r] by linarith+
  then have "r \<in> counted s k" using counted_full[OF assms(1)] by simp
  then show ?thesis by (simp add: counted_def)
qed

text \<open>A block all of whose slots were read lies before the block of the head.\<close>

lemma full_before_head:
  assumes s: "vec_inv s" and k: "card (counted s k) = 31"
  shows "k < head_index (vv s) div 2 div 32"
proof (rule ccontr)
  let ?H = "head_index (vv s) div 2"
  assume "\<not> ?thesis"
  then have le: "?H div 32 \<le> k" by simp
  have "31 * k + 30 < claimed s" using block_full[OF k, of "31 * k + 30"] by simp
  with le rank_le[of ?H] have eq: "?H div 32 = k" by linarith
  have m: "?H mod 32 = 31"
  proof (rule ccontr)
    assume "?H mod 32 \<noteq> 31"
    then have "?H mod 32 < 31" using mod_less_divisor[of 32 ?H] by linarith
    with eq \<open>31 * k + 30 < claimed s\<close> show False by (simp add: rank_def')
  qed
  with s have "own mov s ()" by (simp add: vec_inv_def index_ok_def Let_def)
  then obtain i where i: "i < vthreads s" "mov (vpc s i) = Some ()" by (auto simp: owns_def)
  then obtain h where h: "moving s h" "offset_of h < 31" "cntr (vpc s i) = Some (rank (h div 2))"
    using tokD[OF s i(1) refl] by (cases "vpc s i") (auto simp: pop_own_def in_block_def)
  have "h div 2 div 32 = k" using h(1) m eq by (auto simp: moving_def offset_def' div_mod_Suc32)
  then have "rank (h div 2) div 31 = k" using h(2) by (simp add: rank_div)
  then show False using block_full[OF k] h(3) ownsI[OF i(1), of cntr "vpc s"] by blast
qed

lemma block_at:
  assumes "vec_inv s" "vbase s \<le> k" "k < vnb s"
  obtains c where "vheap (vv s) (vblk s k) = Some c" "block_ok s k c"
  using assms unfolding vec_inv_def blocks_ok_def by blast

lemma deref_in_block:
  assumes "vec_inv s" "in_block s t b"
  obtains c where "deref (vv s) b = Some c" "block_ok s (t div 2 div 32) c" "vheap (vv s) (the b) = Some c"
  using assms block_at[of s "t div 2 div 32"] by (auto simp: in_block_def deref_def)

lemma blk_inj: "vec_inv s \<Longrightarrow> vbase s \<le> k \<Longrightarrow> k < vnb s \<Longrightarrow> vbase s \<le> j \<Longrightarrow> j < vnb s \<Longrightarrow> vblk s k = vblk s j \<longleftrightarrow> k = j"
  unfolding vec_inv_def pool_ok_def inj_on_def by auto

section \<open>Frames\<close>

text \<open>What a thread knows outlives the steps of the others.\<close>

lemma tok_frame:
  assumes q: "tok s q"
    and blk: "vbase t = vbase s" "vnb s \<le> vnb t" "\<And>k. k < vnb s \<Longrightarrow> vblk t k = vblk s k"
    and enq: "venq t = venq s @ es" "\<And>r. ready s r \<Longrightarrow> ready t r"
    and tail: "tail_index (vv s) \<le> tail_index (vv t)"
      "tail_index (vv t) = tail_index (vv s) \<Longrightarrow> tail_block (vv t) = tail_block (vv s) \<or> offset_of (tail_index (vv s)) = 31"
      "inst q = None \<or> tail_index (vv t) = tail_index (vv s) \<and> vnb t = vnb s \<and> tail_block (vv t) = tail_block (vv s) \<and>
         free_list (vv t) = free_list (vv s) \<and> (\<forall>p. pristine s p \<longrightarrow> pristine t p)"
    and head: "head_index (vv s) \<le> head_index (vv t)"
      "head_index (vv t) = head_index (vv s) \<Longrightarrow> head_block (vv t) = head_block (vv s) \<or> offset_of (head_index (vv s)) = 31"
      "mov q = None \<or> head_index (vv t) = head_index (vv s) \<and> head_block (vv t) = head_block (vv s)"
  shows "tok t q"
proof -
  have inb: "in_block s h b \<Longrightarrow> in_block t h b" for h b using blk by (auto simp: in_block_def)
  have po: "push_own s x h b \<Longrightarrow> push_own t x h b" for x h b using inb enq by (auto simp: push_own_def nth_append)
  have cl: "claimed s \<le> claimed t" by (intro rank_mono div_le_mono head)
  have qo: "pop_own s h b \<Longrightarrow> pop_own t h b" for h b using inb cl by (auto simp: pop_own_def)
  have g: "got s h v \<Longrightarrow> got t h v" for h v
    unfolding got_def using cl enq by (auto simp: ready_def nth_append)
  have md: "moved s h nx \<Longrightarrow> moved t h nx" for h nx using blk by (auto simp: moved_def)
  have tb: "h = tail_index (vv t) \<Longrightarrow> h = tail_index (vv s) \<and> tail_block (vv t) = tail_block (vv s)"
    if "h \<le> tail_index (vv s)" "offset_of h \<noteq> 31" for h using that tail(1,2) by (metis le_antisym)
  have hb: "h = head_index (vv t) \<Longrightarrow> h = head_index (vv s) \<and> head_block (vv t) = head_block (vv s)"
    if "h \<le> head_index (vv s)" "offset_of h \<noteq> 31" for h using that head(1,2) by (metis le_antisym)
  have "inst q = None \<Longrightarrow> mov q = None \<Longrightarrow> tok t q"
    using q tail(1) head(1) inb po qo g md tb hb enq(2) by (cases q) auto
  moreover have "tok t q" if "inst q \<noteq> None"
    using that q po tail(3) blk by (cases q) (auto simp: installing_def)
  moreover have "tok t q" if "mov q \<noteq> None"
    using that q qo md head(3) by (cases q) (auto simp: moving_def)
  ultimately show ?thesis by blast
qed

lemma blocks_frame:
  assumes s: "blocks_ok s"
    and heap: "\<And>p c. vheap (vv s) p = Some c \<Longrightarrow> vheap (vv t) p = Some c"
    and same: "vbase t = vbase s" "vnb t = vnb s" "vblk t = vblk s" "vrl t = vrl s"
    and own: "counted t = counted s" "\<And>x. own linkd t x \<Longrightarrow> own linkd s x" "own retr t = own retr s"
      "\<And>r c. slot_ok s r c \<Longrightarrow> slot_ok t r c"
  shows "blocks_ok t"
proof -
  have "block_ok s k c \<Longrightarrow> block_ok t k c" for k c
    using own(2,4) unfolding block_ok_def same own(1) own(3) by blast
  with s heap show ?thesis unfolding blocks_ok_def same by blast
qed

lemma pool_frame:
  assumes "pool_ok s" "vheap (vv t) = vheap (vv s)" "vbase t = vbase s" "vnb t = vnb s" "vblk t = vblk s"
    "free_list (vv t) = free_list (vv s)" "vfresh (vv t) = vfresh (vv s)"
  shows "pool_ok t"
  using assms by (simp add: pool_ok_def pristine_def)

lemma retired_frame:
  assumes "retired_ok s" "\<And>p c. vheap (vv s) p = Some c \<Longrightarrow> vheap (vv t) p = Some c" "vbase t = vbase s" "vnb t = vnb s"
    "vblk t = vblk s" "vrl t = vrl s" "retired (vv t) = retired (vv s)" "own retr t = own retr s"
  shows "retired_ok t"
  using assms(1,2) unfolding retired_ok_def assms(3-8) by blast

lemma gone_frame:
  assumes "gone_ok s" "vgone t = vgone s" "venq t = venq s @ es" "\<And>r. ready s r \<Longrightarrow> ready t r"
    "\<And>r. r < claimed t \<and> \<not> own heldr t r \<longleftrightarrow> r < claimed s \<and> \<not> own heldr s r"
  shows "gone_ok t"
proof -
  have "ready s r \<Longrightarrow> venq t ! r = venq s ! r" for r using assms(3) by (simp add: ready_def nth_append)
  then have "ready s (fst x) \<and> snd x = Some (venq s ! fst x) \<Longrightarrow> ready t (fst x) \<and> snd x = Some (venq t ! fst x)" for x
    using assms(4) by simp
  with assms(1) show ?thesis by (simp add: gone_ok_def assms(2,5) case_prod_beta)
qed

text \<open>Two program counters with the same claims on shared memory.\<close>

definition alike :: "'a vpc \<Rightarrow> 'a vpc \<Rightarrow> bool" where
  "alike p q \<longleftrightarrow> pushr q = pushr p \<and> filled q = filled p \<and> inst q = inst p \<and> popr q = popr p \<and> cntr q = cntr p \<and>
     heldr q = heldr p \<and> mov q = mov p \<and> retr q = retr p \<and> (linkd q = linkd p \<or> linkd q = None)"

lemma alike_own:
  assumes "alike (vpc s i) q" "i < vthreads s" "vthreads t = vthreads s" "vpc t = (vpc s)(i := q)"
  shows "own pushr t = own pushr s" "own filled t = own filled s" "own inst t = own inst s" "own popr t = own popr s"
    "own cntr t = own cntr s" "own heldr t = own heldr s" "own mov t = own mov s" "own retr t = own retr s"
  using assms by (auto simp: alike_def owns_keep)

lemma alike_linkd:
  assumes "alike (vpc s i) q" "vthreads t = vthreads s" "vpc t = (vpc s)(i := q)" "own linkd t x"
  shows "own linkd s x"
proof -
  obtain j where j: "j < vthreads s" "linkd (vpc t j) = Some x" using assms by (auto simp: owns_def)
  with assms have "linkd (vpc s j) = Some x" by (auto simp: alike_def split: if_splits)
  with j show ?thesis by (rule_tac ownsI)
qed

lemma alike_sole: "sole_ok s \<Longrightarrow> alike (vpc s i) q \<Longrightarrow> i < vthreads s \<Longrightarrow> vthreads t = vthreads s \<Longrightarrow> vpc t = (vpc s)(i := q) \<Longrightarrow> sole_ok t"
  by (simp add: sole_ok_def alike_def sole_keep)

lemma all_toks:
  assumes "vec_inv s" "vthreads t = vthreads s" "vpc t = (vpc s)(i := q)" "tok t q"
    and "\<And>j. j < vthreads s \<Longrightarrow> j \<noteq> i \<Longrightarrow> tok s (vpc s j) \<Longrightarrow> tok t (vpc s j)"
  shows "\<forall>j<vthreads t. tok t (vpc t j)"
proof (intro allI impI)
  fix j assume "j < vthreads t"
  then show "tok t (vpc t j)" using assms tokD[OF assms(1), of j] by (cases "j = i") simp_all
qed

lemma inv_parts:
  assumes "vec_inv s"
  shows "index_ok s" "blocks_ok s" "pool_ok s" "retired_ok s" "sole_ok s" "gone_ok s"
  using assms by (simp_all add: vec_inv_def)

lemma inv_intro:
  assumes "index_ok t" "blocks_ok t" "pool_ok t" "retired_ok t" "sole_ok t" "gone_ok t" "\<forall>i<vthreads t. tok t (vpc t i)"
  shows "vec_inv t"
  using assms by (simp add: vec_inv_def)

text \<open>A step that changes neither the heap nor the claims of the threads.\<close>

lemma vec_inv_move:
  assumes s: "vec_inv s" and i: "i < vthreads s" and al: "alike (vpc s i) q"
    and t: "vthreads t = vthreads s" "vpc t = (vpc s)(i := q)" "vbase t = vbase s" "vnb t = vnb s" "vblk t = vblk s"
      "vrl t = vrl s" "venq t = venq s" "vgone t = vgone s"
      "vheap (vv t) = vheap (vv s)" "free_list (vv t) = free_list (vv s)" "vfresh (vv t) = vfresh (vv s)"
      "retired (vv t) = retired (vv s)" "head_index (vv t) = head_index (vv s)" "tail_index (vv t) = tail_index (vv s)"
    and hb: "head_block (vv t) = head_block (vv s) \<or> mov (vpc s i) = Some ()"
    and tb: "tail_block (vv t) = tail_block (vv s) \<or> inst (vpc s i) = Some ()"
    and q: "tok t q"
  shows "vec_inv t"
proof -
  note o = alike_own[OF al i t(1,2)] and u = t(3-)
  have r: "ready t = ready s" "counted t = counted s" "slot_ok t = slot_ok s" "pristine t = pristine s"
    unfolding fun_eq_iff ready_def counted_def slot_ok_def pristine_def o u by simp_all
  note p = inv_parts[OF s]
  have idx: "index_ok t \<and> (own inst s () \<longrightarrow> offset_of (tail_index (vv s)) = 31) \<and> (own mov s () \<longrightarrow> offset_of (head_index (vv s)) = 31)"
    using p(1) hb tb ownsI[OF i, of mov "vpc s"] ownsI[OF i, of inst "vpc s"]
    unfolding index_ok_def o u Let_def offset_def' by (auto split: if_splits)
  show ?thesis
  proof (rule inv_intro)
    show "index_ok t" using idx by blast
    show "blocks_ok t" by (rule blocks_frame[OF p(2)]) (simp_all add: u r o alike_linkd[OF al t(1,2)])
    show "pool_ok t" by (rule pool_frame[OF p(3)]) (simp_all add: u)
    show "retired_ok t" by (rule retired_frame[OF p(4)]) (simp_all add: u o)
    show "sole_ok t" by (rule alike_sole[OF p(5) al i t(1,2)])
    show "gone_ok t" by (rule gone_frame[OF p(6), where es = "[]"]) (simp_all add: u r o)
    show "\<forall>j<vthreads t. tok t (vpc t j)"
    proof (rule all_toks[OF s t(1,2) q])
      fix j assume j: "j < vthreads s" "j \<noteq> i" "tok s (vpc s j)"
      have "mov (vpc s j) = None \<or> head_block (vv t) = head_block (vv s)"
        using hb sole_other[OF soles(4)[OF s] i j(1), of "()"] j(2) by (metis option.exhaust old.unit.exhaust)
      moreover have "inst (vpc s j) = None \<or> tail_block (vv t) = tail_block (vv s)"
        using tb sole_other[OF soles(3)[OF s] i j(1), of "()"] j(2) by (metis option.exhaust old.unit.exhaust)
      moreover have "head_block (vv t) = head_block (vv s) \<or> offset_of (head_index (vv s)) = 31"
        using hb idx ownsI[OF i, of mov "vpc s"] by blast
      moreover have "tail_block (vv t) = tail_block (vv s) \<or> offset_of (tail_index (vv s)) = 31"
        using tb idx ownsI[OF i, of inst "vpc s"] by blast
      ultimately show "tok t (vpc s j)"
        by (intro tok_frame[OF j(3), where es = "[]"]) (simp_all only: u r append_Nil2 order_refl simp_thms)
    qed
  qed
qed

lemma inv_vgo:
  assumes "vec_inv s" "i < vthreads s" "alike (vpc s i) q" "tok (vgo s i q) q"
  shows "vec_inv (vgo s i q)"
  by (rule vec_inv_move[OF assms(1-3)]) (use assms(4) in \<open>simp_all add: vgo_def\<close>)

lemma vgo_sel [simp]:
  "vv (vgo s i q) = vv s" "vthreads (vgo s i q) = vthreads s" "vpc (vgo s i q) = (vpc s)(i := q)" "vblk (vgo s i q) = vblk s"
  "vnb (vgo s i q) = vnb s" "vbase (vgo s i q) = vbase s" "vrl (vgo s i q) = vrl s" "venq (vgo s i q) = venq s"
  "vgone (vgo s i q) = vgone s"
  by (simp_all add: vgo_def)

end
