(* ===== verification/Vec_Conc_Safety.thy ===== *)
theory Vec_Conc_Safety
  imports Vec_Conc_Inv
begin

text \<open>
  Every step of a push, a pop, a retirement and a reclamation keeps the invariant of concurrent
  \<open>AtomicVec\<close>, one lemma for each store.
\<close>

section \<open>Steps of push\<close>

text \<open>A push reserves the next rank.\<close>

lemma inv_push_reserve:
  assumes s: "vec_inv s" and i: "i < vthreads s" and pc: "vpc s i = PCas x n b" and n: "tail_index (vv s) = n"
    and q: "q = (if offset_of n + 1 = 31 then PAcquire x n b else PWrite x n b)"
    and t: "t = (vgo s i q)\<lparr>vv := (vv s)\<lparr>tail_index := n + 2\<rparr>, venq := venq s @ [x]\<rparr>"
  shows "vec_inv t"
proof -
  let ?T = "n div 2"
  note p = inv_parts[OF s]
  have tk: "offset_of n < 31" "b = tail_block (vv s)" using tokD[OF s i pc] n by (auto simp: offset_lt)
  then have T: "?T mod 32 \<noteq> 31" "even n" "length (venq s) = rank ?T" "tail_block (vv s) = Some (vblk s (?T div 32))"
    "vnb s = ?T div 32 + 1" "\<not> own inst s ()" "vbase s \<le> head_index (vv s) div 2 div 32" "head_index (vv s) div 2 div 32 < vnb s"
    using p(1) n by (auto simp: index_ok_def Let_def offset_def' split: if_splits)
  have T': "(n + 2) div 2 = Suc ?T" by simp
  have new: "\<not> own pushr s (length (venq s))" using pushr_lt[OF s] by blast
  have none: "pushr (vpc s i) = None" "inst (vpc s i) = None" and qp: "pushr q = Some (rank ?T)" using pc by (auto simp: q)
  have o: "own filled t = own filled s" "own popr t = own popr s" "own cntr t = own cntr s" "own heldr t = own heldr s"
    "own mov t = own mov s" "own retr t = own retr s" "own linkd t = own linkd s"
    using i pc by (simp_all add: t q owns_keep)
  have op: "own pushr t r \<longleftrightarrow> r = length (venq s) \<or> own pushr s r" for r
    using owns_new[of i "vthreads s" pushr "vpc s" q r] i none T(3) by (auto simp: t q)
  have oi: "own inst t () \<longleftrightarrow> offset_of n = 30"
    using owns_new[of i "vthreads s" inst "vpc s" q "()"] i none T(6) by (simp add: t q)
  have v: "vheap (vv t) = vheap (vv s)" "vbase t = vbase s" "vnb t = vnb s" "vblk t = vblk s" "vrl t = vrl s"
    "head_index (vv t) = head_index (vv s)" "head_block (vv t) = head_block (vv s)" "tail_block (vv t) = tail_block (vv s)"
    "venq t = venq s @ [x]" "tail_index (vv t) = n + 2"
    by (simp_all add: t)
  have rdy: "ready s r \<Longrightarrow> ready t r" for r by (auto simp: ready_def op v)
  have cnt: "counted t = counted s" by (simp add: fun_eq_iff counted_def o v)
  have fl: "own filled s r \<Longrightarrow> r < length (venq s)" for r using filled_pushr pushr_lt[OF s] by blast
  have slot: "slot_ok t r c" if "slot_ok s r c" for r c
    using that fl[of r] new by (auto simp: slot_ok_def o op v nth_append split: if_splits)
  show ?thesis
  proof (rule inv_intro)
    have "if Suc ?T mod 32 = 31 then own inst t () else \<not> own inst t ()"
      using T(1) tk(1) by (simp add: oi offset_def' div_mod_Suc32)
    then show "index_ok t" using p(1) T n unfolding index_ok_def Let_def v o T'
      by (simp add: div_mod_Suc32 rank_Suc)
    show "blocks_ok t" by (rule blocks_frame[OF p(2)]) (simp_all add: v(1-5) o cnt slot)
    show "pool_ok t" by (rule pool_frame[OF p(3)]) (simp_all add: t)
    show "retired_ok t" by (rule retired_frame[OF p(4)]) (simp_all add: v(1-5) o, simp add: t)
    show "gone_ok t" by (rule gone_frame[OF p(6) _ v(9)]) (simp_all add: rdy o v, simp add: t)
    show "sole_ok t" unfolding sole_ok_def
    proof (intro conjI)
      show "sole pushr (vthreads t) (vpc t)"
        using sole_new[of i "vthreads s" pushr "vpc s" q] i soles(1)[OF s] new T(3) qp by (simp add: t)
      show "sole inst (vthreads t) (vpc t)"
        using sole_new[of i "vthreads s" inst "vpc s" q] i soles(3)[OF s] T(6) by (simp add: t)
    qed (use i pc soles[OF s] in \<open>simp_all add: t q sole_keep\<close>)
    show "\<forall>j<vthreads t. tok t (vpc t j)"
    proof (rule all_toks[OF s, where i = i and q = q])
      show "vthreads t = vthreads s" by (simp add: t)
      show "vpc t = (vpc s)(i := q)" by (simp add: t)
      have "push_own t x n b" using tk T by (simp add: push_own_def in_block_def v nth_append)
      then show "tok t q" using T(5) by (simp add: q installing_def v)
      fix j assume j: "j < vthreads s" "j \<noteq> i" "tok s (vpc s j)"
      have "inst (vpc s j) = None" using T(6) ownsI[OF j(1), of inst "vpc s"] by (metis option.exhaust old.unit.exhaust)
      then show "tok t (vpc s j)" by (intro tok_frame[OF j(3) v(2) _ _ v(9) rdy]) (simp_all add: v n)
    qed
  qed
qed

text \<open>A step that rewrites one block.\<close>

lemma heap_set_block:
  assumes s: "vec_inv s" and k: "vbase s \<le> k" "k < vnb s" and t: "vv t = set_block (vv s) (Some (vblk s k)) c'"
  shows "vbase s \<le> j \<Longrightarrow> j < vnb s \<Longrightarrow> vheap (vv t) (vblk s j) = (if j = k then Some c' else vheap (vv s) (vblk s j))"
    "p \<notin> vblk s ` {vbase s..<vnb s} \<Longrightarrow> vheap (vv t) p = vheap (vv s) p"
proof -
  show "vbase s \<le> j \<Longrightarrow> j < vnb s \<Longrightarrow> vheap (vv t) (vblk s j) = (if j = k then Some c' else vheap (vv s) (vblk s j))"
    using blk_inj[OF s, of k j] k by (auto simp: t set_block_def)
  show "p \<notin> vblk s ` {vbase s..<vnb s} \<Longrightarrow> vheap (vv t) p = vheap (vv s) p"
    using k by (auto simp: t set_block_def)
qed

lemma inv_block:
  assumes s: "vec_inv s" and i: "i < vthreads s" and k: "vbase s \<le> k" "k < vnb s" and c: "vheap (vv s) (vblk s k) = Some c"
    and t: "vthreads t = vthreads s" "vpc t = (vpc s)(i := q)" "vbase t = vbase s" "vnb t = vnb s" "vblk t = vblk s"
      "vrl t = vrl s" "venq t = venq s" "vgone t = vgone s" "vv t = set_block (vv s) (Some (vblk s k)) c'"
    and own: "own inst t = own inst s" "own mov t = own mov s" "own heldr t = own heldr s"
      "\<And>j. j \<in> set (vrl s) \<Longrightarrow> own retr t j \<Longrightarrow> own retr s j"
    and nxt: "vnext c' = vnext c \<or> k \<notin> set (vrl s)"
    and blocks: "\<And>j d. j \<noteq> k \<Longrightarrow> block_ok s j d \<Longrightarrow> block_ok t j d" "block_ok s k c \<Longrightarrow> block_ok t k c'"
    and rdy: "\<And>r. ready s r \<Longrightarrow> ready t r"
    and sole: "sole_ok t"
    and q: "tok t q"
  shows "vec_inv t"
proof -
  note p = inv_parts[OF s] and h = heap_set_block[OF s k t(9)] and u = t(3-8)
  have w: "free_list (vv t) = free_list (vv s)" "vfresh (vv t) = vfresh (vv s)" "retired (vv t) = retired (vv s)"
    "head_index (vv t) = head_index (vv s)" "tail_index (vv t) = tail_index (vv s)"
    "head_block (vv t) = head_block (vv s)" "tail_block (vv t) = tail_block (vv s)"
    by (simp_all add: t(9) set_block_def)
  have pr: "pristine s a \<Longrightarrow> pristine t a" for a using h(2)[of a] by (auto simp: pristine_def u)
  show ?thesis
  proof (rule inv_intro)
    show "index_ok t" using p(1) unfolding index_ok_def own(1,2) u w .
    show "blocks_ok t" unfolding blocks_ok_def u
    proof (intro allI impI)
      fix j assume j: "vbase s \<le> j \<and> j < vnb s"
      obtain d where "vheap (vv s) (vblk s j) = Some d" "block_ok s j d" using block_at[OF s] j by blast
      then show "\<exists>d. vheap (vv t) (vblk s j) = Some d \<and> block_ok t j d"
        using h(1)[of j] j c blocks by (cases "j = k") auto
    qed
    have "p < vfresh (vv t)" if "vheap (vv t) p = Some d" for p d
    proof (cases "p \<in> vblk s ` {vbase s..<vnb s}")
      case True
      then have "p \<in> dom (vheap (vv s))" using p(2) by (auto simp: blocks_ok_def)
      then show ?thesis using p(3) by (simp add: pool_ok_def w)
    qed (use that h(2) p(3) in \<open>auto simp: pool_ok_def w\<close>)
    then show "pool_ok t" using p(3) pr by (auto simp: pool_ok_def u w)
    have "\<exists>d. vheap (vv t) (vblk s (vrl s ! j)) = Some d \<and> vnext d = next_ptr (map (vblk s) (vrl s)) j"
      if j: "j < length (vrl s)" for j
    proof -
      have m: "vrl s ! j \<in> set (vrl s)" using j by simp
      with p(4) have "vbase s \<le> vrl s ! j" "vrl s ! j < vnb s" by (simp_all add: retired_ok_def)
      with h(1) have "vheap (vv t) (vblk s (vrl s ! j)) = (if vrl s ! j = k then Some c' else vheap (vv s) (vblk s (vrl s ! j)))"
        by blast
      with p(4) j m c nxt show ?thesis unfolding retired_ok_def by (cases "vrl s ! j = k") auto
    qed
    with p(4) own(4) show "retired_ok t" unfolding retired_ok_def u w by blast
    show "gone_ok t" by (rule gone_frame[OF p(6), where es = "[]"]) (simp_all add: u w own rdy)
    show "\<forall>j<vthreads t. tok t (vpc t j)"
      by (rule all_toks[OF s t(1,2) q], rule tok_frame[where s = s and es = "[]"]) (simp_all add: u w rdy pr)
  qed (rule sole)
qed

text \<open>A step that rewrites one slot.\<close>

lemma inv_slot:
  assumes s: "vec_inv s" and i: "i < vthreads s" and b: "in_block s n b" "deref (vv s) b = Some c"
    and t: "vthreads t = vthreads s" "vpc t = (vpc s)(i := q)" "vbase t = vbase s" "vnb t = vnb s" "vblk t = vblk s"
      "vrl t = vrl s" "venq t = venq s" "vgone t = vgone s"
      "vv t = set_block (vv s) b (c\<lparr>vslots := (vslots c)[offset_of n := z]\<rparr>)"
    and own: "own inst t = own inst s" "own mov t = own mov s" "own heldr t = own heldr s" "own cntr t = own cntr s"
      "own retr t = own retr s" "own linkd t = own linkd s"
    and slot: "\<And>r d. r \<noteq> rank (n div 2) \<Longrightarrow> slot_ok s r d \<Longrightarrow> slot_ok t r d"
      "slot_ok s (rank (n div 2)) (vslots c ! offset_of n) \<Longrightarrow> slot_ok t (rank (n div 2)) z"
    and rdy: "\<And>r. ready s r \<Longrightarrow> ready t r" and sole: "sole_ok t" and q: "tok t q"
  shows "vec_inv t"
proof -
  let ?k = "n div 2 div 32"
  note u = t(3-8)
  have k: "vbase s \<le> ?k" "?k < vnb s" "offset_of n < 31" "b = Some (vblk s ?k)" using b by (auto simp: in_block_def)
  have r: "rank (n div 2) = 31 * ?k + offset_of n" using k(3) by (rule rank_offset)
  have cnt: "counted t = counted s" by (simp add: fun_eq_iff counted_def own t(9) set_block_def)
  have tv: "vv t = set_block (vv s) (Some (vblk s ?k)) (c\<lparr>vslots := (vslots c)[offset_of n := z]\<rparr>)" using t(9) k(4) by simp
  have hc: "vheap (vv s) (vblk s ?k) = Some c" using b k(4) by (simp add: deref_def)
  show ?thesis
  proof (rule inv_block[OF s i k(1,2) hc t(1,2) u tv own(1-3)])
    fix j d assume j: "j \<noteq> ?k" "block_ok s j d"
    have "31 * j + m \<noteq> rank (n div 2)" if "m < 31" for m using that j(1) r k(3) by linarith
    with j show "block_ok t j d" using slot(1) unfolding block_ok_def cnt own(5,6) u by blast
  next
    assume B: "block_ok s ?k c"
    have "slot_ok t (31 * ?k + m) ((vslots c)[offset_of n := z] ! m)" if m: "m < 31" for m
      using B m slot r by (cases "m = offset_of n") (auto simp: block_ok_def)
    with B show "block_ok t ?k (c\<lparr>vslots := (vslots c)[offset_of n := z]\<rparr>)"
      unfolding block_ok_def cnt own(5,6) u by auto
  qed (use own rdy sole q in simp_all)
qed

lemma inv_push_write:
  assumes s: "vec_inv s" and i: "i < vthreads s" and pc: "vpc s i = PWrite x n b" and c: "deref (vv s) b = Some c"
    and t: "t = (vgo s i (PPub x n b))
      \<lparr>vv := set_block (vv s) b (c\<lparr>vslots := (vslots c)[offset_of n := (vslots c ! offset_of n)\<lparr>vvalue := Some x\<rparr>]\<rparr>)\<rparr>"
  shows "vec_inv t"
proof -
  have po: "push_own s x n b" using tokD[OF s i pc] by simp
  have o: "own pushr t = own pushr s" "own inst t = own inst s" "own popr t = own popr s" "own cntr t = own cntr s"
    "own heldr t = own heldr s" "own mov t = own mov s" "own retr t = own retr s" "own linkd t = own linkd s"
    using i pc by (simp_all add: t owns_keep)
  have f: "own filled t r \<longleftrightarrow> r = rank (n div 2) \<or> own filled s r" for r
    using owns_new[of i "vthreads s" filled "vpc s" "PPub x n b" r] i pc by (auto simp: t)
  have v: "venq t = venq s" "head_index (vv t) = head_index (vv s)" by (simp_all add: t set_block_def)
  have own: "own pushr s (rank (n div 2))" using i pc by (intro ownsI[of i]) auto
  show ?thesis
  proof (rule inv_slot[OF s i _ c, where q = "PPub x n b" and n = n])
    show "in_block s n b" using po by (simp add: push_own_def)
    show "ready s r \<Longrightarrow> ready t r" for r by (simp add: ready_def o v)
    show "sole_ok t" using soles[OF s] i pc by (simp add: sole_ok_def t sole_keep)
    show "tok t (PPub x n b)" using po by (simp add: push_own_def in_block_def t)
    show "slot_ok s r d \<Longrightarrow> slot_ok t r d" if "r \<noteq> rank (n div 2)" for r d using that by (simp add: slot_ok_def o f v)
    show "slot_ok s (rank (n div 2)) (vslots c ! offset_of n) \<Longrightarrow>
      slot_ok t (rank (n div 2)) ((vslots c ! offset_of n)\<lparr>vvalue := Some x\<rparr>)"
      using own po by (simp add: slot_ok_def o f v push_own_def)
  qed (simp_all only: o, simp_all add: t)
qed

lemma inv_push_publish:
  assumes s: "vec_inv s" and i: "i < vthreads s" and pc: "vpc s i = PPub x n b" and c: "deref (vv s) b = Some c"
    and t: "t = (vret s i VPushed)
      \<lparr>vv := set_block (vv s) b (c\<lparr>vslots := (vslots c)[offset_of n := (vslots c ! offset_of n)\<lparr>vstate := SLOT_WRITE\<rparr>]\<rparr>)\<rparr>"
  shows "vec_inv t"
proof -
  let ?r = "rank (n div 2)"
  have po: "push_own s x n b" using tokD[OF s i pc] by simp
  have tp: "vthreads t = vthreads s" "vpc t = (vpc s)(i := VIdle)" by (simp_all add: t vret_def)
  have o: "own inst t = own inst s" "own popr t = own popr s" "own cntr t = own cntr s"
    "own heldr t = own heldr s" "own mov t = own mov s" "own retr t = own retr s" "own linkd t = own linkd s"
    using i pc by (simp_all add: tp owns_keep)
  have f: "own filled t r \<longleftrightarrow> own filled s r \<and> r \<noteq> ?r" "own pushr t r \<longleftrightarrow> own pushr s r \<and> r \<noteq> ?r" for r
    using i pc soles[OF s] by (simp_all add: tp owns_gone)
  have v: "venq t = venq s" "head_index (vv t) = head_index (vv s)" by (simp_all add: t set_block_def vret_def)
  have own: "own pushr s ?r" "own filled s ?r" using i pc by (auto intro: ownsI[of i])
  show ?thesis
  proof (rule inv_slot[OF s i _ c, where q = VIdle and n = n])
    show "in_block s n b" using po by (simp add: push_own_def)
    show "ready s r \<Longrightarrow> ready t r" for r by (simp add: ready_def f v)
    show "sole_ok t" using soles[OF s] i pc by (simp add: sole_ok_def tp sole_keep)
    show "slot_ok s r d \<Longrightarrow> slot_ok t r d" if "r \<noteq> ?r" for r d using that by (simp add: slot_ok_def o f v)
    show "slot_ok s ?r (vslots c ! offset_of n) \<Longrightarrow> slot_ok t ?r ((vslots c ! offset_of n)\<lparr>vstate := SLOT_WRITE\<rparr>)"
      using own po pushr_unread[OF s own(1)] by (auto simp: slot_ok_def o f v push_own_def)
  qed (simp_all only: o, simp_all add: t vret_def)
qed

lemma other_inst:
  assumes "vec_inv s" "i < vthreads s" "j < vthreads s" "j \<noteq> i" "inst (vpc s i) = Some ()"
  shows "inst (vpc s j) = None"
  using sole_other[OF soles(3)[OF assms(1)] assms(2,3), of "()"] assms(4,5) by (metis option.exhaust old.unit.exhaust)

lemma other_mov:
  assumes "vec_inv s" "i < vthreads s" "j < vthreads s" "j \<noteq> i" "mov (vpc s i) = Some ()"
  shows "mov (vpc s j) = None"
  using sole_other[OF soles(4)[OF assms(1)] assms(2,3), of "()"] assms(4,5) by (metis option.exhaust old.unit.exhaust)

lemma inv_push_tail:
  assumes s: "vec_inv s" and i: "i < vthreads s" and pc: "vpc s i = PTailI x n b"
    and t: "t = (vgo s i (PWrite x n b))\<lparr>vv := (vv s)\<lparr>tail_index := n + 2 + 2\<rparr>\<rparr>"
  shows "vec_inv t"
proof -
  let ?k = "n div 2 div 32"
  note p = inv_parts[OF s]
  have tk: "push_own s x n b" "n div 2 mod 32 = 30" "tail_index (vv s) = n + 2" "vnb s = ?k + 2"
    "tail_block (vv s) = Some (vblk s (Suc ?k))"
    using tokD[OF s i pc] by (auto simp: installing_def offset_def')
  have T: "(n + 2) div 2 = Suc (n div 2)" "(n + 2 + 2) div 2 = Suc (Suc (n div 2))" by simp_all
  have T': "Suc (n div 2) mod 32 = 31" "Suc (n div 2) div 32 = ?k" using tk(2) by (simp_all add: div_mod_Suc32)
  have none: "inst (vpc s i) = Some ()" using pc by simp
  have o: "own pushr t = own pushr s" "own filled t = own filled s" "own popr t = own popr s" "own cntr t = own cntr s"
    "own heldr t = own heldr s" "own mov t = own mov s" "own retr t = own retr s" "own linkd t = own linkd s"
    using i pc by (simp_all add: t owns_keep)
  have oi: "\<not> own inst t ()" using owns_gone[of i "vthreads s" inst "vpc s" "()" "PWrite x n b" "()"] i soles(3)[OF s] none by (simp add: t)
  have v: "vheap (vv t) = vheap (vv s)" "vbase t = vbase s" "vnb t = vnb s" "vblk t = vblk s" "vrl t = vrl s"
    "head_index (vv t) = head_index (vv s)" "head_block (vv t) = head_block (vv s)" "tail_block (vv t) = tail_block (vv s)"
    "venq t = venq s" "tail_index (vv t) = n + 2 + 2"
    by (simp_all add: t)
  have r: "ready t = ready s" "counted t = counted s" "slot_ok t = slot_ok s"
    unfolding fun_eq_iff ready_def counted_def slot_ok_def o v by simp_all
  show ?thesis
  proof (rule inv_intro)
    show "index_ok t" using p(1) tk(3,4,5) oi unfolding index_ok_def Let_def v o tk(3) T
      by (simp add: div_mod_Suc32 rank_Suc T')
    show "blocks_ok t" by (rule blocks_frame[OF p(2)]) (simp_all add: v(1-5) o r)
    show "pool_ok t" by (rule pool_frame[OF p(3)]) (simp_all add: t)
    show "retired_ok t" by (rule retired_frame[OF p(4)]) (simp_all add: v(1-5) o, simp add: t)
    show "gone_ok t" by (rule gone_frame[OF p(6), where es = "[]"]) (simp_all add: r o v, simp add: t)
    show "sole_ok t" using soles[OF s] i pc by (simp add: sole_ok_def t sole_keep)
    show "\<forall>j<vthreads t. tok t (vpc t j)"
    proof (rule all_toks[OF s, where i = i and q = "PWrite x n b"])
      show "tok t (PWrite x n b)" using tk(1) by (simp add: push_own_def in_block_def v)
      fix j assume j: "j < vthreads s" "j \<noteq> i" "tok s (vpc s j)"
      show "tok t (vpc s j)"
        by (rule tok_frame[OF j(3), where es = "[]"]) (simp_all add: v r tk(3) other_inst[OF s i j(1,2) none])
    qed (simp_all add: t)
  qed
qed

text \<open>A block from the pool or from the allocator.\<close>

lemma inv_push_acquire:
  assumes s: "vec_inv s" and i: "i < vthreads s" and pc: "vpc s i = PAcquire x n b"
    and a: "acquire_block (vv s) = (nx, v')" and t: "t = (vgo s i (PNext x n b nx))\<lparr>vv := v'\<rparr>"
  shows "vec_inv t"
proof -
  note p = inv_parts[OF s]
  have v: "vbase t = vbase s" "vnb t = vnb s" "vblk t = vblk s" "vrl t = vrl s" "venq t = venq s" "vgone t = vgone s"
    "head_index (vv t) = head_index (vv s)" "head_block (vv t) = head_block (vv s)" "tail_block (vv t) = tail_block (vv s)"
    "tail_index (vv t) = tail_index (vv s)" "retired (vv t) = retired (vv s)"
    using a by (auto simp: t acquire_block_def new_block_def split: list.splits)
  have al: "alike (vpc s i) (PNext x n b nx)" by (simp add: alike_def pc)
  note o = alike_own[OF al i, of t]
  have tp: "vthreads t = vthreads s" "vpc t = (vpc s)(i := PNext x n b nx)" by (simp_all add: t)
  have r: "ready t = ready s" "counted t = counted s" "slot_ok t = slot_ok s"
    unfolding fun_eq_iff ready_def counted_def slot_ok_def o[OF tp] v by simp_all
  have fresh: "vheap (vv s) (vfresh (vv s)) = None" using p(3) by (auto simp: pool_ok_def)
  then have hp: "vheap (vv s) q = Some c \<Longrightarrow> vheap (vv t) q = Some c" for q c
    using a by (auto simp: t acquire_block_def new_block_def split: list.splits)
  have nb: "vfresh (vv s) \<notin> vblk s ` {vbase s..<vnb s}" using fresh p(2) by (force simp: blocks_ok_def)
  have pr: "pristine s q \<Longrightarrow> pristine t q" for q using hp by (auto simp: pristine_def v)
  have nxp: "pristine t nx \<and> nx \<notin> set (free_list (vv t)) \<and> set (free_list (vv t)) \<subseteq> set (free_list (vv s)) \<and>
      distinct (free_list (vv t)) \<and> (\<forall>q\<in>dom (vheap (vv t)). q < vfresh (vv t))"
  proof (cases "free_list (vv s)")
    case Nil
    then have "nx = vfresh (vv s)" "vv t = (vv s)\<lparr>vheap := (vheap (vv s))(nx \<mapsto> block_new), vfresh := nx + 1\<rparr>"
      using a by (auto simp: t acquire_block_def new_block_def)
    then show ?thesis using Nil nb p(3) unused_new by (auto simp: pristine_def v pool_ok_def intro: less_SucI)
  next
    case (Cons q qs)
    then have "nx = q" "vv t = (vv s)\<lparr>free_list := qs\<rparr>" using a by (auto simp: t acquire_block_def)
    then show ?thesis using Cons p(3) pr by (auto simp: pool_ok_def)
  qed
  show ?thesis
  proof (rule inv_intro)
    show "index_ok t" using p(1) unfolding index_ok_def o[OF tp] v .
    show "blocks_ok t" by (rule blocks_frame[OF p(2) hp]) (simp_all add: v o[OF tp] r alike_linkd[OF al tp])
    show "pool_ok t" using p(3) nxp pr by (auto simp: pool_ok_def v)
    show "retired_ok t" by (rule retired_frame[OF p(4) hp]) (simp_all add: v o[OF tp])
    show "gone_ok t" by (rule gone_frame[OF p(6), where es = "[]"]) (simp_all add: r o[OF tp] v)
    show "sole_ok t" by (rule alike_sole[OF p(5) al i tp])
    show "\<forall>j<vthreads t. tok t (vpc t j)"
    proof (rule all_toks[OF s tp])
      show "tok t (PNext x n b nx)" using tokD[OF s i pc] nxp by (simp add: push_own_def in_block_def installing_def v)
      fix j assume j: "j < vthreads s" "j \<noteq> i" "tok s (vpc s j)"
      show "tok t (vpc s j)"
        by (rule tok_frame[OF j(3), where es = "[]"]) (simp_all add: v r other_inst[OF s i j(1,2)] pc)
    qed
  qed
qed

lemma counters_le: "block_ok s k c \<Longrightarrow> vcounters c \<le> 31"
  using card_mono[OF _ counted_fin(2)[of s k]] by (simp add: block_ok_def)

lemma last_not_full:
  assumes s: "vec_inv s" and k: "Suc k = vnb s" and c: "block_ok s k c"
  shows "vcounters c < 31" "k \<notin> set (vrl s)" "\<not> own retr s k"
proof -
  have "head_index (vv s) div 2 div 32 < vnb s" using inv_parts(1)[OF s] by (simp add: index_ok_def Let_def)
  then have "vcounters c \<noteq> 31" using full_before_head[OF s, of k] c k by (auto simp: block_ok_def)
  then show "vcounters c < 31" "k \<notin> set (vrl s)" "\<not> own retr s k" using counters_le[OF c] c by (auto simp: block_ok_def)
qed

text \<open>A block without history is a block no rank of which was reserved.\<close>

lemma block_ok_new:
  assumes s: "vec_inv s" and d: "unused d"
    and t: "counted t = counted s" "slot_ok t = slot_ok s" "\<And>x. own linkd t x \<Longrightarrow> own linkd s x" "own retr t = own retr s"
      "vrl t = vrl s" "vnb t = Suc (vnb s)"
  shows "block_ok t (vnb s) d"
proof -
  let ?k = "vnb s"
  have idx: "head_index (vv s) div 2 div 32 < ?k" "length (venq s) = rank (tail_index (vv s) div 2)" "tail_index (vv s) div 2 div 32 < ?k"
    using inv_parts(1)[OF s] by (simp_all add: index_ok_def Let_def)
  have "counted s ?k = {}"
    using rank_le_blocks[OF idx(1)] counted_fin(2)[of s ?k] by (fastforce simp: counted_def)
  moreover have "\<not> own retr s ?k" "?k \<notin> set (vrl s)"
    using retr_range[OF s, of ?k] inv_parts(4)[OF s] by (auto simp: retired_ok_def)
  moreover have "slot_ok s (31 * ?k + j) (vslots d ! j)" if "j < 31" for j
    using that d rank_le_blocks[OF idx(3)] idx(2) filled_pushr[of s "31 * ?k + j"] pushr_lt[OF s, of "31 * ?k + j"]
    by (auto simp: slot_ok_def unused_def)
  moreover have "\<not> own linkd t (?k, nx)" for nx using t(3) linkd_retr[of s ?k nx] calculation(2) by blast
  ultimately show ?thesis using d by (auto simp: block_ok_def unused_def t(1,2,4-6))
qed

lemma inv_push_next:
  assumes s: "vec_inv s" and i: "i < vthreads s" and pc: "vpc s i = PNext x n b nx" and c: "deref (vv s) b = Some c"
    and t: "t = (vgo s i (PCache x n b nx))
      \<lparr>vv := set_block (vv s) b (c\<lparr>vnext := Some nx\<rparr>), vblk := (vblk s)(vnb s := nx), vnb := vnb s + 1\<rparr>"
  shows "vec_inv t"
proof -
  let ?k = "n div 2 div 32"
  note p = inv_parts[OF s]
  have tk: "push_own s x n b" "n div 2 mod 32 = 30" "tail_index (vv s) = n + 2" "vnb s = Suc ?k" "pristine s nx"
    "nx \<notin> set (free_list (vv s))"
    using tokD[OF s i pc] by (auto simp: installing_def offset_def')
  then have k: "vbase s \<le> ?k" "?k < vnb s" "b = Some (vblk s ?k)" "offset_of n < 31" by (auto simp: push_own_def in_block_def)
  have al: "alike (vpc s i) (PCache x n b nx)" by (simp add: alike_def pc)
  have tp: "vthreads t = vthreads s" "vpc t = (vpc s)(i := PCache x n b nx)" by (simp_all add: t)
  note o = alike_own[OF al i tp]
  have v: "vbase t = vbase s" "vnb t = Suc (vnb s)" "vblk t = (vblk s)(vnb s := nx)" "vrl t = vrl s" "venq t = venq s" "vgone t = vgone s"
    "head_index (vv t) = head_index (vv s)" "head_block (vv t) = head_block (vv s)" "tail_block (vv t) = tail_block (vv s)"
    "tail_index (vv t) = tail_index (vv s)" "retired (vv t) = retired (vv s)" "free_list (vv t) = free_list (vv s)"
    "vfresh (vv t) = vfresh (vv s)"
    by (simp_all add: t set_block_def)
  have r: "ready t = ready s" "counted t = counted s" "slot_ok t = slot_ok s"
    unfolding fun_eq_iff ready_def counted_def slot_ok_def o v by simp_all
  have hc: "vheap (vv s) (vblk s ?k) = Some c" using c k(3) by (simp add: deref_def)
  have bc: "block_ok s ?k c" using block_at[OF s k(1,2)] hc by auto
  note lst = last_not_full[OF s tk(4)[symmetric] bc]
  have "vv t = set_block (vv s) (Some (vblk s ?k)) (c\<lparr>vnext := Some nx\<rparr>)" using k(3) by (simp add: t)
  note h = heap_set_block[OF s k(1,2) this]
  have nxr: "nx \<notin> vblk s ` {vbase s..<vnb s}" using tk(5) by (simp add: pristine_def)
  show ?thesis
  proof (rule inv_intro)
    show "index_ok t" using p(1) tk(2-4) unfolding index_ok_def o v Let_def by (auto simp: div_mod_Suc32 split: if_splits)
    show "blocks_ok t" unfolding blocks_ok_def v
    proof (intro allI impI)
      fix j assume j: "vbase s \<le> j \<and> j < Suc (vnb s)"
      consider "j = vnb s" | "j = ?k" | "j < vnb s" "j \<noteq> ?k" "Suc j < vnb s" using j tk(4) by linarith
      then show "\<exists>d. vheap (vv t) (((vblk s)(vnb s := nx)) j) = Some d \<and> block_ok t j d"
      proof cases
        case 1
        then show ?thesis using h(2)[OF nxr] tk(5) block_ok_new[OF s, of _ t] r o alike_linkd[OF al tp] v(2,4)
          by (auto simp: pristine_def)
      next
        case 2
        have "block_ok t ?k (c\<lparr>vnext := Some nx\<rparr>)" using bc lst(1,3) linkd_retr[of s ?k] alike_linkd[OF al tp] tk(4)
          by (auto simp: block_ok_def r o v)
        with 2 h(1)[OF k(1,2)] tk(4) show ?thesis by simp
      next
        case 3
        obtain d where d: "vheap (vv s) (vblk s j) = Some d" "block_ok s j d" using block_at[OF s] j 3 by blast
        then have "block_ok t j d" using 3 alike_linkd[OF al tp] unfolding block_ok_def r o v(2-4) by auto
        with d h(1)[of j] 3 j show ?thesis by simp
      qed
    qed
    have inj: "inj_on ((vblk s)(vnb s := nx)) {vbase s..<Suc (vnb s)}"
      using p(3) nxr by (fastforce simp: pool_ok_def inj_on_def image_iff less_Suc_eq)
    have img: "((vblk s)(vnb s := nx)) ` {vbase s..<Suc (vnb s)} \<subseteq> insert nx (vblk s ` {vbase s..<vnb s})"
      by (auto simp: less_Suc_eq)
    have pr: "pristine s q \<Longrightarrow> q \<noteq> nx \<Longrightarrow> pristine t q" for q using h(2)[of q] img by (auto simp: pristine_def v)
    have "dom (vheap (vv t)) = dom (vheap (vv s))" using hc k(3) by (auto simp: t set_block_def)
    moreover have "\<forall>q\<in>set (free_list (vv s)). pristine t q" using p(3) pr tk(6) unfolding pool_ok_def by metis
    ultimately show "pool_ok t" unfolding pool_ok_def v using p(3) inj by (simp add: pool_ok_def)
    have rg: "vbase s \<le> m \<and> m < vnb s \<and> m \<noteq> ?k" if "m \<in> set (vrl s)" for m using that p(4) lst(2) by (auto simp: retired_ok_def)
    then have mp: "map ((vblk s)(vnb s := nx)) (vrl s) = map (vblk s) (vrl s)" by auto
    have "vheap (vv t) (((vblk s)(vnb s := nx)) (vrl s ! j)) = vheap (vv s) (vblk s (vrl s ! j))" if "j < length (vrl s)" for j
      using rg[of "vrl s ! j"] that h(1)[of "vrl s ! j"] by simp
    then show "retired_ok t" using p(4) unfolding retired_ok_def v(1-4,11) o mp by auto
    show "gone_ok t" by (rule gone_frame[OF p(6), where es = "[]"]) (simp_all add: r o v)
    show "sole_ok t" by (rule alike_sole[OF p(5) al i tp])
    show "\<forall>j<vthreads t. tok t (vpc t j)"
    proof (rule all_toks[OF s tp])
      show "tok t (PCache x n b nx)" using tk k by (simp add: push_own_def in_block_def installing_def v offset_def')
      fix j assume j: "j < vthreads s" "j \<noteq> i" "tok s (vpc s j)"
      show "tok t (vpc s j)"
        by (rule tok_frame[OF j(3), where es = "[]"]) (simp_all add: v r other_inst[OF s i j(1,2)] pc)
    qed
  qed
qed

section \<open>Steps of pop\<close>

text \<open>A pop reserves the next rank.\<close>

lemma inv_pop_reserve:
  assumes s: "vec_inv s" and i: "i < vthreads s" and pc: "vpc s i = QCas h nh b" and h: "head_index (vv s) = h"
    and q: "q = (if offset_of h + 1 = 31 then QNext h nh b else QWait h b)"
    and t: "t = (vgo s i q)\<lparr>vv := (vv s)\<lparr>head_index := nh\<rparr>\<rparr>"
  shows "vec_inv t"
proof -
  let ?H = "h div 2"
  note p = inv_parts[OF s]
  have tk: "offset_of h < 31" "b = head_block (vv s)" "nh div 2 = Suc ?H" using tokD[OF s i pc] h by (auto simp: offset_lt)
  then have H: "?H mod 32 \<noteq> 31" "head_block (vv s) = Some (vblk s (?H div 32))" "\<not> own mov s ()"
    "vbase s \<le> ?H div 32" "?H div 32 < vnb s"
    using p(1) h by (auto simp: index_ok_def Let_def offset_def' split: if_splits)
  have new: "\<not> own heldr s (claimed s)" using heldr_lt[OF s] by blast
  then have new': "\<not> own cntr s (claimed s)" "\<not> own popr s (claimed s)"
    using own_sub[of cntr s "claimed s" heldr] own_sub[of popr s "claimed s" heldr] cntr_heldr popr_cntr by blast+
  have none: "heldr (vpc s i) = None" "cntr (vpc s i) = None" "popr (vpc s i) = None" "mov (vpc s i) = None"
    and qp: "heldr q = Some (rank ?H)" "cntr q = Some (rank ?H)" "popr q = Some (rank ?H)" using pc by (auto simp: q)
  have o: "own filled t = own filled s" "own pushr t = own pushr s" "own inst t = own inst s" "own retr t = own retr s"
    "own linkd t = own linkd s"
    using i pc by (simp_all add: t q owns_keep)
  have op: "own heldr t r \<longleftrightarrow> r = claimed s \<or> own heldr s r" "own cntr t r \<longleftrightarrow> r = claimed s \<or> own cntr s r"
    "own popr t r \<longleftrightarrow> r = claimed s \<or> own popr s r" for r
    using i none qp h by (auto simp: t owns_new)
  have om: "own mov t () \<longleftrightarrow> offset_of h = 30"
    using owns_new[of i "vthreads s" mov "vpc s" q "()"] i none H(3) by (simp add: t q)
  have v: "vheap (vv t) = vheap (vv s)" "vbase t = vbase s" "vnb t = vnb s" "vblk t = vblk s" "vrl t = vrl s"
    "tail_index (vv t) = tail_index (vv s)" "head_block (vv t) = head_block (vv s)" "tail_block (vv t) = tail_block (vv s)"
    "venq t = venq s" "head_index (vv t) = nh"
    by (simp_all add: t)
  have cl: "rank (nh div 2) = Suc (claimed s)" using H(1) h tk(3) by (simp add: rank_Suc)
  have r: "ready t = ready s" "pristine t = pristine s" unfolding fun_eq_iff ready_def pristine_def o v by simp_all
  have cnt: "counted t = counted s" using new' by (auto simp: fun_eq_iff counted_def op v cl less_Suc_eq)
  have slot: "slot_ok t = slot_ok s" unfolding fun_eq_iff slot_ok_def o v op cl by (auto simp: Suc_le_eq)
  have mono: "h < nh" using tk(3) by linarith
  show ?thesis
  proof (rule inv_intro)
    have "if Suc ?H mod 32 = 31 then own mov t () else \<not> own mov t ()"
      using H(1) tk(1) by (simp add: om offset_def' div_mod_Suc32)
    then show "index_ok t" using p(1) H h unfolding index_ok_def Let_def v o tk(3)
      by (simp add: div_mod_Suc32)
    show "blocks_ok t" by (rule blocks_frame[OF p(2)]) (simp_all add: v(1-5) o cnt slot)
    show "pool_ok t" by (rule pool_frame[OF p(3)]) (simp_all add: t)
    show "retired_ok t" by (rule retired_frame[OF p(4)]) (simp_all add: v(1-5) o, simp add: t)
    show "gone_ok t" using new
      by (intro gone_frame[OF p(6), where es = "[]"]) (auto simp: r op v cl less_Suc_eq, simp add: t)
    show "sole_ok t" unfolding sole_ok_def
    proof (intro conjI)
      show "sole heldr (vthreads t) (vpc t)"
        using sole_new[of i "vthreads s" heldr "vpc s" q] i soles(2)[OF s] new qp h by (simp add: t)
      show "sole mov (vthreads t) (vpc t)"
        using sole_new[of i "vthreads s" mov "vpc s" q] i soles(4)[OF s] H(3) by (simp add: t)
    qed (use i pc soles[OF s] in \<open>simp_all add: t q sole_keep\<close>)
    show "\<forall>j<vthreads t. tok t (vpc t j)"
    proof (rule all_toks[OF s, where i = i and q = q])
      have "pop_own t h b" using tk H cl h by (simp add: pop_own_def in_block_def v)
      then show "tok t q" using tk(3) by (simp add: q moving_def v)
      fix j assume j: "j < vthreads s" "j \<noteq> i" "tok s (vpc s j)"
      have "mov (vpc s j) = None" using H(3) ownsI[OF j(1), of mov "vpc s"] by (metis option.exhaust old.unit.exhaust)
      then show "tok t (vpc s j)" using mono
        by (intro tok_frame[OF j(3), where es = "[]"]) (simp_all add: v r h, simp_all add: t)
    qed (simp_all add: t)
  qed
qed

lemma inv_pop_head:
  assumes s: "vec_inv s" and i: "i < vthreads s" and pc: "vpc s i = QHeadI h b ni"
    and t: "t = (vgo s i (QWait h b))\<lparr>vv := (vv s)\<lparr>head_index := ni\<rparr>\<rparr>"
  shows "vec_inv t"
proof -
  let ?H = "h div 2"
  note p = inv_parts[OF s]
  have tk: "pop_own s h b" "?H mod 32 = 30" "head_index (vv s) div 2 = Suc ?H" "ni div 2 = Suc (Suc ?H)"
    "Suc (?H div 32) < vnb s" "head_block (vv s) = Some (vblk s (Suc (?H div 32)))"
    using tokD[OF s i pc] by (auto simp: moving_def moved_def offset_def')
  have H': "Suc ?H mod 32 = 31" "Suc ?H div 32 = ?H div 32" using tk(2) by (simp_all add: div_mod_Suc32)
  have some: "mov (vpc s i) = Some ()" using pc by simp
  have o: "own pushr t = own pushr s" "own filled t = own filled s" "own popr t = own popr s" "own cntr t = own cntr s"
    "own heldr t = own heldr s" "own inst t = own inst s" "own retr t = own retr s" "own linkd t = own linkd s"
    using i pc by (simp_all add: t owns_keep)
  have om: "\<not> own mov t ()" using owns_gone[of i "vthreads s" mov "vpc s" "()" "QWait h b" "()"] i soles(4)[OF s] some by (simp add: t)
  have v: "vheap (vv t) = vheap (vv s)" "vbase t = vbase s" "vnb t = vnb s" "vblk t = vblk s" "vrl t = vrl s"
    "tail_index (vv t) = tail_index (vv s)" "head_block (vv t) = head_block (vv s)" "tail_block (vv t) = tail_block (vv s)"
    "venq t = venq s" "head_index (vv t) = ni"
    by (simp_all add: t)
  have cl: "rank (ni div 2) = claimed s" using H' tk by (simp add: rank_Suc)
  have r: "ready t = ready s" "counted t = counted s" "slot_ok t = slot_ok s" "pristine t = pristine s"
    unfolding fun_eq_iff ready_def counted_def slot_ok_def pristine_def o v cl by simp_all
  have mono: "head_index (vv s) < ni" using tk(3,4) by linarith
  show ?thesis
  proof (rule inv_intro)
    show "index_ok t" using p(1) tk(4-6) om unfolding index_ok_def Let_def v o tk(3,4)
      by (simp add: div_mod_Suc32 H')
    show "blocks_ok t" by (rule blocks_frame[OF p(2)]) (simp_all add: v(1-5) o r)
    show "pool_ok t" by (rule pool_frame[OF p(3)]) (simp_all add: t)
    show "retired_ok t" by (rule retired_frame[OF p(4)]) (simp_all add: v(1-5) o, simp add: t)
    show "gone_ok t" by (rule gone_frame[OF p(6), where es = "[]"]) (simp_all add: r o v cl, simp add: t)
    show "sole_ok t" using soles[OF s] i pc by (simp add: sole_ok_def t sole_keep)
    show "\<forall>j<vthreads t. tok t (vpc t j)"
    proof (rule all_toks[OF s, where i = i and q = "QWait h b"])
      show "tok t (QWait h b)" using tk(1) cl by (simp add: pop_own_def in_block_def v)
      fix j assume j: "j < vthreads s" "j \<noteq> i" "tok s (vpc s j)"
      show "tok t (vpc s j)" using mono
        by (intro tok_frame[OF j(3), where es = "[]"]) (simp_all add: v r other_mov[OF s i j(1,2) some], simp_all add: t)
    qed (simp_all add: t)
  qed
qed

lemma inv_pop_mark:
  assumes s: "vec_inv s" and i: "i < vthreads s" and pc: "vpc s i = QMark h b v" and c: "deref (vv s) b = Some c"
    and t: "t = (vgo s i (QCount h b v))
      \<lparr>vv := set_block (vv s) b (c\<lparr>vslots := (vslots c)[offset_of h := (vslots c ! offset_of h)\<lparr>vstate := SLOT_READ\<rparr>]\<rparr>)\<rparr>"
  shows "vec_inv t"
proof -
  let ?r = "rank (h div 2)"
  have po: "pop_own s h b" "got s h v" using tokD[OF s i pc] by simp_all
  have o: "own pushr t = own pushr s" "own filled t = own filled s" "own inst t = own inst s" "own cntr t = own cntr s"
    "own heldr t = own heldr s" "own mov t = own mov s" "own retr t = own retr s" "own linkd t = own linkd s"
    using i pc by (simp_all add: t owns_keep)
  have f: "own popr t r \<longleftrightarrow> own popr s r \<and> r \<noteq> ?r" for r using i pc soles[OF s] by (simp add: t owns_gone)
  have w: "venq t = venq s" "head_index (vv t) = head_index (vv s)" by (simp_all add: t set_block_def)
  have r: "ready t = ready s" unfolding fun_eq_iff ready_def o w by simp
  show ?thesis
  proof (rule inv_slot[OF s i _ c, where q = "QCount h b v" and n = h])
    show "in_block s h b" using po by (simp add: pop_own_def)
    show "ready s r \<Longrightarrow> ready t r" for r by (simp add: r)
    show "sole_ok t" using soles[OF s] i pc by (simp add: sole_ok_def t sole_keep)
    show "tok t (QCount h b v)" using po by (simp add: pop_own_def in_block_def got_def r w) (simp add: t)
    show "slot_ok s r d \<Longrightarrow> slot_ok t r d" if "r \<noteq> ?r" for r d using that by (simp add: slot_ok_def o f w)
    show "slot_ok s ?r (vslots c ! offset_of h) \<Longrightarrow> slot_ok t ?r ((vslots c ! offset_of h)\<lparr>vstate := SLOT_READ\<rparr>)"
      using po by (simp add: slot_ok_def o f w got_def ready_def)
  qed (simp_all only: o, simp_all add: t)
qed

text \<open>The reader counts its slot; the one that completes the block becomes its retirer.\<close>

lemma inv_pop_count:
  assumes s: "vec_inv s" and i: "i < vthreads s" and pc: "vpc s i = QCount h b v" and c: "deref (vv s) b = Some c"
    and q: "q = (if vcounters c + 1 = 31 then QRetLoad h b v else QRetCnt h v)"
    and t: "t = (vgo s i q)\<lparr>vv := set_block (vv s) b (c\<lparr>vcounters := vcounters c + 1\<rparr>)\<rparr>"
  shows "vec_inv t"
proof -
  let ?r = "rank (h div 2)" and ?k = "h div 2 div 32"
  have po: "pop_own s h b" "got s h v" using tokD[OF s i pc] by simp_all
  then have k: "vbase s \<le> ?k" "?k < vnb s" "b = Some (vblk s ?k)" "offset_of h < 31" "?r < claimed s"
    by (auto simp: pop_own_def in_block_def)
  have hc: "vheap (vv s) (vblk s ?k) = Some c" using c k(3) by (simp add: deref_def)
  then have bc: "block_ok s ?k c" using block_at[OF s k(1,2)] by auto
  have o: "own pushr t = own pushr s" "own filled t = own filled s" "own inst t = own inst s" "own popr t = own popr s"
    "own heldr t = own heldr s" "own mov t = own mov s" "own linkd t = own linkd s"
    using i pc by (simp_all add: t q owns_keep)
  have oc: "own cntr t r \<longleftrightarrow> own cntr s r \<and> r \<noteq> ?r" for r using i pc soles[OF s] by (simp add: t q owns_gone)
  have or: "own retr t j \<longleftrightarrow> own retr s j \<or> vcounters c + 1 = 31 \<and> j = ?k" for j
    using owns_new[of i "vthreads s" retr "vpc s" q j] i pc by (auto simp: t q)
  have w: "venq t = venq s" "head_index (vv t) = head_index (vv s)" by (simp_all add: t set_block_def)
  have r: "ready t = ready s" "slot_ok t = slot_ok s" unfolding fun_eq_iff ready_def slot_ok_def o w by simp_all
  have "own cntr s ?r" using i pc by (intro ownsI[of i]) auto
  then have cs: "?r \<notin> counted s ?k" and ct: "counted t ?k = insert ?r (counted s ?k)" "\<And>j. j \<noteq> ?k \<Longrightarrow> counted t j = counted s j"
    using k(5) rank_div(1)[OF k(4)] by (auto simp: counted_def oc w)
  have ne: "vcounters c \<noteq> 31"
    using cs counted_full[of s ?k] bc k(4) by (auto simp: block_ok_def rank_offset)
  then have nr: "\<not> own retr s ?k" "?k \<notin> set (vrl s)" using bc by (auto simp: block_ok_def)
  have card: "card (counted t ?k) = Suc (card (counted s ?k))" using cs counted_fin(1)[of s ?k] by (simp add: ct)
  show ?thesis
  proof (rule inv_block[OF s i k(1,2) hc, where q = q and c' = "c\<lparr>vcounters := vcounters c + 1\<rparr>"])
    show "ready s r \<Longrightarrow> ready t r" for r by (simp add: r)
    show "tok t q" using po by (simp add: q pop_own_def in_block_def got_def r w) (simp add: t)
    have "retr q = Some j \<Longrightarrow> \<not> own retr s j" for j using nr(1) by (auto simp: q split: if_splits)
    then have "sole retr (vthreads t) (vpc t)"
      using sole_new[of i "vthreads s" retr "vpc s" q] i soles(5)[OF s] by (simp add: t)
    then show "sole_ok t" using soles[OF s] i pc by (simp add: sole_ok_def t q sole_keep)
    show "own retr t j \<Longrightarrow> own retr s j" if "j \<in> set (vrl s)" for j using that nr or by blast
    have x: "vnb t = vnb s" "vblk t = vblk s" "vrl t = vrl s" by (simp_all add: t)
    show "block_ok s j d \<Longrightarrow> block_ok t j d" if "j \<noteq> ?k" for j d
      using that unfolding block_ok_def r o ct(2)[OF that] x or by auto
    show "block_ok s ?k c \<Longrightarrow> block_ok t ?k (c\<lparr>vcounters := vcounters c + 1\<rparr>)"
      using ne nr counters_le[OF bc] unfolding block_ok_def r o card or x by auto
  qed (simp_all only: o, use k(3) in \<open>simp_all add: t\<close>)
qed

lemma inv_retire_next:
  assumes s: "vec_inv s" and i: "i < vthreads s" and pc: "vpc s i = QRetNext h b v nx" and c: "deref (vv s) b = Some c"
    and t: "t = (vgo s i (QRetCas h b v nx))\<lparr>vv := set_block (vv s) b (c\<lparr>vnext := nx\<rparr>)\<rparr>"
  shows "vec_inv t"
proof -
  let ?k = "h div 2 div 32"
  have po: "pop_own s h b" "got s h v" using tokD[OF s i pc] by simp_all
  then have k: "vbase s \<le> ?k" "?k < vnb s" "b = Some (vblk s ?k)" by (auto simp: pop_own_def in_block_def)
  have hc: "vheap (vv s) (vblk s ?k) = Some c" using c k(3) by (simp add: deref_def)
  then have bc: "block_ok s ?k c" using block_at[OF s k(1,2)] by auto
  have o: "own pushr t = own pushr s" "own filled t = own filled s" "own inst t = own inst s" "own popr t = own popr s"
    "own cntr t = own cntr s" "own heldr t = own heldr s" "own mov t = own mov s" "own retr t = own retr s"
    using i pc by (simp_all add: t owns_keep)
  have ol: "own linkd t x \<longleftrightarrow> x = (?k, nx) \<or> own linkd s x" for x
    using owns_new[of i "vthreads s" linkd "vpc s" "QRetCas h b v nx" x] i pc by (auto simp: t)
  have ret: "own retr s ?k" using i pc by (intro ownsI[of i]) auto
  then have full: "vcounters c = 31" "?k \<notin> set (vrl s)" using bc inv_parts(4)[OF s] by (auto simp: block_ok_def retired_ok_def)
  have nl: "\<not> own linkd s (?k, ny)" for ny
  proof
    assume "own linkd s (?k, ny)"
    then obtain j where j: "j < vthreads s" "linkd (vpc s j) = Some (?k, ny)" by (auto simp: owns_def)
    then have "retr (vpc s j) = Some ?k" by (auto elim!: linkd.elims)
    then have "j = i" using soles(5)[OF s] i j(1) pc by (auto simp: sole_def)
    with j pc show False by simp
  qed
  have w: "venq t = venq s" "head_index (vv t) = head_index (vv s)" "vnb t = vnb s" "vblk t = vblk s" "vrl t = vrl s"
    by (simp_all add: t set_block_def)
  have r: "ready t = ready s" "slot_ok t = slot_ok s" "counted t = counted s"
    unfolding fun_eq_iff ready_def slot_ok_def counted_def o w by simp_all
  show ?thesis
  proof (rule inv_block[OF s i k(1,2) hc, where q = "QRetCas h b v nx" and c' = "c\<lparr>vnext := nx\<rparr>"])
    show "ready s r \<Longrightarrow> ready t r" for r by (simp add: r)
    show "tok t (QRetCas h b v nx)" using po by (simp add: pop_own_def in_block_def got_def r w) (simp add: t)
    show "sole_ok t" using soles[OF s] i pc by (simp add: sole_ok_def t sole_keep)
    show "own retr t j \<Longrightarrow> own retr s j" for j by (simp only: o)
    show "vnext (c\<lparr>vnext := nx\<rparr>) = vnext c \<or> ?k \<notin> set (vrl s)" using full by simp
    show "block_ok s j d \<Longrightarrow> block_ok t j d" if "j \<noteq> ?k" for j d
      using that unfolding block_ok_def r o ol w by auto
    show "block_ok s ?k c \<Longrightarrow> block_ok t ?k (c\<lparr>vnext := nx\<rparr>)"
      using full nl unfolding block_ok_def r o ol w by auto
  qed (simp_all only: o, use k(3) in \<open>simp_all add: t\<close>)
qed

text \<open>The block enters the retired list.\<close>

lemma inv_retire_cas:
  assumes s: "vec_inv s" and i: "i < vthreads s" and pc: "vpc s i = QRetCas h b v nx" and nx: "retired (vv s) = nx"
    and t: "t = (vgo s i (QRetCnt h v))\<lparr>vv := (vv s)\<lparr>retired := b\<rparr>, vrl := h div 2 div 32 # vrl s\<rparr>"
  shows "vec_inv t"
proof -
  let ?k = "h div 2 div 32"
  note p = inv_parts[OF s]
  have po: "pop_own s h b" "got s h v" using tokD[OF s i pc] by simp_all
  then have k: "vbase s \<le> ?k" "?k < vnb s" "b = Some (vblk s ?k)" by (auto simp: pop_own_def in_block_def)
  obtain c where c: "vheap (vv s) (vblk s ?k) = Some c" "block_ok s ?k c" using block_at[OF s k(1,2)] by blast
  have o: "own pushr t = own pushr s" "own filled t = own filled s" "own inst t = own inst s" "own popr t = own popr s"
    "own cntr t = own cntr s" "own heldr t = own heldr s" "own mov t = own mov s"
    using i pc by (simp_all add: t owns_keep)
  have ol: "own linkd t x \<Longrightarrow> own linkd s x" for x using i pc soles[OF s] by (simp add: t owns_gone)
  have or: "own retr t j \<longleftrightarrow> own retr s j \<and> j \<noteq> ?k" for j using i pc soles[OF s] by (simp add: t owns_gone)
  have "own linkd s (?k, nx)" "own retr s ?k" using i pc by (auto intro: ownsI[of i])
  then have c': "vnext c = nx" "vcounters c = 31" and nk: "?k \<notin> set (vrl s)" using c(2) p(4) by (auto simp: block_ok_def retired_ok_def)
  have w: "vheap (vv t) = vheap (vv s)" "vbase t = vbase s" "vnb t = vnb s" "vblk t = vblk s" "venq t = venq s" "vgone t = vgone s"
    "head_index (vv t) = head_index (vv s)" "head_block (vv t) = head_block (vv s)" "tail_index (vv t) = tail_index (vv s)"
    "tail_block (vv t) = tail_block (vv s)" "free_list (vv t) = free_list (vv s)" "vrl t = ?k # vrl s" "retired (vv t) = b"
    by (simp_all add: t)
  have r: "ready t = ready s" "slot_ok t = slot_ok s" "counted t = counted s" "pristine t = pristine s"
    unfolding fun_eq_iff ready_def slot_ok_def counted_def pristine_def o w by simp_all
  show ?thesis
  proof (rule inv_intro)
    show "index_ok t" using p(1) unfolding index_ok_def o w .
    have "block_ok t j d" if "block_ok s j d" for j d
    proof (cases "j = ?k")
      case True
      have "vcounters d = 31" using that \<open>own retr s ?k\<close> True by (simp add: block_ok_def)
      with that True show ?thesis using ol unfolding block_ok_def r o or w by auto
    next
      case False
      with that ol show ?thesis unfolding block_ok_def r o or w by auto
    qed
    then show "blocks_ok t" using p(2) unfolding blocks_ok_def w by blast
    show "pool_ok t" by (rule pool_frame[OF p(3)]) (simp_all add: t)
    have "\<exists>d. vheap (vv s) (vblk s ((?k # vrl s) ! j)) = Some d \<and> vnext d = next_ptr (map (vblk s) (?k # vrl s)) j"
      if j: "j < length (?k # vrl s)" for j
    proof (cases j)
      case 0
      have "first_ptr (map (vblk s) (vrl s)) = nx" using p(4) nx by (simp add: retired_ok_def)
      then have "nx = next_ptr (map (vblk s) (?k # vrl s)) 0" by (cases "vrl s") (auto simp: next_ptr_def)
      with 0 c c' show ?thesis by simp
    next
      case (Suc m)
      with j p(4) show ?thesis by (auto simp: retired_ok_def next_ptr_def)
    qed
    then show "retired_ok t" using p(4) nk k unfolding retired_ok_def w or by auto
    show "sole_ok t" using soles[OF s] i pc by (simp add: sole_ok_def t sole_keep)
    show "gone_ok t" by (rule gone_frame[OF p(6), where es = "[]"]) (simp_all add: r o w)
    show "\<forall>j<vthreads t. tok t (vpc t j)"
    proof (rule all_toks[OF s, where i = i and q = "QRetCnt h v"])
      show "tok t (QRetCnt h v)" using po by (simp add: got_def r w)
      fix j assume j: "tok s (vpc s j)"
      show "tok t (vpc s j)" by (rule tok_frame[OF j, where es = "[]"]) (simp_all add: w r)
    qed (simp_all add: t)
  qed
qed

text \<open>A pop returns.\<close>

lemma inv_popped:
  assumes s: "vec_inv s" and i: "i < vthreads s" and pc: "vpc s i \<in> {QRetCnt h v, QTry h v, QExcl h v m}"
  shows "vec_inv (vpopped s i h v)"
proof -
  let ?r = "rank (h div 2)"
  define t where "t = vpopped s i h v"
  note p = inv_parts[OF s]
  have g: "got s h v" using tokD[OF s i refl] pc by auto
  have tp: "vthreads t = vthreads s" "vpc t = (vpc s)(i := VIdle)" by (simp_all add: t_def vpopped_def vret_def)
  have o: "own pushr t = own pushr s" "own filled t = own filled s" "own inst t = own inst s" "own popr t = own popr s"
    "own cntr t = own cntr s" "own mov t = own mov s" "own retr t = own retr s" "own linkd t = own linkd s"
    using i pc by (auto simp: tp owns_keep)
  have oh: "own heldr t r \<longleftrightarrow> own heldr s r \<and> r \<noteq> ?r" for r using i pc soles[OF s] by (auto simp: tp owns_gone)
  have w: "vv t = vv s" "vbase t = vbase s" "vnb t = vnb s" "vblk t = vblk s" "venq t = venq s" "vrl t = vrl s"
    by (simp_all add: t_def vpopped_def vret_def)
  have wg: "vgone t = vgone s @ [(?r, v)]" by (simp add: t_def vpopped_def)
  have r: "ready t = ready s" "slot_ok t = slot_ok s" "counted t = counted s" "pristine t = pristine s"
    unfolding fun_eq_iff ready_def slot_ok_def counted_def pristine_def o w by simp_all
  have held: "own heldr s ?r" using i pc by (intro ownsI[of i]) auto
  have "vec_inv t"
  proof (rule inv_intro)
    show "index_ok t" using p(1) unfolding index_ok_def o w .
    show "blocks_ok t" by (rule blocks_frame[OF p(2)]) (simp_all add: w o r)
    show "pool_ok t" by (rule pool_frame[OF p(3)]) (simp_all add: w)
    show "retired_ok t" by (rule retired_frame[OF p(4)]) (simp_all add: w o)
    show "sole_ok t" using soles[OF s] i by (simp add: sole_ok_def tp sole_keep)
    have "?r \<notin> fst ` set (vgone s)" using p(6) held by (simp add: gone_ok_def)
    with p(6) g held show "gone_ok t" unfolding gone_ok_def w wg r oh by (auto simp: got_def)
    show "\<forall>j<vthreads t. tok t (vpc t j)"
    proof (rule all_toks[OF s tp])
      fix j assume j: "tok s (vpc s j)"
      show "tok t (vpc s j)" by (rule tok_frame[OF j, where es = "[]"]) (simp_all add: w r)
    qed simp
  qed
  then show ?thesis by (simp add: t_def)
qed

section \<open>Reclamation\<close>

definition chained :: "(addr \<rightharpoonup> 'a vblock) \<Rightarrow> addr list \<Rightarrow> bool" where
  "chained H ps \<longleftrightarrow> (\<forall>j<length ps. \<exists>c. H (ps ! j) = Some c \<and> length (vslots c) = 32 \<and> vnext c = next_ptr ps j)"

definition recycled :: "'a vec \<Rightarrow> addr list \<Rightarrow> 'a vec \<Rightarrow> bool" where
  "recycled v ps w \<longleftrightarrow>
     w = v\<lparr>vheap := vheap w, free_list := free_list w\<rparr> \<and> (\<forall>p. p \<notin> set ps \<longrightarrow> vheap w p = vheap v p) \<and>
     dom (vheap w) \<subseteq> dom (vheap v) \<and>
     (\<exists>qs. free_list w = free_list v @ qs \<and> distinct qs \<and> set qs \<subseteq> set ps \<and> (\<forall>q\<in>set qs. \<exists>c. vheap w q = Some c \<and> unused c))"

lemma chained_tl: "chained H (p # ps) \<Longrightarrow> chained H ps"
  unfolding chained_def next_ptr_def by (metis Suc_less_eq add_Suc length_Cons nth_Cons_Suc)

lemma chained_upd: "chained H ps \<Longrightarrow> p \<notin> set ps \<Longrightarrow> chained (H(p := x)) ps"
  unfolding chained_def by (metis fun_upd_other nth_mem)

lemma reclaim_loop_recycles:
  assumes "chained (vheap v) ps" "distinct ps"
  shows "\<exists>w. reclaim_loop v (first_ptr ps) = Some w \<and> recycled v ps w"
  using assms
proof (induction ps arbitrary: v)
  case Nil
  then show ?case by (subst reclaim_loop.simps) (simp add: recycled_def)
next
  case (Cons p ps)
  obtain b where b: "vheap v p = Some b" "length (vslots b) = 32" "vnext b = first_ptr ps"
    using Cons.prems(1) by (cases ps) (auto simp: chained_def next_ptr_def dest: spec[of _ 0])
  let ?x = "if length (free_list v) < POOL_CAP then Some (block_reset b) else None"
  let ?u = "v\<lparr>vheap := (vheap v)(p := ?x), free_list := free_list v @ (if length (free_list v) < POOL_CAP then [p] else [])\<rparr>"
  have "chained (vheap ?u) ps" using chained_upd[OF chained_tl[OF Cons.prems(1)]] Cons.prems(2) by simp
  moreover have "distinct ps" using Cons.prems(2) by simp
  ultimately obtain w where w: "reclaim_loop ?u (first_ptr ps) = Some w" "recycled ?u ps w" using Cons.IH[of ?u] by blast
  moreover have "reclaim_loop v (first_ptr (p # ps)) = reclaim_loop ?u (first_ptr ps)"
    using b by (subst reclaim_loop.simps) (auto simp: pool_push_def dealloc_block_def)
  moreover have "recycled v (p # ps) w"
  proof -
    obtain qs where qs: "free_list w = free_list ?u @ qs" "distinct qs" "set qs \<subseteq> set ps"
      "\<forall>q\<in>set qs. \<exists>c. vheap w q = Some c \<and> unused c"
      using w(2) unfolding recycled_def by blast
    have hp: "vheap w p = ?x" using w(2) Cons.prems(2) by (auto simp: recycled_def)
    have "w = v\<lparr>vheap := vheap w, free_list := free_list w\<rparr>" using w(2) by (simp add: recycled_def)
    moreover have "dom (vheap w) \<subseteq> dom (vheap v)" using w(2) b(1) by (auto simp: recycled_def split: if_splits)
    moreover have "\<forall>q. q \<notin> set (p # ps) \<longrightarrow> vheap w q = vheap v q" using w(2) by (auto simp: recycled_def)
    moreover have "\<exists>qs. free_list w = free_list v @ qs \<and> distinct qs \<and> set qs \<subseteq> set (p # ps) \<and>
        (\<forall>q\<in>set qs. \<exists>c. vheap w q = Some c \<and> unused c)"
      using qs hp unused_reset[OF b(2)] Cons.prems(2)
      by (intro exI[of _ "(if length (free_list v) < POOL_CAP then [p] else []) @ qs"]) auto
    ultimately show ?thesis unfolding recycled_def by blast
  qed
  ultimately show ?case by simp
qed

lemma unpinned_none:
  assumes "\<forall>j<vthreads s. unpinned (vpc s j)"
  shows "\<not> own pushr s r" "\<not> own inst s u" "\<not> own cntr s r" "\<not> own mov s u" "\<not> own retr s k"
proof -
  have "unpinned p \<Longrightarrow> pushr p = None \<and> inst p = None \<and> cntr p = None \<and> mov p = None \<and> retr p = None" for p :: "'a vpc"
    by (cases p) auto
  with assms show "\<not> own pushr s r" "\<not> own inst s u" "\<not> own cntr s r" "\<not> own mov s u" "\<not> own retr s k"
    unfolding owns_def by fastforce+
qed

text \<open>When no thread is pinned, the retired blocks are exactly those before the head.\<close>

lemma quiet_retired:
  assumes s: "vec_inv s" and u: "\<forall>j<vthreads s. unpinned (vpc s j)"
  shows "set (vrl s) = {vbase s..<head_index (vv s) div 2 div 32}"
proof -
  let ?H = "head_index (vv s) div 2"
  note p = inv_parts[OF s] and none = unpinned_none[OF u]
  have full: "k \<in> set (vrl s) \<longleftrightarrow> card (counted s k) = 31" if k: "vbase s \<le> k" "k < vnb s" for k
  proof -
    obtain c where "block_ok s k c" using block_at[OF s k] by blast
    then show ?thesis using none(5)[of k] unfolding block_ok_def by auto
  qed
  have hb: "?H div 32 < vnb s" using p(1) by (simp add: index_ok_def Let_def)
  have "k \<in> set (vrl s)" if k: "vbase s \<le> k" "k < ?H div 32" for k
  proof -
    have "31 * k + 31 \<le> claimed s" using k(2) rank_block_le[of ?H] by linarith
    moreover have "r div 31 = k" if "31 * k \<le> r" "r < 31 * k + 31" for r
      using that by (intro div_nat_eqI) auto
    ultimately have "counted s k = {31 * k..<31 * k + 31}"
      using counted_fin(2)[of s k] none(3) by (auto simp: counted_def)
    then show ?thesis using full[of k] k hb by simp
  qed
  moreover have "vbase s \<le> k \<and> k < ?H div 32" if "k \<in> set (vrl s)" for k
  proof -
    have "vbase s \<le> k" "k < vnb s" using p(4) that by (auto simp: retired_ok_def)
    with full that full_before_head[OF s, of k] show ?thesis by blast
  qed
  ultimately show ?thesis by auto
qed

lemma quiet_reclaim:
  assumes s: "vec_inv s" and u: "\<forall>j<vthreads s. unpinned (vpc s j)"
  obtains w where "reclaim_retired (vv s) = Some w" "recycled ((vv s)\<lparr>retired := None, retired_count := 0\<rparr>) (map (vblk s) (vrl s)) w"
proof -
  note p = inv_parts[OF s]
  let ?ps = "map (vblk s) (vrl s)" and ?v = "(vv s)\<lparr>retired := None, retired_count := 0\<rparr>"
  have rg: "vbase s \<le> k \<and> k < vnb s" if "k \<in> set (vrl s)" for k using p(4) that by (auto simp: retired_ok_def)
  have "chained (vheap ?v) ?ps" unfolding chained_def
  proof (intro allI impI)
    fix j assume j: "j < length ?ps"
    then obtain c where "vheap (vv s) (vblk s (vrl s ! j)) = Some c" "block_ok s (vrl s ! j) c"
      using block_at[OF s, of "vrl s ! j"] rg[of "vrl s ! j"] by auto
    with j p(4) show "\<exists>c. vheap ?v (?ps ! j) = Some c \<and> length (vslots c) = 32 \<and> vnext c = next_ptr ?ps j"
      by (auto simp: retired_ok_def block_ok_def)
  qed
  moreover have "inj_on (vblk s) (set (vrl s))" using p(3) rg by (auto simp: pool_ok_def intro: inj_on_subset)
  then have "distinct ?ps" using p(4) by (simp add: retired_ok_def distinct_map)
  ultimately obtain w where "reclaim_loop ?v (first_ptr ?ps) = Some w" "recycled ?v ?ps w"
    using reclaim_loop_recycles[of ?v ?ps] by blast
  moreover have "retired (vv s) = first_ptr ?ps" using p(4) by (simp add: retired_ok_def)
  ultimately show ?thesis using that by (simp add: reclaim_retired_def)
qed

lemma inv_reclaim:
  assumes s: "vec_inv s" and u: "\<forall>j<vthreads s. unpinned (vpc s j)" and w: "reclaim_retired (vv s) = Some w"
    and t: "t = s\<lparr>vv := w, vbase := head_index (vv s) div 2 div 32, vrl := []\<rparr>"
  shows "vec_inv t"
proof -
  let ?H = "head_index (vv s) div 2"
  note p = inv_parts[OF s] and none = unpinned_none[OF u]
  have rc: "recycled ((vv s)\<lparr>retired := None, retired_count := 0\<rparr>) (map (vblk s) (vrl s)) w"
    using quiet_reclaim[OF s u] w by auto
  then obtain hp fl where "w = (vv s)\<lparr>retired := None, retired_count := 0, vheap := hp, free_list := fl\<rparr>"
    unfolding recycled_def by blast
  then have f: "head_index w = head_index (vv s)" "head_block w = head_block (vv s)" "tail_index w = tail_index (vv s)"
    "tail_block w = tail_block (vv s)" "vfresh w = vfresh (vv s)" "retired w = None"
    by simp_all
  have x: "vthreads t = vthreads s" "vpc t = vpc s" "vblk t = vblk s" "vnb t = vnb s" "vbase t = ?H div 32" "vrl t = []"
    "venq t = venq s" "vgone t = vgone s" "vv t = w" by (simp_all add: t)
  have H: "vbase s \<le> ?H div 32" "?H div 32 < vnb s" using p(1) by (simp_all add: index_ok_def Let_def)
  have r: "ready t = ready s" "counted t = counted s" "slot_ok t = slot_ok s"
    unfolding fun_eq_iff ready_def counted_def slot_ok_def x f by simp_all
  have old: "set (map (vblk s) (vrl s)) = vblk s ` {vbase s..<?H div 32}" using quiet_retired[OF s u] by simp
  have inj: "inj_on (vblk s) {vbase s..<vnb s}" using p(3) by (simp add: pool_ok_def)
  have apart: "vblk s k \<notin> vblk s ` {vbase s..<?H div 32}" if "?H div 32 \<le> k" "k < vnb s" for k
    using inj that H by (fastforce simp: inj_on_def image_iff)
  have keep: "vheap w q = vheap (vv s) q" if "q \<notin> vblk s ` {vbase s..<?H div 32}" for q
    using rc that unfolding recycled_def old by simp
  show ?thesis
  proof (rule inv_intro)
    have "?H mod 32 \<noteq> 31 \<and> tail_index (vv s) div 2 mod 32 \<noteq> 31"
      using p(1) none(2)[of "()"] none(4)[of "()"] unfolding index_ok_def Let_def by argo
    then show "index_ok t" using p(1) none(2)[of "()"] none(4)[of "()"] unfolding index_ok_def x f Let_def by simp
    have "block_ok t k c" if "?H div 32 \<le> k" "block_ok s k c" for k c
      using that none(5)[of k] quiet_retired[OF s u] unfolding block_ok_def r x by auto
    then show "blocks_ok t" using p(2) H keep apart unfolding blocks_ok_def x by (metis le_trans)
    obtain qs where qs: "free_list w = free_list (vv s) @ qs" "distinct qs" "set qs \<subseteq> vblk s ` {vbase s..<?H div 32}"
      "\<forall>q\<in>set qs. \<exists>c. vheap w q = Some c \<and> unused c"
      using rc unfolding recycled_def old by auto
    have fr: "pristine s q" if "q \<in> set (free_list (vv s))" for q using p(3) that by (simp add: pool_ok_def)
    then have nr: "q \<notin> vblk s ` {vbase s..<vnb s}" if "q \<in> set (free_list (vv s))" for q using that by (simp add: pristine_def)
    have sub: "{vbase s..<?H div 32} \<subseteq> {vbase s..<vnb s}" "{?H div 32..<vnb s} \<subseteq> {vbase s..<vnb s}" using H by auto
    have "pristine t q" if "q \<in> set (free_list w)" for q
    proof (cases "q \<in> set qs")
      case True
      then have "q \<notin> vblk s ` {?H div 32..<vnb s}" using qs(3) apart by fastforce
      with True qs(4) show ?thesis by (simp add: pristine_def x)
    next
      case False
      with that qs(1) have q: "q \<in> set (free_list (vv s))" by simp
      then have "q \<notin> vblk s ` {vbase s..<?H div 32}" "q \<notin> vblk s ` {?H div 32..<vnb s}" using nr sub by blast+
      with fr[OF q] keep show ?thesis by (simp add: pristine_def x)
    qed
    moreover have "set (free_list (vv s)) \<inter> set qs = {}" using nr qs(3) sub(1) by blast
    then have "distinct (free_list w)" using qs(1,2) p(3) by (simp add: pool_ok_def)
    moreover have "dom (vheap w) \<subseteq> dom (vheap (vv s))" using rc by (simp add: recycled_def)
    ultimately show "pool_ok t" unfolding pool_ok_def x f using p(3)[unfolded pool_ok_def] inj_on_subset[OF inj sub(2)] by blast
    show "retired_ok t" by (simp add: retired_ok_def x f)
    show "sole_ok t" using p(5) unfolding sole_ok_def x .
    show "gone_ok t" by (rule gone_frame[OF p(6), where es = "[]"]) (simp_all add: r x f)
    show "\<forall>j<vthreads t. tok t (vpc t j)" unfolding x
    proof (intro allI impI)
      fix j assume j: "j < vthreads s"
      with u have "unpinned (vpc s j)" by simp
      then show "tok t (vpc s j)" using tokD[OF s j refl] by (cases "vpc s j") (auto simp: got_def r x f)
    qed
  qed
qed

section \<open>All steps\<close>

lemma inv_push_step:
  assumes s: "vec_inv s" and i: "i < vthreads s" and st: "vec_push_step s i w (vpc s i) = Some t"
  shows "vec_inv t"
proof (cases "vpc s i")
  case (PStart x)
  then show ?thesis using s i st by (auto intro!: inv_vgo simp: alike_def)
next
  case (PBlk x n)
  then show ?thesis using s i st tokD[OF s i PBlk] by (auto intro!: inv_vgo simp: alike_def BLOCK_CAP_def)
next
  case (PCas x n b)
  show ?thesis
  proof (cases "tail_index (vv s) = n \<and> \<not> w")
    case True
    then show ?thesis using st PCas by (intro inv_push_reserve[OF s i PCas _ refl]) (simp_all add: BLOCK_CAP_def)
  next
    case False
    then show ?thesis using s i st PCas by (auto intro!: inv_vgo simp: alike_def)
  qed
next
  case (PAcquire x n b)
  then show ?thesis using st by (auto intro: inv_push_acquire[OF s i PAcquire] split: prod.splits)
next
  case (PNext x n b nx)
  then show ?thesis using st by (auto intro: inv_push_next[OF s i PNext] split: option.splits)
next
  case (PCache x n b nx)
  then have t: "t = (vgo s i (PTailB x n b nx))
      \<lparr>vv := (vv s)\<lparr>cache := block_array_set (cache (vv s)) ((n + 2) div 2 div BLOCK_CAP + 1) (Some nx)\<rparr>\<rparr>"
    using st by simp
  show ?thesis
    by (rule vec_inv_move[OF s i, where q = "PTailB x n b nx"])
      (use tokD[OF s i PCache] in \<open>simp_all add: t PCache alike_def push_own_def in_block_def installing_def\<close>)
next
  case (PTailB x n b nx)
  then have t: "t = (vgo s i (PTailI x n b))\<lparr>vv := (vv s)\<lparr>tail_block := Some nx\<rparr>\<rparr>" using st by simp
  show ?thesis
    by (rule vec_inv_move[OF s i, where q = "PTailI x n b"])
      (use tokD[OF s i PTailB] in \<open>simp_all add: t PTailB alike_def push_own_def in_block_def installing_def\<close>)
next
  case (PTailI x n b)
  then show ?thesis using st by (auto intro: inv_push_tail[OF s i PTailI])
next
  case (PWrite x n b)
  then show ?thesis using st by (auto intro: inv_push_write[OF s i PWrite] simp: Let_def split: option.splits)
next
  case (PPub x n b)
  then show ?thesis using st by (auto intro: inv_push_publish[OF s i PPub] simp: Let_def split: option.splits)
qed (use st in auto)

text \<open>What a pop finds in the block of its rank.\<close>

lemma rank_slot:
  assumes "vec_inv s" "in_block s h b" "deref (vv s) b = Some c"
  shows "slot_ok s (rank (h div 2)) (vslots c ! offset_of h)"
proof -
  obtain d where "deref (vv s) b = Some d" "block_ok s (h div 2 div 32) d" using deref_in_block[OF assms(1,2)] by blast
  with assms(2,3) show ?thesis by (simp add: block_ok_def in_block_def rank_offset)
qed

lemma slot_ok_written:
  assumes "slot_ok s r c" "slot_written c"
  shows "ready s r"
  using assms by (auto simp: slot_ok_def slot_written_def ready_def SLOT_READ_def SLOT_WRITE_def not_le split: if_splits)

lemma uncounted_next:
  assumes s: "vec_inv s" and b: "in_block s h b" "deref (vv s) b = Some c" "vnext c = Some nx"
    and own: "own cntr s (rank (h div 2))"
  shows "moved s h nx"
proof -
  let ?k = "h div 2 div 32"
  obtain d where "deref (vv s) b = Some d" "block_ok s ?k d" using deref_in_block[OF s b(1)] by blast
  with b(2) have c: "block_ok s ?k c" by simp
  have "rank (h div 2) div 31 = ?k" using b(1) by (simp add: in_block_def rank_div)
  then have "vcounters c \<noteq> 31" using block_full[of s ?k "rank (h div 2)"] own c by (auto simp: block_ok_def)
  then have "vcounters c < 31" using counters_le[OF c] by simp
  with c b(3) show ?thesis by (auto simp: block_ok_def moved_def split: if_splits)
qed

lemma inv_pop_step:
  assumes s: "vec_inv s" and i: "i < vthreads s" and st: "vec_pop_step s i w (vpc s i) = Some t"
  shows "vec_inv t"
proof (cases "vpc s i")
  case QStart
  then show ?thesis using s i st by (auto intro!: inv_vgo simp: alike_def)
next
  case (QBlk h)
  then show ?thesis using s i st tokD[OF s i QBlk] by (auto intro!: inv_vgo simp: alike_def BLOCK_CAP_def Let_def)
next
  case (QTail h b)
  show ?thesis
  proof (cases "h div 2 = tail_index (vv s) div 2")
    case True
    then show ?thesis using st QTail by (intro vec_inv_move[OF s i, where q = VIdle]) (auto simp: alike_def vret_def Let_def)
  next
    case False
    have "new_head h m div 2 = Suc (h div 2)" for m by (auto simp: new_head_def)
    then show ?thesis using s i st False QTail tokD[OF s i QTail] by (auto intro!: inv_vgo simp: alike_def Let_def)
  qed
next
  case (QCas h nh b)
  show ?thesis
  proof (cases "head_index (vv s) = h \<and> \<not> w")
    case True
    then show ?thesis using st QCas by (intro inv_pop_reserve[OF s i QCas _ refl]) (simp_all add: BLOCK_CAP_def)
  next
    case False
    then show ?thesis using s i st QCas by (auto intro!: inv_vgo simp: alike_def)
  qed
next
  case (QNext h nh b)
  note tk = tokD[OF s i QNext]
  have "own cntr s (rank (h div 2))" using i QNext by (intro ownsI[of i]) auto
  then have "deref (vv s) b = Some c \<Longrightarrow> vnext c = Some nx \<Longrightarrow> moved s h nx" for c nx
    using uncounted_next[OF s] tk by (auto simp: pop_own_def)
  then show ?thesis using s i st QNext tk
    by (auto intro!: inv_vgo simp: alike_def pop_own_def in_block_def moving_def moved_def split: option.splits)
next
  case (QGet h nh b nx)
  note tk = tokD[OF s i QGet]
  obtain c where "deref (vv s) (Some nx) = Some c" using st QGet by (auto split: option.splits)
  moreover define m ni where mi: "m = (if vnext c = None then 0 else 1 :: nat)" "ni = nh - nh mod 2 + 2 + m"
  ultimately have t: "t = vgo s i (QHeadB h b nx ni)" using st QGet by simp
  have "nh - nh mod 2 = 2 * (nh div 2)" by (simp add: minus_mod_eq_mult_div)
  then have "ni div 2 = Suc (Suc (h div 2))" using tk by (simp add: mi)
  then show ?thesis unfolding t
    by (intro inv_vgo[OF s i]) (use tk in \<open>auto simp: QGet alike_def pop_own_def in_block_def moving_def moved_def\<close>)
next
  case (QHeadB h b nx ni)
  then have t: "t = (vgo s i (QHeadI h b ni))\<lparr>vv := (vv s)\<lparr>head_block := Some nx\<rparr>\<rparr>" using st by simp
  show ?thesis
    by (rule vec_inv_move[OF s i, where q = "QHeadI h b ni"])
      (use tokD[OF s i QHeadB] in \<open>auto simp: t QHeadB alike_def pop_own_def in_block_def moving_def moved_def\<close>)
next
  case (QHeadI h b ni)
  then show ?thesis using st by (auto intro: inv_pop_head[OF s i QHeadI])
next
  case (QWait h b)
  note tk = tokD[OF s i QWait]
  have "ready s (rank (h div 2))" if "deref (vv s) b = Some c" "slot_written (vslots c ! offset_of h)" for c
    using slot_ok_written[OF rank_slot[OF s _ that(1)] that(2)] tk by (simp add: pop_own_def)
  moreover have "ready (vgo s i (QRead h b)) = ready s" using i QWait by (simp add: fun_eq_iff ready_def owns_keep)
  ultimately show ?thesis using s i st QWait tk
    by (auto intro!: inv_vgo simp: alike_def pop_own_def in_block_def split: option.splits if_splits)
next
  case (QRead h b)
  note tk = tokD[OF s i QRead]
  have "own popr s (rank (h div 2))" using i QRead by (intro ownsI[of i]) auto
  then have "vvalue (vslots c ! offset_of h) = Some (venq s ! rank (h div 2))" if "deref (vv s) b = Some c" for c
    using rank_slot[OF s _ that] tk by (auto simp: slot_ok_def pop_own_def ready_def)
  moreover have "ready (vgo s i (QMark h b v)) = ready s" for v using i QRead by (simp add: fun_eq_iff ready_def owns_keep)
  ultimately show ?thesis using s i st QRead tk
    by (auto intro!: inv_vgo simp: alike_def pop_own_def in_block_def got_def split: option.splits)
next
  case (QMark h b v)
  then show ?thesis using st by (auto intro: inv_pop_mark[OF s i QMark] simp: Let_def split: option.splits)
next
  case (QCount h b v)
  then obtain c where c: "deref (vv s) b = Some c" using st by (auto split: option.splits)
  let ?v = "set_block (vv s) b (c\<lparr>vcounters := vcounters c + 1\<rparr>)"
  show ?thesis
  proof (cases "vcounters c + 1 = 31")
    case True
    then show ?thesis using st c QCount by (intro inv_pop_count[OF s i QCount c refl]) (auto simp: Let_def BLOCK_CAP_def vgo_def)
  next
    case False
    let ?u = "(vgo s i (QRetCnt h v))\<lparr>vv := ?v\<rparr>"
    have "vec_inv ?u" using False by (intro inv_pop_count[OF s i QCount c refl]) simp
    then have "vec_inv (vpopped ?u i h v)" by (rule inv_popped) (use i in auto)
    moreover have "vpopped ?u i h v = t" using st c QCount False by (auto simp: Let_def BLOCK_CAP_def vgo_def vpopped_def vret_def)
    ultimately show ?thesis by simp
  qed
qed (use st in auto)

lemma inv_retire_step:
  assumes s: "vec_inv s" and i: "i < vthreads s" and st: "vec_retire_step s i w (vpc s i) = Some t"
  shows "vec_inv t"
proof -
  have keep: "ready (vgo s i q) = ready s" if "pushr q = pushr (vpc s i)" for q
    using that i by (simp add: fun_eq_iff ready_def owns_keep)
  show ?thesis
  proof (cases "vpc s i")
    case (QRetLoad h b v)
    then show ?thesis using s i st keep tokD[OF s i QRetLoad]
      by (auto intro!: inv_vgo simp: alike_def pop_own_def in_block_def got_def)
  next
    case (QRetNext h b v nx)
    then show ?thesis using st by (auto intro: inv_retire_next[OF s i QRetNext] split: option.splits)
  next
    case (QRetCas h b v nx)
    show ?thesis
    proof (cases "retired (vv s) = nx \<and> \<not> w")
      case True
      then show ?thesis using st QRetCas by (intro inv_retire_cas[OF s i QRetCas]) (simp_all add: BLOCK_CAP_def)
    next
      case False
      then show ?thesis using s i st QRetCas keep tokD[OF s i QRetCas]
        by (auto intro!: inv_vgo simp: alike_def pop_own_def in_block_def got_def)
    qed
  next
    case (QRetCnt h v)
    let ?u = "\<lambda>q. vgo (s\<lparr>vv := (vv s)\<lparr>retired_count := retired_count (vv s) + 1\<rparr>\<rparr>) i q"
    have u: "vec_inv (?u q)" if "q \<in> {QRetCnt h v, QTry h v}" for q
      by (rule vec_inv_move[OF s i, where q = q])
        (use that i QRetCnt tokD[OF s i QRetCnt] in \<open>auto simp: alike_def got_def ready_def owns_keep\<close>)
    have "vec_inv (vpopped (?u (QRetCnt h v)) i h v)" by (rule inv_popped[OF u]) (use i in auto)
    with u[of "QTry h v"] show ?thesis using st QRetCnt
      by (auto simp: Let_def vgo_def vpopped_def vret_def split: if_splits)
  next
    case (QTry h v)
    then show ?thesis using s i st keep tokD[OF s i QTry] inv_popped[OF s i, of h v]
      by (auto intro!: inv_vgo simp: alike_def got_def Let_def split: if_splits)
  next
    case (QExcl h v m)
    note pp = inv_popped[OF s i, of h v m, unfolded QExcl, simplified]
    show ?thesis
    proof (cases "list_all (\<lambda>j. unpinned (vpc s j)) [0..<vthreads s] \<and> (m \<or> \<not> w)")
      case True
      then obtain u where "reclaim_retired (vv s) = Some u"
        "t = (vpopped s i h v)\<lparr>vv := u, vbase := head_index (vv s) div 2 div BLOCK_CAP, vrl := []\<rparr>"
        using st QExcl by (auto split: option.splits)
      with True show ?thesis
        by (intro inv_reclaim[OF pp]) (auto simp: list_all_iff vpopped_def vret_def BLOCK_CAP_def)
    next
      case False
      then have "t = (if m then s else vpopped s i h v)" using st QExcl by (auto split: if_splits)
      then show ?thesis using s pp by simp
    qed
  qed (use st in auto)
qed

lemma vec_inv_step:
  assumes s: "vec_inv s" and st: "vec_step a s = Some t"
  shows "vec_inv t"
proof (cases a)
  case (VPush i x)
  then show ?thesis using s st by (auto intro!: inv_vgo simp: alike_def split: if_splits)
next
  case (VPop i)
  then show ?thesis using s st by (auto intro!: inv_vgo simp: alike_def split: if_splits)
next
  case (VGo i w)
  then have "i < vthreads s" "vec_push_step s i w (vpc s i) = Some t \<or> vec_pop_step s i w (vpc s i) = Some t \<or> vec_retire_step s i w (vpc s i) = Some t"
    using st by (auto split: if_splits)
  then show ?thesis using s inv_push_step inv_pop_step inv_retire_step by blast
qed

lemma vec_inv_init: "vec_inv (vsys_new n)"
proof -
  have o: "\<not> own f (vsys_new n) x" if "f VIdle = None" for f :: "'a vpc \<Rightarrow> 'x option" and x
    using that by (simp add: owns_def vsys_new_def)
  have v: "vec_new = (\<lparr>vheap = [0 \<mapsto> block_new], vfresh = 1, head_index = 0, head_block = Some 0, tail_index = 0, tail_block = Some 0,
      cache = block_array_set block_array_new 0 (Some 0), free_list = [], retired = None, retired_count = 0\<rparr> :: 'a vec)"
    by (simp add: vec_new_def new_block_def)
  have z: "rank 0 = 0" by (simp add: rank_def')
  have c: "counted (vsys_new n :: 'a vsys) k = {}" for k by (simp add: counted_def vsys_new_def v z)
  have u: "unused (block_new :: 'a vblock)" by (rule unused_new)
  show ?thesis
  proof (rule inv_intro)
    show "index_ok (vsys_new n :: 'a vsys)" using o[of inst] o[of mov] unfolding index_ok_def Let_def by (simp add: vsys_new_def v z)
    have "slot_ok (vsys_new n :: 'a vsys) j (vslots block_new ! j)" if "j < 31" for j
      using that u o[of filled] unfolding slot_ok_def by (simp add: vsys_new_def unused_def)
    then have "block_ok (vsys_new n :: 'a vsys) 0 block_new"
      using u o[of linkd] o[of retr] unfolding block_ok_def c by (simp add: vsys_new_def unused_def)
    then show "blocks_ok (vsys_new n :: 'a vsys)" unfolding blocks_ok_def by (simp add: vsys_new_def v)
    show "sole_ok (vsys_new n :: 'a vsys)" by (simp add: sole_ok_def sole_def vsys_new_def)
    show "gone_ok (vsys_new n :: 'a vsys)" by (simp add: gone_ok_def vsys_new_def v z)
    show "retired_ok (vsys_new n :: 'a vsys)" by (simp add: retired_ok_def vsys_new_def v)
  qed (simp_all add: pool_ok_def vsys_new_def v)
qed

interpretation vec_machine: machine vec_step "vsys_new n" vec_inv for n
  by unfold_locales (rule vec_inv_init, rule vec_inv_step)

end
