(* ===== verification/Vec_Conc_Spec.thy ===== *)
theory Vec_Conc_Spec
  imports Vec_Conc_Safety
begin

text \<open>
  What concurrent \<open>push\<close> and \<open>pop\<close> of \<open>AtomicVec\<close> promise, and what they do not: the values come out in
  the order of their reservations, each once, no access is dangling, and no operation works on a
  block that was recycled; but a pop that meets a push in
  the middle of installing a block may reserve a slot nobody pushed to (theory \<open>Vec_Conc_Stall\<close>).
\<close>

section \<open>Order and memory\<close>

text \<open>C8: In every interleaving of pushes, pops and reclamations, each completed pop of rank \<open>r\<close> returned
  the \<open>r\<close>-th pushed value, no value is returned twice, and when no operation is running the
  returned values are exactly a prefix of the pushed ones.\<close>

theorem vec_conc_fifo:
  assumes "reachable vec_step (vsys_new n) s"
  shows "distinct (map fst (vgone s)) \<and> (\<forall>(r, v)\<in>set (vgone s). r < length (venq s) \<and> v = Some (venq s ! r)) \<and>
    ((\<forall>i<vthreads s. vpc s i = VIdle) \<longrightarrow> fst ` set (vgone s) = {..<length (vgone s)})"
proof -
  have s: "vec_inv s" using assms by (rule vec_machine.always)
  then have g: "distinct (map fst (vgone s))" "\<forall>(r, v)\<in>set (vgone s). ready s r \<and> v = Some (venq s ! r)"
    "\<And>r. r \<in> fst ` set (vgone s) \<longleftrightarrow> r < claimed s \<and> \<not> own heldr s r"
    using inv_parts(6) unfolding gone_ok_def by blast+
  have "fst ` set (vgone s) = {..<length (vgone s)}" if "\<forall>i<vthreads s. vpc s i = VIdle"
  proof -
    have "\<not> own heldr s r" for r using that by (simp add: owns_def)
    with g(3) have e: "fst ` set (vgone s) = {..<claimed s}" by blast
    then have "card {..<claimed s} = length (vgone s)" using distinct_card[OF g(1)] by simp
    with e show ?thesis by simp
  qed
  with g(1,2) show ?thesis by (auto simp: ready_def)
qed

theorem vec_conc_fifo_witness:
  "\<exists>s :: nat vsys. reachable vec_step (vsys_new 1) s \<and> vgone s = [(0, Some 5)] \<and> venq s ! 0 = 5 \<and>
     fst ` set (vgone s) = {..<1}"
proof -
  have "run_to vec_step (VPush 0 5 # replicate 5 (VGo 0 False) @ VPop 0 # replicate 8 (VGo 0 False)) (vsys_new 1 :: nat vsys)
      (\<lambda>s. vgone s = [(0, Some 5)] \<and> vpc s 0 = VIdle \<and> vthreads s = 1)"
    by code_simp
  from run_toD[OF this] obtain s :: "nat vsys"
    where s: "reachable vec_step (vsys_new 1) s" "vgone s = [(0, Some 5)]" "vpc s 0 = VIdle" "vthreads s = 1" by blast
  from vec_conc_fifo[OF s(1)] s show ?thesis by (intro exI[of _ s]) auto
qed

text \<open>The blocks a running operation works on: the number a block has in the order of installation, by the
  index the operation reserved, and the pointer the operation holds to it.\<close>

fun uses :: "'a vpc \<Rightarrow> (nat \<times> addr option) list" where
  "uses (PAcquire x t b) = [(t div 2 div BLOCK_CAP, b)]"
| "uses (PNext x t b nx) = [(t div 2 div BLOCK_CAP, b)]"
| "uses (PCache x t b nx) = [(t div 2 div BLOCK_CAP, b), (t div 2 div BLOCK_CAP + 1, Some nx)]"
| "uses (PTailB x t b nx) = [(t div 2 div BLOCK_CAP, b), (t div 2 div BLOCK_CAP + 1, Some nx)]"
| "uses (PTailI x t b) = [(t div 2 div BLOCK_CAP, b)]"
| "uses (PWrite x t b) = [(t div 2 div BLOCK_CAP, b)]"
| "uses (PPub x t b) = [(t div 2 div BLOCK_CAP, b)]"
| "uses (QNext h nh b) = [(h div 2 div BLOCK_CAP, b)]"
| "uses (QGet h nh b nx) = [(h div 2 div BLOCK_CAP, b), (h div 2 div BLOCK_CAP + 1, Some nx)]"
| "uses (QHeadB h b nx ni) = [(h div 2 div BLOCK_CAP, b), (h div 2 div BLOCK_CAP + 1, Some nx)]"
| "uses (QHeadI h b ni) = [(h div 2 div BLOCK_CAP, b)]"
| "uses (QWait h b) = [(h div 2 div BLOCK_CAP, b)]"
| "uses (QRead h b) = [(h div 2 div BLOCK_CAP, b)]"
| "uses (QMark h b v) = [(h div 2 div BLOCK_CAP, b)]"
| "uses (QCount h b v) = [(h div 2 div BLOCK_CAP, b)]"
| "uses (QRetLoad h b v) = [(h div 2 div BLOCK_CAP, b)]"
| "uses (QRetNext h b v nx) = [(h div 2 div BLOCK_CAP, b)]"
| "uses (QRetCas h b v nx) = [(h div 2 div BLOCK_CAP, b)]"
| "uses _ = []"

lemma uses_installed:
  assumes s: "vec_inv s" and i: "i < vthreads s" and u: "(k, b) \<in> set (uses (vpc s i))"
  shows "vbase s \<le> k \<and> k < vnb s \<and> b = Some (vblk s k)"
  using tokD[OF s i refl] u
  by (cases "vpc s i") (auto simp: push_own_def pop_own_def in_block_def installing_def moved_def BLOCK_CAP_def)

text \<open>An operation needs a block for a rank it has not finished with, or retires it, or the head has not
  passed the block; so the block has not been read to its end.\<close>

lemma uses_reason:
  assumes s: "vec_inv s" and i: "i < vthreads s" and u: "(k, b) \<in> set (uses (vpc s i))"
  shows "(\<exists>r. (pushr (vpc s i) = Some r \<or> cntr (vpc s i) = Some r) \<and> r div 31 = k) \<or> retr (vpc s i) = Some k \<or>
    head_index (vv s) div 2 div 32 \<le> k"
proof -
  have "head_index (vv s) div 2 div 32 < vnb s" using inv_parts(1)[OF s] by (simp add: index_ok_def Let_def)
  with tokD[OF s i refl] u show ?thesis
    by (cases "vpc s i")
      (auto simp: push_own_def pop_own_def in_block_def installing_def moving_def BLOCK_CAP_def rank_div offset_def' div_mod_Suc32)
qed

lemma uses_not_retired:
  assumes s: "vec_inv s" and i: "i < vthreads s" and u: "(k, b) \<in> set (uses (vpc s i))"
  shows "k \<notin> set (vrl s)"
proof
  assume k: "k \<in> set (vrl s)"
  then have R: "\<not> own retr s k" using s by (simp add: vec_inv_def retired_ok_def)
  have range: "vbase s \<le> k" "k < vnb s" using uses_installed[OF s i u] by simp_all
  obtain c where "block_ok s k c" using block_at[OF s range] by blast
  then have full: "card (counted s k) = 31" using k by (auto simp: block_ok_def)
  have bf: "\<not> own cntr s r \<and> \<not> own pushr s r" if "r div 31 = k" for r
    using block_full[OF full that] pushr_unread[OF s, of r] own_sub[of popr s r cntr r] popr_cntr by blast
  have "\<not> head_index (vv s) div 2 div 32 \<le> k" using full_before_head[OF s full] by simp
  moreover have "retr (vpc s i) \<noteq> Some k" using R ownsI[OF i, of retr "vpc s" k] by blast
  moreover have "pushr (vpc s i) \<noteq> Some r \<and> cntr (vpc s i) \<noteq> Some r" if "r div 31 = k" for r
    using bf[OF that] ownsI[OF i, of pushr "vpc s" r] ownsI[OF i, of cntr "vpc s" r] by blast
  ultimately show False using uses_reason[OF s i u] by metis
qed

text \<open>Every running operation has a next step: no null and no freed pointer is followed.\<close>

lemma vec_conc_progress:
  assumes s: "vec_inv s" and i: "i < vthreads s" "vpc s i \<noteq> VIdle"
  shows "\<exists>t. vec_step (VGo i w) s = Some t"
proof -
  note tk = tokD[OF s i(1) refl]
  have b: "in_block s m b \<Longrightarrow> deref (vv s) b \<noteq> None" for m b using deref_in_block[OF s] by (metis option.distinct(1))
  have po: "push_own s x m b \<Longrightarrow> deref (vv s) b \<noteq> None" "pop_own s m b \<Longrightarrow> deref (vv s) b \<noteq> None" for x m b
    using b by (auto simp: push_own_def pop_own_def)
  have nx: "deref (vv s) (Some nx) \<noteq> None" if "pop_own s h b" "moved s h nx" for h b nx
    using that block_at[OF s, of "Suc (h div 2 div 32)"] by (auto simp: pop_own_def in_block_def moved_def deref_def)
  have rc: "reclaim_retired (vv s) \<noteq> None" if "list_all (\<lambda>j. unpinned (vpc s j)) [0..<vthreads s]"
    using that quiet_reclaim[OF s] by (auto simp: list_all_iff)
  show ?thesis
  proof (cases "vpc s i")
    case (QGet h nh b nx)
    with i tk nx[of h b nx] show ?thesis by (auto split: option.splits)
  next
    case (QExcl h v m)
    with i rc show ?thesis by (auto split: option.splits)
  qed (use i tk in \<open>auto dest: po simp: Let_def split: option.splits prod.splits\<close>)
qed

text \<open>C9: No thread ever works on a block that was recycled or freed. In every reachable state each running
  push or pop has a next step, whatever the others do, so no null and no freed pointer is
  followed; and every block it works on is the one that was installed for the index it reserved: allocated, not
  in the pool of blocks to be reused, not on the list of retired blocks, and at no other place of the chain.\<close>

theorem vec_conc_memory_safe:
  assumes "reachable vec_step (vsys_new n) s" "i < vthreads s" "vpc s i \<noteq> VIdle"
  shows "(\<exists>t. vec_step (VGo i w) s = Some t) \<and>
    (\<forall>(k, b) \<in> set (uses (vpc s i)). \<exists>a. b = Some a \<and> a \<in> dom (vheap (vv s)) \<and> a \<notin> set (free_list (vv s)) \<and>
       a \<notin> vblk s ` set (vrl s) \<and> (\<forall>j. vbase s \<le> j \<and> j < vnb s \<longrightarrow> (vblk s j = a \<longleftrightarrow> j = k)))"
proof -
  have s: "vec_inv s" using assms(1) by (rule vec_machine.always)
  have "\<exists>a. b = Some a \<and> a \<in> dom (vheap (vv s)) \<and> a \<notin> set (free_list (vv s)) \<and>
       a \<notin> vblk s ` set (vrl s) \<and> (\<forall>j. vbase s \<le> j \<and> j < vnb s \<longrightarrow> (vblk s j = a \<longleftrightarrow> j = k))" if u: "(k, b) \<in> set (uses (vpc s i))" for k b
  proof -
    have k: "vbase s \<le> k" "k < vnb s" "b = Some (vblk s k)" using uses_installed[OF s assms(2) u] by simp_all
    obtain c where "vheap (vv s) (vblk s k) = Some c" using block_at[OF s k(1,2)] by blast
    moreover have "vblk s k \<notin> set (free_list (vv s))"
      using s k unfolding vec_inv_def pool_ok_def pristine_def by (meson atLeastLessThan_iff imageI)
    moreover have inj: "vblk s j = vblk s k \<longleftrightarrow> j = k" if "vbase s \<le> j" "j < vnb s" for j by (rule blk_inj[OF s that k(1,2)])
    moreover have "vblk s k \<notin> vblk s ` set (vrl s)"
    proof
      assume "vblk s k \<in> vblk s ` set (vrl s)"
      then obtain j where j: "j \<in> set (vrl s)" "vblk s j = vblk s k" by auto
      then have "vbase s \<le> j" "j < vnb s" using s by (auto simp: vec_inv_def retired_ok_def)
      with inj j uses_not_retired[OF s assms(2) u] show False by blast
    qed
    ultimately show ?thesis using k(3) by blast
  qed
  with vec_conc_progress[OF s assms(2,3)] show ?thesis by blast
qed

theorem vec_conc_memory_safe_witness:
  "\<exists>s t :: nat vsys. reachable vec_step (vsys_new 2) s \<and> vpc s 0 = PPub 5 0 (Some 0) \<and> vec_step (VGo 0 False) s = Some t \<and>
     0 \<in> dom (vheap (vv s)) \<and> 0 \<notin> set (free_list (vv s)) \<and> 0 \<notin> vblk s ` set (vrl s)"
proof -
  have "run_to vec_step (VPush 0 5 # replicate 4 (VGo 0 False)) (vsys_new 2 :: nat vsys)
      (\<lambda>s. vpc s 0 = PPub 5 0 (Some 0) \<and> vthreads s = 2)"
    by code_simp
  from run_toD[OF this] obtain s :: "nat vsys"
    where s: "reachable vec_step (vsys_new 2) s" "vpc s 0 = PPub 5 0 (Some 0)" "vthreads s = 2" by blast
  from vec_conc_memory_safe[OF s(1), of 0 False] s show ?thesis by auto
qed

text \<open>A pop answers that the vector is empty only at a moment when every value pushed so far has been
  claimed by a pop.\<close>

theorem vec_conc_empty_answer:
  assumes "reachable vec_step (vsys_new n) s" "vec_step (VGo i w) s = Some t" "vpc s i \<noteq> VIdle"
    "vpc t i = VIdle" "vans t i = Some VEmpty"
  shows "length (venq s) \<le> rank (head_index (vv s) div 2)"
proof -
  have s: "vec_inv s" using assms(1) by (rule vec_machine.always)
  have i: "i < vthreads s" using assms(2) by (auto split: if_splits)
  obtain h b where q: "vpc s i = QTail h b" "h div 2 = tail_index (vv s) div 2"
    using assms(2-5) i
    by (cases "vpc s i") (auto simp: vret_def vpopped_def Let_def split: if_splits option.splits prod.splits)
  then have "tail_index (vv s) div 2 \<le> head_index (vv s) div 2"
    using tokD[OF s i q(1)] div_le_mono[of h "head_index (vv s)" 2] by simp
  moreover have "length (venq s) = rank (tail_index (vv s) div 2)" using inv_parts(1)[OF s] by (simp add: index_ok_def Let_def)
  ultimately show ?thesis using rank_mono by simp
qed

theorem vec_conc_empty_answer_witness:
  "\<exists>s t :: nat vsys. reachable vec_step (vsys_new 1) s \<and> vec_step (VGo 0 False) s = Some t \<and> vans t 0 = Some VEmpty \<and>
     length (venq s) \<le> rank (head_index (vv s) div 2)"
proof -
  have "run_to vec_step [VPop 0, VGo 0 False, VGo 0 False] (vsys_new 1 :: nat vsys)
      (\<lambda>s. vpc s 0 = QTail 0 (Some 0) \<and> vthreads s = 1 \<and>
         (case vec_step (VGo 0 False) s of None \<Rightarrow> False | Some t \<Rightarrow> vpc t 0 = VIdle \<and> vans t 0 = Some VEmpty))"
    by code_simp
  from run_toD[OF this] obtain s t :: "nat vsys"
    where s: "reachable vec_step (vsys_new 1) s" "vpc s 0 = QTail 0 (Some 0)" "vec_step (VGo 0 False) s = Some t"
      "vpc t 0 = VIdle" "vans t 0 = Some VEmpty" by (auto split: option.splits)
  have "length (venq s) \<le> rank (head_index (vv s) div 2)" by (rule vec_conc_empty_answer[OF s(1,3) _ s(4,5)]) (simp add: s(2))
  with s(1,3,5) show ?thesis by blast
qed

end
