(* ===== verification/Vec_Conc_Stall.thy ===== *)
theory Vec_Conc_Stall
  imports Vec_Conc_Safety
begin

text \<open>
  The order of the stores with which \<open>push_internal\<close> installs a block. The link of the old block is
  stored before the tail index moves to the new one. A pop that takes the last slot of the old block in
  between moves the head into the new block, past the tail; the next pop sees two different
  indices in two different blocks, takes that for a tail further on, sets \<open>HAS_NEXT\<close> and
  reserves a slot to which nobody has pushed.
\<close>

section \<open>A pop that waits for a push that has not started\<close>

fun is_push :: "'a vact \<Rightarrow> bool" where
  "is_push (VPush i x) = True"
| "is_push _ = False"

fun waits :: "'a vpc \<Rightarrow> bool" where
  "waits (QWait h b) = True"
| "waits _ = False"

text \<open>Thread \<open>i\<close> waits for a slot in every continuation in which no new push is called.\<close>

definition waits_for_push :: "'a vsys \<Rightarrow> tid \<Rightarrow> bool" where
  "waits_for_push s i \<longleftrightarrow>
     (\<forall>as t. list_all (\<lambda>a. \<not> is_push a) as \<longrightarrow> run vec_step as s = Some t \<longrightarrow> waits (vpc t i))"

lemma step_frame:
  assumes "vec_step (VGo j w) s = Some t" "i \<noteq> j"
  shows "vpc t i = vpc s i"
  using assms
  by (cases "vpc s j") (auto simp: vret_def vpopped_def Let_def split: if_splits option.splits prod.splits)

lemma step_threads: "vec_step a s = Some t \<Longrightarrow> vthreads t = vthreads s"
proof (cases a)
  case (VGo i w)
  assume "vec_step a s = Some t"
  with VGo show ?thesis
    by (cases "vpc s i") (auto simp: vret_def vpopped_def Let_def split: if_splits option.splits prod.splits)
qed (auto split: if_splits)

lemma step_no_push:
  assumes "vec_step (VGo j w) s = Some t" "\<not> pushing (vpc s j)"
  shows "venq t = venq s" "\<not> pushing (vpc t j)"
  using assms
  by (cases "vpc s j"; auto simp: vret_def vpopped_def Let_def split: if_splits option.splits prod.splits)+

definition unpushed_wait :: "tid \<Rightarrow> nat \<Rightarrow> addr option \<Rightarrow> 'a vsys \<Rightarrow> bool" where
  "unpushed_wait i h b s \<longleftrightarrow> vec_inv s \<and> (\<forall>j<vthreads s. \<not> pushing (vpc s j)) \<and> i < vthreads s \<and> vpc s i = QWait h b \<and>
     length (venq s) \<le> rank (h div 2)"

lemma unpushed_wait_step:
  assumes s: "unpushed_wait i h b s" and st: "vec_step a s = Some t" and a: "\<not> is_push a"
  shows "unpushed_wait i h b t"
proof -
  note u = s[unfolded unpushed_wait_def]
  have inv: "vec_inv t" using u vec_inv_step st by blast
  show ?thesis
  proof (cases a)
    case (VPop j)
    then show ?thesis using u st inv by (auto simp: unpushed_wait_def split: if_splits)
  next
    case (VGo j w)
    have "j < vthreads s" using st VGo by (auto split: if_splits)
    then have np: "venq t = venq s" "\<not> pushing (vpc t j)" using step_no_push[of j w s t] u st VGo by auto
    have "vpc t k = vpc s k" if "k \<noteq> j" for k using step_frame[of j w s t k] that st VGo by simp
    then have "\<not> pushing (vpc t k)" if "k < vthreads s" for k using np(2) u that by (cases "k = j") auto
    moreover have "vpc t i = QWait h b"
    proof (cases "j = i")
      case True
      obtain c where c: "deref (vv s) b = Some c" using u st VGo True by (auto split: option.splits)
      have "pop_own s h b" using tokD[of s i "QWait h b"] u by simp
      then have "\<not> slot_written (vslots c ! offset_of h)"
        using slot_ok_written[OF rank_slot[of s h b c]] c u by (fastforce simp: pop_own_def ready_def)
      then show ?thesis using u st VGo True c by (auto split: if_splits)
    next
      case False
      then show ?thesis using \<open>\<And>k. k \<noteq> j \<Longrightarrow> vpc t k = vpc s k\<close>[of i] u by simp
    qed
    ultimately show ?thesis using u inv np(1) step_threads[OF st] by (simp add: unpushed_wait_def)
  qed (use a in simp)
qed

lemma unpushed_wait_forever: "unpushed_wait i h b s \<Longrightarrow> waits_for_push s i"
proof -
  have "unpushed_wait i h b s \<Longrightarrow> list_all (\<lambda>a. \<not> is_push a) as \<Longrightarrow> run vec_step as s = Some t \<Longrightarrow> unpushed_wait i h b t" for as t
    by (induction as arbitrary: s) (auto split: option.splits dest: unpushed_wait_step)
  then show "unpushed_wait i h b s \<Longrightarrow> waits_for_push s i"
    unfolding waits_for_push_def by (fastforce simp: unpushed_wait_def)
qed

section \<open>The schedule\<close>

text \<open>After \<open>k\<close> pushes of \<open>0\<close>, each followed by a pop.\<close>

definition drained_block :: "nat \<Rightarrow> nat vblock" where
  "drained_block k =
     \<lparr>vnext = None, vcounters = k,
      vslots = replicate k \<lparr>vstate = SLOT_READ, vvalue = Some 0\<rparr> @ replicate (32 - k) \<lparr>vstate = 0, vvalue = None\<rparr>\<rparr>"

definition drained :: "nat \<Rightarrow> (tid \<Rightarrow> nat vanswer option) \<Rightarrow> nat vsys" where
  "drained k a =
     \<lparr>vv = \<lparr>vheap = [0 \<mapsto> drained_block k], vfresh = 1, head_index = 2 * k, head_block = Some 0, tail_index = 2 * k,
            tail_block = Some 0, cache = block_array_set block_array_new 0 (Some 0), free_list = [], retired = None,
            retired_count = 0\<rparr>,
      vthreads = 3, vpc = (\<lambda>_. VIdle), vans = a, vblk = (\<lambda>_. 0), vnb = 1, vbase = 0, vrl = [], venq = replicate k 0,
      vgone = map (\<lambda>r. (r, Some 0)) [0..<k]\<rparr>"

definition push_alone :: "nat vact list" where
  "push_alone = VPush 0 0 # replicate 5 (VGo 0 False)"

definition pop_alone :: "nat vact list" where
  "pop_alone = VPop 0 # replicate 8 (VGo 0 False)"

lemma drained_slots:
  assumes "k < 32"
  shows "(replicate k x @ replicate (32 - k) y)[k := x] = replicate (Suc k) x @ replicate (32 - Suc k) y"
    "(replicate k x @ replicate (32 - k) y)[k := z] = replicate k x @ z # replicate (32 - Suc k) y"
    "(replicate k x @ replicate (32 - k) y) ! k = y"
proof -
  obtain m where "32 - k = Suc m" using assms by (metis Suc_diff_Suc)
  moreover then have "m = 32 - Suc k" by simp
  ultimately show "(replicate k x @ replicate (32 - k) y)[k := x] = replicate (Suc k) x @ replicate (32 - Suc k) y"
    "(replicate k x @ replicate (32 - k) y)[k := z] = replicate k x @ z # replicate (32 - Suc k) y"
    "(replicate k x @ replicate (32 - k) y) ! k = y"
    by (simp_all add: list_update_append nth_append replicate_app_Cons_same)
qed

text \<open>With one value in the block.\<close>

definition loaded :: "nat \<Rightarrow> (tid \<Rightarrow> nat vanswer option) \<Rightarrow> nat vsys" where
  "loaded k a =
     (drained k a)\<lparr>vv := (vv (drained k a))
         \<lparr>vheap := [0 \<mapsto> (drained_block k)\<lparr>vslots := (vslots (drained_block k))[k := \<lparr>vstate = SLOT_WRITE, vvalue = Some 0\<rparr>]\<rparr>],
          tail_index := 2 * k + 2\<rparr>,
       venq := replicate (Suc k) 0\<rparr>"

lemma replicate_unroll: "replicate 5 x = [x, x, x, x, x]" "replicate 8 x = [x, x, x, x, x, x, x, x]"
  by (simp_all add: numeral_eq_Suc)

lemma push_alone_drained:
  assumes "k < 30"
  shows "run vec_step push_alone (drained k a) = Some (loaded k (a(0 := Some VPushed)))"
  using assms
  by (simp add: push_alone_def replicate_unroll drained_def loaded_def vgo_def vret_def offset_of_def BLOCK_CAP_def
      deref_def set_block_def drained_slots drained_block_def fun_upd_idem replicate_append_same list_update_append nth_append)

lemma pop_alone_loaded:
  assumes "k < 30"
  shows "run vec_step pop_alone (loaded k a) = Some (drained (Suc k) (a(0 := Some (VPopped (Some 0)))))"
proof -
  have k: "k < 32" using assms by simp
  have slots: "(vslots (drained_block k))[k := \<lparr>vstate = SLOT_READ, vvalue = Some 0\<rparr>] = vslots (drained_block (Suc k))"
    using drained_slots(1)[OF k] by (simp add: drained_block_def)
  have len: "length (vslots (drained_block k)) = 32" using k by (simp add: drained_block_def)
  have w: "slot_written \<lparr>vstate = SLOT_WRITE, vvalue = x\<rparr>" for x :: "nat option" by (simp add: slot_written_def SLOT_WRITE_def)
  have b: "drained_block k\<lparr>vslots := vslots (drained_block (Suc k)), vcounters := Suc k\<rparr> = drained_block (Suc k)"
    "vcounters (drained_block k) = k" by (simp_all add: drained_block_def)
  show ?thesis
    using assms slots len b w
    by (simp add: pop_alone_def replicate_unroll drained_def loaded_def vgo_def vret_def vpopped_def offset_of_def BLOCK_CAP_def
        deref_def set_block_def new_head_def fun_upd_idem rank_def Let_def w)
qed

lemma drained_reachable: "k \<le> 30 \<Longrightarrow> \<exists>a. reachable vec_step (vsys_new 3) (drained k a)"
proof (induction k)
  case 0
  have "vsys_new 3 = drained 0 (\<lambda>_. None)"
    by (simp add: vsys_new_def drained_def drained_block_def vec_new_def new_block_def block_new_def BLOCK_CAP_def)
  then show ?case using reachable_refl by metis
next
  case (Suc k)
  then obtain a where "reachable vec_step (vsys_new 3) (drained k a)" by auto
  then obtain as where "run vec_step as (vsys_new 3) = Some (drained k a)" by (auto simp: reachable_def)
  then have "run vec_step (as @ push_alone @ pop_alone) (vsys_new 3) =
      Some (drained (Suc k) (a(0 := Some VPushed, 0 := Some (VPopped (Some 0)))))"
    using Suc.prems push_alone_drained[of k a] pop_alone_loaded[of k] by (simp add: run_append)
  then show ?case unfolding reachable_def by blast
qed

text \<open>Thread \<open>0\<close> pushes into the last slot and links the next block; threads \<open>1\<close> and \<open>2\<close> pop; thread \<open>0\<close>
  finishes its push and thread \<open>1\<close> its pop; thread \<open>1\<close> pops again.\<close>

definition overtaking :: "nat vact list" where
  "overtaking =
     VPush 0 0 # replicate 5 (VGo 0 False) @ VPop 1 # replicate 8 (VGo 1 False) @ VPop 2 # replicate 4 (VGo 2 False) @
     replicate 5 (VGo 0 False) @ replicate 8 (VGo 1 False) @ VPop 1 # replicate 3 (VGo 1 False)"

lemma overtaking_run:
  "run_to vec_step overtaking (drained 30 a)
     (\<lambda>s. vthreads s = 3 \<and> vpc s 0 = VIdle \<and> vpc s 1 = QWait 67 (Some 1) \<and> vpc s 2 = QWait 64 (Some 1) \<and>
        length (venq s) = 31 \<and> length (vgone s) = 31)"
  by code_simp

text \<open>C34: With three threads there is a schedule after which every pushed value has been popped and no push is
  running, so the vector is empty, and yet two pops are inside \<open>pop\<close> and wait for a slot that no
  push has reserved: neither returns in any continuation in which nobody pushes. The second one was
  called when the vector had been empty for a while.\<close>

theorem vec_pop_overtakes:
  "\<exists>s :: nat vsys. reachable vec_step (vsys_new 3) s \<and> vpc s 0 = VIdle \<and> length (vgone s) = length (venq s) \<and>
     waits_for_push s 1 \<and> waits_for_push s 2"
proof -
  obtain a where r: "reachable vec_step (vsys_new 3) (drained 30 a)" using drained_reachable[of 30] by auto
  obtain as where as: "run vec_step as (vsys_new 3) = Some (drained 30 a)" using r by (auto simp: reachable_def)
  obtain s where s: "run vec_step overtaking (drained 30 a) = Some s"
    "vthreads s = 3" "vpc s 0 = VIdle" "vpc s 1 = QWait 67 (Some 1)" "vpc s 2 = QWait 64 (Some 1)"
    "length (venq s) = 31" "length (vgone s) = 31"
    using overtaking_run[of a] by (auto simp: run_to_def split: option.splits)
  have rs: "reachable vec_step (vsys_new 3) s"
    using as s(1) by (intro reachable_run[of _ "as @ overtaking"]) (simp add: run_append)
  have "\<not> pushing (vpc s j)" if j: "j < 3" for j
  proof -
    consider "j = 0" | "j = 1" | "j = 2" using j by linarith
    then show ?thesis using s by cases auto
  qed
  then have "unpushed_wait 1 67 (Some 1) s" "unpushed_wait 2 64 (Some 1) s"
    using vec_machine.always[OF rs] s by (simp_all add: unpushed_wait_def rank_def')
  then show ?thesis using rs s unpushed_wait_forever by metis
qed

end
