(* ===== verification/RefCount.thy ===== *)
theory RefCount
  imports Prelude
begin

text \<open>
  The reference count that every shared structure of the crate carries:
  \<open>increment_ref_count\<close> of \<open>src/core/mod.rs\<close> and the \<open>Clone\<close> and \<open>Drop\<close> implementations that use
  it (\<open>RawMutex\<close>, \<open>ThreadParker\<close>, \<open>AtomicBuffer\<close>, \<open>AtomicHashMap\<close>, \<open>AtomicArray\<close>, \<open>AtomicVec\<close>, ...).
  A clone whose increment sees \<open>isize::MAX\<close> or more aborts the process; until the abort
  takes effect the other threads go on, so a thread that has to abort is a state of its own.
  Handles can be sent to other threads and forgotten.
\<close>

definition increment_ref_count :: "usize \<Rightarrow> usize \<times> bool" where
  "increment_ref_count c = (c + 1, isize_MAX \<le> c)"

text \<open>\<open>fetch_sub(1) == 1\<close>: the new count, and whether the caller has to free.\<close>

definition decrement_ref_count :: "usize \<Rightarrow> usize \<times> bool" where
  "decrement_ref_count c = (c - 1, c = 1)"

datatype rc_state = Using | Aborting | Freeing

record rc_sys =
  rc_count :: usize
  rc_threads :: nat
  rc_pc :: "tid \<Rightarrow> rc_state"
  handles :: "tid \<Rightarrow> nat"
  forgotten :: nat          \<comment> \<open>handles passed to \<open>mem::forget\<close>\<close>
  frees :: nat              \<comment> \<open>times the storage was freed\<close>
  aborted :: bool

datatype rc_act = RcClone tid | RcDrop tid | RcSend tid tid | RcForget tid | RcAbort tid | RcFree tid

definition rc_init :: "nat \<Rightarrow> rc_sys" where
  "rc_init n =
     \<lparr>rc_count = 1, rc_threads = n, rc_pc = (\<lambda>_. Using), handles = (\<lambda>i. if i = 0 then 1 else 0),
      forgotten = 0, frees = 0, aborted = False\<rparr>"

definition rc_clone :: "rc_sys \<Rightarrow> tid \<Rightarrow> rc_sys" where
  "rc_clone s i =
     (let (c, over) = increment_ref_count (rc_count s) in
      if over then s\<lparr>rc_count := c, rc_pc := (rc_pc s)(i := Aborting)\<rparr>
      else s\<lparr>rc_count := c, handles := (handles s)(i := handles s i + 1)\<rparr>)"

definition rc_drop :: "rc_sys \<Rightarrow> tid \<Rightarrow> rc_sys" where
  "rc_drop s i =
     (let (c, lst) = decrement_ref_count (rc_count s);
          s' = s\<lparr>rc_count := c, handles := (handles s)(i := handles s i - 1)\<rparr>
      in if lst then s'\<lparr>rc_pc := (rc_pc s)(i := Freeing)\<rparr> else s')"

definition rc_step :: "rc_act \<Rightarrow> rc_sys \<Rightarrow> rc_sys option" where
  "rc_step a s =
     (let has = (\<lambda>i. i < rc_threads s \<and> rc_pc s i = Using \<and> 0 < handles s i) in
      if aborted s then None else
      case a of
        RcClone i \<Rightarrow> if has i then Some (rc_clone s i) else None
      | RcDrop i \<Rightarrow> if has i then Some (rc_drop s i) else None
      | RcSend i j \<Rightarrow>
          if has i \<and> j < rc_threads s \<and> i \<noteq> j then
            Some (s\<lparr>handles := (handles s)(i := handles s i - 1, j := handles s j + 1)\<rparr>)
          else None
      | RcForget i \<Rightarrow>
          if has i then Some (s\<lparr>handles := (handles s)(i := handles s i - 1), forgotten := forgotten s + 1\<rparr>)
          else None
      | RcAbort i \<Rightarrow> if i < rc_threads s \<and> rc_pc s i = Aborting then Some (s\<lparr>aborted := True\<rparr>) else None
      | RcFree i \<Rightarrow>
          if i < rc_threads s \<and> rc_pc s i = Freeing
          then Some (s\<lparr>frees := frees s + 1, rc_pc := (rc_pc s)(i := Using)\<rparr>) else None)"

section \<open>The invariant\<close>

definition rc_total :: "rc_sys \<Rightarrow> nat" where
  "rc_total s = (\<Sum>i<rc_threads s. handles s i) + forgotten s"

definition pending_in :: "rc_state \<Rightarrow> rc_sys \<Rightarrow> nat" where
  "pending_in p s = (\<Sum>i<rc_threads s. if rc_pc s i = p then 1 else 0)"

definition rc_inv :: "rc_sys \<Rightarrow> bool" where
  "rc_inv s \<longleftrightarrow> 0 < rc_threads s \<and>
     (rc_threads s < 2 ^ 63 \<longrightarrow>
        unat (rc_count s) = rc_total s + pending_in Aborting s \<and> rc_total s < 2 ^ 63 \<and>
        (\<forall>i<rc_threads s. rc_pc s i = Aborting \<longrightarrow> 0 < handles s i) \<and>
        frees s + pending_in Freeing s = (if rc_total s = 0 then 1 else 0))"

lemma rc_pending_le: "pending_in p s \<le> rc_threads s"
proof -
  have "pending_in p s \<le> (\<Sum>i<rc_threads s. 1)" unfolding pending_in_def by (rule sum_mono) simp
  then show ?thesis by simp
qed

lemma rc_pending_upd:
  assumes "i < rc_threads s" "rc_threads t = rc_threads s" "rc_pc t = (rc_pc s)(i := q)"
  shows "pending_in p t + (if rc_pc s i = p then 1 else 0) = pending_in p s + (if q = p then 1 else 0)"
  unfolding pending_in_def assms(2,3)
  using sum_if_upd[OF assms(1), of "\<lambda>j. if ((rc_pc s)(i := q)) j = p then 1 else 0" "\<lambda>j. if rc_pc s j = p then 1 else 0"]
  by simp

lemma handles_upd:
  assumes "i < rc_threads s"
  shows "(\<Sum>j<rc_threads s. ((handles s)(i := v)) j) + handles s i = (\<Sum>j<rc_threads s. handles s j) + v"
  by (rule sum_fun_upd[OF assms])

lemma handle_total: "i < rc_threads s \<Longrightarrow> handles s i \<le> rc_total s"
  using member_le_sum_lt[of i "rc_threads s" "handles s"] by (simp add: rc_total_def)

lemma rc_pending_same: "rc_threads t = rc_threads s \<Longrightarrow> rc_pc t = rc_pc s \<Longrightarrow> pending_in p t = pending_in p s"
  by (simp add: pending_in_def)

lemma rc_inv_clone:
  assumes inv: "rc_inv s" and i: "i < rc_threads s" "rc_pc s i = Using" "0 < handles s i"
  shows "rc_inv (rc_clone s i)"
proof (cases "rc_threads s < 2 ^ 63")
  case False
  with inv show ?thesis by (simp add: rc_inv_def rc_clone_def increment_ref_count_def)
next
  case True
  note r = inv[unfolded rc_inv_def]
  have c: "unat (rc_count s) = rc_total s + pending_in Aborting s" using r True by simp
  have lt: "unat (rc_count s) + 1 < 2 ^ 64" using c r True rc_pending_le[of Aborting s] by simp
  then have inc: "unat (rc_count s + 1) = unat (rc_count s) + 1" by (simp add: unat_word_ariths)
  have pos: "rc_total s \<noteq> 0" using handle_total[OF i(1)] i(3) by simp
  show ?thesis
  proof (cases "isize_MAX \<le> rc_count s")
    case True
    let ?t = "s\<lparr>rc_count := rc_count s + 1, rc_pc := (rc_pc s)(i := Aborting)\<rparr>"
    have t: "rc_clone s i = ?t" using True by (simp add: rc_clone_def increment_ref_count_def)
    have "pending_in Aborting ?t = pending_in Aborting s + 1" "pending_in Freeing ?t = pending_in Freeing s"
      using rc_pending_upd[OF i(1), of ?t Aborting Aborting] rc_pending_upd[OF i(1), of ?t Aborting Freeing] i(2) by simp_all
    moreover have "rc_total ?t = rc_total s" by (simp add: rc_total_def)
    ultimately show ?thesis using r c inc i t by (auto simp: rc_inv_def)
  next
    case False
    let ?t = "s\<lparr>rc_count := rc_count s + 1, handles := (handles s)(i := handles s i + 1)\<rparr>"
    have t: "rc_clone s i = ?t" using False by (simp add: rc_clone_def increment_ref_count_def)
    have "unat (rc_count s) < 2 ^ 63 - 1" using False by (simp add: isize_MAX_def word_le_nat_alt)
    moreover have "rc_total ?t = rc_total s + 1" using handles_upd[OF i(1), of "handles s i + 1"] by (simp add: rc_total_def)
    moreover have "pending_in q ?t = pending_in q s" for q by (rule rc_pending_same) simp_all
    ultimately show ?thesis using r c inc pos t by (auto simp: rc_inv_def)
  qed
qed

lemma rc_inv_drop:
  assumes inv: "rc_inv s" and i: "i < rc_threads s" "rc_pc s i = Using" "0 < handles s i"
  shows "rc_inv (rc_drop s i)"
proof (cases "rc_threads s < 2 ^ 63")
  case False
  with inv show ?thesis by (simp add: rc_inv_def rc_drop_def decrement_ref_count_def Let_def)
next
  case True
  note r = inv[unfolded rc_inv_def]
  have c: "unat (rc_count s) = rc_total s + pending_in Aborting s" using r True by simp
  have pos: "0 < rc_total s" using handle_total[OF i(1)] i(3) by simp
  then have "rc_count s \<noteq> 0" using c by (metis add_gr_0 less_irrefl unsigned_0)
  then have dec: "unat (rc_count s - 1) = unat (rc_count s) - 1" by (simp add: unat_minus_one)
  let ?t = "s\<lparr>rc_count := rc_count s - 1, handles := (handles s)(i := handles s i - 1)\<rparr>"
  have tot: "rc_total ?t = rc_total s - 1"
    using handles_upd[OF i(1), of "handles s i - 1"] i(3) handle_total[OF i(1)] by (simp add: rc_total_def)
  have none: "pending_in Aborting s = 0" if "rc_total s = 1"
  proof (rule ccontr)
    assume "pending_in Aborting s \<noteq> 0"
    then obtain j where j: "j < rc_threads s" "rc_pc s j = Aborting"
      unfolding pending_in_def using sum_pos_ex[of "\<lambda>j. if rc_pc s j = Aborting then 1 else 0" "rc_threads s"] by (auto split: if_splits)
    then have "j \<noteq> i" "0 < handles s j" using r True i(2) by auto
    then have "handles s i + handles s j \<le> (\<Sum>k<rc_threads s. handles s k)"
      using two_members_le_sum[OF i(1) j(1), of "handles s"] by simp
    with \<open>0 < handles s j\<close> i(3) that show False by (simp add: rc_total_def)
  qed
  show ?thesis
  proof (cases "rc_count s = 1")
    case True
    let ?u = "?t\<lparr>rc_pc := (rc_pc s)(i := Freeing)\<rparr>"
    have u: "rc_drop s i = ?u" using True by (simp add: rc_drop_def decrement_ref_count_def)
    have "rc_total s = 1" "pending_in Aborting s = 0" using True c pos by (simp_all add: word_unat_eq_iff)
    moreover have "pending_in Freeing ?u = pending_in Freeing s + 1" "pending_in Aborting ?u = pending_in Aborting s"
      using rc_pending_upd[OF i(1), of ?u Freeing Freeing] rc_pending_upd[OF i(1), of ?u Freeing Aborting] i(2) by simp_all
    moreover have "rc_total ?u = rc_total ?t" by (simp add: rc_total_def)
    ultimately show ?thesis using r c dec tot u i \<open>rc_threads s < 2 ^ 63\<close> by (auto simp: rc_inv_def)
  next
    case False
    have u: "rc_drop s i = ?t" using False by (simp add: rc_drop_def decrement_ref_count_def)
    have "unat (rc_count s) \<noteq> 1" using False by (simp add: word_unat_eq_iff)
    then have "rc_total s \<noteq> 1" using none c by auto
    moreover have "pending_in q ?t = pending_in q s" for q by (rule rc_pending_same) simp_all
    ultimately show ?thesis using r c dec tot u i pos \<open>rc_threads s < 2 ^ 63\<close> by (auto simp: rc_inv_def)
  qed
qed

lemma rc_inv_step:
  assumes inv: "rc_inv s" and st: "rc_step a s = Some t"
  shows "rc_inv t"
proof (cases a)
  case (RcClone i)
  with st rc_inv_clone[OF inv] show ?thesis by (auto simp: rc_step_def split: if_splits)
next
  case (RcDrop i)
  with st rc_inv_drop[OF inv] show ?thesis by (auto simp: rc_step_def split: if_splits)
next
  case (RcSend i j)
  with st have i: "i < rc_threads s" "j < rc_threads s" "i \<noteq> j" "0 < handles s i" "rc_pc s i = Using"
    and t: "t = s\<lparr>handles := (handles s)(i := handles s i - 1, j := handles s j + 1)\<rparr>"
    by (auto simp: rc_step_def split: if_splits)
  have "rc_total t = rc_total s"
    using sum_fun_upd[OF i(2), of "(handles s)(i := handles s i - 1)" "handles s j + 1"]
      handles_upd[OF i(1), of "handles s i - 1"] i by (simp add: t rc_total_def)
  moreover have "pending_in q t = pending_in q s" for q by (rule rc_pending_same) (simp_all add: t)
  ultimately show ?thesis using inv i t by (auto simp: rc_inv_def)
next
  case (RcForget i)
  with st have i: "i < rc_threads s" "0 < handles s i" "rc_pc s i = Using"
    and t: "t = s\<lparr>handles := (handles s)(i := handles s i - 1), forgotten := forgotten s + 1\<rparr>"
    by (auto simp: rc_step_def split: if_splits)
  have "rc_total t = rc_total s"
    using handles_upd[OF i(1), of "handles s i - 1"] i by (simp add: t rc_total_def)
  moreover have "pending_in q t = pending_in q s" for q by (rule rc_pending_same) (simp_all add: t)
  ultimately show ?thesis using inv i t by (auto simp: rc_inv_def)
next
  case (RcAbort i)
  with st have t: "t = s\<lparr>aborted := True\<rparr>" by (auto simp: rc_step_def split: if_splits)
  have "pending_in q t = pending_in q s" "rc_total t = rc_total s" for q by (simp_all add: t pending_in_def rc_total_def)
  with inv t show ?thesis by (simp add: rc_inv_def)
next
  case (RcFree i)
  with st have i: "i < rc_threads s" "rc_pc s i = Freeing"
    and t: "t = s\<lparr>frees := frees s + 1, rc_pc := (rc_pc s)(i := Using)\<rparr>"
    by (auto simp: rc_step_def split: if_splits)
  have "pending_in Freeing t + 1 = pending_in Freeing s" "pending_in Aborting t = pending_in Aborting s" "rc_total t = rc_total s"
    using rc_pending_upd[OF i(1), of t Using Freeing] rc_pending_upd[OF i(1), of t Using Aborting] i(2)
    by (simp_all add: t rc_total_def)
  with inv t show ?thesis by (auto simp: rc_inv_def)
qed

lemma rc_inv_init: "0 < n \<Longrightarrow> rc_inv (rc_init n)"
proof -
  assume n: "0 < n"
  have "(\<Sum>i<n. if i = 0 then 1 else 0 :: nat) = 1" using n by (simp add: sum.delta')
  with n show ?thesis by (simp add: rc_inv_def rc_init_def rc_total_def pending_in_def)
qed

interpretation refcount: machine rc_step "rc_init n" "\<lambda>s. 0 < n \<longrightarrow> rc_inv s \<and> rc_threads s = n"
  for n
proof
  show "0 < n \<longrightarrow> rc_inv (rc_init n) \<and> rc_threads (rc_init n) = n"
    using rc_inv_init by (simp add: rc_init_def)
next
  fix s a t assume "0 < n \<longrightarrow> rc_inv s \<and> rc_threads s = n" "rc_step a s = Some t"
  moreover from this(2) have "rc_threads t = rc_threads s"
    by (cases a) (auto simp: rc_step_def rc_clone_def rc_drop_def increment_ref_count_def decrement_ref_count_def Let_def split: if_splits)
  ultimately show "0 < n \<longrightarrow> rc_inv t \<and> rc_threads t = n" using rc_inv_step by blast
qed

text \<open>
  C31: the storage is freed exactly once and never under a handle. With fewer than \<open>2^63\<close>
  threads, in every reachable state: while any thread has a handle the storage has not been
  freed and nobody is about to free it; it is freed at most once; when every handle has been
  dropped and none was forgotten, it has been freed or the last dropper is about to. The
  bound \<open>isize::MAX\<close> on the count is what keeps forgotten clones from wrapping it to zero.
\<close>

theorem refcount_frees_once:
  assumes "reachable rc_step (rc_init n) s" "0 < n" "n < 2 ^ 63"
  shows "frees s \<le> 1 \<and>
    (\<forall>i<n. 0 < handles s i \<longrightarrow> frees s = 0 \<and> (\<forall>j<n. rc_pc s j \<noteq> Freeing)) \<and>
    ((\<forall>i<n. handles s i = 0) \<and> forgotten s = 0 \<longrightarrow> frees s = 1 \<or> (\<exists>j<n. rc_pc s j = Freeing))"
proof -
  have inv: "rc_inv s" "rc_threads s = n" using refcount.always[OF assms(1)] assms(2) by auto
  with assms(3) have f: "frees s + pending_in Freeing s = (if rc_total s = 0 then 1 else 0)"
    by (simp add: rc_inv_def)
  have none: "\<forall>j<n. rc_pc s j \<noteq> Freeing" if "pending_in Freeing s = 0"
    using that inv(2) by (auto simp: pending_in_def split: if_splits)
  have some: "\<exists>j<n. rc_pc s j = Freeing" if "pending_in Freeing s \<noteq> 0"
    using that inv(2) sum_pos_ex[of "\<lambda>j. if rc_pc s j = Freeing then 1 else 0" n]
    by (auto simp: pending_in_def split: if_splits)
  have "rc_total s \<noteq> 0" if "i < n" "0 < handles s i" for i using handle_total[of i s] that inv(2) by simp
  moreover have "rc_total s = 0" if "\<forall>i<n. handles s i = 0" "forgotten s = 0" using that inv(2) by (simp add: rc_total_def)
  moreover have "pending_in Freeing s = 0 \<or> (\<exists>j<n. rc_pc s j = Freeing)" using some by blast
  ultimately show ?thesis using f none by (auto split: if_splits)
qed

theorem refcount_frees_once_witness:
  "\<exists>s. reachable rc_step (rc_init 2) s \<and> handles s 0 = 0 \<and> handles s 1 = 0 \<and> frees s = 1"
proof -
  have "run_to rc_step [RcClone 0, RcSend 0 1, RcDrop 0, RcDrop 1, RcFree 1] (rc_init 2)
      (\<lambda>s. handles s 0 = 0 \<and> handles s 1 = 0 \<and> forgotten s = 0 \<and> rc_pc s 0 = Using \<and> rc_pc s 1 = Using)"
    by code_simp
  then obtain s where s: "reachable rc_step (rc_init 2) s" "handles s 0 = 0" "handles s 1 = 0" "forgotten s = 0"
    "rc_pc s 0 = Using" "rc_pc s 1 = Using" by (auto dest: run_toD)
  then have "\<forall>i<2. handles s i = 0" "\<not> (\<exists>j<2. rc_pc s j = Freeing)" by (auto dest!: less_2_cases)
  with refcount_frees_once[OF s(1)] s show ?thesis by auto
qed

end
