(* ===== verification/Barrier.thy ===== *)
theory Barrier
  imports Prelude
begin

text \<open>
  \<open>Barrier\<close> of \<open>src/sync/barrier.rs\<close>, a monitor over the standard library's \<open>Mutex\<close> and
  \<open>Condvar\<close>. The mutex makes each critical section one step; waiting on the condition
  variable releases the mutex and goes to sleep in the same step, \<open>notify_all\<close> wakes every
  sleeper, a sleeper may also wake spuriously, and a woken thread tests its condition again
  in a step of its own. Generations are 64-bit words that wrap around.
\<close>

record barrier =
  remaining :: usize
  generation :: usize
  bar_count :: usize
  bucket :: usize

datatype wait_pc = Outside | Asleep usize | Awake usize

record barrier_sys =
  bar :: barrier
  bar_threads :: nat
  bar_pc :: "tid \<Rightarrow> wait_pc"
  required :: nat        \<comment> \<open>ghost: arrivals the current phase needs\<close>
  phases :: nat          \<comment> \<open>ghost: phases completed\<close>

datatype bar_act = Arrive tid | Release tid | Recheck tid | WakeSpurious tid

definition barrier_with_capacity :: "usize \<Rightarrow> usize \<Rightarrow> barrier" where
  "barrier_with_capacity n b = \<lparr>remaining = n, generation = 0, bar_count = n, bucket = b\<rparr>"

definition barrier_new :: barrier where
  "barrier_new = barrier_with_capacity 1 0"

definition barrier_count :: "barrier \<Rightarrow> usize" where
  "barrier_count b = bar_count b"

definition barrier_init :: "usize \<Rightarrow> usize \<Rightarrow> nat \<Rightarrow> barrier_sys" where
  "barrier_init c b n =
     \<lparr>bar = barrier_with_capacity c b, bar_threads = n, bar_pc = (\<lambda>_. Outside), required = unat c, phases = 0\<rparr>"

text \<open>The end of a phase: the count is refilled, the generation advances, all sleepers wake.\<close>

definition wake :: "wait_pc \<Rightarrow> wait_pc" where
  "wake p = (case p of Asleep g \<Rightarrow> Awake g | _ \<Rightarrow> p)"

definition barrier_release :: "barrier_sys \<Rightarrow> barrier_sys" where
  "barrier_release s =
     s\<lparr>bar := (bar s)\<lparr>remaining := bucket (bar s), generation := generation (bar s) + 1, bar_count := bucket (bar s)\<rparr>,
       bar_pc := (\<lambda>i. wake (bar_pc s i)), required := unat (bucket (bar s)), phases := phases s + 1\<rparr>"

definition barrier_wait :: "barrier_sys \<Rightarrow> tid \<Rightarrow> barrier_sys" where
  "barrier_wait s i =
     (if remaining (bar s) = 0 then s
      else let rm = remaining (bar s) - 1;
               s' = s\<lparr>bar := (bar s)\<lparr>remaining := rm, bar_count := rm\<rparr>\<rparr>
           in if rm = 0 then barrier_release s'
              else s'\<lparr>bar_pc := (bar_pc s)(i := Asleep (generation (bar s)))\<rparr>)"

definition barrier_recheck :: "barrier_sys \<Rightarrow> tid \<Rightarrow> usize \<Rightarrow> barrier_sys" where
  "barrier_recheck s i g =
     s\<lparr>bar_pc := (bar_pc s)(i := if generation (bar s) = g then Asleep g else Outside)\<rparr>"

definition barrier_step :: "bar_act \<Rightarrow> barrier_sys \<Rightarrow> barrier_sys option" where
  "barrier_step a s =
     (case a of
        Arrive i \<Rightarrow> if i < bar_threads s \<and> bar_pc s i = Outside then Some (barrier_wait s i) else None
      | Release i \<Rightarrow> if i < bar_threads s \<and> bar_pc s i = Outside then Some (barrier_release s) else None
      | Recheck i \<Rightarrow>
          if i < bar_threads s then
            (case bar_pc s i of Awake g \<Rightarrow> Some (barrier_recheck s i g) | _ \<Rightarrow> None) else None
      | WakeSpurious i \<Rightarrow>
          if i < bar_threads s then
            (case bar_pc s i of Asleep g \<Rightarrow> Some (s\<lparr>bar_pc := (bar_pc s)(i := Awake g)\<rparr>) | _ \<Rightarrow> None) else None)"

section \<open>The invariant\<close>

definition inside :: "usize \<Rightarrow> wait_pc \<Rightarrow> nat" where
  "inside g p = (if p = Asleep g \<or> p = Awake g then 1 else 0)"

definition arrived :: "barrier_sys \<Rightarrow> nat" where
  "arrived s = (\<Sum>i<bar_threads s. inside (generation (bar s)) (bar_pc s i))"

fun gen_ok :: "nat \<Rightarrow> wait_pc \<Rightarrow> bool" where
  "gen_ok k Outside = True"
| "gen_ok k (Asleep g) = (g = of_nat k)"
| "gen_ok k (Awake g) = (\<exists>j\<le>k. g = of_nat j)"

definition barrier_inv :: "barrier_sys \<Rightarrow> bool" where
  "barrier_inv s \<longleftrightarrow> (phases s < 2 ^ 64 \<longrightarrow>
     generation (bar s) = of_nat (phases s) \<and> (\<forall>i<bar_threads s. gen_ok (phases s) (bar_pc s i)) \<and>
     arrived s + unat (remaining (bar s)) = required s \<and> (remaining (bar s) = 0 \<longrightarrow> required s = 0) \<and>
     bar_count (bar s) = remaining (bar s))"

lemma of_nat_u64_neq: "j \<le> k \<Longrightarrow> Suc k < 2 ^ 64 \<Longrightarrow> (of_nat j :: usize) \<noteq> of_nat (Suc k)"
  by (simp add: word_unat_eq_iff unat_of_nat take_bit_nat_eq_self_iff del: of_nat_Suc)

lemma gen_ok_wake: "gen_ok k p \<Longrightarrow> gen_ok (Suc k) (wake p)"
  by (cases p) (auto simp: wake_def intro: le_SucI simp del: of_nat_Suc)

lemma wake_old: "gen_ok k p \<Longrightarrow> Suc k < 2 ^ 64 \<Longrightarrow> inside (of_nat (Suc k)) (wake p) = 0"
  using of_nat_u64_neq[of _ k]
  by (cases p) (auto simp: wake_def inside_def simp del: of_nat_Suc)

lemma release_inv:
  assumes gen: "generation (bar s) = of_nat (phases s)" and pcs: "\<forall>i<bar_threads s. gen_ok (phases s) (bar_pc s i)"
  shows "barrier_inv (barrier_release s)"
proof -
  let ?t = "barrier_release s"
  have "arrived ?t = 0" "\<forall>i<bar_threads ?t. gen_ok (phases ?t) (bar_pc ?t i)" if "Suc (phases s) < 2 ^ 64"
    using that gen pcs wake_old[of "phases s"] gen_ok_wake
    by (simp_all add: arrived_def barrier_release_def add.commute)
  with gen show ?thesis by (simp add: barrier_inv_def) (auto simp: barrier_release_def)
qed

lemma arrived_upd:
  assumes "i < bar_threads s" "bar_threads t = bar_threads s" "generation (bar t) = generation (bar s)"
    "bar_pc t = (bar_pc s)(i := q)"
  shows "arrived t + inside (generation (bar s)) (bar_pc s i) = arrived s + inside (generation (bar s)) q"
  unfolding arrived_def assms(2-4)
  using sum_if_upd[OF assms(1), of "\<lambda>j. inside (generation (bar s)) (((bar_pc s)(i := q)) j)"
      "\<lambda>j. inside (generation (bar s)) (bar_pc s j)"] by simp

lemma wait_inv:
  assumes inv: "barrier_inv s" and i: "i < bar_threads s" "bar_pc s i = Outside"
  shows "barrier_inv (barrier_wait s i)"
proof (cases "remaining (bar s) = 0")
  case True
  with inv show ?thesis by (simp add: barrier_wait_def)
next
  case False
  let ?rm = "remaining (bar s) - 1"
  let ?s = "s\<lparr>bar := (bar s)\<lparr>remaining := ?rm, bar_count := ?rm\<rparr>\<rparr>"
  show ?thesis
  proof (cases "?rm = 0")
    case rm: True
    with False have t: "barrier_wait s i = barrier_release ?s" by (simp add: barrier_wait_def Let_def)
    show ?thesis
    proof (cases "phases s < 2 ^ 64")
      case True
      with inv have "generation (bar ?s) = of_nat (phases ?s)" "\<forall>i<bar_threads ?s. gen_ok (phases ?s) (bar_pc ?s i)"
        by (simp_all add: barrier_inv_def)
      from release_inv[OF this] t show ?thesis by simp
    qed (simp add: t barrier_inv_def barrier_release_def)
  next
    case rm: False
    let ?t = "?s\<lparr>bar_pc := (bar_pc s)(i := Asleep (generation (bar s)))\<rparr>"
    have t: "barrier_wait s i = ?t" using False rm by (simp add: barrier_wait_def Let_def)
    have "arrived ?t = arrived s + 1"
      using arrived_upd[OF i(1), of ?t] i(2) by (simp add: inside_def)
    moreover have "unat (remaining (bar s)) = unat ?rm + 1"
      using False by (simp add: unat_minus_one unat_gt_0 Suc_leI)
    ultimately show ?thesis using inv rm t by (auto simp: barrier_inv_def)
  qed
qed

lemma barrier_inv_step:
  assumes inv: "barrier_inv s" and st: "barrier_step a s = Some t"
  shows "barrier_inv t"
proof (cases a)
  case (Arrive i)
  with st wait_inv[OF inv] show ?thesis by (auto simp: barrier_step_def split: if_splits)
next
  case (Release i)
  with st have t: "t = barrier_release s" by (auto simp: barrier_step_def split: if_splits)
  show ?thesis
  proof (cases "phases s < 2 ^ 64")
    case True
    with inv release_inv[of s] t show ?thesis by (simp add: barrier_inv_def)
  qed (simp add: t barrier_inv_def barrier_release_def)
next
  case (Recheck i)
  with st obtain g where i: "i < bar_threads s" "bar_pc s i = Awake g" and t: "t = barrier_recheck s i g"
    by (auto simp: barrier_step_def split: if_splits wait_pc.splits)
  have "arrived t = arrived s"
    using arrived_upd[OF i(1), of t "if generation (bar s) = g then Asleep g else Outside"] i(2)
    by (auto simp: t barrier_recheck_def inside_def)
  with inv t show ?thesis by (auto simp: barrier_inv_def barrier_recheck_def)
next
  case (WakeSpurious i)
  with st obtain g where i: "i < bar_threads s" "bar_pc s i = Asleep g" and t: "t = s\<lparr>bar_pc := (bar_pc s)(i := Awake g)\<rparr>"
    by (auto simp: barrier_step_def split: if_splits wait_pc.splits)
  have "arrived t = arrived s" using arrived_upd[OF i(1), of t "Awake g"] i(2) by (auto simp: t inside_def)
  moreover have "phases s < 2 ^ 64 \<Longrightarrow> gen_ok (phases s) (Asleep g)" using inv i by (metis barrier_inv_def)
  ultimately show ?thesis using inv t by (auto simp: barrier_inv_def)
qed

lemma barrier_inv_init: "barrier_inv (barrier_init c b n)"
  by (auto simp: barrier_inv_def barrier_init_def barrier_with_capacity_def arrived_def inside_def)

interpretation barrier: machine barrier_step "barrier_init c b n" barrier_inv
  for c b n
  by unfold_locales (auto intro: barrier_inv_init barrier_inv_step)

section \<open>Properties\<close>

text \<open>
  C32: each generation releases exactly its required arrivals. In every reachable state with
  fewer than \<open>2^64\<close> completed phases: the threads of the current phase inside \<open>wait\<close> and the
  arrivals still missing add up to what the phase requires, \<open>count\<close> shows the missing ones,
  nobody sleeps in a phase that is over, and when one arrival is missing the next one wakes
  exactly the other \<open>required - 1\<close> and starts a phase that requires \<open>bucket\<close> arrivals.
\<close>

theorem barrier_releases_exactly:
  assumes "reachable barrier_step (barrier_init c b n) s" "phases s < 2 ^ 64"
  shows "arrived s + unat (barrier_count (bar s)) = required s \<and>
    (\<forall>i g. i < bar_threads s \<and> bar_pc s i = Asleep g \<longrightarrow> g = generation (bar s)) \<and>
    (remaining (bar s) = 1 \<longrightarrow> arrived s + 1 = required s \<and>
       required (barrier_wait s i) = unat (bucket (bar s)) \<and>
       (\<forall>j g. bar_pc (barrier_wait s i) j \<noteq> Asleep g))"
proof -
  have inv: "barrier_inv s" by (rule barrier.always[OF assms(1)])
  have "bar_pc (barrier_release u) j \<noteq> Asleep g" for u j g
    by (simp add: barrier_release_def wake_def split: wait_pc.splits)
  moreover have "g = generation (bar s)" if "i < bar_threads s" "bar_pc s i = Asleep g" for i g
  proof -
    have "gen_ok (phases s) (bar_pc s i)" "generation (bar s) = of_nat (phases s)"
      using inv assms(2) that(1) by (simp_all add: barrier_inv_def)
    with that(2) show ?thesis by simp
  qed
  ultimately show ?thesis
    using inv assms(2)
    by (auto simp: barrier_inv_def barrier_wait_def barrier_count_def) (auto simp: barrier_release_def)
qed

theorem barrier_releases_exactly_witness:
  "\<exists>s. reachable barrier_step (barrier_init 3 2 3) s \<and> remaining (bar s) = 1 \<and> arrived s + 1 = required s \<and> required s = 3"
proof -
  have "run_to barrier_step [Arrive 0, Arrive 2, WakeSpurious 0, Recheck 0] (barrier_init 3 2 3)
      (\<lambda>s. remaining (bar s) = 1 \<and> required s = 3 \<and> phases s = 0)" by code_simp
  then obtain s where s: "reachable barrier_step (barrier_init 3 2 3) s" "remaining (bar s) = 1" "required s = 3" "phases s = 0"
    by (auto dest: run_toD)
  with barrier_releases_exactly[OF s(1)] show ?thesis by (intro exI[of _ s]) simp
qed

text \<open>
  A disabled barrier lets everybody through. Once the missing count is zero, in
  particular after the first phase when the bucket is zero or from the start for a zero
  capacity, \<open>wait\<close> returns at once and changes nothing, and no thread is left inside.
\<close>

theorem barrier_disabled:
  assumes "reachable barrier_step (barrier_init c b n) s" "phases s < 2 ^ 64" "remaining (bar s) = 0"
  shows "barrier_wait s i = s \<and> (\<forall>j g. j < bar_threads s \<longrightarrow> bar_pc s j \<noteq> Asleep g)"
proof -
  have inv: "barrier_inv s" by (rule barrier.always[OF assms(1)])
  with assms(2,3) have zero: "arrived s = 0" by (simp add: barrier_inv_def)
  have "bar_pc s j \<noteq> Asleep g" if j: "j < bar_threads s" for j g
  proof
    assume p: "bar_pc s j = Asleep g"
    have "gen_ok (phases s) (bar_pc s j)" "generation (bar s) = of_nat (phases s)"
      using inv assms(2) j by (simp_all add: barrier_inv_def)
    with p have "inside (generation (bar s)) (bar_pc s j) = 1" by (simp add: inside_def)
    with member_le_sum_lt[OF j, of "\<lambda>k. inside (generation (bar s)) (bar_pc s k)"] zero
    show False by (simp add: arrived_def)
  qed
  with assms(3) show ?thesis by (simp add: barrier_wait_def)
qed

theorem barrier_disabled_witness:
  "\<exists>s. reachable barrier_step (barrier_init 2 0 2) s \<and> remaining (bar s) = 0 \<and> barrier_wait s 0 = s"
proof -
  have "run_to barrier_step [Arrive 0, Arrive 1] (barrier_init 2 0 2) (\<lambda>s. remaining (bar s) = 0 \<and> phases s = 1)"
    by code_simp
  then obtain s where s: "reachable barrier_step (barrier_init 2 0 2) s" "remaining (bar s) = 0" "phases s = 1"
    by (auto dest: run_toD)
  with barrier_disabled[OF s(1)] show ?thesis by auto
qed

end
