(* ===== verification/Parker.thy ===== *)
theory Parker
  imports Futex
begin

text \<open>
  \<open>ThreadParker\<close> of \<open>src/core/thread.rs\<close>: a futex whose word counts tokens. \<open>unpark\<close> adds a token
  and wakes one sleeper, \<open>park\<close> returns once it has taken a token. \<open>try_update\<close> of the
  standard library is one atomic read-modify-write. Any number of threads may park and
  unpark through clones of the two handles; which sleeper a wake hits is the kernel's
  choice and part of the schedule.
\<close>

definition PARKED :: u32 where
  "PARKED = 0"

definition UNPARKED :: u32 where
  "UNPARKED = 1"

definition try_consume_token :: "u32 \<Rightarrow> u32 option" where
  "try_consume_token v = (if PARKED < v then Some (v - 1) else None)"

definition add_token :: "u32 \<Rightarrow> u32 option" where
  "add_token v = checked_add v 1"

datatype park_pc = PIdle | PLoop | PWait | PSleep | UWake | POverflow

record parker_sys =
  tokens :: futex
  pk_threads :: nat
  pk_pc :: "tid \<Rightarrow> park_pc"
  parks :: nat          \<comment> \<open>ghost: calls of \<open>park\<close> that returned\<close>
  unparks :: nat        \<comment> \<open>ghost: tokens added\<close>

datatype pk_act = CallPark tid | CallUnpark tid | PkStep tid tid | PkSpurious tid

definition parker_init :: "nat \<Rightarrow> parker_sys" where
  "parker_init n =
     \<lparr>tokens = futex_new UNPARKED, pk_threads = n, pk_pc = (\<lambda>_. PIdle), parks = 0, unparks = 0\<rparr>"

abbreviation (input) pk_go :: "parker_sys \<Rightarrow> tid \<Rightarrow> park_pc \<Rightarrow> parker_sys" where
  "pk_go s i p \<equiv> s\<lparr>pk_pc := (pk_pc s)(i := p)\<rparr>"

definition consume :: "parker_sys \<Rightarrow> tid \<Rightarrow> park_pc \<Rightarrow> parker_sys" where
  "consume s i p =
     (case try_consume_token (fword (tokens s)) of
        Some v \<Rightarrow> (pk_go s i PIdle)\<lparr>tokens := (tokens s)\<lparr>fword := v\<rparr>, parks := parks s + 1\<rparr>
      | None \<Rightarrow> pk_go s i p)"

text \<open>\<open>park\<close>: the fast path, and the loop around \<open>futex_wait\<close>.\<close>

definition park :: "parker_sys \<Rightarrow> tid \<Rightarrow> parker_sys" where
  "park s i = consume s i PLoop"

definition unpark :: "parker_sys \<Rightarrow> tid \<Rightarrow> parker_sys" where
  "unpark s i =
     (case add_token (fword (tokens s)) of
        None \<Rightarrow> pk_go s i POverflow
      | Some v \<Rightarrow> (pk_go s i UWake)\<lparr>tokens := (tokens s)\<lparr>fword := v\<rparr>, unparks := unparks s + 1\<rparr>)"

fun park_loop :: "parker_sys \<Rightarrow> tid \<Rightarrow> tid \<Rightarrow> park_pc \<Rightarrow> parker_sys option" where
  "park_loop s i w PLoop = Some (consume s i PWait)"
| "park_loop s i w PWait =
     (case futex_wait (tokens s) PARKED i of
        (f, True) \<Rightarrow> Some ((pk_go s i PSleep)\<lparr>tokens := f\<rparr>)
      | (f, False) \<Rightarrow> Some (pk_go s i PLoop))"
| "park_loop s i w PSleep = (if i \<in> set (waiters (tokens s)) then None else Some (pk_go s i PLoop))"
| "park_loop s i w UWake =
     (if w \<in> set (waiters (tokens s)) \<or> waiters (tokens s) = []
      then Some ((pk_go s i PIdle)\<lparr>tokens := futex_wake (tokens s) w\<rparr>) else None)"
| "park_loop s i w _ = None"

definition parker_step :: "pk_act \<Rightarrow> parker_sys \<Rightarrow> parker_sys option" where
  "parker_step a s =
     (case a of
        CallPark i \<Rightarrow> if i < pk_threads s \<and> pk_pc s i = PIdle then Some (park s i) else None
      | CallUnpark i \<Rightarrow> if i < pk_threads s \<and> pk_pc s i = PIdle then Some (unpark s i) else None
      | PkStep i w \<Rightarrow> if i < pk_threads s then park_loop s i w (pk_pc s i) else None
      | PkSpurious i \<Rightarrow>
          if i < pk_threads s then Some (s\<lparr>tokens := futex_unpark (tokens s) i\<rparr>) else None)"

section \<open>The invariant\<close>

text \<open>A thread is on the move when it is about to wake a sleeper or to look for a token.\<close>

definition moving :: "futex \<Rightarrow> tid \<Rightarrow> park_pc \<Rightarrow> nat" where
  "moving f i p = (case p of UWake \<Rightarrow> 1 | PLoop \<Rightarrow> 1 | PWait \<Rightarrow> 1
     | PSleep \<Rightarrow> if i \<in> set (waiters f) then 0 else 1 | _ \<Rightarrow> 0)"

definition total_moving :: "parker_sys \<Rightarrow> nat" where
  "total_moving s = (\<Sum>i<pk_threads s. moving (tokens s) i (pk_pc s i))"

definition parker_inv :: "parker_sys \<Rightarrow> bool" where
  "parker_inv s \<longleftrightarrow>
     unat (fword (tokens s)) + parks s = 1 + unparks s \<and>
     distinct (waiters (tokens s)) \<and>
     (\<forall>i. i \<in> set (waiters (tokens s)) \<longrightarrow> i < pk_threads s \<and> pk_pc s i = PSleep) \<and>
     (waiters (tokens s) \<noteq> [] \<longrightarrow> unat (fword (tokens s)) \<le> total_moving s)"

lemma moving_upd:
  assumes "i < pk_threads s" "pk_threads t = pk_threads s"
    "\<And>j. j < pk_threads s \<Longrightarrow> j \<noteq> i \<Longrightarrow> moving (tokens t) j (pk_pc t j) = moving (tokens s) j (pk_pc s j)"
  shows "total_moving t + moving (tokens s) i (pk_pc s i) = total_moving s + moving (tokens t) i (pk_pc t i)"
proof -
  let ?f = "\<lambda>j. moving (tokens s) j (pk_pc s j)"
  let ?g = "\<lambda>j. if j < pk_threads s then moving (tokens t) j (pk_pc t j) else ?f j"
  have "(\<Sum>j<pk_threads s. ?g j) + ?f i = (\<Sum>j<pk_threads s. ?f j) + ?g i"
    by (rule sum_if_upd[OF assms(1)]) (use assms(3) in auto)
  moreover have "(\<Sum>j<pk_threads s. ?g j) = total_moving t"
    unfolding total_moving_def assms(2) by (rule sum.cong) auto
  ultimately show ?thesis using assms(1) by (simp add: total_moving_def)
qed

lemma consume_inv:
  assumes inv: "parker_inv s" and i: "i < pk_threads s" and p: "pk_pc s i = PIdle \<or> pk_pc s i = PLoop"
    and q: "q = PLoop \<or> q = PWait" and m: "pk_pc s i = PIdle \<longrightarrow> q = PLoop"
  shows "parker_inv (consume s i q)"
proof (cases "fword (tokens s) = 0")
  case True
  then have t: "consume s i q = pk_go s i q" by (simp add: consume_def try_consume_token_def PARKED_def)
  have "total_moving s \<le> total_moving (pk_go s i q)"
    using moving_upd[OF i, of "pk_go s i q"] p q by (auto simp: moving_def)
  with True t inv i p show ?thesis by (auto simp: parker_inv_def)
next
  case False
  let ?v = "fword (tokens s) - 1"
  let ?t = "(pk_go s i PIdle)\<lparr>tokens := (tokens s)\<lparr>fword := ?v\<rparr>, parks := parks s + 1\<rparr>"
  have t: "consume s i q = ?t"
    using False by (simp add: consume_def try_consume_token_def PARKED_def word_gt_0)
  have v: "unat (fword (tokens s)) = unat ?v + 1" using False by (simp add: unat_minus_one unat_gt_0 Suc_leI)
  have "total_moving ?t + moving (tokens s) i (pk_pc s i) = total_moving s"
    using moving_upd[OF i, of ?t] by (simp add: moving_def split: park_pc.splits)
  moreover have "moving (tokens s) i (pk_pc s i) \<le> 1" using p by (auto simp: moving_def)
  ultimately have "total_moving s \<le> total_moving ?t + 1" by linarith
  with inv i p v t show ?thesis by (auto simp: parker_inv_def)
qed

lemma unpark_inv:
  assumes inv: "parker_inv s" and i: "i < pk_threads s" "pk_pc s i = PIdle"
  shows "parker_inv (unpark s i)"
proof (cases "add_token (fword (tokens s))")
  case None
  have "total_moving (pk_go s i POverflow) = total_moving s"
    using moving_upd[OF i(1), of "pk_go s i POverflow"] i(2) by (simp add: moving_def)
  with inv i None show ?thesis by (auto simp: parker_inv_def unpark_def)
next
  case (Some v)
  let ?t = "(pk_go s i UWake)\<lparr>tokens := (tokens s)\<lparr>fword := v\<rparr>, unparks := unparks s + 1\<rparr>"
  have t: "unpark s i = ?t" using Some by (simp add: unpark_def)
  have v: "unat v = unat (fword (tokens s)) + 1"
    using unat_checked_add[of "fword (tokens s)" 1 v] Some by (simp add: add_token_def)
  have "total_moving ?t + moving (tokens s) i (pk_pc s i) = total_moving s + moving (tokens ?t) i (pk_pc ?t i)"
    by (rule moving_upd[OF i(1)]) (simp_all add: moving_def split: park_pc.splits)
  then have "total_moving ?t = total_moving s + 1" using i(2) by (simp add: moving_def)
  with inv i v t show ?thesis by (auto simp: parker_inv_def)
qed

text \<open>Taking a sleeper off the wait queue puts it on the move.\<close>

lemma wake_one:
  assumes inv: "parker_inv s" and w: "w \<in> set (waiters (tokens s))"
  shows "total_moving (s\<lparr>tokens := futex_wake (tokens s) w\<rparr>) = total_moving s + 1"
    "parker_inv (s\<lparr>tokens := futex_wake (tokens s) w\<rparr>)"
proof -
  let ?t = "s\<lparr>tokens := futex_wake (tokens s) w\<rparr>"
  from inv have d: "distinct (waiters (tokens s))" and wt: "w < pk_threads s" "pk_pc s w = PSleep"
    using w by (auto simp: parker_inv_def)
  have "total_moving ?t + moving (tokens s) w (pk_pc s w) = total_moving s + moving (tokens ?t) w (pk_pc ?t w)"
    by (rule moving_upd[OF wt(1)]) (simp_all add: moving_def futex_wake_def d set_remove1_eq split: park_pc.splits)
  then show up: "total_moving ?t = total_moving s + 1"
    using wt(2) w d by (simp add: moving_def futex_wake_def set_remove1_eq)
  from inv have "unat (fword (tokens s)) \<le> total_moving s" using w by (auto simp: parker_inv_def)
  with inv up d show "parker_inv ?t"
    by (simp add: parker_inv_def futex_wake_def set_remove1_eq distinct_remove1)
qed

lemma wake_nobody: "w \<notin> set (waiters f) \<Longrightarrow> futex_wake f w = f"
  by (simp add: futex_wake_def remove1_idem)

lemma pc_inv:
  assumes inv: "parker_inv s" and i: "i < pk_threads s" "i \<notin> set (waiters (tokens s))"
    and m: "waiters (tokens s) \<noteq> [] \<longrightarrow>
      unat (fword (tokens s)) + moving (tokens s) i (pk_pc s i) \<le> total_moving s + moving (tokens s) i q"
  shows "parker_inv (pk_go s i q)"
proof -
  have "total_moving (pk_go s i q) + moving (tokens s) i (pk_pc s i) = total_moving s + moving (tokens s) i q"
    using moving_upd[OF i(1), of "pk_go s i q"] by simp
  with inv i m show ?thesis by (auto simp: parker_inv_def)
qed

lemma uwake_inv:
  assumes inv: "parker_inv s" and i: "i < pk_threads s" "pk_pc s i = UWake"
    and w: "w \<in> set (waiters (tokens s)) \<or> waiters (tokens s) = []"
  shows "parker_inv ((pk_go s i PIdle)\<lparr>tokens := futex_wake (tokens s) w\<rparr>)"
proof (cases "waiters (tokens s) = []")
  case True
  with inv i show ?thesis by (auto simp: parker_inv_def futex_wake_def)
next
  case False
  with w have w: "w \<in> set (waiters (tokens s))" by blast
  let ?s = "s\<lparr>tokens := futex_wake (tokens s) w\<rparr>"
  from inv i(2) have sl: "i \<notin> set (waiters (tokens s))" by (auto simp: parker_inv_def)
  then have ni: "i \<notin> set (waiters (tokens ?s))" by (auto simp: futex_wake_def dest: notin_set_remove1)
  from inv False have le: "unat (fword (tokens s)) \<le> total_moving s" by (simp add: parker_inv_def)
  have "parker_inv (pk_go ?s i PIdle)"
    by (rule pc_inv[OF wake_one(2)[OF inv w]])
      (use i ni le wake_one(1)[OF inv w] in \<open>simp_all add: moving_def futex_wake_def\<close>)
  moreover have "(pk_go s i PIdle)\<lparr>tokens := futex_wake (tokens s) w\<rparr> = pk_go ?s i PIdle" by (cases s) simp
  ultimately show ?thesis by (simp only:)
qed

lemma park_loop_inv:
  assumes inv: "parker_inv s" and i: "i < pk_threads s" and st: "park_loop s i w (pk_pc s i) = Some t"
  shows "parker_inv t"
proof (cases "pk_pc s i")
  case PLoop
  with st consume_inv[OF inv i, of PWait] show ?thesis by auto
next
  case PWait
  with inv have ni: "i \<notin> set (waiters (tokens s))" by (auto simp: parker_inv_def)
  show ?thesis
  proof (cases "fword (tokens s) = 0")
    case True
    with st PWait have t: "t = (pk_go s i PSleep)\<lparr>tokens := (tokens s)\<lparr>waiters := waiters (tokens s) @ [i]\<rparr>\<rparr>"
      by (auto simp: futex_wait_def PARKED_def)
    with True inv i ni PWait show ?thesis by (auto simp: parker_inv_def)
  next
    case False
    with st PWait have "t = pk_go s i PLoop" by (auto simp: futex_wait_def PARKED_def)
    with pc_inv[OF inv i ni, of PLoop] PWait inv show ?thesis by (simp add: moving_def parker_inv_def)
  qed
next
  case PSleep
  with st have t: "i \<notin> set (waiters (tokens s))" "t = pk_go s i PLoop" by (auto split: if_splits)
  with pc_inv[OF inv i, of PLoop] PSleep inv show ?thesis by (simp add: moving_def parker_inv_def)
next
  case UWake
  with st uwake_inv[OF inv i, of w] show ?thesis by (auto split: if_splits)
qed (use st in auto)

lemma parker_inv_step:
  assumes inv: "parker_inv s" and st: "parker_step a s = Some t"
  shows "parker_inv t"
proof (cases a)
  case (CallPark i)
  with st consume_inv[OF inv, of i PLoop] show ?thesis by (auto simp: parker_step_def park_def split: if_splits)
next
  case (CallUnpark i)
  with st unpark_inv[OF inv] show ?thesis by (auto simp: parker_step_def split: if_splits)
next
  case (PkStep i w)
  with st park_loop_inv[OF inv, of i w] show ?thesis by (auto simp: parker_step_def split: if_splits)
next
  case (PkSpurious i)
  with st have t: "t = s\<lparr>tokens := futex_wake (tokens s) i\<rparr>"
    using inv by (auto simp: parker_step_def futex_wake_def futex_unpark_def distinct_remove1_removeAll parker_inv_def split: if_splits)
  show ?thesis
  proof (cases "i \<in> set (waiters (tokens s))")
    case True
    with wake_one(2)[OF inv] t show ?thesis by simp
  qed (use inv t in \<open>simp add: wake_nobody\<close>)
qed

lemma parker_inv_init: "parker_inv (parker_init n)"
  by (simp add: parker_inv_def parker_init_def futex_new_def UNPARKED_def)

interpretation parker: machine parker_step "parker_init n" parker_inv
  for n
  by unfold_locales (auto intro: parker_inv_init parker_inv_step)

section \<open>Properties\<close>

text \<open>
  C33: no token is lost or invented and none is left while everybody sleeps. In every reachable
  state the word counts exactly the tokens added and not yet taken (one is there from the
  start), a parked thread is inside \<open>park\<close> and on the queue once, and while somebody is parked
  there are at least as many threads about to wake a sleeper or about to look for a token as
  there are tokens.
\<close>

theorem parker_no_lost_token:
  assumes "reachable parker_step (parker_init n) s"
  shows "unat (fword (tokens s)) + parks s = 1 + unparks s \<and> distinct (waiters (tokens s)) \<and>
    (\<forall>i. i \<in> set (waiters (tokens s)) \<longrightarrow> i < pk_threads s \<and> pk_pc s i = PSleep) \<and>
    (waiters (tokens s) \<noteq> [] \<longrightarrow> unat (fword (tokens s)) \<le> total_moving s)"
  using parker.always[OF assms] by (simp add: parker_inv_def)

theorem parker_no_lost_token_witness:
  "\<exists>s. reachable parker_step (parker_init 3) s \<and> waiters (tokens s) = [0] \<and> unparks s = 1 \<and>
     unat (fword (tokens s)) = 1 \<and> 1 \<le> total_moving s"
proof -
  have "run_to parker_step [CallPark 0, CallPark 0, PkStep 0 0, PkStep 0 0, CallUnpark 1] (parker_init 3)
      (\<lambda>s. waiters (tokens s) = [0] \<and> unparks s = 1 \<and> parks s = 1)" by code_simp
  then obtain s where s: "reachable parker_step (parker_init 3) s" "waiters (tokens s) = [0]" "unparks s = 1" "parks s = 1"
    by (auto dest: run_toD)
  with parker_no_lost_token[OF s(1)] show ?thesis by (intro exI[of _ s]) simp
qed

text \<open>
  A lone waiter gets its token. When nobody else is inside \<open>unpark\<close> or \<open>park\<close>, a parked
  thread whose wake has been delivered returns from \<open>park\<close> within two of its own steps if a
  token is there, and an unpark on a full counter is refused without touching it.
\<close>

theorem parker_unpark_wakes:
  assumes "i < pk_threads s" "j < pk_threads s" "pk_pc s i = PSleep" "pk_pc s j = PIdle" "i \<noteq> j"
    "waiters (tokens s) = [i]"
  shows "if fword (tokens s) = - 1 then unpark s j = pk_go s j POverflow
    else (\<exists>t. run parker_step [CallUnpark j, PkStep j i, PkStep i 0, PkStep i 0] s = Some t \<and>
      pk_pc t i = PIdle \<and> pk_pc t j = PIdle \<and> parks t = parks s + 1 \<and> waiters (tokens t) = [] \<and>
      fword (tokens t) = fword (tokens s))"
proof (cases "fword (tokens s) = - 1")
  case True
  then show ?thesis by (simp add: unpark_def add_token_def checked_add_code)
next
  case False
  then have nz: "1 + fword (tokens s) \<noteq> 0" by (metis add_eq_0_iff)
  with unatSuc[OF nz] have "checked_add (fword (tokens s)) 1 = Some (fword (tokens s) + 1)"
    using unsigned_less[of "1 + fword (tokens s)", where ?'a = nat] by (simp add: checked_add_def)
  moreover from nz have "fword (tokens s) + 1 \<noteq> 0" by (simp add: add.commute)
  ultimately show ?thesis
    using False assms
    by (simp add: parker_step_def unpark_def add_token_def futex_wake_def consume_def
        try_consume_token_def PARKED_def word_gt_0)
qed

theorem parker_unpark_wakes_witness:
  "\<exists>s t. reachable parker_step (parker_init 2) s \<and> waiters (tokens s) = [0] \<and>
     run parker_step [CallUnpark 1, PkStep 1 0, PkStep 0 0, PkStep 0 0] s = Some t \<and> pk_pc t 0 = PIdle \<and> parks t = 2"
proof -
  have "run_to parker_step [CallPark 0, CallPark 0, PkStep 0 0, PkStep 0 0] (parker_init 2)
      (\<lambda>s. waiters (tokens s) = [0] \<and> parks s = 1 \<and> fword (tokens s) = 0 \<and> pk_threads s = 2 \<and> pk_pc s 0 = PSleep \<and> pk_pc s 1 = PIdle)" by code_simp
  then obtain s where s: "reachable parker_step (parker_init 2) s" "waiters (tokens s) = [0]" "parks s = 1"
    "fword (tokens s) = 0" "pk_threads s = 2" "pk_pc s 0 = PSleep" "pk_pc s 1 = PIdle"
    by (auto dest: run_toD)
  with parker_unpark_wakes[of 0 s 1] obtain t where
    "run parker_step [CallUnpark 1, PkStep 1 0, PkStep 0 0, PkStep 0 0] s = Some t" "pk_pc t 0 = PIdle" "parks t = 2"
    by (auto split: if_splits)
  with s show ?thesis by blast
qed

end
