(* ===== verification/Coord.thy ===== *)
theory Coord
  imports Prelude
begin

text \<open>
  \<open>Coord\<close> of \<open>src/core/coord.rs\<close>: shared pins counted in per-thread lanes, and an exclusive side
  that raises a flag and then waits until every lane is empty. One step per atomic access;
  an owned lane is decremented by a load and a store, the shared overflow lane by one
  read-modify-write. The lock \<open>writers\<close> is a \<open>SerialMutex\<close>, of which only the write side is used:
  one holder at a time, and a conflicting call of its holder panics. A thread has at most one guard of
  a \<open>Coord\<close>, as in all uses in the crate, but the callbacks that the containers run under \<open>Exclusive\<close>
  may call \<open>shared\<close>, \<open>exclusive\<close> and \<open>try_exclusive\<close> again: \<open>Nested p\<close> is a thread inside such a call. A panic there
  is caught in the callback or unwinds through the \<open>Exclusive\<close> guard, which is dropped. Counters are bounded by the number of threads and kept as natural numbers.
\<close>

definition LANES :: nat where
  "LANES = 64"

datatype cpc =
    CIdle
  | CReg nat | CInc nat | CCheck nat | CUndo nat | CUndoStore nat nat | CAssert nat | CSpin nat
  | CHold nat | CDropStore nat nat
  | XFlag bool | XScan bool nat | XHold | XFail | XUnlock | CPanic
  | Nested cpc

record coord_sys =
  readers :: "nat \<Rightarrow> nat"
  owners :: "nat \<Rightarrow> nat"
  writing :: bool
  writers :: "tid option"
  last_lane :: "tid \<Rightarrow> nat option"     \<comment> \<open>the thread-local \<open>LAST\<close>, when it is about this \<open>Coord\<close>\<close>
  co_threads :: nat
  co_pc :: "tid \<Rightarrow> cpc"

datatype co_act = CallShared tid | CallExclusive tid | CallTryExclusive tid | DropShared tid | DropExclusive tid | CoStep tid

text \<open>Thread identifiers start at 1.\<close>

definition thread_ident :: "tid \<Rightarrow> nat" where
  "thread_ident i = i + 1"

definition coord_new :: "nat \<Rightarrow> coord_sys" where
  "coord_new n = \<lparr>readers = (\<lambda>_. 0), owners = (\<lambda>_. 0), writing = False, writers = None,
     last_lane = (\<lambda>_. None), co_threads = n, co_pc = (\<lambda>_. CIdle)\<rparr>"

abbreviation (input) co_go :: "coord_sys \<Rightarrow> tid \<Rightarrow> cpc \<Rightarrow> coord_sys" where
  "co_go s i p \<equiv> s\<lparr>co_pc := (co_pc s)(i := p)\<rparr>"

definition set_reader :: "coord_sys \<Rightarrow> nat \<Rightarrow> nat \<Rightarrow> coord_sys" where
  "set_reader s l c = s\<lparr>readers := (readers s)(l := c)\<rparr>"

definition shared_enter :: "coord_sys \<Rightarrow> tid \<Rightarrow> cpc" where
  "shared_enter s i = (case last_lane s i of Some l \<Rightarrow> CInc l | None \<Rightarrow> CReg 0)"

definition got_lane :: "coord_sys \<Rightarrow> tid \<Rightarrow> nat \<Rightarrow> coord_sys" where
  "got_lane s i l = (co_go s i (CInc l))\<lparr>last_lane := (last_lane s)(i := Some l)\<rparr>"

definition register :: "coord_sys \<Rightarrow> tid \<Rightarrow> nat \<Rightarrow> coord_sys" where
  "register s i offset =
     (if offset < LANES then
        let l = (thread_ident i + offset) mod LANES in
        if owners s l = 0 then (got_lane s i l)\<lparr>owners := (owners s)(l := thread_ident i)\<rparr>
        else if owners s l = thread_ident i then got_lane s i l
        else co_go s i (CReg (offset + 1))
      else got_lane s i LANES)"

text \<open>Giving a pin back: owned lanes by load and store, the overflow lane in one step.\<close>

definition shared_drop :: "coord_sys \<Rightarrow> tid \<Rightarrow> nat \<Rightarrow> (nat \<Rightarrow> cpc) \<Rightarrow> cpc \<Rightarrow> coord_sys" where
  "shared_drop s i l store after =
     (if l < LANES then co_go s i (store (readers s l))
      else set_reader (co_go s i after) l (readers s l - 1))"

fun shared_step :: "coord_sys \<Rightarrow> tid \<Rightarrow> cpc \<Rightarrow> coord_sys option" where
  "shared_step s i (CReg k) = Some (register s i k)"
| "shared_step s i (CInc l) = Some (set_reader (co_go s i (CCheck l)) l (readers s l + 1))"
| "shared_step s i (CCheck l) = Some (co_go s i (if writing s then CUndo l else CHold l))"
| "shared_step s i (CUndo l) = Some (shared_drop s i l (CUndoStore l) (CAssert l))"
| "shared_step s i (CUndoStore l c) = Some (set_reader (co_go s i (CAssert l)) l (c - 1))"
| "shared_step s i (CAssert l) = Some (co_go s i (if writers s = Some i then CPanic else CSpin l))"
| "shared_step s i (CSpin l) = Some (if writing s then s else co_go s i (CInc l))"
| "shared_step s i (CDropStore l c) = Some (set_reader (co_go s i CIdle) l (c - 1))"
| "shared_step s i (Nested p) = map_option (\<lambda>t. co_go t i (Nested (co_pc t i))) (shared_step s i p)"
| "shared_step s i _ = None"

fun exclusive_step :: "coord_sys \<Rightarrow> tid \<Rightarrow> cpc \<Rightarrow> coord_sys option" where
  "exclusive_step s i (XFlag t) = Some ((co_go s i (XScan t 0))\<lparr>writing := True\<rparr>)"
| "exclusive_step s i (XScan t k) =
     (if k \<le> LANES then
        if readers s k = 0 then Some (co_go s i (XScan t (k + 1)))
        else if t then Some (co_go s i XFail) else Some s
      else Some (co_go s i XHold))"
| "exclusive_step s i XFail = Some ((co_go s i XUnlock)\<lparr>writing := False\<rparr>)"
| "exclusive_step s i XUnlock = Some ((co_go s i CIdle)\<lparr>writers := None\<rparr>)"
| "exclusive_step s i (Nested CPanic) = Some (co_go s i XHold)"
| "exclusive_step s i _ = None"

definition coord_step :: "co_act \<Rightarrow> coord_sys \<Rightarrow> coord_sys option" where
  "coord_step a s =
     (let idle = (\<lambda>i. i < co_threads s \<and> co_pc s i = CIdle); callback = (\<lambda>i. i < co_threads s \<and> co_pc s i = XHold) in
      case a of
        CallShared i \<Rightarrow>
          if idle i then Some (co_go s i (shared_enter s i))
          else if callback i then Some (co_go s i (Nested (shared_enter s i)))
          else None
      | CallExclusive i \<Rightarrow>
          if idle i \<and> writers s = None then Some ((co_go s i (XFlag False))\<lparr>writers := Some i\<rparr>)
          else if callback i then Some (co_go s i (Nested CPanic))
          else None
      | CallTryExclusive i \<Rightarrow>
          if idle i \<or> callback i then
            (if writers s = None then Some ((co_go s i (XFlag True))\<lparr>writers := Some i\<rparr>) else Some s)
          else None
      | DropShared i \<Rightarrow>
          if i < co_threads s then
            (case co_pc s i of CHold l \<Rightarrow> Some (shared_drop s i l (CDropStore l) CIdle) | _ \<Rightarrow> None) else None
      | DropExclusive i \<Rightarrow>
          if i < co_threads s \<and> (co_pc s i = XHold \<or> co_pc s i = Nested CPanic) then Some ((co_go s i XUnlock)\<lparr>writing := False\<rparr>) else None
      | CoStep i \<Rightarrow>
          if i < co_threads s then
            (case shared_step s i (co_pc s i) of Some t \<Rightarrow> Some t | None \<Rightarrow> exclusive_step s i (co_pc s i))
          else None)"

section \<open>The invariant\<close>

text \<open>The lane a thread is counted in, and the lane it works on.\<close>

fun pinned :: "cpc \<Rightarrow> nat option" where
  "pinned (CCheck l) = Some l"
| "pinned (CUndo l) = Some l"
| "pinned (CUndoStore l c) = Some l"
| "pinned (CHold l) = Some l"
| "pinned (CDropStore l c) = Some l"
| "pinned (Nested p) = pinned p"
| "pinned _ = None"

fun lane_of :: "cpc \<Rightarrow> nat option" where
  "lane_of (CInc l) = Some l"
| "lane_of (CAssert l) = Some l"
| "lane_of (CSpin l) = Some l"
| "lane_of (Nested p) = lane_of p"
| "lane_of p = pinned p"

definition pin_count :: "coord_sys \<Rightarrow> nat \<Rightarrow> nat" where
  "pin_count s l = (\<Sum>i<co_threads s. if pinned (co_pc s i) = Some l then 1 else 0)"

fun exclusive_pc :: "cpc \<Rightarrow> bool" where
  "exclusive_pc (XFlag t) = True"
| "exclusive_pc (XScan t k) = True"
| "exclusive_pc XHold = True"
| "exclusive_pc XFail = True"
| "exclusive_pc XUnlock = True"
| "exclusive_pc (Nested p) = True"
| "exclusive_pc _ = False"

text \<open>How many lanes a writer has found empty, and whether its flag is up.\<close>

fun scanned :: "cpc \<Rightarrow> nat" where
  "scanned (XScan t k) = k"
| "scanned XHold = LANES + 1"
| "scanned (Nested p) = LANES + 1"
| "scanned _ = 0"

fun flag_up :: "cpc \<Rightarrow> bool" where
  "flag_up (XScan t k) = True"
| "flag_up XHold = True"
| "flag_up XFail = True"
| "flag_up (Nested p) = True"
| "flag_up _ = False"

fun nested_ok :: "cpc \<Rightarrow> bool" where
  "nested_ok (CReg k) = True"
| "nested_ok (CInc l) = True"
| "nested_ok (CCheck l) = True"
| "nested_ok (CUndo l) = True"
| "nested_ok (CUndoStore l c) = True"
| "nested_ok (CAssert l) = True"
| "nested_ok CPanic = True"
| "nested_ok p = False"

fun saved_ok :: "coord_sys \<Rightarrow> cpc \<Rightarrow> bool" where
  "saved_ok s (CUndoStore l c) = (c = readers s l \<and> l < LANES)"
| "saved_ok s (CDropStore l c) = (c = readers s l \<and> l < LANES)"
| "saved_ok s (XScan t k) = (k \<le> LANES + 1)"
| "saved_ok s CPanic = False"
| "saved_ok s (Nested p) = (nested_ok p \<and> (p = CPanic \<or> saved_ok s p))"
| "saved_ok s _ = True"

definition coord_inv :: "coord_sys \<Rightarrow> bool" where
  "coord_inv s \<longleftrightarrow>
     (\<forall>l. readers s l = pin_count s l) \<and>
     (\<forall>i<co_threads s. saved_ok s (co_pc s i)) \<and>
     (\<forall>i<co_threads s. \<forall>l. lane_of (co_pc s i) = Some l \<longrightarrow> last_lane s i = Some l) \<and>
     (\<forall>i l. last_lane s i = Some l \<longrightarrow> l \<le> LANES \<and> (l < LANES \<longrightarrow> owners s l = thread_ident i)) \<and>
     (\<forall>i<co_threads s. exclusive_pc (co_pc s i) \<longleftrightarrow> writers s = Some i) \<and>
     (writing s \<longleftrightarrow> (\<exists>i<co_threads s. flag_up (co_pc s i))) \<and>
     (\<forall>i<co_threads s. \<forall>j<co_threads s. \<forall>l. co_pc s i = CHold l \<longrightarrow> scanned (co_pc s j) \<le> l)"

lemma thread_ident_inj [simp]: "thread_ident i = thread_ident j \<longleftrightarrow> i = j" "thread_ident i \<noteq> 0"
  by (simp_all add: thread_ident_def)

lemma pc_fields:
  "pinned p = Some l \<Longrightarrow> lane_of p = Some l" "flag_up p \<Longrightarrow> exclusive_pc p" "0 < scanned p \<Longrightarrow> flag_up p"
  by (induction p) simp_all

text \<open>Which fields a saved value depends on.\<close>

lemma saved_ok_frame:
  "saved_ok s p \<Longrightarrow> (\<And>k. lane_of p = Some k \<Longrightarrow> k < LANES \<Longrightarrow> readers t k = readers s k) \<Longrightarrow> saved_ok t p"
  by (induction p) auto

lemma pin_count_upd:
  assumes "i < co_threads s" "co_threads t = co_threads s" "co_pc t = (co_pc s)(i := q)"
  shows "pin_count t l + (if pinned (co_pc s i) = Some l then 1 else 0) = pin_count s l + (if pinned q = Some l then 1 else 0)"
  unfolding pin_count_def assms(2,3)
  using sum_if_upd[OF assms(1), of "\<lambda>j. if pinned (((co_pc s)(i := q)) j) = Some l then 1 else 0"
      "\<lambda>j. if pinned (co_pc s j) = Some l then 1 else 0"] by simp

lemma pin_member: "i < co_threads s \<Longrightarrow> pinned (co_pc s i) = Some l \<Longrightarrow> 0 < pin_count s l"
  unfolding pin_count_def using member_le_sum_lt[of i "co_threads s" "\<lambda>j. if pinned (co_pc s j) = Some l then 1 else 0"] by simp

lemma inv_readers: "coord_inv s \<Longrightarrow> readers s l = pin_count s l"
  and inv_saved: "coord_inv s \<Longrightarrow> i < co_threads s \<Longrightarrow> saved_ok s (co_pc s i)"
  and inv_lane: "coord_inv s \<Longrightarrow> i < co_threads s \<Longrightarrow> lane_of (co_pc s i) = Some l \<Longrightarrow> last_lane s i = Some l"
  and inv_owner: "coord_inv s \<Longrightarrow> last_lane s i = Some l \<Longrightarrow> l \<le> LANES \<and> (l < LANES \<longrightarrow> owners s l = thread_ident i)"
  and inv_writer: "coord_inv s \<Longrightarrow> i < co_threads s \<Longrightarrow> exclusive_pc (co_pc s i) \<longleftrightarrow> writers s = Some i"
  and inv_writing: "coord_inv s \<Longrightarrow> writing s \<longleftrightarrow> (\<exists>i<co_threads s. flag_up (co_pc s i))"
  and inv_hold: "coord_inv s \<Longrightarrow> i < co_threads s \<Longrightarrow> j < co_threads s \<Longrightarrow> co_pc s i = CHold l \<Longrightarrow> scanned (co_pc s j) \<le> l"
  by (simp_all add: coord_inv_def)

lemma coord_move:
  assumes inv: "coord_inv s" and i: "i < co_threads s"
    and t: "co_threads t = co_threads s" "co_pc t = (co_pc s)(i := q)"
    and r: "\<And>l. readers t l + (if pinned (co_pc s i) = Some l then 1 else 0) = readers s l + (if pinned q = Some l then 1 else 0)"
    and sv: "saved_ok t q" "\<And>j. j < co_threads s \<Longrightarrow> j \<noteq> i \<Longrightarrow> saved_ok s (co_pc s j) \<Longrightarrow> saved_ok t (co_pc s j)"
    and ll: "\<And>j. j \<noteq> i \<Longrightarrow> last_lane t j = last_lane s j" "\<And>l. lane_of q = Some l \<Longrightarrow> last_lane t i = Some l"
    and ow: "\<And>j l. last_lane t j = Some l \<Longrightarrow> l \<le> LANES \<and> (l < LANES \<longrightarrow> owners t l = thread_ident j)"
    and wr: "exclusive_pc q \<longleftrightarrow> writers t = Some i" "\<And>j. j \<noteq> i \<Longrightarrow> writers t = Some j \<longleftrightarrow> writers s = Some j"
    and fl: "writing t \<longleftrightarrow> (\<exists>j<co_threads s. j \<noteq> i \<and> flag_up (co_pc s j)) \<or> flag_up q"
    and h: "\<And>l j. q = CHold l \<Longrightarrow> j < co_threads s \<Longrightarrow> scanned (co_pc s j) = 0"
      "\<And>j l. j < co_threads s \<Longrightarrow> j \<noteq> i \<Longrightarrow> co_pc s j = CHold l \<Longrightarrow> scanned q \<le> l"
  shows "coord_inv t"
  unfolding coord_inv_def
proof (intro conjI allI impI)
  fix l show "readers t l = pin_count t l" using r[of l] pin_count_upd[OF i t, of l] inv_readers[OF inv, of l] by simp
next
  fix j assume "j < co_threads t"
  then show "saved_ok t (co_pc t j)" using sv inv_saved[OF inv, of j] t by (cases "j = i") auto
next
  fix j l assume "j < co_threads t" "lane_of (co_pc t j) = Some l"
  then show "last_lane t j = Some l" using ll inv_lane[OF inv, of j l] t by (cases "j = i") auto
next
  fix j l assume "last_lane t j = Some l" then show "l \<le> LANES" using ow by blast
next
  fix j l assume "last_lane t j = Some l" "l < LANES" then show "owners t l = thread_ident j" using ow by blast
next
  fix j assume "j < co_threads t"
  then show "exclusive_pc (co_pc t j) = (writers t = Some j)" using wr inv_writer[OF inv, of j] t by (cases "j = i") auto
next
  show "writing t = (\<exists>j<co_threads t. flag_up (co_pc t j))" unfolding fl t using i by auto
next
  fix j k l assume "j < co_threads t" "k < co_threads t" "co_pc t j = CHold l"
  then show "scanned (co_pc t k) \<le> l" using h inv_hold[OF inv, of j k l] t by (cases "j = i"; cases "k = i") auto
qed

lemma flag_others:
  assumes inv: "coord_inv s" and i: "i < co_threads s"
  shows "writing s \<longleftrightarrow> (\<exists>j<co_threads s. j \<noteq> i \<and> flag_up (co_pc s j)) \<or> flag_up (co_pc s i)"
  using inv_writing[OF inv] i by metis

text \<open>A step that changes only the program counter.\<close>

lemma pc_move:
  assumes inv: "coord_inv s" and i: "i < co_threads s"
    and q: "pinned q = pinned (co_pc s i)" "saved_ok s q" "\<And>l. lane_of q = Some l \<Longrightarrow> last_lane s i = Some l"
      "exclusive_pc q = exclusive_pc (co_pc s i)" "flag_up q = flag_up (co_pc s i)"
    and h: "\<And>l j. q = CHold l \<Longrightarrow> j < co_threads s \<Longrightarrow> scanned (co_pc s j) = 0"
      "\<And>j l. j < co_threads s \<Longrightarrow> j \<noteq> i \<Longrightarrow> co_pc s j = CHold l \<Longrightarrow> scanned q \<le> l"
  shows "coord_inv (co_go s i q)"
proof (rule coord_move[OF inv i, where q = q])
  have "saved_ok s p \<Longrightarrow> saved_ok (co_go s i q) p" for p by (erule saved_ok_frame) simp
  then show "saved_ok (co_go s i q) q" "\<And>j. j < co_threads s \<Longrightarrow> j \<noteq> i \<Longrightarrow> saved_ok s (co_pc s j) \<Longrightarrow> saved_ok (co_go s i q) (co_pc s j)"
    using q(2) by simp_all
  show "exclusive_pc q \<longleftrightarrow> writers (co_go s i q) = Some i" using q(4) inv_writer[OF inv i] by simp
  show "writing (co_go s i q) \<longleftrightarrow> (\<exists>j<co_threads s. j \<noteq> i \<and> flag_up (co_pc s j)) \<or> flag_up q"
    using flag_others[OF inv i] q(5) by simp
  show "\<And>j l. last_lane (co_go s i q) j = Some l \<Longrightarrow> l \<le> LANES \<and> (l < LANES \<longrightarrow> owners (co_go s i q) l = thread_ident j)"
    using inv_owner[OF inv] by simp
qed (use q h in auto)

text \<open>A step that counts a thread in or out of its lane and leaves it on its side.\<close>

definition same_side :: "cpc \<Rightarrow> cpc \<Rightarrow> bool" where
  "same_side p q \<longleftrightarrow> exclusive_pc q = exclusive_pc p \<and> flag_up q = flag_up p \<and> scanned q \<le> scanned p \<and> (\<forall>l. q \<noteq> CHold l)"

lemma same_side_scan:
  assumes "coord_inv s" "i < co_threads s" "same_side (co_pc s i) q" "j < co_threads s" "co_pc s j = CHold l"
  shows "scanned q \<le> l"
  using inv_hold[OF assms(1,4,2,5)] assms(3) by (simp add: same_side_def)

lemma reader_move:
  assumes inv: "coord_inv s" and i: "i < co_threads s" and l: "last_lane s i = Some l"
    and c: "c + (if pinned (co_pc s i) = Some l then 1 else 0) = readers s l + (if pinned q = Some l then 1 else 0)"
    and p: "pinned (co_pc s i) \<in> {None, Some l}" "pinned q \<in> {None, Some l}" "\<And>k. lane_of q = Some k \<Longrightarrow> k = l"
    and q: "saved_ok (set_reader (co_go s i q) l c) q" "same_side (co_pc s i) q"
  shows "coord_inv (set_reader (co_go s i q) l c)"
proof (rule coord_move[OF inv i, where q = q])
  let ?t = "set_reader (co_go s i q) l c"
  show "readers ?t k + (if pinned (co_pc s i) = Some k then 1 else 0) = readers s k + (if pinned q = Some k then 1 else 0)" for k
    using c p(1,2) by (cases "k = l") (auto simp: set_reader_def)
  show "saved_ok ?t (co_pc s j)" if j: "j < co_threads s" "j \<noteq> i" "saved_ok s (co_pc s j)" for j
  proof (rule saved_ok_frame[OF j(3)])
    fix k assume k: "lane_of (co_pc s j) = Some k" "k < LANES"
    have "k \<noteq> l" using inv_owner[OF inv inv_lane[OF inv j(1) k(1)]] inv_owner[OF inv l] j(2) k(2) by auto
    then show "readers ?t k = readers s k" by (simp add: set_reader_def)
  qed
  show "exclusive_pc q \<longleftrightarrow> writers ?t = Some i" using q(2) inv_writer[OF inv i] by (simp add: set_reader_def same_side_def)
  show "writing ?t \<longleftrightarrow> (\<exists>j<co_threads s. j \<noteq> i \<and> flag_up (co_pc s j)) \<or> flag_up q"
    using flag_others[OF inv i] q(2) by (auto simp: set_reader_def same_side_def)
  show "\<And>j k. last_lane ?t j = Some k \<Longrightarrow> k \<le> LANES \<and> (k < LANES \<longrightarrow> owners ?t k = thread_ident j)"
    using inv_owner[OF inv] by (simp add: set_reader_def)
  show "\<And>j k. j < co_threads s \<Longrightarrow> j \<noteq> i \<Longrightarrow> co_pc s j = CHold k \<Longrightarrow> scanned q \<le> k"
    using same_side_scan[OF inv i q(2)] by blast
qed (use l p(3) q in \<open>auto simp: set_reader_def same_side_def\<close>)

text \<open>A call of \<open>shared\<close> at the outermost level and one from a callback take the same steps.\<close>

definition level :: "(cpc \<Rightarrow> cpc) \<Rightarrow> bool" where
  "level W \<longleftrightarrow> W = (\<lambda>p. p) \<or> W = Nested"

lemma level_simps [simp]:
  assumes "level W"
  shows "pinned (W p) = pinned p" "lane_of (W p) = lane_of p"
  using assms by (auto simp: level_def)

fun in_shared :: "cpc \<Rightarrow> bool" where
  "in_shared (CReg k) = True"
| "in_shared (CInc l) = True"
| "in_shared (CCheck l) = True"
| "in_shared (CUndo l) = True"
| "in_shared (CUndoStore l c) = True"
| "in_shared (CAssert l) = True"
| "in_shared _ = False"

lemma level_side: "level W \<Longrightarrow> in_shared p \<Longrightarrow> in_shared q \<Longrightarrow> same_side (W p) (W q)"
  by (cases p; cases q) (auto simp: level_def same_side_def)

lemma level_saved: "level W \<Longrightarrow> in_shared p \<Longrightarrow> saved_ok s (W p) = saved_ok s p"
  by (cases p) (auto simp: level_def)

lemma set_reader_go: "(set_reader (s\<lparr>co_pc := f\<rparr>) l c)\<lparr>co_pc := g\<rparr> = set_reader (s\<lparr>co_pc := g\<rparr>) l c"
  by (cases s) (simp add: set_reader_def)

lemma set_reader_pc: "co_pc (set_reader s l c) = co_pc s"
  by (simp add: set_reader_def)

lemma drop_move:
  assumes inv: "coord_inv s" and i: "i < co_threads s" and l: "pinned (co_pc s i) = Some l"
    and a: "pinned after = None" "\<And>k. lane_of after = Some k \<Longrightarrow> k = l" "\<And>t. saved_ok t after" "same_side (co_pc s i) after"
    and st: "pinned (store (readers s l)) = Some l" "lane_of (store (readers s l)) = Some l"
      "l < LANES \<Longrightarrow> saved_ok s (store (readers s l))" "same_side (co_pc s i) (store (readers s l))"
  shows "coord_inv (shared_drop s i l store after)"
proof -
  have ll: "last_lane s i = Some l" by (rule inv_lane[OF inv i pc_fields(1)[OF l]])
  show ?thesis
  proof (cases "l < LANES")
    case True
    have "coord_inv (co_go s i (store (readers s l)))"
      by (rule pc_move[OF inv i]) (use st l ll True same_side_scan[OF inv i st(4)] in \<open>auto simp: same_side_def\<close>)
    with True show ?thesis by (simp add: shared_drop_def)
  next
    case False
    have "0 < readers s l" using inv_readers[OF inv] pin_member[OF i l] by simp
    then have "coord_inv (set_reader (co_go s i after) l (readers s l - 1))"
      by (intro reader_move[OF inv i ll]) (use a l in auto)
    with False show ?thesis by (simp add: shared_drop_def)
  qed
qed

lemma store_move:
  assumes inv: "coord_inv s" and i: "i < co_threads s" and l: "pinned (co_pc s i) = Some l" and c: "c = readers s l"
    and a: "pinned after = None" "\<And>k. lane_of after = Some k \<Longrightarrow> k = l" "\<And>t. saved_ok t after" "same_side (co_pc s i) after"
  shows "coord_inv (set_reader (co_go s i after) l (c - 1))"
proof -
  have ll: "last_lane s i = Some l" by (rule inv_lane[OF inv i pc_fields(1)[OF l]])
  moreover have "0 < readers s l" using inv_readers[OF inv] pin_member[OF i l] by simp
  ultimately show ?thesis by (intro reader_move[OF inv i]) (use a l c in auto)
qed

lemma got_lane_move:
  assumes inv: "coord_inv s" and i: "i < co_threads s" and W: "level W" and p: "co_pc s i = W (CReg k)"
    and l: "l \<le> LANES" "l < LANES \<Longrightarrow> ow l = thread_ident i"
    and o: "\<And>j m. j \<noteq> i \<Longrightarrow> last_lane s j = Some m \<Longrightarrow> m < LANES \<Longrightarrow> ow m = thread_ident j"
  shows "coord_inv (co_go ((got_lane s i l)\<lparr>owners := ow\<rparr>) i (W (CInc l)))"
proof (rule coord_move[OF inv i, where q = "W (CInc l)"])
  let ?t = "co_go ((got_lane s i l)\<lparr>owners := ow\<rparr>) i (W (CInc l))"
  have sd: "same_side (co_pc s i) (W (CInc l))" using level_side[OF W] p by simp
  show "saved_ok s (co_pc s j) \<Longrightarrow> saved_ok ?t (co_pc s j)" for j by (erule saved_ok_frame) (simp add: got_lane_def)
  show "saved_ok ?t (W (CInc l))" using W by (auto simp: level_def)
  show "m \<le> LANES \<and> (m < LANES \<longrightarrow> owners ?t m = thread_ident j)" if "last_lane ?t j = Some m" for j m
    using that l o inv_owner[OF inv, of j m] by (cases "j = i") (auto simp: got_lane_def)
  show "exclusive_pc (W (CInc l)) \<longleftrightarrow> writers ?t = Some i" using inv_writer[OF inv i] sd by (simp add: got_lane_def same_side_def)
  show "writing ?t \<longleftrightarrow> (\<exists>j<co_threads s. j \<noteq> i \<and> flag_up (co_pc s j)) \<or> flag_up (W (CInc l))"
    using flag_others[OF inv i] sd by (simp add: got_lane_def same_side_def)
  show "\<And>j k. j < co_threads s \<Longrightarrow> j \<noteq> i \<Longrightarrow> co_pc s j = CHold k \<Longrightarrow> scanned (W (CInc l)) \<le> k"
    using same_side_scan[OF inv i sd] by blast
  show "\<And>m j. W (CInc l) = CHold m \<Longrightarrow> j < co_threads s \<Longrightarrow> scanned (co_pc s j) = 0" using sd by (simp add: same_side_def)
qed (use p W in \<open>auto simp: got_lane_def\<close>)

lemma register_inv:
  assumes inv: "coord_inv s" and i: "i < co_threads s" and W: "level W" and p: "co_pc s i = W (CReg k)"
  shows "coord_inv (co_go (register s i k) i (W (co_pc (register s i k) i)))"
proof -
  let ?l = "(thread_ident i + k) mod LANES"
  have l: "?l < LANES" by (simp add: LANES_def)
  have own: "owners s m = thread_ident j" if "last_lane s j = Some m" "m < LANES" for j m using inv_owner[OF inv that(1)] that(2) by simp
  have same: "(got_lane s i m)\<lparr>owners := owners s\<rparr> = got_lane s i m" for m by (simp add: got_lane_def)
  have sd: "same_side (co_pc s i) (W (CReg (k + 1)))" using level_side[OF W] p by simp
  have "coord_inv (co_go s i (W (CReg (k + 1))))"
    by (rule pc_move[OF inv i]) (use p W sd same_side_scan[OF inv i sd] level_saved[OF W] in \<open>auto simp: same_side_def\<close>)
  moreover have "coord_inv (co_go (got_lane s i LANES) i (W (CInc LANES)))"
    using got_lane_move[OF inv i W p, of LANES "owners s"] own by (simp add: same)
  moreover have "coord_inv (co_go (got_lane s i ?l) i (W (CInc ?l)))" if "owners s ?l = thread_ident i"
    using got_lane_move[OF inv i W p, of ?l "owners s"] own that l by (simp add: same)
  moreover have "coord_inv (co_go ((got_lane s i ?l)\<lparr>owners := (owners s)(?l := thread_ident i)\<rparr>) i (W (CInc ?l)))" if z: "owners s ?l = 0"
    by (rule got_lane_move[OF inv i W p]) (use l own z in \<open>auto simp: fun_upd_apply\<close>)
  ultimately show ?thesis by (auto simp: register_def Let_def got_lane_def)
qed

text \<open>The steps of \<open>shared\<close> up to the assertion, at either level.\<close>

lemma in_shared_inv:
  assumes inv: "coord_inv s" and i: "i < co_threads s" and W: "level W" and p: "co_pc s i = W p" "in_shared p"
    and st: "shared_step s i p = Some t"
  shows "coord_inv (co_go t i (W (co_pc t i)))"
proof (cases p)
  case (CReg k)
  with st register_inv[OF inv i W, of k] p show ?thesis by simp
next
  case (CInc l)
  have ll: "last_lane s i = Some l" using inv_lane[OF inv i] CInc p W by simp
  have "coord_inv (set_reader (co_go s i (W (CCheck l))) l (readers s l + 1))"
    by (rule reader_move[OF inv i ll]) (use CInc p W level_side[OF W] level_saved[OF W] in auto)
  with st CInc show ?thesis by (auto simp: set_reader_go set_reader_pc)
next
  case (CCheck l)
  have ll: "last_lane s i = Some l" using inv_lane[OF inv i] CCheck p W by simp
  show ?thesis
  proof (cases "writing s")
    case True
    have sd: "same_side (co_pc s i) (W (CUndo l))" using level_side[OF W] p CCheck by simp
    have "coord_inv (co_go s i (W (CUndo l)))"
      by (rule pc_move[OF inv i]) (use CCheck p W ll sd same_side_scan[OF inv i sd] level_saved[OF W] in \<open>auto simp: same_side_def\<close>)
    with st CCheck True show ?thesis by auto
  next
    case False
    have z: "scanned (co_pc s j) = 0" if "j < co_threads s" for j
      using False inv_writing[OF inv] pc_fields(3)[of "co_pc s j"] that by (cases "scanned (co_pc s j)") auto
    have w: "W = (\<lambda>p. p)" using z[OF i] W p(1) by (auto simp: level_def)
    have "coord_inv (co_go s i (CHold l))" by (rule pc_move[OF inv i]) (use z CCheck p w ll in auto)
    with st CCheck False w show ?thesis by auto
  qed
next
  case (CUndo l)
  have "coord_inv (shared_drop s i l (\<lambda>c. W (CUndoStore l c)) (W (CAssert l)))"
    by (rule drop_move[OF inv i]) (use CUndo p W level_side[OF W] level_saved[OF W] in auto)
  with st CUndo show ?thesis by (auto simp: shared_drop_def set_reader_go set_reader_pc split: if_splits)
next
  case (CUndoStore l c)
  have "c = readers s l" using inv_saved[OF inv i] level_saved[OF W] CUndoStore p by simp
  then have "coord_inv (set_reader (co_go s i (W (CAssert l))) l (c - 1))"
    by (intro store_move[OF inv i]) (use CUndoStore p W level_side[OF W] level_saved[OF W] in auto)
  with st CUndoStore show ?thesis by (auto simp: set_reader_go set_reader_pc)
next
  case (CAssert l)
  have ll: "last_lane s i = Some l" using inv_lane[OF inv i] CAssert p W by simp
  consider "W = (\<lambda>p. p)" | "W = Nested" using W by (auto simp: level_def)
  then show ?thesis
  proof cases
    case 1
    then have "writers s \<noteq> Some i" using inv_writer[OF inv i] CAssert p by simp
    moreover have "coord_inv (co_go s i (CSpin l))" by (rule pc_move[OF inv i]) (use CAssert p ll 1 in auto)
    ultimately show ?thesis using st CAssert 1 by auto
  next
    case 2
    then have "writers s = Some i" using inv_writer[OF inv i] CAssert p by simp
    moreover have "coord_inv (co_go s i (Nested CPanic))"
      by (rule pc_move[OF inv i]) (use CAssert p 2 inv_hold[OF inv _ i] in auto)
    ultimately show ?thesis using st CAssert 2 by auto
  qed
qed (use p(2) in auto)

lemma shared_step_inv:
  assumes inv: "coord_inv s" and i: "i < co_threads s" and st: "shared_step s i (co_pc s i) = Some t"
  shows "coord_inv t"
proof -
  have top: "coord_inv t" if "in_shared (co_pc s i)"
    using in_shared_inv[OF inv i _ _ that st, of "\<lambda>p. p"] by (simp add: level_def)
  show ?thesis
  proof (cases "co_pc s i")
    case (CSpin l)
    have ll: "last_lane s i = Some l" using inv_lane[OF inv i] CSpin by simp
    have "coord_inv (co_go s i (CInc l))" by (rule pc_move[OF inv i]) (auto simp: CSpin ll)
    with st CSpin inv show ?thesis by (auto split: if_splits)
  next
    case (CDropStore l c)
    have "coord_inv (set_reader (co_go s i CIdle) l (c - 1))"
      by (rule store_move[OF inv i]) (use CDropStore inv_saved[OF inv i] in \<open>auto simp: same_side_def\<close>)
    with st CDropStore show ?thesis by simp
  next
    case (Nested p)
    then have "nested_ok p" using inv_saved[OF inv i] by simp
    moreover obtain u where u: "shared_step s i p = Some u" "t = co_go u i (Nested (co_pc u i))" using st Nested by auto
    moreover have "p \<noteq> CPanic" using u by auto
    ultimately have "in_shared p" by (cases p) auto
    from in_shared_inv[OF inv i _ _ this u(1), of Nested] Nested u(2) show ?thesis by (simp add: level_def)
  qed (use st top in auto)
qed

text \<open>A step that moves the writer lock or the flag.\<close>

lemma writer_move:
  assumes inv: "coord_inv s" and i: "i < co_threads s"
    and p: "pinned (co_pc s i) = None" "writers s = None \<or> writers s = Some i"
    and q: "pinned q = None" "lane_of q = None" "scanned q = 0" "saved_ok s q"
    and t: "t = (co_go s i q)\<lparr>writing := b, writers := w\<rparr>"
    and w: "exclusive_pc q \<longleftrightarrow> w = Some i" "w = None \<or> w = Some i" and b: "b = flag_up q"
  shows "coord_inv t"
  unfolding t
proof (rule coord_move[OF inv i, where q = q])
  let ?t = "(co_go s i q)\<lparr>writing := b, writers := w\<rparr>"
  show "saved_ok ?t q" using q(4) by (rule saved_ok_frame) simp
  show "saved_ok s (co_pc s j) \<Longrightarrow> saved_ok ?t (co_pc s j)" for j by (erule saved_ok_frame) simp
  have "\<not> flag_up (co_pc s j)" if "j < co_threads s" "j \<noteq> i" for j
    using that inv_writer[OF inv, of j] p(2) pc_fields(2)[of "co_pc s j"] by auto
  then show "writing ?t \<longleftrightarrow> (\<exists>j<co_threads s. j \<noteq> i \<and> flag_up (co_pc s j)) \<or> flag_up q" using b by auto
  show "\<And>j m. last_lane ?t j = Some m \<Longrightarrow> m \<le> LANES \<and> (m < LANES \<longrightarrow> owners ?t m = thread_ident j)"
    using inv_owner[OF inv] by simp
qed (use p q w in auto)

lemma scan_move:
  assumes inv: "coord_inv s" and i: "i < co_threads s" and p: "co_pc s i = XScan b k" and k: "k \<le> LANES" "readers s k = 0"
  shows "coord_inv (co_go s i (XScan b (k + 1)))"
proof (rule pc_move[OF inv i])
  fix j l assume j: "j < co_threads s" "j \<noteq> i" "co_pc s j = CHold l"
  have "k \<le> l" using inv_hold[OF inv j(1) i j(3)] p by simp
  moreover have "l \<noteq> k" using pin_member[OF j(1), of l] inv_readers[OF inv, of l] j(3) k(2) by auto
  ultimately show "scanned (XScan b (k + 1)) \<le> l" by simp
qed (use p k in auto)

lemma exclusive_step_inv:
  assumes inv: "coord_inv s" and i: "i < co_threads s" and st: "exclusive_step s i (co_pc s i) = Some t"
  shows "coord_inv t"
proof -
  have w: "writers s = Some i" if "exclusive_pc (co_pc s i)" using inv_writer[OF inv i] that by simp
  show ?thesis
  proof (cases "co_pc s i")
    case (XFlag b)
    with st have t: "t = (co_go s i (XScan b 0))\<lparr>writing := True, writers := writers s\<rparr>" by (cases s) auto
    show ?thesis by (rule writer_move[OF inv i _ _ _ _ _ _ t]) (use w XFlag in auto)
  next
    case (XScan b k)
    have "coord_inv (co_go s i XFail)" by (rule pc_move[OF inv i]) (auto simp: XScan)
    moreover have "coord_inv (co_go s i XHold)" if "LANES < k"
    proof (rule pc_move[OF inv i])
      fix j l assume j: "j < co_threads s" "j \<noteq> i" "co_pc s j = CHold l"
      show "scanned XHold \<le> l" using inv_hold[OF inv j(1) i j(3)] XScan that by simp
    qed (auto simp: XScan)
    ultimately show ?thesis using st XScan scan_move[OF inv i XScan] inv by (auto split: if_splits)
  next
    case XFail
    with st have t: "t = (co_go s i XUnlock)\<lparr>writing := False, writers := writers s\<rparr>" by (cases s) auto
    show ?thesis by (rule writer_move[OF inv i _ _ _ _ _ _ t]) (use w XFail in auto)
  next
    case XUnlock
    have "\<not> flag_up (co_pc s j)" if "j < co_threads s" for j
      using that inv_writer[OF inv, of j] w XUnlock pc_fields(2)[of "co_pc s j"] by (cases "j = i") auto
    then have "\<not> writing s" using inv_writing[OF inv] by blast
    with st XUnlock have t: "t = (co_go s i CIdle)\<lparr>writing := False, writers := None\<rparr>" by (cases s) auto
    show ?thesis by (rule writer_move[OF inv i _ _ _ _ _ _ t]) (use w XUnlock in auto)
  next
    case (Nested p)
    with st have "p = CPanic" "t = co_go s i XHold" by (cases p; simp)+
    moreover have "coord_inv (co_go s i XHold)" by (rule pc_move[OF inv i]) (use Nested \<open>p = CPanic\<close> inv_hold[OF inv _ i] in auto)
    ultimately show ?thesis by simp
  qed (use st in auto)
qed

lemma enter_inv: "coord_inv s \<Longrightarrow> i < co_threads s \<Longrightarrow> co_pc s i = CIdle \<Longrightarrow> coord_inv (co_go s i (shared_enter s i))"
  unfolding shared_enter_def by (rule pc_move) (auto split: option.splits)

lemma nested_call_inv:
  assumes inv: "coord_inv s" and i: "i < co_threads s" and p: "co_pc s i = XHold" and q: "q = shared_enter s i \<or> q = CPanic"
  shows "coord_inv (co_go s i (Nested q))"
proof (rule pc_move[OF inv i])
  show "\<And>j l. j < co_threads s \<Longrightarrow> j \<noteq> i \<Longrightarrow> co_pc s j = CHold l \<Longrightarrow> scanned (Nested q) \<le> l"
    using inv_hold[OF inv _ i] p by fastforce
qed (use p q in \<open>auto simp: shared_enter_def split: option.splits\<close>)

lemma writer_call_inv:
  assumes inv: "coord_inv s" and i: "i < co_threads s" "co_pc s i = CIdle" and w: "writers s = None"
  shows "coord_inv ((co_go s i (XFlag b))\<lparr>writers := Some i\<rparr>)"
proof -
  have "\<not> writing s" using inv_writing[OF inv] inv_writer[OF inv] w pc_fields(2) by (metis option.distinct(1))
  then have t: "(co_go s i (XFlag b))\<lparr>writers := Some i\<rparr> = (co_go s i (XFlag b))\<lparr>writing := False, writers := Some i\<rparr>" by simp
  show ?thesis by (rule writer_move[OF inv i(1) _ _ _ _ _ _ t]) (use w i in auto)
qed

lemma coord_inv_step:
  assumes inv: "coord_inv s" and st: "coord_step a s = Some t"
  shows "coord_inv t"
proof (cases a)
  case (CallShared i)
  with st enter_inv[OF inv] nested_call_inv[OF inv] show ?thesis by (auto simp: coord_step_def Let_def split: if_splits)
next
  case (CallExclusive i)
  with st writer_call_inv[OF inv] nested_call_inv[OF inv] show ?thesis by (auto simp: coord_step_def Let_def split: if_splits)
next
  case (CallTryExclusive i)
  have "writers s \<noteq> None" if "i < co_threads s" "co_pc s i = XHold" using inv_writer[OF inv that(1)] that(2) by auto
  with CallTryExclusive st writer_call_inv[OF inv] inv show ?thesis by (auto simp: coord_step_def Let_def split: if_splits)
next
  case (DropShared i)
  with st obtain l where l: "i < co_threads s" "co_pc s i = CHold l" "t = shared_drop s i l (CDropStore l) CIdle"
    by (auto simp: coord_step_def Let_def split: if_splits cpc.splits)
  have "coord_inv (shared_drop s i l (CDropStore l) CIdle)" by (rule drop_move[OF inv l(1)]) (use l(2) in \<open>auto simp: same_side_def\<close>)
  with l(3) show ?thesis by simp
next
  case (DropExclusive i)
  with st have i: "i < co_threads s" "co_pc s i = XHold \<or> co_pc s i = Nested CPanic" and t: "t = (co_go s i XUnlock)\<lparr>writing := False, writers := writers s\<rparr>"
    by (auto simp: coord_step_def Let_def split: if_splits)
  show ?thesis by (rule writer_move[OF inv i(1) _ _ _ _ _ _ t]) (use i inv_writer[OF inv i(1)] in auto)
next
  case (CoStep i)
  with st have "i < co_threads s" by (auto simp: coord_step_def Let_def split: if_splits)
  with CoStep st shared_step_inv[OF inv this] exclusive_step_inv[OF inv this] show ?thesis
    by (auto simp: coord_step_def Let_def split: if_splits option.splits)
qed

lemma coord_inv_init: "coord_inv (coord_new n)"
  by (simp add: coord_inv_def coord_new_def pin_count_def)

interpretation coord: machine coord_step "coord_new n" coord_inv
  for n
  by unfold_locales (auto intro: coord_inv_init coord_inv_step)

section \<open>Properties\<close>

fun in_exclusive :: "cpc \<Rightarrow> bool" where
  "in_exclusive XHold = True"
| "in_exclusive (Nested p) = True"
| "in_exclusive p = False"

lemma in_exclusive_fields: "in_exclusive p \<Longrightarrow> exclusive_pc p \<and> scanned p = LANES + 1"
  by (cases p) auto

text \<open>
  C18: an exclusive guard excludes everybody. In every reachable state, while a thread holds
  \<open>Exclusive\<close>, running callbacks and their reentrant calls included, no thread holds \<open>Shared\<close> and no other thread holds
  \<open>Exclusive\<close>; every thread that works with a lane
  below \<open>LANES\<close> is its only user, so that its plain load and store lose no count, and every lane counts
  exactly the threads pinned in it; the reentrancy assertion of \<open>shared\<close> fires only in a
  callback of the thread that itself holds \<open>Exclusive\<close>, and such a call never gets a guard.
\<close>

theorem coord_exclusion:
  assumes "reachable coord_step (coord_new n) s"
  shows "(\<forall>i j l. i < co_threads s \<and> j < co_threads s \<and> in_exclusive (co_pc s i) \<longrightarrow>
      co_pc s j \<noteq> CHold l \<and> (in_exclusive (co_pc s j) \<longrightarrow> j = i)) \<and>
    (\<forall>i j l. i < co_threads s \<and> j < co_threads s \<and> lane_of (co_pc s i) = Some l \<and> lane_of (co_pc s j) = Some l \<and> l < LANES \<longrightarrow> i = j) \<and>
    (\<forall>l. readers s l = pin_count s l) \<and>
    (\<forall>i l. i < co_threads s \<longrightarrow> co_pc s i \<noteq> CPanic \<and> co_pc s i \<noteq> Nested (CHold l))"
proof -
  have inv: "coord_inv s" by (rule coord.always[OF assms])
  have "co_pc s i \<noteq> CPanic \<and> co_pc s i \<noteq> Nested (CHold l)" if "i < co_threads s" for i l using inv_saved[OF inv that] by auto
  moreover
  have "co_pc s j \<noteq> CHold l" if "i < co_threads s" "j < co_threads s" "in_exclusive (co_pc s i)" for i j l
  proof
    assume h: "co_pc s j = CHold l"
    then have "LANES + 1 \<le> l" using inv_hold[OF inv that(2) that(1), of l] in_exclusive_fields[OF that(3)] by simp
    moreover have "last_lane s j = Some l" using inv_lane[OF inv that(2), of l] h by simp
    ultimately show False using inv_owner[OF inv, of j l] by simp
  qed
  moreover have "j = i" if "i < co_threads s" "j < co_threads s" "in_exclusive (co_pc s i)" "in_exclusive (co_pc s j)" for i j
    using inv_writer[OF inv that(1)] inv_writer[OF inv that(2)] in_exclusive_fields[OF that(3)] in_exclusive_fields[OF that(4)] by simp
  moreover have "i = j" if "i < co_threads s" "j < co_threads s" "lane_of (co_pc s i) = Some l" "lane_of (co_pc s j) = Some l" "l < LANES" for i j l
    using inv_owner[OF inv inv_lane[OF inv that(1,3)]] inv_owner[OF inv inv_lane[OF inv that(2,4)]] that(5) by simp
  ultimately show ?thesis using inv_readers[OF inv] by blast
qed

text \<open>A run in which a writer scans while a late reader backs off.\<close>

theorem coord_exclusion_witness:
  "\<exists>s. reachable coord_step (coord_new 2) s \<and> co_pc s 0 = XHold \<and> co_pc s 1 \<noteq> CHold 2"
proof -
  have "run_to coord_step ([CallExclusive 0, CoStep 0, CallShared 1, CoStep 1] @ replicate 66 (CoStep 0)) (coord_new 2)
      (\<lambda>s. co_pc s 0 = XHold \<and> co_threads s = 2)" by code_simp
  then obtain s where s: "reachable coord_step (coord_new 2) s" "co_pc s 0 = XHold" "co_threads s = 2"
    by (auto dest: run_toD)
  with coord_exclusion[OF s(1), THEN conjunct1, rule_format, of 0 1 2] have "co_pc s 1 \<noteq> CHold 2" by simp
  with s show ?thesis by blast
qed

text \<open>What a thread may do alone in a callback: its steps, one after the other.\<close>

lemma nested_run_step:
  assumes "i < co_threads s" "co_pc s i = Nested p" "shared_step s i p = Some t" "run coord_step (replicate m (CoStep i)) (co_go t i (Nested (co_pc t i))) = Some u"
  shows "run coord_step (replicate (Suc m) (CoStep i)) s = Some u"
  using assms by (simp add: coord_step_def)

text \<open>The fields that a registration leaves alone.\<close>

definition registered :: "coord_sys \<Rightarrow> tid \<Rightarrow> coord_sys \<Rightarrow> bool" where
  "registered s i t \<longleftrightarrow> readers t = readers s \<and> writing t = writing s \<and> writers t = writers s \<and> co_threads t = co_threads s \<and>
     (\<exists>l. co_pc t i = Nested (CInc l))"

lemma register_run:
  assumes "i < co_threads s" "co_pc s i = Nested (CReg k)"
  shows "\<exists>m t. run coord_step (replicate m (CoStep i)) s = Some t \<and> registered s i t"
  using assms
proof (induction "LANES + 1 - k" arbitrary: k s rule: less_induct)
  case less
  let ?r = "register s i k" and ?t = "co_go (register s i k) i (Nested (co_pc (register s i k) i))"
  have keep: "readers ?t = readers s \<and> writing ?t = writing s \<and> writers ?t = writers s \<and> co_threads ?t = co_threads s"
    by (simp add: register_def got_lane_def Let_def)
  have st: "shared_step s i (CReg k) = Some ?r" by simp
  show ?case
  proof (cases "co_pc ?r i = CReg (k + 1) \<and> k < LANES")
    case True
    have "LANES + 1 - (k + 1) < LANES + 1 - k" using True by linarith
    then have "\<exists>m t. run coord_step (replicate m (CoStep i)) ?t = Some t \<and> registered ?t i t"
      by (rule less.hyps) (use True keep less.prems(1) in simp_all)
    then obtain m t where m: "run coord_step (replicate m (CoStep i)) ?t = Some t" "registered ?t i t" by blast
    have "registered s i t" using m(2) keep by (simp add: registered_def)
    with nested_run_step[OF less.prems st m(1)] show ?thesis by blast
  next
    case False
    then have "\<exists>l. co_pc ?r i = CInc l" by (auto simp: register_def got_lane_def Let_def split: if_splits)
    then have "registered s i ?t" using keep by (auto simp: registered_def)
    moreover have "run coord_step (replicate (Suc 0) (CoStep i)) s = Some ?t" by (rule nested_run_step[OF less.prems st]) simp
    ultimately show ?thesis by blast
  qed
qed

lemma nested_undo_run:
  assumes i: "i < co_threads s" and p: "co_pc s i = Nested (CInc l)" and w: "writing s" "writers s = Some i"
  shows "\<exists>m t. run coord_step (replicate m (CoStep i)) s = Some t \<and> co_pc t i = Nested CPanic \<and> readers t = readers s \<and>
    writing t \<and> writers t = Some i \<and> co_threads t = co_threads s"
proof -
  have up: "(readers s)(l := readers s l + 1, l := readers s l) = readers s" by (simp add: fun_eq_iff)
  show ?thesis
  proof (cases "l < LANES")
    case True
    have "\<exists>t. run coord_step (replicate 5 (CoStep i)) s = Some t \<and> co_pc t i = Nested CPanic \<and> readers t = readers s \<and>
        writing t \<and> writers t = Some i \<and> co_threads t = co_threads s"
      using i p w True up by (simp add: coord_step_def eval_nat_numeral set_reader_def shared_drop_def)
    then show ?thesis by blast
  next
    case False
    have "\<exists>t. run coord_step (replicate 4 (CoStep i)) s = Some t \<and> co_pc t i = Nested CPanic \<and> readers t = readers s \<and>
        writing t \<and> writers t = Some i \<and> co_threads t = co_threads s"
      using i p w False up by (simp add: coord_step_def eval_nat_numeral set_reader_def shared_drop_def)
    then show ?thesis by blast
  qed
qed

text \<open>
  C19: a reentrant call is refused and leaves no trace. When a callback under \<open>Exclusive\<close> calls \<open>shared\<close>, the
  thread by itself, in finitely many steps and without waiting for anybody, runs into the assertion; by then its pin has
  been given back, the lanes are as before the call and \<open>Exclusive\<close> is still held. Unwinding then
  drops the guard, after which the thread is idle, the flag down and the writer lock free.
\<close>

theorem coord_reentrant_panics:
  assumes "reachable coord_step (coord_new n) s" "i < co_threads s" "co_pc s i = XHold"
  shows "\<exists>m t u. run coord_step (CallShared i # replicate m (CoStep i)) s = Some t \<and> co_pc t i = Nested CPanic \<and>
    readers t = readers s \<and> writing t \<and> writers t = Some i \<and>
    run coord_step [DropExclusive i, CoStep i] t = Some u \<and> co_pc u i = CIdle \<and> readers u = readers s \<and> \<not> writing u \<and> writers u = None"
proof -
  have inv: "coord_inv s" by (rule coord.always[OF assms(1)])
  have w: "writers s = Some i" "writing s" using inv_writer[OF inv assms(2)] inv_writing[OF inv] assms(2,3) by auto
  let ?a = "co_go s i (Nested (shared_enter s i))"
  have call: "coord_step (CallShared i) s = Some ?a" using assms(2,3) by (simp add: coord_step_def)
  have "\<exists>m t. run coord_step (replicate m (CoStep i)) ?a = Some t \<and> registered ?a i t"
  proof (cases "last_lane s i")
    case None
    then show ?thesis using register_run[of i ?a 0] assms(2) by (simp add: shared_enter_def)
  next
    case (Some l)
    then have "run coord_step (replicate 0 (CoStep i)) ?a = Some ?a \<and> registered ?a i ?a" by (simp add: shared_enter_def registered_def)
    then show ?thesis by blast
  qed
  then obtain m t where t: "run coord_step (replicate m (CoStep i)) ?a = Some t" "registered ?a i t" by blast
  then obtain l where l: "co_pc t i = Nested (CInc l)" "readers t = readers s" "writing t" "writers t = Some i" "i < co_threads t"
    using w assms(2) by (auto simp: registered_def)
  obtain k v where v: "run coord_step (replicate k (CoStep i)) t = Some v" "co_pc v i = Nested CPanic" "readers v = readers s"
    "writing v" "writers v = Some i" "i < co_threads v" using nested_undo_run[OF l(5,1,3,4)] l(2,5) by auto
  have "run coord_step (CallShared i # replicate (m + k) (CoStep i)) s = Some v"
    using call t(1) v(1) by (simp add: replicate_add run_append)
  moreover have "\<exists>u. run coord_step [DropExclusive i, CoStep i] v = Some u \<and> co_pc u i = CIdle \<and> readers u = readers s \<and> \<not> writing u \<and> writers u = None"
    using v(2,3,6) by (simp add: coord_step_def)
  ultimately show ?thesis using v(2-5) by blast
qed

theorem coord_reentrant_panics_witness:
  "\<exists>s t m. reachable coord_step (coord_new 2) s \<and> co_pc s 0 = XHold \<and>
     run coord_step (CallShared 0 # replicate m (CoStep 0)) s = Some t \<and> co_pc t 0 = Nested CPanic \<and> readers t = readers s"
proof -
  have "run_to coord_step (CallExclusive 0 # replicate 67 (CoStep 0)) (coord_new 2) (\<lambda>s. co_pc s 0 = XHold \<and> co_threads s = 2)" by code_simp
  then obtain s where s: "reachable coord_step (coord_new 2) s" "co_pc s 0 = XHold" "co_threads s = 2" by (auto dest: run_toD)
  with coord_reentrant_panics[OF s(1), of 0] show ?thesis by auto
qed

end
