(* ===== verification/SMutex.thy ===== *)
theory SMutex
  imports Futex
begin

text \<open>
  \<open>SMutex\<close> of \<open>src/core/smutex.rs\<close>: a recursive mutex with an additional group (shared) mode on
  one futex word: \<open>LOCKED\<close>, or twice the number of group holders. One step per atomic access.
  Thread identifiers are positive; guards cannot leave their thread. A step carries the
  choices of the environment: whether a weak exchange fails, whether the spinning of \<open>lock\<close>
  is over, and which sleeper a wake hits.
\<close>

definition SM_UNLOCKED :: u32 where
  "SM_UNLOCKED = 0"

definition SM_LOCKED :: u32 where
  "SM_LOCKED = 1"

definition SM_ONE_GROUP :: u32 where
  "SM_ONE_GROUP = 2"

datatype mpc =
    MIdle
  | LRec | LTry | LSetOwner | LSetRec | LLoad | LWait u32 | LSleep
  | GRec | GLoad | GCas u32 | GCheck | GWait | GSleep
  | USub bool | UClear | UStore | UWake | UGroup
  | MPanic

record sm_thread =
  sm_pc :: mpc
  sm_excl :: nat      \<comment> \<open>exclusive guards\<close>
  sm_group :: nat     \<comment> \<open>group guards\<close>

record smutex =
  sm_state :: futex
  sm_owner :: nat
  sm_recursion :: nat

record sm_sys =
  sm :: smutex
  sm_threads :: nat
  sm_thr :: "tid \<Rightarrow> sm_thread"

datatype sm_act = SmLock tid | SmLockGroup tid | SmDrop tid | SmDropGroup tid | SmStep tid bool bool tid | SmSpurious tid

definition sm_ident :: "tid \<Rightarrow> nat" where
  "sm_ident i = i + 1"

definition smutex_new :: smutex where
  "smutex_new = \<lparr>sm_state = futex_new SM_UNLOCKED, sm_owner = 0, sm_recursion = 0\<rparr>"

definition sm_init :: "nat \<Rightarrow> sm_sys" where
  "sm_init n = \<lparr>sm = smutex_new, sm_threads = n, sm_thr = (\<lambda>_. \<lparr>sm_pc = MIdle, sm_excl = 0, sm_group = 0\<rparr>)\<rparr>"

abbreviation (input) sm_go :: "sm_sys \<Rightarrow> tid \<Rightarrow> mpc \<Rightarrow> sm_sys" where
  "sm_go s i p \<equiv> s\<lparr>sm_thr := (sm_thr s)(i := (sm_thr s i)\<lparr>sm_pc := p\<rparr>)\<rparr>"

abbreviation (input) sm_word :: "sm_sys \<Rightarrow> u32" where
  "sm_word s \<equiv> fword (sm_state (sm s))"

definition sm_set_word :: "sm_sys \<Rightarrow> u32 \<Rightarrow> sm_sys" where
  "sm_set_word s w = s\<lparr>sm := (sm s)\<lparr>sm_state := (sm_state (sm s))\<lparr>fword := w\<rparr>\<rparr>\<rparr>"

definition sm_set_futex :: "sm_sys \<Rightarrow> futex \<Rightarrow> sm_sys" where
  "sm_set_futex s f = s\<lparr>sm := (sm s)\<lparr>sm_state := f\<rparr>\<rparr>"

definition got_excl :: "sm_sys \<Rightarrow> tid \<Rightarrow> sm_sys" where
  "got_excl s i = s\<lparr>sm_thr := (sm_thr s)(i := (sm_thr s i)\<lparr>sm_pc := MIdle, sm_excl := sm_excl (sm_thr s i) + 1\<rparr>)\<rparr>"

definition got_group :: "sm_sys \<Rightarrow> tid \<Rightarrow> sm_sys" where
  "got_group s i = s\<lparr>sm_thr := (sm_thr s)(i := (sm_thr s i)\<lparr>sm_pc := MIdle, sm_group := sm_group (sm_thr s i) + 1\<rparr>)\<rparr>"

definition lost_excl :: "sm_sys \<Rightarrow> tid \<Rightarrow> mpc \<Rightarrow> sm_sys" where
  "lost_excl s i p = s\<lparr>sm_thr := (sm_thr s)(i := (sm_thr s i)\<lparr>sm_pc := p, sm_excl := sm_excl (sm_thr s i) - 1\<rparr>)\<rparr>"

definition lost_group :: "sm_sys \<Rightarrow> tid \<Rightarrow> mpc \<Rightarrow> sm_sys" where
  "lost_group s i p = s\<lparr>sm_thr := (sm_thr s)(i := (sm_thr s i)\<lparr>sm_pc := p, sm_group := sm_group (sm_thr s i) - 1\<rparr>)\<rparr>"

fun sm_lock :: "sm_sys \<Rightarrow> tid \<Rightarrow> bool \<Rightarrow> bool \<Rightarrow> mpc \<Rightarrow> sm_sys option" where
  "sm_lock s i weak spin LRec = Some ((got_excl s i)\<lparr>sm := (sm s)\<lparr>sm_recursion := sm_recursion (sm s) + 1\<rparr>\<rparr>)"
| "sm_lock s i weak spin LTry =
     Some (if sm_word s = SM_UNLOCKED \<and> \<not> weak then sm_set_word (sm_go s i LSetOwner) SM_LOCKED
           else sm_go s i (if spin then LTry else LLoad))"
| "sm_lock s i weak spin LSetOwner = Some ((sm_go s i LSetRec)\<lparr>sm := (sm s)\<lparr>sm_owner := sm_ident i\<rparr>\<rparr>)"
| "sm_lock s i weak spin LSetRec = Some ((got_excl s i)\<lparr>sm := (sm s)\<lparr>sm_recursion := 1\<rparr>\<rparr>)"
| "sm_lock s i weak spin LLoad = Some (sm_go s i (if sm_word s = SM_UNLOCKED then LTry else LWait (sm_word s)))"
| "sm_lock s i weak spin (LWait v) =
     (case futex_wait (sm_state (sm s)) v i of
        (f, True) \<Rightarrow> Some (sm_set_futex (sm_go s i LSleep) f)
      | (f, False) \<Rightarrow> Some (sm_go s i LLoad))"
| "sm_lock s i weak spin LSleep = (if i \<in> set (waiters (sm_state (sm s))) then None else Some (sm_go s i LLoad))"
| "sm_lock s i weak spin _ = None"

definition group_try :: "u32 \<Rightarrow> mpc" where
  "group_try st = (if st AND SM_LOCKED = 0 then GCas st else GCheck)"

fun sm_lock_group :: "sm_sys \<Rightarrow> tid \<Rightarrow> bool \<Rightarrow> mpc \<Rightarrow> sm_sys option" where
  "sm_lock_group s i weak GRec = Some ((got_group s i)\<lparr>sm := (sm s)\<lparr>sm_recursion := sm_recursion (sm s) + 1\<rparr>\<rparr>)"
| "sm_lock_group s i weak GLoad = Some (sm_go s i (group_try (sm_word s)))"
| "sm_lock_group s i weak (GCas st) =
     (case checked_add st SM_ONE_GROUP of
        None \<Rightarrow> Some (sm_go s i MPanic)
      | Some new_state \<Rightarrow>
          Some (if sm_word s = st \<and> \<not> weak then sm_set_word (got_group s i) new_state
                else sm_go s i (group_try (sm_word s))))"
| "sm_lock_group s i weak GCheck = Some (sm_go s i (if sm_word s AND SM_LOCKED \<noteq> 0 then GWait else GLoad))"
| "sm_lock_group s i weak GWait =
     (case futex_wait (sm_state (sm s)) SM_LOCKED i of
        (f, True) \<Rightarrow> Some (sm_set_futex (sm_go s i GSleep) f)
      | (f, False) \<Rightarrow> Some (sm_go s i GCheck))"
| "sm_lock_group s i weak GSleep = (if i \<in> set (waiters (sm_state (sm s))) then None else Some (sm_go s i GCheck))"
| "sm_lock_group s i weak _ = None"

fun sm_unlock :: "sm_sys \<Rightarrow> tid \<Rightarrow> tid \<Rightarrow> mpc \<Rightarrow> sm_sys option" where
  "sm_unlock s i w (USub g) =
     (let p = (if sm_recursion (sm s) > 1 then MIdle else UClear)
      in Some ((if g then lost_group s i p else lost_excl s i p)\<lparr>sm := (sm s)\<lparr>sm_recursion := sm_recursion (sm s) - 1\<rparr>\<rparr>))"
| "sm_unlock s i w UClear = Some ((sm_go s i UStore)\<lparr>sm := (sm s)\<lparr>sm_owner := 0\<rparr>\<rparr>)"
| "sm_unlock s i w UStore = Some (sm_set_word (sm_go s i UWake) SM_UNLOCKED)"
| "sm_unlock s i w UGroup =
     Some (sm_set_word (lost_group s i (if sm_word s = SM_ONE_GROUP then UWake else MIdle)) (sm_word s - SM_ONE_GROUP))"
| "sm_unlock s i w UWake =
     (if w \<in> set (waiters (sm_state (sm s))) \<or> waiters (sm_state (sm s)) = []
      then Some (sm_set_futex (sm_go s i MIdle) (futex_wake (sm_state (sm s)) w)) else None)"
| "sm_unlock s i w _ = None"

definition sm_is_locked :: "smutex \<Rightarrow> bool" where
  "sm_is_locked m \<longleftrightarrow> fword (sm_state m) AND SM_LOCKED \<noteq> 0"

definition sm_step :: "sm_act \<Rightarrow> sm_sys \<Rightarrow> sm_sys option" where
  "sm_step a s =
     (let idle = (\<lambda>i. i < sm_threads s \<and> sm_pc (sm_thr s i) = MIdle); mine = (\<lambda>i. sm_owner (sm s) = sm_ident i) in
      case a of
        SmLock i \<Rightarrow> if idle i then Some (sm_go s i (if mine i then LRec else LTry)) else None
      | SmLockGroup i \<Rightarrow> if idle i then Some (sm_go s i (if mine i then GRec else GLoad)) else None
      | SmDrop i \<Rightarrow>
          if idle i \<and> 0 < sm_excl (sm_thr s i) then Some (sm_go s i (if mine i then USub False else MPanic)) else None
      | SmDropGroup i \<Rightarrow>
          if idle i \<and> 0 < sm_group (sm_thr s i) then Some (sm_go s i (if mine i then USub True else UGroup)) else None
      | SmStep i weak spin w \<Rightarrow>
          if i < sm_threads s then
            (case sm_lock s i weak spin (sm_pc (sm_thr s i)) of
               Some t \<Rightarrow> Some t
             | None \<Rightarrow> (case sm_lock_group s i weak (sm_pc (sm_thr s i)) of
                          Some t \<Rightarrow> Some t
                        | None \<Rightarrow> sm_unlock s i w (sm_pc (sm_thr s i))))
          else None
      | SmSpurious i \<Rightarrow> if i < sm_threads s then Some (sm_set_futex s (futex_unpark (sm_state (sm s)) i)) else None)"

section \<open>The invariant\<close>

text \<open>The thread that has the exclusive side: from the exchange to the store that gives it up.\<close>

definition owns :: "sm_sys \<Rightarrow> tid \<Rightarrow> bool" where
  "owns s i \<longleftrightarrow> sm_owner (sm s) = sm_ident i \<or> sm_pc (sm_thr s i) = LSetOwner \<or> sm_pc (sm_thr s i) = UStore"

definition group_total :: "sm_sys \<Rightarrow> nat" where
  "group_total s = (\<Sum>i < sm_threads s. sm_group (sm_thr s i))"

fun owner_pc_ok :: "nat \<Rightarrow> sm_thread \<Rightarrow> bool \<Rightarrow> bool" where
  "owner_pc_ok rec th mine =
     (case sm_pc th of
        LSetOwner \<Rightarrow> \<not> mine \<and> sm_excl th = 0 \<and> sm_group th = 0
      | LSetRec \<Rightarrow> mine \<and> sm_excl th = 0 \<and> sm_group th = 0
      | UClear \<Rightarrow> mine \<and> sm_excl th = 0 \<and> sm_group th = 0
      | UStore \<Rightarrow> \<not> mine \<and> sm_excl th = 0 \<and> sm_group th = 0
      | LRec \<Rightarrow> mine \<and> rec = sm_excl th + sm_group th \<and> 0 < rec
      | GRec \<Rightarrow> mine \<and> rec = sm_excl th + sm_group th \<and> 0 < rec
      | USub g \<Rightarrow> mine \<and> rec = sm_excl th + sm_group th \<and> (if g then 0 < sm_group th else 0 < sm_excl th)
      | MIdle \<Rightarrow> mine \<longrightarrow> rec = sm_excl th + sm_group th \<and> 0 < rec
      | UGroup \<Rightarrow> \<not> mine \<and> 0 < sm_group th
      | LWait v \<Rightarrow> \<not> mine \<and> v \<noteq> 0
      | GCas st \<Rightarrow> \<not> mine \<and> st AND SM_LOCKED = 0
      | _ \<Rightarrow> \<not> mine)"

text \<open>Threads that are about to look at the word again, or to wake somebody who will.\<close>

definition sm_active :: "futex \<Rightarrow> tid \<Rightarrow> mpc \<Rightarrow> bool" where
  "sm_active f i p \<longleftrightarrow> (case p of LTry \<Rightarrow> True | LLoad \<Rightarrow> True | LWait _ \<Rightarrow> True | LSleep \<Rightarrow> i \<notin> set (waiters f)
     | GLoad \<Rightarrow> True | GCas st \<Rightarrow> checked_add st SM_ONE_GROUP \<noteq> None | GCheck \<Rightarrow> True | GWait \<Rightarrow> True | GSleep \<Rightarrow> i \<notin> set (waiters f) | UWake \<Rightarrow> True | _ \<Rightarrow> False)"

definition word_ok :: "sm_sys \<Rightarrow> bool" where
  "word_ok s \<longleftrightarrow>
     (if \<exists>i < sm_threads s. owns s i
      then sm_word s = SM_LOCKED \<and> (\<forall>i < sm_threads s. \<forall>j < sm_threads s. owns s i \<and> j \<noteq> i \<longrightarrow> \<not> owns s j \<and> sm_group (sm_thr s j) = 0)
      else unat (sm_word s) = 2 * group_total s)"

definition sleepers_ok :: "sm_sys \<Rightarrow> bool" where
  "sleepers_ok s \<longleftrightarrow> distinct (waiters (sm_state (sm s))) \<and>
     (\<forall>i. i \<in> set (waiters (sm_state (sm s))) \<longrightarrow> i < sm_threads s \<and> (sm_pc (sm_thr s i) = LSleep \<or> sm_pc (sm_thr s i) = GSleep)) \<and>
     (waiters (sm_state (sm s)) \<noteq> [] \<longrightarrow>
        sm_word s \<noteq> 0 \<or> (\<exists>i < sm_threads s. sm_active (sm_state (sm s)) i (sm_pc (sm_thr s i))))"

definition sm_inv :: "sm_sys \<Rightarrow> bool" where
  "sm_inv s \<longleftrightarrow>
     (\<forall>i < sm_threads s. owner_pc_ok (sm_recursion (sm s)) (sm_thr s i) (sm_owner (sm s) = sm_ident i)) \<and>
     (\<forall>i < sm_threads s. \<not> owns s i \<longrightarrow> sm_excl (sm_thr s i) = 0) \<and>
     sm_owner (sm s) \<le> sm_threads s \<and> word_ok s \<and> sleepers_ok s"

declare owner_pc_ok.simps [simp del]

lemmas owner_pc_simps = owner_pc_ok.simps

lemma sm_ident_inj [simp]: "sm_ident i = sm_ident j \<longleftrightarrow> i = j" "sm_ident i \<noteq> 0" "0 \<noteq> sm_ident i"
  by (simp_all add: sm_ident_def)

lemma group_upd:
  assumes "i < sm_threads s" "sm_threads t = sm_threads s" "sm_thr t = (sm_thr s)(i := th)"
  shows "group_total t + sm_group (sm_thr s i) = group_total s + sm_group th"
  unfolding group_total_def assms(2,3)
  using sum_if_upd[OF assms(1), of "\<lambda>j. sm_group (((sm_thr s)(i := th)) j)" "\<lambda>j. sm_group (sm_thr s j)"] by simp

lemma group_member: "i < sm_threads s \<Longrightarrow> sm_group (sm_thr s i) \<le> group_total s"
  unfolding group_total_def by (rule member_le_sum_lt)

lemma sm_pc_inv: "sm_inv s \<Longrightarrow> i < sm_threads s \<Longrightarrow> owner_pc_ok (sm_recursion (sm s)) (sm_thr s i) (sm_owner (sm s) = sm_ident i)"
  and sm_excl_inv: "sm_inv s \<Longrightarrow> i < sm_threads s \<Longrightarrow> \<not> owns s i \<Longrightarrow> sm_excl (sm_thr s i) = 0"
  and sm_owner_le: "sm_inv s \<Longrightarrow> sm_owner (sm s) \<le> sm_threads s"
  and sm_word_inv: "sm_inv s \<Longrightarrow> word_ok s"
  and sm_sleep_inv: "sm_inv s \<Longrightarrow> sleepers_ok s"
  by (simp_all add: sm_inv_def)

lemma owner_alone:
  assumes "word_ok s" "i < sm_threads s" "owns s i"
  shows "sm_word s = SM_LOCKED" "j < sm_threads s \<Longrightarrow> j \<noteq> i \<Longrightarrow> \<not> owns s j" "j < sm_threads s \<Longrightarrow> j \<noteq> i \<Longrightarrow> sm_group (sm_thr s j) = 0"
proof -
  have ex: "\<exists>k < sm_threads s. owns s k" using assms(2,3) by blast
  with assms(1) have "sm_word s = SM_LOCKED \<and> (\<forall>i < sm_threads s. \<forall>j < sm_threads s. owns s i \<and> j \<noteq> i \<longrightarrow> \<not> owns s j \<and> sm_group (sm_thr s j) = 0)"
    unfolding word_ok_def by meson
  with assms(2,3) show "sm_word s = SM_LOCKED" "j < sm_threads s \<Longrightarrow> j \<noteq> i \<Longrightarrow> \<not> owns s j"
    "j < sm_threads s \<Longrightarrow> j \<noteq> i \<Longrightarrow> sm_group (sm_thr s j) = 0" by blast+
qed

lemma no_owner_word: "word_ok s \<Longrightarrow> (\<And>i. i < sm_threads s \<Longrightarrow> \<not> owns s i) \<Longrightarrow> unat (sm_word s) = 2 * group_total s"
  unfolding word_ok_def by meson

lemma unlocked_no_owner: "word_ok s \<Longrightarrow> sm_word s \<noteq> SM_LOCKED \<Longrightarrow> i < sm_threads s \<Longrightarrow> \<not> owns s i"
  using owner_alone(1) by blast

text \<open>A step of one thread.\<close>

lemma sm_move:
  assumes inv: "sm_inv s" and i: "i < sm_threads s"
    and t: "sm_threads t = sm_threads s" "sm_thr t = (sm_thr s)(i := th)"
    and o: "\<And>j. j \<noteq> i \<Longrightarrow> sm_owner (sm t) = sm_ident j \<longleftrightarrow> sm_owner (sm s) = sm_ident j"
    and r: "\<And>j. j < sm_threads s \<Longrightarrow> j \<noteq> i \<Longrightarrow> sm_owner (sm s) = sm_ident j \<Longrightarrow> sm_recursion (sm t) = sm_recursion (sm s)"
    and q: "owner_pc_ok (sm_recursion (sm t)) th (sm_owner (sm t) = sm_ident i)"
    and x: "\<not> owns t i \<Longrightarrow> sm_excl th = 0"
    and b: "sm_owner (sm t) \<le> sm_threads s"
    and w: "word_ok t" and sl: "sleepers_ok t"
  shows "sm_inv t"
  unfolding sm_inv_def
proof (intro conjI allI impI w sl b[folded t(1)])
  fix j assume j: "j < sm_threads t"
  show "owner_pc_ok (sm_recursion (sm t)) (sm_thr t j) (sm_owner (sm t) = sm_ident j)"
  proof (cases "j = i")
    case True
    with q t show ?thesis by simp
  next
    case False
    have "owner_pc_ok (sm_recursion (sm s)) (sm_thr s j) (sm_owner (sm s) = sm_ident j)" using sm_pc_inv[OF inv] j t by simp
    moreover have "owner_pc_ok a (sm_thr s j) False = owner_pc_ok b (sm_thr s j) False" for a b
      by (cases "sm_pc (sm_thr s j)") (simp_all add: owner_pc_simps)
    ultimately show ?thesis using False o[OF False] r[of j] j t by (cases "sm_owner (sm s) = sm_ident j") auto
  qed
next
  fix j assume "j < sm_threads t" "\<not> owns t j"
  moreover have "owns t j = owns s j" if "j \<noteq> i" using o[OF that] that t by (simp add: owns_def)
  ultimately show "sm_excl (sm_thr t j) = 0" using x sm_excl_inv[OF inv, of j] t by (cases "j = i") auto
qed

text \<open>The word is not touched and the ownership does not change.\<close>

lemma word_keep:
  assumes inv: "word_ok s" and i: "i < sm_threads s" and t: "sm_threads t = sm_threads s" "sm_thr t = (sm_thr s)(i := th)"
    and w: "sm_word t = sm_word s" and o: "\<And>j. owns t j = owns s j" and g: "sm_group th = sm_group (sm_thr s i) \<or> owns s i"
  shows "word_ok t"
proof (cases "\<exists>k < sm_threads s. owns s k")
  case True
  then obtain k where k: "k < sm_threads s" "owns s k" by blast
  note a = owner_alone[OF inv k]
  have "\<not> owns s j \<and> sm_group (sm_thr t j) = 0" if "j < sm_threads s" "j \<noteq> k" for j
    using a(2,3)[OF that] g that t k(2) by (cases "j = i") auto
  then have "\<forall>i < sm_threads s. \<forall>j < sm_threads s. owns s i \<and> j \<noteq> i \<longrightarrow> \<not> owns s j \<and> sm_group (sm_thr t j) = 0"
    using k by metis
  with k a(1) show ?thesis unfolding word_ok_def t(1) w o by meson
next
  case False
  then have "group_total t = group_total s" using g i group_upd[OF i t] by auto
  with False inv show ?thesis unfolding word_ok_def t(1) w o by simp
qed

lemma sleep_keep:
  assumes sl: "sleepers_ok s" and i: "i < sm_threads s" and t: "sm_threads t = sm_threads s" "sm_thr t = (sm_thr s)(i := th)"
    and f: "waiters (sm_state (sm t)) = waiters (sm_state (sm s))"
    and n: "sm_pc th = sm_pc (sm_thr s i) \<or> i \<notin> set (waiters (sm_state (sm s)))"
    and a: "sm_active (sm_state (sm s)) i (sm_pc (sm_thr s i)) \<longrightarrow> sm_active (sm_state (sm t)) i (sm_pc th) \<or> sm_word t \<noteq> 0"
    and w: "sm_word s \<noteq> 0 \<longrightarrow> sm_word t \<noteq> 0 \<or> sm_active (sm_state (sm t)) i (sm_pc th)"
  shows "sleepers_ok t"
proof -
  have act: "sm_active (sm_state (sm t)) j p = sm_active (sm_state (sm s)) j p" for j p by (simp add: sm_active_def f cong: mpc.case_cong)
  have "sm_word t \<noteq> 0 \<or> (\<exists>j < sm_threads s. sm_active (sm_state (sm t)) j (sm_pc (sm_thr t j)))" if "waiters (sm_state (sm s)) \<noteq> []"
  proof -
    have "sm_word s \<noteq> 0 \<or> (\<exists>j < sm_threads s. sm_active (sm_state (sm s)) j (sm_pc (sm_thr s j)))"
      using sl that by (simp add: sleepers_ok_def)
    then show ?thesis
    proof
      assume "sm_word s \<noteq> 0"
      with w i t show ?thesis by auto
    next
      assume "\<exists>j < sm_threads s. sm_active (sm_state (sm s)) j (sm_pc (sm_thr s j))"
      then obtain j where j: "j < sm_threads s" "sm_active (sm_state (sm s)) j (sm_pc (sm_thr s j))" by blast
      then show ?thesis using a i t act by (cases "j = i") auto
    qed
  qed
  with sl n f t show ?thesis unfolding sleepers_ok_def by auto
qed

text \<open>The word after an acquisition, and when nobody has the exclusive side.\<close>

lemma take_word:
  assumes inv: "word_ok s" and z: "sm_word s = 0" and i: "i < sm_threads s"
    and t: "sm_threads t = sm_threads s" "sm_thr t = (sm_thr s)(i := th)" "sm_word t = SM_LOCKED" "\<And>j. owns t j \<longleftrightarrow> owns s j \<or> j = i"
  shows "word_ok t"
proof -
  have no: "\<not> owns s j" if "j < sm_threads s" for j using unlocked_no_owner[OF inv _ that] z by (simp add: SM_LOCKED_def)
  then have "group_total s = 0" using no_owner_word[OF inv] z by simp
  then have "sm_group (sm_thr s j) = 0" if "j < sm_threads s" for j using group_member[OF that] by simp
  then have "\<not> owns t j \<and> sm_group (sm_thr t j) = 0" if "j < sm_threads s" "j \<noteq> i" for j using no that t by simp
  then have all: "\<forall>k < sm_threads t. \<forall>j < sm_threads t. owns t k \<and> j \<noteq> k \<longrightarrow> \<not> owns t j \<and> sm_group (sm_thr t j) = 0"
    unfolding t(1) by metis
  have "owns t i" "i < sm_threads t" using t i by simp_all
  with all t(3) show ?thesis unfolding word_ok_def by meson
qed

lemma free_word:
  assumes "\<And>j. j < sm_threads t \<Longrightarrow> \<not> owns t j" "unat (sm_word t) = 2 * group_total t"
  shows "word_ok t"
  using assms unfolding word_ok_def by meson

lemma not_asleep: "sleepers_ok s \<Longrightarrow> sm_pc (sm_thr s i) \<noteq> LSleep \<Longrightarrow> sm_pc (sm_thr s i) \<noteq> GSleep \<Longrightarrow> i \<notin> set (waiters (sm_state (sm s)))"
  unfolding sleepers_ok_def by blast

text \<open>A step that only moves the program counter.\<close>

lemma sm_go_inv:
  assumes inv: "sm_inv s" and i: "i < sm_threads s" "i \<notin> set (waiters (sm_state (sm s)))"
    and o: "owns (sm_go s i q) i = owns s i"
    and q: "owner_pc_ok (sm_recursion (sm s)) ((sm_thr s i)\<lparr>sm_pc := q\<rparr>) (sm_owner (sm s) = sm_ident i)"
    and a: "sm_active (sm_state (sm s)) i (sm_pc (sm_thr s i)) \<longrightarrow> sm_active (sm_state (sm s)) i q \<or> sm_word s \<noteq> 0"
  shows "sm_inv (sm_go s i q)"
proof -
  let ?th = "(sm_thr s i)\<lparr>sm_pc := q\<rparr>"
  have owns: "owns (sm_go s i q) j = owns s j" for j using o by (cases "j = i") (auto simp: owns_def)
  show ?thesis
  proof (rule sm_move[OF inv i(1), where th = ?th])
    show "word_ok (sm_go s i q)" by (rule word_keep[OF sm_word_inv[OF inv] i(1), where th = ?th]) (use owns in auto)
    show "sleepers_ok (sm_go s i q)" by (rule sleep_keep[OF sm_sleep_inv[OF inv] i(1), where th = ?th]) (use i a in auto)
  qed (use owns q sm_excl_inv[OF inv i(1)] sm_owner_le[OF inv] in auto)
qed

text \<open>A step of the owner inside its ownership: the word stays locked.\<close>

lemma sm_owner_inv:
  assumes inv: "sm_inv s" and i: "i < sm_threads s" "owns s i"
    and t: "sm_threads t = sm_threads s" "sm_thr t = (sm_thr s)(i := th)" "sm_state (sm t) = sm_state (sm s)"
    and o: "owns t i" "\<And>j. j \<noteq> i \<Longrightarrow> sm_owner (sm t) = sm_ident j \<longleftrightarrow> sm_owner (sm s) = sm_ident j"
    and q: "owner_pc_ok (sm_recursion (sm t)) th (sm_owner (sm t) = sm_ident i)"
    and n: "sm_pc (sm_thr s i) \<noteq> LSleep" "sm_pc (sm_thr s i) \<noteq> GSleep" and b: "sm_owner (sm t) \<le> sm_threads s"
  shows "sm_inv t"
proof -
  note alone = owner_alone[OF sm_word_inv[OF inv] i]
  have owns: "owns t j = owns s j" for j using o i t by (cases "j = i") (auto simp: owns_def)
  have w: "sm_word t \<noteq> 0" using alone(1) t(3) by (simp add: SM_LOCKED_def)
  show ?thesis
  proof (rule sm_move[OF inv i(1) t(1,2)])
    show "word_ok t" by (rule word_keep[OF sm_word_inv[OF inv] i(1) t(1,2)]) (use owns t i in auto)
    show "sleepers_ok t"
      by (rule sleep_keep[OF sm_sleep_inv[OF inv] i(1) t(1,2)]) (use not_asleep[OF sm_sleep_inv[OF inv] n] w t in auto)
    show "sm_recursion (sm t) = sm_recursion (sm s)" if "j < sm_threads s" "j \<noteq> i" "sm_owner (sm s) = sm_ident j" for j
      using alone(2)[OF that(1,2)] that(3) by (simp add: owns_def)
  qed (use o q b in auto)
qed

lemma owner_unique:
  assumes inv: "sm_inv s" and i: "i < sm_threads s" "owns s i" and j: "sm_owner (sm s) = sm_ident j"
  shows "j = i"
proof (rule ccontr)
  assume "j \<noteq> i"
  moreover have "j < sm_threads s" using sm_owner_le[OF inv] j by (simp add: sm_ident_def)
  ultimately show False using owner_alone(2)[OF sm_word_inv[OF inv] i] j by (auto simp: owns_def)
qed

text \<open>Going to sleep and being woken.\<close>

lemma sm_park_inv:
  assumes inv: "sm_inv s" and i: "i < sm_threads s" and q: "q = LSleep \<or> q = GSleep" "sm_pc (sm_thr s i) = LWait v \<or> sm_pc (sm_thr s i) = GWait"
    and w: "sm_word s \<noteq> 0"
  shows "sm_inv (sm_set_futex (sm_go s i q) ((sm_state (sm s))\<lparr>waiters := waiters (sm_state (sm s)) @ [i]\<rparr>))" (is "sm_inv ?t")
proof -
  let ?th = "(sm_thr s i)\<lparr>sm_pc := q\<rparr>"
  note P = sm_pc_inv[OF inv i]
  have owns: "owns ?t j = owns s j" for j using q by (auto simp: owns_def sm_set_futex_def)
  show ?thesis
  proof (rule sm_move[OF inv i, where th = ?th])
    show "word_ok ?t" by (rule word_keep[OF sm_word_inv[OF inv] i, where th = ?th]) (use owns in \<open>auto simp: sm_set_futex_def\<close>)
    show "sleepers_ok ?t" using sm_sleep_inv[OF inv] i q w by (auto simp: sleepers_ok_def sm_set_futex_def)
    show "owner_pc_ok (sm_recursion (sm ?t)) ?th (sm_owner (sm ?t) = sm_ident i)"
      using P q by (auto simp: owner_pc_simps sm_set_futex_def)
  qed (use owns sm_excl_inv[OF inv i] sm_owner_le[OF inv] in \<open>auto simp: sm_set_futex_def\<close>)
qed

lemma sm_wake_inv:
  assumes inv: "sm_inv s" and i: "i < sm_threads s" "sm_pc (sm_thr s i) = UWake"
    and w: "w \<in> set (waiters (sm_state (sm s))) \<or> waiters (sm_state (sm s)) = []"
  shows "sm_inv (sm_set_futex (sm_go s i MIdle) (futex_wake (sm_state (sm s)) w))" (is "sm_inv ?t")
proof -
  let ?th = "(sm_thr s i)\<lparr>sm_pc := MIdle\<rparr>"
  have owns: "owns ?t j = owns s j" for j using i by (auto simp: owns_def sm_set_futex_def)
  have dist: "distinct (waiters (sm_state (sm s)))"
    and sl: "\<And>j. j \<in> set (waiters (sm_state (sm s))) \<Longrightarrow> j < sm_threads s \<and> (sm_pc (sm_thr s j) = LSleep \<or> sm_pc (sm_thr s j) = GSleep)"
    using sm_sleep_inv[OF inv] by (simp_all add: sleepers_ok_def)
  have "w < sm_threads ?t \<and> sm_active (sm_state (sm ?t)) w (sm_pc (sm_thr ?t w))" if "waiters (sm_state (sm s)) \<noteq> []"
    using w that sl[of w] i dist by (auto simp: sm_set_futex_def sm_active_def futex_wake_def)
  then have act: "waiters (sm_state (sm s)) \<noteq> [] \<Longrightarrow> \<exists>j < sm_threads ?t. sm_active (sm_state (sm ?t)) j (sm_pc (sm_thr ?t j))" by blast
  have ws: "waiters (sm_state (sm ?t)) = remove1 w (waiters (sm_state (sm s)))" "sm_threads ?t = sm_threads s"
    by (simp_all add: sm_set_futex_def futex_wake_def)
  have thr: "sm_pc (sm_thr ?t j) = sm_pc (sm_thr s j)" if "j \<in> set (waiters (sm_state (sm s)))" for j
    using sl[OF that] i by (auto simp: sm_set_futex_def)
  show ?thesis
  proof (rule sm_move[OF inv i(1), where th = ?th])
    show "word_ok ?t" by (rule word_keep[OF sm_word_inv[OF inv] i(1), where th = ?th]) (use owns in \<open>auto simp: sm_set_futex_def futex_wake_def\<close>)
    have "j < sm_threads s \<and> (sm_pc (sm_thr ?t j) = LSleep \<or> sm_pc (sm_thr ?t j) = GSleep)"
      if "j \<in> set (waiters (sm_state (sm ?t)))" for j
      using that sl[of j] thr[of j] notin_set_remove1 unfolding ws by metis
    then show "sleepers_ok ?t" unfolding sleepers_ok_def using act dist ws by (metis distinct_remove1 remove1.simps(1))
    show "owner_pc_ok (sm_recursion (sm ?t)) ?th (sm_owner (sm ?t) = sm_ident i)"
      using sm_pc_inv[OF inv i(1)] i(2) by (simp add: owner_pc_simps sm_set_futex_def)
  qed (use owns sm_excl_inv[OF inv i(1)] sm_owner_le[OF inv] in \<open>auto simp: sm_set_futex_def\<close>)
qed

lemma sm_spurious_inv:
  assumes inv: "sm_inv s" and i: "i < sm_threads s"
  shows "sm_inv (sm_set_futex s (futex_unpark (sm_state (sm s)) i))" (is "sm_inv ?t")
proof -
  have ws: "waiters (sm_state (sm ?t)) = removeAll i (waiters (sm_state (sm s)))" by (simp add: sm_set_futex_def futex_unpark_def)
  have same: "sm_threads ?t = sm_threads s" "sm_thr ?t = sm_thr s" "sm_word ?t = sm_word s" "\<And>j. owns ?t j = owns s j"
    "group_total ?t = group_total s" "sm_owner (sm ?t) = sm_owner (sm s)" "sm_recursion (sm ?t) = sm_recursion (sm s)"
    by (simp_all add: sm_set_futex_def futex_unpark_def owns_def group_total_def)
  have act: "sm_active (sm_state (sm ?t)) j p" if "sm_active (sm_state (sm s)) j p" for j p
    using that ws by (auto simp: sm_active_def split: mpc.splits)
  have "sleepers_ok ?t"
    using sm_sleep_inv[OF inv] act unfolding sleepers_ok_def same ws by (auto simp: distinct_removeAll)
  moreover have "word_ok ?t" using sm_word_inv[OF inv] unfolding word_ok_def same .
  ultimately show ?thesis using inv unfolding sm_inv_def same by simp
qed

lemma sm_lock_inv:
  assumes inv: "sm_inv s" and i: "i < sm_threads s" and st: "sm_lock s i weak spin (sm_pc (sm_thr s i)) = Some t"
  shows "sm_inv t"
proof -
  note P = sm_pc_inv[OF inv i] and S = not_asleep[OF sm_sleep_inv[OF inv], of i] and X = sm_excl_inv[OF inv i]
  have mine: "owns s i \<and> sm_owner (sm s) \<le> sm_threads s" if "sm_owner (sm s) = sm_ident i"
    using that i by (simp add: owns_def sm_ident_def)
  show ?thesis
  proof (cases "sm_pc (sm_thr s i)")
    case LRec
    show ?thesis
      by (rule sm_owner_inv[OF inv i, where th = "(sm_thr s i)\<lparr>sm_pc := MIdle, sm_excl := sm_excl (sm_thr s i) + 1\<rparr>"])
        (use LRec st P mine in \<open>auto simp: got_excl_def owner_pc_simps owns_def\<close>)
  next
    case LTry
    let ?t = "sm_set_word (sm_go s i LSetOwner) SM_LOCKED" and ?th = "(sm_thr s i)\<lparr>sm_pc := LSetOwner\<rparr>"
    have "sm_inv ?t" if z: "sm_word s = 0"
    proof (rule sm_move[OF inv i, where th = ?th])
      have no: "\<not> owns s j" if "j < sm_threads s" for j
        using unlocked_no_owner[OF sm_word_inv[OF inv] _ that] z by (simp add: SM_LOCKED_def)
      have g: "sm_group (sm_thr s i) = 0" using no_owner_word[OF sm_word_inv[OF inv] no] z group_member[OF i] by simp
      show "word_ok ?t" by (rule take_word[OF sm_word_inv[OF inv] z i, where th = ?th]) (use LTry in \<open>auto simp: sm_set_word_def owns_def\<close>)
      show "sleepers_ok ?t"
        by (rule sleep_keep[OF sm_sleep_inv[OF inv] i, where th = ?th]) (use LTry S in \<open>auto simp: sm_set_word_def SM_LOCKED_def\<close>)
      show "owner_pc_ok (sm_recursion (sm ?t)) ?th (sm_owner (sm ?t) = sm_ident i)"
        using LTry P X no[OF i] g by (simp add: owner_pc_simps sm_set_word_def)
    qed (use sm_owner_le[OF inv] in \<open>auto simp: sm_set_word_def owns_def\<close>)
    moreover have "sm_inv (sm_go s i q)" if "q = LTry \<or> q = LLoad" for q
      by (rule sm_go_inv[OF inv i]) (use LTry S P that in \<open>auto simp: owns_def owner_pc_simps sm_active_def\<close>)
    ultimately show ?thesis using LTry st by (auto simp: SM_UNLOCKED_def split: if_splits)
  next
    case LSetOwner
    then have o: "owns s i" by (simp add: owns_def)
    show ?thesis
      by (rule sm_owner_inv[OF inv i o, where th = "(sm_thr s i)\<lparr>sm_pc := LSetRec\<rparr>"])
        (use LSetOwner st P i owner_unique[OF inv i o] in \<open>auto simp: owner_pc_simps owns_def sm_ident_def\<close>)
  next
    case LSetRec
    show ?thesis
      by (rule sm_owner_inv[OF inv i, where th = "(sm_thr s i)\<lparr>sm_pc := MIdle, sm_excl := sm_excl (sm_thr s i) + 1\<rparr>"])
        (use LSetRec st P mine in \<open>auto simp: got_excl_def owner_pc_simps owns_def\<close>)
  next
    case LLoad
    have "sm_inv (sm_go s i q)" if "q = LTry \<or> (\<exists>v. q = LWait v \<and> v \<noteq> 0)" for q
      by (rule sm_go_inv[OF inv i]) (use LLoad S P that in \<open>auto simp: owns_def owner_pc_simps sm_active_def\<close>)
    then show ?thesis using LLoad st by (auto simp: SM_UNLOCKED_def)
  next
    case (LWait v)
    then have "v \<noteq> 0" using P by (simp add: owner_pc_simps)
    moreover have "sm_inv (sm_go s i LLoad)"
      by (rule sm_go_inv[OF inv i]) (use LWait S P in \<open>auto simp: owns_def owner_pc_simps sm_active_def\<close>)
    ultimately show ?thesis using LWait st sm_park_inv[OF inv i, of LSleep v] by (auto simp: futex_wait_def split: if_splits)
  next
    case LSleep
    have "sm_inv (sm_go s i LLoad)" if "i \<notin> set (waiters (sm_state (sm s)))"
      by (rule sm_go_inv[OF inv i]) (use LSleep P that in \<open>auto simp: owns_def owner_pc_simps sm_active_def\<close>)
    then show ?thesis using LSleep st by (auto split: if_splits)
  qed (use st in auto)
qed

lemma even_word: "w AND SM_LOCKED = 0 \<longleftrightarrow> even (unat w)" for w :: u32
  by (simp add: SM_LOCKED_def and_one_eq even_iff_mod_2_eq_zero flip: unat_eq_zero) (simp add: unat_mod even_iff_mod_2_eq_zero)

lemma locked_odd: "SM_LOCKED AND SM_LOCKED \<noteq> 0"
  by (simp add: SM_LOCKED_def)

text \<open>The group count moves while nobody has the exclusive side.\<close>

lemma group_move_inv:
  assumes inv: "sm_inv s" and i: "i < sm_threads s" "i \<notin> set (waiters (sm_state (sm s)))"
    and no: "sm_word s \<noteq> SM_LOCKED" and p: "sm_pc th \<noteq> LSetOwner" "sm_pc th \<noteq> UStore" "sm_excl th = 0"
    and t: "t = sm_set_word (s\<lparr>sm_thr := (sm_thr s)(i := th)\<rparr>) v"
    and v: "unat v + 2 * sm_group (sm_thr s i) = unat (sm_word s) + 2 * sm_group th"
    and q: "owner_pc_ok (sm_recursion (sm s)) th False"
    and a: "v \<noteq> 0 \<or> sm_active (sm_state (sm s)) i (sm_pc th)"
  shows "sm_inv t"
proof -
  have free: "\<not> owns s j" if "j < sm_threads s" for j using unlocked_no_owner[OF sm_word_inv[OF inv] no that] .
  have mine: "sm_owner (sm s) \<noteq> sm_ident i" using free[OF i(1)] by (simp add: owns_def)
  have tt: "sm_threads t = sm_threads s" "sm_thr t = (sm_thr s)(i := th)" "sm_owner (sm t) = sm_owner (sm s)"
    "sm_recursion (sm t) = sm_recursion (sm s)" "waiters (sm_state (sm t)) = waiters (sm_state (sm s))" "sm_word t = v"
    by (simp_all add: t sm_set_word_def)
  have act: "sm_active (sm_state (sm t)) j x = sm_active (sm_state (sm s)) j x" for j x by (simp add: sm_active_def tt(5) cong: mpc.case_cong)
  have free': "\<not> owns t j" if "j < sm_threads t" for j
    using free[of j] that tt p mine by (cases "j = i") (auto simp: owns_def)
  show ?thesis
  proof (rule sm_move[OF inv i(1) tt(1,2)])
    have "unat v = 2 * group_total t"
      using group_upd[OF i(1) tt(1,2)] no_owner_word[OF sm_word_inv[OF inv] free] v by simp
    then show "word_ok t" using free' tt(6) by (intro free_word) simp_all
    show "sleepers_ok t" by (rule sleep_keep[OF sm_sleep_inv[OF inv] i(1) tt(1,2)]) (use i a tt act in auto)
  qed (use q p mine tt sm_owner_le[OF inv] in auto)
qed

lemma sm_lock_group_inv:
  assumes inv: "sm_inv s" and i: "i < sm_threads s" and st: "sm_lock_group s i weak (sm_pc (sm_thr s i)) = Some t"
  shows "sm_inv t"
proof -
  note P = sm_pc_inv[OF inv i] and S = not_asleep[OF sm_sleep_inv[OF inv], of i] and X = sm_excl_inv[OF inv i]
  have retry: "sm_inv (sm_go s i (group_try (sm_word s)))" if "sm_pc (sm_thr s i) = GLoad \<or> (\<exists>v. sm_pc (sm_thr s i) = GCas v)"
    by (rule sm_go_inv[OF inv i])
      (use that S P in \<open>auto simp: owns_def owner_pc_simps sm_active_def group_try_def checked_add_def SM_ONE_GROUP_def\<close>)
  show ?thesis
  proof (cases "sm_pc (sm_thr s i)")
    case GRec
    show ?thesis
      by (rule sm_owner_inv[OF inv i, where th = "(sm_thr s i)\<lparr>sm_pc := MIdle, sm_group := sm_group (sm_thr s i) + 1\<rparr>"])
        (use GRec st P sm_owner_le[OF inv] in \<open>auto simp: got_group_def owner_pc_simps owns_def\<close>)
  next
    case GLoad
    with st retry show ?thesis by simp
  next
    case (GCas v)
    have e: "even (unat v)" "sm_owner (sm s) \<noteq> sm_ident i" using P GCas by (simp_all add: owner_pc_simps even_word)
    have "sm_inv (sm_go s i MPanic)" if "checked_add v SM_ONE_GROUP = None"
      by (rule sm_go_inv[OF inv i]) (use GCas S P that in \<open>auto simp: owns_def owner_pc_simps sm_active_def\<close>)
    moreover have "sm_inv (sm_set_word (got_group s i) w)" if w: "checked_add v SM_ONE_GROUP = Some w" "sm_word s = v" for w
    proof (rule group_move_inv[OF inv i, where th = "(sm_thr s i)\<lparr>sm_pc := MIdle, sm_group := sm_group (sm_thr s i) + 1\<rparr>" and v = w])
      show "sm_word s \<noteq> SM_LOCKED" using e(1) w(2) by (auto simp: SM_LOCKED_def)
    qed (use GCas S e X w unat_checked_add[OF w(1)] in \<open>auto simp: got_group_def owner_pc_simps SM_ONE_GROUP_def owns_def\<close>)
    ultimately show ?thesis using GCas st retry by (auto split: option.splits if_splits)
  next
    case GCheck
    have "sm_inv (sm_go s i q)" if "q = GWait \<or> q = GLoad" for q
      by (rule sm_go_inv[OF inv i]) (use GCheck S P that in \<open>auto simp: owns_def owner_pc_simps sm_active_def\<close>)
    then show ?thesis using GCheck st by auto
  next
    case GWait
    have "sm_inv (sm_go s i GCheck)"
      by (rule sm_go_inv[OF inv i]) (use GWait S P in \<open>auto simp: owns_def owner_pc_simps sm_active_def\<close>)
    then show ?thesis using GWait st sm_park_inv[OF inv i, of GSleep] by (auto simp: futex_wait_def SM_LOCKED_def split: if_splits)
  next
    case GSleep
    have "sm_inv (sm_go s i GCheck)" if "i \<notin> set (waiters (sm_state (sm s)))"
      by (rule sm_go_inv[OF inv i]) (use GSleep P that in \<open>auto simp: owns_def owner_pc_simps sm_active_def\<close>)
    then show ?thesis using GSleep st by (auto split: if_splits)
  qed (use st in auto)
qed

lemma sm_unlock_inv:
  assumes inv: "sm_inv s" and i: "i < sm_threads s" and st: "sm_unlock s i w (sm_pc (sm_thr s i)) = Some t"
  shows "sm_inv t"
proof -
  note P = sm_pc_inv[OF inv i] and S = not_asleep[OF sm_sleep_inv[OF inv], of i] and X = sm_excl_inv[OF inv i]
  show ?thesis
  proof (cases "sm_pc (sm_thr s i)")
    case (USub g)
    let ?p = "if sm_recursion (sm s) > 1 then MIdle else UClear"
    show ?thesis
      by (rule sm_owner_inv[OF inv i, where th = "if g then (sm_thr s i)\<lparr>sm_pc := ?p, sm_group := sm_group (sm_thr s i) - 1\<rparr>
            else (sm_thr s i)\<lparr>sm_pc := ?p, sm_excl := sm_excl (sm_thr s i) - 1\<rparr>"])
        (use USub st P sm_owner_le[OF inv] in \<open>auto simp: Let_def lost_group_def lost_excl_def owner_pc_simps owns_def split: if_splits\<close>)
  next
    case UClear
    then have o: "owns s i" using P by (simp add: owns_def owner_pc_simps)
    show ?thesis
      by (rule sm_owner_inv[OF inv i o, where th = "(sm_thr s i)\<lparr>sm_pc := UStore\<rparr>"])
        (use UClear st P owner_unique[OF inv i o] in \<open>auto simp: owner_pc_simps owns_def\<close>)
  next
    case UStore
    let ?th = "(sm_thr s i)\<lparr>sm_pc := UWake\<rparr>"
    have o: "owns s i" using UStore by (simp add: owns_def)
    note alone = owner_alone[OF sm_word_inv[OF inv] i o]
    have t: "t = sm_set_word (sm_go s i UWake) 0" using st UStore by (simp add: SM_UNLOCKED_def)
    have tt: "sm_threads t = sm_threads s" "sm_thr t = (sm_thr s)(i := ?th)" by (simp_all add: t sm_set_word_def)
    have no: "\<not> owns t j" if "j < sm_threads t" for j
      using alone(2)[of j] that P UStore by (cases "j = i") (auto simp: t sm_set_word_def owns_def owner_pc_simps)
    have "sm_group (sm_thr t j) = 0" if "j < sm_threads t" for j
      using alone(3)[of j] that P UStore by (cases "j = i") (auto simp: t sm_set_word_def owner_pc_simps)
    then have g: "group_total t = 0" by (simp add: group_total_def)
    show ?thesis
    proof (rule sm_move[OF inv i tt])
      show "word_ok t" by (rule free_word[OF no]) (simp_all add: g, simp add: t sm_set_word_def)
      show "sleepers_ok t"
        by (rule sleep_keep[OF sm_sleep_inv[OF inv] i tt]) (use UStore S in \<open>auto simp: t sm_set_word_def sm_active_def\<close>)
    qed (use UStore P sm_owner_le[OF inv] in \<open>auto simp: t sm_set_word_def owner_pc_simps\<close>)
  next
    case UGroup
    then have g: "0 < sm_group (sm_thr s i)" "sm_owner (sm s) \<noteq> sm_ident i" using P by (simp_all add: owner_pc_simps)
    have no: "\<not> owns s j" if "j < sm_threads s" for j
    proof
      assume o: "owns s j"
      show False
      proof (cases "j = i")
        case True
        with o UGroup g show False by (simp add: owns_def)
      next
        case False
        with owner_alone(3)[OF sm_word_inv[OF inv] that o i] g show False by simp
      qed
    qed
    have w: "unat (sm_word s) = 2 * group_total s" using no_owner_word[OF sm_word_inv[OF inv] no] .
    then have ge: "2 \<le> unat (sm_word s)" using group_member[OF i] g by simp
    then have m: "unat (sm_word s - SM_ONE_GROUP) = unat (sm_word s) - 2"
      by (simp add: SM_ONE_GROUP_def unat_sub word_le_nat_alt)
    have z: "sm_word s - SM_ONE_GROUP = 0 \<longleftrightarrow> sm_word s = SM_ONE_GROUP" by simp
    show ?thesis
      by (rule group_move_inv[OF inv i, where v = "sm_word s - SM_ONE_GROUP" and
          th = "(sm_thr s i)\<lparr>sm_pc := if sm_word s = SM_ONE_GROUP then UWake else MIdle, sm_group := sm_group (sm_thr s i) - 1\<rparr>"])
        (use UGroup st S X no[OF i] g w ge m z in \<open>auto simp: lost_group_def owner_pc_simps sm_active_def SM_LOCKED_def\<close>)
  next
    case UWake
    with st sm_wake_inv[OF inv i UWake] show ?thesis by (auto split: if_splits)
  qed (use st in auto)
qed

lemma sm_call_inv:
  assumes inv: "sm_inv s" and i: "i < sm_threads s" "sm_pc (sm_thr s i) = MIdle"
    and q: "owner_pc_ok (sm_recursion (sm s)) ((sm_thr s i)\<lparr>sm_pc := q\<rparr>) (sm_owner (sm s) = sm_ident i)" "q \<noteq> LSetOwner" "q \<noteq> UStore"
  shows "sm_inv (sm_go s i q)"
  by (rule sm_go_inv[OF inv i(1)]) (use i q not_asleep[OF sm_sleep_inv[OF inv], of i] in \<open>auto simp: owns_def sm_active_def\<close>)

lemma sm_idle_owner:
  assumes inv: "sm_inv s" and i: "i < sm_threads s" "sm_pc (sm_thr s i) = MIdle" "0 < sm_excl (sm_thr s i)"
  shows "sm_owner (sm s) = sm_ident i"
  using sm_excl_inv[OF inv i(1)] i by (auto simp: owns_def)

lemma sm_inv_step:
  assumes inv: "sm_inv s" and st: "sm_step a s = Some t"
  shows "sm_inv t"
proof (cases a)
  case (SmLock i)
  with st have i: "i < sm_threads s" "sm_pc (sm_thr s i) = MIdle"
    and t: "t = sm_go s i (if sm_owner (sm s) = sm_ident i then LRec else LTry)"
    by (auto simp: sm_step_def Let_def split: if_splits)
  show ?thesis unfolding t by (rule sm_call_inv[OF inv i]) (use sm_pc_inv[OF inv i(1)] i in \<open>auto simp: owner_pc_simps\<close>)
next
  case (SmLockGroup i)
  with st have i: "i < sm_threads s" "sm_pc (sm_thr s i) = MIdle"
    and t: "t = sm_go s i (if sm_owner (sm s) = sm_ident i then GRec else GLoad)"
    by (auto simp: sm_step_def Let_def split: if_splits)
  show ?thesis unfolding t by (rule sm_call_inv[OF inv i]) (use sm_pc_inv[OF inv i(1)] i in \<open>auto simp: owner_pc_simps\<close>)
next
  case (SmDrop i)
  with st have i: "i < sm_threads s" "sm_pc (sm_thr s i) = MIdle" "0 < sm_excl (sm_thr s i)"
    and t: "t = sm_go s i (if sm_owner (sm s) = sm_ident i then USub False else MPanic)"
    by (auto simp: sm_step_def Let_def split: if_splits)
  show ?thesis unfolding t
    by (rule sm_call_inv[OF inv i(1,2)]) (use sm_pc_inv[OF inv i(1)] i sm_idle_owner[OF inv i] in \<open>auto simp: owner_pc_simps\<close>)
next
  case (SmDropGroup i)
  with st have i: "i < sm_threads s" "sm_pc (sm_thr s i) = MIdle" "0 < sm_group (sm_thr s i)"
    and t: "t = sm_go s i (if sm_owner (sm s) = sm_ident i then USub True else UGroup)"
    by (auto simp: sm_step_def Let_def split: if_splits)
  show ?thesis unfolding t by (rule sm_call_inv[OF inv i(1,2)]) (use sm_pc_inv[OF inv i(1)] i in \<open>auto simp: owner_pc_simps\<close>)
next
  case (SmStep i weak spin w)
  with st have i: "i < sm_threads s" by (auto simp: sm_step_def Let_def split: if_splits)
  with SmStep st sm_lock_inv[OF inv i] sm_lock_group_inv[OF inv i] sm_unlock_inv[OF inv i] show ?thesis
    by (auto simp: sm_step_def Let_def split: if_splits option.splits)
next
  case (SmSpurious i)
  with st sm_spurious_inv[OF inv] show ?thesis by (auto simp: sm_step_def Let_def split: if_splits)
qed

lemma sm_inv_init: "sm_inv (sm_init n)"
  by (simp add: sm_inv_def sm_init_def smutex_new_def futex_new_def SM_UNLOCKED_def word_ok_def sleepers_ok_def owns_def
      group_total_def owner_pc_simps)

interpretation smutex: machine sm_step "sm_init n" sm_inv
  for n
  by unfold_locales (auto intro: sm_inv_init sm_inv_step)

section \<open>Properties\<close>

text \<open>
  C20: mutual exclusion of \<open>SMutex\<close>. In every reachable state a thread with an exclusive guard is
  the owner (so dropping the guard between operations cannot panic), the word reads locked, no
  other thread has an exclusive or a group guard, and between operations the recursion
  counter is the number of guards of the owner. Without an owner the word is twice the
  number of group guards.
\<close>

theorem smutex_exclusion:
  assumes "reachable sm_step (sm_init n) s"
  shows "(\<forall>i. i < sm_threads s \<and> 0 < sm_excl (sm_thr s i) \<longrightarrow>
      sm_owner (sm s) = sm_ident i \<and> sm_is_locked (sm s) \<and>
      (\<forall>j. j < sm_threads s \<and> j \<noteq> i \<longrightarrow> sm_excl (sm_thr s j) = 0 \<and> sm_group (sm_thr s j) = 0) \<and>
      (sm_pc (sm_thr s i) = MIdle \<longrightarrow> sm_recursion (sm s) = sm_excl (sm_thr s i) + sm_group (sm_thr s i))) \<and>
    (\<not> sm_is_locked (sm s) \<longrightarrow> unat (sm_word s) = 2 * group_total s)"
proof -
  have inv: "sm_inv s" by (rule smutex.always[OF assms])
  have "sm_owner (sm s) = sm_ident i \<and> sm_is_locked (sm s) \<and>
      (\<forall>j. j < sm_threads s \<and> j \<noteq> i \<longrightarrow> sm_excl (sm_thr s j) = 0 \<and> sm_group (sm_thr s j) = 0) \<and>
      (sm_pc (sm_thr s i) = MIdle \<longrightarrow> sm_recursion (sm s) = sm_excl (sm_thr s i) + sm_group (sm_thr s i))"
    if i: "i < sm_threads s" "0 < sm_excl (sm_thr s i)" for i
  proof -
    note P = sm_pc_inv[OF inv i(1)]
    have o: "owns s i" using sm_excl_inv[OF inv i(1)] i(2) by auto
    then have m: "sm_owner (sm s) = sm_ident i" using P i(2) by (auto simp: owns_def owner_pc_simps)
    note alone = owner_alone[OF sm_word_inv[OF inv] i(1) o]
    have "sm_excl (sm_thr s j) = 0 \<and> sm_group (sm_thr s j) = 0" if "j < sm_threads s" "j \<noteq> i" for j
      using alone(2,3)[OF that] sm_excl_inv[OF inv that(1)] by simp
    moreover have "sm_recursion (sm s) = sm_excl (sm_thr s i) + sm_group (sm_thr s i)" if "sm_pc (sm_thr s i) = MIdle"
      using P that m by (simp add: owner_pc_simps)
    moreover have "sm_is_locked (sm s)" unfolding sm_is_locked_def alone(1) by (rule locked_odd)
    ultimately show ?thesis using m by blast
  qed
  moreover have "unat (sm_word s) = 2 * group_total s" if "\<not> sm_is_locked (sm s)"
  proof (rule no_owner_word[OF sm_word_inv[OF inv]])
    fix i assume "i < sm_threads s"
    then show "\<not> owns s i" using owner_alone(1)[OF sm_word_inv[OF inv]] that locked_odd by (auto simp: sm_is_locked_def)
  qed
  ultimately show ?thesis by blast
qed

theorem smutex_exclusion_witness:
  "\<exists>s. reachable sm_step (sm_init 2) s \<and> sm_excl (sm_thr s 0) = 1 \<and> sm_group (sm_thr s 0) = 1 \<and> sm_recursion (sm s) = 2 \<and> sm_group (sm_thr s 1) = 0"
proof -
  have "run_to sm_step [SmLock 0, SmStep 0 False False 0, SmStep 0 False False 0, SmStep 0 False False 0, SmLockGroup 0, SmStep 0 False False 0,
      SmLockGroup 1, SmStep 1 False False 0] (sm_init 2)
      (\<lambda>s. sm_excl (sm_thr s 0) = 1 \<and> sm_group (sm_thr s 0) = 1 \<and> sm_pc (sm_thr s 0) = MIdle \<and> sm_threads s = 2)" by code_simp
  then obtain s where s: "reachable sm_step (sm_init 2) s" "sm_excl (sm_thr s 0) = 1" "sm_group (sm_thr s 0) = 1"
    "sm_pc (sm_thr s 0) = MIdle" "sm_threads s = 2" by (auto dest: run_toD)
  with smutex_exclusion[OF s(1), THEN conjunct1, rule_format, of 0] have "sm_recursion (sm s) = 2" "sm_group (sm_thr s 1) = 0" by simp_all
  with s show ?thesis by blast
qed

text \<open>
  C21: no lost wake-up in \<open>SMutex\<close>. In every reachable state with a thread asleep on the futex
  either the lock is held, so a release and its wake are still to come, or some thread is
  awake in an operation and will look at the word or wake a sleeper. An operation that hits
  the group count overflow is not counted as such a thread.
\<close>

theorem smutex_no_lost_wakeup:
  assumes "reachable sm_step (sm_init n) s" "waiters (sm_state (sm s)) \<noteq> []"
  shows "sm_word s \<noteq> SM_UNLOCKED \<or> (\<exists>i < sm_threads s. sm_active (sm_state (sm s)) i (sm_pc (sm_thr s i)))"
  using sm_sleep_inv[OF smutex.always[OF assms(1)]] assms(2) unfolding sleepers_ok_def SM_UNLOCKED_def by blast

theorem smutex_no_lost_wakeup_witness:
  "\<exists>s. reachable sm_step (sm_init 2) s \<and> waiters (sm_state (sm s)) = [1] \<and> sm_word s = 0 \<and>
     (\<exists>i < sm_threads s. sm_active (sm_state (sm s)) i (sm_pc (sm_thr s i)))"
proof -
  have "run_to sm_step [SmLock 0, SmStep 0 False False 0, SmStep 0 False False 0, SmStep 0 False False 0,
      SmLock 1, SmStep 1 False False 0, SmStep 1 False False 0, SmStep 1 False False 0,
      SmDrop 0, SmStep 0 False False 0, SmStep 0 False False 0, SmStep 0 False False 0] (sm_init 2)
      (\<lambda>s. waiters (sm_state (sm s)) = [1] \<and> sm_word s = 0)" by code_simp
  then obtain s where s: "reachable sm_step (sm_init 2) s" "waiters (sm_state (sm s)) = [1]" "sm_word s = 0" by (auto dest: run_toD)
  with smutex_no_lost_wakeup[OF s(1)] show ?thesis by (auto simp: SM_UNLOCKED_def)
qed

end
