(* ===== verification/CondVar.thy ===== *)
theory CondVar
  imports Futex
begin

text \<open>
  \<open>SCondVar\<close> of \<open>src/core/scondvar.rs\<close>: a condition variable with a count of registered waiters, a
  pool of wake tokens and a futex that is bumped by every notification. The accesses of
  \<open>wait\<close> and of the two notifications are the steps; releasing and taking the mutex are
  steps of the client (\<open>WUnlock\<close> and \<open>WLock\<close> are its places in the code). Counters are
  natural numbers; the futex word keeps its 32 bits.
\<close>

record scondvar =
  cv_futex :: futex
  cv_waiters :: nat
  cv_to_wake :: nat

datatype wpc = WReg | WUnlock | WFutex | WLoad u32 | WCas u32 nat | WPark u32 | WSleep | WDec | WLock

text \<open>The flag tells \<open>notify_all\<close> from \<open>notify_one\<close>.\<close>

datatype npc = NLoad bool | NAdd bool nat | NBump bool nat | NWake bool nat

definition scondvar_new :: scondvar where
  "scondvar_new = \<lparr>cv_futex = futex_new 0, cv_waiters = 0, cv_to_wake = 0\<rparr>"

text \<open>The test of the token count in the inner loop of \<open>wait\<close>.\<close>

definition try_token :: "u32 \<Rightarrow> nat \<Rightarrow> wpc" where
  "try_token v k = (if 0 < k then WCas v k else WPark v)"

fun cv_wait :: "scondvar \<Rightarrow> tid \<Rightarrow> bool \<Rightarrow> wpc \<Rightarrow> (scondvar \<times> wpc) option" where
  "cv_wait cv i weak WReg = Some (cv\<lparr>cv_waiters := cv_waiters cv + 1\<rparr>, WUnlock)"
| "cv_wait cv i weak WFutex = Some (cv, WLoad (fword (cv_futex cv)))"
| "cv_wait cv i weak (WLoad v) = Some (cv, try_token v (cv_to_wake cv))"
| "cv_wait cv i weak (WCas v k) =
     Some (if cv_to_wake cv = k \<and> \<not> weak then (cv\<lparr>cv_to_wake := k - 1\<rparr>, WDec)
           else (cv, try_token v (cv_to_wake cv)))"
| "cv_wait cv i weak (WPark v) =
     (case futex_wait (cv_futex cv) v i of
        (f, True) \<Rightarrow> Some (cv\<lparr>cv_futex := f\<rparr>, WSleep)
      | (f, False) \<Rightarrow> Some (cv, WFutex))"
| "cv_wait cv i weak WSleep = (if i \<in> set (waiters (cv_futex cv)) then None else Some (cv, WFutex))"
| "cv_wait cv i weak WDec = Some (cv\<lparr>cv_waiters := cv_waiters cv - 1\<rparr>, WLock)"
| "cv_wait cv i weak _ = None"

text \<open>
  \<open>notify_one\<close> adds one token and wakes one sleeper, \<open>notify_all\<close> adds as many tokens as waiters
  were seen and wakes all. The result is \<open>None\<close> in the second component when the call returns.
\<close>

fun cv_notify :: "scondvar \<Rightarrow> tid \<Rightarrow> npc \<Rightarrow> (scondvar \<times> npc option) option" where
  "cv_notify cv w (NLoad b) = Some (cv, if 0 < cv_waiters cv then Some (NAdd b (if b then cv_waiters cv else 1)) else None)"
| "cv_notify cv w (NAdd b k) = Some (cv\<lparr>cv_to_wake := cv_to_wake cv + k\<rparr>, Some (NBump b k))"
| "cv_notify cv w (NBump b k) = Some (cv\<lparr>cv_futex := futex_add (cv_futex cv) 1\<rparr>, Some (NWake b k))"
| "cv_notify cv w (NWake b k) =
     (if b then Some (cv\<lparr>cv_futex := futex_wake_all (cv_futex cv)\<rparr>, None)
      else if w \<in> set (waiters (cv_futex cv)) \<or> waiters (cv_futex cv) = []
      then Some (cv\<lparr>cv_futex := futex_wake (cv_futex cv) w\<rparr>, None) else None)"

section \<open>What a place in the code counts for\<close>

text \<open>
  Registered and without a token yet; awake among those, that is sure to look at the token
  count before it parks; about to park with the current futex value.
\<close>

fun w_reg :: "wpc \<Rightarrow> nat" where
  "w_reg WUnlock = 1"
| "w_reg WFutex = 1"
| "w_reg (WLoad v) = 1"
| "w_reg (WCas v k) = 1"
| "w_reg (WPark v) = 1"
| "w_reg WSleep = 1"
| "w_reg _ = 0"

fun w_awake :: "futex \<Rightarrow> tid \<Rightarrow> wpc \<Rightarrow> nat" where
  "w_awake f i (WPark v) = (if v = fword f then 0 else 1)"
| "w_awake f i WSleep = (if i \<in> set (waiters f) then 0 else 1)"
| "w_awake f i p = w_reg p"

fun w_park :: "futex \<Rightarrow> wpc \<Rightarrow> nat" where
  "w_park f (WPark v) = (if v = fword f then 1 else 0)"
| "w_park f _ = 0"

fun w_val :: "wpc \<Rightarrow> u32 option" where
  "w_val (WLoad v) = Some v"
| "w_val (WCas v k) = Some v"
| "w_val (WPark v) = Some v"
| "w_val _ = None"

fun w_pos :: "wpc \<Rightarrow> bool" where
  "w_pos (WCas v k) = (0 < k)"
| "w_pos _ = True"

lemma w_reg_split: "w_reg p = w_awake f i p + w_park f p + (if p = WSleep \<and> i \<in> set (waiters f) then 1 else 0)"
  by (cases p) auto

lemma w_awake_fewer: "fword g = fword f \<Longrightarrow> set (waiters g) \<subseteq> set (waiters f) \<Longrightarrow> w_awake f i p \<le> w_awake g i p"
  by (cases p) auto

lemma w_awake_bump: "w_val p \<noteq> Some (fword g) \<Longrightarrow> waiters g = waiters f \<Longrightarrow> w_awake f i p \<le> w_awake g i p \<and> w_park g p = 0"
  by (cases p) auto

lemma try_token_cases: "try_token v k = WPark v \<and> k = 0 \<or> try_token v k = WCas v k \<and> 0 < k"
  by (simp add: try_token_def)

end
