(* ===== verification/Mpmc.thy ===== *)
theory Mpmc
  imports CondVar
begin

text \<open>
  The channel of \<open>src/channels/mpmc.rs\<close> as a small-step machine over any number of threads: a
  buffer, the mutex, the condition variable and the closed flag. The mutex is its
  contract, one holder at a time; the buffer, only touched by the holder, is a list used
  first in, first out (theory \<open>Vec_Ops\<close> shows that \<open>AtomicVec\<close> is such a list). Ghost fields record the
  call a thread is in, the calls that have returned with their answers, in the order in which
  they released the mutex, and how often the futex was bumped.
\<close>

datatype 'v result = SendOk | SendErr 'v | TryReceived "'v option" | Received "'v option" | Closed

datatype 'v mp_call = SendCall 'v | TryRecvCall | RecvCall | CloseCall

datatype 'v pc =
    Idle
  | SendLock 'v | SendClosed 'v | SendFull 'v | SendPush 'v
  | Notify npc
  | Unlock "'v result"
  | TryLock | TryPop
  | RecvLock | RecvPop | RecvClosed | Wait wpc | WaitDrop
  | CloseLock | CloseSet

record 'v mpmc =
  buffer :: "'v list"
  mutex :: "tid option"
  condvar :: scondvar
  bounded :: nat
  closed :: bool
  bumps :: nat

record 'v mpmc_sys =
  chan :: "'v mpmc"
  mp_threads :: nat
  mp_pc :: "tid \<Rightarrow> 'v pc"
  mp_result :: "tid \<Rightarrow> 'v result option"
  mp_called :: "tid \<Rightarrow> 'v mp_call option"                  \<comment> \<open>ghost: the last call a thread made\<close>
  mp_log :: "(tid \<times> 'v mp_call \<times> 'v result) list"      \<comment> \<open>ghost: the calls that returned\<close>

datatype 'v mp_act = MpSend tid 'v | MpTryRecv tid | MpRecv tid | MpClose tid | MpStep tid bool tid | MpSpurious tid

definition mpmc_bounded :: "nat \<Rightarrow> 'v mpmc" where
  "mpmc_bounded n = \<lparr>buffer = [], mutex = None, condvar = scondvar_new, bounded = n, closed = False, bumps = 0\<rparr>"

definition mpmc_new :: "'v mpmc" where
  "mpmc_new = mpmc_bounded 0"

definition mp_init :: "nat \<Rightarrow> nat \<Rightarrow> 'v mpmc_sys" where
  "mp_init n k = \<lparr>chan = mpmc_bounded k, mp_threads = n, mp_pc = (\<lambda>_. Idle), mp_result = (\<lambda>_. None),
     mp_called = (\<lambda>_. None), mp_log = []\<rparr>"

text \<open>Taking the mutex; \<open>AtomicVec::pop\<close> by its holder.\<close>

definition with_lock :: "'v mpmc \<Rightarrow> tid \<Rightarrow> 'v pc \<Rightarrow> ('v mpmc \<times> 'v pc) option" where
  "with_lock c i p = (if mutex c = None then Some (c\<lparr>mutex := Some i\<rparr>, p) else None)"

definition chan_pop :: "'v mpmc \<Rightarrow> 'v mpmc" where
  "chan_pop c = c\<lparr>buffer := tl (buffer c)\<rparr>"

definition is_full :: "'v mpmc \<Rightarrow> bool" where
  "is_full c \<longleftrightarrow> 0 < bounded c \<and> bounded c \<le> length (buffer c)"

fun mpmc_send :: "'v mpmc \<Rightarrow> tid \<Rightarrow> 'v pc \<Rightarrow> ('v mpmc \<times> 'v pc) option" where
  "mpmc_send c i (SendLock v) = with_lock c i (SendClosed v)"
| "mpmc_send c i (SendClosed v) = Some (c, if closed c then Unlock (SendErr v) else SendFull v)"
| "mpmc_send c i (SendFull v) = Some (c, if is_full c then Unlock (SendErr v) else SendPush v)"
| "mpmc_send c i (SendPush v) = Some (c\<lparr>buffer := buffer c @ [v]\<rparr>, Notify (NLoad False))"
| "mpmc_send c i _ = None"

fun mpmc_try_recv :: "'v mpmc \<Rightarrow> tid \<Rightarrow> 'v pc \<Rightarrow> ('v mpmc \<times> 'v pc) option" where
  "mpmc_try_recv c i TryLock = with_lock c i TryPop"
| "mpmc_try_recv c i TryPop =
     (case buffer c of [] \<Rightarrow> Some (c, Unlock (TryReceived None)) | v # _ \<Rightarrow> Some (chan_pop c, Unlock (TryReceived (Some v))))"
| "mpmc_try_recv c i _ = None"

text \<open>The guard returned by \<open>wait\<close> is dropped at once, and the loop locks again.\<close>

fun mpmc_recv :: "'v mpmc \<Rightarrow> tid \<Rightarrow> bool \<Rightarrow> 'v pc \<Rightarrow> ('v mpmc \<times> 'v pc) option" where
  "mpmc_recv c i weak RecvLock = with_lock c i RecvPop"
| "mpmc_recv c i weak RecvPop =
     (case buffer c of [] \<Rightarrow> Some (c, RecvClosed) | v # _ \<Rightarrow> Some (chan_pop c, Unlock (Received (Some v))))"
| "mpmc_recv c i weak RecvClosed = Some (c, if closed c then Unlock (Received None) else Wait WReg)"
| "mpmc_recv c i weak (Wait w) =
     (if w = WUnlock then Some (c\<lparr>mutex := None\<rparr>, Wait WFutex)
      else if w = WLock then with_lock c i WaitDrop
      else (case cv_wait (condvar c) i weak w of None \<Rightarrow> None | Some (cv, w') \<Rightarrow> Some (c\<lparr>condvar := cv\<rparr>, Wait w')))"
| "mpmc_recv c i weak WaitDrop = Some (c\<lparr>mutex := None\<rparr>, RecvLock)"
| "mpmc_recv c i weak _ = None"

fun mpmc_close :: "'v mpmc \<Rightarrow> tid \<Rightarrow> 'v pc \<Rightarrow> ('v mpmc \<times> 'v pc) option" where
  "mpmc_close c i CloseLock = with_lock c i CloseSet"
| "mpmc_close c i CloseSet = Some (c\<lparr>closed := True\<rparr>, Notify (NLoad True))"
| "mpmc_close c i _ = None"

definition notify_result :: "npc \<Rightarrow> 'v result" where
  "notify_result p = (case p of NLoad b \<Rightarrow> if b then Closed else SendOk | NAdd b k \<Rightarrow> if b then Closed else SendOk
     | NBump b k \<Rightarrow> if b then Closed else SendOk | NWake b k \<Rightarrow> if b then Closed else SendOk)"

fun mpmc_notify :: "'v mpmc \<Rightarrow> tid \<Rightarrow> 'v pc \<Rightarrow> ('v mpmc \<times> 'v pc) option" where
  "mpmc_notify c w (Notify p) =
     (case cv_notify (condvar c) w p of
        None \<Rightarrow> None
      | Some (cv, r) \<Rightarrow>
          Some (c\<lparr>condvar := cv, bumps := (case p of NBump b k \<Rightarrow> bumps c + 1 | _ \<Rightarrow> bumps c)\<rparr>,
                case r of None \<Rightarrow> Unlock (notify_result p) | Some q \<Rightarrow> Notify q))"
| "mpmc_notify c w _ = None"

definition mp_thread_step :: "'v mpmc \<Rightarrow> tid \<Rightarrow> bool \<Rightarrow> tid \<Rightarrow> 'v pc \<Rightarrow> ('v mpmc \<times> 'v pc) option" where
  "mp_thread_step c i weak w p =
     (case p of
        Idle \<Rightarrow> None
      | SendLock v \<Rightarrow> mpmc_send c i p | SendClosed v \<Rightarrow> mpmc_send c i p | SendFull v \<Rightarrow> mpmc_send c i p | SendPush v \<Rightarrow> mpmc_send c i p
      | Notify q \<Rightarrow> mpmc_notify c w p
      | Unlock r \<Rightarrow> Some (c\<lparr>mutex := None\<rparr>, Idle)
      | TryLock \<Rightarrow> mpmc_try_recv c i p | TryPop \<Rightarrow> mpmc_try_recv c i p
      | CloseLock \<Rightarrow> mpmc_close c i p | CloseSet \<Rightarrow> mpmc_close c i p
      | _ \<Rightarrow> mpmc_recv c i weak p)"

definition mp_step :: "'v mp_act \<Rightarrow> 'v mpmc_sys \<Rightarrow> 'v mpmc_sys option" where
  "mp_step a s =
     (let idle = (\<lambda>i. i < mp_threads s \<and> mp_pc s i = Idle); 
          call = (\<lambda>i p k. Some (s\<lparr>mp_pc := (mp_pc s)(i := p), mp_called := (mp_called s)(i := Some k)\<rparr>)) in
      case a of
        MpSend i v \<Rightarrow> if idle i then call i (SendLock v) (SendCall v) else None
      | MpTryRecv i \<Rightarrow> if idle i then call i TryLock TryRecvCall else None
      | MpRecv i \<Rightarrow> if idle i then call i RecvLock RecvCall else None
      | MpClose i \<Rightarrow> if idle i then call i CloseLock CloseCall else None
      | MpStep i weak w \<Rightarrow>
          if i < mp_threads s then
            (case mp_thread_step (chan s) i weak w (mp_pc s i) of
               None \<Rightarrow> None
             | Some (c, q) \<Rightarrow>
                 Some (s\<lparr>chan := c, mp_pc := (mp_pc s)(i := q),
                        mp_result := (case mp_pc s i of Unlock r \<Rightarrow> (mp_result s)(i := Some r) | _ \<Rightarrow> mp_result s),
                        mp_log := (case (mp_pc s i, mp_called s i) of
                                     (Unlock r, Some k) \<Rightarrow> mp_log s @ [(i, k, r)] | _ \<Rightarrow> mp_log s)\<rparr>))
          else None
      | MpSpurious i \<Rightarrow>
          if i < mp_threads s then
            Some (s\<lparr>chan := (chan s)\<lparr>condvar := (condvar (chan s))\<lparr>cv_futex := futex_unpark (cv_futex (condvar (chan s))) i\<rparr>\<rparr>\<rparr>)
          else None)"

section \<open>The invariant\<close>

fun crit :: "'v pc \<Rightarrow> bool" where
  "crit Idle = False"
| "crit (SendLock v) = False"
| "crit TryLock = False"
| "crit RecvLock = False"
| "crit CloseLock = False"
| "crit (Wait w) = (w = WReg \<or> w = WUnlock)"
| "crit _ = True"

text \<open>
  Weights of a place: registered; between taking a token and leaving the waiter count;
  on the way to the buffer; about to issue the token of a message just pushed; closing
  and still to read the waiter count; tokens about to be added by \<open>close\<close>; tokens
  issued whose bump, respectively whose wake, is still to come.
\<close>

fun p_reg :: "'v pc \<Rightarrow> nat" where
  "p_reg (Wait w) = w_reg w"
| "p_reg _ = 0"

fun p_dec :: "'v pc \<Rightarrow> nat" where
  "p_dec (Wait w) = (if w = WDec then 1 else 0)"
| "p_dec _ = 0"

fun p_cred :: "'v pc \<Rightarrow> nat" where
  "p_cred (Wait w) = (if w = WDec \<or> w = WLock then 1 else 0)"
| "p_cred WaitDrop = 1"
| "p_cred RecvLock = 1"
| "p_cred RecvPop = 1"
| "p_cred _ = 0"

fun n_pend :: "npc \<Rightarrow> nat" where
  "n_pend (NLoad b) = (if b then 0 else 1)"
| "n_pend (NAdd b k) = (if b then 0 else 1)"
| "n_pend _ = 0"

fun n_load :: "npc \<Rightarrow> nat" where
  "n_load (NLoad b) = (if b then 1 else 0)"
| "n_load _ = 0"

fun n_add :: "npc \<Rightarrow> nat" where
  "n_add (NAdd b k) = (if b then k else 0)"
| "n_add _ = 0"

fun n_bump :: "npc \<Rightarrow> nat" where
  "n_bump (NBump b k) = k"
| "n_bump _ = 0"

fun n_wake :: "npc \<Rightarrow> nat" where
  "n_wake (NBump b k) = k"
| "n_wake (NWake b k) = k"
| "n_wake _ = 0"

fun npc_ok :: "bool \<Rightarrow> npc \<Rightarrow> bool" where
  "npc_ok cl (NLoad b) = (b \<longrightarrow> cl)"
| "npc_ok cl (NAdd b k) = (if b then cl else k = 1)"
| "npc_ok cl (NBump b k) = (if b then cl else k = 1)"
| "npc_ok cl (NWake b k) = (if b then cl else k = 1)"

fun on_notify :: "(npc \<Rightarrow> nat) \<Rightarrow> 'v pc \<Rightarrow> nat" where
  "on_notify g (Notify p) = g p"
| "on_notify g _ = 0"

fun p_awake :: "futex \<Rightarrow> tid \<Rightarrow> 'v pc \<Rightarrow> nat" where
  "p_awake f i (Wait w) = w_awake f i w"
| "p_awake f i _ = 0"

fun p_park :: "futex \<Rightarrow> 'v pc \<Rightarrow> nat" where
  "p_park f (Wait w) = w_park f w"
| "p_park f _ = 0"

definition tot :: "'v mpmc_sys \<Rightarrow> (tid \<Rightarrow> 'v pc \<Rightarrow> nat) \<Rightarrow> nat" where
  "tot s g = (\<Sum>i < mp_threads s. g i (mp_pc s i))"

text \<open>What an answer says about the state in which it is given.\<close>

definition result_ok :: "'v mpmc \<Rightarrow> 'v result \<Rightarrow> bool" where
  "result_ok c r =
     (case r of
        SendErr v \<Rightarrow> closed c \<or> is_full c
      | TryReceived None \<Rightarrow> buffer c = []
      | Received None \<Rightarrow> buffer c = [] \<and> closed c
      | _ \<Rightarrow> True)"

definition place_ok :: "'v mpmc \<Rightarrow> 'v pc \<Rightarrow> bool" where
  "place_ok c p =
     (case p of
        SendFull v \<Rightarrow> \<not> closed c
      | SendPush v \<Rightarrow> \<not> closed c \<and> \<not> is_full c
      | RecvClosed \<Rightarrow> buffer c = []
      | Notify q \<Rightarrow> npc_ok (closed c) q
      | Wait w \<Rightarrow> (w = WReg \<longrightarrow> buffer c = [] \<and> \<not> closed c) \<and> (\<forall>v. w_val w = Some v \<longrightarrow> (\<exists>k \<le> bumps c. v = of_nat k)) \<and> w_pos w
      | Unlock r \<Rightarrow> result_ok c r
      | _ \<Rightarrow> True)"

definition places :: "'v mpmc_sys \<Rightarrow> bool" where
  "places s \<longleftrightarrow>
     (\<forall>i < mp_threads s. (crit (mp_pc s i) \<longleftrightarrow> mutex (chan s) = Some i) \<and> place_ok (chan s) (mp_pc s i)) \<and>
     (\<forall>i. mutex (chan s) = Some i \<longrightarrow> i < mp_threads s)"

abbreviation (input) cfutex :: "'v mpmc \<Rightarrow> futex" where
  "cfutex c \<equiv> cv_futex (condvar c)"

definition sleepers :: "'v mpmc_sys \<Rightarrow> bool" where
  "sleepers s \<longleftrightarrow> distinct (waiters (cfutex (chan s))) \<and> fword (cfutex (chan s)) = of_nat (bumps (chan s)) \<and>
     (\<forall>i \<in> set (waiters (cfutex (chan s))). i < mp_threads s \<and> mp_pc s i = Wait WSleep)"

definition within_bound :: "'v mpmc \<Rightarrow> bool" where
  "within_bound c \<longleftrightarrow> 0 < bounded c \<longrightarrow> length (buffer c) \<le> bounded c"

definition counts :: "'v mpmc \<Rightarrow> ((tid \<Rightarrow> 'v pc \<Rightarrow> nat) \<Rightarrow> nat) \<Rightarrow> bool" where
  "counts c T \<longleftrightarrow>
     cv_waiters (condvar c) = T (\<lambda>_. p_reg) + T (\<lambda>_. p_dec) \<and>
     (0 < T (\<lambda>_. p_reg) \<longrightarrow> length (buffer c) \<le> cv_to_wake (condvar c) + T (\<lambda>_. p_cred) + T (\<lambda>_. on_notify n_pend)) \<and>
     (closed c \<longrightarrow> 0 < T (\<lambda>_. on_notify n_load) \<or> T (\<lambda>_. p_reg) \<le> cv_to_wake (condvar c) + T (\<lambda>_. on_notify n_add))"

definition wakes :: "'v mpmc \<Rightarrow> ((tid \<Rightarrow> 'v pc \<Rightarrow> nat) \<Rightarrow> nat) \<Rightarrow> bool" where
  "wakes c T \<longleftrightarrow> bumps c < 2 ^ 32 \<longrightarrow>
     (0 < T (\<lambda>_. p_park (cfutex c)) \<longrightarrow> cv_to_wake (condvar c) \<le> T (p_awake (cfutex c)) + T (\<lambda>_. on_notify n_bump)) \<and>
     (waiters (cfutex c) \<noteq> [] \<longrightarrow> cv_to_wake (condvar c) \<le> T (p_awake (cfutex c)) + T (\<lambda>_. on_notify n_wake))"

definition mp_inv :: "'v mpmc_sys \<Rightarrow> bool" where
  "mp_inv s \<longleftrightarrow> places s \<and> sleepers s \<and> within_bound (chan s) \<and> counts (chan s) (tot s) \<and> wakes (chan s) (tot s)"

lemma tot_upd:
  assumes "i < mp_threads s" "mp_threads t = mp_threads s" "mp_pc t = (mp_pc s)(i := q)"
  shows "tot t g + g i (mp_pc s i) = tot s g + g i q"
  unfolding tot_def assms(2,3)
  using sum_if_upd[OF assms(1), of "\<lambda>j. g j (((mp_pc s)(i := q)) j)" "\<lambda>j. g j (mp_pc s j)"] by simp

lemma tot_member: "i < mp_threads s \<Longrightarrow> g i (mp_pc s i) \<le> tot s g"
  unfolding tot_def by (rule member_le_sum_lt)

text \<open>Places: only the holder of the mutex changes what the places of others rely on.\<close>

lemma place_ok_wait: "place_ok c (Wait w) \<longleftrightarrow>
    (w = WReg \<longrightarrow> buffer c = [] \<and> \<not> closed c) \<and> (\<forall>v. w_val w = Some v \<longrightarrow> (\<exists>k \<le> bumps c. v = of_nat k)) \<and> w_pos w"
  by (simp add: place_ok_def)

lemma place_ok_mono:
  assumes p: "place_ok c p" and b: "bumps c \<le> bumps d"
    and c: "crit p \<longrightarrow> buffer d = buffer c \<and> closed d = closed c \<and> bounded d = bounded c"
  shows "place_ok d p"
proof (cases p)
  case (Wait w)
  have "\<exists>k \<le> bumps d. v = of_nat k" if "w_val w = Some v" for v
    using p that b unfolding Wait place_ok_wait by (meson le_trans)
  with p c show ?thesis unfolding Wait place_ok_wait by auto
qed (use p c in \<open>simp_all add: place_ok_def is_full_def result_ok_def cong: result.case_cong option.case_cong\<close>)

lemma places_move:
  assumes inv: "places s" and i: "i < mp_threads s"
    and t: "mp_threads t = mp_threads s" "mp_pc t = (mp_pc s)(i := q)"
    and m: "mutex (chan t) = (if crit q then Some i else if crit (mp_pc s i) then None else mutex (chan s))"
      "crit (mp_pc s i) \<or> mutex (chan s) = None \<or> \<not> crit q"
    and q: "place_ok (chan t) q" and b: "bumps (chan s) \<le> bumps (chan t)"
    and c: "crit (mp_pc s i) \<or> (buffer (chan t) = buffer (chan s) \<and> closed (chan t) = closed (chan s) \<and> bounded (chan t) = bounded (chan s))"
  shows "places t"
proof -
  have I: "crit (mp_pc s j) \<longleftrightarrow> mutex (chan s) = Some j" "place_ok (chan s) (mp_pc s j)" if "j < mp_threads s" for j
    using inv that by (auto simp: places_def)
  have "(crit (mp_pc t j) \<longleftrightarrow> mutex (chan t) = Some j) \<and> place_ok (chan t) (mp_pc t j)" if j: "j < mp_threads s" for j
  proof (cases "j = i")
    case True
    have "mutex (chan t) = Some i \<longleftrightarrow> crit q" using m I(1)[OF i] by auto
    with True q t show ?thesis by simp
  next
    case False
    have cr: "crit (mp_pc s j) \<longleftrightarrow> mutex (chan t) = Some j" using m I(1)[OF i] I(1)[OF j] False by (auto split: if_splits)
    have "\<not> crit (mp_pc s j)" if "crit (mp_pc s i)" using that I(1)[OF i] I(1)[OF j] False by auto
    then have "place_ok (chan t) (mp_pc s j)" using place_ok_mono[OF I(2)[OF j] b] c by blast
    with cr False t show ?thesis by simp
  qed
  moreover have "\<forall>j. mutex (chan t) = Some j \<longrightarrow> j < mp_threads s" using m inv i by (auto simp: places_def split: if_splits)
  ultimately show ?thesis using t by (simp add: places_def)
qed

text \<open>A step of one thread that leaves the futex alone, in local terms.\<close>

lemma counts_move:
  assumes inv: "counts c (tot s)" and i: "i < mp_threads s" and t: "mp_threads t = mp_threads s" "mp_pc t = (mp_pc s)(i := q)"
    and p: "mp_pc s i = p"
    and w: "cv_waiters (condvar d) + p_reg p + p_dec p = cv_waiters (condvar c) + p_reg q + p_dec q"
    and m: "buffer d = [] \<or> cv_waiters (condvar d) = 0 \<or>
      p_reg q \<le> p_reg p \<and> length (buffer d) + cv_to_wake (condvar c) + p_cred p + on_notify n_pend p
        \<le> length (buffer c) + cv_to_wake (condvar d) + p_cred q + on_notify n_pend q"
    and l: "\<not> closed d \<or> 0 < on_notify n_load q \<or> cv_waiters (condvar d) \<le> cv_to_wake (condvar d) + on_notify n_add q \<or>
      closed c \<and> on_notify n_load q = on_notify n_load p \<and>
      p_reg q + cv_to_wake (condvar c) + on_notify n_add p \<le> p_reg p + cv_to_wake (condvar d) + on_notify n_add q"
  shows "counts d (tot t)"
proof -
  note u = tot_upd[OF i t, unfolded p] and mem = tot_member[of i t, unfolded t(1), OF i] 
  have q: "mp_pc t i = q" using t by simp
  have W: "cv_waiters (condvar c) = tot s (\<lambda>_. p_reg) + tot s (\<lambda>_. p_dec)"
    and M: "0 < tot s (\<lambda>_. p_reg) \<longrightarrow> length (buffer c) \<le> cv_to_wake (condvar c) + tot s (\<lambda>_. p_cred) + tot s (\<lambda>_. on_notify n_pend)"
    and L: "closed c \<longrightarrow> 0 < tot s (\<lambda>_. on_notify n_load) \<or> tot s (\<lambda>_. p_reg) \<le> cv_to_wake (condvar c) + tot s (\<lambda>_. on_notify n_add)"
    using inv by (simp_all add: counts_def)
  have W': "cv_waiters (condvar d) = tot t (\<lambda>_. p_reg) + tot t (\<lambda>_. p_dec)"
    using W w u[of "\<lambda>_. p_reg"] u[of "\<lambda>_. p_dec"] by linarith
  have "length (buffer d) \<le> cv_to_wake (condvar d) + tot t (\<lambda>_. p_cred) + tot t (\<lambda>_. on_notify n_pend)" if "0 < tot t (\<lambda>_. p_reg)"
    using that m
  proof (elim disjE)
    assume "p_reg q \<le> p_reg p \<and> length (buffer d) + cv_to_wake (condvar c) + p_cred p + on_notify n_pend p
        \<le> length (buffer c) + cv_to_wake (condvar d) + p_cred q + on_notify n_pend q"
    moreover have "0 < tot s (\<lambda>_. p_reg)" using calculation that u[of "\<lambda>_. p_reg"] by linarith
    ultimately show ?thesis using M u[of "\<lambda>_. p_cred"] u[of "\<lambda>_. on_notify n_pend"] by linarith
  qed (use W' that in auto)
  moreover have "0 < tot t (\<lambda>_. on_notify n_load) \<or> tot t (\<lambda>_. p_reg) \<le> cv_to_wake (condvar d) + tot t (\<lambda>_. on_notify n_add)" if "closed d"
    using that l
  proof (elim disjE)
    assume "0 < on_notify n_load q"
    then show ?thesis using mem[of "\<lambda>_. on_notify n_load"] q by simp
  next
    assume "cv_waiters (condvar d) \<le> cv_to_wake (condvar d) + on_notify n_add q"
    then show ?thesis using mem[of "\<lambda>_. on_notify n_add"] q W' by simp
  next
    assume "closed c \<and> on_notify n_load q = on_notify n_load p \<and>
      p_reg q + cv_to_wake (condvar c) + on_notify n_add p \<le> p_reg p + cv_to_wake (condvar d) + on_notify n_add q"
    then show ?thesis
      using L u[of "\<lambda>_. on_notify n_load"] u[of "\<lambda>_. p_reg"] u[of "\<lambda>_. on_notify n_add"] by linarith
  qed auto
  ultimately show ?thesis using W' by (simp add: counts_def)
qed

lemma wakes_move:
  assumes inv: "wakes c (tot s)" and i: "i < mp_threads s" and t: "mp_threads t = mp_threads s" "mp_pc t = (mp_pc s)(i := q)"
    and p: "mp_pc s i = p" and f: "cfutex d = cfutex c" "bumps d = bumps c"
    and m: "cv_to_wake (condvar d) = 0 \<or> p_park (cfutex c) q \<le> p_park (cfutex c) p \<and>
      cv_to_wake (condvar d) + p_awake (cfutex c) i p + on_notify n_bump p \<le> cv_to_wake (condvar c) + p_awake (cfutex c) i q + on_notify n_bump q \<and>
      cv_to_wake (condvar d) + p_awake (cfutex c) i p + on_notify n_wake p \<le> cv_to_wake (condvar c) + p_awake (cfutex c) i q + on_notify n_wake q"
  shows "wakes d (tot t)"
proof (cases "cv_to_wake (condvar d) = 0")
  case True
  then show ?thesis by (simp add: wakes_def)
next
  case False
  note u = tot_upd[OF i t, unfolded p]
  from False m u[of "\<lambda>_. p_park (cfutex c)"] u[of "p_awake (cfutex c)"] u[of "\<lambda>_. on_notify n_bump"] u[of "\<lambda>_. on_notify n_wake"]
  have "tot t (\<lambda>_. p_park (cfutex c)) \<le> tot s (\<lambda>_. p_park (cfutex c))"
    "cv_to_wake (condvar d) + tot s (p_awake (cfutex c)) + tot s (\<lambda>_. on_notify n_bump)
       \<le> cv_to_wake (condvar c) + tot t (p_awake (cfutex c)) + tot t (\<lambda>_. on_notify n_bump)"
    "cv_to_wake (condvar d) + tot s (p_awake (cfutex c)) + tot s (\<lambda>_. on_notify n_wake)
       \<le> cv_to_wake (condvar c) + tot t (p_awake (cfutex c)) + tot t (\<lambda>_. on_notify n_wake)"
    by linarith+
  with inv show ?thesis unfolding wakes_def f by linarith
qed

lemma sleepers_move:
  assumes "sleepers s" "mp_threads t = mp_threads s" "mp_pc t = (mp_pc s)(i := q)" "mp_pc s i \<noteq> Wait WSleep \<or> i \<notin> set (waiters (cfutex (chan s)))"
    "cfutex (chan t) = cfutex (chan s)" "bumps (chan t) = bumps (chan s)"
  shows "sleepers t"
  using assms by (auto simp: sleepers_def)

lemma mp_inv_ghost [simp]: "mp_inv (s\<lparr>mp_called := k\<rparr>) = mp_inv s" "mp_inv (s\<lparr>mp_log := l\<rparr>) = mp_inv s"
  by (simp_all add: mp_inv_def places_def sleepers_def tot_def[abs_def])

lemma mp_move:
  assumes inv: "mp_inv s" and i: "i < mp_threads s" and p: "mp_pc s i = p"
    and t: "t = s\<lparr>chan := d, mp_pc := (mp_pc s)(i := q), mp_result := r\<rparr>"
    and f: "cfutex d = cfutex (chan s)" "bumps d = bumps (chan s)" "p \<noteq> Wait WSleep \<or> i \<notin> set (waiters (cfutex (chan s)))"
    and m: "mutex d = (if crit q then Some i else if crit p then None else mutex (chan s))" "crit p \<or> mutex (chan s) = None \<or> \<not> crit q"
    and q: "place_ok d q" "within_bound d"
    and c: "crit p \<or> buffer d = buffer (chan s) \<and> closed d = closed (chan s) \<and> bounded d = bounded (chan s)"
    and w: "cv_waiters (condvar d) + p_reg p + p_dec p = cv_waiters (condvar (chan s)) + p_reg q + p_dec q"
    and n: "buffer d = [] \<or> cv_waiters (condvar d) = 0 \<or>
      p_reg q \<le> p_reg p \<and> length (buffer d) + cv_to_wake (condvar (chan s)) + p_cred p + on_notify n_pend p
        \<le> length (buffer (chan s)) + cv_to_wake (condvar d) + p_cred q + on_notify n_pend q"
    and l: "\<not> closed d \<or> 0 < on_notify n_load q \<or> cv_waiters (condvar d) \<le> cv_to_wake (condvar d) + on_notify n_add q \<or>
      closed (chan s) \<and> on_notify n_load q = on_notify n_load p \<and>
      p_reg q + cv_to_wake (condvar (chan s)) + on_notify n_add p \<le> p_reg p + cv_to_wake (condvar d) + on_notify n_add q"
    and k: "cv_to_wake (condvar d) = 0 \<or> p_park (cfutex (chan s)) q \<le> p_park (cfutex (chan s)) p \<and>
      cv_to_wake (condvar d) + p_awake (cfutex (chan s)) i p + on_notify n_bump p
        \<le> cv_to_wake (condvar (chan s)) + p_awake (cfutex (chan s)) i q + on_notify n_bump q \<and>
      cv_to_wake (condvar d) + p_awake (cfutex (chan s)) i p + on_notify n_wake p
        \<le> cv_to_wake (condvar (chan s)) + p_awake (cfutex (chan s)) i q + on_notify n_wake q"
  shows "mp_inv t"
proof -
  have tt: "mp_threads t = mp_threads s" "mp_pc t = (mp_pc s)(i := q)" "chan t = d" by (simp_all add: t)
  have I: "places s" "sleepers s" "counts (chan s) (tot s)" "wakes (chan s) (tot s)" using inv by (simp_all add: mp_inv_def)
  have "places t" by (rule places_move[OF I(1) i tt(1,2)]) (use m q c f p tt in auto)
  moreover have "sleepers t" by (rule sleepers_move[OF I(2) tt(1,2)]) (use f p tt in auto)
  moreover have "counts d (tot t)" by (rule counts_move[OF I(3) i tt(1,2) p w n l])
  moreover have "wakes d (tot t)" by (rule wakes_move[OF I(4) i tt(1,2) p f(1,2) k])
  ultimately show ?thesis using q tt by (simp add: mp_inv_def)
qed

lemma holds: "mp_inv s \<Longrightarrow> i < mp_threads s \<Longrightarrow> crit (mp_pc s i) \<longleftrightarrow> mutex (chan s) = Some i"
  and placed: "mp_inv s \<Longrightarrow> i < mp_threads s \<Longrightarrow> place_ok (chan s) (mp_pc s i)"
  and in_bound: "mp_inv s \<Longrightarrow> within_bound (chan s)"
  by (auto simp: mp_inv_def places_def)

abbreviation (input) moved :: "'v mpmc_sys \<Rightarrow> tid \<Rightarrow> 'v mpmc \<Rightarrow> 'v pc \<Rightarrow> (tid \<Rightarrow> 'v result option) \<Rightarrow> 'v mpmc_sys" where
  "moved s i d q r \<equiv> s\<lparr>chan := d, mp_pc := (mp_pc s)(i := q), mp_result := r\<rparr>"

lemma mp_send_inv:
  assumes inv: "mp_inv s" and i: "i < mp_threads s" and st: "mpmc_send (chan s) i (mp_pc s i) = Some (d, q)"
  shows "mp_inv (moved s i d q r)"
  by (cases "mp_pc s i"; rule mp_move[OF inv i refl refl])
    (use st holds[OF inv i] placed[OF inv i] in_bound[OF inv] in
      \<open>auto simp: with_lock_def place_ok_def within_bound_def is_full_def result_ok_def split: if_splits\<close>)

lemma chan_pop_simps [simp]:
  "mutex (chan_pop c) = mutex c" "condvar (chan_pop c) = condvar c" "closed (chan_pop c) = closed c" "bounded (chan_pop c) = bounded c"
  "bumps (chan_pop c) = bumps c" "buffer (chan_pop c) = tl (buffer c)"
  by (simp_all add: chan_pop_def)

lemma within_bound_simps [simp]: "within_bound (c\<lparr>mutex := x\<rparr>) = within_bound c" "within_bound (c\<lparr>condvar := cv\<rparr>) = within_bound c" "within_bound (c\<lparr>bumps := b\<rparr>) = within_bound c"
  by (simp_all add: within_bound_def)

lemma within_bound_pop: "within_bound c \<Longrightarrow> buffer c = v # b \<Longrightarrow> within_bound (chan_pop c)"
  by (auto simp: within_bound_def chan_pop_def)

lemma mp_try_recv_inv:
  assumes inv: "mp_inv s" and i: "i < mp_threads s" and st: "mpmc_try_recv (chan s) i (mp_pc s i) = Some (d, q)"
  shows "mp_inv (moved s i d q r)"
  by (cases "mp_pc s i"; rule mp_move[OF inv i refl refl])
    (use st holds[OF inv i] in_bound[OF inv] in
      \<open>auto simp: with_lock_def place_ok_def within_bound_pop result_ok_def split: if_splits list.splits\<close>)

lemma mp_close_inv:
  assumes inv: "mp_inv s" and i: "i < mp_threads s" and st: "mpmc_close (chan s) i (mp_pc s i) = Some (d, q)"
  shows "mp_inv (moved s i d q r)"
  by (cases "mp_pc s i"; rule mp_move[OF inv i refl refl])
    (use st holds[OF inv i] in_bound[OF inv] in \<open>auto simp: with_lock_def place_ok_def within_bound_def split: if_splits\<close>)

lemma mp_unlock_inv:
  assumes inv: "mp_inv s" and i: "i < mp_threads s" and p: "mp_pc s i = Unlock x"
  shows "mp_inv (moved s i ((chan s)\<lparr>mutex := None\<rparr>) Idle r)"
  by (rule mp_move[OF inv i p refl]) (use in_bound[OF inv] in \<open>auto simp: place_ok_def within_bound_def\<close>)

text \<open>A waiter parks: it had the current futex value, so the tokens were already covered.\<close>

lemma tot_cong: "mp_threads t = mp_threads s \<Longrightarrow> (\<And>j. j < mp_threads s \<Longrightarrow> h j (mp_pc t j) = g j (mp_pc s j)) \<Longrightarrow> tot t h = tot s g"
  unfolding tot_def by (auto intro!: sum.cong)

lemma tot_mono: "mp_threads t = mp_threads s \<Longrightarrow> (\<And>j. j < mp_threads s \<Longrightarrow> g j (mp_pc s j) \<le> h j (mp_pc t j)) \<Longrightarrow> tot s g \<le> tot t h"
  unfolding tot_def by (auto intro!: sum_mono)

lemma bump_le_wake: "on_notify n_bump p \<le> on_notify n_wake p"
proof (cases p)
  case (Notify n)
  then show ?thesis by (cases n) auto
qed auto

lemma p_park_waiters: "p_park (f\<lparr>waiters := ws\<rparr>) p = p_park f p"
proof (cases p)
  case (Wait w)
  then show ?thesis by (cases w) auto
qed auto

lemma sleep_move:
  assumes inv: "mp_inv s" and i: "i < mp_threads s" and p: "mp_pc s i = Wait (WPark v)" and v: "v = fword (cfutex (chan s))"
    and d: "d = (chan s)\<lparr>condvar := (condvar (chan s))\<lparr>cv_futex := (cfutex (chan s))\<lparr>waiters := waiters (cfutex (chan s)) @ [i]\<rparr>\<rparr>\<rparr>"
  shows "mp_inv (moved s i d (Wait WSleep) r)" (is "mp_inv ?t")
proof -
  have tt: "mp_threads ?t = mp_threads s" "mp_pc ?t = (mp_pc s)(i := Wait WSleep)" "chan ?t = d" by simp_all
  have I: "places s" "sleepers s" "within_bound (chan s)" "counts (chan s) (tot s)" "wakes (chan s) (tot s)" using inv by (simp_all add: mp_inv_def)
  have "places ?t" by (rule places_move[OF I(1) i tt(1,2)]) (use p d in \<open>auto simp: place_ok_def\<close>)
  moreover have "sleepers ?t" using I(2) i p by (auto simp: sleepers_def d)
  moreover have "counts d (tot ?t)" by (rule counts_move[OF I(4) i tt(1,2) p]) (auto simp: d)
  moreover have "wakes d (tot ?t)"
  proof -
    have park: "0 < tot s (\<lambda>_. p_park (cfutex (chan s)))"
      using tot_member[OF i, of "\<lambda>_. p_park (cfutex (chan s))"] p v by simp
    have w: "tot ?t (p_awake (cfutex d)) = tot s (p_awake (cfutex (chan s)))"
    proof (rule tot_cong[OF tt(1)])
      fix j
      have "w_awake (cfutex d) j w = w_awake (cfutex (chan s)) j w" if "j \<noteq> i" for w using that d by (cases w) auto
      then show "p_awake (cfutex d) j (mp_pc ?t j) = p_awake (cfutex (chan s)) j (mp_pc s j)"
        using p v d by (cases "j = i"; cases "mp_pc s j") auto
    qed
    have "tot ?t (\<lambda>_. on_notify g) = tot s (\<lambda>_. on_notify g)" for g by (rule tot_cong[OF tt(1)]) (use p in auto)
    moreover have "tot s (\<lambda>_. on_notify n_bump) \<le> tot s (\<lambda>_. on_notify n_wake)" by (rule tot_mono[OF refl bump_le_wake])
    moreover have "tot ?t (\<lambda>_. p_park (cfutex d)) \<le> tot s (\<lambda>_. p_park (cfutex (chan s)))"
      using tot_upd[OF i tt(1,2), of "\<lambda>_. p_park (cfutex d)"] tot_cong[OF refl, of s "\<lambda>_. p_park (cfutex d)" "\<lambda>_. p_park (cfutex (chan s))"] p v
      by (auto simp: d p_park_waiters)
    moreover have "cv_to_wake (condvar d) = cv_to_wake (condvar (chan s))" "bumps d = bumps (chan s)" by (simp_all add: d)
    ultimately show ?thesis using I(5) park w unfolding wakes_def by auto
  qed
  ultimately show ?thesis using I(3) tt by (simp add: mp_inv_def d)
qed

lemma mp_recv_inv:
  assumes inv: "mp_inv s" and i: "i < mp_threads s" and st: "mpmc_recv (chan s) i weak (mp_pc s i) = Some (d, q)"
  shows "mp_inv (moved s i d q r)"
proof (cases "mp_pc s i")
  case RecvLock
  show ?thesis by (rule mp_move[OF inv i refl refl])
    (use RecvLock st holds[OF inv i] in_bound[OF inv] in \<open>auto simp: with_lock_def place_ok_def split: if_splits\<close>)
next
  case RecvPop
  show ?thesis by (rule mp_move[OF inv i refl refl])
    (use RecvPop st holds[OF inv i] in_bound[OF inv] in \<open>auto simp: place_ok_def within_bound_pop result_ok_def split: list.splits\<close>)
next
  case RecvClosed
  show ?thesis by (rule mp_move[OF inv i refl refl])
    (use RecvClosed st holds[OF inv i] placed[OF inv i] in_bound[OF inv] in \<open>auto simp: place_ok_def result_ok_def split: if_splits\<close>)
next
  case WaitDrop
  show ?thesis by (rule mp_move[OF inv i refl refl])
    (use WaitDrop st holds[OF inv i] in_bound[OF inv] in \<open>auto simp: place_ok_def\<close>)
next
  case (Wait w)
  note facts = st holds[OF inv i] placed[OF inv i] in_bound[OF inv]
  show ?thesis
  proof (cases w)
    case WReg
    show ?thesis by (rule mp_move[OF inv i refl refl]) (use Wait WReg facts in \<open>auto simp: place_ok_def\<close>)
  next
    case WUnlock
    show ?thesis by (rule mp_move[OF inv i refl refl]) (use Wait WUnlock facts in \<open>auto simp: place_ok_def\<close>)
  next
    case WFutex
    have "fword (cfutex (chan s)) = of_nat (bumps (chan s))" using inv by (simp add: mp_inv_def sleepers_def)
    then have "place_ok d q" using facts Wait WFutex by (auto simp: place_ok_wait)
    then show ?thesis by (intro mp_move[OF inv i refl refl]) (use Wait WFutex facts in auto)
  next
    case (WLoad v)
    have q: "d = chan s" "q = Wait (try_token v (cv_to_wake (condvar (chan s))))" using st Wait WLoad by auto
    have "place_ok d q" using facts Wait WLoad q try_token_cases[of v "cv_to_wake (condvar (chan s))"] by (auto simp: place_ok_wait)
    then show ?thesis
      by (intro mp_move[OF inv i refl refl])
        (use Wait WLoad facts q try_token_cases[of v "cv_to_wake (condvar (chan s))"] in auto)
  next
    case (WCas v k)
    show ?thesis
    proof (cases "cv_to_wake (condvar (chan s)) = k \<and> \<not> weak")
      case True
      moreover have "0 < k" using facts Wait WCas by (simp add: place_ok_wait)
      ultimately show ?thesis by (intro mp_move[OF inv i refl refl]) (use Wait WCas facts in \<open>auto simp: place_ok_wait\<close>)
    next
      case False
      then have q: "d = chan s" "q = Wait (try_token v (cv_to_wake (condvar (chan s))))" using st Wait WCas by auto
      have "place_ok d q" using facts Wait WCas q try_token_cases[of v "cv_to_wake (condvar (chan s))"] by (auto simp: place_ok_wait)
      then show ?thesis
        by (intro mp_move[OF inv i refl refl])
          (use Wait WCas facts q try_token_cases[of v "cv_to_wake (condvar (chan s))"] in auto)
    qed
  next
    case (WPark v)
    show ?thesis
    proof (cases "v = fword (cfutex (chan s))")
      case True
      with st Wait WPark have "q = Wait WSleep" "d = (chan s)\<lparr>condvar := (condvar (chan s))\<lparr>cv_futex := (cfutex (chan s))\<lparr>waiters := waiters (cfutex (chan s)) @ [i]\<rparr>\<rparr>\<rparr>"
        by (auto simp: futex_wait_def)
      with sleep_move[OF inv i _ True] Wait WPark show ?thesis by simp
    next
      case False
      show ?thesis by (rule mp_move[OF inv i refl refl]) (use Wait WPark facts False in \<open>auto simp: place_ok_def futex_wait_def\<close>)
    qed
  next
    case WSleep
    show ?thesis by (rule mp_move[OF inv i refl refl]) (use Wait WSleep facts in \<open>auto simp: place_ok_def split: if_splits\<close>)
  next
    case WDec
    have "0 < cv_waiters (condvar (chan s))"
      using tot_member[OF i, of "\<lambda>_. p_dec"] inv Wait WDec by (simp add: mp_inv_def counts_def)
    then show ?thesis by (intro mp_move[OF inv i refl refl]) (use Wait WDec facts in \<open>auto simp: place_ok_def\<close>)
  next
    case WLock
    show ?thesis by (rule mp_move[OF inv i refl refl]) (use Wait WLock facts in \<open>auto simp: with_lock_def place_ok_def split: if_splits\<close>)
  qed
qed (use st in auto)

text \<open>The bump makes every waiter that is about to park look again.\<close>

lemma of_nat_fresh: "m \<le> b \<Longrightarrow> Suc b < 2 ^ 32 \<Longrightarrow> (of_nat m :: u32) \<noteq> of_nat (Suc b)"
proof
  assume m: "m \<le> b" "Suc b < 2 ^ 32" and e: "(of_nat m :: u32) = of_nat (Suc b)"
  from m have "unat (of_nat m :: u32) = m" "unat (of_nat (Suc b) :: u32) = Suc b" by (simp_all add: unat_of_nat take_bit_eq_mod del: of_nat_Suc)
  with e m(1) show False by simp
qed

lemma bump_move:
  assumes inv: "mp_inv s" and i: "i < mp_threads s" and p: "mp_pc s i = Notify (NBump b k)"
    and d: "d = (chan s)\<lparr>condvar := (condvar (chan s))\<lparr>cv_futex := futex_add (cfutex (chan s)) 1\<rparr>, bumps := bumps (chan s) + 1\<rparr>"
  shows "mp_inv (moved s i d (Notify (NWake b k)) r)" (is "mp_inv ?t")
proof -
  have tt: "mp_threads ?t = mp_threads s" "mp_pc ?t = (mp_pc s)(i := Notify (NWake b k))" "chan ?t = d" by simp_all
  have I: "places s" "sleepers s" "within_bound (chan s)" "counts (chan s) (tot s)" "wakes (chan s) (tot s)" using inv by (simp_all add: mp_inv_def)
  have "places ?t" by (rule places_move[OF I(1) i tt(1,2)]) (use p d holds[OF inv i] placed[OF inv i] in \<open>auto simp: place_ok_def\<close>)
  moreover have "sleepers ?t" using I(2) p by (auto simp: sleepers_def d futex_add_def)
  moreover have "counts d (tot ?t)" by (rule counts_move[OF I(4) i tt(1,2) p]) (auto simp: d)
  moreover have "wakes d (tot ?t)"
  proof (cases "bumps d < 2 ^ 32")
    case True
    have f: "fword (cfutex d) = of_nat (Suc (bumps (chan s)))" "waiters (cfutex d) = waiters (cfutex (chan s))"
      using I(2) by (simp_all add: d futex_add_def sleepers_def)
    have val: "w_val w \<noteq> Some (fword (cfutex d))" if j: "j < mp_threads s" "mp_pc s j = Wait w" for j w
    proof
      assume v: "w_val w = Some (fword (cfutex d))"
      have "place_ok (chan s) (Wait w)" using placed[OF inv j(1)] j(2) by simp
      with v obtain m where "m \<le> bumps (chan s)" "fword (cfutex d) = of_nat m" unfolding place_ok_wait by blast
      with of_nat_fresh[of m "bumps (chan s)"] True f show False by (simp add: d del: of_nat_Suc)
    qed
    have aw: "tot s (p_awake (cfutex (chan s))) \<le> tot ?t (p_awake (cfutex d))"
    proof (rule tot_mono[OF tt(1)])
      fix j assume j: "j < mp_threads s"
      show "p_awake (cfutex (chan s)) j (mp_pc s j) \<le> p_awake (cfutex d) j (mp_pc ?t j)"
        using w_awake_bump[OF val[OF j] f(2)] p by (cases "j = i"; cases "mp_pc s j") auto
    qed
    have "tot ?t (\<lambda>_. p_park (cfutex d)) = tot s (\<lambda>_ _. 0)"
    proof (rule tot_cong[OF tt(1)])
      fix j assume j: "j < mp_threads s"
      show "p_park (cfutex d) (mp_pc ?t j) = 0"
        using w_awake_bump[OF val[OF j] f(2)] p by (cases "j = i"; cases "mp_pc s j") auto
    qed
    then have z: "tot ?t (\<lambda>_. p_park (cfutex d)) = 0" by (simp add: tot_def)
    have "tot ?t (\<lambda>_. on_notify n_wake) = tot s (\<lambda>_. on_notify n_wake)" by (rule tot_cong[OF tt(1)]) (use p in auto)
    moreover have "cv_to_wake (condvar d) = cv_to_wake (condvar (chan s))" "bumps (chan s) < 2 ^ 32" using True by (simp_all add: d)
    ultimately show ?thesis using I(5) aw z f(2) unfolding wakes_def by auto
  qed (simp add: wakes_def)
  ultimately show ?thesis using I(3) tt by (simp add: mp_inv_def d)
qed

lemma tot_strict:
  assumes "mp_threads t = mp_threads s" "\<And>j. j < mp_threads s \<Longrightarrow> g j (mp_pc s j) \<le> h j (mp_pc t j)"
    "w < mp_threads s" "g w (mp_pc s w) < h w (mp_pc t w)"
  shows "tot s g + 1 \<le> tot t h"
proof -
  have "(\<Sum>j < mp_threads s. g j (mp_pc s j)) < (\<Sum>j < mp_threads s. h j (mp_pc t j))"
    by (rule sum_strict_mono_ex1) (use assms in auto)
  then show ?thesis by (simp add: tot_def assms(1))
qed

lemma wake_move:
  assumes inv: "mp_inv s" and i: "i < mp_threads s" and p: "mp_pc s i = Notify (NWake b k)"
    and d: "d = (chan s)\<lparr>condvar := (condvar (chan s))\<lparr>cv_futex := (cfutex (chan s))\<lparr>waiters := ws\<rparr>\<rparr>\<rparr>"
    and ws: "distinct ws" "set ws \<subseteq> set (waiters (cfutex (chan s)))"
    and x: "result_ok d x"
    and w: "ws = [] \<or> \<not> b \<and> w \<in> set (waiters (cfutex (chan s))) \<and> w \<notin> set ws"
  shows "mp_inv (moved s i d (Unlock x) r)" (is "mp_inv ?t")
proof -
  have tt: "mp_threads ?t = mp_threads s" "mp_pc ?t = (mp_pc s)(i := Unlock x)" "chan ?t = d" by simp_all
  have I: "places s" "sleepers s" "within_bound (chan s)" "counts (chan s) (tot s)" "wakes (chan s) (tot s)" using inv by (simp_all add: mp_inv_def)
  have "places ?t" by (rule places_move[OF I(1) i tt(1,2)]) (use p d x holds[OF inv i] in \<open>auto simp: place_ok_def\<close>)
  moreover have "sleepers ?t" using I(2) p ws by (auto simp: sleepers_def d)
  moreover have "counts d (tot ?t)" by (rule counts_move[OF I(4) i tt(1,2) p]) (auto simp: d)
  moreover have "wakes d (tot ?t)"
  proof -
    have aw: "p_awake (cfutex (chan s)) j (mp_pc s j) \<le> p_awake (cfutex d) j (mp_pc ?t j)" for j
      using w_awake_fewer[of "cfutex d" "cfutex (chan s)" j] ws(2) p by (cases "j = i"; cases "mp_pc s j") (auto simp: d)
    then have le: "tot s (p_awake (cfutex (chan s))) \<le> tot ?t (p_awake (cfutex d))" by (rule tot_mono[OF tt(1)])
    have pk: "tot ?t (\<lambda>_. p_park (cfutex d)) = tot s (\<lambda>_. p_park (cfutex (chan s)))"
      by (rule tot_cong[OF tt(1)]) (use p in \<open>auto simp: d p_park_waiters\<close>)
    have bu: "tot ?t (\<lambda>_. on_notify n_bump) = tot s (\<lambda>_. on_notify n_bump)" by (rule tot_cong[OF tt(1)]) (use p in auto)
    have wk: "tot ?t (\<lambda>_. on_notify n_wake) + k = tot s (\<lambda>_. on_notify n_wake)" using tot_upd[OF i tt(1,2), of "\<lambda>_. on_notify n_wake"] p by simp
    have one: "k = 1 \<and> tot s (p_awake (cfutex (chan s))) + 1 \<le> tot ?t (p_awake (cfutex d))" if "ws \<noteq> []"
    proof
      show "k = 1" using placed[OF inv i] p w that by (auto simp: place_ok_def)
      have pc: "w < mp_threads s" "mp_pc s w = Wait WSleep" "w \<in> set (waiters (cfutex (chan s)))" "w \<notin> set ws"
        using w that I(2) by (auto simp: sleepers_def)
      show "tot s (p_awake (cfutex (chan s))) + 1 \<le> tot ?t (p_awake (cfutex d))"
        by (rule tot_strict[OF tt(1) _ pc(1)]) (use aw in blast, use pc p in \<open>auto simp: d\<close>)
    qed
    have same: "cv_to_wake (condvar d) = cv_to_wake (condvar (chan s))" "bumps d = bumps (chan s)" "waiters (cfutex d) = ws" by (simp_all add: d)
    have "waiters (cfutex (chan s)) \<noteq> []" if "ws \<noteq> []" using w that by auto
    then show ?thesis using I(5) le pk bu wk one unfolding wakes_def same by linarith
  qed
  ultimately show ?thesis using I(3) tt by (simp add: mp_inv_def d)
qed

lemma mp_notify_inv:
  assumes inv: "mp_inv s" and i: "i < mp_threads s" and st: "mpmc_notify (chan s) w (mp_pc s i) = Some (d, q)"
  shows "mp_inv (moved s i d q r)"
proof (cases "mp_pc s i")
  case (Notify p)
  note facts = st holds[OF inv i] placed[OF inv i] in_bound[OF inv]
  have res: "result_ok c (notify_result p)" for c by (cases p) (auto simp: result_ok_def notify_result_def)
  show ?thesis
  proof (cases p)
    case (NLoad b)
    have "place_ok d q" using Notify NLoad facts res[of "chan s"] by (auto simp: place_ok_def split: if_splits)
    then show ?thesis by (intro mp_move[OF inv i refl refl]) (use Notify NLoad facts in \<open>auto split: if_splits\<close>)
  next
    case (NAdd b k)
    show ?thesis by (rule mp_move[OF inv i refl refl]) (use Notify NAdd facts in \<open>auto simp: place_ok_def split: if_splits\<close>)
  next
    case (NBump b k)
    with bump_move[OF inv i, of b k] Notify st show ?thesis by (auto simp: mpmc_notify.simps)
  next
    case (NWake b k)
    let ?f = "cfutex (chan s)"
    have dist: "distinct (waiters ?f)" using inv by (simp add: mp_inv_def sleepers_def)
    show ?thesis
    proof (cases b)
      case True
      with wake_move[OF inv i _ refl, of b k "[]", OF _ _ _ res] Notify NWake st show ?thesis by (auto simp: futex_wake_all_def)
    next
      case False
      with wake_move[OF inv i _ refl, of b k "remove1 w (waiters ?f)", OF _ _ _ res, of w] Notify NWake st dist show ?thesis
        by (auto simp: futex_wake_def set_remove1_subset split: if_splits)
    qed
  qed
qed (use st in auto)

lemma mp_spurious_inv:
  assumes inv: "mp_inv s"
  shows "mp_inv (s\<lparr>chan := (chan s)\<lparr>condvar := (condvar (chan s))\<lparr>cv_futex := futex_unpark (cfutex (chan s)) i\<rparr>\<rparr>\<rparr>)" (is "mp_inv ?t")
proof -
  have I: "places s" "sleepers s" "within_bound (chan s)" "counts (chan s) (tot s)" "wakes (chan s) (tot s)" using inv by (simp_all add: mp_inv_def)
  have tt: "mp_threads ?t = mp_threads s" "mp_pc ?t = mp_pc s" by simp_all
  have tot: "tot ?t g = tot s g" for g by (simp add: tot_def)
  have f: "fword (cfutex (chan ?t)) = fword (cfutex (chan s))" "set (waiters (cfutex (chan ?t))) \<subseteq> set (waiters (cfutex (chan s)))"
    by (auto simp: futex_unpark_def)
  have "place_ok (chan s) p \<Longrightarrow> place_ok (chan ?t) p" for p by (erule place_ok_mono) simp_all
  then have "places ?t" using I(1) by (simp add: places_def)
  moreover have "sleepers ?t" using I(2) by (auto simp: sleepers_def futex_unpark_def distinct_removeAll)
  moreover have "counts (chan ?t) (tot ?t)" using I(4) by (simp add: counts_def tot)
  moreover have "wakes (chan ?t) (tot ?t)"
  proof -
    have "p_awake (cfutex (chan s)) j p \<le> p_awake (cfutex (chan ?t)) j p" for j and p :: "'a pc"
      using w_awake_fewer[OF f] by (cases p) auto
    then have "tot s (p_awake (cfutex (chan s))) \<le> tot ?t (p_awake (cfutex (chan ?t)))" by (intro tot_mono) simp_all
    moreover have "tot ?t (\<lambda>_. p_park (cfutex (chan ?t))) = tot s (\<lambda>_. p_park (cfutex (chan s)))"
      by (rule tot_cong) (simp_all add: futex_unpark_def p_park_waiters)
    moreover have "waiters (cfutex (chan s)) \<noteq> []" if "waiters (cfutex (chan ?t)) \<noteq> []" using f(2) that by (metis set_empty subset_empty)
    moreover have "cv_to_wake (condvar (chan ?t)) = cv_to_wake (condvar (chan s))" "bumps (chan ?t) = bumps (chan s)" by simp_all
    ultimately show ?thesis using I(5) tot[of "\<lambda>_. on_notify n_bump"] tot[of "\<lambda>_. on_notify n_wake"] unfolding wakes_def by linarith
  qed
  ultimately show ?thesis using I(3) by (simp add: mp_inv_def)
qed

lemma mp_call_inv:
  assumes inv: "mp_inv s" and i: "i < mp_threads s" and p: "mp_pc s i = Idle" "\<not> crit q" "place_ok (chan s) q"
    and q: "\<forall>w. q \<noteq> Wait w" "\<forall>w. q \<noteq> Notify w"
  shows "mp_inv (s\<lparr>mp_pc := (mp_pc s)(i := q)\<rparr>)"
proof -
  have "mp_inv (moved s i (chan s) q (mp_result s))"
    by (rule mp_move[OF inv i p(1) refl]) (use p q in_bound[OF inv] in \<open>(cases q; auto)+\<close>)
  then show ?thesis by simp
qed

lemma mp_thread_cases:
  "mp_thread_step c i weak w p = Some x \<Longrightarrow>
    mpmc_send c i p = Some x \<or> mpmc_try_recv c i p = Some x \<or> mpmc_recv c i weak p = Some x \<or> mpmc_close c i p = Some x \<or>
    mpmc_notify c w p = Some x \<or> (\<exists>r. p = Unlock r \<and> x = (c\<lparr>mutex := None\<rparr>, Idle))"
  by (cases p) (simp_all add: mp_thread_step_def)

lemma mp_inv_step:
  assumes inv: "mp_inv s" and st: "mp_step a s = Some t"
  shows "mp_inv t"
proof (cases a)
  case (MpStep i weak w)
  then obtain d q where i: "i < mp_threads s" and th: "mp_thread_step (chan s) i weak w (mp_pc s i) = Some (d, q)"
    and t: "\<exists>l. t = (moved s i d q (case mp_pc s i of Unlock r \<Rightarrow> (mp_result s)(i := Some r) | _ \<Rightarrow> mp_result s))\<lparr>mp_log := l\<rparr>"
    using st by (auto simp: mp_step_def Let_def split: if_splits option.splits)
  have "mp_inv (moved s i d q r)" for r using mp_thread_cases[OF th]
    by (elim disjE exE conjE)
      (simp_all only: prod.inject mp_send_inv[OF inv i] mp_try_recv_inv[OF inv i] mp_recv_inv[OF inv i] mp_close_inv[OF inv i]
        mp_notify_inv[OF inv i] mp_unlock_inv[OF inv i])
  with t show ?thesis by (elim exE) (simp only: mp_inv_ghost)
next
  case (MpSpurious i)
  with st mp_spurious_inv[OF inv, of i] show ?thesis by (auto simp: mp_step_def Let_def split: if_splits)
qed (use st mp_call_inv[OF inv] in \<open>auto simp: mp_step_def Let_def place_ok_def split: if_splits\<close>)

lemma mp_inv_init: "mp_inv (mp_init n k)"
  by (simp add: mp_inv_def mp_init_def mpmc_bounded_def scondvar_new_def futex_new_def places_def sleepers_def within_bound_def
      counts_def wakes_def place_ok_def tot_def)

section \<open>The channel as a sequential object\<close>

text \<open>
  What one call does to the queue and the closed flag, and its answer; \<open>None\<close> where \<open>recv\<close>
  would have to wait. \<open>k\<close> is the bound, 0 for none.
\<close>

fun chan_spec :: "nat \<Rightarrow> 'v mp_call \<Rightarrow> 'v list \<times> bool \<Rightarrow> (('v list \<times> bool) \<times> 'v result) option" where
  "chan_spec k (SendCall v) (q, cl) =
     (if cl \<or> 0 < k \<and> k \<le> length q then Some ((q, cl), SendErr v) else Some ((q @ [v], cl), SendOk))"
| "chan_spec k TryRecvCall (q, cl) =
     (case q of [] \<Rightarrow> Some ((q, cl), TryReceived None) | v # q' \<Rightarrow> Some ((q', cl), TryReceived (Some v)))"
| "chan_spec k RecvCall (q, cl) =
     (case q of [] \<Rightarrow> if cl then Some ((q, cl), Received None) else None | v # q' \<Rightarrow> Some ((q', cl), Received (Some v)))"
| "chan_spec k CloseCall (q, cl) = Some ((q, True), Closed)"

fun chan_replay :: "nat \<Rightarrow> (tid \<times> 'v mp_call \<times> 'v result) list \<Rightarrow> 'v list \<times> bool \<Rightarrow> ('v list \<times> bool) option" where
  "chan_replay k [] st = Some st"
| "chan_replay k ((i, c, r) # log) st =
     (case chan_spec k c st of Some (st', r') \<Rightarrow> if r' = r then chan_replay k log st' else None | None \<Rightarrow> None)"

definition last_answer :: "tid \<Rightarrow> (tid \<times> 'v mp_call \<times> 'v result) list \<Rightarrow> 'v result option" where
  "last_answer i log = (let mine = filter (\<lambda>x. fst x = i) log in if mine = [] then None else Some (snd (snd (last mine))))"

lemma chan_replay_append: "chan_replay k (xs @ ys) st = Option.bind (chan_replay k xs st) (chan_replay k ys)"
  by (induction k xs st rule: chan_replay.induct) (auto split: option.splits)

lemma last_answer_append: "last_answer i (log @ [(j, c, r)]) = (if j = i then Some r else last_answer i log)"
  by (simp add: last_answer_def Let_def)

text \<open>The holder of the mutex: whether its call has taken effect, and which answer it will give.\<close>

definition chan_st :: "'v mpmc \<Rightarrow> 'v list \<times> bool" where
  "chan_st c = (buffer c, closed c)"

fun effect_ok :: "nat \<Rightarrow> 'v list \<times> bool \<Rightarrow> 'v mpmc \<Rightarrow> 'v mp_call \<Rightarrow> 'v pc \<Rightarrow> bool" where
  "effect_ok k st c call (Unlock r) = (chan_spec k call st = Some (chan_st c, r))"
| "effect_ok k st c call (Notify p) = (chan_spec k call st = Some (chan_st c, notify_result p))"
| "effect_ok k st c call p = (chan_st c = st)"

fun call_ok :: "'v mp_call \<Rightarrow> 'v pc \<Rightarrow> bool" where
  "call_ok call (SendLock v) = (call = SendCall v)"
| "call_ok call (SendClosed v) = (call = SendCall v)"
| "call_ok call (SendFull v) = (call = SendCall v)"
| "call_ok call (SendPush v) = (call = SendCall v)"
| "call_ok call TryLock = (call = TryRecvCall)"
| "call_ok call TryPop = (call = TryRecvCall)"
| "call_ok call RecvLock = (call = RecvCall)"
| "call_ok call RecvPop = (call = RecvCall)"
| "call_ok call RecvClosed = (call = RecvCall)"
| "call_ok call (Wait w) = (call = RecvCall)"
| "call_ok call WaitDrop = (call = RecvCall)"
| "call_ok call CloseLock = (call = CloseCall)"
| "call_ok call CloseSet = (call = CloseCall)"
| "call_ok call _ = True"

definition chan_at :: "nat \<Rightarrow> 'v mpmc_sys \<Rightarrow> 'v list \<times> bool \<Rightarrow> bool" where
  "chan_at k s st \<longleftrightarrow>
     (case mutex (chan s) of
        None \<Rightarrow> chan_st (chan s) = st
      | Some i \<Rightarrow> (\<forall>c. mp_called s i = Some c \<longrightarrow> effect_ok k st (chan s) c (mp_pc s i)))"

definition chan_lin :: "nat \<Rightarrow> 'v mpmc_sys \<Rightarrow> bool" where
  "chan_lin k s \<longleftrightarrow> bounded (chan s) = k \<and>
     (\<exists>st. chan_replay k (mp_log s) ([], False) = Some st \<and> chan_at k s st) \<and>
     (\<forall>i. mp_pc s i \<noteq> Idle \<longrightarrow> (\<exists>c. mp_called s i = Some c \<and> call_ok c (mp_pc s i))) \<and>
     (\<forall>i. mp_result s i = last_answer i (mp_log s))"

lemma notify_result_npc: "cv_notify cv w p = Some (cv', Some q) \<Longrightarrow> notify_result q = notify_result p"
  by (cases p) (auto simp: notify_result_def split: if_splits)

text \<open>A step of the holder that does not return, and a step of a thread outside.\<close>

lemma holder_effect:
  assumes "mp_thread_step c i weak w p = Some (d, q)" "crit p" "\<And>r. p \<noteq> Unlock r" "mutex c = Some i" "bounded c = k"
    "effect_ok k st c call p" "call_ok call p" "place_ok c p"
  shows "bounded d = k \<and> call_ok call q \<and> q \<noteq> Idle \<and>
    (if mutex d = None then chan_st d = st else mutex d = Some i \<and> effect_ok k st d call q)"
proof (cases p)
  case (Notify n)
  with assms show ?thesis
    by (auto simp: mp_thread_step_def chan_st_def notify_result_npc split: option.splits)
next
  case (Wait x)
  with assms show ?thesis by (cases x) (auto simp: mp_thread_step_def chan_st_def)
qed (use assms in \<open>auto simp: mp_thread_step_def chan_st_def place_ok_def is_full_def notify_result_def chan_pop_def split: list.splits if_splits\<close>)

lemma outside_effect:
  assumes "mp_thread_step c i weak w p = Some (d, q)" "\<not> crit p" "call_ok call p"
  shows "bounded d = bounded c \<and> chan_st d = chan_st c \<and> call_ok call q \<and> q \<noteq> Idle \<and>
    (mutex d = mutex c \<or> mutex c = None \<and> mutex d = Some i \<and> effect_ok k (chan_st c) d call q)"
proof (cases p)
  case (Wait x)
  with assms show ?thesis by (cases x) (auto simp: mp_thread_step_def chan_st_def with_lock_def split: option.splits prod.splits if_splits)
qed (use assms in \<open>auto simp: mp_thread_step_def chan_st_def with_lock_def split: if_splits\<close>)

lemma effect_frame:
  "chan_st d = chan_st c \<Longrightarrow> effect_ok k st d call p = effect_ok k st c call p"
  by (cases p) simp_all

lemma chan_lin_call:
  assumes inv: "mp_inv s" and lin: "chan_lin k s" and p: "i < mp_threads s" "mp_pc s i = Idle" and q: "call_ok c q" "q \<noteq> Idle"
  shows "chan_lin k (s\<lparr>mp_pc := (mp_pc s)(i := q), mp_called := (mp_called s)(i := Some c)\<rparr>)"
proof -
  let ?t = "s\<lparr>mp_pc := (mp_pc s)(i := q), mp_called := (mp_called s)(i := Some c)\<rparr>"
  have "mutex (chan s) \<noteq> Some i" using holds[OF inv p(1)] p(2) by auto
  then have "chan_at k ?t st = chan_at k s st" for st by (simp add: chan_at_def split: option.splits)
  then show ?thesis using lin q by (simp add: chan_lin_def)
qed

lemma chan_lin_step:
  assumes inv: "mp_inv s" and lin: "chan_lin k s" and st: "mp_step a s = Some t"
  shows "chan_lin k t"
proof (cases a)
  case (MpStep i weak w)
  then obtain d q where i: "i < mp_threads s" and th: "mp_thread_step (chan s) i weak w (mp_pc s i) = Some (d, q)"
    and t: "chan t = d" "mp_pc t = (mp_pc s)(i := q)" "mp_called t = mp_called s"
      "mp_result t = (case mp_pc s i of Unlock r \<Rightarrow> (mp_result s)(i := Some r) | _ \<Rightarrow> mp_result s)"
      "mp_log t = (case (mp_pc s i, mp_called s i) of (Unlock r, Some k) \<Rightarrow> mp_log s @ [(i, k, r)] | _ \<Rightarrow> mp_log s)"
    using st by (auto simp: mp_step_def Let_def split: if_splits option.splits)
  have "mp_pc s i \<noteq> Idle" using th by (auto simp: mp_thread_step_def)
  then obtain c where c: "mp_called s i = Some c" "call_ok c (mp_pc s i)" using lin by (auto simp: chan_lin_def)
  obtain st0 where R: "chan_replay k (mp_log s) ([], False) = Some st0"
    and M: "chan_at k s st0"
    and B: "bounded (chan s) = k" and A: "\<And>i. mp_result s i = last_answer i (mp_log s)"
    and C: "\<And>i. mp_pc s i \<noteq> Idle \<Longrightarrow> \<exists>c. mp_called s i = Some c \<and> call_ok c (mp_pc s i)"
    using lin unfolding chan_lin_def by blast
  note hm = holds[OF inv i]
  show ?thesis
  proof (cases "\<exists>r. mp_pc s i = Unlock r")
    case True
    then obtain r where r: "mp_pc s i = Unlock r" ..
    then have "chan_spec k c st0 = Some (chan_st (chan s), r)" using hm M c(1) by (simp add: chan_at_def)
    then have "chan_replay k (mp_log t) ([], False) = Some (chan_st (chan s))" using R r c(1) by (simp add: t chan_replay_append)
    moreover have d: "d = (chan s)\<lparr>mutex := None\<rparr>" "q = Idle" using th r by (simp_all add: mp_thread_step_def)
    moreover have "mp_result t j = last_answer j (mp_log t)" for j using A[of j] r c(1) by (simp add: t last_answer_append)
    moreover have "chan_at k t (chan_st (chan s))" by (simp add: chan_at_def t d chan_st_def)
    moreover have "bounded (chan t) = k" by (simp add: t d B)
    moreover have "\<exists>c. mp_called t j = Some c \<and> call_ok c (mp_pc t j)" if "mp_pc t j \<noteq> Idle" for j
      using that C[of j] by (simp add: t d split: if_splits)
    ultimately show ?thesis unfolding chan_lin_def by blast
  next
    case False
    then have e: "mp_result t = mp_result s" "mp_log t = mp_log s" using t(4,5) by (auto split: pc.splits)
    have goal: ?thesis if "bounded d = k" "call_ok c q" "chan_at k t st0"
    proof -
      have "\<exists>c. mp_called t j = Some c \<and> call_ok c (mp_pc t j)" if "mp_pc t j \<noteq> Idle" for j
        using that C[of j] c(1) \<open>call_ok c q\<close> by (cases "j = i") (simp_all add: t(2,3))
      then show ?thesis unfolding chan_lin_def e using t(1) R A that by blast
    qed
    show ?thesis
    proof (cases "crit (mp_pc s i)")
      case True
      then have m: "mutex (chan s) = Some i" using hm by simp
      then have "effect_ok k st0 (chan s) c (mp_pc s i)" using M c(1) by (simp add: chan_at_def)
      from holder_effect[OF th True _ m B this c(2) placed[OF inv i]] False
      have b: "bounded d = k" "call_ok c q" and e: "if mutex d = None then chan_st d = st0 else mutex d = Some i \<and> effect_ok k st0 d c q" by auto
      have "chan_at k t st0" unfolding chan_at_def t(1-3) using e c(1) by (cases "mutex d") simp_all
      with b show ?thesis by (rule goal)
    next
      case out: False
      note o = outside_effect[OF th out c(2), of k]
      have mi: "mutex (chan s) \<noteq> Some i" using hm out by simp
      have "chan_at k t st0"
      proof (cases "mutex d = mutex (chan s)")
        case True
        have ef: "effect_ok k st0 d c' p = effect_ok k st0 (chan s) c' p" for c' p using effect_frame o by blast
        show ?thesis using M mi o True unfolding chan_at_def t(1-3) by (cases "mutex (chan s)") (simp_all add: ef)
      next
        case new: False
        with o M have "mutex (chan s) = None" "mutex d = Some i" "effect_ok k st0 d c q" by (auto simp: chan_at_def)
        with c(1) show ?thesis by (simp add: chan_at_def t(1-3))
      qed
      then show ?thesis using o B by (intro goal) auto
    qed
  qed
next
  case (MpSpurious i)
  with st obtain f where t: "t = s\<lparr>chan := (chan s)\<lparr>condvar := f\<rparr>\<rparr>" by (auto simp: mp_step_def Let_def split: if_splits)
  have "chan_at k t st = chan_at k s st" for st
    using effect_frame[of "(chan s)\<lparr>condvar := f\<rparr>" "chan s"] by (simp add: chan_at_def t chan_st_def split: option.splits)
  then show ?thesis using lin by (simp add: chan_lin_def t)
qed (use st chan_lin_call[OF inv lin] in \<open>auto simp: mp_step_def Let_def split: if_splits\<close>)

lemma chan_lin_init: "chan_lin k (mp_init n k)"
  by (simp add: chan_lin_def mp_init_def mpmc_bounded_def chan_st_def last_answer_def chan_at_def del: split_paired_Ex)

interpretation mpmc: machine mp_step "mp_init n k" "\<lambda>s. mp_inv s \<and> chan_lin k s"
  for n k
  by unfold_locales (auto intro: mp_inv_init mp_inv_step chan_lin_init chan_lin_step)

section \<open>Properties\<close>

text \<open>
  C14: the channel is a bounded first-in first-out queue that can be closed. Whatever the
  interleaving, the calls that have returned, in the order in which they released the mutex and with the
  answers they gave, are an execution of the sequential queue: \<open>send\<close> appends, or returns the
  value when the queue is full or closed; \<open>recv\<close> and \<open>try_recv\<close> answer with the oldest value, and \<open>recv\<close>
  answers \<open>None\<close> only on an empty closed queue. When no thread is inside, the buffer and the closed flag
  are the ones this execution leads to, so no message is lost, repeated or reordered; the answer a
  thread has been given is its last one in that execution; a bounded channel never
  holds more than its bound; and at most one thread is inside the critical section.
\<close>

theorem mpmc_fifo:
  assumes "reachable mp_step (mp_init n k) s"
  shows "(\<exists>st. chan_replay k (mp_log s) ([], False) = Some st \<and> (mutex (chan s) = None \<longrightarrow> (buffer (chan s), closed (chan s)) = st)) \<and>
    mp_result s i = last_answer i (mp_log s) \<and>
    (0 < k \<longrightarrow> length (buffer (chan s)) \<le> k) \<and>
    (\<forall>i j. i < mp_threads s \<and> j < mp_threads s \<and> crit (mp_pc s i) \<and> crit (mp_pc s j) \<longrightarrow> i = j)"
proof -
  have inv: "mp_inv s" and lin: "chan_lin k s" using mpmc.always[OF assms] by simp_all
  obtain st where "chan_replay k (mp_log s) ([], False) = Some st" "chan_at k s st" using lin unfolding chan_lin_def by blast
  moreover from this have "mutex (chan s) = None \<longrightarrow> chan_st (chan s) = st" by (auto simp: chan_at_def)
  moreover have "mp_result s i = last_answer i (mp_log s)" "bounded (chan s) = k" using lin by (simp_all add: chan_lin_def)
  moreover have "0 < bounded (chan s) \<longrightarrow> length (buffer (chan s)) \<le> bounded (chan s)" using in_bound[OF inv] by (simp add: within_bound_def)
  moreover have "\<forall>i j. i < mp_threads s \<and> j < mp_threads s \<and> crit (mp_pc s i) \<and> crit (mp_pc s j) \<longrightarrow> i = j" using holds[OF inv] by auto
  ultimately show ?thesis by (auto simp: chan_st_def)
qed

theorem mpmc_fifo_witness:
  "\<exists>s. reachable mp_step (mp_init 2 1) (s :: nat mpmc_sys) \<and> length (buffer (chan s)) = 0 \<and>
     mp_log s = [(0, SendCall 7, SendOk), (0, SendCall 8, SendErr 8), (1, RecvCall, Received (Some 7))] \<and>
     chan_replay 1 (mp_log s) ([], False) = Some ([], False) \<and> mp_result s 1 = Some (Received (Some 7))"
proof -
  have "run_to mp_step
      ([MpSend 0 (7::nat)] @ replicate 6 (MpStep 0 False 0) @ [MpSend 0 8] @ replicate 4 (MpStep 0 False 0) @ [MpRecv 1] @ replicate 3 (MpStep 1 False 0))
      (mp_init 2 1) (\<lambda>s. mutex (chan s) = None \<and> buffer (chan s) = [] \<and> \<not> closed (chan s) \<and>
        mp_log s = [(0, SendCall 7, SendOk), (0, SendCall 8, SendErr 8), (1, RecvCall, Received (Some 7))])"
    by code_simp
  then obtain s where s: "reachable mp_step (mp_init 2 1) s" "mutex (chan s) = None" "buffer (chan s) = []" "\<not> closed (chan s)"
    "mp_log s = [(0, SendCall 7, SendOk), (0, SendCall 8, SendErr 8), (1, RecvCall, Received (Some (7::nat)))]" by (auto dest: run_toD)
  have "chan_replay 1 (mp_log s) ([], False) = Some ([], False)" "mp_result s 1 = last_answer 1 (mp_log s)"
    using mpmc_fifo[OF s(1), of 1] s(2-4) by auto
  with s show ?thesis by (auto simp: last_answer_def)
qed

text \<open>
  What the answers of the channel mean. When \<open>send\<close> is about to hand its value back, the
  channel is closed or full at that moment; \<open>try_recv\<close> answers \<open>None\<close> only on an empty buffer,
  and \<open>recv\<close> only on an empty buffer of a closed channel, so no message is left behind.
\<close>

theorem mpmc_answers:
  assumes "reachable mp_step (mp_init n k) s" "i < mp_threads s" "mp_pc s i = Unlock r"
  shows "mutex (chan s) = Some i \<and> (\<forall>v. r = SendErr v \<longrightarrow> closed (chan s) \<or> is_full (chan s)) \<and>
    (r = TryReceived None \<longrightarrow> buffer (chan s) = []) \<and> (r = Received None \<longrightarrow> buffer (chan s) = [] \<and> closed (chan s))"
proof -
  have inv: "mp_inv s" using mpmc.always[OF assms(1)] by simp
  show ?thesis using holds[OF inv assms(2)] placed[OF inv assms(2)] assms(3) by (auto simp: place_ok_def result_ok_def)
qed

theorem mpmc_answers_witness:
  "\<exists>s. reachable mp_step (mp_init 1 1) s \<and> mp_pc s 0 = Unlock (SendErr (8::nat)) \<and> (closed (chan s) \<or> is_full (chan s))"
proof -
  have "run_to mp_step ([MpSend 0 (7::nat)] @ replicate 6 (MpStep 0 False 0) @ [MpSend 0 8] @ replicate 3 (MpStep 0 False 0))
      (mp_init 1 1) (\<lambda>s. mp_threads s = 1 \<and> mp_pc s 0 = Unlock (SendErr 8))" by code_simp
  then obtain s where s: "reachable mp_step (mp_init 1 1) s" "mp_threads s = 1" "mp_pc s 0 = Unlock (SendErr (8::nat))" by (auto dest: run_toD)
  with mpmc_answers[OF s(1), of 0] show ?thesis by auto
qed

text \<open>
  C13: no message is left to a sleeper. With fewer than \<open>2^32\<close> notifications, while a receiver
  sleeps on the futex every message in the buffer has its own counterpart: a receiver that is
  awake and on its way to the buffer, or a token whose notification is still under way.
\<close>

theorem mpmc_no_lost_message:
  assumes "reachable mp_step (mp_init n k) s" "bumps (chan s) < 2 ^ 32" "waiters (cv_futex (condvar (chan s))) \<noteq> []"
  shows "length (buffer (chan s)) \<le> tot s (\<lambda>_. p_cred) + tot s (p_awake (cv_futex (condvar (chan s)))) +
    tot s (\<lambda>_. on_notify n_pend) + tot s (\<lambda>_. on_notify n_wake)"
proof -
  have inv: "mp_inv s" using mpmc.always[OF assms(1)] by simp
  obtain i where "i \<in> set (waiters (cv_futex (condvar (chan s))))" using assms(3) by (meson list.set_sel(1))
  then have i: "i < mp_threads s" "mp_pc s i = Wait WSleep" using inv by (auto simp: mp_inv_def sleepers_def)
  have "0 < tot s (\<lambda>_. p_reg)" using tot_member[OF i(1), of "\<lambda>_. p_reg"] i(2) by simp
  then have "length (buffer (chan s)) \<le> cv_to_wake (condvar (chan s)) + tot s (\<lambda>_. p_cred) + tot s (\<lambda>_. on_notify n_pend)"
    using inv by (simp add: mp_inv_def counts_def)
  moreover have "cv_to_wake (condvar (chan s)) \<le> tot s (p_awake (cv_futex (condvar (chan s)))) + tot s (\<lambda>_. on_notify n_wake)"
    using inv assms(2,3) by (simp add: mp_inv_def wakes_def)
  ultimately show ?thesis by linarith
qed

theorem mpmc_no_lost_message_witness:
  "\<exists>s. reachable mp_step (mp_init 2 0) s \<and> waiters (cv_futex (condvar (chan s))) = [0] \<and> buffer (chan s) = [7::nat] \<and>
     1 \<le> tot s (\<lambda>_. p_cred) + tot s (p_awake (cv_futex (condvar (chan s)))) + tot s (\<lambda>_. on_notify n_pend) + tot s (\<lambda>_. on_notify n_wake)"
proof -
  have "run_to mp_step ([MpRecv 0] @ replicate 8 (MpStep 0 False 0) @ [MpSend 1 (7::nat)] @ replicate 6 (MpStep 1 False 0))
      (mp_init 2 0) (\<lambda>s. bumps (chan s) = 0 \<and> waiters (cv_futex (condvar (chan s))) = [0] \<and> buffer (chan s) = [7])" by code_simp
  then obtain s where s: "reachable mp_step (mp_init 2 0) s" "bumps (chan s) = 0" "waiters (cv_futex (condvar (chan s))) = [0]"
    "buffer (chan s) = [7::nat]" by (auto dest: run_toD)
  with mpmc_no_lost_message[OF s(1)] show ?thesis by auto
qed

text \<open>
  C15: \<open>close\<close> reaches everybody. With fewer than \<open>2^32\<close> notifications, once the channel is closed and
  no notification is under way, no receiver sleeps and none is about to.
\<close>

theorem mpmc_close_wakes:
  assumes "reachable mp_step (mp_init n k) s" "bumps (chan s) < 2 ^ 32" "closed (chan s)"
    and "\<And>i q. i < mp_threads s \<Longrightarrow> mp_pc s i \<noteq> Notify q"
  shows "waiters (cv_futex (condvar (chan s))) = [] \<and> tot s (\<lambda>_. p_park (cv_futex (condvar (chan s)))) = 0"
proof -
  let ?f = "cv_futex (condvar (chan s))"
  have inv: "mp_inv s" using mpmc.always[OF assms(1)] by simp
  have "on_notify g (mp_pc s i) = 0" if "i < mp_threads s" for i g using assms(4)[OF that] by (cases "mp_pc s i") auto
  then have z: "tot s (\<lambda>_. on_notify g) = 0" for g by (simp add: tot_def)
  let ?S = "tot s (\<lambda>i p. if p = Wait WSleep \<and> i \<in> set (waiters ?f) then 1 else 0)"
  have eq: "p_reg p = p_awake ?f i p + p_park ?f p + (if p = Wait WSleep \<and> i \<in> set (waiters ?f) then 1 else 0)" for i and p :: "'a pc"
    using w_reg_split[of _ ?f i] by (cases p) auto
  have "tot s (\<lambda>_. p_reg) = tot s (\<lambda>i p. p_awake ?f i p + p_park ?f p + (if p = Wait WSleep \<and> i \<in> set (waiters ?f) then 1 else 0))"
    by (rule tot_cong[OF refl]) (rule eq)
  then have split: "tot s (\<lambda>_. p_reg) = tot s (p_awake ?f) + tot s (\<lambda>_. p_park ?f) + ?S" by (simp only: tot_def sum.distrib)
  have reg: "tot s (\<lambda>_. p_reg) \<le> cv_to_wake (condvar (chan s))" using inv assms(3) z by (auto simp: mp_inv_def counts_def)
  have K: "0 < tot s (\<lambda>_. p_park ?f) \<longrightarrow> cv_to_wake (condvar (chan s)) \<le> tot s (p_awake ?f)"
    and W: "waiters ?f \<noteq> [] \<longrightarrow> cv_to_wake (condvar (chan s)) \<le> tot s (p_awake ?f)"
    using inv assms(2) z by (simp_all add: mp_inv_def wakes_def)
  have "0 < ?S" if "waiters ?f \<noteq> []"
  proof -
    obtain i where "i \<in> set (waiters ?f)" using \<open>waiters ?f \<noteq> []\<close> by (meson list.set_sel(1))
    moreover from this have "i < mp_threads s" "mp_pc s i = Wait WSleep" using inv by (auto simp: mp_inv_def sleepers_def)
    ultimately show ?thesis using tot_member[of i s "\<lambda>i p. if p = Wait WSleep \<and> i \<in> set (waiters ?f) then 1 else 0"] by simp
  qed
  then have "waiters ?f = []" using W reg split by fastforce
  moreover have "tot s (\<lambda>_. p_park ?f) = 0" using K reg split by fastforce
  ultimately show ?thesis by blast
qed

theorem mpmc_close_wakes_witness:
  "\<exists>s. reachable mp_step (mp_init 2 0) (s :: nat mpmc_sys) \<and> closed (chan s) \<and> cv_waiters (condvar (chan s)) = 1 \<and>
     waiters (cv_futex (condvar (chan s))) = []"
proof -
  have "run_to mp_step ([MpRecv 0] @ replicate 8 (MpStep 0 False 0) @ [MpClose 1] @ replicate 7 (MpStep 1 False 0))
      (mp_init 2 0 :: nat mpmc_sys) (\<lambda>s. bumps (chan s) = 1 \<and> closed (chan s) \<and> cv_waiters (condvar (chan s)) = 1 \<and> mp_threads s = 2 \<and>
        mp_pc s 0 = Wait WSleep \<and> mp_pc s 1 = Idle)" by code_simp
  then obtain s :: "nat mpmc_sys" where s: "reachable mp_step (mp_init 2 0) s" "bumps (chan s) = 1" "closed (chan s)" "cv_waiters (condvar (chan s)) = 1"
    "mp_threads s = 2" "mp_pc s 0 = Wait WSleep" "mp_pc s 1 = Idle" by (auto dest: run_toD)
  have "mp_pc s i \<noteq> Notify q" if "i < mp_threads s" for i q
  proof -
    have "i = 0 \<or> i = 1" using that s(5) by auto
    then show ?thesis using s(6,7) by auto
  qed
  with mpmc_close_wakes[OF s(1) _ s(3)] s show ?thesis by auto
qed

end
