(* ===== verification/Guard.thy ===== *)
theory Guard
  imports RawMutex_Safety Serial_Safety
begin

text \<open>
  The guards handed out by the containers: \<open>GuardLock\<close> (\<open>src/sync/guard_lock.rs\<close>), which remembers the
  kind of acquisition it has to give back, and \<open>WatchGuardRef\<close> and \<open>WatchGuardMut\<close>
  (\<open>src/sync/watch_guard_ref.rs\<close>, \<open>src/sync/watch_guard_mut.rs\<close>), which add the pointer to the data and
  an optional second lock that protects the storage. Locks live at addresses and
  are the full machines of theories \<open>RawMutex\<close> and \<open>Serial\<close>; types are names, and a memory typing
  says which type of value an address holds.
\<close>

datatype kind = KShared | KExclusive | KSerialRead | KSerialWrite

record guard_lock =
  gl_lock :: nat
  gl_owner :: u32
  gl_kind :: kind

record lock_heap =
  raws :: "nat \<Rightarrow> raw_sys"
  serials :: "nat \<Rightarrow> serial_sys"

definition gl_shared :: "nat \<Rightarrow> guard_lock" where
  "gl_shared lock = \<lparr>gl_lock = lock, gl_owner = 0, gl_kind = KShared\<rparr>"

definition gl_exclusive :: "nat \<Rightarrow> guard_lock" where
  "gl_exclusive lock = \<lparr>gl_lock = lock, gl_owner = 0, gl_kind = KExclusive\<rparr>"

definition gl_serial_read :: "nat \<Rightarrow> u32 \<Rightarrow> guard_lock" where
  "gl_serial_read lock owner = \<lparr>gl_lock = lock, gl_owner = owner, gl_kind = KSerialRead\<rparr>"

definition gl_serial_write :: "nat \<Rightarrow> guard_lock" where
  "gl_serial_write lock = \<lparr>gl_lock = lock, gl_owner = 0, gl_kind = KSerialWrite\<rparr>"

definition gl_is_locked :: "lock_heap \<Rightarrow> guard_lock \<Rightarrow> bool" where
  "gl_is_locked h g =
     (case gl_kind g of
        KShared \<Rightarrow> is_locked_shared (state (raw (raws h (gl_lock g))))
      | KExclusive \<Rightarrow> is_writer_locked (state (raw (raws h (gl_lock g))))
      | KSerialRead \<Rightarrow> is_read_locked (sm_state (mtx (serials h (gl_lock g))))
      | KSerialWrite \<Rightarrow> is_write_locked (sm_state (mtx (serials h (gl_lock g)))))"

definition on_raw :: "lock_heap \<Rightarrow> nat \<Rightarrow> ract \<Rightarrow> lock_heap option" where
  "on_raw h a act = (case raw_step act (raws h a) of None \<Rightarrow> None | Some l \<Rightarrow> Some (h\<lparr>raws := (raws h)(a := l)\<rparr>))"

definition on_serial :: "lock_heap \<Rightarrow> nat \<Rightarrow> sact \<Rightarrow> lock_heap option" where
  "on_serial h a act = (case serial_step act (serials h a) of None \<Rightarrow> None | Some l \<Rightarrow> Some (h\<lparr>serials := (serials h)(a := l)\<rparr>))"

definition gl_unlock :: "lock_heap \<Rightarrow> tid \<Rightarrow> guard_lock \<Rightarrow> lock_heap option" where
  "gl_unlock h i g =
     (case gl_kind g of
        KShared \<Rightarrow> on_raw h (gl_lock g) (CallUnlockS i)
      | KExclusive \<Rightarrow> on_raw h (gl_lock g) (CallUnlockX i)
      | KSerialRead \<Rightarrow> on_serial h (gl_lock g) (DropRead i (gl_owner g))
      | KSerialWrite \<Rightarrow> on_serial h (gl_lock g) (DropWrite i))"

text \<open>The guards proper; \<open>Box<dyn Any>\<close> is the one type that matters by name.\<close>

datatype ty = TyBoxAny | Ty nat

record watch_guard =
  wg_type :: ty
  wg_data :: nat
  wg_lock :: guard_lock
  wg_protection :: "nat option"

definition watch_ref_new :: "ty \<Rightarrow> nat \<Rightarrow> nat \<Rightarrow> watch_guard" where
  "watch_ref_new T ptr lock = \<lparr>wg_type = T, wg_data = ptr, wg_lock = gl_shared lock, wg_protection = None\<rparr>"

definition watch_ref_serial :: "ty \<Rightarrow> nat \<Rightarrow> nat \<Rightarrow> u32 \<Rightarrow> watch_guard" where
  "watch_ref_serial T ptr lock owner = \<lparr>wg_type = T, wg_data = ptr, wg_lock = gl_serial_read lock owner, wg_protection = None\<rparr>"

definition watch_mut_new :: "ty \<Rightarrow> nat \<Rightarrow> nat \<Rightarrow> watch_guard" where
  "watch_mut_new T ptr lock = \<lparr>wg_type = T, wg_data = ptr, wg_lock = gl_exclusive lock, wg_protection = None\<rparr>"

definition watch_mut_serial :: "ty \<Rightarrow> nat \<Rightarrow> nat \<Rightarrow> watch_guard" where
  "watch_mut_serial T ptr lock = \<lparr>wg_type = T, wg_data = ptr, wg_lock = gl_serial_write lock, wg_protection = None\<rparr>"

definition protect :: "watch_guard \<Rightarrow> nat \<Rightarrow> watch_guard" where
  "protect g lock = g\<lparr>wg_protection := Some lock\<rparr>"

definition watch_is_locked :: "lock_heap \<Rightarrow> watch_guard \<Rightarrow> bool" where
  "watch_is_locked h g = gl_is_locked h (wg_lock g)"

text \<open>
  A local variable that holds a guard, plain or in a \<open>ManuallyDrop\<close>: at the end of its scope the \<open>Drop\<close> of a
  plain one runs, that of a wrapped one does not.
\<close>

datatype local = Plain (inner: watch_guard) | ManuallyDrop (inner: watch_guard)

fun scope_end :: "local list \<Rightarrow> watch_guard list" where
  "scope_end [] = []"
| "scope_end (Plain g # ls) = g # scope_end ls"
| "scope_end (ManuallyDrop g # ls) = scope_end ls"

text \<open>
  \<open>downcast\<close>: \<open>boxed\<close> gives for the address of a \<open>Box<dyn Any>\<close> the address and the dynamic type of its
  content. The result, \<open>Inr\<close> for \<open>Ok\<close>, comes with the locals that are left when the function returns; \<open>into_inner\<close>
  moves the guard out of its local.
\<close>

definition downcast :: "(nat \<Rightarrow> nat \<times> ty) \<Rightarrow> ty \<Rightarrow> watch_guard \<Rightarrow> (watch_guard + watch_guard) \<times> local list" where
  "downcast boxed U g =
     (let this = ManuallyDrop g in
      if wg_type (inner this) \<noteq> TyBoxAny then (Inl (inner this), [])
      else case boxed (wg_data (inner this)) of
             (data, dynamic) \<Rightarrow>
               if U = dynamic
               then (Inr \<lparr>wg_type = U, wg_data = data, wg_lock = wg_lock (inner this), wg_protection = wg_protection (inner this)\<rparr>, [this])
               else (Inl (inner this), []))"

text \<open>
  \<open>Deref\<close> and \<open>DerefMut\<close>: the debug assertion, then the data; \<open>None\<close> is a failed assertion.
\<close>

definition watch_deref :: "lock_heap \<Rightarrow> watch_guard \<Rightarrow> nat option" where
  "watch_deref h g = (if gl_is_locked h (wg_lock g) then Some (wg_data g) else None)"

text \<open>
  \<open>Drop\<close>: the call that gives the lock back, and the call that gives the protecting lock back. The second one
  is made when the first has returned (\<open>gl_idle\<close>), its wake-ups included; theory \<open>Guard_Life\<close> puts them in sequence.
\<close>

definition gl_idle :: "lock_heap \<Rightarrow> tid \<Rightarrow> guard_lock \<Rightarrow> bool" where
  "gl_idle h i g =
     (case gl_kind g of
        KShared \<Rightarrow> rpc (rthr (raws h (gl_lock g)) i) = RIdle
      | KExclusive \<Rightarrow> rpc (rthr (raws h (gl_lock g)) i) = RIdle
      | KSerialRead \<Rightarrow> spc (thr (serials h (gl_lock g)) i) = SIdle
      | KSerialWrite \<Rightarrow> spc (thr (serials h (gl_lock g)) i) = SIdle)"

definition watch_drop_lock :: "lock_heap \<Rightarrow> tid \<Rightarrow> watch_guard \<Rightarrow> lock_heap option" where
  "watch_drop_lock h i g = gl_unlock h i (wg_lock g)"

definition watch_drop_protection :: "lock_heap \<Rightarrow> tid \<Rightarrow> watch_guard \<Rightarrow> lock_heap option" where
  "watch_drop_protection h i g =
     (case wg_protection g of None \<Rightarrow> Some h | Some a \<Rightarrow> on_raw h a (CallUnlockS i))"

section \<open>Properties\<close>

text \<open>The thread owns the acquisition that the guard stands for.\<close>

definition owns_guard :: "lock_heap \<Rightarrow> tid \<Rightarrow> guard_lock \<Rightarrow> bool" where
  "owns_guard h i g =
     (case gl_kind g of
        KShared \<Rightarrow> i < rthreads (raws h (gl_lock g)) \<and> 0 < shared (rthr (raws h (gl_lock g)) i)
      | KExclusive \<Rightarrow> i < rthreads (raws h (gl_lock g)) \<and> 0 < exclusive (rthr (raws h (gl_lock g)) i)
      | KSerialRead \<Rightarrow> i < threads (serials h (gl_lock g)) \<and> gl_owner g \<in> set (reads (thr (serials h (gl_lock g)) i))
      | KSerialWrite \<Rightarrow> i < threads (serials h (gl_lock g)) \<and> 0 < writes (thr (serials h (gl_lock g)) i))"

definition locks_ok :: "lock_heap \<Rightarrow> bool" where
  "locks_ok h \<longleftrightarrow> (\<forall>a. raw_inv (raws h a)) \<and> (\<forall>a. serial_inv (serials h a))"

lemma shared_locked:
  assumes "raw_inv s" "i < rthreads s" "0 < shared (rthr s i)"
  shows "is_locked_shared (state (raw s))"
proof -
  have "0 < total_s s" using member_le_sum_lt[OF assms(2), of "\<lambda>j. shared (rthr s j)"] assms(3) by (simp add: total_s_def)
  then show ?thesis using assms(1) by (auto simp: raw_inv_def is_locked_shared_def is_writer_locked_def word_view word_gt_0 split: if_splits)
qed

lemma exclusive_locked:
  assumes "raw_inv s" "i < rthreads s" "0 < exclusive (rthr s i)"
  shows "is_writer_locked (state (raw s))"
  using held_writer[OF assms(1,2)] assms(3) by (simp add: held_x_def is_writer_locked_def word_view)

lemma read_locked:
  assumes "serial_inv s" "i < threads s" "t \<in> set (reads (thr s i))"
  shows "is_read_locked (sm_state (mtx s))"
proof -
  have g: "guards_ok (threads s) (sm_state (mtx s)) (thr s)" using assms(1) by (simp add: serial_inv_def)
  have "0 < length (read_tokens (thr s i))" using assms(3) by (auto simp: read_tokens_def)
  then have "0 < sm_count (sm_state (mtx s))" using g total_reads_ge[OF assms(2), of "thr s"] unfolding guards_ok_def by linarith
  then show ?thesis by (simp add: is_read_locked_def word_view)
qed

lemma write_locked:
  assumes "serial_inv s" "i < threads s" "0 < writes (thr s i)"
  shows "is_write_locked (sm_state (mtx s))"
proof -
  have g: "guards_ok (threads s) (sm_state (mtx s)) (thr s)" using assms(1) by (simp add: serial_inv_def)
  then have "sm_writing (sm_state (mtx s))" using total_writes_ge[OF assms(2), of "thr s"] assms(3) by (auto simp: guards_ok_def of_bool_def split: if_splits)
  then show ?thesis by (simp add: is_write_locked_def word_view)
qed

lemma owned_locked:
  assumes "locks_ok h" "owns_guard h i g"
  shows "gl_is_locked h g"
  using assms shared_locked[of "raws h (gl_lock g)" i] exclusive_locked[of "raws h (gl_lock g)" i]
    read_locked[of "serials h (gl_lock g)" i "gl_owner g"] write_locked[of "serials h (gl_lock g)" i]
  by (cases "gl_kind g") (auto simp: locks_ok_def owns_guard_def gl_is_locked_def)

lemma owned_unlock:
  assumes "owns_guard h i g" "gl_idle h i g" "\<not> dead (serials h (gl_lock g))"
  shows "gl_unlock h i g \<noteq> None"
  using assms
  by (cases "gl_kind g")
    (auto simp: owns_guard_def gl_idle_def gl_unlock_def on_raw_def on_serial_def raw_step_def serial_step_def Let_def)

text \<open>
  C23: a guard is good for as long as it lives. Whatever schedules the locks of the heap have run
  through, a thread that owns the acquisition of a guard passes the debug assertion of
  \<open>Deref\<close> and \<open>DerefMut\<close> and reaches the data; it can give the acquisition back whenever it is in no
  lock operation (and the process has not aborted); and a protecting lock, at another address or
  of another kind, is still held in shared mode after the lock itself has been given back.
\<close>

theorem watch_guard_valid:
  assumes raws: "\<forall>a. \<exists>n p. reachable raw_step (raw_init n p) (raws h a)"
    and serials: "\<forall>a. \<exists>n p. reachable serial_step (serial_init n p) (serials h a)"
    and own: "owns_guard h i (wg_lock g)"
  shows "watch_is_locked h g \<and> watch_deref h g = Some (wg_data g) \<and>
    (gl_idle h i (wg_lock g) \<and> \<not> dead (serials h (gl_lock (wg_lock g))) \<longrightarrow>
      (\<exists>h'. watch_drop_lock h i g = Some h' \<and>
        (\<forall>a. wg_protection g = Some a \<and> owns_guard h i (gl_shared a) \<and>
             (gl_kind (wg_lock g) \<in> {KShared, KExclusive} \<longrightarrow> gl_lock (wg_lock g) \<noteq> a) \<longrightarrow>
           owns_guard h' i (gl_shared a) \<and> is_locked_shared (state (raw (raws h' a))))))"
proof -
  have ok: "locks_ok h" using raws serials raw.always serial.always unfolding locks_ok_def by blast
  have locked: "gl_is_locked h (wg_lock g)" by (rule owned_locked[OF ok own])
  have prot: "owns_guard h' i (gl_shared a) \<and> is_locked_shared (state (raw (raws h' a)))"
    if d: "watch_drop_lock h i g = Some h'" and p: "owns_guard h i (gl_shared a)"
      and k: "gl_kind (wg_lock g) \<in> {KShared, KExclusive} \<longrightarrow> gl_lock (wg_lock g) \<noteq> a" for h' a
  proof -
    have same: "raws h' a = raws h a"
      using d k by (cases "gl_kind (wg_lock g)") (auto simp: watch_drop_lock_def gl_unlock_def on_raw_def on_serial_def split: option.splits)
    have "owns_guard h' i (gl_shared a)" using p by (simp add: owns_guard_def gl_shared_def same)
    moreover have "is_locked_shared (state (raw (raws h a)))" using owned_locked[OF ok p] by (simp add: gl_is_locked_def gl_shared_def)
    ultimately show ?thesis by (simp only: same)
  qed
  have "\<exists>h'. watch_drop_lock h i g = Some h' \<and>
      (\<forall>a. wg_protection g = Some a \<and> owns_guard h i (gl_shared a) \<and>
           (gl_kind (wg_lock g) \<in> {KShared, KExclusive} \<longrightarrow> gl_lock (wg_lock g) \<noteq> a) \<longrightarrow>
         owns_guard h' i (gl_shared a) \<and> is_locked_shared (state (raw (raws h' a))))"
    if idle: "gl_idle h i (wg_lock g)" "\<not> dead (serials h (gl_lock (wg_lock g)))"
  proof -
    obtain h' where h': "watch_drop_lock h i g = Some h'" using owned_unlock[OF own idle] by (auto simp: watch_drop_lock_def)
    with prot[OF h'] show ?thesis by blast
  qed
  with locked show ?thesis by (auto simp: watch_is_locked_def watch_deref_def)
qed

definition demo_heap :: lock_heap where
  "demo_heap =
     \<lparr>raws = (\<lambda>a. if a = 7 then the (run raw_step [CallLockS 0, RStep 0 False] (raw_init 1 4)) else raw_init 1 4),
      serials = (\<lambda>a. the (run serial_step [CallWrite 0, SStep 0 False, SStep 0 False] (serial_init 1 4)))\<rparr>"

theorem watch_guard_valid_witness:
  "watch_is_locked demo_heap (protect (watch_mut_serial (Ty 0) 42 3) 7) \<and>
   (\<exists>h'. watch_drop_lock demo_heap 0 (protect (watch_mut_serial (Ty 0) 42 3) 7) = Some h' \<and> is_locked_shared (state (raw (raws h' 7))))"
proof -
  let ?g = "protect (watch_mut_serial (Ty 0) 42 3) 7"
  have r: "run_to raw_step [CallLockS 0, RStep 0 False] (raw_init 1 4) (\<lambda>s. True)"
    "run_to serial_step [CallWrite 0, SStep 0 False, SStep 0 False] (serial_init 1 4) (\<lambda>s. True)" by code_simp+
  then obtain s u where su: "run raw_step [CallLockS 0, RStep 0 False] (raw_init 1 4) = Some s" "reachable raw_step (raw_init 1 4) s"
    "run serial_step [CallWrite 0, SStep 0 False, SStep 0 False] (serial_init 1 4) = Some u" "reachable serial_step (serial_init 1 4) u"
    by (metis run_toD)
  have "\<exists>n p. reachable raw_step (raw_init n p) (raws demo_heap a)" "\<exists>n p. reachable serial_step (serial_init n p) (serials demo_heap a)" for a
    unfolding demo_heap_def su(1,3) using su(2,4) reachable_refl[of raw_step "raw_init 1 4"] by auto
  then have "\<forall>a. \<exists>n p. reachable raw_step (raw_init n p) (raws demo_heap a)"
    "\<forall>a. \<exists>n p. reachable serial_step (serial_init n p) (serials demo_heap a)" by blast+
  moreover have "owns_guard demo_heap 0 (wg_lock ?g)" "gl_idle demo_heap 0 (wg_lock ?g)" "\<not> dead (serials demo_heap (gl_lock (wg_lock ?g)))"
    "owns_guard demo_heap 0 (gl_shared 7)" by code_simp+
  moreover have "gl_kind (wg_lock ?g) = KSerialWrite" "wg_protection ?g = Some 7"
    by (simp_all add: protect_def watch_mut_serial_def gl_serial_write_def)
  ultimately show ?thesis using watch_guard_valid[of demo_heap 0 ?g] by (metis insertE kind.distinct(5) kind.distinct(9) singletonD)
qed

end
