(* ===== verification/Guard_Life.thy ===== *)
theory Guard_Life
  imports Guard
begin

text \<open>
  The life of the guards \<open>WatchGuardRef\<close> and \<open>WatchGuardMut\<close> (\<open>src/sync/watch_guard_ref.rs\<close>,
  \<open>src/sync/watch_guard_mut.rs\<close>) on a heap of locks that any number of threads use: a guard is
  made from an acquisition whose lock call has returned, may get a protecting lock, may be downcast, and is dropped. Dropping
  gives the lock back, waits until that call has returned, and then gives the protecting lock back. Steps
  of the locks, acquisitions by anybody included, interleave freely; acquisitions are only
  given back by dropping guards, and guards stay with the thread that made them.
\<close>

datatype gs_pc =
    GsIdle
  | GsUnlocking watch_guard "watch_guard list"     \<comment> \<open>in \<open>lock.unlock()\<close>; guards still to be dropped\<close>
  | GsUnprotecting nat "watch_guard list"          \<comment> \<open>in \<open>unlock_shared()\<close> of the protecting lock\<close>

record guard_sys =
  gs_heap :: lock_heap
  gs_live :: "tid \<Rightarrow> watch_guard list"
  gs_pc :: "tid \<Rightarrow> gs_pc"

datatype gs_act =
    GsRaw nat ract | GsSerial nat sact
  | GsNew tid watch_guard | GsProtect tid nat nat | GsDowncast tid nat ty | GsDrop tid nat | GsGo tid

definition guard_sys_new :: "lock_heap \<Rightarrow> guard_sys" where
  "guard_sys_new h = \<lparr>gs_heap = h, gs_live = (\<lambda>_. []), gs_pc = (\<lambda>_. GsIdle)\<rparr>"

text \<open>The acquisitions a guard stands for, and how many of each a thread owns.\<close>

datatype claim = ClShared nat | ClExclusive nat | ClRead nat u32 | ClWrite nat

definition lock_claim :: "guard_lock \<Rightarrow> claim" where
  "lock_claim g =
     (case gl_kind g of KShared \<Rightarrow> ClShared (gl_lock g) | KExclusive \<Rightarrow> ClExclusive (gl_lock g)
      | KSerialRead \<Rightarrow> ClRead (gl_lock g) (gl_owner g) | KSerialWrite \<Rightarrow> ClWrite (gl_lock g))"

definition protection_claims :: "watch_guard \<Rightarrow> claim list" where
  "protection_claims g = (case wg_protection g of None \<Rightarrow> [] | Some a \<Rightarrow> [ClShared a])"

definition claims :: "watch_guard \<Rightarrow> claim list" where
  "claims g = lock_claim (wg_lock g) # protection_claims g"

fun owned_of :: "lock_heap \<Rightarrow> tid \<Rightarrow> claim \<Rightarrow> nat" where
  "owned_of h i (ClShared a) = (if i < rthreads (raws h a) then shared (rthr (raws h a) i) else 0)"
| "owned_of h i (ClExclusive a) = (if i < rthreads (raws h a) then exclusive (rthr (raws h a) i) else 0)"
| "owned_of h i (ClRead a t) = (if i < threads (serials h a) then count_list (reads (thr (serials h a) i)) t else 0)"
| "owned_of h i (ClWrite a) = (if i < threads (serials h a) then writes (thr (serials h a) i) else 0)"

fun pc_claims :: "gs_pc \<Rightarrow> claim list" where
  "pc_claims GsIdle = []"
| "pc_claims (GsUnlocking g ds) = protection_claims g @ concat (map claims ds)"
| "pc_claims (GsUnprotecting a ds) = concat (map claims ds)"

definition claimed_of :: "guard_sys \<Rightarrow> tid \<Rightarrow> claim \<Rightarrow> nat" where
  "claimed_of s i c = count_list (concat (map claims (gs_live s i)) @ pc_claims (gs_pc s i)) c"

section \<open>Steps\<close>

text \<open>Actions on a lock that give no acquisition back or away.\<close>

fun raw_keeps :: "ract \<Rightarrow> bool" where
  "raw_keeps (CallLockX i) = True"
| "raw_keeps (CallTryX i) = True"
| "raw_keeps (CallLockS i) = True"
| "raw_keeps (CallTryS i) = True"
| "raw_keeps (RStep i w) = True"
| "raw_keeps (RSpurious i) = True"
| "raw_keeps _ = False"

fun serial_keeps :: "sact \<Rightarrow> bool" where
  "serial_keeps (CallRead i) = True"
| "serial_keeps (CallWrite i) = True"
| "serial_keeps (CallTry i) = True"
| "serial_keeps (SStep i w) = True"
| "serial_keeps (SSpurious i) = True"
| "serial_keeps _ = False"

text \<open>The guards at the end of a scope are dropped one after the other.\<close>

definition drop_next :: "guard_sys \<Rightarrow> tid \<Rightarrow> watch_guard list \<Rightarrow> guard_sys option" where
  "drop_next s i ds =
     (case ds of
        [] \<Rightarrow> Some (s\<lparr>gs_pc := (gs_pc s)(i := GsIdle)\<rparr>)
      | g # rest \<Rightarrow>
          (case watch_drop_lock (gs_heap s) i g of
             None \<Rightarrow> None
           | Some h \<Rightarrow> Some (s\<lparr>gs_heap := h, gs_pc := (gs_pc s)(i := GsUnlocking g rest)\<rparr>)))"

definition drop_go :: "guard_sys \<Rightarrow> tid \<Rightarrow> guard_sys option" where
  "drop_go s i =
     (case gs_pc s i of
        GsIdle \<Rightarrow> None
      | GsUnlocking g ds \<Rightarrow>
          if \<not> gl_idle (gs_heap s) i (wg_lock g) then None
          else (case wg_protection g of
                  None \<Rightarrow> drop_next s i ds
                | Some a \<Rightarrow>
                    (case watch_drop_protection (gs_heap s) i g of
                       None \<Rightarrow> None
                     | Some h \<Rightarrow> Some (s\<lparr>gs_heap := h, gs_pc := (gs_pc s)(i := GsUnprotecting a ds)\<rparr>)))
      | GsUnprotecting a ds \<Rightarrow> if gl_idle (gs_heap s) i (gl_shared a) then drop_next s i ds else None)"

abbreviation (input) set_live :: "guard_sys \<Rightarrow> tid \<Rightarrow> watch_guard list \<Rightarrow> guard_sys" where
  "set_live s i gs \<equiv> s\<lparr>gs_live := (gs_live s)(i := gs)\<rparr>"

definition without :: "nat \<Rightarrow> 'a list \<Rightarrow> 'a list" where
  "without k xs = take k xs @ drop (Suc k) xs"

text \<open>
  A guard of type \<open>T\<close> is made from a \<open>&T\<close> (\<open>typ_of\<close> is the type of the value at an address) and an acquisition that
  no other guard stands for.
\<close>

definition guard_step :: "(nat \<Rightarrow> ty) \<Rightarrow> (nat \<Rightarrow> nat \<times> ty) \<Rightarrow> gs_act \<Rightarrow> guard_sys \<Rightarrow> guard_sys option" where
  "guard_step typ_of boxed act s =
     (let idle = (\<lambda>i. gs_pc s i = GsIdle); spare = (\<lambda>i c. claimed_of s i c < owned_of (gs_heap s) i c) in
      case act of
        GsRaw a x \<Rightarrow>
          if raw_keeps x then (case on_raw (gs_heap s) a x of None \<Rightarrow> None | Some h \<Rightarrow> Some (s\<lparr>gs_heap := h\<rparr>)) else None
      | GsSerial a x \<Rightarrow>
          if serial_keeps x then (case on_serial (gs_heap s) a x of None \<Rightarrow> None | Some h \<Rightarrow> Some (s\<lparr>gs_heap := h\<rparr>)) else None
      | GsNew i g \<Rightarrow>
          if idle i \<and> wg_protection g = None \<and> typ_of (wg_data g) = wg_type g \<and> spare i (lock_claim (wg_lock g))
          then Some (set_live s i (gs_live s i @ [g])) else None
      | GsProtect i k a \<Rightarrow>
          if idle i \<and> k < length (gs_live s i) \<and> wg_protection (gs_live s i ! k) = None \<and> spare i (ClShared a)
          then Some (set_live s i (without k (gs_live s i) @ [protect (gs_live s i ! k) a])) else None
      | GsDowncast i k U \<Rightarrow>
          if idle i \<and> k < length (gs_live s i) then
            (case downcast boxed U (gs_live s i ! k) of (r, locals) \<Rightarrow>
               drop_next (set_live s i (without k (gs_live s i) @ [case r of Inl g \<Rightarrow> g | Inr g \<Rightarrow> g])) i (scope_end locals))
          else None
      | GsDrop i k \<Rightarrow>
          if idle i \<and> k < length (gs_live s i) then
            drop_next (set_live s i (without k (gs_live s i))) i [gs_live s i ! k]
          else None
      | GsGo i \<Rightarrow> drop_go s i)"

section \<open>The invariant\<close>

definition life_inv :: "(nat \<Rightarrow> ty) \<Rightarrow> guard_sys \<Rightarrow> bool" where
  "life_inv typ_of s \<longleftrightarrow> locks_ok (gs_heap s) \<and> (\<forall>i c. claimed_of s i c \<le> owned_of (gs_heap s) i c) \<and>
     (\<forall>i. \<forall>g \<in> set (gs_live s i). typ_of (wg_data g) = wg_type g)"

lemma raw_keeps_mono:
  assumes "raw_step x l = Some l'" "raw_keeps x"
  shows "rthreads l' = rthreads l \<and> shared (rthr l i) \<le> shared (rthr l' i) \<and> exclusive (rthr l i) \<le> exclusive (rthr l' i)"
proof (cases x)
  case (RStep j w)
  with assms(1) have "raw_thread_step l j w (rpc (rthr l j)) = Some l'" by (auto simp: raw_step_def Let_def split: if_splits)
  then show ?thesis by (cases "rpc (rthr l j)") (auto simp: futex_wait_def Let_def split: if_splits option.splits prod.splits)
qed (use assms in \<open>auto simp: raw_step_def Let_def lock_exclusive_def try_lock_exclusive_def lock_shared_def split: if_splits\<close>)

lemma serial_keeps_mono:
  assumes "serial_step x l = Some l'" "serial_keeps x"
  shows "threads l' = threads l \<and> count_list (reads (thr l i)) t \<le> count_list (reads (thr l' i)) t \<and> writes (thr l i) \<le> writes (thr l' i)"
proof (cases x)
  case (SStep j w)
  with assms(1) have "thread_step l j w (spc (thr l j)) = Some l'" by (auto simp: serial_step_def Let_def split: if_splits)
  then show ?thesis
    by (cases "spc (thr l j)") (auto simp: owner_step_def acquired_def futex_wait_def split: if_splits option.splits prod.splits)
qed (use assms in \<open>auto simp: serial_step_def Let_def split: if_splits\<close>)

lemma on_raw_mono: "on_raw h a x = Some h' \<Longrightarrow> raw_keeps x \<Longrightarrow> owned_of h i c \<le> owned_of h' i c"
proof -
  assume h: "on_raw h a x = Some h'" and x: "raw_keeps x"
  obtain l where l: "raw_step x (raws h a) = Some l" "h' = h\<lparr>raws := (raws h)(a := l)\<rparr>" using h by (auto simp: on_raw_def split: option.splits)
  show ?thesis using raw_keeps_mono[OF l(1) x, of i] by (cases c) (simp_all add: l(2))
qed

lemma on_serial_mono: "on_serial h a x = Some h' \<Longrightarrow> serial_keeps x \<Longrightarrow> owned_of h i c \<le> owned_of h' i c"
proof -
  assume h: "on_serial h a x = Some h'" and x: "serial_keeps x"
  obtain l where l: "serial_step x (serials h a) = Some l" "h' = h\<lparr>serials := (serials h)(a := l)\<rparr>"
    using h by (auto simp: on_serial_def split: option.splits)
  show ?thesis using serial_keeps_mono[OF l(1) x, of i] by (cases c) (simp_all add: l(2))
qed

lemma locks_ok_raw: "locks_ok h \<Longrightarrow> on_raw h a x = Some h' \<Longrightarrow> locks_ok h'"
  using raw_inv_step[of "raws h a" x] by (auto simp: locks_ok_def on_raw_def split: option.splits)

lemma locks_ok_serial: "locks_ok h \<Longrightarrow> on_serial h a x = Some h' \<Longrightarrow> locks_ok h'"
  using serial_inv_step[of "serials h a" x] by (auto simp: locks_ok_def on_serial_def split: option.splits)

text \<open>Giving a guard's acquisition back takes exactly that one away, and nothing else.\<close>

lemma count_remove1: "y \<in> set xs \<Longrightarrow> count_list (remove1 y xs) y + 1 = count_list xs y"
  by (induction xs) auto

lemma count_remove1_other: "y \<noteq> x \<Longrightarrow> count_list (remove1 y xs) x = count_list xs x"
  by (induction xs) auto

lemma raw_unlock_owned:
  assumes "raw_step x l = Some l'" "x = CallUnlockS i \<or> x = CallUnlockX i"
  shows "rthreads l' = rthreads l \<and> i < rthreads l \<and>
    shared (rthr l' j) + (if j = i \<and> x = CallUnlockS i then 1 else 0) = shared (rthr l j) \<and>
    exclusive (rthr l' j) + (if j = i \<and> x = CallUnlockX i then 1 else 0) = exclusive (rthr l j)"
  using assms by (auto simp: raw_step_def Let_def unlock_shared_def unlock_exclusive_def split: if_splits)

lemma serial_unlock_owned:
  assumes "serial_step x l = Some l'" "x = DropRead i t \<or> x = DropWrite i"
  shows "threads l' = threads l \<and> i < threads l \<and>
    count_list (reads (thr l' j)) u + (if j = i \<and> u = t \<and> x = DropRead i t then 1 else 0) = count_list (reads (thr l j)) u \<and>
    writes (thr l' j) + (if j = i \<and> x = DropWrite i then 1 else 0) = writes (thr l j)"
proof (cases "x = DropWrite i")
  case True
  with assms show ?thesis by (auto simp: serial_step_def Let_def drop_write_def split: if_splits)
next
  case False
  then have x: "x = DropRead i t" using assms(2) by simp
  then have t: "t \<in> set (reads (thr l i))" "i < threads l" "l' = drop_read l i t"
    using assms(1) by (auto simp: serial_step_def Let_def split: if_splits)
  have l': "threads l' = threads l" "reads (thr l' i) = remove1 t (reads (thr l i))" "writes (thr l' i) = writes (thr l i)"
    "j \<noteq> i \<Longrightarrow> thr l' j = thr l j" unfolding t(3) by (simp_all add: drop_read_def Let_def)
  show ?thesis
  proof (cases "j = i")
    case True
    with l' t x count_remove1[OF t(1)] count_remove1_other[of t u] show ?thesis by (cases "u = t") auto
  qed (use l' t x in simp)
qed

lemma unlock_owned:
  assumes "gl_unlock h i g = Some h'"
  shows "owned_of h' j c + (if j = i \<and> c = lock_claim g then 1 else 0) = owned_of h j c"
proof (cases "gl_kind g = KShared \<or> gl_kind g = KExclusive")
  case True
  then obtain x l where x: "raw_step x (raws h (gl_lock g)) = Some l" "h' = h\<lparr>raws := (raws h)(gl_lock g := l)\<rparr>"
    "x = (if gl_kind g = KShared then CallUnlockS i else CallUnlockX i)"
    using assms by (auto simp: gl_unlock_def on_raw_def split: option.splits)
  from raw_unlock_owned[OF x(1), of i j] True x show ?thesis
    by (cases c) (auto simp: lock_claim_def split: if_splits)
next
  case False
  then obtain x l where x: "serial_step x (serials h (gl_lock g)) = Some l" "h' = h\<lparr>serials := (serials h)(gl_lock g := l)\<rparr>"
    "x = (if gl_kind g = KSerialRead then DropRead i (gl_owner g) else DropWrite i)"
    using assms by (cases "gl_kind g") (auto simp: gl_unlock_def on_serial_def split: option.splits)
  from False have k: "gl_kind g = KSerialRead \<or> gl_kind g = KSerialWrite" by (cases "gl_kind g") auto
  from serial_unlock_owned[OF x(1), of i "gl_owner g" j "case c of ClRead a u \<Rightarrow> u | _ \<Rightarrow> 0"] k x show ?thesis
    by (cases c) (auto simp: lock_claim_def split: if_splits)
qed

text \<open>The acquisitions behind claims, and what they give.\<close>

lemma owned_guard: "0 < owned_of h i (lock_claim g) \<longleftrightarrow> owns_guard h i g"
proof -
  have "0 < count_list xs y \<longleftrightarrow> y \<in> set xs" for xs and y :: u32 by (metis count_list_0_iff gr0I less_numeral_extra(3))
  then show ?thesis by (cases "gl_kind g") (auto simp: lock_claim_def owns_guard_def)
qed

lemma lock_claim_shared [simp]: "lock_claim (gl_shared a) = ClShared a"
  by (simp add: lock_claim_def gl_shared_def)

lemma claimed_owns:
  assumes "life_inv typ_of s" "lock_claim g \<in> set (concat (map claims (gs_live s i)) @ pc_claims (gs_pc s i))"
  shows "owns_guard (gs_heap s) i g"
proof -
  have "0 < claimed_of s i (lock_claim g)" using assms(2) unfolding claimed_of_def by (metis count_list_0_iff gr0I)
  also have "\<dots> \<le> owned_of (gs_heap s) i (lock_claim g)" using assms(1) by (simp add: life_inv_def)
  finally show ?thesis by (simp add: owned_guard)
qed

text \<open>A step that leaves the locks alone and claims no more than is owned.\<close>

lemma life_move:
  assumes inv: "life_inv typ_of s" and ok: "locks_ok (gs_heap t)"
    and t: "\<And>j. j \<noteq> i \<Longrightarrow> gs_live t j = gs_live s j \<and> gs_pc t j = gs_pc s j"
    and o: "\<And>j c. j \<noteq> i \<Longrightarrow> owned_of (gs_heap s) j c \<le> owned_of (gs_heap t) j c"
    and c: "\<And>c. claimed_of t i c \<le> owned_of (gs_heap t) i c"
    and ty: "\<And>g. g \<in> set (gs_live t i) \<Longrightarrow> typ_of (wg_data g) = wg_type g"
  shows "life_inv typ_of t"
  unfolding life_inv_def
proof (intro conjI allI ballI)
  fix j c
  show "claimed_of t j c \<le> owned_of (gs_heap t) j c"
  proof (cases "j = i")
    case False
    then have "claimed_of t j c = claimed_of s j c" using t by (simp add: claimed_of_def)
    also have "\<dots> \<le> owned_of (gs_heap s) j c" using inv by (simp add: life_inv_def)
    also have "\<dots> \<le> owned_of (gs_heap t) j c" using o[OF False] .
    finally show ?thesis .
  qed (use c in simp)
next
  fix j g assume "g \<in> set (gs_live t j)"
  then show "typ_of (wg_data g) = wg_type g" using t[of j] ty inv by (cases "j = i") (auto simp: life_inv_def)
qed (rule ok)

lemma life_grow:
  assumes inv: "life_inv typ_of s" and ok: "locks_ok h" and o: "\<And>i c. owned_of (gs_heap s) i c \<le> owned_of h i c"
  shows "life_inv typ_of (s\<lparr>gs_heap := h\<rparr>)"
proof -
  have "claimed_of s i c \<le> owned_of h i c" for i c
    using inv o[of i c] le_trans[of "claimed_of s i c" "owned_of (gs_heap s) i c" "owned_of h i c"] by (simp add: life_inv_def)
  then show ?thesis using inv ok by (simp add: life_inv_def claimed_of_def)
qed

lemma count_without:
  "k < length xs \<Longrightarrow> count_list (concat (map f (without k xs))) c + count_list (f (xs ! k)) c = count_list (concat (map f xs)) c"
proof -
  assume k: "k < length xs"
  have "concat (map f xs) = concat (map f (take k xs @ xs ! k # drop (Suc k) xs))" using id_take_nth_drop[OF k] by simp
  then show ?thesis by (simp add: without_def)
qed

lemma set_without: "set (without k xs) \<subseteq> set xs"
  by (auto simp: without_def dest: in_set_takeD in_set_dropD)

text \<open>Starting to drop guards that are still claimed.\<close>

lemma drop_next_inv:
  assumes inv: "life_inv typ_of s" and d: "drop_next s i ds = Some t"
    and c: "\<And>c. count_list (concat (map claims (gs_live s i)) @ concat (map claims ds)) c \<le> owned_of (gs_heap s) i c"
  shows "life_inv typ_of t"
proof (cases ds)
  case Nil
  then have t: "t = s\<lparr>gs_pc := (gs_pc s)(i := GsIdle)\<rparr>" using d by (simp add: drop_next_def)
  show ?thesis by (rule life_move[OF inv, of t i]) (use inv c Nil in \<open>auto simp: t life_inv_def claimed_of_def\<close>)
next
  case (Cons g rest)
  then obtain h where h: "gl_unlock (gs_heap s) i (wg_lock g) = Some h"
    and t: "t = s\<lparr>gs_heap := h, gs_pc := (gs_pc s)(i := GsUnlocking g rest)\<rparr>"
    using d by (auto simp: drop_next_def watch_drop_lock_def split: option.splits)
  have L: "locks_ok (gs_heap s)" using inv by (simp add: life_inv_def)
  show ?thesis
  proof (rule life_move[OF inv, of t i])
    show "locks_ok (gs_heap t)" using h locks_ok_raw[OF L] locks_ok_serial[OF L]
      by (cases "gl_kind (wg_lock g)") (auto simp: t gl_unlock_def)
    show "owned_of (gs_heap s) j c \<le> owned_of (gs_heap t) j c" if "j \<noteq> i" for j c using unlock_owned[OF h, of j c] that by (simp add: t)
    show "claimed_of t i c \<le> owned_of (gs_heap t) i c" for c
      using unlock_owned[OF h, of i c] c[of c] by (auto simp: t claimed_of_def Cons claims_def split: if_splits)
  qed (use inv in \<open>auto simp: t life_inv_def\<close>)
qed

lemma drop_go_inv:
  assumes inv: "life_inv typ_of s" and d: "drop_go s i = Some t"
  shows "life_inv typ_of t"
proof -
  have L: "locks_ok (gs_heap s)" and C: "\<And>c. claimed_of s i c \<le> owned_of (gs_heap s) i c" using inv by (simp_all add: life_inv_def)
  show ?thesis
  proof (cases "gs_pc s i")
    case GsIdle
    with d show ?thesis by (simp add: drop_go_def)
  next
    case (GsUnprotecting a ds)
    then have "drop_next s i ds = Some t" using d by (auto simp: drop_go_def split: if_splits)
    then show ?thesis by (rule drop_next_inv[OF inv]) (use C GsUnprotecting in \<open>simp add: claimed_of_def\<close>)
  next
    case (GsUnlocking g ds)
    show ?thesis
    proof (cases "wg_protection g")
      case None
      then have "drop_next s i ds = Some t" using d GsUnlocking by (auto simp: drop_go_def split: if_splits)
      then show ?thesis by (rule drop_next_inv[OF inv]) (use C GsUnlocking None in \<open>simp add: claimed_of_def protection_claims_def\<close>)
    next
      case (Some a)
      then obtain h where h: "gl_unlock (gs_heap s) i (gl_shared a) = Some h"
        and t: "t = s\<lparr>gs_heap := h, gs_pc := (gs_pc s)(i := GsUnprotecting a ds)\<rparr>"
        using d GsUnlocking by (auto simp: drop_go_def watch_drop_protection_def gl_unlock_def gl_shared_def split: if_splits option.splits)
      show ?thesis
      proof (rule life_move[OF inv, of t i])
        show "locks_ok (gs_heap t)" using h locks_ok_raw[OF L] by (auto simp: t gl_unlock_def gl_shared_def)
        show "owned_of (gs_heap s) j c \<le> owned_of (gs_heap t) j c" if "j \<noteq> i" for j c using unlock_owned[OF h, of j c] that by (simp add: t)
        show "claimed_of t i c \<le> owned_of (gs_heap t) i c" for c
          using unlock_owned[OF h, of i c] C[of c] Some by (auto simp: t claimed_of_def GsUnlocking protection_claims_def split: if_splits)
      qed (use inv in \<open>auto simp: t life_inv_def\<close>)
    qed
  qed
qed

text \<open>What a downcast returns stands for the acquisitions of its argument, and leaves nothing to drop.\<close>

lemma downcast_result:
  assumes "downcast boxed U g = (r, ls)"
  shows "claims (case r of Inl g \<Rightarrow> g | Inr g \<Rightarrow> g) = claims g" "scope_end ls = []"
  using assms by (auto simp: downcast_def Let_def claims_def protection_claims_def split: if_splits prod.splits)

lemma downcast_typed:
  assumes "downcast boxed U g = (r, ls)" "\<forall>a. typ_of a = TyBoxAny \<longrightarrow> typ_of (fst (boxed a)) = snd (boxed a)" "typ_of (wg_data g) = wg_type g"
  shows "typ_of (wg_data (case r of Inl g \<Rightarrow> g | Inr g \<Rightarrow> g)) = wg_type (case r of Inl g \<Rightarrow> g | Inr g \<Rightarrow> g)"
  using assms by (auto simp: downcast_def Let_def split: if_splits prod.splits)

lemma life_inv_step:
  assumes box: "\<forall>a. typ_of a = TyBoxAny \<longrightarrow> typ_of (fst (boxed a)) = snd (boxed a)"
    and inv: "life_inv typ_of s" and st: "guard_step typ_of boxed act s = Some t"
  shows "life_inv typ_of t"
proof -
  have L: "locks_ok (gs_heap s)" and C: "\<And>i c. claimed_of s i c \<le> owned_of (gs_heap s) i c"
    and T: "\<And>i g. g \<in> set (gs_live s i) \<Longrightarrow> typ_of (wg_data g) = wg_type g" using inv by (auto simp: life_inv_def)
  show ?thesis
  proof (cases act)
    case (GsRaw a x)
    then obtain h where h: "on_raw (gs_heap s) a x = Some h" "raw_keeps x" "t = s\<lparr>gs_heap := h\<rparr>"
      using st by (auto simp: guard_step_def Let_def split: if_splits option.splits)
    show ?thesis unfolding h(3) by (rule life_grow[OF inv locks_ok_raw[OF L h(1)] on_raw_mono[OF h(1,2)]])
  next
    case (GsSerial a x)
    then obtain h where h: "on_serial (gs_heap s) a x = Some h" "serial_keeps x" "t = s\<lparr>gs_heap := h\<rparr>"
      using st by (auto simp: guard_step_def Let_def split: if_splits option.splits)
    show ?thesis unfolding h(3) by (rule life_grow[OF inv locks_ok_serial[OF L h(1)] on_serial_mono[OF h(1,2)]])
  next
    case (GsNew i g)
    then have g: "gs_pc s i = GsIdle" "wg_protection g = None" "typ_of (wg_data g) = wg_type g"
      "claimed_of s i (lock_claim (wg_lock g)) < owned_of (gs_heap s) i (lock_claim (wg_lock g))"
      and t: "t = set_live s i (gs_live s i @ [g])" using st by (auto simp: guard_step_def Let_def split: if_splits)
    show ?thesis
    proof (rule life_move[OF inv, of t i])
      show "claimed_of t i c \<le> owned_of (gs_heap t) i c" for c
        using C[of i c] g by (auto simp: t claimed_of_def claims_def protection_claims_def)
    qed (use L T g in \<open>auto simp: t\<close>)
  next
    case (GsProtect i k a)
    then have g: "gs_pc s i = GsIdle" "k < length (gs_live s i)" "wg_protection (gs_live s i ! k) = None"
      "claimed_of s i (ClShared a) < owned_of (gs_heap s) i (ClShared a)"
      and t: "t = set_live s i (without k (gs_live s i) @ [protect (gs_live s i ! k) a])"
      using st by (auto simp: guard_step_def Let_def split: if_splits)
    show ?thesis
    proof (rule life_move[OF inv, of t i])
      show "claimed_of t i c \<le> owned_of (gs_heap t) i c" for c
        using C[of i c] g count_without[OF g(2), of claims c] by (auto simp: t claimed_of_def claims_def protection_claims_def protect_def)
      show "typ_of (wg_data x) = wg_type x" if "x \<in> set (gs_live t i)" for x
        using that T[of _ i] set_without[of k "gs_live s i"] nth_mem[OF g(2)] by (auto simp: t protect_def)
    qed (use L in \<open>auto simp: t\<close>)
  next
    case (GsDowncast i k U)
    obtain r ls where dc: "downcast boxed U (gs_live s i ! k) = (r, ls)" by fastforce
    let ?g = "case r of Inl g \<Rightarrow> g | Inr g \<Rightarrow> g"
    let ?u = "set_live s i (without k (gs_live s i) @ [?g])"
    have g: "gs_pc s i = GsIdle" "k < length (gs_live s i)" and d: "drop_next ?u i (scope_end ls) = Some t"
      using st GsDowncast dc by (auto simp: guard_step_def Let_def split: if_splits)
    note res = downcast_result[OF dc]
    have cnt: "count_list (concat (map claims (gs_live ?u i))) c = count_list (concat (map claims (gs_live s i))) c" for c
      using count_without[OF g(2), of claims c] by (simp add: res(1))
    have "life_inv typ_of ?u"
    proof (rule life_move[OF inv, of ?u i])
      show "claimed_of ?u i c \<le> owned_of (gs_heap ?u) i c" for c using C[of i c] cnt[of c] by (simp add: claimed_of_def)
      have "typ_of (wg_data ?g) = wg_type ?g" by (rule downcast_typed[OF dc box]) (use T[of _ i] nth_mem[OF g(2)] in blast)
      then show "typ_of (wg_data x) = wg_type x" if "x \<in> set (gs_live ?u i)" for x
        using that T[of _ i] set_without[of k "gs_live s i"] by auto
    qed (use L in auto)
    then show ?thesis using d by (rule drop_next_inv) (use C[of i] cnt g(1) res(2) in \<open>simp add: claimed_of_def\<close>)
  next
    case (GsDrop i k)
    let ?u = "set_live s i (without k (gs_live s i))"
    have g: "gs_pc s i = GsIdle" "k < length (gs_live s i)" and d: "drop_next ?u i [gs_live s i ! k] = Some t"
      using st GsDrop by (auto simp: guard_step_def Let_def split: if_splits)
    note cnt = count_without[OF g(2), of claims]
    have "claimed_of ?u i c \<le> claimed_of s i c" for c using cnt[of c] by (simp add: claimed_of_def)
    then have "life_inv typ_of ?u"
      by (intro life_move[OF inv, of ?u i]) (use L C T[of _ i] set_without[of k "gs_live s i"] le_trans in \<open>auto intro: le_trans\<close>)
    then show ?thesis using d
    proof (rule drop_next_inv)
      show "count_list (concat (map claims (gs_live ?u i)) @ concat (map claims [gs_live s i ! k])) c \<le> owned_of (gs_heap ?u) i c" for c
        using cnt[of c] C[of i c] g(1) by (simp add: claimed_of_def)
    qed
  next
    case (GsGo i)
    then have "drop_go s i = Some t" using st by (simp add: guard_step_def)
    then show ?thesis by (rule drop_go_inv[OF inv])
  qed
qed

lemma life_inv_new: "locks_ok h \<Longrightarrow> life_inv typ_of (guard_sys_new h)"
  by (simp add: life_inv_def guard_sys_new_def claimed_of_def)

definition box_ok :: "(nat \<Rightarrow> ty) \<Rightarrow> (nat \<Rightarrow> nat \<times> ty) \<Rightarrow> bool" where
  "box_ok typ_of boxed \<longleftrightarrow> (\<forall>a. typ_of a = TyBoxAny \<longrightarrow> typ_of (fst (boxed a)) = snd (boxed a))"

interpretation guards: machine "guard_step typ_of boxed" "guard_sys_new h" "\<lambda>s. box_ok typ_of boxed \<and> locks_ok h \<longrightarrow> life_inv typ_of s"
  for typ_of boxed h
  by unfold_locales (auto intro: life_inv_new life_inv_step simp: box_ok_def)

definition fresh_locks :: "nat \<Rightarrow> nat \<Rightarrow> lock_heap" where
  "fresh_locks n p = \<lparr>raws = (\<lambda>_. raw_init n p), serials = (\<lambda>_. serial_init n p)\<rparr>"

lemma fresh_locks_ok: "locks_ok (fresh_locks n p)"
  by (simp add: locks_ok_def fresh_locks_def raw_inv_init serial_inv_init)

text \<open>Who else may own something on the lock of an exclusive acquisition.\<close>

fun same_lock :: "claim \<Rightarrow> claim \<Rightarrow> bool" where
  "same_lock (ClExclusive a) (ClShared b) = (a = b)"
| "same_lock (ClExclusive a) (ClExclusive b) = (a = b)"
| "same_lock (ClWrite a) (ClRead b t) = (a = b)"
| "same_lock (ClWrite a) (ClWrite b) = (a = b)"
| "same_lock _ _ = False"

lemma exclusive_owner:
  assumes ok: "locks_ok h" and o: "0 < owned_of h i c" and s: "same_lock c d"
  shows "owned_of h j d = (if j = i \<and> d = c then 1 else 0)"
proof (cases c)
  case (ClExclusive a)
  have inv: "raw_inv (raws h a)" using ok by (simp add: locks_ok_def)
  have i: "i < rthreads (raws h a)" "0 < exclusive (rthr (raws h a) i)" using o ClExclusive by (auto split: if_splits)
  show ?thesis using exclusive_alone[OF inv i(1) _ i(2), of j] exclusive_alone[OF inv i(1) i(1) i(2)] i s ClExclusive by (cases d) auto
next
  case (ClWrite a)
  have inv: "serial_inv (serials h a)" using ok by (simp add: locks_ok_def)
  have i: "i < threads (serials h a)" "0 < writes (thr (serials h a) i)" using o ClWrite by (auto split: if_splits)
  show ?thesis using write_guard_alone[OF inv i(1) _ i(2), of j] write_guard_alone[OF inv i(1) i(1) i(2)] i s ClWrite by (cases d) auto
qed (use s in auto)

lemma count_claims_ge: "length (filter (\<lambda>g. lock_claim (wg_lock g) = c) gs) \<le> count_list (concat (map claims gs)) c"
  by (induction gs) (auto simp: claims_def)

lemma exclusive_live:
  assumes inv: "life_inv typ_of s" and g: "g \<in> set (gs_live s i)" and c: "same_lock (lock_claim (wg_lock g)) (lock_claim (wg_lock g))"
    and g': "g' \<in> set (gs_live s j)" "same_lock (lock_claim (wg_lock g)) (lock_claim (wg_lock g'))"
  shows "j = i \<and> lock_claim (wg_lock g') = lock_claim (wg_lock g) \<and>
    filter (\<lambda>x. lock_claim (wg_lock x) = lock_claim (wg_lock g)) (gs_live s i) = [g]"
proof -
  let ?c = "lock_claim (wg_lock g)" and ?d = "lock_claim (wg_lock g')"
  have ok: "locks_ok (gs_heap s)" using inv by (simp add: life_inv_def)
  have mem: "lock_claim (wg_lock x) \<in> set (concat (map claims (gs_live s k)) @ pc_claims (gs_pc s k))" if "x \<in> set (gs_live s k)" for x k
    using that by (auto simp: claims_def)
  have pos: "0 < owned_of (gs_heap s) i ?c" "0 < owned_of (gs_heap s) j ?d"
    using claimed_owns[OF inv mem[OF g]] claimed_owns[OF inv mem[OF g'(1)]] by (simp_all add: owned_guard)
  have e: "j = i" "?d = ?c" using exclusive_owner[OF ok pos(1) g'(2), of j] pos(2) by (auto split: if_splits)
  have "length (filter (\<lambda>x. lock_claim (wg_lock x) = ?c) (gs_live s i)) \<le> claimed_of s i ?c"
    using count_claims_ge[of ?c "gs_live s i"] by (simp add: claimed_of_def)
  also have "\<dots> \<le> 1" using inv exclusive_owner[OF ok pos(1) c, of i] unfolding life_inv_def by (metis (full_types))
  finally have "length (filter (\<lambda>x. lock_claim (wg_lock x) = ?c) (gs_live s i)) \<le> 1" .
  moreover have "g \<in> set (filter (\<lambda>x. lock_claim (wg_lock x) = ?c) (gs_live s i))" using g by simp
  ultimately have "filter (\<lambda>x. lock_claim (wg_lock x) = ?c) (gs_live s i) = [g]"
    by (cases "filter (\<lambda>x. lock_claim (wg_lock x) = ?c) (gs_live s i)") auto
  with e show ?thesis by blast
qed

lemma filter_one_index:
  assumes "length (filter P xs) = 1" "k < length xs" "P (xs ! k)" "m < length xs" "P (xs ! m)"
  shows "m = k"
proof -
  have "card {i. i < length xs \<and> P (xs ! i)} = 1" using assms(1) by (simp add: length_filter_conv_card)
  then obtain x where "{i. i < length xs \<and> P (xs ! i)} = {x}" by (rule card_1_singletonE)
  moreover have "k \<in> {i. i < length xs \<and> P (xs ! i)}" "m \<in> {i. i < length xs \<and> P (xs ! i)}" using assms(2-5) by simp_all
  ultimately show ?thesis by simp
qed

section \<open>Properties\<close>

text \<open>
  C39: guards keep what they stand for, through \<open>protect\<close>, \<open>downcast\<close> and \<open>drop\<close>, whatever the threads do. For a memory
  typing in which a box holds a value of its dynamic type, in every reachable state: a live guard points to a value of
  its type and passes the assertion of \<open>Deref\<close>; a \<open>downcast\<close>, successful or not, runs no \<open>Drop\<close>, so that no lock is
  touched and the guard it returns is as good as its argument; a live \<open>WatchGuardMut\<close> is the only live guard of its
  lock; and the protecting lock of a guard is held in shared mode while the guard lives and until the release of
  its own lock, wake-ups included, has returned.
\<close>

theorem guard_life_safe:
  assumes "\<forall>a. typ_of a = TyBoxAny \<longrightarrow> typ_of (fst (boxed a)) = snd (boxed a)"
    and "reachable (guard_step typ_of boxed) (guard_sys_new (fresh_locks n p)) s"
  shows "(\<forall>g \<in> set (gs_live s i). typ_of (wg_data g) = wg_type g \<and> watch_deref (gs_heap s) g = Some (wg_data g)) \<and>
    (\<forall>k U t. guard_step typ_of boxed (GsDowncast i k U) s = Some t \<longrightarrow>
       gs_heap t = gs_heap s \<and> length (gs_live t i) = length (gs_live s i) \<and>
       (\<forall>g \<in> set (gs_live t i). typ_of (wg_data g) = wg_type g \<and> watch_deref (gs_heap t) g = Some (wg_data g))) \<and>
    (\<forall>k j m. k < length (gs_live s i) \<and> m < length (gs_live s j) \<and>
       same_lock (lock_claim (wg_lock (gs_live s i ! k))) (lock_claim (wg_lock (gs_live s j ! m))) \<longrightarrow> j = i \<and> m = k) \<and>
    (\<forall>g a. (g \<in> set (gs_live s i) \<or> (\<exists>ds. gs_pc s i = GsUnlocking g ds)) \<and> wg_protection g = Some a \<longrightarrow>
       is_locked_shared (state (raw (raws (gs_heap s) a))))"
proof -
  have inv: "life_inv typ_of s" using guards.always[OF assms(2)] assms(1) fresh_locks_ok by (simp add: box_ok_def)
  have live: "typ_of (wg_data g) = wg_type g \<and> watch_deref (gs_heap u) g = Some (wg_data g)"
    if u: "life_inv typ_of u" and g: "g \<in> set (gs_live u i)" for u g
  proof -
    have "owns_guard (gs_heap u) i (wg_lock g)" by (rule claimed_owns[OF u]) (use g in \<open>auto simp: claims_def\<close>)
    then have "gl_is_locked (gs_heap u) (wg_lock g)" using u by (intro owned_locked) (simp_all add: life_inv_def)
    then show ?thesis using u g by (simp add: life_inv_def watch_deref_def)
  qed
  have dc: "gs_heap t = gs_heap s \<and> length (gs_live t i) = length (gs_live s i) \<and>
      (\<forall>g \<in> set (gs_live t i). typ_of (wg_data g) = wg_type g \<and> watch_deref (gs_heap t) g = Some (wg_data g))"
    if st: "guard_step typ_of boxed (GsDowncast i k U) s = Some t" for k U t
  proof -
    obtain r ls where d: "downcast boxed U (gs_live s i ! k) = (r, ls)" by fastforce
    have "gs_heap t = gs_heap s \<and> length (gs_live t i) = length (gs_live s i)"
      using st d downcast_result(2)[OF d] by (auto simp: guard_step_def Let_def drop_next_def without_def split: if_splits)
    with live[OF life_inv_step[OF assms(1) inv st]] show ?thesis by blast
  qed
  have sole: "j = i \<and> m = k" if k: "k < length (gs_live s i)" and m: "m < length (gs_live s j)"
    and c: "same_lock (lock_claim (wg_lock (gs_live s i ! k))) (lock_claim (wg_lock (gs_live s j ! m)))" for k j m
  proof -
    let ?g = "gs_live s i ! k"
    have "same_lock (lock_claim (wg_lock ?g)) (lock_claim (wg_lock ?g))" using c by (cases "lock_claim (wg_lock ?g)") auto
    note e = exclusive_live[OF inv nth_mem[OF k] this nth_mem[OF m] c]
    then have "length (filter (\<lambda>x. lock_claim (wg_lock x) = lock_claim (wg_lock ?g)) (gs_live s i)) = 1" by simp
    then have "m = k" by (rule filter_one_index) (use e k m in auto)
    with e show ?thesis by blast
  qed
  have prot: "is_locked_shared (state (raw (raws (gs_heap s) a)))"
    if "g \<in> set (gs_live s i) \<or> (\<exists>ds. gs_pc s i = GsUnlocking g ds)" "wg_protection g = Some a" for g a
  proof -
    have "lock_claim (gl_shared a) \<in> set (concat (map claims (gs_live s i)) @ pc_claims (gs_pc s i))"
      using that by (force simp: claims_def protection_claims_def)
    then have "owns_guard (gs_heap s) i (gl_shared a)" by (rule claimed_owns[OF inv])
    then have "gl_is_locked (gs_heap s) (gl_shared a)" using inv by (intro owned_locked) (simp_all add: life_inv_def)
    then show ?thesis by (simp add: gl_is_locked_def gl_shared_def)
  qed
  show ?thesis using live[OF inv] dc sole prot by blast
qed

text \<open>An array guard on slot lock 3, protected by lock 7, downcast from a box and being dropped.\<close>

theorem guard_life_safe_witness:
  "\<exists>s. reachable (guard_step (\<lambda>a. if a = 10 then TyBoxAny else Ty 5) (\<lambda>a. (a + 1, Ty 5))) (guard_sys_new (fresh_locks 1 4)) s \<and>
     (\<exists>g. gs_live s 0 = [g] \<and> wg_type g = Ty 5 \<and> watch_deref (gs_heap s) g = Some 11) \<and> is_locked_shared (state (raw (raws (gs_heap s) 7)))"
proof -
  let ?ty = "\<lambda>a::nat. if a = 10 then TyBoxAny else Ty 5" and ?box = "\<lambda>a::nat. (a + 1, Ty 5)"
  have "run_to (guard_step ?ty ?box)
      [GsRaw 7 (CallLockS 0), GsRaw 7 (RStep 0 False), GsRaw 3 (CallLockX 0), GsNew 0 (watch_mut_new TyBoxAny 10 3), GsProtect 0 0 7, GsDowncast 0 0 (Ty 5)]
      (guard_sys_new (fresh_locks 1 4)) (\<lambda>s. case gs_live s 0 of [g] \<Rightarrow> wg_type g = Ty 5 \<and> wg_data g = 11 \<and> wg_protection g = Some 7 | _ \<Rightarrow> False)"
    by code_simp
  then obtain s where s: "reachable (guard_step ?ty ?box) (guard_sys_new (fresh_locks 1 4)) s"
    "case gs_live s 0 of [g] \<Rightarrow> wg_type g = Ty 5 \<and> wg_data g = 11 \<and> wg_protection g = Some 7 | _ \<Rightarrow> False" by (auto dest: run_toD)
  obtain g where g: "gs_live s 0 = [g]" "wg_type g = Ty 5" "wg_data g = 11" "wg_protection g = Some 7" using s(2) by (auto split: list.splits)
  have b: "\<forall>a. ?ty a = TyBoxAny \<longrightarrow> ?ty (fst (?box a)) = snd (?box a)" by simp
  from guard_life_safe[OF b s(1), of 0] g have "watch_deref (gs_heap s) g = Some 11" "is_locked_shared (state (raw (raws (gs_heap s) 7)))" by auto
  with s(1) g show ?thesis by blast
qed

end
