(* ===== verification/Guarded.thy ===== *)
theory Guarded
  imports Prelude
begin

text \<open>
  A value behind a lock, as \<open>Atomic\<close>, \<open>AtomicCell\<close>, \<open>RwLock\<close> and \<open>SpinCell\<close> have it: every operation takes
  a shared or an exclusive guard, reads the value, computes, writes the result back and drops
  the guard. The body is entered as soon as the lock call has returned, whatever guard it gave, and
  reading and writing are separate steps, so only the lock keeps the operations apart. The lock
  is a machine of its own, passed as a record of its actions; locale \<open>value_lock\<close> states what it
  promises, and the theorem is that the operations take effect one after the other.

  A body under a shared guard gets \<open>&T\<close>; it too may leave another value behind (interior
  mutability). Closures do not call back into the same container.
\<close>

text \<open>A closure may return or unwind; a \<open>try\<close> call may be refused.\<close>

datatype 'r outcome = Ret 'r | Unwind | Refused

datatype ('v, 'r) gop = GOp (op_excl: bool) (op_try: bool) (op_body: "'v \<Rightarrow> 'v \<times> 'r outcome")

datatype ('v, 'r) gpc =
    GIdle
  | GAcq "('v, 'r) gop"
  | GBody "('v, 'r) gop"
  | GMid "('v, 'r) gop" 'v
  | GRel "('v, 'r) gop" "'r outcome"
  | GDone "'r outcome"

record ('a, 'l) lock_ops =
  lk_step :: "'a \<Rightarrow> 'l \<Rightarrow> 'l option"
  lk_call :: "bool \<Rightarrow> bool \<Rightarrow> tid \<Rightarrow> 'a"
  lk_drop :: "bool \<Rightarrow> tid \<Rightarrow> 'l \<Rightarrow> 'a"
  lk_inner :: "'a \<Rightarrow> bool"
  lk_idle :: "'l \<Rightarrow> tid \<Rightarrow> bool"
  lk_got :: "'l \<Rightarrow> tid \<Rightarrow> bool"   \<comment> \<open>the answer of a \<open>try\<close> call that returned: it gave a guard\<close>

record ('l, 'v, 'r) guarded =
  g_lock :: 'l
  g_val :: 'v
  g_pc :: "tid \<Rightarrow> ('v, 'r) gpc"
  g_log :: "(tid \<times> ('v, 'r) gop \<times> 'r outcome) list"   \<comment> \<open>ghost: effects in the order they happened\<close>
  g_ret :: "tid \<Rightarrow> 'r outcome list"                       \<comment> \<open>ghost: what each thread was told\<close>

datatype ('a, 'v, 'r) gact = GCall tid "('v, 'r) gop" | GLock 'a | GGo tid

definition guarded_new :: "'l \<Rightarrow> 'v \<Rightarrow> ('l, 'v, 'r) guarded" where
  "guarded_new l v = \<lparr>g_lock = l, g_val = v, g_pc = (\<lambda>_. GIdle), g_log = [], g_ret = (\<lambda>_. [])\<rparr>"

definition guarded_call :: "('a, 'l) lock_ops \<Rightarrow> tid \<Rightarrow> ('v, 'r) gop \<Rightarrow> ('l, 'v, 'r) guarded \<Rightarrow> ('l, 'v, 'r) guarded option" where
  "guarded_call L i op s =
     (case g_pc s i of
        GIdle \<Rightarrow>
          (case lk_step L (lk_call L (op_excl op) (op_try op) i) (g_lock s) of
             None \<Rightarrow> None
           | Some l \<Rightarrow> Some (s\<lparr>g_lock := l, g_pc := (g_pc s)(i := GAcq op)\<rparr>))
      | _ \<Rightarrow> None)"

text \<open>
  The lock call has returned when the thread is idle in the lock. The body: the value is read, then
  the computed value is written; the guard is dropped on return and on unwinding alike.
\<close>

definition guarded_go :: "('a, 'l) lock_ops \<Rightarrow> tid \<Rightarrow> ('l, 'v, 'r) guarded \<Rightarrow> ('l, 'v, 'r) guarded option" where
  "guarded_go L i s =
     (case g_pc s i of
        GIdle \<Rightarrow> None
      | GAcq op \<Rightarrow>
          if \<not> lk_idle L (g_lock s) i then None
          else if op_try op \<and> \<not> lk_got L (g_lock s) i then Some (s\<lparr>g_pc := (g_pc s)(i := GDone Refused)\<rparr>)
          else Some (s\<lparr>g_pc := (g_pc s)(i := GBody op)\<rparr>)
      | GBody op \<Rightarrow> Some (s\<lparr>g_pc := (g_pc s)(i := GMid op (g_val s))\<rparr>)
      | GMid op v \<Rightarrow>
          (case op_body op v of
             (v', r) \<Rightarrow> Some (s\<lparr>g_val := v', g_log := g_log s @ [(i, op, r)],
                               g_pc := (g_pc s)(i := GRel op r)\<rparr>))
      | GRel op r \<Rightarrow>
          (case lk_step L (lk_drop L (op_excl op) i (g_lock s)) (g_lock s) of
             None \<Rightarrow> None
           | Some l \<Rightarrow> Some (s\<lparr>g_lock := l, g_pc := (g_pc s)(i := GDone r)\<rparr>))
      | GDone r \<Rightarrow>
          if lk_idle L (g_lock s) i
          then Some (s\<lparr>g_pc := (g_pc s)(i := GIdle), g_ret := (g_ret s)(i := g_ret s i @ [r])\<rparr>)
          else None)"

definition guarded_step :: "('a, 'l) lock_ops \<Rightarrow> ('a, 'v, 'r) gact \<Rightarrow> ('l, 'v, 'r) guarded \<Rightarrow> ('l, 'v, 'r) guarded option" where
  "guarded_step L a s =
     (case a of
        GCall i op \<Rightarrow> guarded_call L i op s
      | GLock x \<Rightarrow>
          if lk_inner L x then (case lk_step L x (g_lock s) of None \<Rightarrow> None | Some l \<Rightarrow> Some (s\<lparr>g_lock := l\<rparr>)) else None
      | GGo i \<Rightarrow> guarded_go L i s)"

text \<open>The sequential reference: the operations one after the other, each with its answer.\<close>

fun replay :: "'v \<Rightarrow> (tid \<times> ('v, 'r) gop \<times> 'r outcome) list \<Rightarrow> 'v option" where
  "replay v [] = Some v"
| "replay v ((i, op, r) # log) =
     (case op_body op v of (v', r') \<Rightarrow> if r' = r then replay v' log else None)"

lemma replay_append: "replay v (xs @ ys) = Option.bind (replay v xs) (\<lambda>w. replay w ys)"
  by (induction v xs rule: replay.induct) (auto split: prod.splits)

text \<open>Answers still on their way to the caller.\<close>

fun in_flight :: "('v, 'r) gpc \<Rightarrow> 'r outcome list" where
  "in_flight (GRel op r) = [r]"
| "in_flight (GDone r) = [r]"
| "in_flight _ = []"

fun guard_of :: "('v, 'r) gpc \<Rightarrow> bool option" where
  "guard_of (GBody op) = Some (op_excl op)"
| "guard_of (GMid op v) = Some (op_excl op)"
| "guard_of (GRel op r) = Some (op_excl op)"
| "guard_of _ = None"

definition answers :: "tid \<Rightarrow> (tid \<times> ('v, 'r) gop \<times> 'r outcome) list \<Rightarrow> 'r outcome list" where
  "answers i log = map (\<lambda>x. snd (snd x)) (filter (\<lambda>x. fst x = i) log)"

definition executed :: "'r outcome list \<Rightarrow> 'r outcome list" where
  "executed rs = filter (\<lambda>r. r \<noteq> Refused) rs"

text \<open>What the machine promises, for the states in which the lock is sound.\<close>

definition linear :: "'v \<Rightarrow> ('l, 'v, 'r) guarded \<Rightarrow> bool" where
  "linear v0 s \<longleftrightarrow> replay v0 (g_log s) = Some (g_val s) \<and>
     (\<forall>i. executed (answers i (g_log s)) = executed (g_ret s i @ in_flight (g_pc s i)))"

text \<open>Only operations that were called are under way or in the log.\<close>

fun op_of :: "('v, 'r) gpc \<Rightarrow> ('v, 'r) gop option" where
  "op_of (GAcq op) = Some op"
| "op_of (GBody op) = Some op"
| "op_of (GMid op v) = Some op"
| "op_of (GRel op r) = Some op"
| "op_of _ = None"

definition only_ops :: "('v, 'r) gop set \<Rightarrow> ('l, 'v, 'r) guarded \<Rightarrow> bool" where
  "only_ops A s \<longleftrightarrow> (\<forall>i op. op_of (g_pc s i) = Some op \<longrightarrow> op \<in> A) \<and> (\<forall>x \<in> set (g_log s). fst (snd x) \<in> A)"

lemma only_ops_step:
  assumes "only_ops A s" "guarded_step L a s = Some t" "\<And>i op. a = GCall i op \<Longrightarrow> op \<in> A"
  shows "only_ops A t"
proof (cases a)
  case (GGo i)
  with assms(2) have go: "guarded_go L i s = Some t" by (simp add: guarded_step_def)
  have "op_of (g_pc s i) = Some op \<Longrightarrow> op \<in> A" for op using assms(1) by (auto simp: only_ops_def)
  with assms(1) go show ?thesis
    by (cases "g_pc s i") (auto simp: guarded_go_def only_ops_def split: if_splits option.splits prod.splits)
qed (use assms in \<open>auto simp: guarded_step_def guarded_call_def only_ops_def split: gpc.splits option.splits if_splits\<close>)

lemma only_ops_run:
  "run (guarded_step L) as s = Some t \<Longrightarrow> only_ops A s \<Longrightarrow> (\<And>i op. GCall i op \<in> set as \<Longrightarrow> op \<in> A) \<Longrightarrow> only_ops A t"
proof (induction as arbitrary: s)
  case (Cons a as)
  then obtain u where "guarded_step L a s = Some u" "run (guarded_step L) as u = Some t" by (auto split: option.splits)
  with Cons only_ops_step[of A s L a u] show ?case by auto
qed simp

lemma only_ops_new: "only_ops A (guarded_new l v)"
  by (simp add: only_ops_def guarded_new_def)

text \<open>
  What a client relies on. \<open>free\<close>, \<open>calling w t\<close> and \<open>holds w\<close> are the three situations of a thread: no guard
  and no call under way; a call of the kind \<open>w\<close> (exclusive or not; \<open>t\<close> for \<open>try\<close>) made and its guard
  not yet used; exactly one guard, of the kind \<open>w\<close>. The law \<open>returned\<close> is the contract of the call: when it returns, the
  thread has the guard it asked for. \<open>alone w\<close> says that a guard of the kind \<open>w\<close> excludes all others.
\<close>

locale value_lock =
  fixes L :: "('a, 'l) lock_ops" and l0 :: 'l and sound I :: "'l \<Rightarrow> bool"
    and free :: "'l \<Rightarrow> tid \<Rightarrow> bool" and calling :: "bool \<Rightarrow> bool \<Rightarrow> 'l \<Rightarrow> tid \<Rightarrow> bool" and holds :: "bool \<Rightarrow> 'l \<Rightarrow> tid \<Rightarrow> bool"
    and alone :: "bool \<Rightarrow> bool"
  assumes init: "I l0" "free l0 i"
    and keep: "a = lk_call L w t j \<or> a = lk_drop L w j l \<or> lk_inner L a \<Longrightarrow> I l \<Longrightarrow> lk_step L a l = Some l' \<Longrightarrow> I l'"
    and inner: "lk_inner L a \<Longrightarrow> lk_step L a l = Some l' \<Longrightarrow>
      (free l i \<longrightarrow> free l' i) \<and> (calling b c l i \<longrightarrow> calling b c l' i) \<and> (holds b l i \<longrightarrow> holds b l' i)"
    and others: "a = lk_call L w t j \<or> a = lk_drop L w j l \<Longrightarrow> lk_step L a l = Some l' \<Longrightarrow> i \<noteq> j \<Longrightarrow>
      (free l i \<longrightarrow> free l' i) \<and> (calling b c l i \<longrightarrow> calling b c l' i) \<and> (holds b l i \<longrightarrow> holds b l' i)"
    and call: "free l i \<Longrightarrow> lk_step L (lk_call L w t i) l = Some l' \<Longrightarrow> calling w t l' i"
    and returned: "calling w t l i \<Longrightarrow> lk_idle L l i \<Longrightarrow> if t \<and> \<not> lk_got L l i then free l i else holds w l i"
    and drop: "holds w l i \<Longrightarrow> lk_step L (lk_drop L w i l) l = Some l' \<Longrightarrow> free l' i"
    and excl: "I l \<Longrightarrow> sound l \<Longrightarrow> alone w \<Longrightarrow> holds w l i \<Longrightarrow> j \<noteq> i \<Longrightarrow> \<not> holds b l j"
    and sound_back: "lk_step L a l = Some l' \<Longrightarrow> sound l' \<Longrightarrow> sound l"
begin

definition placed :: "'l \<Rightarrow> tid \<Rightarrow> ('v, 'r) gpc \<Rightarrow> bool" where
  "placed l i p \<longleftrightarrow>
     (case p of GAcq op \<Rightarrow> calling (op_excl op) (op_try op) l i
      | _ \<Rightarrow> (case guard_of p of Some w \<Rightarrow> holds w l i | None \<Rightarrow> free l i))"

lemma placed_simps [simp]:
  "placed l i (GAcq op) = calling (op_excl op) (op_try op) l i" "placed l i GIdle = free l i" "placed l i (GDone r) = free l i"
  "placed l i (GBody op) = holds (op_excl op) l i" "placed l i (GMid op v) = holds (op_excl op) l i"
  "placed l i (GRel op r) = holds (op_excl op) l i"
  by (simp_all add: placed_def)

definition held :: "('l, 'v, 'r) guarded \<Rightarrow> bool" where
  "held s \<longleftrightarrow> I (g_lock s) \<and> (\<forall>i. placed (g_lock s) i (g_pc s i))"

definition fresh :: "('l, 'v, 'r) guarded \<Rightarrow> bool" where
  "fresh s \<longleftrightarrow> (\<forall>i op v. g_pc s i = GMid op v \<longrightarrow> v = g_val s)"

text \<open>A body under a guard that is not alone has to leave the value as it is.\<close>

definition safe_op :: "('v, 'r) gop \<Rightarrow> bool" where
  "safe_op op \<longleftrightarrow> alone (op_excl op) \<or> (\<forall>v. fst (op_body op v) = v)"

definition safe_ops :: "('l, 'v, 'r) guarded \<Rightarrow> bool" where
  "safe_ops s \<longleftrightarrow> (\<forall>x \<in> set (g_log s). safe_op (fst (snd x))) \<and> (\<forall>i op v. g_pc s i = GMid op v \<longrightarrow> safe_op op)"

definition g_inv :: "'v \<Rightarrow> ('l, 'v, 'r) guarded \<Rightarrow> bool" where
  "g_inv v0 s \<longleftrightarrow> held s \<and> (sound (g_lock s) \<and> safe_ops s \<longrightarrow> fresh s \<and> linear v0 s)"

lemma safe_opsI: "only_ops A s \<Longrightarrow> (\<And>op. op \<in> A \<Longrightarrow> safe_op op) \<Longrightarrow> safe_ops s"
  unfolding only_ops_def safe_ops_def by (metis op_of.simps(3))

text \<open>While a thread is inside under a guard that is alone, nobody else is inside.\<close>

lemma inside_alone:
  assumes "held s" "sound (g_lock s)" "guard_of (g_pc s i) = Some w" "alone w" "j \<noteq> i"
  shows "guard_of (g_pc s j) = None"
proof (rule ccontr)
  assume "guard_of (g_pc s j) \<noteq> None"
  then obtain b where b: "guard_of (g_pc s j) = Some b" by auto
  have p: "placed (g_lock s) k (g_pc s k)" for k using assms(1) by (simp add: held_def)
  have h: "holds u (g_lock s) k" if "guard_of (g_pc s k) = Some u" for u k
    using p[of k] that by (cases "g_pc s k") auto
  have "I (g_lock s)" using assms(1) by (simp add: held_def)
  from excl[OF this assms(2,4) h[OF assms(3)] assms(5)] h[OF b] show False by blast
qed

lemma inside_holds: "held s \<Longrightarrow> guard_of (g_pc s i) = Some w \<Longrightarrow> holds w (g_lock s) i"
  by (cases "g_pc s i") (auto simp: held_def dest: spec[of _ i])

text \<open>A step that changes the lock and the place of one thread.\<close>

lemma held_move:
  assumes "held s" "I (g_lock t)" "g_pc t = (g_pc s)(j := p)" "placed (g_lock t) j p"
    and "\<And>i b c. i \<noteq> j \<Longrightarrow> (free (g_lock s) i \<longrightarrow> free (g_lock t) i) \<and>
      (calling b c (g_lock s) i \<longrightarrow> calling b c (g_lock t) i) \<and> (holds b (g_lock s) i \<longrightarrow> holds b (g_lock t) i)"
  shows "held t"
  unfolding held_def
proof (intro conjI allI)
  fix i
  have "placed (g_lock s) i (g_pc s i)" using assms(1) by (simp add: held_def)
  then show "placed (g_lock t) i (g_pc t i)"
    using assms(3,4) assms(5)[of i] by (cases "i = j"; cases "g_pc s i") auto
qed (rule assms(2))

lemma g_move:
  assumes inv: "g_inv v0 s" and H: "held t" and so: "sound (g_lock t) \<Longrightarrow> sound (g_lock s)"
    and t: "g_pc t = (g_pc s)(j := p)" "g_val t = g_val s" "g_log t = g_log s"
    and m: "\<And>op v. p = GMid op v \<Longrightarrow> v = g_val s" "\<And>op v. g_pc s j \<noteq> GMid op v"
    and f: "\<And>i. executed (g_ret t i @ in_flight (g_pc t i)) = executed (g_ret s i @ in_flight (g_pc s i))"
  shows "g_inv v0 t"
proof -
  have "safe_ops t \<Longrightarrow> safe_ops s" unfolding safe_ops_def t(1,3) using m(2) by (metis fun_upd_other)
  moreover have "fresh s \<Longrightarrow> fresh t" unfolding fresh_def t(1,2) using m(1) by (metis fun_upd_apply)
  moreover have "linear v0 s \<Longrightarrow> linear v0 t" using f by (simp add: linear_def t(2,3))
  ultimately show ?thesis using inv H so by (auto simp: g_inv_def)
qed

lemma g_effect:
  assumes inv: "g_inv v0 s" and p: "g_pc s j = GMid op v" and b: "op_body op v = (v', r)"
    and t: "t = s\<lparr>g_val := v', g_log := g_log s @ [(j, op, r)], g_pc := (g_pc s)(j := GRel op r)\<rparr>"
  shows "g_inv v0 t"
proof -
  have H: "held s" using inv by (simp add: g_inv_def)
  have "placed (g_lock s) j (g_pc s j)" using H by (simp add: held_def)
  then have "held t" by (intro held_move[OF H, of t j "GRel op r"]) (use H p in \<open>auto simp: t held_def\<close>)
  moreover have "fresh t \<and> linear v0 t" if s: "sound (g_lock s)" and sf: "safe_ops t"
  proof
    have op: "safe_op op" using sf by (simp add: safe_ops_def t)
    have "safe_ops s" unfolding safe_ops_def
    proof (intro conjI allI impI ballI)
      fix i op' u assume i: "g_pc s i = GMid op' u"
      show "safe_op op'"
      proof (cases "i = j")
        case False
        then have "g_pc t i = GMid op' u" using i by (simp add: t)
        then show ?thesis using sf unfolding safe_ops_def by blast
      qed (use i op p in simp)
    qed (use sf in \<open>simp add: safe_ops_def t\<close>)
    then have F: "fresh s" "linear v0 s" using inv s by (simp_all add: g_inv_def)
    then have v: "v = g_val s" using p by (auto simp: fresh_def)
    show "linear v0 t" using F(2) b v p
      by (auto simp: linear_def t replay_append answers_def executed_def)
    show "fresh t" unfolding fresh_def
    proof (intro allI impI)
      fix i op' u assume "g_pc t i = GMid op' u"
      then have i: "i \<noteq> j" "g_pc s i = GMid op' u" by (auto simp: t split: if_splits)
      then have "\<not> alone (op_excl op)" using inside_alone[OF H s, of j "op_excl op" i] p by auto
      then have "v' = v" using op b by (metis fst_conv safe_op_def)
      then show "u = g_val t" using F(1) i(2) v by (auto simp: fresh_def t)
    qed
  qed
  ultimately show ?thesis using inv by (simp add: g_inv_def t)
qed

lemma g_inv_step:
  assumes inv: "g_inv v0 s" and st: "guarded_step L a s = Some t"
  shows "g_inv v0 t"
proof -
  have H: "held s" and I: "I (g_lock s)" using inv by (simp_all add: g_inv_def held_def)
  have P: "placed (g_lock s) i (g_pc s i)" for i using H by (simp add: held_def)
  show ?thesis
  proof (cases a)
    case (GCall i op)
    with st obtain l where p: "g_pc s i = GIdle" and l: "lk_step L (lk_call L (op_excl op) (op_try op) i) (g_lock s) = Some l"
      and t: "t = s\<lparr>g_lock := l, g_pc := (g_pc s)(i := GAcq op)\<rparr>"
      by (auto simp: guarded_step_def guarded_call_def split: gpc.splits option.splits)
    have "calling (op_excl op) (op_try op) l i" using call[OF _ l] P[of i] p by simp
    then have "held t" using keep[OF disjI1[OF refl] I l] others[OF disjI1[OF refl] l]
      by (intro held_move[OF H, of t i "GAcq op"]) (simp_all add: t)
    then show ?thesis using sound_back[OF l] p by (intro g_move[OF inv, of t i "GAcq op"]) (auto simp: t)
  next
    case (GLock x)
    with st obtain l where x: "lk_inner L x" "lk_step L x (g_lock s) = Some l" and t: "t = s\<lparr>g_lock := l\<rparr>"
      by (auto simp: guarded_step_def split: if_splits option.splits)
    have "placed l i (g_pc s i)" for i using P[of i] inner[OF x, of i] by (cases "g_pc s i") auto
    then have "held t" using keep[OF disjI2[OF disjI2[OF x(1)]] I x(2)] by (simp add: held_def t)
    then show ?thesis using inv sound_back[OF x(2)] by (auto simp: g_inv_def fresh_def linear_def safe_ops_def t)
  next
    case (GGo i)
    then have go: "guarded_go L i s = Some t" using st by (simp add: guarded_step_def)
    show ?thesis
    proof (cases "g_pc s i")
      case (GAcq op)
      with go have id: "lk_idle L (g_lock s) i" by (auto simp: guarded_go_def split: if_splits)
      have r: "if op_try op \<and> \<not> lk_got L (g_lock s) i then free (g_lock s) i else holds (op_excl op) (g_lock s) i"
        using returned[OF _ id] P[of i] GAcq by simp
      let ?p = "if op_try op \<and> \<not> lk_got L (g_lock s) i then GDone Refused else GBody op"
      have t: "t = s\<lparr>g_pc := (g_pc s)(i := ?p)\<rparr>" using go GAcq by (auto simp: guarded_go_def split: if_splits)
      have "held t" by (rule held_move[OF H, of t i ?p]) (use I r in \<open>auto simp: t split: if_splits\<close>)
      then show ?thesis
        by (rule g_move[OF inv, of t i ?p]) (auto simp: t GAcq executed_def split: if_splits)
    next
      case (GBody op)
      with go have t: "t = s\<lparr>g_pc := (g_pc s)(i := GMid op (g_val s))\<rparr>" by (simp add: guarded_go_def)
      have "held t" by (rule held_move[OF H, of t i "GMid op (g_val s)"]) (use I P[of i] GBody in \<open>auto simp: t\<close>)
      then show ?thesis by (rule g_move[OF inv, of t i "GMid op (g_val s)"]) (auto simp: t GBody)
    next
      case (GMid op v)
      with go g_effect[OF inv GMid] show ?thesis by (auto simp: guarded_go_def split: prod.splits)
    next
      case (GRel op r)
      with go obtain l where l: "lk_step L (lk_drop L (op_excl op) i (g_lock s)) (g_lock s) = Some l"
        and t: "t = s\<lparr>g_lock := l, g_pc := (g_pc s)(i := GDone r)\<rparr>" by (auto simp: guarded_go_def split: option.splits)
      have "free l i" using drop[OF _ l] P[of i] GRel by simp
      then have "held t" using keep[OF disjI2[OF disjI1[OF refl]] I l] others[OF disjI2[OF refl] l]
        by (intro held_move[OF H, of t i "GDone r"]) (simp_all add: t)
      then show ?thesis using sound_back[OF l] by (intro g_move[OF inv, of t i "GDone r"]) (auto simp: t GRel)
    next
      case (GDone r)
      with go have t: "t = s\<lparr>g_pc := (g_pc s)(i := GIdle), g_ret := (g_ret s)(i := g_ret s i @ [r])\<rparr>"
        by (auto simp: guarded_go_def split: if_splits)
      have "held t" by (rule held_move[OF H, of t i GIdle]) (use I P[of i] GDone in \<open>auto simp: t\<close>)
      then show ?thesis by (rule g_move[OF inv, of t i GIdle]) (auto simp: t GDone)
    qed (use go in \<open>simp add: guarded_go_def\<close>)
  qed
qed

lemma g_inv_new: "g_inv v0 (guarded_new l0 v0)"
  by (simp add: g_inv_def held_def fresh_def linear_def guarded_new_def init answers_def)

end

sublocale value_lock \<subseteq> client: machine "guarded_step L" "guarded_new l0 v0" "g_inv v0" for v0
  by unfold_locales (rule g_inv_new, rule g_inv_step)

text \<open>Every schedule is equivalent to the sequential execution in the order of the log.\<close>

context value_lock
begin

lemma linearizable:
  assumes "reachable (guarded_step L) (guarded_new l0 v0) s" "sound (g_lock s)" "safe_ops s"
  shows "linear v0 s" "fresh s"
  using client.always[OF assms(1)] assms(2,3) by (simp_all add: g_inv_def)

lemma client_held: "reachable (guarded_step L) (guarded_new l0 v0) s \<Longrightarrow> held s"
  using client.always[of v0 s] by (simp add: g_inv_def)

end

end
