(* ===== verification/RwLock.thy ===== *)
theory RwLock
  imports Guarded RawMutex_Safety
begin

text \<open>
  \<open>RwLock\<close> of \<open>src/sync/rw_lock.rs\<close>: a value behind a \<open>RawMutex\<close>. The lock is the full machine of theory
  \<open>RawMutex\<close>. A guard handed to the caller is an operation whose closure is what the caller does
  until the guard is dropped. Closures under the shared guard run side by side and leave the value as
  it is: \<open>T\<close> has to be \<open>Sync\<close> here, so a \<open>T\<close> that changes through \<open>&T\<close> brings its own synchronisation.
\<close>

definition raw_lock :: "(ract, raw_sys) lock_ops" where
  "raw_lock =
     \<lparr>lk_step = raw_step,
      lk_call = (\<lambda>w t i. if w then (if t then CallTryX i else CallLockX i) else (if t then CallTryS i else CallLockS i)),
      lk_drop = (\<lambda>w i s. if w then CallUnlockX i else CallUnlockS i),
      lk_inner = (\<lambda>a. case a of RStep i w \<Rightarrow> True | RSpurious i \<Rightarrow> True | _ \<Rightarrow> False),
      lk_idle = (\<lambda>s i. i < rthreads s \<and> rpc (rthr s i) = RIdle),
      lk_got = (\<lambda>s i. 0 < exclusive (rthr s i) \<or> 0 < shared (rthr s i))\<rparr>"

definition rwlock_new :: "nat \<Rightarrow> nat \<Rightarrow> 'v \<Rightarrow> (raw_sys, 'v, 'r) guarded" where
  "rwlock_new n p v = guarded_new (raw_init n p) v"

definition with_exclusive :: "('v \<Rightarrow> 'v \<times> 'r outcome) \<Rightarrow> ('v, 'r) gop" where
  "with_exclusive f = GOp True False f"

definition try_with_exclusive :: "('v \<Rightarrow> 'v \<times> 'r outcome) \<Rightarrow> ('v, 'r) gop" where
  "try_with_exclusive f = GOp True True f"

definition with_shared :: "('v \<Rightarrow> 'r outcome) \<Rightarrow> ('v, 'r) gop" where
  "with_shared f = GOp False False (\<lambda>v. (v, f v))"

definition try_with_shared :: "('v \<Rightarrow> 'r outcome) \<Rightarrow> ('v, 'r) gop" where
  "try_with_shared f = GOp False True (\<lambda>v. (v, f v))"

definition rwlock_is_locked :: "(raw_sys, 'v, 'r) guarded \<Rightarrow> bool" where
  "rwlock_is_locked s = is_locked (state (raw (g_lock s)))"

definition rwlock_is_locked_exclusive :: "(raw_sys, 'v, 'r) guarded \<Rightarrow> bool" where
  "rwlock_is_locked_exclusive s = is_writer_locked (state (raw (g_lock s)))"

definition rwlock_is_locked_shared :: "(raw_sys, 'v, 'r) guarded \<Rightarrow> bool" where
  "rwlock_is_locked_shared s = is_locked_shared (state (raw (g_lock s)))"

section \<open>The laws of the lock\<close>

lemma raw_thread_step_other:
  "raw_thread_step s j w p = Some t \<Longrightarrow> rthreads t = rthreads s \<and> (\<forall>i. i \<noteq> j \<longrightarrow> rthr t i = rthr s i)"
  by (cases p) (auto simp: futex_wait_def Let_def split: if_splits option.splits prod.splits)

lemma raw_inner_keep:
  assumes "raw_step (RStep j w) s = Some t" "rpc (rthr s i) = RIdle"
  shows "rthreads t = rthreads s \<and> rthr t i = rthr s i"
proof -
  have st: "raw_thread_step s j w (rpc (rthr s j)) = Some t" using assms(1) by (auto simp: raw_step_def Let_def split: if_splits)
  then have "i \<noteq> j" using assms(2) by auto
  with raw_thread_step_other[OF st] show ?thesis by blast
qed

lemma raw_spurious_keep: "raw_step (RSpurious j) s = Some t \<Longrightarrow> rthreads t = rthreads s \<and> rthr t = rthr s"
  by (auto simp: raw_step_def Let_def split: if_splits)

lemma raw_call_keep:
  assumes "raw_step a s = Some t" "a \<in> {CallLockX j, CallTryX j, CallLockS j, CallTryS j, CallUnlockX j, CallUnlockS j}" "i \<noteq> j"
  shows "rthreads t = rthreads s \<and> rthr t i = rthr s i"
  using assms
  by (auto simp: raw_step_def Let_def lock_exclusive_def try_lock_exclusive_def lock_shared_def unlock_exclusive_def unlock_shared_def
      split: if_splits)

text \<open>The situations of a thread: no guard and nothing under way but a release; a call made; one guard.\<close>

fun raw_acquiring :: "bool \<Rightarrow> bool \<Rightarrow> rpc \<Rightarrow> bool" where
  "raw_acquiring w t LXLoad = (w \<and> \<not> t)"
| "raw_acquiring w t (LX st b) = (w \<and> \<not> t)"
| "raw_acquiring w t (LXKey b) = (w \<and> \<not> t)"
| "raw_acquiring w t (LXCheck b key) = (w \<and> \<not> t)"
| "raw_acquiring w t (LXWait b key) = (w \<and> \<not> t)"
| "raw_acquiring w t (LXSleep b) = (w \<and> \<not> t)"
| "raw_acquiring w t (LXReload b) = (w \<and> \<not> t)"
| "raw_acquiring w t (LSFast nonblock st) = (\<not> w \<and> t = nonblock)"
| "raw_acquiring w t TSLoad = (\<not> w \<and> t)"
| "raw_acquiring w t (TS st) = (\<not> w \<and> t)"
| "raw_acquiring w t (LSLoad b) = (\<not> w \<and> \<not> t)"
| "raw_acquiring w t (LS st b) = (\<not> w \<and> \<not> t)"
| "raw_acquiring w t (LSKey b) = (\<not> w \<and> \<not> t)"
| "raw_acquiring w t (LSCheck b key) = (\<not> w \<and> \<not> t)"
| "raw_acquiring w t (LSWait b key) = (\<not> w \<and> \<not> t)"
| "raw_acquiring w t (LSSleep b) = (\<not> w \<and> \<not> t)"
| "raw_acquiring w t _ = False"

fun raw_finishing :: "rpc \<Rightarrow> bool" where
  "raw_finishing RIdle = True"
| "raw_finishing UXLoad = True"
| "raw_finishing (UX st) = True"
| "raw_finishing WAddW = True"
| "raw_finishing WWakeW = True"
| "raw_finishing WAddR = True"
| "raw_finishing WWakeR = True"
| "raw_finishing _ = False"

definition raw_free :: "raw_sys \<Rightarrow> tid \<Rightarrow> bool" where
  "raw_free s i \<longleftrightarrow> raw_finishing (rpc (rthr s i)) \<and> exclusive (rthr s i) = 0 \<and> shared (rthr s i) = 0"

definition raw_holds :: "bool \<Rightarrow> raw_sys \<Rightarrow> tid \<Rightarrow> bool" where
  "raw_holds w s i \<longleftrightarrow> i < rthreads s \<and> rpc (rthr s i) = RIdle \<and>
     exclusive (rthr s i) = of_bool w \<and> shared (rthr s i) = of_bool (\<not> w)"

definition raw_calling :: "bool \<Rightarrow> bool \<Rightarrow> raw_sys \<Rightarrow> tid \<Rightarrow> bool" where
  "raw_calling w t s i \<longleftrightarrow> i < rthreads s \<and>
     (raw_holds w s i \<or>
      (raw_acquiring w t (rpc (rthr s i)) \<or> rpc (rthr s i) = RIdle \<and> t) \<and> exclusive (rthr s i) = 0 \<and> shared (rthr s i) = 0)"

lemma after_release_finishing [simp]: "raw_finishing (after_release st)"
  by (simp add: after_release_def)

lemma raw_own_free:
  assumes "raw_thread_step s i w (rpc (rthr s i)) = Some t" "raw_free s i"
  shows "raw_free t i"
  using assms by (cases "rpc (rthr s i)") (auto simp: raw_free_def split: if_splits)

text \<open>What a step of an acquisition does to its thread: it goes on, gives up a \<open>try\<close>, or gets its guard.\<close>

definition acquires :: "bool \<Rightarrow> bool \<Rightarrow> rthread \<Rightarrow> rthread \<Rightarrow> bool" where
  "acquires b c th th' \<longleftrightarrow>
     th' = th\<lparr>rpc := rpc th'\<rparr> \<and> (raw_acquiring b c (rpc th') \<or> rpc th' = RIdle \<and> c) \<or>
     th' = (if b then th\<lparr>rpc := RIdle, exclusive := exclusive th + 1\<rparr> else th\<lparr>rpc := RIdle, shared := shared th + 1\<rparr>)"

lemma lock_exclusive_slow_acquires:
  "lock_exclusive_slow s i w p = Some t \<Longrightarrow> rthreads t = rthreads s \<and> acquires True False (rthr s i) (rthr t i)"
  by (cases p) (auto simp: acquires_def futex_wait_def split: if_split_asm)

lemma lock_shared_slow_acquires:
  "lock_shared_slow s i w p = Some t \<Longrightarrow> rthreads t = rthreads s \<and> acquires False False (rthr s i) (rthr t i)"
  by (cases p) (auto simp: acquires_def futex_wait_def split: if_split_asm option.split_asm)

lemma try_lock_shared_slow_acquires:
  "try_lock_shared_slow s i w p = Some t \<Longrightarrow> rthreads t = rthreads s \<and> acquires False True (rthr s i) (rthr t i)"
  by (cases p) (auto simp: acquires_def split: if_split_asm option.split_asm)

lemma try_lock_shared_fast_acquires:
  "try_lock_shared_fast s i w (LSFast c st) = Some t \<Longrightarrow> rthreads t = rthreads s \<and> acquires False c (rthr s i) (rthr t i)"
  by (auto simp: acquires_def Let_def split: if_split_asm option.split_asm)

lemma raw_step_acquires:
  assumes "raw_thread_step s i w p = Some t" "raw_acquiring b c p"
  shows "rthreads t = rthreads s \<and> acquires b c (rthr s i) (rthr t i)"
proof -
  consider "b" "\<not> c" "lock_exclusive_slow s i w p = Some t" | "\<not> b" "\<not> c" "lock_shared_slow s i w p = Some t"
    | "\<not> b" "c" "try_lock_shared_slow s i w p = Some t" | st where "\<not> b" "p = LSFast c st" "try_lock_shared_fast s i w p = Some t"
    using assms by (cases p; simp only: raw_acquiring.simps raw_thread_step.simps; blast)
  then show ?thesis
    by cases (use lock_exclusive_slow_acquires lock_shared_slow_acquires try_lock_shared_slow_acquires try_lock_shared_fast_acquires in fastforce)+
qed

lemma raw_own_calling:
  assumes st: "raw_thread_step s i w (rpc (rthr s i)) = Some t" and c: "raw_calling b c s i"
  shows "raw_calling b c t i"
proof -
  have n: "rpc (rthr s i) \<noteq> RIdle" using st by auto
  then have a: "raw_acquiring b c (rpc (rthr s i))" "exclusive (rthr s i) = 0" "shared (rthr s i) = 0" "i < rthreads s"
    using c by (auto simp: raw_calling_def raw_holds_def)
  have m: "rthreads t = rthreads s" "acquires b c (rthr s i) (rthr t i)" using raw_step_acquires[OF st a(1)] by simp_all
  from m(2) have "(raw_acquiring b c (rpc (rthr t i)) \<or> rpc (rthr t i) = RIdle \<and> c) \<and> exclusive (rthr t i) = 0 \<and> shared (rthr t i) = 0 \<or>
      rpc (rthr t i) = RIdle \<and> exclusive (rthr t i) = of_bool b \<and> shared (rthr t i) = of_bool (\<not> b)"
    unfolding acquires_def using a(2,3) by (elim disjE conjE) (simp_all split: if_split_asm, metis rthread.select_convs rthread.surjective rthread.update_convs)
  with a(4) m(1) show ?thesis by (auto simp: raw_calling_def raw_holds_def)
qed

lemma raw_steps_keep:
  assumes "rthreads t = rthreads s" "rthr t i = rthr s i"
  shows "(raw_free s i \<longrightarrow> raw_free t i) \<and> (raw_calling b c s i \<longrightarrow> raw_calling b c t i) \<and> (raw_holds b s i \<longrightarrow> raw_holds b t i)"
  unfolding raw_free_def raw_calling_def raw_holds_def assms by blast

lemma raw_inner_situation:
  assumes "lk_inner raw_lock a" "raw_step a s = Some t"
  shows "(raw_free s i \<longrightarrow> raw_free t i) \<and> (raw_calling b c s i \<longrightarrow> raw_calling b c t i) \<and> (raw_holds b s i \<longrightarrow> raw_holds b t i)"
proof -
  consider j w where "a = RStep j w" | j where "a = RSpurious j" using assms(1) by (auto simp: raw_lock_def split: ract.splits)
  then show ?thesis
  proof cases
    case (1 j w)
    then have st: "raw_thread_step s j w (rpc (rthr s j)) = Some t" using assms(2) by (auto simp: raw_step_def Let_def split: if_splits)
    show ?thesis
    proof (cases "i = j")
      case True
      have "\<not> raw_holds b s i" using st True by (auto simp: raw_holds_def)
      with True raw_own_free[of s i w t] raw_own_calling[of s i w t b c] st show ?thesis by blast
    next
      case False
      with raw_thread_step_other[OF st] show ?thesis by (intro raw_steps_keep) auto
    qed
  next
    case 2
    with raw_spurious_keep[of j s t] assms(2) show ?thesis by (intro raw_steps_keep) auto
  qed
qed

lemma raw_call_situation:
  assumes "raw_free s i" "raw_step (lk_call raw_lock w t i) s = Some s'"
  shows "raw_calling w t s' i"
  using assms
  by (auto simp: raw_lock_def raw_step_def Let_def lock_exclusive_def try_lock_exclusive_def lock_shared_def raw_free_def
      raw_calling_def raw_holds_def split: if_splits)

lemma raw_drop_situation:
  assumes "raw_holds w s i" "raw_step (lk_drop raw_lock w i s) s = Some s'"
  shows "raw_free s' i"
  using assms
  by (cases w) (auto simp: raw_lock_def raw_step_def Let_def unlock_exclusive_def unlock_shared_def raw_free_def raw_holds_def split: if_splits)

interpretation rwlock: value_lock raw_lock "raw_init n p" "\<lambda>_. True" raw_inv raw_free raw_calling raw_holds "\<lambda>w. w"
  for n p
proof
  show "raw_inv (raw_init n p)" by (rule raw_inv_init)
  show "raw_free (raw_init n p) i" for i by (simp add: raw_free_def raw_init_def)
  show "raw_inv l'" if "raw_inv l" "lk_step raw_lock a l = Some l'" for a l l'
    using raw_inv_step[OF that(1)] that(2) by (simp add: raw_lock_def)
  show "(raw_free l i \<longrightarrow> raw_free l' i) \<and> (raw_calling b c l i \<longrightarrow> raw_calling b c l' i) \<and> (raw_holds b l i \<longrightarrow> raw_holds b l' i)"
    if "lk_inner raw_lock a" "lk_step raw_lock a l = Some l'" for a l l' i b c
    using raw_inner_situation[OF that(1)] that(2) by (simp add: raw_lock_def)
  show "(raw_free l i \<longrightarrow> raw_free l' i) \<and> (raw_calling b c l i \<longrightarrow> raw_calling b c l' i) \<and> (raw_holds b l i \<longrightarrow> raw_holds b l' i)"
    if "a = lk_call raw_lock w t j \<or> a = lk_drop raw_lock w j l" "lk_step raw_lock a l = Some l'" "i \<noteq> j" for a w t j l l' i b c
    using raw_call_keep[of a l l' j i] that by (intro raw_steps_keep) (auto simp: raw_lock_def)
  show "raw_calling w t l' i" if "raw_free l i" "lk_step raw_lock (lk_call raw_lock w t i) l = Some l'" for w t l l' i
    using raw_call_situation[OF that(1)] that(2) by (simp add: raw_lock_def)
  show "if t \<and> \<not> lk_got raw_lock l i then raw_free l i else raw_holds w l i"
    if "raw_calling w t l i" "lk_idle raw_lock l i" for w t l i
    using that by (auto simp: raw_calling_def raw_holds_def raw_free_def raw_lock_def)
  show "raw_free l' i" if "raw_holds w l i" "lk_step raw_lock (lk_drop raw_lock w i l) l = Some l'" for w l l' i
    using raw_drop_situation[OF that(1)] that(2) by (simp add: raw_lock_def)
  show "\<not> raw_holds b l j" if "raw_inv l" w "raw_holds w l i" "j \<noteq> i" for l w i j b
    using exclusive_alone[OF that(1), of i j] that by (auto simp: raw_holds_def split: if_splits)
qed simp

section \<open>Properties\<close>

definition rwlock_op :: "('v, 'r) gop \<Rightarrow> bool" where
  "rwlock_op op \<longleftrightarrow> (\<exists>f. op = with_exclusive f \<or> op = try_with_exclusive f) \<or> (\<exists>f. op = with_shared f \<or> op = try_with_shared f)"

lemmas rwlock_op_defs = with_exclusive_def try_with_exclusive_def with_shared_def try_with_shared_def

lemma rwlock_op_safe: "rwlock_op op \<Longrightarrow> value_lock.safe_op (\<lambda>w. w) op"
  unfolding rwlock_op_def rwlock.safe_op_def by (auto simp: rwlock_op_defs)

text \<open>
  C17: what is done to the value of an \<open>RwLock\<close> through its guards takes effect one operation after
  the other. For any threads and any interleaving of \<open>with_exclusive\<close>, \<open>with_shared\<close> and their \<open>try\<close> forms, a closure
  being entered as soon as the lock call has returned: the value and the answers are those of the
  sequential execution in the order of the log; a refused \<open>try\<close> call has no effect. While a
  thread is inside an exclusive section it owns the one exclusive acquisition, \<open>is_locked_exclusive\<close> holds
  and no other thread is inside any section; while it is inside a shared section it owns one
  shared acquisition, \<open>is_locked_shared\<close> holds and no thread is inside an exclusive section; and the
  closure works on the current value.
\<close>

theorem rwlock_linearizable:
  assumes "run (guarded_step raw_lock) as (rwlock_new n p v0) = Some s"
    "\<And>i op. GCall i op \<in> set as \<Longrightarrow>
      (\<exists>f. op = with_exclusive f \<or> op = try_with_exclusive f) \<or> (\<exists>f. op = with_shared f \<or> op = try_with_shared f)"
  shows "replay v0 (g_log s) = Some (g_val s) \<and>
    executed (answers i (g_log s)) = executed (g_ret s i @ in_flight (g_pc s i)) \<and>
    (guard_of (g_pc s i) = Some True \<longrightarrow>
       exclusive (rthr (g_lock s) i) = 1 \<and> rwlock_is_locked_exclusive s \<and> (\<forall>j. j \<noteq> i \<longrightarrow> guard_of (g_pc s j) = None)) \<and>
    (guard_of (g_pc s i) = Some False \<longrightarrow>
       shared (rthr (g_lock s) i) = 1 \<and> rwlock_is_locked_shared s \<and> (\<forall>j. guard_of (g_pc s j) \<noteq> Some True)) \<and>
    (\<forall>op v. g_pc s i = GMid op v \<longrightarrow> v = g_val s)"
proof -
  have R: "reachable (guarded_step raw_lock) (guarded_new (raw_init n p) v0) s"
    using reachable_run[OF assms(1)] by (simp add: rwlock_new_def)
  have "only_ops {op. rwlock_op op} s"
    by (rule only_ops_run[OF assms(1)]) (use assms(2) in \<open>auto simp: rwlock_new_def only_ops_new rwlock_op_def\<close>)
  then have sf: "rwlock.safe_ops s" by (rule rwlock.safe_opsI) (simp add: rwlock_op_safe)
  have H: "rwlock.held s" by (rule rwlock.client_held[OF R])
  have inv: "raw_inv (g_lock s)" using H by (simp add: rwlock.held_def)
  have alone: "guard_of (g_pc s k) = None" if "guard_of (g_pc s j) = Some True" "k \<noteq> j" for j k
    using rwlock.inside_alone[OF H _ that(1) _ that(2)] by simp
  have x: "exclusive (rthr (g_lock s) i) = 1 \<and> rwlock_is_locked_exclusive s" if "guard_of (g_pc s i) = Some True"
  proof -
    have h: "i < rthreads (g_lock s)" "exclusive (rthr (g_lock s) i) = 1" using rwlock.inside_holds[OF H that] by (auto simp: raw_holds_def)
    then have "rcnt (state (raw (g_lock s))) = WRITER_CNT" using held_writer[OF inv, of i] by (simp add: held_x_def)
    with h(2) show ?thesis by (simp add: rwlock_is_locked_exclusive_def is_writer_locked_def word_view)
  qed
  have r: "shared (rthr (g_lock s) i) = 1 \<and> rwlock_is_locked_shared s" if "guard_of (g_pc s i) = Some False"
  proof -
    have h: "i < rthreads (g_lock s)" "shared (rthr (g_lock s) i) = 1" using rwlock.inside_holds[OF H that] by (auto simp: raw_holds_def)
    then have "0 < rcnt (state (raw (g_lock s)))" "rcnt (state (raw (g_lock s))) < WRITER_CNT" using held_reader[OF inv, of i] by auto
    with h(2) show ?thesis
      by (simp add: rwlock_is_locked_shared_def is_locked_shared_def is_writer_locked_def word_view word_gt_0 del: not_gr_zero)
  qed
  have "guard_of (g_pc s j) \<noteq> Some True" if "guard_of (g_pc s i) = Some False" for j
    using alone[of j i] that by (cases "j = i") auto
  moreover have "linear v0 s" "rwlock.fresh s" using rwlock.linearizable[OF R _ sf] by simp_all
  ultimately show ?thesis unfolding linear_def rwlock.fresh_def using alone x r by blast
qed

theorem rwlock_linearizable_witness:
  "\<exists>s :: (raw_sys, nat, nat) guarded. reachable (guarded_step raw_lock) (rwlock_new 2 4 5) s \<and>
     guard_of (g_pc s 0) = Some True \<and> exclusive (rthr (g_lock s) 0) = 1 \<and> rwlock_is_locked_exclusive s \<and>
     guard_of (g_pc s 1) = None \<and> g_ret s 1 = [Refused] \<and> g_val s = 6 \<and> replay 5 (g_log s) = Some 6"
proof -
  let ?f = "\<lambda>v::nat. (v + 1, Ret v)"
  let ?as = "[GCall 0 (with_exclusive ?f), GGo 0, GCall 1 (try_with_exclusive ?f), GGo 1, GGo 0, GGo 1, GGo 0]"
  have "run_to (guarded_step raw_lock) ?as (rwlock_new 2 4 (5::nat)) (\<lambda>s. guard_of (g_pc s 0) = Some True \<and> g_ret s 1 = [Refused] \<and> g_val s = 6)"
    by code_simp
  then obtain s :: "(raw_sys, nat, nat) guarded" where s: "run (guarded_step raw_lock) ?as (rwlock_new 2 4 5) = Some s"
    "reachable (guarded_step raw_lock) (rwlock_new 2 4 5) s"
    "guard_of (g_pc s 0) = Some True" "g_ret s 1 = [Refused]" "g_val s = 6" by (auto dest: run_toD)
  have "(\<exists>f. op = with_exclusive f \<or> op = try_with_exclusive f) \<or> (\<exists>f. op = with_shared f \<or> op = try_with_shared f)"
    if "GCall i op \<in> set ?as" for i op using that by auto
  from rwlock_linearizable[OF s(1) this, where i = 0] s(2-) show ?thesis by auto
qed

end
