(* ===== verification/Atomic.thy ===== *)
theory Atomic
  imports Guarded Serial_Safety
begin

text \<open>
  \<open>Atomic\<close> of \<open>src/atomic/atomic.rs\<close>: a value of any type behind a \<open>SerialMutex\<close>. Each operation is
  the guard it takes and its body on the value; the comparison, the arithmetic and the
  closures of the element type are parameters, and may unwind where user code may. A closure that gets
  \<open>&T\<close> may still change the value (interior mutability): it returns the value it leaves behind, like
  one that gets \<open>&mut T\<close>. Cloning gives an equal value. Closures do not use the same \<open>Atomic\<close> again: a
  conflicting reentrant call is the panic of \<open>SerialMutex\<close>. The lock is the full \<open>SerialMutex\<close> machine
  of theory \<open>Serial\<close>.
\<close>

section \<open>The lock\<close>

definition serial_lock :: "(sact, serial_sys) lock_ops" where
  "serial_lock =
     \<lparr>lk_step = serial_step,
      lk_call = (\<lambda>w t i. if w then (if t then CallTry i else CallWrite i) else CallRead i),
      lk_drop = (\<lambda>w i s. if w then DropWrite i else DropRead i (hd (reads (thr s i)))),
      lk_inner = (\<lambda>a. case a of SStep i w \<Rightarrow> True | SSpurious i \<Rightarrow> True | _ \<Rightarrow> False),
      lk_idle = (\<lambda>s i. i < threads s \<and> spc (thr s i) = SIdle),
      lk_got = (\<lambda>s i. 0 < writes (thr s i) \<or> reads (thr s i) \<noteq> [])\<rparr>"

section \<open>Operations on any type\<close>

definition shared_op :: "('v \<Rightarrow> 'v \<times> 'r outcome) \<Rightarrow> ('v, 'r) gop" where
  "shared_op f = GOp False False f"

definition exclusive_op :: "('v \<Rightarrow> 'v \<times> 'r outcome) \<Rightarrow> ('v, 'r) gop" where
  "exclusive_op f = GOp True False f"

definition atomic_new :: "nat \<Rightarrow> nat \<Rightarrow> 'v \<Rightarrow> (serial_sys, 'v, 'r) guarded" where
  "atomic_new n p v = guarded_new (serial_init n p) v"

definition atomic_with :: "('v \<Rightarrow> 'v \<times> 'r outcome) \<Rightarrow> ('v, 'r) gop" where
  "atomic_with f = shared_op f"

definition atomic_with_mut :: "('v \<Rightarrow> 'v \<times> 'r outcome) \<Rightarrow> ('v, 'r) gop" where
  "atomic_with_mut f = exclusive_op f"

text \<open>The closure sees the value itself; when it unwinds nothing is replaced.\<close>

definition replace_with :: "('v \<Rightarrow> 'v \<times> 'v outcome) \<Rightarrow> ('v, 'v) gop" where
  "replace_with f = exclusive_op (\<lambda>v. case f v of (old, Ret new) \<Rightarrow> (new, Ret old) | (old, _) \<Rightarrow> (old, Unwind))"

definition atomic_update :: "('v \<Rightarrow> 'v \<times> unit outcome) \<Rightarrow> ('v, unit) gop" where
  "atomic_update f = exclusive_op f"

definition try_update :: "('v \<Rightarrow> 'v \<times> bool outcome) \<Rightarrow> ('v, unit + unit) gop" where
  "try_update f = exclusive_op (\<lambda>v. case f v of
     (v', Ret ok) \<Rightarrow> (v', Ret (if ok then Inr () else Inl ()))
   | (v', _) \<Rightarrow> (v', Unwind))"

definition load :: "('v, 'v) gop" where
  "load = shared_op (\<lambda>v. (v, Ret v))"

definition swap_op :: "'v \<Rightarrow> ('v, 'v) gop" where
  "swap_op val = exclusive_op (\<lambda>v. (val, Ret v))"

definition store :: "'v \<Rightarrow> ('v, unit) gop" where
  "store val = exclusive_op (\<lambda>v. (val, Ret ()))"

definition take_default :: "'v \<Rightarrow> ('v, 'v) gop" where
  "take_default d = swap_op d"

definition load_copy :: "('v, 'v) gop" where
  "load_copy = shared_op (\<lambda>v. (v, Ret v))"

definition swap_copy :: "'v \<Rightarrow> ('v, 'v) gop" where
  "swap_copy val = exclusive_op (\<lambda>v. let old = v in (val, Ret old))"

text \<open>\<open>eq\<close> is the \<open>PartialEq\<close> of the element type; \<open>Inr\<close> is \<open>Ok\<close>.\<close>

definition compare_exchange :: "('v \<Rightarrow> 'v \<Rightarrow> bool) \<Rightarrow> 'v \<Rightarrow> 'v \<Rightarrow> ('v, 'v + 'v) gop" where
  "compare_exchange eq current new =
     exclusive_op (\<lambda>v. if eq v current then (new, Ret (Inr v)) else (v, Ret (Inl v)))"

definition compare_exchange_weak :: "('v \<Rightarrow> 'v \<Rightarrow> bool) \<Rightarrow> 'v \<Rightarrow> 'v \<Rightarrow> ('v, 'v + 'v) gop" where
  "compare_exchange_weak eq current new = compare_exchange eq current new"

fun op_map :: "('r \<Rightarrow> 'q) \<Rightarrow> ('v, 'r) gop \<Rightarrow> ('v, 'q) gop" where
  "op_map h (GOp w t f) = GOp w t (\<lambda>v. case f v of (v', r) \<Rightarrow> (v', map_outcome h r))"

definition compare_and_swap :: "('v \<Rightarrow> 'v \<Rightarrow> bool) \<Rightarrow> 'v \<Rightarrow> 'v \<Rightarrow> ('v, 'v) gop" where
  "compare_and_swap eq current new = op_map (\<lambda>r. case r of Inr v \<Rightarrow> v | Inl v \<Rightarrow> v) (compare_exchange eq current new)"

text \<open>The closure of \<open>fetch_update\<close> sees a clone of the value, which is what is returned.\<close>

definition fetch_update :: "('v \<Rightarrow> 'v \<times> 'v option outcome) \<Rightarrow> ('v, 'v + 'v) gop" where
  "fetch_update f = exclusive_op (\<lambda>v. case f v of
     (old, Ret (Some new)) \<Rightarrow> (new, Ret (Inr old))
   | (old, Ret None) \<Rightarrow> (v, Ret (Inl old))
   | (old, _) \<Rightarrow> (v, Unwind))"

section \<open>Numbers, flags, strings, vectors and options\<close>

text \<open>The operator of the element type: \<open>+\<close>, \<open>-\<close>, \<open>&\<close>, \<open>|\<close>, \<open>^\<close>; checked arithmetic unwinds on overflow.\<close>

definition fetch_op :: "('v \<Rightarrow> 'v \<Rightarrow> 'v outcome) \<Rightarrow> 'v \<Rightarrow> ('v, 'v) gop" where
  "fetch_op f val = exclusive_op (\<lambda>old. case f old val of Ret new \<Rightarrow> (new, Ret old) | _ \<Rightarrow> (old, Unwind))"

definition fetch_add :: "('v \<Rightarrow> 'v \<Rightarrow> 'v outcome) \<Rightarrow> 'v \<Rightarrow> ('v, 'v) gop" where
  "fetch_add add val = fetch_op add val"

definition fetch_sub :: "('v \<Rightarrow> 'v \<Rightarrow> 'v outcome) \<Rightarrow> 'v \<Rightarrow> ('v, 'v) gop" where
  "fetch_sub sub val = fetch_op sub val"

definition fetch_and_bits :: "'a::len word \<Rightarrow> ('a word, 'a word) gop" where
  "fetch_and_bits val = fetch_op (\<lambda>a b. Ret (a AND b)) val"

definition fetch_or_bits :: "'a::len word \<Rightarrow> ('a word, 'a word) gop" where
  "fetch_or_bits val = fetch_op (\<lambda>a b. Ret (a OR b)) val"

definition fetch_xor_bits :: "'a::len word \<Rightarrow> ('a word, 'a word) gop" where
  "fetch_xor_bits val = fetch_op (\<lambda>a b. Ret (a XOR b)) val"

definition fetch_nand_bits :: "'a::len word \<Rightarrow> ('a word, 'a word) gop" where
  "fetch_nand_bits val = fetch_op (\<lambda>a b. Ret (NOT (a AND b))) val"

definition fetch_max :: "('v \<Rightarrow> 'v \<Rightarrow> bool) \<Rightarrow> 'v \<Rightarrow> ('v, 'v) gop" where
  "fetch_max lt val = exclusive_op (\<lambda>old. (if lt old val then val else old, Ret old))"

definition fetch_min :: "('v \<Rightarrow> 'v \<Rightarrow> bool) \<Rightarrow> 'v \<Rightarrow> ('v, 'v) gop" where
  "fetch_min lt val = exclusive_op (\<lambda>old. (if lt val old then val else old, Ret old))"

definition fetch_and :: "bool \<Rightarrow> (bool, bool) gop" where
  "fetch_and val = fetch_op (\<lambda>a b. Ret (a \<and> b)) val"

definition fetch_or :: "bool \<Rightarrow> (bool, bool) gop" where
  "fetch_or val = fetch_op (\<lambda>a b. Ret (a \<or> b)) val"

definition fetch_xor :: "bool \<Rightarrow> (bool, bool) gop" where
  "fetch_xor val = fetch_op (\<lambda>a b. Ret (a \<noteq> b)) val"

definition fetch_nand :: "bool \<Rightarrow> (bool, bool) gop" where
  "fetch_nand val = fetch_op (\<lambda>a b. Ret (\<not> (a \<and> b))) val"

text \<open>\<open>Add\<close> of \<open>u64\<close> with overflow checks.\<close>

definition u64_add :: "u64 \<Rightarrow> u64 \<Rightarrow> u64 outcome" where
  "u64_add a b = (case checked_add a b of Some c \<Rightarrow> Ret c | None \<Rightarrow> Unwind)"

definition push_str :: "string \<Rightarrow> (string, unit) gop" where
  "push_str s = atomic_update (\<lambda>v. (v @ s, Ret ()))"

definition list_clear :: "('e list, unit) gop" where
  "list_clear = atomic_update (\<lambda>v. ([], Ret ()))"

definition list_len :: "('e list, nat) gop" where
  "list_len = atomic_with (\<lambda>v. (v, Ret (length v)))"

definition list_is_empty :: "('e list, bool) gop" where
  "list_is_empty = atomic_with (\<lambda>v. (v, Ret (v = [])))"

definition list_push :: "'e \<Rightarrow> ('e list, unit) gop" where
  "list_push x = atomic_update (\<lambda>v. (v @ [x], Ret ()))"

definition list_pop :: "('e list, 'e option) gop" where
  "list_pop = atomic_with_mut (\<lambda>v. if v = [] then (v, Ret None) else (butlast v, Ret (Some (last v))))"

definition list_extend :: "'e list \<Rightarrow> ('e list, unit) gop" where
  "list_extend xs = atomic_update (\<lambda>v. (v @ xs, Ret ()))"

definition opt_is_some :: "('e option, bool) gop" where
  "opt_is_some = atomic_with (\<lambda>v. (v, Ret (v \<noteq> None)))"

definition opt_is_none :: "('e option, bool) gop" where
  "opt_is_none = atomic_with (\<lambda>v. (v, Ret (v = None)))"

definition opt_take :: "('e option, 'e option) gop" where
  "opt_take = atomic_with_mut (\<lambda>v. (None, Ret v))"

definition opt_replace :: "'e \<Rightarrow> ('e option, 'e option) gop" where
  "opt_replace x = atomic_with_mut (\<lambda>v. (Some x, Ret v))"

section \<open>The laws of the lock\<close>

lemma thread_step_other:
  "thread_step s j w p = Some t \<Longrightarrow> threads t = threads s \<and> (\<forall>i. i \<noteq> j \<longrightarrow> thr t i = thr s i)"
  by (cases p) (auto simp: owner_step_def acquired_def futex_wait_def split: if_splits option.splits prod.splits)

lemma thread_step_idle: "thread_step s i w SIdle = None"
  by simp

lemma serial_inner_keep:
  assumes "serial_step (SStep j w) s = Some t" "i < threads s" "spc (thr s i) = SIdle"
  shows "threads t = threads s \<and> thr t i = thr s i"
proof -
  have st: "thread_step s j w (spc (thr s j)) = Some t" using assms(1) by (auto simp: serial_step_def Let_def split: if_splits)
  then have "i \<noteq> j" using assms(3) by auto
  with thread_step_other[OF st] show ?thesis by blast
qed

lemma serial_spurious_keep:
  "serial_step (SSpurious j) s = Some t \<Longrightarrow> threads t = threads s \<and> thr t = thr s"
  by (auto simp: serial_step_def Let_def split: if_splits)

lemma serial_call_keep:
  assumes "serial_step a s = Some t" "a = CallRead j \<or> a = CallWrite j \<or> a = CallTry j \<or> a = DropWrite j \<or> (\<exists>u. a = DropRead j u)" "i \<noteq> j"
  shows "threads t = threads s \<and> thr t i = thr s i"
  using assms by (auto simp: serial_step_def Let_def drop_read_def drop_write_def split: if_splits)

text \<open>The situations of a thread, as for \<open>RwLock\<close>; a read call has no \<open>try\<close> form.\<close>

fun serial_acquiring :: "bool \<Rightarrow> bool \<Rightarrow> spc \<Rightarrow> bool" where
  "serial_acquiring w t (SOwner rd) = (rd \<noteq> w \<and> (w \<longrightarrow> \<not> t))"
| "serial_acquiring w t (SFast rd ow) = (rd \<noteq> w \<and> (w \<longrightarrow> \<not> t))"
| "serial_acquiring w t STryOwner = (w \<and> t)"
| "serial_acquiring w t (STry ow) = (w \<and> t)"
| "serial_acquiring w t (SSeq rd ow b) = (rd \<noteq> w \<and> (w \<longrightarrow> \<not> t))"
| "serial_acquiring w t (SLoad rd ow b q) = (rd \<noteq> w \<and> (w \<longrightarrow> \<not> t))"
| "serial_acquiring w t (SNext rd ow b st next) = (rd \<noteq> w \<and> (w \<longrightarrow> \<not> t))"
| "serial_acquiring w t (SPark rd ow b q st) = (rd \<noteq> w \<and> (w \<longrightarrow> \<not> t))"
| "serial_acquiring w t (SWait rd ow b q) = (rd \<noteq> w \<and> (w \<longrightarrow> \<not> t))"
| "serial_acquiring w t (SSleep rd ow b) = (rd \<noteq> w \<and> (w \<longrightarrow> \<not> t))"
| "serial_acquiring w t (SPanic e) = True"
| "serial_acquiring w t _ = False"

fun serial_finishing :: "spc \<Rightarrow> bool" where
  "serial_finishing SIdle = True"
| "serial_finishing (SRelease t st) = True"
| "serial_finishing SNotify = True"
| "serial_finishing SWakeAll = True"
| "serial_finishing (SPanic e) = True"
| "serial_finishing _ = False"

definition serial_free :: "serial_sys \<Rightarrow> tid \<Rightarrow> bool" where
  "serial_free s i \<longleftrightarrow> serial_finishing (spc (thr s i)) \<and> writes (thr s i) = 0 \<and> reads (thr s i) = []"

definition serial_holds :: "bool \<Rightarrow> serial_sys \<Rightarrow> tid \<Rightarrow> bool" where
  "serial_holds w s i \<longleftrightarrow> i < threads s \<and> spc (thr s i) = SIdle \<and>
     writes (thr s i) = of_bool w \<and> length (reads (thr s i)) = of_bool (\<not> w)"

definition serial_calling :: "bool \<Rightarrow> bool \<Rightarrow> serial_sys \<Rightarrow> tid \<Rightarrow> bool" where
  "serial_calling w t s i \<longleftrightarrow> i < threads s \<and>
     (serial_holds w s i \<or>
      (serial_acquiring w t (spc (thr s i)) \<or> spc (thr s i) = SIdle \<and> w \<and> t) \<and> writes (thr s i) = 0 \<and> reads (thr s i) = [])"

text \<open>What a step of an acquisition does to its thread: it goes on, gives up a \<open>try\<close>, or gets its guard.\<close>

definition serial_acquires :: "bool \<Rightarrow> bool \<Rightarrow> sthread \<Rightarrow> sthread \<Rightarrow> bool" where
  "serial_acquires b c th th' \<longleftrightarrow>
     reads th' = reads th \<and> writes th' = writes th \<and> (serial_acquiring b c (spc th') \<or> spc th' = SIdle \<and> b \<and> c) \<or>
     spc th' = SIdle \<and> writes th' = writes th + of_bool b \<and> length (reads th') = length (reads th) + of_bool (\<not> b)"

lemma owner_step_thread:
  "(\<And>ow. serial_acquiring b c (k ow)) \<Longrightarrow> serial_acquiring b c (spc (thr s i)) \<Longrightarrow>
   threads (owner_step s i k) = threads s \<and> serial_acquires b c (thr s i) (thr (owner_step s i k) i)"
  by (auto simp: owner_step_def serial_acquires_def split: prod.splits option.splits)

lemma serial_step_acquires:
  assumes "thread_step s i w p = Some t" "serial_acquiring b c p" "spc (thr s i) = p"
  shows "threads t = threads s \<and> serial_acquires b c (thr s i) (thr t i)"
proof (cases p)
  case (SOwner rd)
  with assms owner_step_thread[of b c "SFast rd" s i] show ?thesis by auto
next
  case STryOwner
  with assms owner_step_thread[of b c STry s i] show ?thesis by auto
next
  case (SLoad rd ow bo q)
  with assms show ?thesis
    by (auto simp: serial_acquires_def split: slow_choice.splits)
qed (use assms in \<open>auto simp: serial_acquires_def acquired_def futex_wait_def split: if_split_asm\<close>)

lemma serial_own_calling:
  assumes st: "thread_step s i w (spc (thr s i)) = Some t" and c: "serial_calling b c s i"
  shows "serial_calling b c t i"
proof -
  have n: "spc (thr s i) \<noteq> SIdle" using st by auto
  then have a: "serial_acquiring b c (spc (thr s i))" "writes (thr s i) = 0" "reads (thr s i) = []" "i < threads s"
    using c by (auto simp: serial_calling_def serial_holds_def)
  have m: "threads t = threads s" "serial_acquires b c (thr s i) (thr t i)" using serial_step_acquires[OF st a(1) refl] by simp_all
  from m(2) have "(serial_acquiring b c (spc (thr t i)) \<or> spc (thr t i) = SIdle \<and> b \<and> c) \<and> writes (thr t i) = 0 \<and> reads (thr t i) = [] \<or>
      spc (thr t i) = SIdle \<and> writes (thr t i) = of_bool b \<and> length (reads (thr t i)) = of_bool (\<not> b)"
    unfolding serial_acquires_def a(2,3) list.size add_0 by blast
  with a(4) m(1) show ?thesis unfolding serial_calling_def serial_holds_def by metis
qed

lemma serial_own_free:
  assumes "thread_step s i w (spc (thr s i)) = Some t" "serial_free s i"
  shows "serial_free t i"
  using assms by (cases "spc (thr s i)") (auto simp: serial_free_def split: if_split_asm prod.split_asm)

lemma serial_steps_keep:
  assumes "threads t = threads s" "thr t i = thr s i"
  shows "(serial_free s i \<longrightarrow> serial_free t i) \<and> (serial_calling b c s i \<longrightarrow> serial_calling b c t i) \<and> (serial_holds b s i \<longrightarrow> serial_holds b t i)"
  unfolding serial_free_def serial_calling_def serial_holds_def assms by blast

lemma serial_inner_situation:
  assumes "lk_inner serial_lock a" "serial_step a s = Some t"
  shows "(serial_free s i \<longrightarrow> serial_free t i) \<and> (serial_calling b c s i \<longrightarrow> serial_calling b c t i) \<and> (serial_holds b s i \<longrightarrow> serial_holds b t i)"
proof -
  consider j w where "a = SStep j w" | j where "a = SSpurious j" using assms(1) by (auto simp: serial_lock_def split: sact.splits)
  then show ?thesis
  proof cases
    case (1 j w)
    then have st: "thread_step s j w (spc (thr s j)) = Some t" using assms(2) by (auto simp: serial_step_def Let_def split: if_splits)
    show ?thesis
    proof (cases "i = j")
      case True
      have "\<not> serial_holds b s i" using st True by (auto simp: serial_holds_def)
      with True serial_own_free[of s i w t] serial_own_calling[of s i w t b c] st show ?thesis by blast
    next
      case False
      with thread_step_other[OF st] show ?thesis by (intro serial_steps_keep) auto
    qed
  next
    case 2
    with serial_spurious_keep[of j s t] assms(2) show ?thesis by (intro serial_steps_keep) auto
  qed
qed

text \<open>Operations keep their guards: every read guard carries the identity of the thread that has it.\<close>

definition own_tokens :: "serial_sys \<Rightarrow> bool" where
  "own_tokens s \<longleftrightarrow> (\<forall>i < threads s. \<forall>t \<in> set (reads (thr s i)). cell (thr s i) \<noteq> 0 \<and> t = token (cell (thr s i)))"

definition serial_client_inv :: "serial_sys \<Rightarrow> bool" where
  "serial_client_inv s \<longleftrightarrow> serial_inv s \<and> own_tokens s"

lemma own_tokens_upd:
  assumes "own_tokens s" "threads t = threads s" "\<And>i. i \<noteq> j \<Longrightarrow> thr t i = thr s i"
    "cell (thr s j) \<noteq> 0 \<Longrightarrow> cell (thr t j) = cell (thr s j)"
    "\<And>u. u \<in> set (reads (thr t j)) \<Longrightarrow> u \<in> set (reads (thr s j)) \<or> cell (thr t j) \<noteq> 0 \<and> u = token (cell (thr t j))"
  shows "own_tokens t"
  unfolding own_tokens_def assms(2)
proof (intro allI impI ballI)
  fix i u assume "i < threads s" "u \<in> set (reads (thr t i))"
  then show "cell (thr t i) \<noteq> 0 \<and> u = token (cell (thr t i))"
    using assms(1,3-5) unfolding own_tokens_def by (cases "i = j") fastforce+
qed

lemma own_tokens_thread:
  assumes "serial_inv s" "own_tokens s" "j < threads s" "thread_step s j w (spc (thr s j)) = Some t"
  shows "own_tokens t"
proof (rule own_tokens_upd[OF assms(2), of t j])
  have ok: "pc_ok (cell (thr s j)) (spc (thr s j))" using assms(1,3) by (simp add: serial_inv_def)
  show "threads t = threads s" "\<And>i. i \<noteq> j \<Longrightarrow> thr t i = thr s i" using thread_step_other[OF assms(4)] by auto
  show "cell (thr s j) \<noteq> 0 \<Longrightarrow> cell (thr t j) = cell (thr s j)"
    using assms(4) by (cases "spc (thr s j)")
      (auto simp: owner_step_def thread_owner_def acquired_def futex_wait_def split: if_split_asm prod.split_asm option.split_asm)
  show "u \<in> set (reads (thr s j)) \<or> cell (thr t j) \<noteq> 0 \<and> u = token (cell (thr t j))" if "u \<in> set (reads (thr t j))" for u
    using assms(4) ok that by (cases "spc (thr s j)")
      (auto simp: owner_step_def acquired_def futex_wait_def split: if_split_asm prod.split_asm option.split_asm)
qed

lemma own_tokens_step:
  assumes "serial_inv s" "own_tokens s" "serial_step a s = Some t"
    "a = lk_call serial_lock w tr j \<or> a = lk_drop serial_lock w j l \<or> lk_inner serial_lock a"
  shows "own_tokens t"
proof (cases "lk_inner serial_lock a")
  case True
  then consider k v where "a = SStep k v" | k where "a = SSpurious k" by (auto simp: serial_lock_def split: sact.splits)
  then show ?thesis
  proof cases
    case (1 k v)
    then show ?thesis using own_tokens_thread[OF assms(1,2), of k v t] assms(3) by (auto simp: serial_step_def Let_def split: if_splits)
  next
    case (2 k)
    then show ?thesis using assms(2) serial_spurious_keep[of k s t] assms(3) by (simp add: own_tokens_def)
  qed
next
  case False
  then have a: "a = CallRead j \<or> a = CallWrite j \<or> a = CallTry j \<or> a = DropWrite j \<or> (\<exists>u. a = DropRead j u)"
    using assms(4) by (auto simp: serial_lock_def split: if_splits)
  show ?thesis
  proof (rule own_tokens_upd[OF assms(2), of t j])
    show "threads t = threads s" using a assms(3)
      by (auto simp: serial_step_def Let_def drop_read_def drop_write_def split: if_splits)
    show "thr t i = thr s i" if "i \<noteq> j" for i using serial_call_keep[OF assms(3) a that] by simp
    show "cell (thr s j) \<noteq> 0 \<Longrightarrow> cell (thr t j) = cell (thr s j)" using a assms(3)
      by (auto simp: serial_step_def Let_def drop_read_def drop_write_def split: if_splits)
    show "u \<in> set (reads (thr s j)) \<or> cell (thr t j) \<noteq> 0 \<and> u = token (cell (thr t j))" if "u \<in> set (reads (thr t j))" for u
      using that a assms(3)
      by (auto simp: serial_step_def Let_def drop_read_def drop_write_def split: if_splits dest: in_set_remove1[THEN iffD1, rotated] notin_set_remove1)
  qed
qed

lemma valid_owner_eq: "valid_owner a \<Longrightarrow> valid_owner b \<Longrightarrow> sm_own a = sm_own b \<Longrightarrow> a = b"
  using bits_ident[of 32 a] bits_ident[of 32 b] by (simp add: valid_owner_def sm_own_def)

text \<open>A guard of either kind is alone: readers of different threads exclude each other.\<close>

lemma serial_readers_alone:
  assumes "serial_client_inv s" "i < threads s" "j < threads s" "reads (thr s i) \<noteq> []" "reads (thr s j) \<noteq> []"
  shows "i = j"
proof -
  have g: "guards_ok (threads s) (sm_state (mtx s)) (thr s)" and o: "owners_ok (threads s) (nxt s) (dead s) (thr s)" and k: "own_tokens s"
    using assms(1) by (simp_all add: serial_client_inv_def serial_inv_def)
  have own: "cell (thr s m) \<noteq> 0 \<and> valid_owner (cell (thr s m)) \<and> sm_own (sm_state (mtx s)) = sm_own (cell (thr s m))"
    if m: "m < threads s" "reads (thr s m) \<noteq> []" for m
  proof -
    obtain u where u: "u \<in> set (reads (thr s m))" using m(2) by (meson last_in_set)
    then have c: "cell (thr s m) \<noteq> 0" "u = token (cell (thr s m))" using k m(1) by (auto simp: own_tokens_def)
    then have v: "valid_owner (cell (thr s m))" using o m(1) by (simp add: owners_ok_def)
    have "u \<in> set (read_tokens (thr s m))" using u by (simp add: read_tokens_def)
    then have "sm_own (sm_state (mtx s)) = ucast u" using g m(1) by (simp add: guards_ok_def)
    with c v ucast_token[OF v] show ?thesis by simp
  qed
  have "sm_own (cell (thr s i)) = sm_own (cell (thr s j))" using own[OF assms(2,4)] own[OF assms(3,5)] by simp
  then have "cell (thr s i) = cell (thr s j)"
    using own[OF assms(2,4)] own[OF assms(3,5)] by (metis valid_owner_eq)
  then show ?thesis using o own[OF assms(2,4)] assms(2,3) unfolding owners_ok_def by blast
qed

lemma serial_holds_alone:
  assumes "serial_client_inv s" "serial_holds w s i" "j \<noteq> i"
  shows "\<not> serial_holds b s j"
proof
  assume j: "serial_holds b s j"
  have inv: "serial_inv s" using assms(1) by (simp add: serial_client_inv_def)
  show False
  proof (cases "w \<or> b")
    case True
    with write_guard_alone[OF inv, of i j] write_guard_alone[OF inv, of j i] assms(2,3) j show False
      by (auto simp: serial_holds_def split: if_splits)
  next
    case False
    with serial_readers_alone[OF assms(1), of i j] assms(2,3) j show False by (cases "reads (thr s i)"; cases "reads (thr s j)") (auto simp: serial_holds_def)
  qed
qed

interpretation atomic: value_lock serial_lock "serial_init n p" "\<lambda>_. True" serial_client_inv serial_free serial_calling serial_holds "\<lambda>_. True"
  for n p
proof
  show "serial_client_inv (serial_init n p)" using serial_inv_init by (simp add: serial_client_inv_def own_tokens_def serial_init_def)
  show "serial_free (serial_init n p) i" for i by (simp add: serial_free_def serial_init_def)
  show "serial_client_inv l'" if "a = lk_call serial_lock w t j \<or> a = lk_drop serial_lock w j l \<or> lk_inner serial_lock a"
    "serial_client_inv l" "lk_step serial_lock a l = Some l'" for a w t j l l'
    using serial_inv_step[of l a l'] own_tokens_step[of l a l' w t j l] that by (simp add: serial_client_inv_def serial_lock_def)
  show "(serial_free l i \<longrightarrow> serial_free l' i) \<and> (serial_calling b c l i \<longrightarrow> serial_calling b c l' i) \<and> (serial_holds b l i \<longrightarrow> serial_holds b l' i)"
    if "lk_inner serial_lock a" "lk_step serial_lock a l = Some l'" for a l l' i b c
    using serial_inner_situation[OF that(1)] that(2) by (simp add: serial_lock_def)
  show "(serial_free l i \<longrightarrow> serial_free l' i) \<and> (serial_calling b c l i \<longrightarrow> serial_calling b c l' i) \<and> (serial_holds b l i \<longrightarrow> serial_holds b l' i)"
    if "a = lk_call serial_lock w t j \<or> a = lk_drop serial_lock w j l" "lk_step serial_lock a l = Some l'" "i \<noteq> j" for a w t j l l' i b c
    using serial_call_keep[of a l l' j i] that by (intro serial_steps_keep) (auto simp: serial_lock_def)
  show "serial_calling w t l' i" if "serial_free l i" "lk_step serial_lock (lk_call serial_lock w t i) l = Some l'" for w t l l' i
    using that by (auto simp: serial_lock_def serial_step_def Let_def serial_free_def serial_calling_def split: if_splits)
  show "if t \<and> \<not> lk_got serial_lock l i then serial_free l i else serial_holds w l i"
    if "serial_calling w t l i" "lk_idle serial_lock l i" for w t l i
    using that by (auto simp: serial_calling_def serial_holds_def serial_free_def serial_lock_def)
  show "serial_free l' i" if "serial_holds w l i" "lk_step serial_lock (lk_drop serial_lock w i l) l = Some l'" for w l l' i
    using that by (cases w) (auto simp: serial_lock_def serial_step_def Let_def drop_read_def drop_write_def serial_free_def serial_holds_def
        length_Suc_conv split: if_splits)
  show "\<not> serial_holds b l j" if "serial_client_inv l" "serial_holds w l i" "j \<noteq> i" for l w i j b
    using serial_holds_alone[OF that] .
qed simp

lemma atomic_safe: "atomic.safe_ops s"
  by (simp add: atomic.safe_ops_def atomic.safe_op_def)

section \<open>Properties\<close>

text \<open>
  C16: the operations of \<open>Atomic\<close> are atomic. Under any interleaving of any number of threads, at
  the granularity of single accesses to the lock word and with reading and writing the value
  as separate steps, the execution is equivalent to a sequential one: replaying the
  operations in the order in which they took effect, one at a time, gives the value in the cell
  and exactly the answers the threads were given, each thread's in its own order. This includes
  closures that change the value through \<open>&T\<close>. And a closure works under the guard it needs: inside \<open>with_mut\<close>, \<open>swap\<close>
  and the other exclusive operations a thread owns the write guard, inside \<open>with\<close> and \<open>load\<close> one read guard and no
  write guard; either way it sees the current value and no other thread is inside.
\<close>

theorem atomic_linearizable:
  assumes "reachable (guarded_step serial_lock) (atomic_new n p v0) s"
  shows "replay v0 (g_log s) = Some (g_val s) \<and>
    executed (answers i (g_log s)) = executed (g_ret s i @ in_flight (g_pc s i)) \<and>
    (\<forall>f v. g_pc s i = GMid (exclusive_op f) v \<longrightarrow>
       v = g_val s \<and> writes (thr (g_lock s) i) = 1 \<and> reads (thr (g_lock s) i) = [] \<and> (\<forall>j. j \<noteq> i \<longrightarrow> guard_of (g_pc s j) = None)) \<and>
    (\<forall>f v. g_pc s i = GMid (shared_op f) v \<longrightarrow>
       v = g_val s \<and> writes (thr (g_lock s) i) = 0 \<and> length (reads (thr (g_lock s) i)) = 1 \<and> (\<forall>j. j \<noteq> i \<longrightarrow> guard_of (g_pc s j) = None))"
proof -
  note R = assms[unfolded atomic_new_def]
  have L: "linear v0 s" "atomic.fresh s" using atomic.linearizable[OF R _ atomic_safe] by simp_all
  have H: "atomic.held s" by (rule atomic.client_held[OF R])
  have alone: "guard_of (g_pc s j) = None" if "guard_of (g_pc s i) = Some w" "j \<noteq> i" for j w
    using atomic.inside_alone[OF H _ that(1) _ that(2)] by simp
  have cur: "v = g_val s" if "g_pc s i = GMid op v" for op v using L(2) that by (auto simp: atomic.fresh_def)
  have g: "writes (thr (g_lock s) i) = of_bool w \<and> length (reads (thr (g_lock s) i)) = of_bool (\<not> w)" if "guard_of (g_pc s i) = Some w" for w
    using atomic.inside_holds[OF H that] by (simp add: serial_holds_def)
  have x: "guard_of (g_pc s i) = Some True" if "g_pc s i = GMid (exclusive_op f) v" for f v using that by (simp add: exclusive_op_def)
  have r: "guard_of (g_pc s i) = Some False" if "g_pc s i = GMid (shared_op f) v" for f v using that by (simp add: shared_op_def)
  have "v = g_val s \<and> writes (thr (g_lock s) i) = 1 \<and> reads (thr (g_lock s) i) = [] \<and> (\<forall>j. j \<noteq> i \<longrightarrow> guard_of (g_pc s j) = None)"
    if "g_pc s i = GMid (exclusive_op f) v" for f v using cur[OF that] g[OF x[OF that]] alone[OF x[OF that]] by simp
  moreover have "v = g_val s \<and> writes (thr (g_lock s) i) = 0 \<and> length (reads (thr (g_lock s) i)) = 1 \<and> (\<forall>j. j \<noteq> i \<longrightarrow> guard_of (g_pc s j) = None)"
    if "g_pc s i = GMid (shared_op f) v" for f v using cur[OF that] g[OF r[OF that]] alone[OF r[OF that]] by simp
  ultimately show ?thesis using L(1) unfolding linear_def by blast
qed

theorem atomic_linearizable_witness:
  "\<exists>s :: (serial_sys, u64, u64) guarded. reachable (guarded_step serial_lock) (atomic_new 2 4 5) s \<and> g_ret s 0 = [Ret 5] \<and>
     (\<exists>f. g_pc s 1 = GMid (exclusive_op f) 6) \<and> writes (thr (g_lock s) 1) = 1 \<and> g_val s = 6 \<and>
     replay 5 (g_log s) = Some (g_val s)"
proof -
  have "run_to (guarded_step serial_lock)
      ([GCall 0 (fetch_add u64_add 1), GCall 1 (fetch_add u64_add 1)] @ replicate 2 (GLock (SStep 0 False)) @ replicate 4 (GGo 0) @
       replicate 2 (GLock (SStep 1 False)) @ [GGo 0] @ replicate 2 (GGo 1)) (atomic_new 2 4 5)
      (\<lambda>s. g_ret s 0 = [Ret 5] \<and> (case g_pc s 1 of GMid op v \<Rightarrow> v = 6 \<and> op_excl op \<and> \<not> op_try op | _ \<Rightarrow> False))"
    by code_simp
  then obtain s :: "(serial_sys, u64, u64) guarded" where s: "reachable (guarded_step serial_lock) (atomic_new 2 4 5) s" "g_ret s 0 = [Ret 5]"
    "case g_pc s 1 of GMid op v \<Rightarrow> v = 6 \<and> op_excl op \<and> \<not> op_try op | _ \<Rightarrow> False" by (auto dest: run_toD)
  obtain op where op: "g_pc s 1 = GMid op 6" "op_excl op" "\<not> op_try op" using s(3) by (auto split: gpc.splits)
  then have x: "g_pc s 1 = GMid (exclusive_op (op_body op)) 6" by (cases op) (simp add: exclusive_op_def)
  from atomic_linearizable[OF s(1), of 1] x have "g_val s = 6" "writes (thr (g_lock s) 1) = 1" "replay 5 (g_log s) = Some (g_val s)" by auto
  with s(1,2) x show ?thesis by blast
qed

definition ticket :: "u64 \<Rightarrow> nat \<Rightarrow> u64 outcome" where
  "ticket v k = (if unat v + k < 2 ^ 64 - 1 then Ret (of_nat (unat v + k)) else Unwind)"

lemma fetch_add_one:
  "op_body (fetch_add u64_add 1) v = (if unat v < 2 ^ 64 - 1 then (v + 1, Ret v) else (v, Unwind))"
  by (simp add: fetch_add_def fetch_op_def exclusive_op_def u64_add_def checked_add_def)

lemma ticket_simps:
  "unat v < 2 ^ 64 - 1 \<Longrightarrow> ticket v 0 = Ret v" "unat v < 2 ^ 64 - 1 \<Longrightarrow> ticket (v + 1) k = ticket v (Suc k)"
  "\<not> unat v < 2 ^ 64 - 1 \<Longrightarrow> ticket v k = Unwind"
  by (simp_all add: ticket_def unat_word_ariths)

lemma all_Suc: "(\<forall>k < length (x # xs). P k) \<longleftrightarrow> P 0 \<and> (\<forall>k < length xs. P (Suc k))"
  by (auto simp: less_Suc_eq_0_disj)

lemma replay_tickets:
  assumes "replay v log = Some w" "\<forall>x \<in> set log. fst (snd x) = fetch_add u64_add 1"
  shows "unat w = min (unat v + length log) (2 ^ 64 - 1) \<and> (\<forall>k < length log. snd (snd (log ! k)) = ticket v k)"
  using assms
proof (induction log arbitrary: v)
  case Nil
  then show ?case using unsigned_less[of w, where ?'a = nat] by simp
next
  case (Cons x log)
  obtain i op r where x: "x = (i, op, r)" by (cases x) auto
  have op: "op = fetch_add u64_add 1" using Cons(3) x by simp
  have all: "\<forall>x \<in> set log. fst (snd x) = fetch_add u64_add 1" using Cons(3) by simp
  show ?case
  proof (cases "unat v < 2 ^ 64 - 1")
    case True
    with Cons(2) have r: "r = Ret v" and rest: "replay (v + 1) log = Some w" by (auto simp: x op fetch_add_one split: if_splits)
    have "unat (v + 1) = unat v + 1" using True by (simp add: unat_word_ariths)
    with Cons.IH[OF rest all] show ?thesis unfolding all_Suc using r ticket_simps(1,2)[OF True] by (simp add: x)
  next
    case False
    with Cons(2) have r: "r = Unwind" and rest: "replay v log = Some w" by (auto simp: x op fetch_add_one split: if_splits)
    with Cons.IH[OF rest all] False show ?thesis unfolding all_Suc using r ticket_simps(3)[OF False] by (simp add: x)
  qed
qed

text \<open>
  No increment is lost. When threads only call \<open>fetch_add(1)\<close> on a \<open>u64\<close> (with overflow checks), the
  value is the start value plus the number of calls that took effect, the answers are the
  consecutive numbers from the start value on, none given twice, and at the maximum every further
  call panics and leaves the value alone.
\<close>

theorem atomic_counter:
  assumes "run (guarded_step serial_lock) as (atomic_new n p v0) = Some s" "\<And>i op. GCall i op \<in> set as \<Longrightarrow> op = fetch_add u64_add 1"
  shows "unat (g_val s) = min (unat v0 + length (g_log s)) (2 ^ 64 - 1) \<and>
    (\<forall>k < length (g_log s). snd (snd (g_log s ! k)) = ticket v0 k)"
proof -
  have "only_ops {fetch_add u64_add 1} s"
    by (rule only_ops_run[OF assms(1)]) (use assms(2) in \<open>auto simp: atomic_new_def only_ops_new\<close>)
  then have "\<forall>x \<in> set (g_log s). fst (snd x) = fetch_add u64_add 1" by (simp add: only_ops_def)
  then show ?thesis
    using replay_tickets[of v0 "g_log s" "g_val s"] atomic.linearizable(1)[OF reachable_run[OF assms(1)[unfolded atomic_new_def]] _ atomic_safe]
    by (simp add: linear_def)
qed

theorem atomic_counter_witness:
  "\<exists>s :: (serial_sys, u64, u64) guarded. reachable (guarded_step serial_lock) (atomic_new 1 4 0xFFFFFFFFFFFFFFFF) s \<and> length (g_log s) = 1 \<and>
     unat (g_val s) = 2 ^ 64 - 1 \<and> snd (snd (g_log s ! 0)) = Unwind"
proof -
  let ?as = "[GCall 0 (fetch_add u64_add 1)] @ replicate 2 (GLock (SStep 0 False)) @ replicate 3 (GGo 0)"
  have "run_to (guarded_step serial_lock) ?as (atomic_new 1 4 0xFFFFFFFFFFFFFFFF) (\<lambda>s. length (g_log s) = 1)" by code_simp
  then obtain s where s: "run (guarded_step serial_lock) ?as (atomic_new 1 4 (0xFFFFFFFFFFFFFFFF::u64)) = Some s" "length (g_log s) = 1"
    "reachable (guarded_step serial_lock) (atomic_new 1 4 0xFFFFFFFFFFFFFFFF) s" by (auto dest: run_toD)
  have "op = fetch_add u64_add 1" if "GCall i op \<in> set ?as" for i op using that by auto
  then have "unat (g_val s) = 2 ^ 64 - 1 \<and> snd (snd (g_log s ! 0)) = Unwind"
    using atomic_counter[OF s(1)] s(2) by (simp add: ticket_def)
  with s(2,3) show ?thesis by blast
qed

end
