(* ===== verification/Cell.thy ===== *)
theory Cell
  imports Atomic RefCount
begin

text \<open>
  \<open>AtomicCell\<close> of \<open>src/atomic/cell.rs\<close>: a value behind a \<open>SerialMutex\<close>, shared through counted handles. A
  guard that \<open>get\<close>, \<open>get_mut\<close> or a failed \<open>compare_exchange\<close> hands to the caller is held until the caller
  drops it: the operation carries what the caller does with it, through \<open>&T\<close> as well.
\<close>

definition cell_new :: "nat \<Rightarrow> nat \<Rightarrow> 'v \<Rightarrow> (serial_sys, 'v, 'r) guarded" where
  "cell_new n p v = guarded_new (serial_init n p) v"

definition cell_get :: "('v \<Rightarrow> 'v \<times> 'r outcome) \<Rightarrow> ('v, 'r) gop" where
  "cell_get f = shared_op f"

definition cell_with :: "('v \<Rightarrow> 'v \<times> 'r outcome) \<Rightarrow> ('v, 'r) gop" where
  "cell_with f = cell_get f"

definition cell_get_mut :: "('v \<Rightarrow> 'v \<times> 'r outcome) \<Rightarrow> ('v, 'r) gop" where
  "cell_get_mut f = exclusive_op f"

definition cell_with_mut :: "('v \<Rightarrow> 'v \<times> 'r outcome) \<Rightarrow> ('v, 'r) gop" where
  "cell_with_mut f = cell_get_mut f"

definition cell_update :: "('v \<Rightarrow> 'v \<times> unit outcome) \<Rightarrow> ('v, unit) gop" where
  "cell_update f = cell_get_mut f"

definition cell_swap :: "'v \<Rightarrow> ('v, 'v) gop" where
  "cell_swap val = cell_get_mut (\<lambda>v. (val, Ret v))"

definition cell_store :: "'v \<Rightarrow> ('v, unit) gop" where
  "cell_store val = op_map (\<lambda>_. ()) (cell_swap val)"

definition cell_compare_exchange :: "'v \<Rightarrow> 'v \<Rightarrow> ('v \<Rightarrow> 'v \<times> 'r outcome) \<Rightarrow> ('v, 'v + 'r) gop" where
  "cell_compare_exchange current new on_guard =
     cell_get_mut (\<lambda>v. if v = current then (new, Ret (Inl v))
                       else (case on_guard v of (v', r) \<Rightarrow> (v', map_outcome Inr r)))"

text \<open>\<open>into_inner\<close>: \<open>None\<close> is the panic when other handles exist.\<close>

definition cell_into_inner :: "usize \<Rightarrow> 'v \<Rightarrow> 'v option" where
  "cell_into_inner ref_count v = (if ref_count = 1 then Some v else None)"

section \<open>Properties\<close>

text \<open>
  C38: consuming an \<open>AtomicCell\<close> is safe. Whatever the threads did before, with the value and with the
  handles, \<open>into_inner\<close> by a thread that has a handle returns exactly when this is the only handle left
  (none cloned to anybody, none forgotten, fewer than \<open>2^63\<close> threads), and then it returns the value
  that replaying all operations in the order of their effects gives; otherwise it panics.
\<close>

theorem cell_into_inner_sole:
  assumes "reachable rc_step (rc_init n) r" "0 < n" "n < 2 ^ 63" "i < n" "rc_pc r i = Using" "0 < handles r i"
    and "reachable (guarded_step serial_lock) (cell_new m p v0) s"
  shows "(cell_into_inner (rc_count r) (g_val s) \<noteq> None \<longleftrightarrow>
       handles r i = 1 \<and> (\<forall>j < n. j \<noteq> i \<longrightarrow> handles r j = 0) \<and> forgotten r = 0 \<and> (\<forall>j < n. rc_pc r j \<noteq> Aborting)) \<and>
    (\<forall>v. cell_into_inner (rc_count r) (g_val s) = Some v \<longrightarrow> replay v0 (g_log s) = Some v)"
proof -
  have inv: "rc_inv r" "rc_threads r = n" using refcount.always[OF assms(1)] assms(2) by auto
  then have c: "unat (rc_count r) = rc_total r + pending_in Aborting r" using assms(3) by (simp add: rc_inv_def)
  define others where "others = (\<Sum>j \<in> {..<n} - {i}. handles r j)"
  have split: "rc_total r = handles r i + others + forgotten r"
    using assms(4) inv(2) by (simp add: rc_total_def others_def sum.remove[of "{..<n}" i])
  have one: "rc_count r = 1 \<longleftrightarrow> handles r i = 1 \<and> others = 0 \<and> forgotten r = 0 \<and> pending_in Aborting r = 0"
    using c split assms(6) by (auto simp: word_unat_eq_iff)
  have rest: "others = 0 \<longleftrightarrow> (\<forall>j < n. j \<noteq> i \<longrightarrow> handles r j = 0)" by (auto simp: others_def)
  have abort: "pending_in Aborting r = 0 \<longleftrightarrow> (\<forall>j < n. rc_pc r j \<noteq> Aborting)" using inv(2) by (auto simp: pending_in_def)
  have "replay v0 (g_log s) = Some (g_val s)"
    using atomic.linearizable(1)[OF assms(7)[unfolded cell_new_def] _ atomic_safe] by (simp add: linear_def)
  then show ?thesis using one rest abort by (auto simp: cell_into_inner_def split: if_splits)
qed

theorem cell_into_inner_sole_witness:
  "\<exists>(r :: rc_sys) (s :: (serial_sys, nat, nat) guarded). reachable rc_step (rc_init 2) r \<and> reachable (guarded_step serial_lock) (cell_new 2 4 5) s \<and>
     handles r 1 = 1 \<and> cell_into_inner (rc_count r) (g_val s) = Some 9 \<and> replay 5 (g_log s) = Some 9"
proof -
  have "run_to rc_step [RcClone 0, RcSend 0 1, RcDrop 0] (rc_init 2) (\<lambda>r. rc_pc r 1 = Using \<and> handles r 1 = 1 \<and> rc_count r = 1)" by code_simp
  then obtain r where r: "reachable rc_step (rc_init 2) r" "rc_pc r 1 = Using" "handles r 1 = 1" "rc_count r = 1" by (auto dest: run_toD)
  have "run_to (guarded_step serial_lock) ([GCall 1 (cell_swap 9)] @ replicate 2 (GLock (SStep 1 False)) @ replicate 3 (GGo 1))
      (cell_new 2 4 (5::nat)) (\<lambda>s. g_val s = 9)" by code_simp
  then obtain s :: "(serial_sys, nat, nat) guarded" where s: "reachable (guarded_step serial_lock) (cell_new 2 4 5) s" "g_val s = 9" by (auto dest: run_toD)
  have c: "cell_into_inner (rc_count r) (g_val s) = Some 9" using r s by (simp add: cell_into_inner_def)
  have "replay 5 (g_log s) = Some 9" using cell_into_inner_sole[OF r(1) _ _ _ r(2) _ s(1)] r(3) c by simp
  with r s c show ?thesis by blast
qed

end
