(* ===== verification/SpinCell.thy ===== *)
theory SpinCell
  imports RawMutex_Safety
begin

text \<open>
  \<open>SpinCell\<close> of \<open>src/lock_free/splcell.rs\<close>, a spinning reader/writer lock with the state word of
  \<open>RawMutex\<close> (same constants, same \<open>is_writer_locked\<close> and \<open>readers_count\<close>). One step per atomic
  access; a step carries two choices of the environment, whether a weak exchange fails
  spuriously and whether the backoff of the reader has run out. Guards may be passed to
  other threads.
\<close>

datatype spc =
    SpIdle
  | XLoad | XLoop usize
  | SFast usize | SLoad | SLoop usize | SSpin
  | UCas

record sp_thread =
  sp_pc :: spc
  sp_x :: nat       \<comment> \<open>exclusive guards\<close>
  sp_s :: nat       \<comment> \<open>shared guards\<close>

record spin_sys =
  spin_word :: usize
  sp_threads :: nat
  sp_thr :: "tid \<Rightarrow> sp_thread"
  sp_taken :: nat   \<comment> \<open>ghost: shared acquisitions so far\<close>

datatype sp_act =
    SpLockX tid | SpLockS tid | SpUnlockX tid | SpUnlockS tid | SpSendX tid tid | SpSendS tid tid | SpStep tid bool bool

definition spin_new :: "nat \<Rightarrow> spin_sys" where
  "spin_new n = \<lparr>spin_word = UNLOCKED, sp_threads = n, sp_thr = (\<lambda>_. \<lparr>sp_pc = SpIdle, sp_x = 0, sp_s = 0\<rparr>), sp_taken = 0\<rparr>"

abbreviation (input) sp_set :: "spin_sys \<Rightarrow> tid \<Rightarrow> sp_thread \<Rightarrow> spin_sys" where
  "sp_set s i th \<equiv> s\<lparr>sp_thr := (sp_thr s)(i := th)\<rparr>"

abbreviation (input) sp_go :: "spin_sys \<Rightarrow> tid \<Rightarrow> spc \<Rightarrow> spin_sys" where
  "sp_go s i p \<equiv> sp_set s i ((sp_thr s i)\<lparr>sp_pc := p\<rparr>)"

text \<open>A thread leaves with an exclusive, respectively a shared guard.\<close>

definition got_x :: "spin_sys \<Rightarrow> tid \<Rightarrow> usize \<Rightarrow> spin_sys" where
  "got_x s i w = (sp_set s i ((sp_thr s i)\<lparr>sp_pc := SpIdle, sp_x := sp_x (sp_thr s i) + 1\<rparr>))\<lparr>spin_word := w\<rparr>"

definition got_s :: "spin_sys \<Rightarrow> tid \<Rightarrow> usize \<Rightarrow> spin_sys" where
  "got_s s i w =
     (sp_set s i ((sp_thr s i)\<lparr>sp_pc := SpIdle, sp_s := sp_s (sp_thr s i) + 1\<rparr>))
       \<lparr>spin_word := w, sp_taken := sp_taken s + 1\<rparr>"

definition spin_lock_exclusive :: "spin_sys \<Rightarrow> tid \<Rightarrow> spin_sys" where
  "spin_lock_exclusive s i = (if spin_word s = UNLOCKED then got_x s i ONE_WRITER else sp_go s i XLoad)"

fun spin_exclusive_slow :: "spin_sys \<Rightarrow> tid \<Rightarrow> bool \<Rightarrow> spc \<Rightarrow> spin_sys option" where
  "spin_exclusive_slow s i weak XLoad = Some (sp_go s i (XLoop (spin_word s)))"
| "spin_exclusive_slow s i weak (XLoop st) =
     Some (if st AND ONE_WRITER = 0 then
             (if spin_word s = st \<and> \<not> weak then got_x s i (st OR ONE_WRITER) else sp_go s i (XLoop (spin_word s)))
           else if st AND WRITERS_PARKED = 0 then
             (if spin_word s = st \<and> \<not> weak then (sp_go s i XLoad)\<lparr>spin_word := st OR WRITERS_PARKED\<rparr>
              else sp_go s i (XLoop (spin_word s)))
           else sp_go s i XLoad)"
| "spin_exclusive_slow s i weak _ = None"

definition spin_lock_shared :: "spin_sys \<Rightarrow> tid \<Rightarrow> spin_sys" where
  "spin_lock_shared s i = sp_go s i (SFast (spin_word s))"

fun spin_shared_slow :: "spin_sys \<Rightarrow> tid \<Rightarrow> bool \<Rightarrow> bool \<Rightarrow> spc \<Rightarrow> spin_sys option" where
  "spin_shared_slow s i weak patience (SFast st) =
     Some (case checked_add st ONE_READER of
             None \<Rightarrow> sp_go s i SLoad
           | Some new_state \<Rightarrow>
               if new_state AND ONE_WRITER \<noteq> ONE_WRITER \<and> st AND WRITERS_PARKED = 0 \<and> spin_word s = st
               then got_s s i new_state else sp_go s i SLoad)"
| "spin_shared_slow s i weak patience SLoad = Some (sp_go s i (SLoop (spin_word s)))"
| "spin_shared_slow s i weak patience (SLoop st) =
     Some (if \<not> is_writer_locked st \<and> st AND WRITERS_PARKED = 0 then
             (case checked_add st ONE_READER of
                None \<Rightarrow> sp_go s i SLoad
              | Some new_state \<Rightarrow> if spin_word s = st \<and> \<not> weak then got_s s i new_state else sp_go s i SLoad)
           else if patience then sp_go s i SLoad
           else if st AND READERS_PARKED = 0 then
             (if spin_word s = st \<and> \<not> weak then (sp_go s i SSpin)\<lparr>spin_word := st OR READERS_PARKED\<rparr> else sp_go s i SLoad)
           else sp_go s i SSpin)"
| "spin_shared_slow s i weak patience SSpin = Some (if is_writer_locked (spin_word s) then s else sp_go s i SLoad)"
| "spin_shared_slow s i weak patience _ = None"

definition spin_unlock_exclusive :: "spin_sys \<Rightarrow> tid \<Rightarrow> spin_sys" where
  "spin_unlock_exclusive s i =
     (sp_set s i ((sp_thr s i)\<lparr>sp_x := sp_x (sp_thr s i) - 1\<rparr>))\<lparr>spin_word := UNLOCKED\<rparr>"

definition spin_unlock_shared :: "spin_sys \<Rightarrow> tid \<Rightarrow> spin_sys" where
  "spin_unlock_shared s i =
     (sp_set s i ((sp_thr s i)\<lparr>sp_s := sp_s (sp_thr s i) - 1,
         sp_pc := if spin_word s = ONE_READER OR WRITERS_PARKED then UCas else SpIdle\<rparr>))
       \<lparr>spin_word := spin_word s - ONE_READER\<rparr>"

definition spin_unlock_cas :: "spin_sys \<Rightarrow> tid \<Rightarrow> spin_sys" where
  "spin_unlock_cas s i =
     (sp_go s i SpIdle)\<lparr>spin_word := if spin_word s = WRITERS_PARKED then UNLOCKED else spin_word s\<rparr>"

text \<open>\<open>unlock_all_shared\<close> on the word it exchanges; \<open>None\<close> when there is no reader.\<close>

definition spin_unlock_all_shared :: "usize \<Rightarrow> usize option" where
  "spin_unlock_all_shared st =
     (let count = readers_count st in
      if count = 0 then None
      else let new_state = st AND NOT (ONE_READER * count)
           in Some (if st AND WRITERS_PARKED \<noteq> 0 then new_state OR WRITERS_PARKED else new_state))"

definition spin_step :: "sp_act \<Rightarrow> spin_sys \<Rightarrow> spin_sys option" where
  "spin_step a s =
     (let idle = (\<lambda>i. i < sp_threads s \<and> sp_pc (sp_thr s i) = SpIdle) in
      case a of
        SpLockX i \<Rightarrow> if idle i then Some (spin_lock_exclusive s i) else None
      | SpLockS i \<Rightarrow> if idle i then Some (spin_lock_shared s i) else None
      | SpUnlockX i \<Rightarrow> if idle i \<and> 0 < sp_x (sp_thr s i) then Some (spin_unlock_exclusive s i) else None
      | SpUnlockS i \<Rightarrow> if idle i \<and> 0 < sp_s (sp_thr s i) then Some (spin_unlock_shared s i) else None
      | SpSendX i j \<Rightarrow>
          if idle i \<and> j < sp_threads s \<and> i \<noteq> j \<and> 0 < sp_x (sp_thr s i) then
            Some (s\<lparr>sp_thr := (sp_thr s)(i := (sp_thr s i)\<lparr>sp_x := sp_x (sp_thr s i) - 1\<rparr>,
                                          j := (sp_thr s j)\<lparr>sp_x := sp_x (sp_thr s j) + 1\<rparr>)\<rparr>) else None
      | SpSendS i j \<Rightarrow>
          if idle i \<and> j < sp_threads s \<and> i \<noteq> j \<and> 0 < sp_s (sp_thr s i) then
            Some (s\<lparr>sp_thr := (sp_thr s)(i := (sp_thr s i)\<lparr>sp_s := sp_s (sp_thr s i) - 1\<rparr>,
                                          j := (sp_thr s j)\<lparr>sp_s := sp_s (sp_thr s j) + 1\<rparr>)\<rparr>) else None
      | SpStep i weak patience \<Rightarrow>
          if i < sp_threads s then
            (if sp_pc (sp_thr s i) = UCas then Some (spin_unlock_cas s i)
             else case spin_exclusive_slow s i weak (sp_pc (sp_thr s i)) of
                    Some t \<Rightarrow> Some t
                  | None \<Rightarrow> spin_shared_slow s i weak patience (sp_pc (sp_thr s i)))
          else None)"

section \<open>The invariant\<close>

definition sp_total_x :: "spin_sys \<Rightarrow> nat" where
  "sp_total_x s = (\<Sum>i < sp_threads s. sp_x (sp_thr s i))"

definition sp_total_s :: "spin_sys \<Rightarrow> nat" where
  "sp_total_s s = (\<Sum>i < sp_threads s. sp_s (sp_thr s i))"

definition wants_x :: "spc \<Rightarrow> bool" where
  "wants_x p \<longleftrightarrow> (case p of XLoad \<Rightarrow> True | XLoop _ \<Rightarrow> True | _ \<Rightarrow> False)"

definition spin_inv :: "spin_sys \<Rightarrow> bool" where
  "spin_inv s \<longleftrightarrow> sp_total_s s \<le> sp_taken s \<and> (sp_taken s < WRITER_CNT \<longrightarrow>
     (if rcnt (spin_word s) = WRITER_CNT then sp_total_x s = 1 \<and> sp_total_s s = 0
      else sp_total_x s = 0 \<and> sp_total_s s = rcnt (spin_word s)) \<and>
     (wp (spin_word s) \<longrightarrow> 0 < sp_total_x s \<or> (\<exists>i < sp_threads s. wants_x (sp_pc (sp_thr s i)))))"

lemma sp_total_upd:
  assumes "i < sp_threads s" "sp_threads t = sp_threads s" "sp_thr t = (sp_thr s)(i := th)"
  shows "sp_total_x t + sp_x (sp_thr s i) = sp_total_x s + sp_x th" "sp_total_s t + sp_s (sp_thr s i) = sp_total_s s + sp_s th"
  unfolding sp_total_x_def sp_total_s_def assms(2,3)
  using sum_if_upd[OF assms(1), of "\<lambda>j. sp_x (((sp_thr s)(i := th)) j)" "\<lambda>j. sp_x (sp_thr s j)"]
    sum_if_upd[OF assms(1), of "\<lambda>j. sp_s (((sp_thr s)(i := th)) j)" "\<lambda>j. sp_s (sp_thr s j)"] by simp_all

lemma sp_member:
  assumes "i < sp_threads s"
  shows "sp_x (sp_thr s i) \<le> sp_total_x s" "sp_s (sp_thr s i) \<le> sp_total_s s"
  unfolding sp_total_x_def sp_total_s_def by (rule member_le_sum_lt[OF assms])+

text \<open>One thread moves: the word and its guards move together, and the flag needs a writer.\<close>

lemma spin_move:
  assumes inv: "spin_inv s" and i: "i < sp_threads s"
    and t: "sp_threads t = sp_threads s" "sp_thr t = (sp_thr s)(i := th)"
    and tk: "sp_taken s \<le> sp_taken t" "sp_s th \<le> sp_s (sp_thr s i) + (sp_taken t - sp_taken s)"
    and mv: "sp_taken t < WRITER_CNT \<Longrightarrow> lock_move (spin_word s) (sp_x (sp_thr s i)) (sp_s (sp_thr s i)) (spin_word t) (sp_x th) (sp_s th)"
    and fl: "wp (spin_word t) \<Longrightarrow> 0 < sp_x th \<or> wants_x (sp_pc th) \<or>
      (wp (spin_word s) \<and> sp_x th = sp_x (sp_thr s i) \<and> (wants_x (sp_pc (sp_thr s i)) \<longrightarrow> wants_x (sp_pc th)))"
  shows "spin_inv t"
proof -
  note u = sp_total_upd[OF i t]
  note le = sp_member[OF i]
  have "sp_total_s s \<le> sp_taken s" using inv by (simp add: spin_inv_def)
  then have bound: "sp_total_s t \<le> sp_taken t" using u(2) tk le(2) by linarith
  show ?thesis
  proof (cases "sp_taken t < WRITER_CNT")
    case False
    with bound show ?thesis by (simp add: spin_inv_def)
  next
    case True
    then have taken: "sp_taken s < WRITER_CNT" using tk(1) by simp
    note I = inv[unfolded spin_inv_def, THEN conjunct2, rule_format, OF taken]
    have "if rcnt (spin_word t) = WRITER_CNT then sp_total_x t = 1 \<and> sp_total_s t = 0
      else sp_total_x t = 0 \<and> sp_total_s t = rcnt (spin_word t)"
      using mv[OF True] by cases (use I[THEN conjunct1] u le in \<open>simp_all split: if_splits\<close>)
    moreover have "0 < sp_total_x t \<or> (\<exists>j < sp_threads t. wants_x (sp_pc (sp_thr t j)))" if w: "wp (spin_word t)"
    proof -
      consider "0 < sp_x th" | "wants_x (sp_pc th)"
        | "wp (spin_word s)" "sp_x th = sp_x (sp_thr s i)" "wants_x (sp_pc (sp_thr s i)) \<longrightarrow> wants_x (sp_pc th)"
        using fl[OF w] by auto
      then show ?thesis
      proof cases
        case 1
        then show ?thesis using u(1) le(1) by simp
      next
        case 2
        then show ?thesis using i t by auto
      next
        case 3
        with I have "0 < sp_total_x s \<or> (\<exists>j < sp_threads s. wants_x (sp_pc (sp_thr s j)))" by blast
        with 3 u(1) t i show ?thesis by (auto split: if_splits)
      qed
    qed
    ultimately show ?thesis using bound True by (simp add: spin_inv_def)
  qed
qed

lemma got_x_inv:
  assumes inv: "spin_inv s" and i: "i < sp_threads s" and w: "rcnt (spin_word s) = 0" "rcnt v = WRITER_CNT"
  shows "spin_inv (got_x s i v)"
  by (rule spin_move[OF inv i, where th = "(sp_thr s i)\<lparr>sp_pc := SpIdle, sp_x := sp_x (sp_thr s i) + 1\<rparr>"])
    (use w in \<open>auto simp: got_x_def intro!: lm_take_x\<close>)

lemma got_s_inv:
  assumes inv: "spin_inv s" and i: "i < sp_threads s" and w: "rcnt (spin_word s) < WRITER_CNT" "\<not> wp (spin_word s)"
    and v: "v = spin_word s + ONE_READER" and p: "\<not> wants_x (sp_pc (sp_thr s i))"
  shows "spin_inv (got_s s i v)"
proof (rule spin_move[OF inv i, where th = "(sp_thr s i)\<lparr>sp_pc := SpIdle, sp_s := sp_s (sp_thr s i) + 1\<rparr>"])
  assume t: "sp_taken (got_s s i v) < WRITER_CNT"
  then have "rcnt (spin_word s) \<le> sp_taken s" "Suc (sp_taken s) < WRITER_CNT"
    using inv w(1) unfolding spin_inv_def got_s_def by (auto split: if_splits)
  then show "lock_move (spin_word s) (sp_x (sp_thr s i)) (sp_s (sp_thr s i)) (spin_word (got_s s i v))
      (sp_x ((sp_thr s i)\<lparr>sp_pc := SpIdle, sp_s := sp_s (sp_thr s i) + 1\<rparr>)) (sp_s ((sp_thr s i)\<lparr>sp_pc := SpIdle, sp_s := sp_s (sp_thr s i) + 1\<rparr>))"
    using rcnt_plus[OF w(1)] v by (auto simp: got_s_def intro!: lm_take_s)
qed (use rcnt_plus(3)[OF w(1)] w v p in \<open>auto simp: got_s_def\<close>)

lemma sp_go_inv:
  assumes inv: "spin_inv s" and i: "i < sp_threads s" and v: "rcnt v = rcnt (spin_word s)"
    and f: "wp v \<Longrightarrow> wants_x q \<or> (wp (spin_word s) \<and> (wants_x (sp_pc (sp_thr s i)) \<longrightarrow> wants_x q))"
  shows "spin_inv ((sp_go s i q)\<lparr>spin_word := v\<rparr>)"
  by (rule spin_move[OF inv i, where th = "(sp_thr s i)\<lparr>sp_pc := q\<rparr>"]) (use v f in \<open>auto intro!: lm_same\<close>)

lemma sp_pc_inv:
  assumes inv: "spin_inv s" and i: "i < sp_threads s" and f: "wants_x (sp_pc (sp_thr s i)) \<longrightarrow> wants_x q"
  shows "spin_inv (sp_go s i q)"
  using sp_go_inv[OF inv i, of "spin_word s" q] f by simp

lemma writer_or: "rcnt w = 0 \<Longrightarrow> rcnt (w OR ONE_WRITER) = WRITER_CNT"
proof -
  have "(w OR ONE_WRITER) AND ONE_WRITER = ONE_WRITER" by (rule bit_word_eqI) (auto simp: bit_simps)
  then show ?thesis by (simp only: and_writer_all)
qed

lemma exclusive_slow_inv:
  assumes inv: "spin_inv s" and i: "i < sp_threads s" and st: "spin_exclusive_slow s i b (sp_pc (sp_thr s i)) = Some t"
  shows "spin_inv t"
proof (cases "sp_pc (sp_thr s i)")
  case XLoad
  with st sp_pc_inv[OF inv i, of "XLoop (spin_word s)"] show ?thesis by (simp add: wants_x_def)
next
  case (XLoop old)
  have "spin_inv (sp_go s i (XLoop (spin_word s)))" "spin_inv (sp_go s i XLoad)"
    by (rule sp_pc_inv[OF inv i]; simp add: wants_x_def)+
  moreover have "spin_inv ((sp_go s i XLoad)\<lparr>spin_word := spin_word s OR WRITERS_PARKED\<rparr>)"
    by (rule sp_go_inv[OF inv i]) (simp_all add: wants_x_def)
  moreover have "spin_inv (got_x s i (spin_word s OR ONE_WRITER))" if "spin_word s AND ONE_WRITER = 0"
    using that by (intro got_x_inv[OF inv i] writer_or) (simp_all add: word_view)
  ultimately show ?thesis using st XLoop by (auto split: if_splits)
qed (use st in auto)

lemma checked_add_reader:
  "checked_add w ONE_READER = Some v \<Longrightarrow> v = w + ONE_READER \<and> rcnt w < WRITER_CNT"
  using unat_rcnt[of w] by (auto simp: checked_add_def ONE_READER_def split: if_splits)

lemma shared_slow_inv:
  assumes inv: "spin_inv s" and i: "i < sp_threads s" and st: "spin_shared_slow s i b c (sp_pc (sp_thr s i)) = Some t"
  shows "spin_inv t"
proof -
  have go: "spin_inv (sp_go s i q)" if "\<not> wants_x (sp_pc (sp_thr s i))" for q
    using sp_pc_inv[OF inv i] that by simp
  have got: "spin_inv (got_s s i v)" if "\<not> wants_x (sp_pc (sp_thr s i))" "checked_add (spin_word s) ONE_READER = Some v"
    "spin_word s AND WRITERS_PARKED = 0" for v
    using got_s_inv[OF inv i] checked_add_reader[OF that(2)] that(1,3) by (simp add: word_view)
  show ?thesis
  proof (cases "sp_pc (sp_thr s i)")
    case (SFast old)
    then have "\<not> wants_x (sp_pc (sp_thr s i))" by (simp add: wants_x_def)
    from go[OF this] got[OF this] st SFast show ?thesis by (auto split: option.splits if_splits)
  next
    case SLoad
    then have "\<not> wants_x (sp_pc (sp_thr s i))" by (simp add: wants_x_def)
    from go[OF this] st SLoad show ?thesis by auto
  next
    case (SLoop old)
    then have w: "\<not> wants_x (sp_pc (sp_thr s i))" by (simp add: wants_x_def)
    moreover have "spin_inv ((sp_go s i SSpin)\<lparr>spin_word := spin_word s OR READERS_PARKED\<rparr>)"
      by (rule sp_go_inv[OF inv i]) (use w in simp_all)
    ultimately show ?thesis using go[OF w] got[OF w] st SLoop by (auto split: option.splits if_splits)
  next
    case SSpin
    then have "\<not> wants_x (sp_pc (sp_thr s i))" by (simp add: wants_x_def)
    from go[OF this] st SSpin inv show ?thesis by (auto split: if_splits)
  qed (use st in auto)
qed

lemma unlock_x_inv:
  assumes inv: "spin_inv s" and i: "i < sp_threads s" and x: "0 < sp_x (sp_thr s i)"
  shows "spin_inv (spin_unlock_exclusive s i)"
proof (rule spin_move[OF inv i, where th = "(sp_thr s i)\<lparr>sp_x := sp_x (sp_thr s i) - 1\<rparr>"])
  assume "sp_taken (spin_unlock_exclusive s i) < WRITER_CNT"
  then have "rcnt (spin_word s) = WRITER_CNT" using inv sp_member(1)[OF i] x
    unfolding spin_inv_def spin_unlock_exclusive_def by (auto split: if_splits)
  moreover obtain k where "sp_x (sp_thr s i) = Suc k" using x by (cases "sp_x (sp_thr s i)") auto
  ultimately show "lock_move (spin_word s) (sp_x (sp_thr s i)) (sp_s (sp_thr s i)) (spin_word (spin_unlock_exclusive s i))
      (sp_x ((sp_thr s i)\<lparr>sp_x := sp_x (sp_thr s i) - 1\<rparr>)) (sp_s ((sp_thr s i)\<lparr>sp_x := sp_x (sp_thr s i) - 1\<rparr>))"
    by (auto simp: spin_unlock_exclusive_def UNLOCKED_def intro!: lm_drop_x)
qed (auto simp: spin_unlock_exclusive_def UNLOCKED_def wp_def)

lemma unlock_s_inv:
  assumes inv: "spin_inv s" and i: "i < sp_threads s" "sp_pc (sp_thr s i) = SpIdle" and x: "0 < sp_s (sp_thr s i)"
  shows "spin_inv (spin_unlock_shared s i)" (is "spin_inv ?t")
proof -
  let ?th = "(sp_thr s i)\<lparr>sp_s := sp_s (sp_thr s i) - 1, sp_pc := if spin_word s = ONE_READER OR WRITERS_PARKED then UCas else SpIdle\<rparr>"
  have r: "0 < rcnt (spin_word s)" "rcnt (spin_word s) < WRITER_CNT" if "sp_taken s < WRITER_CNT"
    using inv sp_member(2)[OF i(1)] x that rcnt_le[of "spin_word s"] unfolding spin_inv_def by (auto split: if_splits)
  obtain k where k: "sp_s (sp_thr s i) = Suc k" using x by (cases "sp_s (sp_thr s i)") auto
  show ?thesis
  proof (cases "sp_taken s < WRITER_CNT")
    case True
    show ?thesis
      by (rule spin_move[OF inv i(1), where th = ?th])
        (use rcnt_minus[OF r(1)[OF True]] r[OF True] k i(2) in
          \<open>auto simp: spin_unlock_shared_def wants_x_def intro!: lm_drop_s\<close>)
  next
    case False
    have "sp_total_s ?t \<le> sp_taken s"
      using sp_total_upd(2)[OF i(1), of ?t ?th] inv k by (simp add: spin_unlock_shared_def spin_inv_def)
    with False show ?thesis by (simp add: spin_inv_def spin_unlock_shared_def)
  qed
qed

lemma unlock_cas_inv:
  assumes inv: "spin_inv s" and i: "i < sp_threads s" "sp_pc (sp_thr s i) = UCas"
  shows "spin_inv (spin_unlock_cas s i)"
  unfolding spin_unlock_cas_def
  by (rule sp_go_inv[OF inv i(1)])
    (use i in \<open>auto simp: wants_x_def UNLOCKED_def wp_def rcnt_def WRITERS_PARKED_def split: if_splits\<close>)

lemma send_inv:
  assumes inv: "spin_inv s" and i: "i < sp_threads s" "j < sp_threads s" "i \<noteq> j"
    and t: "t = s\<lparr>sp_thr := (sp_thr s)(i := a, j := b)\<rparr>" "sp_pc a = sp_pc (sp_thr s i)" "sp_pc b = sp_pc (sp_thr s j)"
    and x: "sp_x a + sp_x b = sp_x (sp_thr s i) + sp_x (sp_thr s j)" "sp_s a + sp_s b = sp_s (sp_thr s i) + sp_s (sp_thr s j)"
  shows "spin_inv t"
proof -
  let ?u = "sp_set s i a"
  have "sp_total_x t = sp_total_x s" "sp_total_s t = sp_total_s s"
    using sp_total_upd[OF i(1), of ?u a] sp_total_upd[of j ?u t b] sp_member[OF i(1)] i x by (simp_all add: t(1))
  moreover have "sp_pc (sp_thr t k) = sp_pc (sp_thr s k)" for k using t by auto
  ultimately show ?thesis using inv by (simp add: spin_inv_def t(1))
qed

lemma spin_inv_step:
  assumes inv: "spin_inv s" and st: "spin_step a s = Some t"
  shows "spin_inv t"
proof (cases a)
  case (SpLockX i)
  with st have i: "i < sp_threads s" "sp_pc (sp_thr s i) = SpIdle" and t: "t = spin_lock_exclusive s i"
    by (auto simp: spin_step_def Let_def split: if_splits)
  have "spin_inv (sp_go s i XLoad)" by (rule sp_pc_inv[OF inv i(1)]) (simp add: wants_x_def)
  with got_x_inv[OF inv i(1), of ONE_WRITER] t show ?thesis by (auto simp: spin_lock_exclusive_def UNLOCKED_def)
next
  case (SpLockS i)
  with st have i: "i < sp_threads s" "sp_pc (sp_thr s i) = SpIdle" and t: "t = spin_lock_shared s i"
    by (auto simp: spin_step_def Let_def split: if_splits)
  then show ?thesis using sp_pc_inv[OF inv i(1), of "SFast (spin_word s)"] by (simp add: spin_lock_shared_def wants_x_def)
next
  case (SpUnlockX i)
  with st unlock_x_inv[OF inv] show ?thesis by (auto simp: spin_step_def Let_def split: if_splits)
next
  case (SpUnlockS i)
  with st unlock_s_inv[OF inv] show ?thesis by (auto simp: spin_step_def Let_def split: if_splits)
next
  case (SpSendX i j)
  with st show ?thesis by (auto simp: spin_step_def Let_def split: if_splits intro!: send_inv[OF inv, of i j])
next
  case (SpSendS i j)
  with st show ?thesis by (auto simp: spin_step_def Let_def split: if_splits intro!: send_inv[OF inv, of i j])
next
  case (SpStep i b c)
  with st have i: "i < sp_threads s" by (auto simp: spin_step_def Let_def split: if_splits)
  with SpStep st exclusive_slow_inv[OF inv i] shared_slow_inv[OF inv i] unlock_cas_inv[OF inv i] show ?thesis
    by (auto simp: spin_step_def Let_def split: if_splits option.splits)
qed

lemma spin_inv_init: "spin_inv (spin_new n)"
  by (simp add: spin_inv_def spin_new_def sp_total_s_def sp_total_x_def UNLOCKED_def wp_def)

interpretation spin: machine spin_step "spin_new n" spin_inv
  for n
  by unfold_locales (auto intro: spin_inv_init spin_inv_step)

section \<open>Properties\<close>

lemma spin_split:
  assumes "spin_inv s" "sp_taken s < 2 ^ 62 - 1"
  shows "if rcnt (spin_word s) = WRITER_CNT then sp_total_x s = 1 \<and> sp_total_s s = 0
      else sp_total_x s = 0 \<and> sp_total_s s = rcnt (spin_word s)"
  using assms unfolding spin_inv_def by simp

lemma spin_alone:
  assumes inv: "spin_inv s" "sp_taken s < 2 ^ 62 - 1" and i: "i < sp_threads s" "0 < sp_x (sp_thr s i)"
  shows "sp_x (sp_thr s i) = 1 \<and> (\<forall>j. j < sp_threads s \<longrightarrow> sp_s (sp_thr s j) = 0 \<and> (j \<noteq> i \<longrightarrow> sp_x (sp_thr s j) = 0))"
proof -
  have t: "sp_total_x s = 1" "sp_total_s s = 0" using spin_split[OF inv] sp_member(1)[OF i(1)] i(2) by (auto split: if_splits)
  have "sp_x (sp_thr s j) = 0" if "j < sp_threads s" "j \<noteq> i" for j
    using two_members_le_sum[OF i(1) that(1), of "\<lambda>k. sp_x (sp_thr s k)"] that(2) i(2) t(1) by (simp add: sp_total_x_def)
  moreover have "sp_s (sp_thr s j) = 0" if "j < sp_threads s" for j using sp_member(2)[OF that] t(2) by simp
  ultimately show ?thesis using sp_member(1)[OF i(1)] i(2) t(1) by auto
qed

text \<open>
  C22: mutual exclusion of \<open>SpinCell\<close>. In every reachable state with fewer than \<open>2^62 - 1\<close> shared
  acquisitions so far, a thread with an exclusive guard has the only guard; and the
  writers-parked flag, which keeps readers out, is up only while some thread holds or
  requests the exclusive side.
\<close>

theorem spin_exclusion:
  assumes "reachable spin_step (spin_new n) s" "sp_taken s < 2 ^ 62 - 1"
  shows "(\<forall>i. i < sp_threads s \<and> 0 < sp_x (sp_thr s i) \<longrightarrow>
      sp_x (sp_thr s i) = 1 \<and> (\<forall>j. j < sp_threads s \<longrightarrow> sp_s (sp_thr s j) = 0 \<and> (j \<noteq> i \<longrightarrow> sp_x (sp_thr s j) = 0))) \<and>
    unat (readers_count (spin_word s)) = sp_total_s s \<and>
    (spin_word s AND WRITERS_PARKED \<noteq> 0 \<longrightarrow> 0 < sp_total_x s \<or> (\<exists>i < sp_threads s. wants_x (sp_pc (sp_thr s i))))"
proof -
  have inv: "spin_inv s" by (rule spin.always[OF assms(1)])
  have F: "wp (spin_word s) \<longrightarrow> 0 < sp_total_x s \<or> (\<exists>i < sp_threads s. wants_x (sp_pc (sp_thr s i)))"
    using inv assms(2) unfolding spin_inv_def by simp
  have "unat (readers_count (spin_word s)) = sp_total_s s" using spin_split[OF inv assms(2)] by (auto simp: word_view split: if_splits)
  moreover have "spin_word s AND WRITERS_PARKED \<noteq> 0 \<longrightarrow> 0 < sp_total_x s \<or> (\<exists>i < sp_threads s. wants_x (sp_pc (sp_thr s i)))"
    using F by (simp add: word_view)
  ultimately show ?thesis using spin_alone[OF inv assms(2)] by blast
qed

theorem spin_exclusion_witness:
  "\<exists>s. reachable spin_step (spin_new 3) s \<and> sp_x (sp_thr s 0) = 1 \<and> sp_s (sp_thr s 1) = 0 \<and> spin_word s AND WRITERS_PARKED \<noteq> 0"
proof -
  have "run_to spin_step [SpLockX 0, SpLockX 2, SpStep 2 False False, SpStep 2 False False, SpLockS 1, SpStep 1 False False] (spin_new 3)
      (\<lambda>s. sp_x (sp_thr s 0) = 1 \<and> spin_word s AND WRITERS_PARKED \<noteq> 0 \<and> sp_taken s = 0 \<and> sp_threads s = 3)" by code_simp
  then obtain s where s: "reachable spin_step (spin_new 3) s" "sp_x (sp_thr s 0) = 1" "spin_word s AND WRITERS_PARKED \<noteq> 0"
    "sp_taken s = 0" "sp_threads s = 3" by (auto dest: run_toD)
  with spin_exclusion[OF s(1), THEN conjunct1, rule_format, of 0] have "sp_s (sp_thr s 1) = 0" by simp
  with s show ?thesis by blast
qed

text \<open>
  The slow path of \<open>lock_shared\<close> does not guard the last count. With \<open>2^62 - 2\<close> readers the
  fast path refuses another one, but the slow path admits it, and the word then reads as
  locked by a writer although only shared guards exist.
\<close>

theorem spin_shared_overflow:
  assumes "spin_word s = ONE_WRITER - ONE_READER" "sp_pc (sp_thr s i) = SLoop (spin_word s)"
  shows "readers_count (spin_word s) = 2 ^ 62 - 2 \<and> try_reader (spin_word s) = None \<and>
    (\<exists>t. spin_shared_slow s i False False (sp_pc (sp_thr s i)) = Some t \<and> sp_s (sp_thr t i) = sp_s (sp_thr s i) + 1 \<and>
       is_writer_locked (spin_word t) \<and> readers_count (spin_word t) = 0)"
proof -
  have w: "readers_count (ONE_WRITER - ONE_READER) = 2 ^ 62 - 2" "\<not> is_writer_locked (ONE_WRITER - ONE_READER)"
    "(ONE_WRITER - ONE_READER) AND WRITERS_PARKED = 0" "checked_add (ONE_WRITER - ONE_READER) ONE_READER = Some ONE_WRITER"
    "is_writer_locked ONE_WRITER" "readers_count ONE_WRITER = 0" "try_reader (ONE_WRITER - ONE_READER) = None"
    by code_simp+
  then show ?thesis using assms by (simp add: got_s_def)
qed

theorem spin_shared_overflow_witness:
  "\<exists>t. spin_shared_slow \<lparr>spin_word = ONE_WRITER - ONE_READER, sp_threads = 1,
      sp_thr = (\<lambda>_. \<lparr>sp_pc = SLoop (ONE_WRITER - ONE_READER), sp_x = 0, sp_s = 0\<rparr>), sp_taken = 0\<rparr> 0 False False
      (SLoop (ONE_WRITER - ONE_READER)) = Some t \<and> sp_s (sp_thr t 0) = 1 \<and> is_writer_locked (spin_word t)"
  using spin_shared_overflow[of "\<lparr>spin_word = ONE_WRITER - ONE_READER, sp_threads = 1,
      sp_thr = (\<lambda>_. \<lparr>sp_pc = SLoop (ONE_WRITER - ONE_READER), sp_x = 0, sp_s = 0\<rparr>), sp_taken = 0\<rparr>" 0] by auto

lemma sub_iter: "((\<lambda>v. v - d) ^^ k) w = w - of_nat k * d" for w d :: "'a::len word"
  by (induction k) (simp_all add: algebra_simps)

text \<open>
  Giving back all shared acquisitions at once is the same as giving them back one by one. For
  every state word \<open>unlock_all_shared\<close> of \<open>RawMutex\<close>, which subtracts the count, and that of \<open>SpinCell\<close>,
  which masks it out, do nothing without readers and otherwise install the word that as many single
  decrements give as there are readers.
\<close>

theorem unlock_all_iterates:
  "spin_unlock_all_shared w = map_option fst (unlock_all_shared w) \<and>
   map_option fst (unlock_all_shared w) =
     (if readers_count w = 0 then None else Some (((\<lambda>v. v - ONE_READER) ^^ unat (readers_count w)) w))"
proof (cases "readers_count w = 0")
  case True
  then show ?thesis by (simp add: spin_unlock_all_shared_def unlock_all_shared_def)
next
  case False
  have raw: "unlock_all_shared w = Some (w AND (READERS_PARKED OR WRITERS_PARKED), w AND WRITERS_PARKED \<noteq> 0)"
    using unlock_all_shared_effect[of w] False by simp
  then have sub: "w - ONE_READER * readers_count w = w AND (READERS_PARKED OR WRITERS_PARKED)"
    using False by (simp add: unlock_all_shared_def Let_def)
  have count: "readers_count w = drop_bit 2 w"
    using False drop_bit_and_not_mask[of 2 w]
    by (auto simp: readers_count_def ONE_WRITER_not_mask simp del: drop_bit_and split: if_splits)
  have "ONE_READER * readers_count w = push_bit 2 (drop_bit 2 w)" by (simp add: count ONE_READER_def push_bit_eq_mult mult.commute)
  also have "\<dots> = w AND NOT (mask 2)" by (simp add: and_not_mask_push_drop)
  finally have all: "ONE_READER * readers_count w = w AND NOT (mask 2)" .
  have m: "READERS_PARKED OR WRITERS_PARKED = mask 2" by (simp add: READERS_PARKED_def WRITERS_PARKED_def mask_eq_exp_minus_1)
  have low: "w AND NOT (ONE_READER * readers_count w) = w AND mask 2"
    unfolding all by (rule bit_word_eqI) (auto simp: bit_simps)
  have keep: "(w AND mask 2) OR WRITERS_PARKED = w AND mask 2" if "w AND WRITERS_PARKED \<noteq> 0"
  proof -
    have "bit w 1" using that by (simp add: word_view wp_def)
    then show ?thesis by (intro bit_word_eqI) (auto simp: bit_simps WRITERS_PARKED_def bit_2_iff)
  qed
  have "spin_unlock_all_shared w = Some (w AND mask 2)"
    using False low keep by (simp add: spin_unlock_all_shared_def Let_def)
  moreover have "((\<lambda>v. v - ONE_READER) ^^ unat (readers_count w)) w = w AND mask 2"
    using sub by (simp add: sub_iter m mult.commute)
  ultimately show ?thesis using False raw m by simp
qed

end
