(* ===== verification/SpinValue.thy ===== *)
theory SpinValue
  imports Guarded SpinCell
begin

text \<open>
  The value of a \<open>SpinCell\<close> (\<open>src/lock_free/splcell.rs\<close>) behind its spinning lock: what is done through an
  \<open>ExclusiveGuard\<close> or a \<open>SharedGuard\<close> until it is dropped is an operation on the value. The lock is sound while
  fewer than \<open>2^62 - 1\<close> shared acquisitions were made. What is done under a \<open>SharedGuard\<close> leaves the value as it is.
\<close>

definition spin_lock :: "(sp_act, spin_sys) lock_ops" where
  "spin_lock =
     \<lparr>lk_step = spin_step,
      lk_call = (\<lambda>w t i. if w then SpLockX i else SpLockS i),
      lk_drop = (\<lambda>w i s. if w then SpUnlockX i else SpUnlockS i),
      lk_inner = (\<lambda>a. case a of SpStep i b c \<Rightarrow> True | _ \<Rightarrow> False),
      lk_idle = (\<lambda>s i. i < sp_threads s \<and> sp_pc (sp_thr s i) = SpIdle),
      lk_got = (\<lambda>s i. 0 < sp_x (sp_thr s i) \<or> 0 < sp_s (sp_thr s i))\<rparr>"

definition exclusive_guard :: "('v \<Rightarrow> 'v \<times> 'r outcome) \<Rightarrow> ('v, 'r) gop" where
  "exclusive_guard f = GOp True False f"

definition shared_guard :: "('v \<Rightarrow> 'r outcome) \<Rightarrow> ('v, 'r) gop" where
  "shared_guard f = GOp False False (\<lambda>v. (v, f v))"

lemma spin_go_other:
  assumes "spin_exclusive_slow s j b (sp_pc (sp_thr s j)) = Some t \<or> spin_shared_slow s j b c (sp_pc (sp_thr s j)) = Some t"
  shows "sp_threads t = sp_threads s \<and> (\<forall>i. i \<noteq> j \<longrightarrow> sp_thr t i = sp_thr s i) \<and> sp_taken s \<le> sp_taken t \<and> sp_pc (sp_thr s j) \<noteq> SpIdle"
  using assms by (cases "sp_pc (sp_thr s j)") (auto simp: got_x_def got_s_def split: if_splits option.splits)

lemma spin_call_other:
  assumes "spin_step a s = Some t" "a \<in> {SpLockX j, SpLockS j, SpUnlockX j, SpUnlockS j}" "i \<noteq> j"
  shows "sp_threads t = sp_threads s \<and> sp_thr t i = sp_thr s i"
  using assms
  by (auto simp: spin_step_def Let_def spin_lock_exclusive_def spin_lock_shared_def spin_unlock_exclusive_def spin_unlock_shared_def
      got_x_def split: if_splits)

lemma spin_taken_mono:
  assumes "spin_step a s = Some t"
  shows "sp_taken s \<le> sp_taken t"
proof (cases a)
  case (SpStep j b c)
  show ?thesis
  proof (cases "sp_pc (sp_thr s j) = UCas")
    case True
    with assms SpStep show ?thesis by (auto simp: spin_step_def Let_def spin_unlock_cas_def split: if_splits)
  next
    case False
    with assms SpStep have "spin_exclusive_slow s j b (sp_pc (sp_thr s j)) = Some t \<or> spin_shared_slow s j b c (sp_pc (sp_thr s j)) = Some t"
      by (auto simp: spin_step_def Let_def split: if_splits option.splits)
    from spin_go_other[OF this] show ?thesis by blast
  qed
qed (use assms in \<open>auto simp: spin_step_def Let_def spin_lock_exclusive_def spin_lock_shared_def spin_unlock_exclusive_def
    spin_unlock_shared_def got_x_def split: if_splits\<close>)

text \<open>The situations of a thread, as for \<open>RwLock\<close>; there is no \<open>try\<close> form.\<close>

fun spin_acquiring :: "bool \<Rightarrow> spc \<Rightarrow> bool" where
  "spin_acquiring w XLoad = w"
| "spin_acquiring w (XLoop st) = w"
| "spin_acquiring w (SFast st) = (\<not> w)"
| "spin_acquiring w SLoad = (\<not> w)"
| "spin_acquiring w (SLoop st) = (\<not> w)"
| "spin_acquiring w SSpin = (\<not> w)"
| "spin_acquiring w _ = False"

definition spin_free :: "spin_sys \<Rightarrow> tid \<Rightarrow> bool" where
  "spin_free s i \<longleftrightarrow> sp_pc (sp_thr s i) \<in> {SpIdle, UCas} \<and> sp_x (sp_thr s i) = 0 \<and> sp_s (sp_thr s i) = 0"

definition spin_holds :: "bool \<Rightarrow> spin_sys \<Rightarrow> tid \<Rightarrow> bool" where
  "spin_holds w s i \<longleftrightarrow> i < sp_threads s \<and> sp_pc (sp_thr s i) = SpIdle \<and>
     sp_x (sp_thr s i) = of_bool w \<and> sp_s (sp_thr s i) = of_bool (\<not> w)"

definition spin_calling :: "bool \<Rightarrow> bool \<Rightarrow> spin_sys \<Rightarrow> tid \<Rightarrow> bool" where
  "spin_calling w t s i \<longleftrightarrow> i < sp_threads s \<and>
     (spin_holds w s i \<or> spin_acquiring w (sp_pc (sp_thr s i)) \<and> sp_x (sp_thr s i) = 0 \<and> sp_s (sp_thr s i) = 0)"

text \<open>A step of an acquisition goes on or gets its guard.\<close>

definition spin_acquires :: "bool \<Rightarrow> sp_thread \<Rightarrow> sp_thread \<Rightarrow> bool" where
  "spin_acquires b th th' \<longleftrightarrow>
     sp_x th' = sp_x th \<and> sp_s th' = sp_s th \<and> spin_acquiring b (sp_pc th') \<or>
     sp_pc th' = SpIdle \<and> sp_x th' = sp_x th + of_bool b \<and> sp_s th' = sp_s th + of_bool (\<not> b)"

lemma spin_exclusive_acquires:
  "spin_exclusive_slow s i w p = Some t \<Longrightarrow> spin_acquiring True p \<and> sp_threads t = sp_threads s \<and> spin_acquires True (sp_thr s i) (sp_thr t i)"
  by (cases p) (auto simp: spin_acquires_def got_x_def split: if_split_asm)

lemma spin_shared_acquires:
  "spin_shared_slow s i w c p = Some t \<Longrightarrow> sp_pc (sp_thr s i) = p \<Longrightarrow>
   spin_acquiring False p \<and> sp_threads t = sp_threads s \<and> spin_acquires False (sp_thr s i) (sp_thr t i)"
  by (cases p) (auto simp: spin_acquires_def got_s_def split: if_split_asm option.split_asm)

lemma spin_acquiring_kind: "spin_acquiring w p \<Longrightarrow> spin_acquiring b p \<longleftrightarrow> b = w"
  by (cases p) auto

lemma spin_go_calling:
  assumes "spin_exclusive_slow s i b (sp_pc (sp_thr s i)) = Some t \<or> spin_shared_slow s i b c (sp_pc (sp_thr s i)) = Some t"
    "spin_calling w tr s i"
  shows "spin_calling w tr t i"
proof -
  have "sp_pc (sp_thr s i) \<noteq> SpIdle" using assms(1) by auto
  then have a: "spin_acquiring w (sp_pc (sp_thr s i))" "sp_x (sp_thr s i) = 0" "sp_s (sp_thr s i) = 0" "i < sp_threads s"
    using assms(2) by (auto simp: spin_calling_def spin_holds_def)
  have m: "sp_threads t = sp_threads s" "spin_acquires w (sp_thr s i) (sp_thr t i)"
    using assms(1) spin_exclusive_acquires[of s i b _ t] spin_shared_acquires[of s i b c _ t] spin_acquiring_kind[OF a(1)] by metis+
  from m(2) show ?thesis unfolding spin_acquires_def a(2,3) add_0 spin_calling_def spin_holds_def m(1) using a(4) by blast
qed

lemma spin_steps_keep:
  assumes "sp_threads t = sp_threads s" "sp_thr t i = sp_thr s i"
  shows "(spin_free s i \<longrightarrow> spin_free t i) \<and> (spin_calling b c s i \<longrightarrow> spin_calling b c t i) \<and> (spin_holds b s i \<longrightarrow> spin_holds b t i)"
  unfolding spin_free_def spin_calling_def spin_holds_def assms by blast

lemma spin_inner_situation:
  assumes "lk_inner spin_lock a" "spin_step a s = Some t"
  shows "(spin_free s i \<longrightarrow> spin_free t i) \<and> (spin_calling b c s i \<longrightarrow> spin_calling b c t i) \<and> (spin_holds b s i \<longrightarrow> spin_holds b t i)"
proof -
  obtain j v q where a: "a = SpStep j v q" using assms(1) by (auto simp: spin_lock_def split: sp_act.splits)
  show ?thesis
  proof (cases "sp_pc (sp_thr s j) = UCas")
    case True
    then show ?thesis using assms(2) a
      by (cases "i = j") (auto simp: spin_step_def Let_def spin_unlock_cas_def spin_free_def spin_calling_def spin_holds_def split: if_splits)
  next
    case False
    with assms(2) a have st: "spin_exclusive_slow s j v (sp_pc (sp_thr s j)) = Some t \<or> spin_shared_slow s j v q (sp_pc (sp_thr s j)) = Some t"
      by (auto simp: spin_step_def Let_def split: if_splits option.splits)
    note o = spin_go_other[OF st]
    show ?thesis
    proof (cases "i = j")
      case True
      then have "\<not> spin_free s i" "\<not> spin_holds b s i" using o False by (auto simp: spin_free_def spin_holds_def)
      with spin_go_calling[of s i v t q b c] st True show ?thesis by blast
    qed (use o in \<open>auto intro!: spin_steps_keep\<close>)
  qed
qed

interpretation spin_value: value_lock spin_lock "spin_new n" "\<lambda>s. sp_taken s < 2 ^ 62 - 1" spin_inv spin_free spin_calling spin_holds "\<lambda>w. w"
  for n
proof
  show "spin_inv (spin_new n)" by (rule spin_inv_init)
  show "spin_free (spin_new n) i" for i by (simp add: spin_free_def spin_new_def)
  show "spin_inv l'" if "spin_inv l" "lk_step spin_lock a l = Some l'" for a l l'
    using spin_inv_step[OF that(1)] that(2) by (simp add: spin_lock_def)
  show "(spin_free l i \<longrightarrow> spin_free l' i) \<and> (spin_calling b c l i \<longrightarrow> spin_calling b c l' i) \<and> (spin_holds b l i \<longrightarrow> spin_holds b l' i)"
    if "lk_inner spin_lock a" "lk_step spin_lock a l = Some l'" for a l l' i b c
    using spin_inner_situation[OF that(1)] that(2) by (simp add: spin_lock_def)
  show "(spin_free l i \<longrightarrow> spin_free l' i) \<and> (spin_calling b c l i \<longrightarrow> spin_calling b c l' i) \<and> (spin_holds b l i \<longrightarrow> spin_holds b l' i)"
    if "a = lk_call spin_lock w t j \<or> a = lk_drop spin_lock w j l" "lk_step spin_lock a l = Some l'" "i \<noteq> j" for a w t j l l' i b c
    using spin_call_other[of a l l' j i] that by (intro spin_steps_keep) (auto simp: spin_lock_def split: if_splits)
  show "spin_calling w t l' i" if "spin_free l i" "lk_step spin_lock (lk_call spin_lock w t i) l = Some l'" for w t l l' i
    using that by (auto simp: spin_lock_def spin_step_def Let_def spin_lock_exclusive_def spin_lock_shared_def got_x_def spin_free_def
        spin_calling_def spin_holds_def split: if_splits)
  show "if t \<and> \<not> lk_got spin_lock l i then spin_free l i else spin_holds w l i"
    if "spin_calling w t l i" "lk_idle spin_lock l i" for w t l i
    using that by (auto simp: spin_calling_def spin_holds_def spin_free_def spin_lock_def)
  show "spin_free l' i" if "spin_holds w l i" "lk_step spin_lock (lk_drop spin_lock w i l) l = Some l'" for w l l' i
    using that by (cases w) (auto simp: spin_lock_def spin_step_def Let_def spin_unlock_exclusive_def spin_unlock_shared_def spin_free_def
        spin_holds_def split: if_splits)
  show "\<not> spin_holds b l j" if "spin_inv l" "sp_taken l < 2 ^ 62 - 1" w "spin_holds w l i" "j \<noteq> i" for l w i j b
    using spin_alone[OF that(1,2), of i] that(3-) by (auto simp: spin_holds_def split: if_splits)
  show "sp_taken l < 2 ^ 62 - 1" if "lk_step spin_lock a l = Some l'" "sp_taken l' < 2 ^ 62 - 1" for a l l'
    using spin_taken_mono[of a l l'] that by (simp add: spin_lock_def)
qed

text \<open>
  The value of a \<open>SpinCell\<close> goes through the operations one after the other, and an exclusive section has
  the cell for itself.
\<close>

theorem spin_value_linearizable:
  assumes "run (guarded_step spin_lock) as (guarded_new (spin_new n) v0) = Some s" "sp_taken (g_lock s) < 2 ^ 62 - 1"
    "\<And>i op. GCall i op \<in> set as \<Longrightarrow> (\<exists>f. op = exclusive_guard f) \<or> (\<exists>f. op = shared_guard f)"
  shows "replay v0 (g_log s) = Some (g_val s) \<and>
    executed (answers i (g_log s)) = executed (g_ret s i @ in_flight (g_pc s i)) \<and>
    (guard_of (g_pc s i) = Some True \<longrightarrow> sp_x (sp_thr (g_lock s) i) = 1 \<and> (\<forall>j. j \<noteq> i \<longrightarrow> guard_of (g_pc s j) = None))"
proof -
  note R = reachable_run[OF assms(1)]
  have "only_ops {op. (\<exists>f. op = exclusive_guard f) \<or> (\<exists>f. op = shared_guard f)} s"
    by (rule only_ops_run[OF assms(1)]) (use assms(3) in \<open>auto simp: only_ops_new\<close>)
  then have sf: "spin_value.safe_ops s"
    by (rule spin_value.safe_opsI) (auto simp: spin_value.safe_op_def exclusive_guard_def shared_guard_def)
  have H: "spin_value.held s" by (rule spin_value.client_held[OF R])
  have "sp_x (sp_thr (g_lock s) i) = 1 \<and> (\<forall>j. j \<noteq> i \<longrightarrow> guard_of (g_pc s j) = None)" if "guard_of (g_pc s i) = Some True"
    using spin_value.inside_holds[OF H that] spin_value.inside_alone[OF H assms(2) that] by (simp add: spin_holds_def)
  then show ?thesis using spin_value.linearizable(1)[OF R assms(2) sf] by (simp add: linear_def)
qed

end
