(* ===== verification/Spec2Isabelle.thy ===== *)
theory Spec2Isabelle
  imports Serial_Live RawMutex_Live Buffer_Ops HashMap_Map HashMap_Conc_Count HashMap_Conc_Drop Array_Conc Vec_Ops Vec_Conc_Spec Vec_Conc_Stall RefCount Barrier Parker
    Coord SMutex Mpmc Guard_Life RwLock Cell SpinValue
begin

text \<open>
  A verification development of \<open>crossync\<close>, a Rust crate of synchronisation primitives and concurrent
  containers built on a futex.

  \<^bold>\<open>The program.\<close> At the bottom are the futex shim (\<open>core/futex\<close>), the exponential backoff
  (\<open>core/backoff.rs\<close>) and the reference count shared by all handles (\<open>core/mod.rs\<close>). On them stand four
  locks: \<open>SerialMutex\<close> (\<open>core/serial.rs\<close>: exclusive, or read by one thread), \<open>RawMutex\<close>
  (\<open>core/mutex.rs\<close>: readers and writers), \<open>SMutex\<close> (\<open>core/smutex.rs\<close>: recursive, with a group mode) and the
  spinning lock of \<open>SpinCell\<close> (\<open>lock_free/splcell.rs\<close>); further \<open>SCondVar\<close> (\<open>core/scondvar.rs\<close>),
  \<open>ThreadParker\<close> (\<open>core/thread.rs\<close>), \<open>Barrier\<close> (\<open>sync/barrier.rs\<close>) and \<open>Coord\<close> (\<open>core/coord.rs\<close>: shared pins in
  per-thread lanes against one exclusive side). The locks guard values (\<open>Atomic\<close>, \<open>AtomicCell\<close>,
  \<open>RwLock\<close>, \<open>SpinCell\<close>) and hand out guards (\<open>sync/guard_lock.rs\<close>, \<open>sync/watch_guard_ref.rs\<close>,
  \<open>sync/watch_guard_mut.rs\<close>). The containers are \<open>AtomicBuffer\<close> (bounded ring), \<open>AtomicArray\<close> (bounded,
  slot per lock), \<open>AtomicVec\<close> (linked blocks), \<open>AtomicHashMap\<close> (sharded chains) and the channel \<open>Mpmc\<close>.

  \<^bold>\<open>How it is modelled.\<close> A concurrent component is a record for its shared state and the program
  counters of any number of threads, and a partial step function on labels that name the
  thread that moves (\<open>Prelude\<close>: \<open>run\<close>, \<open>reachable\<close>). One step is one atomic access of the source, so
  the schedules are its sequentially consistent interleavings; a weak exchange that fails, a spurious
  return of the futex call and the choice of the woken thread are part of the labels.
  Words keep their width where the code packs fields or may wrap; overflow checks, panics,
  aborts and refused attempts are values or program counters. Ghost fields (the calls made and the answers they got, how often a
  futex was bumped) are never read by the code. A sequential component is a function on an explicit state,
  for \<open>AtomicVec\<close> with a heap of blocks.

  \<^bold>\<open>Theories and sources.\<close>
  \<^item> \<open>Prelude\<close>, \<open>Refinement\<close>, \<open>Queues\<close>, \<open>Parking\<close>, \<open>RwSpec\<close>, \<open>Guarded\<close>: the shared layer. Locale \<open>machine\<close> has the
    proof obligations of an invariant, \<open>data_refinement\<close> those of a container that implements an
    abstract type, \<open>pop_queue\<close> the contract under which draining a queue is verified, \<open>parking\<close> the
    protocol of a lock on a futex (and the proof that no wake-up is lost), \<open>value_lock\<close> what a value
    relies on from its lock (and the proof that operations take effect one after the other).
    Each is interpreted on the models below.
  \<^item> \<open>Futex\<close>, \<open>Backoff\<close>, \<open>RefCount\<close>: \<open>core/futex/mod.rs\<close>, \<open>core/backoff.rs\<close>, \<open>core/mod.rs\<close> with the \<open>Clone\<close> and \<open>Drop\<close>
    implementations.
  \<^item> \<open>Serial\<close>, \<open>Serial_Safety\<close>, \<open>Serial_Live\<close>: \<open>core/serial.rs\<close>; mutual exclusion, refinement of an abstract
    lock, identities, no lost wake-up.
  \<^item> \<open>RawMutex\<close>, \<open>RawMutex_Safety\<close>, \<open>RawMutex_Live\<close>: \<open>core/mutex.rs\<close>; the same, and the two
    schedules in which readers are stranded or a stale flag is left.
  \<^item> \<open>SMutex\<close>, \<open>SpinCell\<close>, \<open>Coord\<close>, \<open>Barrier\<close>, \<open>Parker\<close>: \<open>core/smutex.rs\<close>, \<open>lock_free/splcell.rs\<close>, \<open>core/coord.rs\<close>,
    \<open>sync/barrier.rs\<close>, \<open>core/thread.rs\<close>; exclusion and progress of each; for \<open>Coord\<close> also
    the panic that ends a call made by a callback under \<open>Exclusive\<close>.
  \<^item> \<open>CondVar\<close>, \<open>Mpmc\<close>: \<open>core/scondvar.rs\<close>, \<open>channels/mpmc.rs\<close>; the calls and their answers are those of a sequential
    bounded queue that can be closed, no message
    left to a sleeper, \<open>close\<close> reaches everybody. The mutex of the channel is its contract (one
    holder), its buffer a list, as \<open>SMutex\<close> and \<open>Vec_Ops\<close> justify.
  \<^item> \<open>Atomic\<close>, \<open>Cell\<close>, \<open>RwLock\<close>, \<open>SpinValue\<close>: \<open>atomic/atomic.rs\<close>, \<open>atomic/cell.rs\<close>, \<open>sync/rw_lock.rs\<close> and the value of
    \<open>lock_free/splcell.rs\<close>: every operation as guard and body, run on the full lock machines. The
    body starts when the lock call has returned; that the thread then owns the guard the operation asked for,
    and linearizability, come from \<open>value_lock\<close>. A callback of \<open>Atomic\<close> that gets \<open>&T\<close> may change the value, as the source
    allows since its reads are exclusive between threads; shared sections of \<open>RwLock\<close> and \<open>SpinCell\<close> overlap and leave it.
  \<^item> \<open>Guard\<close>, \<open>Guard_Life\<close>: \<open>sync/guard_lock.rs\<close> and the two watch guards; validity of a guard, and the life of guards from
    their construction through \<open>protect\<close> and \<open>downcast\<close> (its \<open>ManuallyDrop\<close> local included) to the two releases of \<open>Drop\<close>, while
    other threads use the locks.
  \<^item> \<open>Buffer\<close>, \<open>Buffer_Safety\<close>, \<open>Buffer_Ops\<close>: \<open>atomic/buffer.rs\<close> under full concurrency; the ring protocol, what the
    operations answer, what the two loads of \<open>len_approx\<close> say under contention.
  \<^item> \<open>Array\<close>, \<open>Array_List\<close>, \<open>Array_Conc\<close>: \<open>atomic/array.rs\<close>; refinement of a bounded list for one
    thread, and publication of slots when threads push, read and reset at the same time, over the
    abstract lock that \<open>RawMutex\<close> refines.
  \<^item> \<open>Vec\<close>, \<open>Vec_Rep\<close>, \<open>Vec_List\<close>, \<open>Vec_Ops\<close>: \<open>atomic/vec.rs\<close> over an explicit heap; refinement of a list used first in,
    first out, and exact ownership of the blocks.
  \<^item> \<open>Vec_Conc\<close>, \<open>Vec_Conc_Inv\<close>, \<open>Vec_Conc_Safety\<close>, \<open>Vec_Conc_Spec\<close>, \<open>Vec_Conc_Stall\<close>: \<open>push\<close>, \<open>pop\<close>, \<open>retire\<close> and \<open>try_reclaim\<close> of
    \<open>atomic/vec.rs\<close> as a machine of interleaved accesses for any number of threads; first in, first out by
    reservation, no dangling access and no work on a block that was recycled, and a schedule in which
    pops of an empty vector wait instead of returning.
  \<^item> \<open>HashMap\<close>, \<open>HashMap_Map\<close>: \<open>atomic/hashmap.rs\<close>, one call at a time; refinement of a finite map for any hash function.
  \<^item> \<open>HashMap_Conc\<close>, \<open>HashMap_Conc_Inv\<close>, \<open>HashMap_Conc_Steps\<close>, \<open>HashMap_Conc_Ops\<close>, \<open>HashMap_Conc_Write\<close>, \<open>HashMap_Conc_Clear\<close>, \<open>HashMap_Conc_Spec\<close>,
    \<open>HashMap_Conc_Count\<close>, \<open>HashMap_Conc_Drop\<close>: \<open>insert\<close>, \<open>remove\<close>, \<open>contains_key\<close>, \<open>get\<close>, \<open>get_mut\<close>, \<open>clear\<close> and the guards of
    \<open>atomic/hashmap.rs\<close> as a machine of interleaved accesses over a heap of entries, for any number of threads;
    linearizability to a finite map, no dangling access and no leak, validity of guards that outlive
    their call, exact counters at rest, exact destruction. The slot and shard locks are their contracts,
    the transitions of the abstract locks that \<open>Serial_Safety\<close> and \<open>RawMutex_Safety\<close> refine.

  \<^bold>\<open>Bounds.\<close> The wake-up theorems assume fewer than \<open>2^32\<close> bumps of a futex, since its word
  is 32 bits wide and a sleeper that misses exactly that many bumps is not woken; \<open>AtomicBuffer\<close> assumes
  fewer than \<open>2^63\<close> pushes, \<open>RefCount\<close> fewer than \<open>2^63\<close> threads (each may hold one aborting clone beyond
  \<open>isize::MAX\<close>), \<open>SpinCell\<close> fewer than \<open>2^62 - 1\<close> shared acquisitions, after which its slow path may produce the
  writer pattern. The recursion counter of \<open>SMutex\<close>, the lane counters of \<open>Coord\<close>, the counters of
  \<open>SCondVar\<close> and the indices of \<open>AtomicVec\<close> are natural numbers. No fuel is used where a result is
  claimed: loops of a thread that is alone are total functions or \<open>partial_function\<close>s with a proof that
  they return.

  \<^bold>\<open>Not modelled.\<close> Memory orderings weaker than sequential consistency: a step sees all earlier steps.
  The system calls behind the futex (\<open>core/futex/linux.rs\<close>, \<open>macos.rs\<close>, \<open>freebsd.rs\<close>, \<open>windows.rs\<close>) only forward to the
  operating system. Callbacks of \<open>Atomic\<close>, \<open>AtomicCell\<close> and \<open>RwLock\<close> that use the same object again, guards that move
  to another thread before they are dropped (for the locks themselves this is modelled), panics of
  user code run by a container (hashers, comparisons, destructors), the lock \<open>AtomicHashMap\<close> puts around a hash builder that is
  not \<open>Sync\<close>, \<open>Debug\<close> formatting, the crate root, tests and benchmarks.
\<close>

end
